(* ===== verification/Prelude.thy ===== *)
theory Prelude
  imports Main "HOL-Library.Word" "HOL-Library.AList" "HOL-Library.Product_Lexorder"
begin

text \<open>
  Shared vocabulary of the development: the types that stand for Python values, the
  result monad that stands for raising, ordered dictionaries, inclusive byte ranges, and
  the generic list lemmas the component theories lean on.

  \<^item> \<open>bytes\<close> is Python's \<open>bytes\<close>; \<open>string\<close> is a \<open>str\<close> whose code points lie below 256.
  \<^item> Python integers are \<open>int\<close>; addresses of heap objects and list positions are \<open>nat\<close>.
  \<^item> A Python \<open>dict\<close> keeps insertion order, which the code observes (\<open>values()\<close>,
    \<open>items()\<close>, \<open>max\<close> over a dict). It is an association list with distinct keys;
    \<open>d[k] = v\<close> is \<open>AList.update\<close> (in place when the key exists, at the end
    otherwise) and \<open>del d[k]\<close> is \<open>AList.delete\<close>.
  \<^item> A statement that may raise returns \<open>exn + 'a\<close>, the exception on the left.
\<close>

type_synonym bytes = "8 word list"
type_synonym ('k, 'v) dict = "('k \<times> 'v) list"

named_theorems range_simps \<open>facts about inclusive ranges and slices\<close>
named_theorems dict_simps \<open>facts about ordered dictionaries\<close>

section \<open>Ordered dictionaries\<close>

definition dict_ok :: "('k, 'v) dict \<Rightarrow> bool" where
  "dict_ok d \<longleftrightarrow> distinct (map fst d)"

definition dict_has :: "('k, 'v) dict \<Rightarrow> 'k \<Rightarrow> bool" where
  "dict_has d k \<longleftrightarrow> k \<in> set (map fst d)"

definition dict_setdefault :: "'k \<Rightarrow> 'v \<Rightarrow> ('k, 'v) dict \<Rightarrow> ('k, 'v) dict" where
  "dict_setdefault k v d = (if dict_has d k then d else d @ [(k, v)])"

text \<open>\<open>d.setdefault(k, []).extend(xs)\<close> on a dictionary of lists.\<close>

definition dict_extend :: "'k \<Rightarrow> 'a list \<Rightarrow> ('k, 'a list) dict \<Rightarrow> ('k, 'a list) dict" where
  "dict_extend k xs d =
     (case map_of d k of None \<Rightarrow> d @ [(k, xs)] | Some ys \<Rightarrow> AList.update k (ys @ xs) d)"

text \<open>\<open>d.update(e)\<close>\<close>

definition dict_update_all :: "('k, 'v) dict \<Rightarrow> ('k, 'v) dict \<Rightarrow> ('k, 'v) dict" where
  "dict_update_all d e = fold (\<lambda>(k, v). AList.update k v) e d"

text \<open>Python compares dictionaries without regard to the order of their items.\<close>

definition dict_eq :: "('k, 'v) dict \<Rightarrow> ('k, 'v) dict \<Rightarrow> bool" where
  "dict_eq d e \<longleftrightarrow> length d = length e \<and> (\<forall>(k, v) \<in> set d. map_of e k = Some v)"

lemma dict_has_iff_map_of [dict_simps]: "dict_has d k \<longleftrightarrow> map_of d k \<noteq> None"
  by (simp add: dict_has_def map_of_eq_None_iff)

lemma dict_ok_update [simp]: "dict_ok d \<Longrightarrow> dict_ok (AList.update k v d)"
  by (simp add: dict_ok_def distinct_update)

lemma dict_ok_delete [simp]: "dict_ok d \<Longrightarrow> dict_ok (AList.delete k d)"
  by (simp add: dict_ok_def distinct_delete)

lemma update_new: "k \<notin> fst ` set d \<Longrightarrow> AList.update k v d = d @ [(k, v)]"
  by (induction d) auto

lemma delete_absent: "k \<notin> fst ` set d \<Longrightarrow> AList.delete k d = d"
  by (induction d) auto

lemma delete_subset: "set (AList.delete k d) \<subseteq> set d"
  by (induction d) auto

lemma update_subset: "set (AList.update k v d) \<subseteq> insert (k, v) (set d)"
  by (induction d) auto

lemma dict_ok_Nil [simp]: "dict_ok []"
  by (simp add: dict_ok_def)

lemma dict_ok_setdefault [simp]: "dict_ok d \<Longrightarrow> dict_ok (dict_setdefault k v d)"
  by (auto simp: dict_ok_def dict_setdefault_def dict_has_def)

lemma map_of_setdefault [simp]:
  "map_of (dict_setdefault k v d) x =
     (if x = k then Some (case map_of d k of None \<Rightarrow> v | Some w \<Rightarrow> w) else map_of d x)"
  by (auto simp: dict_setdefault_def dict_simps map_add_def split: option.splits)

lemma map_of_dict_extend [simp]:
  "map_of (dict_extend k xs d) x =
     (if x = k then Some ((case map_of d k of None \<Rightarrow> [] | Some ys \<Rightarrow> ys) @ xs) else map_of d x)"
  by (auto simp: dict_extend_def update_conv' map_add_def split: option.splits)

lemma dict_ok_extend [simp]: "dict_ok d \<Longrightarrow> dict_ok (dict_extend k xs d)"
  by (auto simp: dict_extend_def dict_ok_def distinct_update map_of_eq_None_iff
      split: option.splits)

lemma map_of_dict_update_all:
  "map_of (dict_update_all d e) = map_of d ++ map_of (rev e)"
proof (induction e arbitrary: d)
  case Nil
  then show ?case by (simp add: dict_update_all_def)
next
  case (Cons p e)
  have "map_of (dict_update_all d (p # e)) =
      map_of (dict_update_all (AList.update (fst p) (snd p) d) e)"
    by (simp add: dict_update_all_def split: prod.splits)
  also have "\<dots> = (map_of d)(fst p \<mapsto> snd p) ++ map_of (rev e)"
    by (simp only: Cons.IH update_conv')
  also have "\<dots> = map_of d ++ map_of (rev (p # e))"
    by (cases p) (auto simp: map_add_def fun_eq_iff split: option.splits)
  finally show ?case .
qed

lemma map_of_rev_dict: "dict_ok e \<Longrightarrow> map_of (rev e) = map_of e"
  by (rule map_of_inject_set [THEN iffD2]) (simp_all add: dict_ok_def rev_map [symmetric])

lemma dict_ok_update_all [simp]: "dict_ok d \<Longrightarrow> dict_ok (dict_update_all d e)"
  by (induction e arbitrary: d) (auto simp: dict_update_all_def split: prod.splits)

section \<open>Inclusive ranges\<close>

text \<open>
  The whole code base addresses bytes by ranges \<open>[begin, end]\<close> with both ends included.
  \<open>subrange xs b e\<close> is what such a range denotes on a byte sequence.
\<close>

definition subrange :: "'a list \<Rightarrow> int \<Rightarrow> int \<Rightarrow> 'a list" where
  "subrange xs b e = take (nat (e - b + 1)) (drop (nat b) xs)"

lemma length_subrange [range_simps]:
  "0 \<le> b \<Longrightarrow> e < int (length xs) \<Longrightarrow> length (subrange xs b e) = nat (e - b + 1)"
  by (simp add: subrange_def)

lemma subrange_empty [simp]: "e < b \<Longrightarrow> subrange xs b e = []"
  by (simp add: subrange_def)

lemma subrange_all [simp]: "subrange xs 0 (int (length xs) - 1) = xs"
  by (simp add: subrange_def)

lemma subrange_split:
  assumes "0 \<le> b" and "b \<le> m" and "m \<le> e + 1"
  shows "subrange xs b e = subrange xs b (m - 1) @ subrange xs m e"
proof -
  have "nat (e - b + 1) = nat (m - b) + nat (e - m + 1)"
    using assms by simp
  moreover have "drop (nat m) xs = drop (nat (m - b)) (drop (nat b) xs)"
    using assms by (simp add: nat_diff_distrib)
  ultimately show ?thesis
    by (simp add: subrange_def take_add)
qed

lemma subrange_subrange:
  assumes "0 \<le> b" and "0 \<le> b'" and "b + e' \<le> e"
  shows "subrange (subrange xs b e) b' e' = subrange xs (b + b') (b + e')"
proof (cases "e' < b'")
  case True
  then show ?thesis by simp
next
  case False
  have "nat (b + b') = nat b' + nat b"
    using assms by simp
  moreover have "min (nat (e' - b' + 1)) (nat (e - b + 1) - nat b') = nat (e' - b' + 1)"
    using assms False by simp
  ultimately show ?thesis
    using assms by (simp add: subrange_def drop_take)
qed

lemma subrange_append_left:
  assumes "0 \<le> b" and "e < int (length xs)"
  shows "subrange (xs @ ys) b e = subrange xs b e"
  using assms by (cases "e < b") (simp_all add: subrange_def)

lemma subrange_append_right:
  assumes "int (length xs) \<le> b"
  shows "subrange (xs @ ys) b e = subrange ys (b - int (length xs)) (e - int (length xs))"
  using assms by (simp add: subrange_def nat_diff_distrib)

lemma subrange_append:
  assumes "0 \<le> b"
  shows "subrange (xs @ ys) b e = subrange xs b (min (int (length xs) - 1) e)
    @ subrange ys (max 0 (b - int (length xs))) (e - int (length xs))"
proof (cases "int (length xs) \<le> b")
  case True
  then show ?thesis by (simp add: subrange_append_right)
next
  case inside: False
  show ?thesis
  proof (cases "e < int (length xs)")
    case True
    with inside assms show ?thesis by (simp add: subrange_append_left)
  next
    case False
    with inside assms have "subrange (xs @ ys) b e
        = subrange (xs @ ys) b (int (length xs) - 1) @ subrange (xs @ ys) (int (length xs)) e"
      by (intro subrange_split) auto
    with inside False assms show ?thesis
      by (simp add: subrange_append_left subrange_append_right)
  qed
qed

lemma drop_subrange:
  assumes "0 \<le> b"
  shows "drop k (subrange xs b e) = subrange xs (b + int k) e"
proof -
  have "nat (e - b + 1) - k = nat (e - (b + int k) + 1)" by simp
  moreover have "nat (b + int k) = nat b + k" using assms by simp
  ultimately show ?thesis by (simp add: subrange_def drop_take add.commute)
qed

lemma int_div_less:
  assumes "0 < b" and "x < n * b"
  shows "x div b < (n :: int)"
proof (rule ccontr)
  assume "\<not> x div b < n"
  then have "n * b \<le> x div b * b" using assms(1) by (intro mult_right_mono) auto
  moreover have "x div b * b \<le> x"
    using div_mult_mod_eq [of x b] pos_mod_sign [OF assms(1), of x] by linarith
  ultimately show False using assms(2) by linarith
qed

section \<open>Generic list facts\<close>

lemma fold_invariant: "P x \<Longrightarrow> (\<And>a x. a \<in> set as \<Longrightarrow> P x \<Longrightarrow> P (f a x)) \<Longrightarrow> P (fold f as x)"
  by (induction as arbitrary: x) auto

lemma sum_list_int_nonneg: "\<forall>x\<in>set xs. 0 \<le> x \<Longrightarrow> 0 \<le> sum_list (xs :: int list)"
  by (induction xs) auto

lemma sum_list_take_le:
  "\<forall>x\<in>set xs. 0 \<le> x \<Longrightarrow> sum_list (take n xs) \<le> sum_list (xs :: int list)"
proof (induction xs arbitrary: n)
  case (Cons x xs)
  then show ?case
    by (cases n) (auto intro: sum_list_int_nonneg add_nonneg_nonneg)
qed simp

end
