(* ===== verification/Errors.thy ===== *)
theory Errors
  imports Prelude
begin

text \<open>
  The exceptions of \<open>src/tgdcfs/errors\<close> and the built-in ones the modelled code raises.
  A \<open>BusinessError\<close> carries a code of the \<open>ErrorCode\<close> enumeration and an HTTP status,
  which the WebDAV and manager front ends answer with. The text of a message is kept where
  the class builds it from its argument; a \<open>TechnicalError\<close> raised with a formatted text
  keeps no text.
\<close>

datatype ErrorCode =
    UNKNOWN
  | FILE_IS_EMPTY
  | FILE_OR_DIR_ALREADY_EXISTS
  | FILE_OR_DIR_DOES_NOT_EXIST
  | INVALID_NAME
  | RELATIVE_PATH
  | UNKNOWN_COMMAND
  | DIR_IS_NOT_EMPTY
  | FILE_SIZE_TOO_LARGE
  | MESSAGE_NOT_FOUND
  | BAD_AUTHENTICATION
  | METADATA_NOT_FOUND
  | METADATA_NOT_INITIALIZED
  | UNDOWNLOADABLE_MESSAGE
  | NO_PINNED_MESSAGE
  | PINNED_MESSAGE_NOT_SUPPORTED
  | TASK_CANCELLED
  | LOGIN_FAILED
  | DUPLICATED_CHANNEL_ID_OR_NAME

datatype exn =
    TechnicalError
  | FileOrDirectoryAlreadyExists string
  | FileOrDirectoryDoesNotExist string
  | InvalidName string
  | InvalidPath string
  | DirectoryIsNotEmpty string
  | FileSizeTooLarge int
  | MessageNotFound int
  | MetadataNotFound
  | MetadataNotInitialized
  | UnDownloadableMessage int
  | NoPinnedMessage
  | PinnedMessageNotSupported
  | TaskCancelled string
  | LoginFailed string
  | DuplicatedChannelIdOrName string
  | InvalidHeaderError
  | CipherError
  | NameEncryptionError
  | PathNameEncryptionError
  \<comment> \<open>built-in exceptions\<close>
  | ValueError
  | TypeError
  | KeyError string
  | IndexError
  | AttributeError
  | StructError
  | BinasciiError
  | UnicodeDecodeError
  | RuntimeError
  | OSError
  | NotImplementedError
  | StopAsyncIteration

type_synonym 'a res = "exn + 'a"

definition rbind :: "'a res \<Rightarrow> ('a \<Rightarrow> 'b res) \<Rightarrow> 'b res" where
  "rbind m f = (case m of Inl e \<Rightarrow> Inl e | Inr x \<Rightarrow> f x)"

lemma rbind_simps [simp]: "rbind (Inl e) f = Inl e" "rbind (Inr x) f = f x"
  by (simp_all add: rbind_def)

lemma rbind_Inr_iff: "rbind m f = Inr y \<longleftrightarrow> (\<exists>x. m = Inr x \<and> f x = Inr y)"
  by (cases m) simp_all

text \<open>Evaluate a list of fallible steps, stopping at the first exception.\<close>

fun rmap :: "('a \<Rightarrow> 'b res) \<Rightarrow> 'a list \<Rightarrow> 'b list res" where
  "rmap f [] = Inr []"
| "rmap f (x # xs) = rbind (f x) (\<lambda>y. rbind (rmap f xs) (\<lambda>ys. Inr (y # ys)))"

lemma rmap_Inr: "(\<And>x. x \<in> set xs \<Longrightarrow> f x = Inr (g x)) \<Longrightarrow> rmap f xs = Inr (map g xs)"
  by (induction xs) simp_all

lemma rmap_length: "rmap f xs = Inr ys \<Longrightarrow> length ys = length xs"
  by (induction xs arbitrary: ys) (auto simp: rbind_Inr_iff)

fun business_code :: "exn \<Rightarrow> ErrorCode option" where
  "business_code (FileOrDirectoryAlreadyExists p) = Some FILE_OR_DIR_ALREADY_EXISTS"
| "business_code (FileOrDirectoryDoesNotExist p) = Some FILE_OR_DIR_DOES_NOT_EXIST"
| "business_code (InvalidName n) = Some INVALID_NAME"
| "business_code (InvalidPath p) = Some RELATIVE_PATH"
| "business_code (DirectoryIsNotEmpty p) = Some DIR_IS_NOT_EMPTY"
| "business_code (FileSizeTooLarge n) = Some FILE_SIZE_TOO_LARGE"
| "business_code (MessageNotFound i) = Some MESSAGE_NOT_FOUND"
| "business_code MetadataNotFound = Some METADATA_NOT_FOUND"
| "business_code MetadataNotInitialized = Some METADATA_NOT_INITIALIZED"
| "business_code (UnDownloadableMessage i) = Some UNDOWNLOADABLE_MESSAGE"
| "business_code NoPinnedMessage = Some NO_PINNED_MESSAGE"
| "business_code PinnedMessageNotSupported = Some PINNED_MESSAGE_NOT_SUPPORTED"
| "business_code (TaskCancelled f) = Some TASK_CANCELLED"
| "business_code (LoginFailed m) = Some LOGIN_FAILED"
| "business_code (DuplicatedChannelIdOrName c) = Some DUPLICATED_CHANNEL_ID_OR_NAME"
| "business_code _ = None"

text \<open>
  \<open>http_error\<close>: the status of the exception, \<open>None\<close> for an exception that is not a
  \<open>TechnicalError\<close>. A \<open>BusinessError\<close> is a bad request unless its class says otherwise.
\<close>

fun http_error :: "exn \<Rightarrow> nat option" where
  "http_error TechnicalError = Some 500"
| "http_error (FileOrDirectoryAlreadyExists p) = Some 409"
| "http_error (FileOrDirectoryDoesNotExist p) = Some 404"
| "http_error (FileSizeTooLarge n) = Some 413"
| "http_error (MessageNotFound i) = Some 404"
| "http_error e = (case business_code e of Some c \<Rightarrow> Some 400 | None \<Rightarrow> None)"

text \<open>\<open>isinstance(ex, TechnicalError)\<close>\<close>

definition is_technical_error :: "exn \<Rightarrow> bool" where
  "is_technical_error e \<longleftrightarrow> e = TechnicalError \<or> business_code e \<noteq> None"

lemma is_technical_error_iff_http: "is_technical_error e \<longleftrightarrow> http_error e \<noteq> None"
  by (cases e) (simp_all add: is_technical_error_def)

end
