(* ===== verification/Base64.thy ===== *)
theory Base64
  imports Errors
begin

text \<open>
  The part of Python's \<open>base64\<close> and \<open>struct\<close> modules the program relies on:
  \<open>urlsafe_b64encode\<close> with the padding stripped, \<open>urlsafe_b64decode\<close> of a re-padded
  text, and \<open>struct.pack\<close> of big-endian unsigned integers. Message id lists, encrypted
  document names and encrypted path names are all written in this format.
  \<open>a2b_base64\<close> follows the C routine behind \<open>urlsafe_b64decode\<close> in its lenient mode:
  characters outside the alphabet are skipped, a complete pad sequence ends the input, and
  a truncated group is an error.
\<close>

section \<open>Big-endian integers\<close>

text \<open>\<open>struct.pack\<close> of an unsigned integer of \<open>n\<close> bytes; out of range is \<open>struct.error\<close>.\<close>

fun be_bytes :: "nat \<Rightarrow> nat \<Rightarrow> bytes" where
  "be_bytes 0 x = []"
| "be_bytes (Suc n) x = be_bytes n (x div 256) @ [of_nat (x mod 256)]"

definition struct_pack_be :: "nat \<Rightarrow> int \<Rightarrow> bytes res" where
  "struct_pack_be n x = (if x < 0 \<or> 256 ^ n \<le> x then Inl StructError else Inr (be_bytes n (nat x)))"

definition be_value :: "bytes \<Rightarrow> nat" where
  "be_value bs = foldl (\<lambda>acc b. acc * 256 + unat b) 0 bs"

definition struct_unpack_be :: "nat \<Rightarrow> bytes \<Rightarrow> int res" where
  "struct_unpack_be n bs = (if length bs = n then Inr (int (be_value bs)) else Inl StructError)"

lemma length_be_bytes [simp]: "length (be_bytes n x) = n"
  by (induction n arbitrary: x) simp_all

lemma be_value_snoc [simp]: "be_value (bs @ [b]) = be_value bs * 256 + unat b"
  by (simp add: be_value_def)

lemma unat_of_nat_byte [simp]: "unat (of_nat (x mod 256) :: 8 word) = x mod 256"
  by (simp add: unat_of_nat)

lemma be_value_be_bytes: "x < 256 ^ n \<Longrightarrow> be_value (be_bytes n x) = x"
proof (induction n arbitrary: x)
  case 0
  then show ?case by (simp add: be_value_def)
next
  case (Suc n)
  then have "x div 256 < 256 ^ n"
    by (simp add: less_mult_imp_div_less mult.commute)
  with Suc.IH show ?case by simp
qed

lemma struct_pack_unpack:
  assumes "0 \<le> x" and "x < 256 ^ n"
  shows "\<exists>bs. struct_pack_be n x = Inr bs \<and> length bs = n \<and> struct_unpack_be n bs = Inr x"
proof -
  have "nat x < 256 ^ n"
    using assms by (simp add: nat_less_iff)
  then show ?thesis
    using assms by (simp add: struct_pack_be_def struct_unpack_be_def be_value_be_bytes)
qed

section \<open>The base64url alphabet\<close>

definition b64url_alphabet :: string where
  "b64url_alphabet = ''ABCDEFGHIJKLMNOPQRSTUVWXYZabcdefghijklmnopqrstuvwxyz0123456789-_''"

text \<open>
  \<open>b64_digit\<close> is the decoder's table after \<open>urlsafe_b64decode\<close> has translated \<open>-\<close> and
  \<open>_\<close> to \<open>+\<close> and \<open>/\<close>; the plain alphabet's two characters are accepted as well.
\<close>

definition b64_digit :: "char \<Rightarrow> nat option" where
  "b64_digit c = (let n = of_char c :: nat in
     if 65 \<le> n \<and> n \<le> 90 then Some (n - 65)
     else if 97 \<le> n \<and> n \<le> 122 then Some (n - 71)
     else if 48 \<le> n \<and> n \<le> 57 then Some (n + 4)
     else if c = CHR ''-'' \<or> c = CHR ''+'' then Some 62
     else if c = CHR ''_'' \<or> c = CHR ''/'' then Some 63
     else None)"

definition b64_char :: "nat \<Rightarrow> char" where
  "b64_char n = b64url_alphabet ! n"

lemma b64_digit_table: "list_all (\<lambda>n. b64_digit (b64_char n) = Some n) [0..<64]"
  by (simp add: upt_rec b64_digit_def b64_char_def b64url_alphabet_def Let_def)

lemma b64_digit_char [simp]: "n < 64 \<Longrightarrow> b64_digit (b64_char n) = Some n"
  using b64_digit_table by (simp add: list_all_iff)

lemma b64_char_table: "list_all (\<lambda>n. b64_char n \<noteq> CHR ''='') [0..<64]"
  by (simp add: upt_rec b64_char_def b64url_alphabet_def)

lemma b64_char_not_pad [simp]: "n < 64 \<Longrightarrow> b64_char n \<noteq> CHR ''=''"
  using b64_char_table by (simp add: list_all_iff)

section \<open>Encoding\<close>

text \<open>\<open>urlsafe_b64encode(bs).rstrip("=")\<close>: three bytes give four characters.\<close>

fun b64_encode :: "bytes \<Rightarrow> string" where
  "b64_encode [] = []"
| "b64_encode [a] =
     [b64_char (unat a div 4), b64_char (unat a mod 4 * 16)]"
| "b64_encode [a, b] =
     [b64_char (unat a div 4), b64_char (unat a mod 4 * 16 + unat b div 16),
      b64_char (unat b mod 16 * 4)]"
| "b64_encode (a # b # c # bs) =
     [b64_char (unat a div 4), b64_char (unat a mod 4 * 16 + unat b div 16),
      b64_char (unat b mod 16 * 4 + unat c div 64), b64_char (unat c mod 64)] @ b64_encode bs"

section \<open>Decoding\<close>

text \<open>
  The decoder's loop. \<open>q\<close> is the position in the current group, \<open>l\<close> the bits left over
  from the previous character, \<open>p\<close> the pad characters seen in a row.
\<close>

fun a2b_base64 :: "nat \<Rightarrow> nat \<Rightarrow> nat \<Rightarrow> string \<Rightarrow> bytes res" where
  "a2b_base64 q l p [] = (if q = 0 then Inr [] else Inl BinasciiError)"
| "a2b_base64 q l p (c # cs) =
     (if c = CHR ''='' then
        (if 2 \<le> q then (if 4 \<le> q + Suc p then Inr [] else a2b_base64 q l (Suc p) cs)
         else a2b_base64 q l p cs)
      else case b64_digit c of
        None \<Rightarrow> a2b_base64 q l p cs
      | Some d \<Rightarrow>
          (if q = 0 then a2b_base64 1 d 0 cs
           else if q = 1 then
             rbind (a2b_base64 2 (d mod 16) 0 cs) (\<lambda>bs. Inr (of_nat (l * 4 + d div 16) # bs))
           else if q = 2 then
             rbind (a2b_base64 3 (d mod 4) 0 cs) (\<lambda>bs. Inr (of_nat (l * 16 + d div 4) # bs))
           else
             rbind (a2b_base64 0 0 0 cs) (\<lambda>bs. Inr (of_nat (l * 64 + d) # bs))))"

text \<open>\<open>s + "=" * (-len(s) % 4)\<close>; a text that is not ASCII is refused before it is decoded.\<close>

definition is_ascii :: "string \<Rightarrow> bool" where
  "is_ascii s \<longleftrightarrow> list_all (\<lambda>c. (of_char c :: nat) < 128) s"

definition repad :: "string \<Rightarrow> string" where
  "repad s = s @ replicate (nat (- int (length s) mod 4)) (CHR ''='')"

definition b64_decode :: "string \<Rightarrow> bytes res" where
  "b64_decode s = (if is_ascii s then a2b_base64 0 0 0 (repad s) else Inl ValueError)"

section \<open>Round trip\<close>

lemma unat_byte_lt [simp]: "unat (a :: 8 word) < 256"
  using unsigned_less [of a] by simp

lemma byte_parts [simp]:
  fixes a b c :: "8 word"
  shows "unat a div 4 < 64" "unat a mod 4 * 16 < 64" "unat a mod 4 * 16 + unat b div 16 < 64"
    "unat b mod 16 * 4 < 64" "unat b mod 16 * 4 + unat c div 64 < 64" "unat c mod 64 < 64"
proof -
  have "unat a < 256" "unat b < 256" "unat c < 256" by simp_all
  then show "unat a div 4 < 64" "unat a mod 4 * 16 < 64" "unat a mod 4 * 16 + unat b div 16 < 64"
    "unat b mod 16 * 4 < 64" "unat b mod 16 * 4 + unat c div 64 < 64" "unat c mod 64 < 64"
    by linarith+
qed

lemma byte_rejoin1: "unat (a :: 8 word) div 4 * 4 + (unat a mod 4 * 16 + x div 16) div 16 = unat a"
  if "x < 256"
proof -
  have "x div 16 < 16" using that by simp
  then have "(unat a mod 4 * 16 + x div 16) div 16 = unat a mod 4"
    by simp
  then show ?thesis by simp
qed

lemma byte_rejoin2: "(y * 16 + unat (b :: 8 word) div 16) mod 16 * 16
    + (unat b mod 16 * 4 + x div 64) div 4 = unat b"
  if "x < 256"
proof -
  have x: "x div 64 < 4" using that by simp
  have b: "unat b div 16 < 16" using unat_byte_lt [of b] by linarith
  have "(unat b mod 16 * 4 + x div 64) div 4 = unat b mod 16" using x by simp
  moreover have "(y * 16 + unat b div 16) mod 16 = unat b div 16" using b by simp
  ultimately show ?thesis by simp
qed

lemma byte_rejoin3: "(y * 4 + unat (c :: 8 word) div 64) mod 4 * 64 + unat c mod 64 = unat c"
proof -
  have "unat c div 64 < 4" using unat_byte_lt [of c] by linarith
  then have "(y * 4 + unat c div 64) mod 4 = unat c div 64" by simp
  then show ?thesis by simp
qed

lemma word_of_unat_eq: "n = unat (a :: 8 word) \<Longrightarrow> of_nat n = a"
  by simp

text \<open>Decoding an encoded text followed by the pads that complete its last group.\<close>

definition b64_pads :: "nat \<Rightarrow> string" where
  "b64_pads n = (if n mod 3 = 1 then ''=='' else if n mod 3 = 2 then ''='' else [])"

lemma a2b_encode: "a2b_base64 0 0 0 (b64_encode bs @ b64_pads (length bs)) = Inr bs"
proof (induction bs rule: b64_encode.induct)
  case 1
  then show ?case by (simp add: b64_pads_def)
next
  case (2 a)
  then show ?case
    using byte_rejoin1 [of 0 a]
    by (simp add: b64_pads_def word_of_unat_eq)
next
  case (3 a b)
  then show ?case
    using byte_rejoin1 [of "unat b" a] byte_rejoin2 [of 0 "unat a mod 4" b]
    by (simp add: b64_pads_def word_of_unat_eq)
next
  case (4 a b c bs)
  have "b64_pads (length (a # b # c # bs)) = b64_pads (length bs)"
    by (simp add: b64_pads_def mod_add_self1 [of 3, simplified])
  with 4 show ?case
    using byte_rejoin1 [of "unat b" a] byte_rejoin2 [of "unat c" "unat a mod 4" b]
      byte_rejoin3 [of "unat b mod 16" c]
    by (simp add: word_of_unat_eq)
qed

lemma b64_length_mod: "length (b64_encode bs) mod 4 = (if length bs mod 3 = 0 then 0 else Suc (length bs mod 3))"
proof (induction bs rule: b64_encode.induct)
  case (4 a b c bs)
  then show ?case by (simp add: mod_add_self1 [of 3, simplified] mod_add_self1 [of 4, simplified])
qed simp_all

lemma repad_encode: "repad (b64_encode bs) = b64_encode bs @ b64_pads (length bs)"
proof -
  have m: "- int (length (b64_encode bs)) mod 4 = - int (length (b64_encode bs) mod 4) mod 4"
    by (metis mod_minus_eq of_nat_mod of_nat_numeral)
  consider "length bs mod 3 = 0" | "length bs mod 3 = 1" | "length bs mod 3 = 2"
    by linarith
  then show ?thesis
  proof cases
    case 1
    then have "- int (length (b64_encode bs)) mod 4 = 0" by (simp add: m b64_length_mod)
    with 1 show ?thesis by (simp add: repad_def b64_pads_def)
  next
    case 2
    then have "length (b64_encode bs) mod 4 = 2" by (simp add: b64_length_mod)
    then have "- int (length (b64_encode bs)) mod 4 = 2" by (simp add: m)
    with 2 show ?thesis by (simp add: repad_def b64_pads_def numeral_2_eq_2)
  next
    case 3
    then have "length (b64_encode bs) mod 4 = 3" by (simp add: b64_length_mod)
    then have "- int (length (b64_encode bs)) mod 4 = 1" by (simp add: m)
    with 3 show ?thesis by (simp add: repad_def b64_pads_def)
  qed
qed

lemma b64_char_ascii_table: "list_all (\<lambda>n. (of_char (b64_char n) :: nat) < 128) [0..<64]"
  by (simp add: upt_rec b64_char_def b64url_alphabet_def)

lemma b64_char_ascii [simp]: "n < 64 \<Longrightarrow> (of_char (b64_char n) :: nat) < 128"
  using b64_char_ascii_table by (simp add: list_all_iff)

lemma b64_encode_ascii: "is_ascii (b64_encode bs)"
  by (induction bs rule: b64_encode.induct) (simp_all add: is_ascii_def)

lemma b64_roundtrip: "b64_decode (b64_encode bs) = Inr bs"
  by (simp add: b64_decode_def b64_encode_ascii repad_encode a2b_encode)

end
