(* ===== verification/Stores.thy ===== *)
theory Stores
  imports Base64
begin

text \<open>
  What every backend shares (\<open>src/tgdcfs/backends/base.py\<close>) and the plain data it exchanges
  (\<open>src/tgdcfs/reqres.py\<close>): store keys, capabilities, the plan of the parts a file is cut
  into, and the messages a store answers with. The Telegram store's own partitioning
  (\<open>backends/telegram/store.py\<close>) is here as well, next to the default it overrides.
\<close>

section \<open>Store keys\<close>

definition DEFAULT_PREFIX :: string where
  "DEFAULT_PREFIX = ''tg''"

definition KEY_SEPARATOR :: char where
  "KEY_SEPARATOR = CHR '':''"

text \<open>\<open>str.isalpha\<close> on code points below 256.\<close>

definition isalpha_char :: "char \<Rightarrow> bool" where
  "isalpha_char c = (let n = of_char c :: nat in
     (65 \<le> n \<and> n \<le> 90) \<or> (97 \<le> n \<and> n \<le> 122) \<or> n = 170 \<or> n = 181 \<or> n = 186 \<or>
     (192 \<le> n \<and> n \<le> 214) \<or> (216 \<le> n \<and> n \<le> 246) \<or> 248 \<le> n)"

definition isalpha :: "string \<Rightarrow> bool" where
  "isalpha s \<longleftrightarrow> s \<noteq> [] \<and> list_all isalpha_char s"

definition make_store_key :: "string \<Rightarrow> string \<Rightarrow> string" where
  "make_store_key prefix channel = prefix @ [KEY_SEPARATOR] @ channel"

definition parse_store_key :: "string \<Rightarrow> string \<times> string" where
  "parse_store_key key =
     (let prefix = takeWhile (\<lambda>c. c \<noteq> KEY_SEPARATOR) key;
          rest = dropWhile (\<lambda>c. c \<noteq> KEY_SEPARATOR) key
      in if rest = [] \<or> \<not> isalpha prefix then (DEFAULT_PREFIX, key) else (prefix, tl rest))"

definition normalize_store_key :: "string \<Rightarrow> string" where
  "normalize_store_key key = (case parse_store_key key of (prefix, channel) \<Rightarrow>
     make_store_key prefix channel)"

section \<open>Capabilities and messages\<close>

record store_caps =
  max_part_bytes :: int
  max_text_chars :: int
  supports_server_copy :: bool
  supports_edit_media :: bool
  supports_bulk_delete :: bool
  delete_age_limit_days :: "int option"

record replica =
  r_message_ids :: "int list"
  r_part_sizes :: "int list"

definition replica_size :: "replica \<Rightarrow> int" where
  "replica_size r = sum_list (r_part_sizes r)"

record sent_file_message =
  sm_message_id :: int
  sm_size :: int
  sm_mirrors :: "(string, int) dict"
  sm_replicas :: "(string, replica) dict"

text \<open>A message as a store answers it: its text and, for a file message, the document's size.\<close>

record message_resp =
  m_message_id :: int
  m_text :: string
  m_document :: "int option"

section \<open>Cutting a file into parts\<close>

text \<open>\<open>IStore.plan_parts\<close>, the default of every backend.\<close>

definition plan_parts :: "int \<Rightarrow> int \<Rightarrow> int list" where
  "plan_parts part sz =
     (if sz \<le> 0 then [0]
      else let parts = (sz + part - 1) div part in
        replicate (nat (parts - 1)) part @ [sz - (parts - 1) * part])"

definition PART_SIZE_DEFAULT :: int where
  "PART_SIZE_DEFAULT = 512 * 1024 * 4000"

definition PART_SIZE_PREMIUM :: int where
  "PART_SIZE_PREMIUM = 512 * 1024 * 8000"

text \<open>\<open>TelegramStore._partition\<close>: no special case for an empty file.\<close>

definition tg_partition :: "int \<Rightarrow> int \<Rightarrow> int list" where
  "tg_partition sz part_size =
     (let parts = (sz + part_size - 1) div part_size in
        replicate (nat (parts - 1)) part_size @ [sz - (parts - 1) * part_size])"

text \<open>\<open>TelegramStore._part_size_for\<close>: the part size and whether the account uploads.\<close>

definition tg_part_size_for :: "bool \<Rightarrow> int \<Rightarrow> int \<times> bool" where
  "tg_part_size_for premium sz =
     (let premium_upload = (sz > PART_SIZE_DEFAULT \<and> premium) in
        (if premium_upload then PART_SIZE_PREMIUM else PART_SIZE_DEFAULT, premium_upload))"

definition tg_plan_parts :: "bool \<Rightarrow> int \<Rightarrow> int list" where
  "tg_plan_parts premium sz = tg_partition sz (fst (tg_part_size_for premium sz))"

text \<open>\<open>TelegramStore.caps\<close> and \<open>DiscordStore.caps\<close>\<close>

definition tg_caps :: "bool \<Rightarrow> store_caps" where
  "tg_caps premium =
     \<lparr>max_part_bytes = (if premium then PART_SIZE_PREMIUM else PART_SIZE_DEFAULT),
      max_text_chars = 4096, supports_server_copy = True, supports_edit_media = True,
      supports_bulk_delete = True, delete_age_limit_days = None\<rparr>"

definition dc_caps :: "int \<Rightarrow> store_caps" where
  "dc_caps max_part =
     \<lparr>max_part_bytes = max_part, max_text_chars = 2000, supports_server_copy = False,
      supports_edit_media = True, supports_bulk_delete = True,
      delete_age_limit_days = Some 14\<rparr>"

text \<open>\<open>split_download_pieces\<close>: the inclusive range cut into pieces (\<open>range\<close> with a step).\<close>

function split_download_pieces :: "int \<Rightarrow> int \<Rightarrow> int \<Rightarrow> (int \<times> int) list" where
  "split_download_pieces b0 e0 piece_size =
     (if b0 \<le> e0 \<and> 0 < piece_size
      then (b0, min (b0 + piece_size - 1) e0)
           # split_download_pieces (b0 + piece_size) e0 piece_size
      else [])"
  by pat_completeness auto
termination
  by (relation "measure (\<lambda>(b, e, p). nat (e + 1 - b))") auto

declare split_download_pieces.simps [simp del]

section \<open>Key facts\<close>

lemma isalpha_no_separator: "isalpha s \<Longrightarrow> c \<in> set s \<Longrightarrow> c \<noteq> KEY_SEPARATOR"
  by (auto simp: isalpha_def list_all_iff isalpha_char_def KEY_SEPARATOR_def Let_def)

lemma isalpha_tg: "isalpha DEFAULT_PREFIX"
  by (simp add: isalpha_def DEFAULT_PREFIX_def isalpha_char_def)

lemma parse_make:
  assumes "isalpha prefix"
  shows "parse_store_key (make_store_key prefix channel) = (prefix, channel)"
proof -
  have no: "\<And>c. c \<in> set prefix \<Longrightarrow> c \<noteq> KEY_SEPARATOR"
    using assms by (rule isalpha_no_separator)
  have "takeWhile (\<lambda>c. c \<noteq> KEY_SEPARATOR) (make_store_key prefix channel) = prefix"
    using no by (simp add: make_store_key_def takeWhile_append)
  moreover have "dropWhile (\<lambda>c. c \<noteq> KEY_SEPARATOR) (make_store_key prefix channel)
      = KEY_SEPARATOR # channel"
    using no by (simp add: make_store_key_def dropWhile_append)
  ultimately show ?thesis
    using assms by (simp add: parse_store_key_def)
qed

lemma parse_store_key_alpha: "isalpha (fst (parse_store_key key))"
  by (simp add: parse_store_key_def Let_def isalpha_tg)

lemma normalize_make: "isalpha p \<Longrightarrow> normalize_store_key (make_store_key p c) = make_store_key p c"
  by (simp add: normalize_store_key_def parse_make)

text \<open>Normalising a store key is idempotent, whatever the metadata held: a key read from
  storage and written back is read again as the same key.\<close>

lemma normalize_store_key_idem:
  "normalize_store_key (normalize_store_key key) = normalize_store_key key"
proof -
  obtain p c where pc: "parse_store_key key = (p, c)" by fastforce
  with parse_store_key_alpha [of key] have "isalpha p" by simp
  with pc show ?thesis
    by (simp add: normalize_store_key_def [of key] normalize_make)
qed

section \<open>Part plans\<close>

lemma ceil_div_bounds:
  fixes sz part :: int
  assumes "0 < part" and "0 < sz"
  defines "n \<equiv> (sz + part - 1) div part"
  shows "1 \<le> n" and "0 < sz - (n - 1) * part" and "sz - (n - 1) * part \<le> part"
proof -
  have "n * part + (sz + part - 1) mod part = sz + part - 1"
    unfolding n_def by simp
  moreover have "0 \<le> (sz + part - 1) mod part" "(sz + part - 1) mod part < part"
    using assms(1) by simp_all
  ultimately have a: "n * part \<le> sz + part - 1" and b: "sz \<le> n * part"
    by linarith+
  have d: "(n - 1) * part = n * part - part" by (simp add: algebra_simps)
  show "0 < sz - (n - 1) * part" "sz - (n - 1) * part \<le> part"
    using a b d by linarith+
  have "0 < n * part" using assms(2) b by linarith
  then show "1 \<le> n" using assms(1) by (simp add: zero_less_mult_iff)
qed

lemma plan_parts_pos_eq_partition: "0 < sz \<Longrightarrow> plan_parts part sz = tg_partition sz part"
  by (simp add: plan_parts_def tg_partition_def)

text \<open>The planned parts add up to the file, no part is empty or larger than a message
  may be, and no plan has fewer parts.\<close>

lemma plan_parts_correct:
  assumes "0 < part" and "0 < sz"
  shows "sum_list (plan_parts part sz) = sz
    \<and> (\<forall>p \<in> set (plan_parts part sz). 0 < p \<and> p \<le> part)
    \<and> (\<forall>qs. sum_list qs = sz \<and> (\<forall>q \<in> set qs. q \<le> part)
           \<longrightarrow> length (plan_parts part sz) \<le> length qs)"
proof -
  define n where "n = (sz + part - 1) div part"
  note b = ceil_div_bounds [OF assms, folded n_def]
  have eq: "plan_parts part sz = replicate (nat (n - 1)) part @ [sz - (n - 1) * part]"
    using assms by (simp add: plan_parts_def n_def Let_def)
  have "sum_list (plan_parts part sz) = sz"
    using b(1) by (simp add: eq sum_list_replicate)
  moreover have "\<forall>p \<in> set (plan_parts part sz). 0 < p \<and> p \<le> part"
    using b assms by (auto simp: eq)
  moreover have "length (plan_parts part sz) \<le> length qs"
    if "sum_list qs = sz" and "\<forall>q \<in> set qs. q \<le> part" for qs
  proof -
    have "sum_list qs \<le> int (length qs) * part"
      using that(2) by (induction qs) (auto simp: algebra_simps)
    with that(1) b(2) have "(n - 1) * part < int (length qs) * part" by linarith
    then have "n - 1 < int (length qs)"
      using assms(1) by (simp add: mult_less_cancel_right)
    then show ?thesis using b(1) by (simp add: eq)
  qed
  ultimately show ?thesis by blast
qed

lemma PART_SIZE_pos [simp]: "0 < PART_SIZE_DEFAULT" "0 < PART_SIZE_PREMIUM"
  by (simp_all add: PART_SIZE_DEFAULT_def PART_SIZE_PREMIUM_def)

text \<open>The Telegram store's plan for an empty file is one part of the full part size
  (2 GB), not one empty part as the interface's default plan.\<close>

lemma tg_plan_parts_empty_file:
  "tg_plan_parts premium 0 = [PART_SIZE_DEFAULT] \<and> plan_parts PART_SIZE_DEFAULT 0 = [0]"
  by (simp add: tg_plan_parts_def tg_part_size_for_def tg_partition_def plan_parts_def
      PART_SIZE_DEFAULT_def)

section \<open>Download pieces\<close>

lemma pieces_subranges:
  assumes "0 \<le> b" and "0 < p"
  shows "concat (map (\<lambda>(x, y). subrange xs x y) (split_download_pieces b e p)) = subrange xs b e"
  using assms
proof (induction b e p rule: split_download_pieces.induct)
  case (1 b e p)
  show ?case
  proof (cases "b \<le> e")
    case False
    then show ?thesis by (simp add: split_download_pieces.simps [of b e p])
  next
    case True
    have IH: "concat (map (\<lambda>(x, y). subrange xs x y) (split_download_pieces (b + p) e p))
        = subrange xs (b + p) e"
      using True "1.prems" "1.IH" by simp
    show ?thesis
    proof (cases "b + p \<le> e")
      case le: True
      have "subrange xs b e = subrange xs b (b + p - 1) @ subrange xs (b + p) e"
        using "1.prems" le by (intro subrange_split) auto
      then show ?thesis
        using True "1.prems" IH le by (simp add: split_download_pieces.simps [of b e p] min_def)
    next
      case gt: False
      then have "min (b + p - 1) e = e" by simp
      moreover have "subrange xs (b + p) e = []" using gt by simp
      ultimately show ?thesis
        using True "1.prems" IH by (simp add: split_download_pieces.simps [of b e p])
    qed
  qed
qed

text \<open>The pieces of a split download, read in order, are exactly the requested range.\<close>

lemma split_download_pieces_cover:
  assumes "0 \<le> b0" and "0 < piece_size"
  shows "concat (map (\<lambda>(b, e). subrange xs b e) (split_download_pieces b0 e0 piece_size))
    = subrange xs b0 e0"
  using assms by (rule pieces_subranges)

end
