(* ===== verification/FileModel.thy ===== *)
theory FileModel
  imports Stores
begin

text \<open>
  File versions: the first half of \<open>src/tgdcfs/core/model/file.py\<close> with
  \<open>model/serialized.py\<close>, \<open>model/common.py\<close>, \<open>model/stat.py\<close> and \<open>utils/time.py\<close>.

  A version names the messages that hold its parts in its own store, the aligned copies in
  mirror stores and the replicas with a layout of their own. The serialised forms are records with one optional
  field per optional key of the \<open>TypedDict\<close>s.

  A \<open>datetime\<close> is a number of microseconds since the epoch together with Python's
  distinction between naive and aware values, which cannot be ordered against each other.
  Local time is identified with its instant and the rounding of binary floating point in
  \<open>timestamp()\<close> is not modelled. The current time and fresh identifiers are arguments.
\<close>

section \<open>Time\<close>

datatype datetime = Naive int | Aware int

fun dt_us :: "datetime \<Rightarrow> int" where
  "dt_us (Naive t) = t"
| "dt_us (Aware t) = t"

fun is_naive :: "datetime \<Rightarrow> bool" where
  "is_naive (Naive t) = True"
| "is_naive (Aware t) = False"

definition FIRST_DAY_OF_EPOCH :: datetime where
  "FIRST_DAY_OF_EPOCH = Aware 0"

text \<open>\<open>int(dt.timestamp() * 1000)\<close> truncates towards zero.\<close>

definition ts :: "datetime \<Rightarrow> int" where
  "ts dt = (if 0 \<le> dt_us dt then dt_us dt div 1000 else - ((- dt_us dt) div 1000))"

definition fromtimestamp_ms :: "int \<Rightarrow> datetime" where
  "fromtimestamp_ms ms = Naive (ms * 1000)"

text \<open>\<open>a < b\<close> on datetimes: comparing a naive with an aware value raises \<open>TypeError\<close>.\<close>

definition dt_lt :: "datetime \<Rightarrow> datetime \<Rightarrow> bool res" where
  "dt_lt a b = (if is_naive a = is_naive b then Inr (dt_us a < dt_us b) else Inl TypeError)"

definition dt_ge :: "datetime \<Rightarrow> datetime \<Rightarrow> bool res" where
  "dt_ge a b = (if is_naive a = is_naive b then Inr (dt_us b \<le> dt_us a) else Inl TypeError)"

lemma ts_fromtimestamp [simp]: "ts (fromtimestamp_ms ms) = ms"
proof (cases "0 \<le> ms")
  case False
  have "- (ms * 1000) div 1000 = - ms" by (metis minus_mult_left nonzero_mult_div_cancel_right zero_neq_numeral)
  with False show ?thesis by (simp add: ts_def fromtimestamp_ms_def)
qed (simp add: ts_def fromtimestamp_ms_def)

lemma ts_mono: "dt_us a \<le> dt_us b \<Longrightarrow> ts a \<le> ts b"
  by (auto simp: ts_def zdiv_mono1 pos_imp_zdiv_nonneg_iff intro: order_trans [of _ 0])

section \<open>Names\<close>

definition validate_name :: "string \<Rightarrow> unit res" where
  "validate_name name =
     (case name of [] \<Rightarrow> Inl IndexError
      | c # cs \<Rightarrow> if c = CHR ''-'' \<or> CHR ''/'' \<in> set name then Inl (InvalidName name) else Inr ())"

section \<open>Listing stats\<close>

record file_stat =
  st_size :: int
  st_created_at :: int
  st_modified_at :: int

text \<open>A JSON value as \<open>FileStat.from_dict\<close> distinguishes them.\<close>

datatype json_scalar = JInt int | JBool bool | JOther

definition stat_to_dict :: "file_stat \<Rightarrow> (string, json_scalar) dict" where
  "stat_to_dict st =
     [(''size'', JInt (st_size st)), (''createdAt'', JInt (st_created_at st)),
      (''modifiedAt'', JInt (st_modified_at st))]"

definition stat_from_dict :: "(string, json_scalar) dict option \<Rightarrow> file_stat option" where
  "stat_from_dict data =
     (case data of None \<Rightarrow> None
      | Some d \<Rightarrow>
         (case (map_of d ''size'', map_of d ''createdAt'', map_of d ''modifiedAt'') of
            (Some (JInt s), Some (JInt c), Some (JInt m)) \<Rightarrow>
              Some \<lparr>st_size = s, st_created_at = c, st_modified_at = m\<rparr>
          | _ \<Rightarrow> None))"

section \<open>Replicas\<close>

definition EMPTY_FILE_MESSAGE :: int where "EMPTY_FILE_MESSAGE = -1"
definition INVALID_FILE_SIZE :: int where "INVALID_FILE_SIZE = -1"
definition INVALID_VERSION_ID :: string where "INVALID_VERSION_ID = []"
definition COMPACT_IDS_THRESHOLD :: nat where "COMPACT_IDS_THRESHOLD = 100"

record replica_ser =
  rs_m :: "int list option"
  rs_mb :: "string option"
  rs_p :: "int list option"
  rs_n :: "int option"

definition encode_ids :: "int list \<Rightarrow> string res" where
  "encode_ids ids = rbind (rmap (struct_pack_be 8) ids) (\<lambda>packed. Inr (b64_encode (concat packed)))"

function chunks8 :: "bytes \<Rightarrow> bytes list" where
  "chunks8 bs = (if bs = [] then [] else take 8 bs # chunks8 (drop 8 bs))"
  by pat_completeness auto
termination
  by (relation "measure length") auto

declare chunks8.simps [simp del]

definition decode_ids :: "string \<Rightarrow> int list res" where
  "decode_ids encoded =
     rbind (b64_decode encoded) (\<lambda>packed. rmap (struct_unpack_be 8) (chunks8 packed))"

definition replica_to_dict :: "replica \<Rightarrow> replica_ser res" where
  "replica_to_dict r =
     (let ids = r_message_ids r; sizes = r_part_sizes r;
          collapse = (2 < length sizes \<and> length (remdups (butlast sizes)) = 1);
          p = (if collapse then Some [hd sizes, last sizes]
               else if sizes \<noteq> [] then Some sizes else None);
          n = (if collapse then Some (int (length sizes)) else None)
      in if COMPACT_IDS_THRESHOLD < length ids
         then rbind (encode_ids ids) (\<lambda>s. Inr \<lparr>rs_m = None, rs_mb = Some s, rs_p = p, rs_n = n\<rparr>)
         else Inr \<lparr>rs_m = Some ids, rs_mb = None, rs_p = p, rs_n = n\<rparr>)"

definition or_empty :: "'a list option \<Rightarrow> 'a list" where
  "or_empty x = (case x of None \<Rightarrow> [] | Some xs \<Rightarrow> xs)"

definition replica_from_dict :: "replica_ser \<Rightarrow> replica res" where
  "replica_from_dict d =
     rbind (case rs_mb d of Some s \<Rightarrow> decode_ids s | None \<Rightarrow> Inr (or_empty (rs_m d)))
       (\<lambda>ids.
         let sizes = or_empty (rs_p d);
             sizes' = (case rs_n d of
                 Some n \<Rightarrow> (if n \<noteq> 0 \<and> length sizes = 2 \<and> 2 < n
                            then replicate (nat (n - 1)) (sizes ! 0) @ [sizes ! 1] else sizes)
               | None \<Rightarrow> sizes)
         in Inr \<lparr>r_message_ids = ids, r_part_sizes = sizes'\<rparr>)"

section \<open>Versions\<close>

record file_version =
  fv_id :: string
  fv_updated_at :: datetime
  fv_raw_size :: int
  fv_message_ids :: "int list"
  fv_part_sizes :: "int list"
  fv_mirrors :: "(string, int list) dict"
  fv_replicas :: "(string, replica) dict"
  fv_store :: "string option"
  fv_pending :: bool
  fv_cacheable :: bool
  fv_recorded_size :: int

record version_ser =
  vs_id :: string
  vs_updatedAt :: "int option"
  vs_messageId :: "int option"
  vs_messageIds :: "int list option"
  vs_size :: "int option"
  vs_mirrors :: "(string, int list) dict option"
  vs_replicas :: "(string, replica_ser) dict option"
  vs_store :: "string option"
  vs_pending :: "bool option"

text \<open>The \<open>size\<close> property: it memoises the sum of the part sizes in \<open>_size\<close>.\<close>

definition fv_memo_size :: "file_version \<Rightarrow> file_version" where
  "fv_memo_size v =
     (if fv_raw_size v = INVALID_FILE_SIZE \<and> fv_part_sizes v \<noteq> []
      then v\<lparr>fv_raw_size := sum_list (fv_part_sizes v)\<rparr> else v)"

definition fv_size :: "file_version \<Rightarrow> int" where
  "fv_size v =
     (let v' = fv_memo_size v in
        if fv_raw_size v' = INVALID_FILE_SIZE
        then (case find (\<lambda>r. r_part_sizes r \<noteq> [] \<and>
                              length (r_part_sizes r) = length (r_message_ids r))
                        (map snd (fv_replicas v')) of
                Some r \<Rightarrow> replica_size r
              | None \<Rightarrow> fv_raw_size v')
        else fv_raw_size v')"

definition updated_at_timestamp :: "file_version \<Rightarrow> int" where
  "updated_at_timestamp v = ts (fv_updated_at v)"

definition nonempty_opt :: "'a list \<Rightarrow> 'a list option" where
  "nonempty_opt xs = (if xs = [] then None else Some xs)"

definition store_opt :: "string option \<Rightarrow> string option" where
  "store_opt s = (case s of Some (c # cs) \<Rightarrow> Some (c # cs) | _ \<Rightarrow> None)"

definition fv_to_dict :: "file_version \<Rightarrow> version_ser res" where
  "fv_to_dict v =
     rbind (rmap (\<lambda>(k, r). rbind (replica_to_dict r) (\<lambda>d. Inr (k, d))) (fv_replicas v))
       (\<lambda>reps. Inr
         \<lparr>vs_id = fv_id v, vs_updatedAt = Some (updated_at_timestamp v), vs_messageId = None,
          vs_messageIds = Some (fv_message_ids v), vs_size = Some (fv_size v),
          vs_mirrors = nonempty_opt (fv_mirrors v), vs_replicas = nonempty_opt reps,
          vs_store = store_opt (fv_store v),
          vs_pending = (if fv_pending v then Some True else None)\<rparr>)"

text \<open>A dictionary comprehension \<open>{f(k): v for k, v in items}\<close>.\<close>

definition dict_comp :: "('a \<Rightarrow> 'k) \<Rightarrow> ('a \<times> 'v) list \<Rightarrow> ('k, 'v) dict" where
  "dict_comp f items = dict_update_all [] (map (\<lambda>(k, v). (f k, v)) items)"

definition fv_from_dict :: "version_ser \<Rightarrow> file_version res" where
  "fv_from_dict d =
     (let updated = (case vs_updatedAt d of None \<Rightarrow> 0 | Some t \<Rightarrow> t);
          updated_at = (if 0 < updated then fromtimestamp_ms updated else FIRST_DAY_OF_EPOCH);
          pending = (vs_pending d = Some True);
          recorded = (case vs_size d of None \<Rightarrow> INVALID_FILE_SIZE | Some s \<Rightarrow> s)
      in rbind (case vs_messageIds d of
                  Some ids \<Rightarrow> Inr ids
                | None \<Rightarrow> (case vs_messageId d of
                    None \<Rightarrow> Inl (KeyError ''messageId'')
                  | Some i \<Rightarrow> Inr (if i \<noteq> EMPTY_FILE_MESSAGE then [i] else [])))
         (\<lambda>message_ids.
           rbind (rmap (\<lambda>(k, r). rbind (replica_from_dict r) (\<lambda>x. Inr (k, x)))
                       (or_empty (vs_replicas d)))
             (\<lambda>reps. Inr
               \<lparr>fv_id = vs_id d, fv_updated_at = updated_at,
                fv_raw_size = (if pending then recorded else INVALID_FILE_SIZE),
                fv_message_ids = message_ids, fv_part_sizes = [],
                fv_mirrors = dict_comp normalize_store_key (or_empty (vs_mirrors d)),
                fv_replicas = dict_comp normalize_store_key reps,
                fv_store = map_option normalize_store_key (store_opt (vs_store d)),
                fv_pending = pending, fv_cacheable = True, fv_recorded_size = recorded\<rparr>)))"

definition pending_version :: "string \<Rightarrow> int \<Rightarrow> datetime \<Rightarrow> file_version" where
  "pending_version vid sz now =
     \<lparr>fv_id = vid, fv_updated_at = now, fv_raw_size = sz, fv_message_ids = [],
      fv_part_sizes = [], fv_mirrors = [], fv_replicas = [], fv_store = None,
      fv_pending = True, fv_cacheable = True, fv_recorded_size = INVALID_FILE_SIZE\<rparr>"

definition fv_materialize :: "string \<Rightarrow> int list \<Rightarrow> int list \<Rightarrow> file_version \<Rightarrow> file_version" where
  "fv_materialize store ids sizes v =
     v\<lparr>fv_message_ids := ids, fv_part_sizes := sizes, fv_store := Some store,
       fv_pending := False, fv_raw_size := INVALID_FILE_SIZE\<rparr>"

definition fv_empty :: "string \<Rightarrow> datetime \<Rightarrow> file_version" where
  "fv_empty uuid now =
     \<lparr>fv_id = uuid, fv_updated_at = now, fv_raw_size = INVALID_FILE_SIZE,
      fv_message_ids = [], fv_part_sizes = [], fv_mirrors = [], fv_replicas = [],
      fv_store = None, fv_pending = False, fv_cacheable = True,
      fv_recorded_size = INVALID_FILE_SIZE\<rparr>"

text \<open>
  \<open>from_sent_file_message\<close>. The set of mirror stores is iterated in no particular order in
  the code; the model takes them in the order they first appear.
\<close>

definition from_sent_file_message ::
    "sent_file_message list \<Rightarrow> string option \<Rightarrow> string \<Rightarrow> datetime \<Rightarrow> file_version" where
  "from_sent_file_message msgs store vid now =
     \<lparr>fv_id = vid, fv_updated_at = now, fv_raw_size = INVALID_FILE_SIZE,
      fv_message_ids = map sm_message_id msgs, fv_part_sizes = map sm_size msgs,
      fv_mirrors = map (\<lambda>ch. (ch, map (\<lambda>m. case map_of (sm_mirrors m) ch of
                                              Some i \<Rightarrow> i | None \<Rightarrow> 0) msgs))
                     (remdups (concat (map (map fst \<circ> sm_mirrors) msgs))),
      fv_replicas = fold (\<lambda>m acc. dict_update_all acc (sm_replicas m)) msgs [],
      fv_store = store, fv_pending = False, fv_cacheable = True,
      fv_recorded_size = INVALID_FILE_SIZE\<rparr>"

definition fv_set_invalid :: "file_version \<Rightarrow> file_version" where
  "fv_set_invalid v =
     v\<lparr>fv_message_ids := [], fv_part_sizes := [], fv_mirrors := [], fv_replicas := [],
       fv_raw_size := INVALID_FILE_SIZE\<rparr>"

definition fv_is_valid :: "file_version \<Rightarrow> bool" where
  "fv_is_valid v \<longleftrightarrow> fv_message_ids v \<noteq> []"

definition fv_owned_by :: "file_version \<Rightarrow> string \<Rightarrow> bool" where
  "fv_owned_by v key \<longleftrightarrow> fv_store v = None \<or> fv_store v = Some key"

text \<open>The test for a complete aligned copy that \<open>has_copy_in\<close> and \<open>relocate\<close> share.\<close>

definition aligned_complete :: "int list \<Rightarrow> int list \<Rightarrow> bool" where
  "aligned_complete ids own \<longleftrightarrow> ids \<noteq> [] \<and> length ids = length own \<and> (\<forall>i \<in> set ids. 0 < i)"

definition fv_has_copy_in :: "file_version \<Rightarrow> string \<Rightarrow> bool" where
  "fv_has_copy_in v key \<longleftrightarrow>
     (fv_store v = Some key \<and> fv_is_valid v) \<or>
     (case map_of (fv_mirrors v) key of
        Some ids \<Rightarrow> aligned_complete ids (fv_message_ids v) | None \<Rightarrow> False) \<or>
     (case map_of (fv_replicas v) key of Some r \<Rightarrow> r_message_ids r \<noteq> [] | None \<Rightarrow> False)"

text \<open>
  \<open>relocate\<close>, first the branch that takes over a replica's layout. \<open>old\<close> is the old
  store, \<open>rep\<close> the new primary's replica; \<open>v\<close> has that replica already popped.
\<close>

definition relocate_to_replica ::
    "string \<Rightarrow> string \<Rightarrow> replica \<Rightarrow> file_version \<Rightarrow> file_version" where
  "relocate_to_replica primary old rep v =
     (let old_ids = (case map_of (fv_mirrors v) old of
                       Some ids \<Rightarrow> ids | None \<Rightarrow> fv_message_ids v);
          mirrors = AList.delete old (fv_mirrors v);
          reps0 = AList.update old \<lparr>r_message_ids = old_ids, r_part_sizes = fv_part_sizes v\<rparr>
                    (fv_replicas v);
          reps = fold (\<lambda>(key, aligned) acc.
                     if length aligned = length old_ids \<and> (\<forall>i \<in> set aligned. 0 < i)
                     then AList.update key
                            \<lparr>r_message_ids = aligned, r_part_sizes = fv_part_sizes v\<rparr> acc
                     else acc) mirrors reps0
      in v\<lparr>fv_replicas := reps, fv_mirrors := [], fv_message_ids := r_message_ids rep,
           fv_part_sizes := r_part_sizes rep, fv_raw_size := INVALID_FILE_SIZE,
           fv_store := Some primary\<rparr>)"

definition relocate_via_replica :: "string \<Rightarrow> string \<Rightarrow> file_version \<Rightarrow> file_version" where
  "relocate_via_replica primary old v =
     (case map_of (fv_replicas v) primary of
        None \<Rightarrow> v
      | Some rep \<Rightarrow>
          let v' = v\<lparr>fv_replicas := AList.delete primary (fv_replicas v)\<rparr>
          in if r_message_ids rep \<noteq> [] then relocate_to_replica primary old rep v' else v')"

definition fv_relocate :: "string \<Rightarrow> file_version \<Rightarrow> file_version" where
  "fv_relocate primary v =
     (case fv_store v of
        None \<Rightarrow> v
      | Some old \<Rightarrow>
          if old = primary then v
          else
            let v1 = v\<lparr>fv_mirrors := dict_setdefault old (fv_message_ids v) (fv_mirrors v)\<rparr>
            in (case map_of (fv_mirrors v1) primary of
                  Some ids \<Rightarrow>
                    if aligned_complete ids (fv_message_ids v1)
                    then v1\<lparr>fv_mirrors := AList.delete primary (fv_mirrors v1),
                            fv_message_ids := ids, fv_store := Some primary\<rparr>
                    else relocate_via_replica primary old v1
                | None \<Rightarrow> relocate_via_replica primary old v1))"

section \<open>Replica round trip\<close>

lemma chunks8_Nil [simp]: "chunks8 [] = []"
  by (simp add: chunks8.simps)

lemma chunks8_append: "length xs = 8 \<Longrightarrow> chunks8 (xs @ ys) = xs # chunks8 ys"
  by (subst chunks8.simps) auto

lemma chunks8_concat: "\<forall>b \<in> set bss. length b = 8 \<Longrightarrow> chunks8 (concat bss) = bss"
  by (induction bss) (simp_all add: chunks8_append)

definition id_in_range :: "int \<Rightarrow> bool" where
  "id_in_range i \<longleftrightarrow> 0 \<le> i \<and> i < 256 ^ 8"

lemma rmap_pack_unpack:
  assumes "\<forall>i \<in> set ids. id_in_range i"
  shows "\<exists>bss. rmap (struct_pack_be 8) ids = Inr bss \<and> (\<forall>b \<in> set bss. length b = 8)
    \<and> rmap (struct_unpack_be 8) bss = Inr ids"
  using assms
proof (induction ids)
  case (Cons i ids)
  then obtain bss where bss: "rmap (struct_pack_be 8) ids = Inr bss" "\<forall>b \<in> set bss. length b = 8"
    "rmap (struct_unpack_be 8) bss = Inr ids"
    by auto
  obtain b where "struct_pack_be 8 i = Inr b" "length b = 8" "struct_unpack_be 8 b = Inr i"
    using Cons.prems struct_pack_unpack [of i 8] by (auto simp: id_in_range_def)
  with bss show ?case by (intro exI [of _ "b # bss"]) simp
qed simp

lemma decode_encode_ids:
  assumes "\<forall>i \<in> set ids. id_in_range i"
  shows "\<exists>s. encode_ids ids = Inr s \<and> decode_ids s = Inr ids"
proof -
  obtain bss where "rmap (struct_pack_be 8) ids = Inr bss" "\<forall>b \<in> set bss. length b = 8"
    "rmap (struct_unpack_be 8) bss = Inr ids"
    using rmap_pack_unpack [OF assms] by blast
  then show ?thesis
    by (simp add: encode_ids_def decode_ids_def b64_roundtrip chunks8_concat)
qed

lemma collapsed_sizes:
  assumes "2 < length sizes" and "length (remdups (butlast sizes)) = 1"
  shows "replicate (length sizes - 1) (hd sizes) @ [last sizes] = sizes"
proof -
  obtain c where c: "remdups (butlast sizes) = [c]"
    using assms(2) by (metis One_nat_def length_0_conv length_Suc_conv)
  then have "\<forall>x \<in> set (butlast sizes). x = c"
    by (metis empty_iff list.set(1) set_ConsD set_remdups)
  then have r: "butlast sizes = replicate (length sizes - 1) c"
    by (metis length_butlast replicate_eqI)
  have "sizes \<noteq> []" using assms(1) by auto
  then have app: "butlast sizes @ [last sizes] = sizes" by simp
  have "butlast sizes \<noteq> []" using c by auto
  then have "hd sizes = hd (butlast sizes)" by (metis app hd_append2)
  also have "\<dots> = c" using r assms(1) by simp
  finally show ?thesis using app r by simp
qed

definition replica_ok :: "replica \<Rightarrow> bool" where
  "replica_ok r \<longleftrightarrow> (COMPACT_IDS_THRESHOLD < length (r_message_ids r)
      \<longrightarrow> (\<forall>i \<in> set (r_message_ids r). id_in_range i))"

lemma replica_roundtrip:
  assumes "replica_ok r"
  shows "\<exists>d. replica_to_dict r = Inr d \<and> replica_from_dict d = Inr r"
proof -
  define sizes where "sizes = r_part_sizes r"
  define collapse where "collapse \<longleftrightarrow> 2 < length sizes \<and> length (remdups (butlast sizes)) = 1"
  define p where "p = (if collapse then Some [hd sizes, last sizes]
                       else if sizes \<noteq> [] then Some sizes else None)"
  define n where "n = (if collapse then Some (int (length sizes)) else None)"
  have sizes_back: "(case n of
        Some k \<Rightarrow> (if k \<noteq> 0 \<and> length (or_empty p) = 2 \<and> 2 < k
                   then replicate (nat (k - 1)) (or_empty p ! 0) @ [or_empty p ! 1] else or_empty p)
      | None \<Rightarrow> or_empty p) = sizes"
  proof (cases collapse)
    case True
    then have "replicate (length sizes - 1) (hd sizes) @ [last sizes] = sizes" and "2 < length sizes"
      using collapsed_sizes [of sizes] by (simp_all add: collapse_def)
    with True show ?thesis
      by (auto simp: n_def p_def or_empty_def nat_diff_distrib)
  qed (simp add: n_def p_def or_empty_def)
  have fin: "replica_from_dict d = Inr r"
    if "(case rs_mb d of Some s \<Rightarrow> decode_ids s | None \<Rightarrow> Inr (or_empty (rs_m d))) = Inr (r_message_ids r)"
      and "rs_p d = p" and "rs_n d = n" for d
    using that sizes_back by (simp add: replica_from_dict_def Let_def sizes_def)
  have eq: "replica_to_dict r =
      (if COMPACT_IDS_THRESHOLD < length (r_message_ids r)
       then rbind (encode_ids (r_message_ids r))
              (\<lambda>s. Inr \<lparr>rs_m = None, rs_mb = Some s, rs_p = p, rs_n = n\<rparr>)
       else Inr \<lparr>rs_m = Some (r_message_ids r), rs_mb = None, rs_p = p, rs_n = n\<rparr>)"
    by (simp add: replica_to_dict_def Let_def p_def n_def collapse_def sizes_def)
  show ?thesis
  proof (cases "COMPACT_IDS_THRESHOLD < length (r_message_ids r)")
    case True
    then obtain s where "encode_ids (r_message_ids r) = Inr s" "decode_ids s = Inr (r_message_ids r)"
      using assms decode_encode_ids [of "r_message_ids r"] by (auto simp: replica_ok_def)
    with True show ?thesis by (simp add: eq fin)
  qed (simp add: eq fin or_empty_def)
qed

text \<open>Writing a replica into a descriptor and reading it back loses nothing: the packed
  form of long id lists and the collapsed form of equal part sizes are both lossless. Ids of a
  packed list must fit 64 bits.\<close>

lemma replica_dict_roundtrip:
  assumes "replica_ok r"
  shows "\<exists>d. replica_to_dict r = Inr d \<and> replica_from_dict d = Inr r"
  using assms by (rule replica_roundtrip)

section \<open>Version round trip\<close>

lemma update_new_key: "k \<notin> set (map fst d) \<Longrightarrow> AList.update k v d = d @ [(k, v)]"
  by (induction d) auto

lemma dict_update_all_append:
  "dict_ok (acc @ d) \<Longrightarrow> dict_update_all acc d = acc @ d"
proof (induction d arbitrary: acc)
  case Nil
  then show ?case by (simp add: dict_update_all_def)
next
  case (Cons p d)
  obtain k v where p: "p = (k, v)" by (cases p)
  have "k \<notin> set (map fst acc)" using Cons.prems by (auto simp: p dict_ok_def)
  then have "dict_update_all acc (p # d) = dict_update_all (acc @ [(k, v)]) d"
    by (simp add: dict_update_all_def p update_new_key)
  also have "\<dots> = acc @ p # d"
    using Cons.IH [of "acc @ [(k, v)]"] Cons.prems by (simp add: p)
  finally show ?case .
qed

lemma dict_update_all_Nil: "dict_ok d \<Longrightarrow> dict_update_all [] d = d"
  using dict_update_all_append [of "[]" d] by simp

lemma dict_comp_id:
  assumes "dict_ok d" and "\<forall>k \<in> set (map fst d). f k = k"
  shows "dict_comp f d = d"
proof -
  have "map (\<lambda>(k, v). (f k, v)) d = d"
    using assms(2) by (intro map_idI) auto
  then show ?thesis by (simp add: dict_comp_def dict_update_all_Nil assms(1))
qed

lemma or_empty_nonempty_opt [simp]: "or_empty (nonempty_opt xs) = xs"
  by (simp add: or_empty_def nonempty_opt_def)

lemma normal_key_nonempty: "normalize_store_key k = k \<Longrightarrow> store_opt (Some k) = Some k"
  by (cases k) (auto simp: store_opt_def normalize_store_key_def make_store_key_def
      split: prod.splits)

text \<open>
  A version the program can write: its dictionaries are keyed by normalised store keys, its
  replicas' packed ids fit, and it is dated after the epoch.
\<close>

definition fv_wf :: "file_version \<Rightarrow> bool" where
  "fv_wf v \<longleftrightarrow>
     dict_ok (fv_mirrors v) \<and> (\<forall>k \<in> set (map fst (fv_mirrors v)). normalize_store_key k = k) \<and>
     dict_ok (fv_replicas v) \<and> (\<forall>k \<in> set (map fst (fv_replicas v)). normalize_store_key k = k) \<and>
     (\<forall>r \<in> set (map snd (fv_replicas v)). replica_ok r) \<and>
     (\<forall>k. fv_store v = Some k \<longrightarrow> normalize_store_key k = k) \<and>
     0 < updated_at_timestamp v"

text \<open>What a reader gets of a version that was written.\<close>

definition fv_reread :: "file_version \<Rightarrow> file_version" where
  "fv_reread v = v\<lparr>fv_updated_at := fromtimestamp_ms (updated_at_timestamp v),
     fv_raw_size := (if fv_pending v then fv_size v else INVALID_FILE_SIZE),
     fv_part_sizes := [], fv_cacheable := True, fv_recorded_size := fv_size v\<rparr>"

lemma replicas_roundtrip:
  assumes "\<forall>r \<in> set (map snd reps). replica_ok r"
  shows "\<exists>ds. rmap (\<lambda>(k, r). rbind (replica_to_dict r) (\<lambda>d. Inr (k, d))) reps = Inr ds
    \<and> rmap (\<lambda>(k, d). rbind (replica_from_dict d) (\<lambda>x. Inr (k, x))) ds = Inr reps"
  using assms
proof (induction reps)
  case (Cons p reps)
  obtain k r where p: "p = (k, r)" by (cases p)
  obtain d where "replica_to_dict r = Inr d" "replica_from_dict d = Inr r"
    using Cons.prems replica_roundtrip [of r] by (auto simp: p)
  with Cons show ?case by (auto simp: p)
qed simp

lemma fv_dict_roundtrip:
  assumes "fv_wf v"
  shows "\<exists>d. fv_to_dict v = Inr d \<and> fv_from_dict d = Inr (fv_reread v)"
proof -
  obtain ds where
    ds: "rmap (\<lambda>(k, r). rbind (replica_to_dict r) (\<lambda>d. Inr (k, d))) (fv_replicas v) = Inr ds"
    "rmap (\<lambda>(k, d). rbind (replica_from_dict d) (\<lambda>x. Inr (k, x))) ds = Inr (fv_replicas v)"
    using replicas_roundtrip [of "fv_replicas v"] assms by (auto simp: fv_wf_def)
  have m: "dict_comp normalize_store_key (fv_mirrors v) = fv_mirrors v"
    "dict_comp normalize_store_key (fv_replicas v) = fv_replicas v"
    using assms by (simp_all add: fv_wf_def dict_comp_id)
  have st: "map_option normalize_store_key (store_opt (store_opt (fv_store v))) = fv_store v"
  proof (cases "fv_store v")
    case (Some k)
    then have "normalize_store_key k = k" using assms by (simp add: fv_wf_def)
    then show ?thesis by (simp add: Some normal_key_nonempty)
  qed (simp add: store_opt_def)
  have "0 < updated_at_timestamp v" using assms by (simp add: fv_wf_def)
  then show ?thesis
    by (simp add: fv_to_dict_def fv_from_dict_def ds m st fv_reread_def Let_def)
qed

text \<open>A version that is written into its descriptor and read back keeps its id, message
  ids, mirrors, replicas, store and pending mark; its date is cut to milliseconds, its size is
  remembered as the recorded size, and the part sizes are left to be learned again.\<close>

lemma file_version_roundtrip:
  assumes "fv_wf v"
  shows "\<exists>d. fv_to_dict v = Inr d \<and> fv_from_dict d = Inr (fv_reread v)"
  using assms by (rule fv_dict_roundtrip)

definition example_version :: file_version where
  "example_version =
     \<lparr>fv_id = ''v1'', fv_updated_at = Naive 1700000000123456, fv_raw_size = -1,
      fv_message_ids = [11, 12], fv_part_sizes = [5, 3],
      fv_mirrors = [(''tg:-7'', [21, 22])],
      fv_replicas = [(''dc:9'', \<lparr>r_message_ids = [31], r_part_sizes = [8]\<rparr>)],
      fv_store = Some ''tg:-1'', fv_pending = False, fv_cacheable = True,
      fv_recorded_size = -1\<rparr>"

lemma example_version_wf: "fv_wf example_version"
  by (simp add: fv_wf_def example_version_def dict_ok_def replica_ok_def
      COMPACT_IDS_THRESHOLD_def updated_at_timestamp_def ts_def normalize_store_key_def
      parse_store_key_def make_store_key_def KEY_SEPARATOR_def isalpha_def isalpha_char_def)

section \<open>Relocation to a new primary\<close>

lemma fold_relocate_replicas:
  assumes "dict_ok mirrors"
  shows "map_of (fold (\<lambda>(key, aligned) acc. if P aligned then AList.update key (g aligned) acc else acc)
      mirrors acc) k =
    (case map_of mirrors k of
       Some a \<Rightarrow> if P a then Some (g a) else map_of acc k | None \<Rightarrow> map_of acc k)"
  using assms
proof (induction mirrors arbitrary: acc)
  case (Cons p mirrors)
  obtain key a where p: "p = (key, a)" by (cases p)
  have "map_of mirrors key = None"
    using Cons.prems by (simp add: p dict_ok_def map_of_eq_None_iff)
  moreover have "dict_ok mirrors" using Cons.prems by (simp add: dict_ok_def)
  ultimately show ?case
    by (auto simp: p Cons.IH update_conv' split: option.splits)
qed simp

text \<open>
  The hypothesis of relocation: a readable version whose ids are real message ids and whose
  mirror entry for its own store, if there is one, repeats its own ids.
\<close>

definition relocatable :: "file_version \<Rightarrow> bool" where
  "relocatable v \<longleftrightarrow> fv_is_valid v \<and> (\<forall>i \<in> set (fv_message_ids v). 0 < i) \<and>
     dict_ok (fv_mirrors v) \<and> dict_ok (fv_replicas v) \<and>
     (\<forall>k ids. fv_store v = Some k \<longrightarrow> map_of (fv_mirrors v) k = Some ids
        \<longrightarrow> ids = fv_message_ids v)"

lemma own_ids_complete: "relocatable v \<Longrightarrow> aligned_complete (fv_message_ids v) (fv_message_ids v)"
  by (simp add: relocatable_def aligned_complete_def fv_is_valid_def)

text \<open>
  The three outcomes of a relocation away from the store \<open>old\<close>: the aligned copy of the
  new primary is taken over, its replica is, or the version stays where it is.
\<close>

lemma relocate_aligned_copies:
  assumes "relocatable v" and "fv_store v = Some old" and "old \<noteq> p"
    and "map_of (fv_mirrors v) p = Some ids" and "aligned_complete ids (fv_message_ids v)"
  shows "fv_has_copy_in (fv_relocate p v) k = fv_has_copy_in v k"
    and "fv_store (fv_relocate p v) = Some p"
proof -
  have own: "map_of (dict_setdefault old (fv_message_ids v) (fv_mirrors v)) old
      = Some (fv_message_ids v)"
    using assms(1,2) by (auto simp: relocatable_def split: option.splits)
  have len: "length ids = length (fv_message_ids v)"
    using assms(5) by (simp add: aligned_complete_def)
  have eq: "fv_relocate p v =
      v\<lparr>fv_mirrors := AList.delete p (dict_setdefault old (fv_message_ids v) (fv_mirrors v)),
        fv_message_ids := ids, fv_store := Some p\<rparr>"
    using assms by (simp add: fv_relocate_def Let_def)
  then show "fv_store (fv_relocate p v) = Some p" by simp
  have al: "aligned_complete xs ids = aligned_complete xs (fv_message_ids v)" for xs
    by (simp add: aligned_complete_def len)
  have "ids \<noteq> []" using assms(5) by (simp add: aligned_complete_def)
  then show "fv_has_copy_in (fv_relocate p v) k = fv_has_copy_in v k"
    using assms own own_ids_complete [OF assms(1)]
    by (auto simp: eq fv_has_copy_in_def fv_is_valid_def delete_conv' al relocatable_def
        split: option.splits)
qed

lemma relocate_replica_copies:
  assumes "relocatable v" and "fv_store v = Some old" and "old \<noteq> p"
    and "\<forall>ids. map_of (fv_mirrors v) p = Some ids \<longrightarrow> \<not> aligned_complete ids (fv_message_ids v)"
    and "map_of (fv_replicas v) p = Some rep" and "r_message_ids rep \<noteq> []"
  shows "fv_has_copy_in (fv_relocate p v) k = fv_has_copy_in v k"
    and "fv_store (fv_relocate p v) = Some p"
proof -
  let ?M = "dict_setdefault old (fv_message_ids v) (fv_mirrors v)"
  have own: "map_of ?M old = Some (fv_message_ids v)"
    using assms(1,2) by (auto simp: relocatable_def split: option.splits)
  have ok: "dict_ok (AList.delete old ?M)"
    using assms(1) by (simp add: relocatable_def)
  have eq: "fv_relocate p v = relocate_to_replica p old rep
      (v\<lparr>fv_mirrors := ?M, fv_replicas := AList.delete p (fv_replicas v)\<rparr>)"
    using assms by (auto simp: fv_relocate_def relocate_via_replica_def Let_def split: option.splits)
  then show st: "fv_store (fv_relocate p v) = Some p"
    by (simp add: relocate_to_replica_def Let_def)
  have ids: "fv_message_ids (fv_relocate p v) = r_message_ids rep" "fv_mirrors (fv_relocate p v) = []"
    by (simp_all add: eq relocate_to_replica_def Let_def)
  have ne: "fv_message_ids v \<noteq> []" using assms(1) by (simp add: relocatable_def fv_is_valid_def)
  have reps: "map_of (fv_replicas (fv_relocate p v)) k =
      (case map_of (AList.delete old ?M) k of
         Some a \<Rightarrow> if length a = length (fv_message_ids v) \<and> (\<forall>i \<in> set a. 0 < i)
                   then Some \<lparr>r_message_ids = a, r_part_sizes = fv_part_sizes v\<rparr>
                   else map_of (AList.update old
                     \<lparr>r_message_ids = fv_message_ids v, r_part_sizes = fv_part_sizes v\<rparr>
                     (AList.delete p (fv_replicas v))) k
       | None \<Rightarrow> map_of (AList.update old
                     \<lparr>r_message_ids = fv_message_ids v, r_part_sizes = fv_part_sizes v\<rparr>
                     (AList.delete p (fv_replicas v))) k)"
    using own by (simp add: eq relocate_to_replica_def Let_def fold_relocate_replicas [OF ok]
        split: option.split)
  show "fv_has_copy_in (fv_relocate p v) k = fv_has_copy_in v k"
  proof (cases "k = old \<or> k = p")
    case True
    then show ?thesis
    proof
      assume k: "k = old"
      then have "map_of (fv_replicas (fv_relocate p v)) old
          = Some \<lparr>r_message_ids = fv_message_ids v, r_part_sizes = fv_part_sizes v\<rparr>"
        using reps by (simp add: delete_conv' update_conv')
      then show ?thesis
        using assms(2) ne k by (simp add: fv_has_copy_in_def fv_is_valid_def)
    next
      assume "k = p"
      then show ?thesis
        using assms(5,6) st ids by (simp add: fv_has_copy_in_def fv_is_valid_def)
    qed
  next
    case False
    then have "map_of (AList.delete old ?M) k = map_of (fv_mirrors v) k"
      by (simp add: delete_conv')
    with False show ?thesis
      using ne assms(2,3) st ids
      by (auto simp: fv_has_copy_in_def reps delete_conv' update_conv' aligned_complete_def
          split: option.splits)
  qed
qed

lemma relocate_stay_copies:
  assumes "relocatable v" and "fv_store v = Some old" and "old \<noteq> p"
    and "\<forall>ids. map_of (fv_mirrors v) p = Some ids \<longrightarrow> \<not> aligned_complete ids (fv_message_ids v)"
    and "\<forall>rep. map_of (fv_replicas v) p = Some rep \<longrightarrow> r_message_ids rep = []"
  shows "fv_has_copy_in (fv_relocate p v) k = fv_has_copy_in v k"
    and "fv_store (fv_relocate p v) = Some old"
proof -
  let ?M = "dict_setdefault old (fv_message_ids v) (fv_mirrors v)"
  have eq: "fv_relocate p v = (if map_of (fv_replicas v) p = None then v\<lparr>fv_mirrors := ?M\<rparr>
      else v\<lparr>fv_mirrors := ?M, fv_replicas := AList.delete p (fv_replicas v)\<rparr>)"
    using assms by (auto simp: fv_relocate_def relocate_via_replica_def Let_def split: option.splits)
  show "fv_store (fv_relocate p v) = Some old"
    using assms(2) by (simp add: eq)
  show "fv_has_copy_in (fv_relocate p v) k = fv_has_copy_in v k"
    using assms
    by (auto simp: eq fv_has_copy_in_def fv_is_valid_def relocatable_def delete_conv'
        split: option.splits)
qed

text \<open>C30: promoting a mirror never loses or invents a copy: after \<open>relocate\<close> every store
  holds a complete copy of the version exactly when it held one before, and the version's own
  ids belong to the new primary exactly when the new primary had a complete copy (or the
  version records no store).\<close>

theorem relocate_preserves_copies:
  assumes "relocatable v"
  shows "(\<forall>k. fv_has_copy_in (fv_relocate p v) k = fv_has_copy_in v k)
    \<and> (fv_owned_by (fv_relocate p v) p \<longleftrightarrow> fv_store v = None \<or> fv_has_copy_in v p)"
proof (cases "fv_store v")
  case None
  then show ?thesis by (simp add: fv_relocate_def fv_owned_by_def)
next
  case (Some old)
  show ?thesis
  proof (cases "old = p")
    case True
    with Some assms show ?thesis
      by (simp add: fv_relocate_def fv_owned_by_def fv_has_copy_in_def relocatable_def)
  next
    case False
    consider
      (aligned) ids where "map_of (fv_mirrors v) p = Some ids" "aligned_complete ids (fv_message_ids v)"
    | (rep) rep where "\<forall>ids. map_of (fv_mirrors v) p = Some ids \<longrightarrow> \<not> aligned_complete ids (fv_message_ids v)"
        "map_of (fv_replicas v) p = Some rep" "r_message_ids rep \<noteq> []"
    | (stay) "\<forall>ids. map_of (fv_mirrors v) p = Some ids \<longrightarrow> \<not> aligned_complete ids (fv_message_ids v)"
        "\<forall>rep. map_of (fv_replicas v) p = Some rep \<longrightarrow> r_message_ids rep = []"
      by blast
    then show ?thesis
    proof cases
      case aligned
      then show ?thesis
        using relocate_aligned_copies [OF assms Some False aligned]
        by (simp add: fv_owned_by_def fv_has_copy_in_def)
    next
      case rep
      then show ?thesis
        using relocate_replica_copies [OF assms Some False rep]
        by (simp add: fv_owned_by_def fv_has_copy_in_def)
    next
      case stay
      have "\<not> fv_has_copy_in v p"
        using stay Some False by (auto simp: fv_has_copy_in_def split: option.splits)
      then show ?thesis
        using relocate_stay_copies [OF assms Some False stay] Some False
        by (simp add: fv_owned_by_def)
    qed
  qed
qed

theorem relocate_preserves_copies_witness:
  "relocatable example_version
    \<and> fv_message_ids (fv_relocate ''dc:9'' example_version) = [31]
    \<and> fv_owned_by (fv_relocate ''dc:9'' example_version) ''dc:9''
    \<and> fv_has_copy_in (fv_relocate ''dc:9'' example_version) ''tg:-7''"
proof -
  have h: "relocatable example_version"
    by (simp add: relocatable_def example_version_def fv_is_valid_def dict_ok_def)
  have "fv_has_copy_in example_version ''dc:9''" "fv_has_copy_in example_version ''tg:-7''"
    by (simp_all add: fv_has_copy_in_def example_version_def aligned_complete_def)
  then show ?thesis
    using h relocate_preserves_copies [OF h, of "''dc:9''"]
    by (simp add: fv_relocate_def relocate_via_replica_def relocate_to_replica_def
        example_version_def dict_setdefault_def dict_has_def Let_def)
qed

end
