(* ===== verification/FileDesc.thy ===== *)
theory FileDesc
  imports FileModel "HOL-Library.Multiset" "HOL-Library.Product_Lexorder"
begin

text \<open>
  File descriptors, the second half of \<open>src/tgdcfs/core/model/file.py\<close>: the versions of a
  file in insertion order and a pointer to the latest one, the version a read serves. The
  pointer is not written: a reader derives it from the dates, so the lemmas here are about
  what the pointer is in memory, what it becomes after a write and a read, and which
  operations keep the two the same.
\<close>

section \<open>Descriptors\<close>

record file_desc =
  fd_name :: string
  fd_latest_version_id :: string
  fd_created_at :: datetime
  fd_versions :: "(string, file_version) dict"
  fd_complete :: bool

text \<open>\<open>max(xs, key=f)\<close>: the first of the maximal elements.\<close>

fun py_max_from :: "('a \<Rightarrow> 'b :: linorder) \<Rightarrow> 'a \<Rightarrow> 'a list \<Rightarrow> 'a" where
  "py_max_from f m [] = m"
| "py_max_from f m (x # xs) = py_max_from f (if f m < f x then x else m) xs"

definition new_file_desc :: "string \<Rightarrow> string \<Rightarrow> (string, file_version) dict \<Rightarrow> datetime \<Rightarrow> file_desc res" where
  "new_file_desc name latest versions now =
     rbind (validate_name name) (\<lambda>_. Inr
       \<lparr>fd_name = name, fd_latest_version_id = latest, fd_created_at = now,
        fd_versions = versions, fd_complete = True\<rparr>)"

definition fd_empty :: "string \<Rightarrow> datetime \<Rightarrow> file_desc res" where
  "fd_empty name now = new_file_desc name [] [] now"

definition enumerate_desc :: "file_version list \<Rightarrow> (nat \<times> file_version) list" where
  "enumerate_desc vs = rev (sort_key (\<lambda>(i, v). (updated_at_timestamp v, i)) (enumerate 0 vs))"

definition get_versions :: "file_desc \<Rightarrow> bool \<Rightarrow> bool \<Rightarrow> file_version list" where
  "get_versions fd srt exclude_invalid =
     (let vals = map snd (fd_versions fd);
          res = (if \<not> srt then vals else map snd (enumerate_desc vals))
      in if exclude_invalid then filter fv_is_valid res else res)"

definition fd_to_dict :: "file_desc \<Rightarrow> version_ser list res" where
  "fd_to_dict fd = rmap fv_to_dict (get_versions fd True False)"

definition fd_from_dict :: "version_ser list \<Rightarrow> string \<Rightarrow> datetime \<Rightarrow> file_desc res" where
  "fd_from_dict data name now =
     rbind (rmap fv_from_dict data) (\<lambda>vs.
       let versions = dict_update_all [] (map (\<lambda>v. (fv_id v, v)) vs);
           latest = (case versions of
               [] \<Rightarrow> INVALID_VERSION_ID
             | x # xs \<Rightarrow> fst (py_max_from (\<lambda>(k, v). updated_at_timestamp v) x xs))
       in new_file_desc name latest versions now)"

definition get_latest_version :: "file_desc \<Rightarrow> string \<Rightarrow> datetime \<Rightarrow> file_version res" where
  "get_latest_version fd uuid now =
     (if fd_latest_version_id fd \<noteq> []
      then (case map_of (fd_versions fd) (fd_latest_version_id fd) of
              Some v \<Rightarrow> Inr v | None \<Rightarrow> Inl (KeyError (fd_latest_version_id fd)))
      else Inr (fv_empty uuid now))"

definition fd_updated_at_timestamp :: "file_desc \<Rightarrow> int res" where
  "fd_updated_at_timestamp fd =
     (if fd_versions fd = [] \<or> fd_latest_version_id fd = INVALID_VERSION_ID
      then Inr (ts (fd_created_at fd))
      else rbind (get_latest_version fd [] FIRST_DAY_OF_EPOCH) (\<lambda>v. Inr (updated_at_timestamp v)))"

definition add_version :: "file_version \<Rightarrow> file_desc \<Rightarrow> file_desc res" where
  "add_version v fd =
     (let fd1 = fd\<lparr>fd_versions := AList.update (fv_id v) v (fd_versions fd)\<rparr>
      in rbind (if fd_latest_version_id fd1 = INVALID_VERSION_ID then Inr True
                else (case map_of (fd_versions fd1) (fd_latest_version_id fd1) of
                        None \<Rightarrow> Inl (KeyError (fd_latest_version_id fd1))
                      | Some l \<Rightarrow> dt_ge (fv_updated_at v) (fv_updated_at l)))
           (\<lambda>newer.
             let fd2 = (if newer then fd1\<lparr>fd_latest_version_id := fv_id v\<rparr> else fd1)
             in rbind (dt_lt (fv_updated_at v) (fd_created_at fd2))
                  (\<lambda>older. Inr (if older then fd2\<lparr>fd_created_at := fv_updated_at v\<rparr> else fd2))))"

definition add_empty_version :: "string \<Rightarrow> datetime \<Rightarrow> file_desc \<Rightarrow> file_desc res" where
  "add_empty_version uuid now fd = add_version (fv_empty uuid now) fd"

definition update_version :: "string \<Rightarrow> file_version \<Rightarrow> file_desc \<Rightarrow> file_desc" where
  "update_version vid v fd = fd\<lparr>fd_versions := AList.update vid v (fd_versions fd)\<rparr>"

text \<open>
  \<open>set_last_modified\<close>: \<open>newest_other\<close> is compared as serialised, in milliseconds.
\<close>

definition set_last_modified :: "datetime \<Rightarrow> file_desc \<Rightarrow> file_desc res" where
  "set_last_modified when fd =
     (if fd_latest_version_id fd = INVALID_VERSION_ID then Inl ValueError
      else (case map_of (fd_versions fd) (fd_latest_version_id fd) of
          None \<Rightarrow> Inl (KeyError (fd_latest_version_id fd))
        | Some latest \<Rightarrow>
            let others = map (\<lambda>(k, v). updated_at_timestamp v)
                  (filter (\<lambda>(k, v). k \<noteq> fd_latest_version_id fd) (fd_versions fd))
            in if others \<noteq> [] \<and> ts when \<le> Max (set others) then Inl ValueError
               else
                 let fd1 = fd\<lparr>fd_versions := AList.update (fd_latest_version_id fd)
                                (latest\<lparr>fv_updated_at := when\<rparr>) (fd_versions fd)\<rparr>
                 in Inr (if ts when < ts (fd_created_at fd)
                         then fd1\<lparr>fd_created_at := when\<rparr> else fd1)))"

text \<open>
  \<open>delete_version\<close>. The key of the \<open>max\<close> is the pair of the date and the position; a
  sequence with naive and aware dates cannot be compared.
\<close>

definition delete_version :: "string \<Rightarrow> file_desc \<Rightarrow> file_desc res" where
  "delete_version vid fd =
     (if \<not> dict_has (fd_versions fd) vid then Inl ValueError
      else
        let fd1 = fd\<lparr>fd_versions := AList.delete vid (fd_versions fd)\<rparr>
        in if vid = fd_latest_version_id fd1 then
             (case enumerate 0 (fd_versions fd1) of
                [] \<Rightarrow> Inr (fd1\<lparr>fd_latest_version_id := []\<rparr>)
              | x # xs \<Rightarrow>
                  if \<exists>y \<in> set xs. is_naive (fv_updated_at (snd (snd y)))
                                  \<noteq> is_naive (fv_updated_at (snd (snd x)))
                  then Inl TypeError
                  else Inr (fd1\<lparr>fd_latest_version_id :=
                    fst (snd (py_max_from (\<lambda>(i, k, v). (dt_us (fv_updated_at v), i)) x xs))\<rparr>))
           else Inr fd1)"

section \<open>Sorting by date\<close>

lemma map_snd_insort_index:
  assumes "\<forall>y \<in> set ys. n < fst y"
  shows "map snd (insort_key (\<lambda>(i, v). (f v, i)) (n, x) ys) = insort_key f x (map snd ys)"
  using assms
proof (induction ys)
  case (Cons y ys)
  obtain i v where y: "y = (i, v)" by (cases y)
  with Cons show ?case by (auto simp: less_prod_def' less_eq_prod_def)
qed simp

lemma fst_sort_enumerate:
  "y \<in> set (sort_key g (enumerate n xs)) \<Longrightarrow> n \<le> fst y"
  by (auto simp: in_set_enumerate_eq)

text \<open>Sorting by date and position is the stable sort by date.\<close>

lemma sort_enumerate:
  "map snd (sort_key (\<lambda>(i, v). (f v, i)) (enumerate n xs)) = sort_key f xs"
proof (induction xs arbitrary: n)
  case (Cons x xs)
  have "\<forall>y \<in> set (sort_key (\<lambda>(i, v). (f v, i)) (enumerate (Suc n) xs)). n < fst y"
    using fst_sort_enumerate Suc_le_lessD by blast
  then show ?case by (simp add: map_snd_insort_index Cons.IH)
qed simp

lemma get_versions_sorted:
  "get_versions fd True False = rev (sort_key updated_at_timestamp (map snd (fd_versions fd)))"
  by (simp add: get_versions_def enumerate_desc_def rev_map [symmetric] sort_enumerate)

section \<open>The maximum\<close>

lemma py_max_from_first:
  "\<forall>x \<in> set xs. f x \<le> f m \<Longrightarrow> py_max_from f m xs = m"
  by (induction xs) auto

lemma py_max_from_set: "py_max_from f m xs \<in> insert m (set xs)"
proof (induction xs arbitrary: m)
  case (Cons x xs)
  show ?case
    using Cons.IH [of m] Cons.IH [of x] by auto
qed simp

lemma py_max_from_ge_start: "f m \<le> f (py_max_from f m xs)"
proof (induction xs arbitrary: m)
  case (Cons x xs)
  show ?case
    using Cons.IH [of m] Cons.IH [of x] by auto
qed simp

lemma py_max_from_ge: "y \<in> set xs \<Longrightarrow> f y \<le> f (py_max_from f m xs)"
proof (induction xs arbitrary: m)
  case (Cons x xs)
  have "f x \<le> f (if f m < f x then x else m)" by auto
  also have "\<dots> \<le> f (py_max_from f (if f m < f x then x else m) xs)"
    by (rule py_max_from_ge_start)
  finally show ?case using Cons by auto
qed simp

section \<open>Write and read\<close>

text \<open>What another process sees of a descriptor: it is written and read back.\<close>

definition fd_reload :: "file_desc \<Rightarrow> datetime \<Rightarrow> file_desc res" where
  "fd_reload fd now = rbind (fd_to_dict fd) (\<lambda>d. fd_from_dict d (fd_name fd) now)"

definition fd_wf :: "file_desc \<Rightarrow> bool" where
  "fd_wf fd \<longleftrightarrow> dict_ok (fd_versions fd) \<and> (\<forall>(k, v) \<in> set (fd_versions fd). fv_id v = k \<and> fv_wf v)
     \<and> validate_name (fd_name fd) = Inr ()"

lemma rmap_chain:
  assumes "\<And>x. x \<in> set xs \<Longrightarrow> \<exists>d. f x = Inr d \<and> g d = Inr (h x)"
  shows "\<exists>ds. rmap f xs = Inr ds \<and> rmap g ds = Inr (map h xs)"
  using assms
proof (induction xs)
  case (Cons x xs)
  obtain d where "f x = Inr d" "g d = Inr (h x)" using Cons.prems by auto
  moreover obtain ds where "rmap f xs = Inr ds" "rmap g ds = Inr (map h xs)"
    using Cons by force
  ultimately show ?case by auto
qed simp

lemma fv_reread_simps [simp]:
  "fv_id (fv_reread v) = fv_id v" "updated_at_timestamp (fv_reread v) = updated_at_timestamp v"
  by (simp_all add: fv_reread_def updated_at_timestamp_def)

lemma fd_wf_ids: "fd_wf fd \<Longrightarrow> map fv_id (map snd (fd_versions fd)) = map fst (fd_versions fd)"
  by (auto simp: fd_wf_def intro: map_cong)

lemma distinct_ids_sorted:
  assumes "fd_wf fd"
  shows "distinct (map fv_id (rev (sort_key updated_at_timestamp (map snd (fd_versions fd)))))"
proof -
  let ?vals = "map snd (fd_versions fd)"
  have d: "distinct (map fv_id ?vals)"
    using assms by (simp only: fd_wf_ids [OF assms]) (simp add: fd_wf_def dict_ok_def)
  have "mset (map fv_id (rev (sort_key updated_at_timestamp ?vals))) = mset (map fv_id ?vals)"
    by (simp only: mset_map mset_rev mset_sort)
  with d show ?thesis by (metis mset_eq_imp_distinct_iff)
qed

text \<open>
  The descriptor a reader builds: newest version first, of equally dated versions the one
  inserted later first, and the pointer at the first.
\<close>

lemma fd_reload_eq:
  assumes "fd_wf fd"
  defines "vs \<equiv> map fv_reread (rev (sort_key updated_at_timestamp (map snd (fd_versions fd))))"
  shows "fd_reload fd now = Inr
    \<lparr>fd_name = fd_name fd,
     fd_latest_version_id = (case vs of [] \<Rightarrow> INVALID_VERSION_ID | v # _ \<Rightarrow> fv_id v),
     fd_created_at = now, fd_versions = map (\<lambda>v. (fv_id v, v)) vs, fd_complete = True\<rparr>"
proof -
  let ?sorted = "rev (sort_key updated_at_timestamp (map snd (fd_versions fd)))"
  have "\<exists>d. fv_to_dict v = Inr d \<and> fv_from_dict d = Inr (fv_reread v)" if "v \<in> set ?sorted" for v
    using that assms(1) by (intro fv_dict_roundtrip) (auto simp: fd_wf_def)
  then obtain ds where ds: "rmap fv_to_dict ?sorted = Inr ds" "rmap fv_from_dict ds = Inr vs"
    unfolding vs_def using rmap_chain [of ?sorted fv_to_dict fv_from_dict fv_reread] by blast
  have "map (fv_id \<circ> fv_reread) ?sorted = map fv_id ?sorted" by simp
  then have "distinct (map fv_id vs)"
    using distinct_ids_sorted [OF assms(1)] unfolding vs_def by (simp add: comp_def)
  then have "dict_ok (map (\<lambda>v. (fv_id v, v)) vs)"
    by (simp add: dict_ok_def comp_def)
  then have all: "dict_update_all [] (map (\<lambda>v. (fv_id v, v)) vs) = map (\<lambda>v. (fv_id v, v)) vs"
    by (rule dict_update_all_Nil)
  have "sorted (map updated_at_timestamp (rev ?sorted))" by simp
  then have srt: "sorted (rev (map updated_at_timestamp vs))"
    unfolding vs_def by (simp add: rev_map [symmetric] comp_def)
  have latest: "fst (py_max_from (\<lambda>(k, v). updated_at_timestamp v) (fv_id v, v)
      (map (\<lambda>v. (fv_id v, v)) ws)) = fv_id v" if "vs = v # ws" for v ws
  proof -
    have "\<forall>w \<in> set ws. updated_at_timestamp w \<le> updated_at_timestamp v"
      using srt that by (auto simp: sorted_append)
    then show ?thesis by (subst py_max_from_first) auto
  qed
  have "fd_reload fd now = new_file_desc (fd_name fd)
      (case map (\<lambda>v. (fv_id v, v)) vs of
         [] \<Rightarrow> INVALID_VERSION_ID
       | x # xs \<Rightarrow> fst (py_max_from (\<lambda>(k, v). updated_at_timestamp v) x xs))
      (map (\<lambda>v. (fv_id v, v)) vs) now"
    by (simp add: fd_reload_def fd_to_dict_def get_versions_sorted ds fd_from_dict_def all Let_def)
  then show ?thesis
    using assms(1) latest by (cases vs) (simp_all add: new_file_desc_def fd_wf_def)
qed

lemma last_sort_key_max:
  assumes "v \<in> set xs" and "\<And>w. w \<in> set xs \<Longrightarrow> w \<noteq> v \<Longrightarrow> f w < f v"
  shows "last (sort_key f xs) = v"
proof (rule ccontr)
  let ?l = "last (sort_key f xs)"
  assume ne: "?l \<noteq> v"
  have nonempty: "sort_key f xs \<noteq> []" using assms(1) by (metis empty_iff list.set(1) set_sort)
  then have "?l \<in> set xs" by (metis last_in_set set_sort)
  with ne assms(2) have lt: "f ?l < f v" by blast
  obtain ys where ys: "sort_key f xs = ys @ [?l]"
    using nonempty by (metis append_butlast_last_id)
  have "v \<in> set (ys @ [?l])" using assms(1) ys by (metis set_sort)
  with ne have "v \<in> set ys" by auto
  moreover have "sorted (map f (ys @ [?l]))" using ys by (metis sorted_sort_key)
  ultimately have "f v \<le> f ?l" by (auto simp: sorted_append)
  with lt show False by simp
qed

definition strictly_newest :: "file_desc \<Rightarrow> string \<Rightarrow> file_version \<Rightarrow> bool" where
  "strictly_newest fd l v \<longleftrightarrow> (\<forall>(k, w) \<in> set (fd_versions fd).
     k \<noteq> l \<longrightarrow> updated_at_timestamp w < updated_at_timestamp v)"

lemma reload_pointer:
  assumes "fd_wf fd" and "map_of (fd_versions fd) l = Some v"
    and "strictly_newest fd l v"
  shows "\<exists>fd'. fd_reload fd now = Inr fd' \<and> fd_latest_version_id fd' = l"
proof -
  let ?vals = "map snd (fd_versions fd)"
  have ok: "dict_ok (fd_versions fd)" using assms(1) by (simp add: fd_wf_def)
  have v: "(l, v) \<in> set (fd_versions fd)" using assms(2) by (rule map_of_SomeD)
  then have id: "fv_id v = l" using assms(1) by (auto simp: fd_wf_def)
  have "last (sort_key updated_at_timestamp ?vals) = v"
  proof (rule last_sort_key_max)
    show "v \<in> set ?vals" using v by force
    fix w assume "w \<in> set ?vals" and "w \<noteq> v"
    then obtain k where k: "(k, w) \<in> set (fd_versions fd)" by auto
    then have m: "map_of (fd_versions fd) k = Some w"
      using ok by (simp add: dict_ok_def)
    then have "k \<noteq> l" using \<open>w \<noteq> v\<close> assms(2) by auto
    with k assms(3) show "updated_at_timestamp w < updated_at_timestamp v"
      by (auto simp: strictly_newest_def)
  qed
  moreover have "length (sort_key updated_at_timestamp ?vals) \<noteq> 0"
    using v by (cases "fd_versions fd") auto
  ultimately have "sort_key updated_at_timestamp ?vals
      = butlast (sort_key updated_at_timestamp ?vals) @ [v]"
    by (metis append_butlast_last_id list.size(3))
  then obtain ys where "rev (sort_key updated_at_timestamp ?vals) = v # ys"
    by (metis rev.simps(2) rev_rev_ident)
  then show ?thesis by (simp add: fd_reload_eq [OF assms(1)] id)
qed

lemma reload_serves:
  assumes "fd_wf fd" and "map_of (fd_versions fd) l = Some v" and "l \<noteq> []"
    and "strictly_newest fd l v"
  shows "\<exists>fd'. fd_reload fd now = Inr fd' \<and> fd_latest_version_id fd' = l
    \<and> get_latest_version fd' uuid now' = Inr (fv_reread v)"
proof -
  obtain fd' where fd': "fd_reload fd now = Inr fd'" "fd_latest_version_id fd' = l"
    using reload_pointer [OF assms(1,2,4)] by blast
  let ?vs = "rev (sort_key updated_at_timestamp (map snd (fd_versions fd)))"
  have vs: "fd_versions fd' = map (\<lambda>v. (fv_id v, v)) (map fv_reread ?vs)"
    using fd'(1) unfolding fd_reload_eq [OF assms(1)] by auto
  have v: "(l, v) \<in> set (fd_versions fd)" using assms(2) by (rule map_of_SomeD)
  then have id: "fv_id v = l" using assms(1) by (auto simp: fd_wf_def)
  have "v \<in> set ?vs" using v by force
  then have "(l, fv_reread v) \<in> set (fd_versions fd')" unfolding vs by (force simp: id)
  moreover have "distinct (map fst (fd_versions fd'))"
    using distinct_ids_sorted [OF assms(1)] unfolding vs by (simp add: comp_def)
  ultimately have "map_of (fd_versions fd') l = Some (fv_reread v)" by simp
  with fd' assms(3) show ?thesis by (simp add: get_latest_version_def)
qed

text \<open>C27: a reader finds the content the writer served: when every other version is dated
  strictly earlier (in milliseconds, the precision of the serialised form), the descriptor
  read back points at the same version and serves it.\<close>

theorem reload_keeps_latest:
  assumes "fd_wf fd" and "map_of (fd_versions fd) (fd_latest_version_id fd) = Some v"
    and "fd_latest_version_id fd \<noteq> []"
    and "strictly_newest fd (fd_latest_version_id fd) v"
  shows "\<exists>fd'. fd_reload fd now = Inr fd' \<and> fd_latest_version_id fd' = fd_latest_version_id fd
    \<and> get_latest_version fd' uuid now' = Inr (fv_reread v)"
  using assms by (rule reload_serves)

definition example_desc :: file_desc where
  "example_desc = \<lparr>fd_name = ''a.txt'', fd_latest_version_id = ''v1'',
     fd_created_at = Naive 1600000000000000,
     fd_versions = [(''v0'', example_version\<lparr>fv_id := ''v0'', fv_updated_at := Naive 1600000000000000\<rparr>),
                    (''v1'', example_version)],
     fd_complete = True\<rparr>"

lemma example_version_redated:
  "0 < t div 1000 \<Longrightarrow> 0 \<le> t \<Longrightarrow> fv_wf (example_version\<lparr>fv_id := i, fv_updated_at := Naive t\<rparr>)"
  using example_version_wf by (simp add: fv_wf_def updated_at_timestamp_def ts_def)

lemma example_desc_wf: "fd_wf example_desc"
  by (simp add: fd_wf_def example_desc_def example_version_redated example_version_wf dict_ok_def
      validate_name_def) (simp add: example_version_def)

lemma example_desc_simps:
  "fd_latest_version_id example_desc = ''v1''"
  "map_of (fd_versions example_desc) ''v1'' = Some example_version"
  by (simp_all add: example_desc_def)

lemma example_desc_newest: "strictly_newest example_desc ''v1'' example_version"
  by (simp add: strictly_newest_def example_desc_def updated_at_timestamp_def ts_def)
    (simp add: example_version_def)

theorem reload_keeps_latest_witness:
  "\<exists>fd'. fd_reload example_desc (Naive 0) = Inr fd' \<and> fd_latest_version_id fd' = ''v1''
     \<and> get_latest_version fd' [] (Naive 0) = Inr (fv_reread example_version)"
  using reload_keeps_latest [OF example_desc_wf, of example_version "Naive 0" "[]" "Naive 0"]
  by (simp add: example_desc_simps example_desc_newest)

text \<open>
  In memory the pointer names a version none is dated after. Dates compare only among naive
  ones or among aware ones; what the program makes and what it reads with a date is naive.
\<close>

definition pointer_ok :: "file_desc \<Rightarrow> bool" where
  "pointer_ok fd \<longleftrightarrow> (if fd_versions fd = [] then fd_latest_version_id fd = INVALID_VERSION_ID
     else (case map_of (fd_versions fd) (fd_latest_version_id fd) of
             None \<Rightarrow> False
           | Some l \<Rightarrow> \<forall>(k, v) \<in> set (fd_versions fd).
               dt_us (fv_updated_at v) \<le> dt_us (fv_updated_at l)))"

definition all_naive :: "file_desc \<Rightarrow> bool" where
  "all_naive fd \<longleftrightarrow> is_naive (fd_created_at fd)
     \<and> (\<forall>(k, v) \<in> set (fd_versions fd). is_naive (fv_updated_at v) \<and> k \<noteq> INVALID_VERSION_ID)"

lemma pointer_okI:
  assumes "map_of (fd_versions fd) (fd_latest_version_id fd) = Some l"
    and "\<And>k v. (k, v) \<in> set (fd_versions fd) \<Longrightarrow> dt_us (fv_updated_at v) \<le> dt_us (fv_updated_at l)"
  shows "pointer_ok fd"
  using assms by (auto simp: pointer_ok_def)

section \<open>Dating the latest version\<close>

lemma fd_wf_redate:
  assumes "fd_wf fd" and "map_of (fd_versions fd) l = Some v" and "0 < ts t"
  shows "fd_wf (fd\<lparr>fd_versions := AList.update l (v\<lparr>fv_updated_at := t\<rparr>) (fd_versions fd)\<rparr>)"
proof -
  let ?v = "v\<lparr>fv_updated_at := t\<rparr>"
  have "(l, v) \<in> set (fd_versions fd)" using assms(2) by (rule map_of_SomeD)
  then have v: "fv_id v = l" "fv_wf v" using assms(1) by (auto simp: fd_wf_def)
  then have v': "fv_id ?v = l" "fv_wf ?v"
    using assms(3) by (simp_all add: fv_wf_def updated_at_timestamp_def)
  have ok: "dict_ok (fd_versions fd)" using assms(1) by (simp add: fd_wf_def)
  then have ok': "dict_ok (AList.update l ?v (fd_versions fd))"
    by (simp add: dict_ok_def distinct_update)
  have "fv_id w = k \<and> fv_wf w" if "(k, w) \<in> set (AList.update l ?v (fd_versions fd))" for k w
  proof -
    have "map_of (AList.update l ?v (fd_versions fd)) k = Some w"
      using ok' that by (simp add: dict_ok_def)
    then have "(k = l \<and> w = ?v) \<or> map_of (fd_versions fd) k = Some w"
      by (auto simp: update_conv' split: if_splits)
    then show ?thesis using v' assms(1) by (auto simp: fd_wf_def dest: map_of_SomeD)
  qed
  with ok' assms(1) show ?thesis by (auto simp: fd_wf_def)
qed

lemma set_last_modified_cases:
  assumes "set_last_modified t fd = Inr fd'"
  obtains v where "fd_latest_version_id fd \<noteq> []"
    "map_of (fd_versions fd) (fd_latest_version_id fd) = Some v"
    "\<And>k w. (k, w) \<in> set (fd_versions fd) \<Longrightarrow> k \<noteq> fd_latest_version_id fd
       \<Longrightarrow> updated_at_timestamp w < ts t"
    "fd' = fd\<lparr>fd_versions := AList.update (fd_latest_version_id fd) (v\<lparr>fv_updated_at := t\<rparr>)
                 (fd_versions fd),
              fd_created_at := (if ts t < ts (fd_created_at fd) then t else fd_created_at fd)\<rparr>"
proof -
  let ?l = "fd_latest_version_id fd"
  let ?others = "map (\<lambda>(k, v). updated_at_timestamp v)
                  (filter (\<lambda>(k, v). k \<noteq> ?l) (fd_versions fd))"
  from assms obtain v where v: "?l \<noteq> []" "map_of (fd_versions fd) ?l = Some v"
    "\<not> (?others \<noteq> [] \<and> ts t \<le> Max (set ?others))"
    "fd' = fd\<lparr>fd_versions := AList.update ?l (v\<lparr>fv_updated_at := t\<rparr>) (fd_versions fd),
              fd_created_at := (if ts t < ts (fd_created_at fd) then t else fd_created_at fd)\<rparr>"
    by (auto simp: set_last_modified_def Let_def INVALID_VERSION_ID_def
        split: if_splits option.splits)
  have "updated_at_timestamp w < ts t" if kw: "(k, w) \<in> set (fd_versions fd)" "k \<noteq> ?l" for k w
  proof -
    have "updated_at_timestamp w \<in> set ?others" using kw by force
    moreover from this have "?others \<noteq> []" by (metis empty_iff list.set(1))
    ultimately have "updated_at_timestamp w \<le> Max (set ?others)" "?others \<noteq> []"
      by (simp_all only: Max_ge List.finite_set not_False_eq_True)
    with v(3) show ?thesis by linarith
  qed
  with v that show thesis by blast
qed

text \<open>Dating a file never changes which content it serves. When \<open>set_last_modified\<close>
  accepts a date, the latest version carries it, no other version is touched, and the
  descriptor that is written and read back still serves that version.\<close>

lemma set_last_modified_safe:
  assumes "fd_wf fd" and "set_last_modified t fd = Inr fd'" and "0 < ts t"
  shows "fd_latest_version_id fd' = fd_latest_version_id fd
    \<and> (\<forall>k. k \<noteq> fd_latest_version_id fd \<longrightarrow> map_of (fd_versions fd') k = map_of (fd_versions fd) k)
    \<and> (\<exists>v fd''. map_of (fd_versions fd) (fd_latest_version_id fd) = Some v
        \<and> fd_reload fd' now = Inr fd''
        \<and> get_latest_version fd'' uuid now = Inr (fv_reread (v\<lparr>fv_updated_at := t\<rparr>)))"
  using assms(2)
proof (rule set_last_modified_cases)
  let ?l = "fd_latest_version_id fd"
  fix v
  assume l: "?l \<noteq> []" and v: "map_of (fd_versions fd) ?l = Some v"
    and newer: "\<And>k w. (k, w) \<in> set (fd_versions fd) \<Longrightarrow> k \<noteq> ?l
       \<Longrightarrow> updated_at_timestamp w < ts t"
    and fd': "fd' = fd\<lparr>fd_versions := AList.update ?l (v\<lparr>fv_updated_at := t\<rparr>) (fd_versions fd),
              fd_created_at := (if ts t < ts (fd_created_at fd) then t else fd_created_at fd)\<rparr>"
  let ?v = "v\<lparr>fv_updated_at := t\<rparr>"
  have wf: "fd_wf fd'"
    using fd_wf_redate [OF assms(1) v assms(3)] by (simp add: fd' fd_wf_def)
  have m: "map_of (fd_versions fd') ?l = Some ?v" by (simp add: fd' update_conv')
  have "updated_at_timestamp w < updated_at_timestamp ?v"
    if "(k, w) \<in> set (fd_versions fd')" "k \<noteq> ?l" for k w
  proof -
    have "map_of (fd_versions fd') k = Some w"
      using wf that(1) by (simp add: fd_wf_def dict_ok_def)
    then have "(k, w) \<in> set (fd_versions fd)"
      using that(2) by (auto simp: fd' update_conv' dest: map_of_SomeD)
    then show ?thesis using newer that(2) by (simp add: updated_at_timestamp_def)
  qed
  then have "strictly_newest fd' ?l ?v" by (auto simp: strictly_newest_def)
  from reload_serves [OF wf m l this, of now uuid now] v show ?thesis
    by (auto simp: fd' update_conv')
qed

section \<open>Adding and removing versions\<close>

lemma enumerate_snd_set: "snd ` set (enumerate n xs) = set xs"
  by (metis list.set_map map_snd_enumerate)

lemma py_max_index:
  assumes "\<forall>y \<in> insert x (set xs). P (snd y)" and "f = (\<lambda>(i, k, v). (g v, i))"
  shows "P (snd (py_max_from f x xs))
    \<and> (\<forall>y \<in> insert x (set xs). g (snd (snd y)) \<le> g (snd (snd (py_max_from f x xs))))"
proof -
  let ?m = "py_max_from f x xs"
  have "?m \<in> insert x (set xs)" by (rule py_max_from_set)
  moreover have "f y \<le> f ?m" if "y \<in> insert x (set xs)" for y
    using that py_max_from_ge [of y xs f x] py_max_from_ge_start [of f x xs] by auto
  then have "g (snd (snd y)) \<le> g (snd (snd ?m))" if "y \<in> insert x (set xs)" for y
    using that unfolding assms(2) by (fastforce simp: less_eq_prod_def split: prod.splits)
  ultimately show ?thesis using assms(1) by blast
qed

text \<open>Adding a version under a new id keeps the pointer at a version none is dated after,
  and of two versions with the same date the one added later is the one served.\<close>

lemma add_version_pointer:
  assumes "pointer_ok fd" and "all_naive fd" and "dict_ok (fd_versions fd)"
    and "is_naive (fv_updated_at v)" and "fv_id v \<noteq> INVALID_VERSION_ID"
    and "\<not> dict_has (fd_versions fd) (fv_id v)"
  shows "\<exists>fd'. add_version v fd = Inr fd' \<and> pointer_ok fd' \<and> all_naive fd'
    \<and> fd_versions fd' = fd_versions fd @ [(fv_id v, v)]
    \<and> (fd_latest_version_id fd' = fv_id v
       \<or> (\<exists>l. map_of (fd_versions fd) (fd_latest_version_id fd) = Some l
            \<and> dt_us (fv_updated_at v) < dt_us (fv_updated_at l)))"
proof -
  have new: "fv_id v \<notin> fst ` set (fd_versions fd)" using assms(6) by (simp add: dict_has_def)
  then have upd: "AList.update (fv_id v) v (fd_versions fd) = fd_versions fd @ [(fv_id v, v)]"
    by (rule update_new)
  show ?thesis
  proof (cases "fd_versions fd = []")
    case True
    with assms upd show ?thesis
      by (auto simp: add_version_def pointer_ok_def all_naive_def Let_def dt_lt_def)
  next
    case False
    with assms(1) obtain l where
      l: "map_of (fd_versions fd) (fd_latest_version_id fd) = Some l"
      "\<And>k w. (k, w) \<in> set (fd_versions fd) \<Longrightarrow> dt_us (fv_updated_at w) \<le> dt_us (fv_updated_at l)"
      by (auto simp: pointer_ok_def split: option.splits)
    then have mem: "(fd_latest_version_id fd, l) \<in> set (fd_versions fd)" by (auto dest: map_of_SomeD)
    with assms(2) have ln: "is_naive (fv_updated_at l)" "fd_latest_version_id fd \<noteq> INVALID_VERSION_ID"
      by (auto simp: all_naive_def)
    have l': "map_of (fd_versions fd @ [(fv_id v, v)]) (fd_latest_version_id fd) = Some l"
      using l(1) by simp
    have v': "map_of (fd_versions fd @ [(fv_id v, v)]) (fv_id v) = Some v"
      using new map_of_eq_None_iff [of "fd_versions fd" "fv_id v"] by (simp add: map_add_def)
    show ?thesis
    proof (cases "dt_us (fv_updated_at l) \<le> dt_us (fv_updated_at v)")
      case le: True
      then show ?thesis
        using assms(2,4,5) ln l l' v'
        by (auto simp: add_version_def upd pointer_ok_def all_naive_def Let_def dt_lt_def dt_ge_def
            dest!: l(2))
    next
      case gt: False
      then show ?thesis
        using assms(2,4,5) ln l l' v'
        by (auto simp: add_version_def upd pointer_ok_def all_naive_def Let_def dt_lt_def dt_ge_def
            dest!: l(2))
    qed
  qed
qed

text \<open>Deleting a version keeps the invariant too: an unknown id is a \<open>ValueError\<close>; when
  the latest version goes, the pointer moves to the newest one left, and the file that loses
  its last version has none.\<close>

lemma delete_version_pointer:
  assumes "pointer_ok fd" and "all_naive fd" and "dict_ok (fd_versions fd)"
  shows "(if dict_has (fd_versions fd) vid
     then \<exists>fd'. delete_version vid fd = Inr fd' \<and> pointer_ok fd' \<and> all_naive fd'
            \<and> fd_versions fd' = AList.delete vid (fd_versions fd)
     else delete_version vid fd = Inl ValueError)"
proof (cases "dict_has (fd_versions fd) vid")
  case has: True
  let ?rest = "AList.delete vid (fd_versions fd)"
  have sub: "set ?rest \<subseteq> set (fd_versions fd)" by (auto simp: AList.delete_eq)
  have ok: "dict_ok ?rest" using assms(3) by simp
  have naive: "is_naive (fv_updated_at w)" "k \<noteq> INVALID_VERSION_ID" if "(k, w) \<in> set ?rest" for k w
    using that sub assms(2) by (auto simp: all_naive_def)
  then have rest_naive: "all_naive (fd\<lparr>fd_versions := ?rest\<rparr>)"
    using assms(2) by (auto simp: all_naive_def)
  show ?thesis
  proof (cases "vid = fd_latest_version_id fd")
    case latest: True
    show ?thesis
    proof (cases ?rest)
      case Nil
      then show ?thesis
        using has latest assms(2)
        by (auto simp: delete_version_def pointer_ok_def all_naive_def INVALID_VERSION_ID_def)
    next
      case (Cons p ps)
      let ?f = "\<lambda>(i, k, v). (dt_us (fv_updated_at v), i)"
      let ?m = "py_max_from ?f (0, p) (enumerate (Suc 0) ps)"
      have all: "\<forall>y \<in> insert (0, p) (set (enumerate (Suc 0) ps)). snd y \<in> set ?rest"
        using enumerate_snd_set [of 0 ?rest] unfolding Cons by auto
      have m: "snd ?m \<in> set ?rest"
        "\<forall>y \<in> insert (0, p) (set (enumerate (Suc 0) ps)).
           dt_us (fv_updated_at (snd (snd y))) \<le> dt_us (fv_updated_at (snd (snd ?m)))"
        using py_max_index [OF all, of ?f "\<lambda>v. dt_us (fv_updated_at v)"] by blast+
      have max: "dt_us (fv_updated_at w) \<le> dt_us (fv_updated_at (snd (snd ?m)))"
        if "(k, w) \<in> set ?rest" for k w
      proof -
        have "(k, w) \<in> snd ` set (enumerate 0 ?rest)" using that enumerate_snd_set by metis
        then obtain y where "y \<in> set (enumerate 0 ?rest)" "snd y = (k, w)" by auto
        then have "y \<in> insert (0, p) (set (enumerate (Suc 0) ps))" "snd (snd y) = w"
          unfolding Cons by simp_all
        then show ?thesis using m(2) by blast
      qed
      have same: "\<not> (\<exists>y \<in> set (enumerate (Suc 0) ps). is_naive (fv_updated_at (snd (snd y)))
                                  \<noteq> is_naive (fv_updated_at (snd (snd (0::nat, p)))))"
        using all naive by (metis insertI1 insertI2 prod.collapse)
      have mo: "map_of ?rest (fst (snd ?m)) = Some (snd (snd ?m))"
        using m(1) ok by (simp add: dict_ok_def)
      have "delete_version vid fd
          = Inr (fd\<lparr>fd_versions := ?rest, fd_latest_version_id := fst (snd ?m)\<rparr>)"
        using has latest same Cons by (simp add: delete_version_def Let_def)
      moreover have "pointer_ok (fd\<lparr>fd_versions := ?rest, fd_latest_version_id := fst (snd ?m)\<rparr>)"
        by (rule pointer_okI) (use mo max in auto)
      ultimately show ?thesis using has rest_naive by (auto simp: all_naive_def)
    qed
  next
    case other: False
    from assms(1) has obtain l where
      l: "map_of (fd_versions fd) (fd_latest_version_id fd) = Some l"
      "\<forall>(k, w) \<in> set (fd_versions fd). dt_us (fv_updated_at w) \<le> dt_us (fv_updated_at l)"
      by (auto simp: pointer_ok_def dict_has_def split: option.splits if_splits)
    have l': "map_of ?rest (fd_latest_version_id fd) = Some l"
      using l(1) other by (simp add: delete_conv')
    have "pointer_ok (fd\<lparr>fd_versions := ?rest\<rparr>)"
      by (rule pointer_okI) (use l' l(2) sub in auto)
    with has other rest_naive show ?thesis by (auto simp: delete_version_def)
  qed
qed (simp add: delete_version_def)

text \<open>Two versions with the same serialised date. The writer's order survives one write
  and read, because the later one is written first and the first maximum wins; but it is not
  stable: the descriptor that was read has them in the other order, and writing and reading
  it again makes the older version the latest.\<close>

lemma tied_versions_flip:
  assumes "fd_wf fd" and "fd_versions fd = [(a, va), (b, vb)]"
    and "updated_at_timestamp va = updated_at_timestamp vb"
  shows "\<exists>fd1 fd2. fd_reload fd now = Inr fd1 \<and> fd_latest_version_id fd1 = b
    \<and> fd_reload fd1 now = Inr fd2 \<and> fd_latest_version_id fd2 = a"
proof -
  have ids: "fv_id va = a" "fv_id vb = b" "a \<noteq> b" "fv_wf va" "fv_wf vb"
    using assms(1,2) by (auto simp: fd_wf_def dict_ok_def)
  have reread: "fv_wf v \<Longrightarrow> fv_wf (fv_reread v)" for v
    using fv_reread_simps(2) [of v] by (simp add: fv_wf_def) (simp add: fv_reread_def)
  let ?fd1 = "\<lparr>fd_name = fd_name fd, fd_latest_version_id = b, fd_created_at = now,
     fd_versions = [(b, fv_reread vb), (a, fv_reread va)], fd_complete = True\<rparr>"
  have r1: "fd_reload fd now = Inr ?fd1"
    using assms ids by (simp add: fd_reload_eq)
  have wf1: "fd_wf ?fd1"
    using assms(1) ids reread by (auto simp: fd_wf_def dict_ok_def)
  have "\<exists>fd2. fd_reload ?fd1 now = Inr fd2 \<and> fd_latest_version_id fd2 = a"
    using assms ids by (simp add: fd_reload_eq [OF wf1])
  with r1 show ?thesis by auto
qed

text \<open>A version that was written without a date is read as the epoch, an aware date. It
  cannot be compared with the naive date of a new version: adding one raises \<open>TypeError\<close>.\<close>

lemma undated_version_blocks_add:
  assumes "map_of (fd_versions fd) (fd_latest_version_id fd) = Some l"
    and "fv_updated_at l = FIRST_DAY_OF_EPOCH" and "fd_latest_version_id fd \<noteq> INVALID_VERSION_ID"
    and "fv_id v \<noteq> fd_latest_version_id fd" and "is_naive (fv_updated_at v)"
  shows "add_version v fd = Inl TypeError"
  using assms by (simp add: add_version_def update_conv' dt_ge_def FIRST_DAY_OF_EPOCH_def)

end
