(* ===== verification/Streams.thy ===== *)
theory Streams
  imports Errors "HOL-Library.Sublist"
begin

text \<open>
  Byte streams. An asynchronous iterator of chunks is what its consumer sees of it: the
  chunks it yields, in order, and how it ends, \<open>None\<close> when it is exhausted and the exception
  otherwise. \<open>serves s want\<close> is the contract of every range reader of the program: a stream
  that ends normally has delivered exactly the wanted bytes, and one that fails has delivered
  a proper prefix of them. The theory has the lemmas that failing over and chaining keep it.
\<close>

type_synonym stream = "bytes list \<times> exn option"

definition stream_bytes :: "stream \<Rightarrow> bytes" where
  "stream_bytes s = concat (fst s)"

definition serves :: "stream \<Rightarrow> bytes \<Rightarrow> bool" where
  "serves s want \<longleftrightarrow> (case snd s of
     None \<Rightarrow> stream_bytes s = want | Some _ \<Rightarrow> strict_prefix (stream_bytes s) want)"

text \<open>An \<open>await\<close> that raises before the first chunk.\<close>

definition raising :: "exn \<Rightarrow> stream" where
  "raising e = ([], Some e)"

fun of_res :: "stream res \<Rightarrow> stream" where
  "of_res (Inr s) = s"
| "of_res (Inl e) = raising e"

text \<open>The concatenation of streams: the first failure ends it.\<close>

fun chain :: "stream list \<Rightarrow> stream" where
  "chain [] = ([], None)"
| "chain (s # ss) = (case snd s of
     None \<Rightarrow> (fst s @ fst (chain ss), snd (chain ss)) | Some e \<Rightarrow> s)"

text \<open>The chunks of \<open>s\<close> followed by those of \<open>t\<close>, which takes over after a failure.\<close>

definition take_over :: "stream \<Rightarrow> stream \<Rightarrow> stream" where
  "take_over s t = (fst s @ fst t, snd t)"

lemma serves_None [simp]: "serves (cs, None) want \<longleftrightarrow> concat cs = want"
  by (simp add: serves_def stream_bytes_def)

lemma serves_Some [simp]: "serves (cs, Some e) want \<longleftrightarrow> strict_prefix (concat cs) want"
  by (simp add: serves_def stream_bytes_def)

lemma serves_raising [simp]: "serves (raising e) want \<longleftrightarrow> want \<noteq> []"
  by (auto simp: raising_def strict_prefix_def)

lemma serves_prefix: "serves s want \<Longrightarrow> prefix (stream_bytes s) want"
  by (cases s) (auto simp: serves_def split: option.splits)

lemma serves_length: "serves s want \<Longrightarrow> length (stream_bytes s) \<le> length want"
  using serves_prefix prefix_length_le by blast

lemma serves_failed_short: "serves s want \<Longrightarrow> snd s = Some e \<Longrightarrow> length (stream_bytes s) < length want"
  by (auto simp: serves_def intro: prefix_length_less)

lemma stream_bytes_chain:
  "stream_bytes (chain (s # ss)) = stream_bytes s @ (if snd s = None then stream_bytes (chain ss) else [])"
  by (cases s) (auto simp: stream_bytes_def split: option.splits)

lemma serves_chain:
  assumes "list_all2 serves ss wants"
  shows "serves (chain ss) (concat wants)"
  using assms
proof (induction ss wants rule: list_all2_induct)
  case (Cons s ss w wants)
  show ?case
  proof (cases "snd s")
    case None
    with Cons obtain cs where s: "s = (cs, None)" "concat cs = w" by (cases s) auto
    with Cons.IH show ?thesis
      by (cases "snd (chain ss)") (auto simp: serves_def stream_bytes_def strict_prefix_def)
  next
    case (Some e)
    with Cons obtain cs where s: "s = (cs, Some e)" "strict_prefix (concat cs) w" by (cases s) auto
    then show ?thesis by (auto simp: strict_prefix_def prefix_def)
  qed
qed simp

lemma chain_ends: "(\<And>s. s \<in> set ss \<Longrightarrow> snd s = None) \<Longrightarrow> snd (chain ss) = None"
  by (induction ss) auto

text \<open>
  After a failed stream the reader goes on at the byte where it stopped: the two together
  serve the range.
\<close>

lemma serves_take_over:
  assumes "serves s want" and "serves t (drop (length (stream_bytes s)) want)"
  shows "serves (take_over s t) want"
proof -
  obtain rest where want: "want = stream_bytes s @ rest"
    using serves_prefix [OF assms(1)] by (auto simp: prefix_def)
  with assms(2) show ?thesis
    by (cases t) (auto simp: take_over_def serves_def stream_bytes_def strict_prefix_def
        split: option.splits)
qed

end
