(* ===== verification/PrefetchingChain.thy ===== *)
theory PrefetchingChain
  imports Streams
begin

text \<open>
  \<open>prefetching_chain\<close> (\<open>src/tgdcfs/utils/prefetching_chain.py\<close>) as a transition system: one
  pump per started source moves chunks and the end marker into a bounded queue, the consumer
  keeps a window of sources started and takes items from the queue of the current source.
  Whatever the interleaving, the output is the plain concatenation of the sources, no run
  gets stuck and every run ends.
\<close>

datatype chain_item = Chunk bytes | End "exn option"

definition items :: "stream \<Rightarrow> chain_item list" where
  "items s = map Chunk (fst s) @ [End (snd s)]"

record chain_state =
  pc_current :: nat
  pc_started :: nat
  pc_queue :: "nat \<Rightarrow> chain_item list"
  pc_todo :: "nat \<Rightarrow> chain_item list"
  pc_out :: "bytes list"
  pc_done :: "exn option option"

definition chain_init :: "stream list \<Rightarrow> chain_state" where
  "chain_init ss = \<lparr>pc_current = 0, pc_started = 0, pc_queue = (\<lambda>_. []),
     pc_todo = (\<lambda>i. if i < length ss then items (ss ! i) else []), pc_out = [], pc_done = None\<rparr>"

text \<open>
  \<open>start\<close> is one round of \<open>start_window\<close>, \<open>pump\<close> one \<open>queue.put\<close> of a source's task; the
  consumer's \<open>queue.get\<close> is \<open>yield\<close> for a chunk, \<open>advance\<close> or \<open>fail\<close> for the end marker, and
  \<open>finish\<close> leaves the loop.
\<close>

inductive chain_step :: "nat \<Rightarrow> nat \<Rightarrow> nat \<Rightarrow> chain_state \<Rightarrow> chain_state \<Rightarrow> bool"
  for n conc depth where
  start: "pc_done s = None \<Longrightarrow> pc_current s < n \<Longrightarrow>
    pc_started s < min n (pc_current s + max 1 conc) \<Longrightarrow>
    chain_step n conc depth s (s\<lparr>pc_started := Suc (pc_started s)\<rparr>)"
| pump: "pc_done s = None \<Longrightarrow> pc_current s \<le> i \<Longrightarrow> i < pc_started s \<Longrightarrow>
    length (pc_queue s i) < max 1 depth \<Longrightarrow> pc_todo s i = x # xs \<Longrightarrow>
    chain_step n conc depth s
      (s\<lparr>pc_queue := (pc_queue s)(i := pc_queue s i @ [x]), pc_todo := (pc_todo s)(i := xs)\<rparr>)"
| emit: "pc_done s = None \<Longrightarrow> pc_current s < pc_started s \<Longrightarrow>
    pc_queue s (pc_current s) = Chunk c # q \<Longrightarrow>
    chain_step n conc depth s
      (s\<lparr>pc_queue := (pc_queue s)(pc_current s := q), pc_out := pc_out s @ [c]\<rparr>)"
| advance: "pc_done s = None \<Longrightarrow> pc_current s < pc_started s \<Longrightarrow>
    pc_queue s (pc_current s) = End None # q \<Longrightarrow>
    chain_step n conc depth s
      (s\<lparr>pc_queue := (pc_queue s)(pc_current s := []), pc_current := Suc (pc_current s)\<rparr>)"
| fail: "pc_done s = None \<Longrightarrow> pc_current s < pc_started s \<Longrightarrow>
    pc_queue s (pc_current s) = End (Some e) # q \<Longrightarrow>
    chain_step n conc depth s (s\<lparr>pc_done := Some (Some e)\<rparr>)"
| finish: "pc_done s = None \<Longrightarrow> n \<le> pc_current s \<Longrightarrow>
    chain_step n conc depth s (s\<lparr>pc_done := Some None\<rparr>)"

inductive chain_reach :: "stream list \<Rightarrow> nat \<Rightarrow> nat \<Rightarrow> chain_state \<Rightarrow> bool"
  for ss conc depth where
  reach_init: "chain_reach ss conc depth (chain_init ss)"
| reach_step: "chain_reach ss conc depth s \<Longrightarrow> chain_step (length ss) conc depth s t
    \<Longrightarrow> chain_reach ss conc depth t"

section \<open>The invariant\<close>

text \<open>
  The sources before the current one ended normally and were handed out; of the current one
  the chunks \<open>eaten\<close> were, and what is queued and what is still to pump are the rest.
\<close>

definition chain_inv :: "stream list \<Rightarrow> nat \<Rightarrow> nat \<Rightarrow> chain_state \<Rightarrow> bool" where
  "chain_inv ss conc depth s \<longleftrightarrow>
     pc_current s \<le> length ss \<and> pc_started s \<le> length ss
     \<and> pc_started s \<le> pc_current s + max 1 conc
     \<and> (\<forall>j < pc_current s. snd (ss ! j) = None)
     \<and> (\<forall>i. length (pc_queue s i) \<le> max 1 depth)
     \<and> (\<forall>i. pc_current s \<le> i \<and> pc_started s \<le> i \<longrightarrow> pc_queue s i = [])
     \<and> (\<forall>i. i < pc_current s \<longrightarrow> pc_queue s i = [])
     \<and> (\<forall>i < length ss. pc_current s < i \<longrightarrow> pc_queue s i @ pc_todo s i = items (ss ! i))
     \<and> (\<exists>eaten. pc_out s = concat (map fst (take (pc_current s) ss)) @ eaten
          \<and> (if pc_current s < length ss
             then map Chunk eaten @ pc_queue s (pc_current s) @ pc_todo s (pc_current s)
                    = items (ss ! pc_current s)
             else eaten = []))"

lemma items_eaten_Cons:
  assumes "map Chunk eaten @ End r # q = items s"
  shows "eaten = fst s \<and> r = snd s \<and> q = []"
  using assms unfolding items_def
proof (induction eaten arbitrary: s)
  case Nil
  then show ?case by (cases "fst s") auto
next
  case (Cons c cs)
  then obtain d ds where ds: "fst s = d # ds" by (cases "fst s") auto
  with Cons.prems have "map Chunk cs @ End r # q = map Chunk (fst (ds, snd s)) @ [End (snd (ds, snd s))]"
    "c = d" by auto
  with Cons.IH [of "(ds, snd s)"] ds show ?case by simp
qed

lemma chain_inv_init: "chain_inv ss conc depth (chain_init ss)"
  by (simp add: chain_inv_def chain_init_def)

lemma chain_inv_step:
  assumes "chain_step (length ss) conc depth s t" and "chain_inv ss conc depth s"
  shows "chain_inv ss conc depth t"
  using assms
proof (induction rule: chain_step.induct)
  case (start s)
  then show ?case by (fastforce simp: chain_inv_def)
next
  case (pump s i x xs)
  then have "pc_current s \<noteq> i \<longrightarrow> pc_queue s i @ x # xs = items (ss ! i)"
    unfolding chain_inv_def by (metis le_neq_implies_less order.strict_trans2)
  with pump show ?case by (auto simp: chain_inv_def)
next
  case (emit s c q)
  then obtain eaten where out: "pc_out s = concat (map fst (take (pc_current s) ss)) @ eaten"
    and eq: "map Chunk eaten @ pc_queue s (pc_current s) @ pc_todo s (pc_current s)
               = items (ss ! pc_current s)"
    by (auto simp: chain_inv_def)
  have "pc_out s @ [c] = concat (map fst (take (pc_current s) ss)) @ (eaten @ [c])"
    by (simp add: out)
  moreover have "map Chunk (eaten @ [c]) @ q @ pc_todo s (pc_current s) = items (ss ! pc_current s)"
    using eq emit by simp
  moreover have "length q \<le> max 1 depth"
    using emit unfolding chain_inv_def by (metis Suc_leD length_Cons)
  ultimately show ?case using emit unfolding chain_inv_def by (auto intro!: exI)
next
  case (advance s q)
  let ?c = "pc_current s"
  from advance obtain eaten where c: "?c < length ss"
    and out: "pc_out s = concat (map fst (take ?c ss)) @ eaten"
    and eq: "map Chunk eaten @ End None # (q @ pc_todo s ?c) = items (ss ! ?c)"
    by (auto simp: chain_inv_def)
  from items_eaten_Cons [OF eq] have e: "eaten = fst (ss ! ?c)" "snd (ss ! ?c) = None" by auto
  have out': "pc_out s = concat (map fst (take (Suc ?c) ss))"
    using c by (simp add: out e take_Suc_conv_app_nth)
  have "\<forall>j < Suc ?c. snd (ss ! j) = None"
    using advance e by (auto simp: chain_inv_def less_Suc_eq)
  moreover have "pc_queue s (Suc ?c) @ pc_todo s (Suc ?c) = items (ss ! Suc ?c)" if "Suc ?c < length ss"
    using advance that by (auto simp: chain_inv_def)
  ultimately show ?case
    using advance c out' by (auto simp: chain_inv_def less_Suc_eq)
qed (auto simp: chain_inv_def)

lemma chain_reach_inv: "chain_reach ss conc depth s \<Longrightarrow> chain_inv ss conc depth s"
  by (induction rule: chain_reach.induct) (auto intro: chain_inv_init chain_inv_step)

section \<open>Output, bounds and progress\<close>

lemma chain_split:
  assumes "k < length ss" and "\<forall>j < k. snd (ss ! j) = None"
  shows "chain ss = (concat (map fst (take k ss)) @ fst (chain (drop k ss)), snd (chain (drop k ss)))"
  using assms
proof (induction k arbitrary: ss)
  case (Suc k)
  then obtain s ss' where ss: "ss = s # ss'" by (cases ss) auto
  with Suc have "snd s = None" "chain ss' =
      (concat (map fst (take k ss')) @ fst (chain (drop k ss')), snd (chain (drop k ss')))"
    by (force intro!: Suc.IH)+
  then show ?case by (simp add: ss)
qed simp

lemma chain_all_normal:
  "\<forall>j < length ss. snd (ss ! j) = None \<Longrightarrow> chain ss = (concat (map fst ss), None)"
  by (induction ss) (auto simp: All_less_Suc2)

lemma chain_done:
  assumes "chain_step (length ss) conc depth s t" and "chain_inv ss conc depth s"
    and "pc_done t = Some r"
  shows "(pc_out t, r) = chain ss"
  using assms
proof (induction rule: chain_step.induct)
  case (fail s e q)
  let ?c = "pc_current s"
  from fail obtain eaten where c: "?c < length ss" "\<forall>j < ?c. snd (ss ! j) = None"
    and out: "pc_out s = concat (map fst (take ?c ss)) @ eaten"
    and eq: "map Chunk eaten @ End (Some e) # (q @ pc_todo s ?c) = items (ss ! ?c)"
    by (auto simp: chain_inv_def)
  from items_eaten_Cons [OF eq] have "eaten = fst (ss ! ?c)" "snd (ss ! ?c) = Some e" by auto
  moreover have "drop ?c ss = ss ! ?c # drop (Suc ?c) ss"
    using c by (simp add: Cons_nth_drop_Suc)
  ultimately show ?case
    using chain_split [OF c] fail(5) by (simp add: out)
next
  case (finish s)
  then have "pc_current s = length ss" "pc_out s = concat (map fst ss)"
    "\<forall>j < length ss. snd (ss ! j) = None"
    by (auto simp: chain_inv_def)
  with finish show ?case by (simp add: chain_all_normal)
qed simp_all

lemma chain_reach_done:
  "chain_reach ss conc depth s \<Longrightarrow> pc_done s = Some r \<Longrightarrow> (pc_out s, r) = chain ss"
proof (induction rule: chain_reach.induct)
  case (reach_step s t)
  then show ?case using chain_done chain_reach_inv by blast
qed (simp add: chain_init_def)

lemma chain_progress:
  assumes "chain_inv ss conc depth s" and "pc_done s = None"
  shows "\<exists>t. chain_step (length ss) conc depth s t"
proof (cases "pc_current s < length ss")
  case cur: True
  let ?c = "pc_current s"
  show ?thesis
  proof (cases "?c < pc_started s")
    case started: True
    show ?thesis
    proof (cases "pc_queue s ?c")
      case Nil
      from assms(1) cur obtain eaten where
        "map Chunk eaten @ pc_queue s ?c @ pc_todo s ?c = items (ss ! ?c)"
        by (auto simp: chain_inv_def)
      then have "pc_todo s ?c \<noteq> []"
        using Nil by (auto simp: items_def) (metis last_map last_snoc chain_item.distinct(1)
            map_is_Nil_conv snoc_eq_iff_butlast)
      then obtain x xs where "pc_todo s ?c = x # xs" by (cases "pc_todo s ?c") auto
      then show ?thesis
        by (intro exI) (rule chain_step.pump,
            use assms(2) started Nil in \<open>simp_all add: less_max_iff_disj\<close>)
    next
      case (Cons x q)
      show ?thesis
      proof (cases x)
        case (Chunk b)
        then show ?thesis using chain_step.emit [of s b q] assms(2) started Cons by blast
      next
        case (End r)
        then show ?thesis
          using chain_step.advance [of s q] chain_step.fail [of s _ q] assms(2) started Cons
          by (cases r) blast+
      qed
    qed
  next
    case False
    with cur assms(2) show ?thesis
      by (intro exI) (rule chain_step.start, simp_all)
  qed
next
  case False
  then show ?thesis using chain_step.finish [of s "length ss" conc depth] assms(2) by auto
qed

definition chain_work :: "nat \<Rightarrow> chain_state \<Rightarrow> nat" where
  "chain_work n s = (n - pc_started s) + (n - pc_current s)
     + (\<Sum>i<n. 2 * length (pc_todo s i) + length (pc_queue s i))
     + (if pc_done s = None then 1 else 0)"

lemma sum_fun_upd:
  assumes "i < (n :: nat)"
  shows "(\<Sum>j<n. f j ((g(i := x)) j)) + f i (g i) = (\<Sum>j<n. f j (g j)) + (f i x :: nat)"
proof -
  have "(\<Sum>j<n. f j ((g(i := x)) j)) = f i x + (\<Sum>j\<in>{..<n} - {i}. f j (g j))"
    using assms by (subst sum.remove [of _ i]) (auto intro!: sum.cong)
  moreover have "(\<Sum>j<n. f j (g j)) = f i (g i) + (\<Sum>j\<in>{..<n} - {i}. f j (g j))"
    using assms by (subst sum.remove [of _ i]) auto
  ultimately show ?thesis by simp
qed

lemma chain_step_work:
  assumes "chain_step (length ss) conc depth s t" and "chain_inv ss conc depth s"
  shows "chain_work (length ss) t < chain_work (length ss) s"
  using assms
proof (induction rule: chain_step.induct)
  case (pump s i x xs)
  then have "i < length ss" by (auto simp: chain_inv_def)
  with pump show ?case
    using sum_fun_upd [of i "length ss" "\<lambda>_ ys. 2 * length ys" "pc_todo s" xs]
      sum_fun_upd [of i "length ss" "\<lambda>_ ys. length ys" "pc_queue s" "pc_queue s i @ [x]"]
    by (simp add: chain_work_def sum.distrib)
next
  case (emit s c q)
  then have "pc_current s < length ss" by (auto simp: chain_inv_def)
  with emit show ?case
    using sum_fun_upd [of "pc_current s" "length ss" "\<lambda>_ ys. length ys" "pc_queue s" q]
    by (simp add: chain_work_def sum.distrib)
next
  case (advance s q)
  then have "pc_current s < length ss" by (auto simp: chain_inv_def)
  with advance show ?case
    using sum_fun_upd [of "pc_current s" "length ss" "\<lambda>_ ys. length ys" "pc_queue s" "[]"]
    by (simp add: chain_work_def sum.distrib)
qed (auto simp: chain_work_def)

lemma chain_completes:
  assumes "chain_reach ss conc depth s"
  shows "\<exists>t. chain_reach ss conc depth t \<and> pc_done t \<noteq> None"
  using assms
proof (induction "chain_work (length ss) s" arbitrary: s rule: less_induct)
  case less
  show ?case
  proof (cases "pc_done s = None")
    case True
    then obtain t where t: "chain_step (length ss) conc depth s t"
      using chain_progress chain_reach_inv less.prems by blast
    then show ?thesis
      using less chain_step_work chain_reach_inv chain_reach.reach_step by metis
  qed (use less in blast)
qed

text \<open>C31: the output of \<open>prefetching_chain\<close> is the concatenation of its sources in order,
  whatever the interleaving of the pumps and the consumer: a run that ends has yielded the
  chunks of the concatenation and ends the way it ends, with the error of the first failing
  source after every byte owed before it.\<close>

theorem prefetching_chain_is_concatenation:
  assumes "chain_reach ss conc depth s" and "pc_done s = Some r"
  shows "(pc_out s, r) = chain ss"
  using assms by (rule chain_reach_done)

theorem prefetching_chain_is_concatenation_witness:
  "\<exists>s r. chain_reach [([[1]], None), ([[2], [3]], Some TechnicalError)] 2 2 s
     \<and> pc_done s = Some r \<and> pc_out s = [[1], [2], [3]] \<and> r = Some TechnicalError"
proof -
  let ?ss = "[([[1]], None), ([[2], [3]], Some TechnicalError)] :: stream list"
  obtain s r where s: "chain_reach ?ss 2 2 s" "pc_done s = Some r"
    using chain_completes [OF chain_reach.reach_init [of ?ss 2 2]] by auto
  with prefetching_chain_is_concatenation [OF s] show ?thesis by auto
qed

text \<open>C32: no interleaving gets stuck and every run ends: a reachable state that is not done
  has a successor, and every step uses up work, so there is no infinite run.\<close>

theorem prefetching_chain_terminates:
  assumes "chain_reach ss conc depth s"
  shows "(pc_done s = None \<longrightarrow> (\<exists>t. chain_step (length ss) conc depth s t))
    \<and> (\<forall>t. chain_step (length ss) conc depth s t
          \<longrightarrow> chain_work (length ss) t < chain_work (length ss) s)"
  using chain_progress chain_step_work chain_reach_inv [OF assms] by blast

theorem prefetching_chain_terminates_witness:
  "\<exists>t. chain_step 1 4 2 (chain_init [([[1]], None)]) t"
  using prefetching_chain_terminates [OF chain_reach.reach_init [of "[([[1]], None)]" 4 2]]
  by (simp add: chain_init_def)

text \<open>Reading ahead is bounded: only sources of the window hold chunks, at most
  \<open>concurrency\<close> of them, and each at most \<open>queue_depth\<close>.\<close>

lemma prefetching_chain_bounded:
  assumes "chain_reach ss conc depth s"
  shows "{i. pc_queue s i \<noteq> []} \<subseteq> {pc_current s ..< pc_current s + max 1 conc}
    \<and> card {i. pc_queue s i \<noteq> []} \<le> max 1 conc \<and> length (pc_queue s i) \<le> max 1 depth"
proof -
  have inv: "chain_inv ss conc depth s" using assms by (rule chain_reach_inv)
  have sub: "{i. pc_queue s i \<noteq> []} \<subseteq> {pc_current s ..< pc_current s + max 1 conc}"
  proof
    fix i assume "i \<in> {i. pc_queue s i \<noteq> []}"
    then have "\<not> i < pc_current s" "\<not> pc_started s \<le> i"
      using inv unfolding chain_inv_def by (auto simp: not_less) (metis not_less)
    moreover have "pc_started s \<le> pc_current s + max 1 conc" using inv by (simp add: chain_inv_def)
    ultimately show "i \<in> {pc_current s ..< pc_current s + max 1 conc}" by simp
  qed
  then have "card {i. pc_queue s i \<noteq> []} \<le> max 1 conc"
    using card_mono [OF _ sub] by simp
  with sub inv show ?thesis by (simp add: chain_inv_def)
qed

end
