(* ===== verification/ContentMap.thy ===== *)
theory ContentMap
  imports Streams FileModel
begin

text \<open>
  How a byte range of a file version is read from stores
  (\<open>src/tgdcfs/core/repository/impl/file_content/__init__.py\<close>): the range is mapped onto the
  parts of a layout, each part is streamed from the first candidate that has it and fails
  over to the next one in mid-stream, and a layout that fails is followed by the next layout
  from the byte where it stopped. The stores' downloads are a parameter \<open>dl\<close>.
\<close>

section \<open>Mapping a range onto parts\<close>

text \<open>
  \<open>_map_range\<close>. The first loop skips the parts before \<open>begin\<close>, the second yields
  \<open>(part index, message id, begin, end)\<close>; the generator is always exhausted by its callers, so
  it is a list or the exception. \<open>end_of\<close> is the clamping of \<open>end\<close>.
\<close>

definition end_of :: "int \<Rightarrow> int \<Rightarrow> int" where
  "end_of sz e0 = (if e0 < 0 \<or> sz \<le> e0 then sz - 1 else e0)"

fun skip_parts :: "int list \<Rightarrow> nat \<Rightarrow> int \<Rightarrow> int \<Rightarrow> nat \<times> int \<times> int list" where
  "skip_parts [] i offset b0 = (i, offset, [])"
| "skip_parts (s # ss) i offset b0 =
     (if offset + s \<le> b0 then skip_parts ss (Suc i) (offset + s) b0 else (i, offset, s # ss))"

fun emit_parts :: "int list \<Rightarrow> int list \<Rightarrow> nat \<Rightarrow> int \<Rightarrow> int \<Rightarrow> int \<Rightarrow> (nat \<times> int \<times> int \<times> int) list res" where
  "emit_parts ids [] i offset b0 e0 = Inr []"
| "emit_parts ids (s # ss) i offset b0 e0 =
     (if offset \<le> e0 then
        let part_begin = max 0 (b0 - offset); part_end = min (s - 1) (e0 - offset) in
        if part_begin \<le> part_end then
          (if i < length ids then
             rbind (emit_parts ids ss (Suc i) (offset + s) b0 e0)
               (\<lambda>r. Inr ((i, ids ! i, part_begin, part_end) # r))
           else Inl IndexError)
        else emit_parts ids ss (Suc i) (offset + s) b0 e0
      else Inr [])"

definition map_range ::
    "int list \<Rightarrow> int list \<Rightarrow> int \<Rightarrow> int \<Rightarrow> int \<Rightarrow> (nat \<times> int \<times> int \<times> int) list res" where
  "map_range ids part_sizes sz b0 e0 =
     (if sz \<le> 0 then Inr []
      else let e1 = end_of sz e0 in
        if b0 < 0 then Inl TechnicalError
        else if e1 < b0 then Inl TechnicalError
        else (case skip_parts part_sizes 0 0 b0 of (i, offset, rest) \<Rightarrow>
          if rest = [] then Inl TechnicalError else emit_parts ids rest i offset b0 e1))"

definition get_file_parts_indexed :: "file_version \<Rightarrow> int \<Rightarrow> int \<Rightarrow> (nat \<times> int \<times> int \<times> int) list res" where
  "get_file_parts_indexed fv b0 e0 =
     map_range (fv_message_ids fv) (fv_part_sizes fv) (fv_size fv) b0 e0"

definition get_file_part_to_download :: "file_version \<Rightarrow> int \<Rightarrow> int \<Rightarrow> (int \<times> int \<times> int) list res" where
  "get_file_part_to_download fv b0 e0 =
     rbind (get_file_parts_indexed fv b0 e0) (\<lambda>ps. Inr (map snd ps))"

section \<open>Layouts\<close>

record layout =
  l_part_sizes :: "int list"
  l_candidates :: "(string \<times> int) list list"
  l_label :: string

definition layout_size :: "layout \<Rightarrow> int" where
  "layout_size l = sum_list (l_part_sizes l)"

text \<open>
  The repository's configuration. Stores are named by their keys. \<open>cr_group\<close> is the mirror
  group as the read path uses it: the keys of the mirrors, and whether the primary is
  marked dead at the moment.
\<close>

record read_group =
  g_mirror_keys :: "string list"
  g_primary_dead :: bool

record content_repo =
  cr_store :: string
  cr_group :: "read_group option"
  cr_read_preference :: "string list"
  cr_read_parallel :: bool
  cr_read_sources :: "string list"
  cr_piece_size :: int
  cr_parallel_threshold :: int
  cr_read_window :: int

text \<open>\<open>MirrorGroup.store_for\<close>: whether a store stands behind the key.\<close>

definition store_for :: "content_repo \<Rightarrow> read_group \<Rightarrow> string \<Rightarrow> bool" where
  "store_for r g key \<longleftrightarrow> key = cr_store r \<or> key \<in> set (g_mirror_keys g)"

fun index_of :: "'a \<Rightarrow> 'a list \<Rightarrow> nat" where
  "index_of x [] = 0"
| "index_of x (y # ys) = (if x = y then 0 else Suc (index_of x ys))"

definition preference_rank :: "content_repo \<Rightarrow> string \<Rightarrow> nat" where
  "preference_rank r key = index_of key (cr_read_preference r)"

definition part_sources :: "content_repo \<Rightarrow> file_version \<Rightarrow> nat \<Rightarrow> (string \<times> int) list" where
  "part_sources r fv i =
     (let mid = fv_message_ids fv ! i;
          own = (if fv_owned_by fv (cr_store r) \<and> 0 < mid then [(cr_store r, mid)] else []);
          srcs = (case cr_group r of
              None \<Rightarrow> own
            | Some g \<Rightarrow>
                let s = own @ concat (map (\<lambda>(key, ids).
                          if store_for r g key \<and> i < length ids \<and> 0 < ids ! i
                          then [(key, ids ! i)] else []) (fv_mirrors fv))
                in if g_primary_dead g \<and> 1 < length s then drop 1 s @ take 1 s else s)
      in sort_key (\<lambda>(key, _). preference_rank r key) srcs)"

definition primary_layouts :: "content_repo \<Rightarrow> file_version \<Rightarrow> layout list" where
  "primary_layouts r fv =
     (if fv_message_ids fv \<noteq> [] \<and> length (fv_part_sizes fv) = length (fv_message_ids fv)
      then [\<lparr>l_part_sizes = fv_part_sizes fv,
             l_candidates = map (part_sources r fv) [0..<length (fv_message_ids fv)],
             l_label = ''primary''\<rparr>]
      else [])"

definition replica_layouts :: "content_repo \<Rightarrow> file_version \<Rightarrow> layout list" where
  "replica_layouts r fv = (case cr_group r of
     None \<Rightarrow> []
   | Some g \<Rightarrow> concat (map (\<lambda>(key, rep).
       if \<not> store_for r g key \<or> r_message_ids rep = []
          \<or> length (r_part_sizes rep) \<noteq> length (r_message_ids rep)
       then []
       else [\<lparr>l_part_sizes = r_part_sizes rep,
              l_candidates = map (\<lambda>mid. [(key, mid)]) (r_message_ids rep),
              l_label = ''replica '' @ key\<rparr>]) (fv_replicas fv)))"

definition layout_rank :: "content_repo \<Rightarrow> layout \<Rightarrow> nat" where
  "layout_rank r l =
     (let ranks = map (\<lambda>(key, _). preference_rank r key) (concat (l_candidates l))
      in if ranks = [] then length (cr_read_preference r) else Min (set ranks))"

definition layouts :: "content_repo \<Rightarrow> file_version \<Rightarrow> layout list" where
  "layouts r fv = sort_key (layout_rank r) (primary_layouts r fv @ replica_layouts r fv)"

section \<open>Streaming\<close>

text \<open>
  \<open>dl key mid begin end\<close> is \<open>store.download_file(mid, begin, end)\<close> with its chunks drained: an
  exception of the call is a stream that fails before its first chunk.
\<close>

type_synonym download = "string \<Rightarrow> int \<Rightarrow> int \<Rightarrow> int \<Rightarrow> stream"

text \<open>
  \<open>_download_part\<close>: the second component says whether the primary was marked dead.
\<close>

fun download_part_loop ::
    "download \<Rightarrow> string \<Rightarrow> bool \<Rightarrow> (string \<times> int) list \<Rightarrow> int \<Rightarrow> int \<Rightarrow> int \<Rightarrow> exn option \<Rightarrow> stream \<times> bool" where
  "download_part_loop dl primary grp [] b0 e0 served last_ex =
     (raising (case last_ex of Some ex \<Rightarrow> ex | None \<Rightarrow> TechnicalError), False)"
| "download_part_loop dl primary grp ((key, mid) # sources) b0 e0 served last_ex =
     (let s = dl key mid (b0 + served) e0 in
      case snd s of
        None \<Rightarrow> (s, False)
      | Some ex \<Rightarrow>
          (case download_part_loop dl primary grp sources b0 e0
                  (served + int (length (stream_bytes s))) (Some ex) of
             (t, dead) \<Rightarrow> (take_over s t, dead \<or> (key = primary \<and> grp))))"

definition download_part ::
    "content_repo \<Rightarrow> download \<Rightarrow> layout \<Rightarrow> nat \<Rightarrow> int \<Rightarrow> int \<Rightarrow> stream \<times> bool" where
  "download_part r dl l part_idx b0 e0 =
     download_part_loop dl (cr_store r) (cr_group r \<noteq> None) (l_candidates l ! part_idx) b0 e0 0 None"

definition stream_layout :: "content_repo \<Rightarrow> download \<Rightarrow> layout \<Rightarrow> int \<Rightarrow> int \<Rightarrow> stream res" where
  "stream_layout r dl l b0 e0 =
     rbind (map_range (concat (map (\<lambda>sources. map snd (take 1 sources)) (l_candidates l)))
              (l_part_sizes l) (layout_size l) b0 e0)
       (\<lambda>parts. Inr (chain (map (\<lambda>(part_idx, _, part_begin, part_end).
          fst (download_part r dl l part_idx part_begin part_end)) parts)))"

text \<open>The sequential branch of \<open>_stream_layouts\<close>.\<close>

fun stream_layouts_loop ::
    "content_repo \<Rightarrow> download \<Rightarrow> layout list \<Rightarrow> int \<Rightarrow> int \<Rightarrow> int \<Rightarrow> exn option \<Rightarrow> stream" where
  "stream_layouts_loop r dl [] b0 e0 served last_ex = ([], last_ex)"
| "stream_layouts_loop r dl (l # ls) b0 e0 served last_ex =
     (let s = of_res (stream_layout r dl l (b0 + served) e0) in
      case snd s of
        None \<Rightarrow> s
      | Some ex \<Rightarrow> take_over s (stream_layouts_loop r dl ls b0 e0
                   (served + int (length (stream_bytes s))) (Some ex)))"

text \<open>
  \<open>_store_views\<close>: the stores that hold the version completely, each with its layout.
\<close>

record store_view =
  sv_store :: string
  sv_message_ids :: "int list"
  sv_part_sizes :: "int list"

definition layout_views :: "content_repo \<Rightarrow> layout \<Rightarrow> store_view list \<Rightarrow> store_view list" where
  "layout_views r l views =
     (let per_store = fold (\<lambda>(key, mid). dict_extend key [mid]) (concat (l_candidates l)) []
      in fold (\<lambda>(key, ids) vs.
           if key \<in> sv_store ` set vs \<or> length ids \<noteq> length (l_part_sizes l) then vs
           else if cr_read_sources r \<noteq> [] \<and> key \<notin> set (cr_read_sources r) then vs
           else vs @ [\<lparr>sv_store = key, sv_message_ids = ids, sv_part_sizes = l_part_sizes l\<rparr>])
         per_store views)"

definition store_views :: "content_repo \<Rightarrow> layout list \<Rightarrow> store_view list" where
  "store_views r ls =
     sort_key (\<lambda>v. preference_rank r (sv_store v)) (fold (layout_views r) ls [])"

text \<open>
  \<open>_stream_layouts\<close> decides between the sequential stream and a multi-source read of the
  views.
\<close>

datatype read_plan =
    Sequential stream
  | MultiSource "store_view list" int int int int int

definition stream_layouts :: "content_repo \<Rightarrow> download \<Rightarrow> layout list \<Rightarrow> int \<Rightarrow> int \<Rightarrow> read_plan" where
  "stream_layouts r dl ls b0 e0 =
     (let sz = layout_size (hd ls); last = end_of sz e0; views = store_views r ls in
      if cr_read_parallel r \<and> cr_parallel_threshold r < last - b0 + 1 \<and> 1 < length views
      then MultiSource views sz b0 last (cr_piece_size r) (cr_read_window r)
      else Sequential (stream_layouts_loop r dl ls b0 e0 0 None))"

section \<open>The mapped parts are the range\<close>

text \<open>
  \<open>P j\<close> is the content of part \<open>j\<close>; \<open>sizes_from P i n\<close> the sizes of the parts from \<open>i\<close> on.
\<close>

definition sizes_from :: "(nat \<Rightarrow> bytes) \<Rightarrow> nat \<Rightarrow> nat \<Rightarrow> int list" where
  "sizes_from P i n = map (\<lambda>j. int (length (P j))) [i..<n]"

definition bytes_from :: "(nat \<Rightarrow> bytes) \<Rightarrow> nat \<Rightarrow> nat \<Rightarrow> bytes" where
  "bytes_from P i n = concat (map P [i..<n])"

definition piece_ok :: "(nat \<Rightarrow> bytes) \<Rightarrow> int list \<Rightarrow> nat \<Rightarrow> nat \<times> int \<times> int \<times> int \<Rightarrow> bool" where
  "piece_ok P ids n p \<longleftrightarrow> (case p of (j, mid, b, e) \<Rightarrow>
     j < n \<and> mid = ids ! j \<and> 0 \<le> b \<and> b \<le> e \<and> e < int (length (P j)))"

definition piece_bytes :: "(nat \<Rightarrow> bytes) \<Rightarrow> nat \<times> int \<times> int \<times> int \<Rightarrow> bytes" where
  "piece_bytes P p = (case p of (j, mid, b, e) \<Rightarrow> subrange (P j) b e)"

lemma sizes_from_Nil [simp]: "n \<le> i \<Longrightarrow> sizes_from P i n = []" "n \<le> i \<Longrightarrow> bytes_from P i n = []"
  by (simp_all add: sizes_from_def bytes_from_def)

lemma sizes_from_Cons:
  "i < n \<Longrightarrow> sizes_from P i n = int (length (P i)) # sizes_from P (Suc i) n"
  "i < n \<Longrightarrow> bytes_from P i n = P i @ bytes_from P (Suc i) n"
  by (simp_all add: sizes_from_def bytes_from_def upt_conv_Cons)

lemma sum_sizes_from: "sum_list (sizes_from P i n) = int (length (bytes_from P i n))"
proof -
  have "sum_list (map (\<lambda>j. int (length (P j))) xs) = int (length (concat (map P xs)))" for xs
    by (induction xs) simp_all
  then show ?thesis by (simp only: sizes_from_def bytes_from_def)
qed

definition emitted :: "(nat \<Rightarrow> bytes) \<Rightarrow> int list \<Rightarrow> nat \<Rightarrow> bytes \<Rightarrow> (nat \<times> int \<times> int \<times> int) list res \<Rightarrow> bool" where
  "emitted P ids n want r \<longleftrightarrow> (case r of
     Inl x \<Rightarrow> x = IndexError \<and> length ids < n
   | Inr ps \<Rightarrow> list_all (piece_ok P ids n) ps \<and> concat (map (piece_bytes P) ps) = want)"

lemma emit_parts_correct:
  "emitted P ids n (subrange (bytes_from P i n) (max 0 (b - off)) (e - off))
     (emit_parts ids (sizes_from P i n) i off b e)"
proof (induction "n - i" arbitrary: i off)
  case 0
  then show ?case by (simp add: subrange_def emitted_def)
next
  case (Suc k)
  then have i: "i < n" and k: "k = n - Suc i" by simp_all
  let ?s = "int (length (P i))" and ?pb = "max 0 (b - off)"
  let ?pe = "min (?s - 1) (e - off)"
  let ?rest = "emit_parts ids (sizes_from P (Suc i) n) (Suc i) (off + ?s) b e"
  have rest: "emitted P ids n
      (subrange (bytes_from P (Suc i) n) (max 0 (b - (off + ?s))) (e - (off + ?s))) ?rest"
    using Suc.hyps(1) [OF k, of "off + ?s"] .
  have "subrange (bytes_from P i n) ?pb (e - off) =
      subrange (P i) ?pb ?pe @ subrange (bytes_from P (Suc i) n) (max 0 (?pb - ?s)) (e - off - ?s)"
    unfolding sizes_from_Cons(2) [OF i] by (rule subrange_append) simp
  moreover have "max 0 (?pb - ?s) = max 0 (b - (off + ?s))" by simp
  moreover have "e - off - ?s = e - (off + ?s)" by simp
  ultimately have split: "subrange (bytes_from P i n) ?pb (e - off) = subrange (P i) ?pb ?pe
      @ subrange (bytes_from P (Suc i) n) (max 0 (b - (off + ?s))) (e - (off + ?s))"
    by metis
  show ?case
  proof (cases "off \<le> e")
    case True
    show ?thesis
    proof (cases "?pb \<le> ?pe")
      case piece: True
      have ok: "piece_ok P ids n (i, ids ! i, ?pb, ?pe)" using piece i by (simp add: piece_ok_def)
      have "emit_parts ids (sizes_from P i n) i off b e = (if i < length ids
          then rbind ?rest (\<lambda>r. Inr ((i, ids ! i, ?pb, ?pe) # r)) else Inl IndexError)"
        using True piece by (simp only: sizes_from_Cons(1) [OF i] emit_parts.simps Let_def if_True)
      then show ?thesis
        using rest ok i unfolding split
        by (cases ?rest) (simp_all add: emitted_def piece_bytes_def)
    next
      case False
      then have "subrange (P i) ?pb ?pe = []" by (intro subrange_empty) (simp only: not_le)
      moreover have "emit_parts ids (sizes_from P i n) i off b e = ?rest"
        using True False by (simp only: sizes_from_Cons(1) [OF i] emit_parts.simps Let_def if_True if_False)
      ultimately show ?thesis using rest unfolding split by simp
    qed
  next
    case False
    then show ?thesis using i by (simp add: sizes_from_Cons(1) emitted_def)
  qed
qed

lemma skip_parts_correct:
  assumes "off \<le> b"
  shows "\<exists>j off'. skip_parts (sizes_from P i n) i off b = (j, off', sizes_from P j n)
    \<and> off' \<le> b \<and> (i \<le> n \<longrightarrow> j \<le> n)
    \<and> off' + int (length (bytes_from P j n)) = off + int (length (bytes_from P i n))
    \<and> (\<forall>e. subrange (bytes_from P i n) (b - off) (e - off)
          = subrange (bytes_from P j n) (b - off') (e - off'))"
  using assms
proof (induction "n - i" arbitrary: i off)
  case 0
  then show ?case by simp
next
  case (Suc k)
  then have i: "i < n" and k: "k = n - Suc i" by simp_all
  let ?s = "int (length (P i))"
  show ?case
  proof (cases "off + ?s \<le> b")
    case True
    then obtain j off' where j: "skip_parts (sizes_from P (Suc i) n) (Suc i) (off + ?s) b
        = (j, off', sizes_from P j n)" "off' \<le> b" "j \<le> n"
      "off' + int (length (bytes_from P j n)) = off + ?s + int (length (bytes_from P (Suc i) n))"
      "\<And>e. subrange (bytes_from P (Suc i) n) (b - (off + ?s)) (e - (off + ?s))
          = subrange (bytes_from P j n) (b - off') (e - off')"
      using Suc.hyps(1) [OF k True] i by (metis Suc_leI)
    have "subrange (bytes_from P i n) (b - off) (e - off)
        = subrange (bytes_from P j n) (b - off') (e - off')" for e
      using True j(5) [of e] by (simp add: sizes_from_Cons [OF i] subrange_append_right algebra_simps)
    then show ?thesis
      using True j i by (auto simp: sizes_from_Cons [OF i])
  next
    case False
    then show ?thesis using Suc.prems i by (auto simp: sizes_from_Cons [OF i])
  qed
qed

lemma end_of_bounds: "0 < sz \<Longrightarrow> end_of sz e < sz" "0 \<le> e \<Longrightarrow> e < sz \<Longrightarrow> end_of sz e = e"
  by (auto simp: end_of_def)

lemma map_range_parts:
  fixes P n
  defines "data \<equiv> bytes_from P 0 n" and "sizes \<equiv> sizes_from P 0 n"
  assumes "0 \<le> b" and "b \<le> end_of (int (length data)) e" and "data \<noteq> []"
  shows "emitted P ids n (subrange data b (end_of (int (length data)) e))
    (map_range ids sizes (sum_list sizes) b e)"
proof -
  let ?sz = "int (length data)"
  let ?e = "end_of ?sz e"
  have sz: "sum_list sizes = ?sz" by (simp add: sizes_def data_def sum_sizes_from)
  have pos: "0 < ?sz" using assms(5) by simp
  obtain j off where j: "skip_parts sizes 0 0 b = (j, off, sizes_from P j n)" "off \<le> b" "j \<le> n"
    "off + int (length (bytes_from P j n)) = ?sz"
    "\<And>e. subrange data b e = subrange (bytes_from P j n) (b - off) (e - off)"
    using skip_parts_correct [of 0 b P 0 n] assms(3) by (auto simp: sizes_def data_def)
  have "off < ?sz" using j(2) assms(4) end_of_bounds(1) [OF pos, of e] by linarith
  then have "bytes_from P j n \<noteq> []" using j(4) by auto
  then have ne: "sizes_from P j n \<noteq> []" by (auto simp: bytes_from_def sizes_from_def)
  have "max 0 (b - off) = b - off" using j(2) by simp
  with emit_parts_correct [of P ids n j b off ?e]
  have "emitted P ids n (subrange data b ?e) (emit_parts ids (sizes_from P j n) j off b ?e)"
    using j(5) by simp
  then show ?thesis
    using j(1) ne pos assms(3,4) by (simp add: map_range_def sz Let_def)
qed

text \<open>The byte range of a file is mapped onto its parts exactly: when the part sizes are
  those of the parts and every part has a message id, the pieces read in order are the bytes
  \<open>[begin, end]\<close> of the file (with \<open>end\<close> clamped to the last byte), each piece names its
  part's message and lies inside the part.\<close>

lemma map_range_correct:
  assumes "length ids = n" and "0 \<le> b" and "b \<le> end_of (int (length (bytes_from P 0 n))) e"
    and "bytes_from P 0 n \<noteq> []"
  shows "\<exists>ps. map_range ids (sizes_from P 0 n) (sum_list (sizes_from P 0 n)) b e = Inr ps
    \<and> list_all (piece_ok P ids n) ps
    \<and> concat (map (piece_bytes P) ps)
        = subrange (bytes_from P 0 n) b (end_of (int (length (bytes_from P 0 n))) e)"
  using map_range_parts [OF assms(2-4), of ids] assms(1)
  by (auto simp: emitted_def split: sum.splits)

text \<open>A range outside the file is refused: a negative begin, a begin after the (clamped)
  end, which covers every begin at or past the end of the file.\<close>

lemma map_range_rejects:
  assumes "0 < sz" and "b < 0 \<or> end_of sz e < b"
  shows "map_range ids sizes sz b e = Inl TechnicalError"
  using assms by (auto simp: map_range_def Let_def)

section \<open>Reading is exact\<close>

text \<open>
  \<open>content key mid\<close> is the bytes of a message. An honest store delivers bytes of the message
  from the start of the range on: a download that ends normally delivered the range, one that
  fails stopped before its end.
\<close>

type_synonym store_content = "string \<Rightarrow> int \<Rightarrow> bytes option"

definition honest :: "download \<Rightarrow> store_content \<Rightarrow> bool" where
  "honest dl content \<longleftrightarrow> (\<forall>key mid c b e. content key mid = Some c \<longrightarrow> 0 \<le> b \<longrightarrow> b \<le> e
     \<longrightarrow> e < int (length c) \<longrightarrow> serves (dl key mid b e) (subrange c b e))"

text \<open>A store that answers every range of its messages to the end.\<close>

definition up :: "download \<Rightarrow> store_content \<Rightarrow> string \<Rightarrow> bool" where
  "up dl content key \<longleftrightarrow> (\<forall>mid c b e. content key mid = Some c \<longrightarrow> 0 \<le> b \<longrightarrow> b \<le> e
     \<longrightarrow> e < int (length c) \<longrightarrow> snd (dl key mid b e) = None)"

lemma subrange_nonempty: "0 \<le> b \<Longrightarrow> b \<le> e \<Longrightarrow> e < int (length c) \<Longrightarrow> subrange c b e \<noteq> []"
  by (metis length_subrange list.size(3) nat_0_iff add.commute diff_ge_0_iff_ge not_less
      zle_add1_eq_le)

lemma download_part_loop_serves:
  assumes "honest dl content" and "\<forall>(key, mid) \<in> set srcs. content key mid = Some c"
    and "0 \<le> b" and "0 \<le> served" and "b + served \<le> e" and "e < int (length c)"
  shows "serves (fst (download_part_loop dl primary grp srcs b e served last_ex)) (subrange c (b + served) e)
    \<and> ((\<exists>(key, mid) \<in> set srcs. up dl content key)
        \<longrightarrow> snd (fst (download_part_loop dl primary grp srcs b e served last_ex)) = None)"
  using assms(2,4,5)
proof (induction srcs arbitrary: served last_ex)
  case Nil
  then show ?case using subrange_nonempty [of "b + served" e c] assms(3,6) by simp
next
  case (Cons src srcs)
  obtain key mid where src: "src = (key, mid)" by (cases src)
  let ?s = "dl key mid (b + served) e"
  have held: "content key mid = Some c" using Cons.prems(1) by (simp add: src)
  have s: "serves ?s (subrange c (b + served) e)"
    using assms(1,3,6) held Cons.prems(2,3) by (auto simp: honest_def)
  show ?case
  proof (cases "snd ?s")
    case None
    then show ?thesis using s by (simp add: src)
  next
    case (Some ex)
    let ?k = "int (length (stream_bytes ?s))"
    have "?k < int (length (subrange c (b + served) e))"
      using serves_failed_short [OF s Some] by simp
    then have k: "b + (served + ?k) \<le> e" "0 \<le> served + ?k"
      using Cons.prems(2,3) assms(3,6) by (simp_all add: length_subrange)
    let ?t = "download_part_loop dl primary grp srcs b e (served + ?k) (Some ex)"
    have t: "serves (fst ?t) (subrange c (b + (served + ?k)) e)"
      "(\<exists>(key, mid) \<in> set srcs. up dl content key) \<longrightarrow> snd (fst ?t) = None"
      using Cons.IH [OF _ k(2,1), of "Some ex"] Cons.prems(1) by auto
    have "drop (length (stream_bytes ?s)) (subrange c (b + served) e)
        = subrange c (b + (served + ?k)) e"
      using assms(3) Cons.prems(2) by (simp add: drop_subrange algebra_simps)
    then have "serves (take_over ?s (fst ?t)) (subrange c (b + served) e)"
      using serves_take_over [OF s] t(1) by simp
    moreover have "\<not> up dl content key"
      using Some held assms(3,6) Cons.prems(2,3)
      unfolding up_def by (metis add_nonneg_nonneg option.distinct(1))
    ultimately show ?thesis
      using Some t(2) by (auto simp: src Let_def take_over_def split: prod.splits)
  qed
qed

text \<open>The layout's parts are the pieces \<open>P\<close> of the data, and its messages hold them.\<close>

definition layout_holds :: "store_content \<Rightarrow> layout \<Rightarrow> (nat \<Rightarrow> bytes) \<Rightarrow> nat \<Rightarrow> bool" where
  "layout_holds content l P n \<longleftrightarrow> l_part_sizes l = sizes_from P 0 n \<and> length (l_candidates l) = n
     \<and> (\<forall>j < n. \<forall>(key, mid) \<in> set (l_candidates l ! j). content key mid = Some (P j))"

definition holds_data :: "store_content \<Rightarrow> bytes \<Rightarrow> layout \<Rightarrow> bool" where
  "holds_data content data l \<longleftrightarrow> (\<exists>P n. layout_holds content l P n \<and> bytes_from P 0 n = data)"

text \<open>A layout in which every part has a store that is up.\<close>

definition layout_up :: "download \<Rightarrow> store_content \<Rightarrow> layout \<Rightarrow> bool" where
  "layout_up dl content l \<longleftrightarrow>
     (\<forall>srcs \<in> set (l_candidates l). \<exists>(key, mid) \<in> set srcs. up dl content key)"

lemma layout_up_ids:
  assumes "layout_up dl content l"
  shows "length (concat (map (\<lambda>sources. map snd (take 1 sources)) (l_candidates l)))
    = length (l_candidates l)"
proof -
  have "length (concat (map (\<lambda>sources. map snd (take 1 sources)) cs)) = length cs"
    if "\<forall>s \<in> set cs. s \<noteq> []" for cs :: "(string \<times> int) list list"
    using that by (induction cs) (auto simp: Suc_le_eq)
  moreover have "\<forall>s \<in> set (l_candidates l). s \<noteq> []"
    using assms by (auto simp: layout_up_def)
  ultimately show ?thesis by blast
qed

lemma download_part_serves:
  assumes "honest dl content" and "layout_holds content l P n" and "piece_ok P ids n (j, mid, b, e)"
  shows "serves (fst (download_part r dl l j b e)) (subrange (P j) b e)
    \<and> (layout_up dl content l \<longrightarrow> snd (fst (download_part r dl l j b e)) = None)"
proof -
  have j: "j < n" "j < length (l_candidates l)"
    "\<forall>(key, mid) \<in> set (l_candidates l ! j). content key mid = Some (P j)"
    using assms(2,3) by (auto simp: layout_holds_def piece_ok_def)
  then have "layout_up dl content l \<longrightarrow> (\<exists>(key, mid) \<in> set (l_candidates l ! j). up dl content key)"
    by (simp add: layout_up_def)
  with download_part_loop_serves [OF assms(1) j(3), of b 0 e] assms(3) show ?thesis
    by (simp add: download_part_def piece_ok_def)
qed

lemma chain_map_ends: "\<forall>p \<in> set ps. snd (f p) = None \<Longrightarrow> snd (chain (map f ps)) = None"
  by (rule chain_ends) auto

lemma stream_layout_serves:
  assumes "honest dl content" and "layout_holds content l P n"
    and "0 \<le> b" and "b \<le> end_of (int (length (bytes_from P 0 n))) e" and "bytes_from P 0 n \<noteq> []"
  defines "want \<equiv> subrange (bytes_from P 0 n) b (end_of (int (length (bytes_from P 0 n))) e)"
  shows "serves (of_res (stream_layout r dl l b e)) want
    \<and> (layout_up dl content l \<longrightarrow> snd (of_res (stream_layout r dl l b e)) = None)"
proof -
  let ?ids = "concat (map (\<lambda>sources. map snd (take 1 sources)) (l_candidates l))"
  let ?r = "map_range ?ids (l_part_sizes l) (layout_size l) b e"
  have em: "emitted P ?ids n want ?r"
    using map_range_parts [OF assms(3-5), of ?ids] assms(2)
    by (simp add: layout_holds_def layout_size_def want_def)
  have want: "want \<noteq> []"
    unfolding want_def using assms(3-5) by (intro subrange_nonempty) (auto simp: end_of_bounds)
  show ?thesis
  proof (cases ?r)
    case (Inl x)
    then have "length ?ids < n" using em by (simp add: emitted_def)
    then have "\<not> layout_up dl content l"
      using layout_up_ids [of dl content l] assms(2) by (auto simp: layout_holds_def)
    with Inl want show ?thesis by (simp add: stream_layout_def)
  next
    case (Inr ps)
    let ?f = "\<lambda>(part_idx, _, part_begin, part_end). fst (download_part r dl l part_idx part_begin part_end)"
    have all: "\<And>p. p \<in> set ps \<Longrightarrow> piece_ok P ?ids n p" and bytes: "concat (map (piece_bytes P) ps) = want"
      using em Inr by (simp_all add: emitted_def list_all_iff)
    have each: "serves (?f p) (piece_bytes P p) \<and> (layout_up dl content l \<longrightarrow> snd (?f p) = None)"
      if "p \<in> set ps" for p
      using all [OF that] download_part_serves [OF assms(1,2), of ?ids]
      by (cases p) (auto simp: piece_bytes_def)
    have "list_all2 serves (map ?f ps) (map (piece_bytes P) ps)"
      using each by (simp add: list_all2_map1 list_all2_map2 list_all2_same)
    then have "serves (chain (map ?f ps)) want" using serves_chain bytes by metis
    moreover have "layout_up dl content l \<longrightarrow> snd (chain (map ?f ps)) = None"
      using each by (intro impI chain_map_ends) blast
    ultimately show ?thesis using Inr by (simp add: stream_layout_def)
  qed
qed

lemma stream_layouts_loop_serves:
  assumes "honest dl content" and "\<forall>l \<in> set ls. holds_data content data l"
    and "0 \<le> b" and "0 \<le> served" and "b + served \<le> end_of (int (length data)) e" and "data \<noteq> []"
    and "ls \<noteq> [] \<or> last_ex \<noteq> None"
  shows "serves (stream_layouts_loop r dl ls b e served last_ex)
           (subrange data (b + served) (end_of (int (length data)) e))
    \<and> ((\<exists>l \<in> set ls. layout_up dl content l)
        \<longrightarrow> snd (stream_layouts_loop r dl ls b e served last_ex) = None)"
  using assms(2,4,5,7)
proof (induction ls arbitrary: served last_ex)
  case Nil
  have "subrange data (b + served) (end_of (int (length data)) e) \<noteq> []"
    using assms(3,6) Nil.prems end_of_bounds(1) [of "int (length data)" e]
    by (intro subrange_nonempty) auto
  with Nil.prems show ?case by (auto simp: strict_prefix_def)
next
  case (Cons l ls)
  let ?e = "end_of (int (length data)) e"
  obtain P n where P: "layout_holds content l P n" "bytes_from P 0 n = data"
    using Cons.prems(1) by (auto simp: holds_data_def)
  let ?s = "of_res (stream_layout r dl l (b + served) e)"
  have s: "serves ?s (subrange data (b + served) ?e)" "layout_up dl content l \<longrightarrow> snd ?s = None"
    using stream_layout_serves [OF assms(1) P(1), of "b + served" e r] P(2) assms(3,6) Cons.prems(2,3)
    by auto
  show ?case
  proof (cases "snd ?s")
    case None
    then show ?thesis using s(1) by simp
  next
    case (Some ex)
    let ?k = "int (length (stream_bytes ?s))"
    have "?k < int (length (subrange data (b + served) ?e))"
      using serves_failed_short [OF s(1) Some] by simp
    then have k: "b + (served + ?k) \<le> ?e" "0 \<le> served + ?k"
      using Cons.prems(2,3) assms(3,6) end_of_bounds(1) [of "int (length data)" e]
      by (simp_all add: length_subrange)
    let ?t = "stream_layouts_loop r dl ls b e (served + ?k) (Some ex)"
    have t: "serves ?t (subrange data (b + (served + ?k)) ?e)"
      "(\<exists>l \<in> set ls. layout_up dl content l) \<longrightarrow> snd ?t = None"
      using Cons.IH [OF _ k(2,1), of "Some ex"] Cons.prems(1) by auto
    have "drop (length (stream_bytes ?s)) (subrange data (b + served) ?e)
        = subrange data (b + (served + ?k)) ?e"
      using assms(3) Cons.prems(2) by (simp add: drop_subrange algebra_simps)
    then have "serves (take_over ?s ?t) (subrange data (b + served) ?e)"
      using serves_take_over [OF s(1)] t(1) by simp
    with Some s(2) t(2) show ?thesis by (auto simp: Let_def take_over_def)
  qed
qed

section \<open>Reading a version\<close>

text \<open>
  What the recorded copies of a version hold: \<open>data\<close>, cut into the primary layout's parts in
  the owning store and the aligned mirrors, and cut in their own way in the replicas.
\<close>

definition copies_hold :: "store_content \<Rightarrow> string \<Rightarrow> file_version \<Rightarrow> bytes \<Rightarrow> bool" where
  "copies_hold content primary fv data \<longleftrightarrow>
     (\<exists>P. fv_part_sizes fv = sizes_from P 0 (length (fv_message_ids fv))
        \<and> bytes_from P 0 (length (fv_message_ids fv)) = data
        \<and> (\<forall>i < length (fv_message_ids fv).
             (fv_owned_by fv primary \<and> 0 < fv_message_ids fv ! i
                \<longrightarrow> content primary (fv_message_ids fv ! i) = Some (P i))
           \<and> (\<forall>(key, ids) \<in> set (fv_mirrors fv).
                i < length ids \<and> 0 < ids ! i \<longrightarrow> content key (ids ! i) = Some (P i))))
     \<and> (\<forall>(key, rep) \<in> set (fv_replicas fv). \<exists>P n. r_part_sizes rep = sizes_from P 0 n
        \<and> bytes_from P 0 n = data
        \<and> (\<forall>i < n. i < length (r_message_ids rep)
             \<longrightarrow> content key (r_message_ids rep ! i) = Some (P i)))"

lemma length_sizes_from [simp]: "length (sizes_from P i n) = n - i"
  by (simp add: sizes_from_def)

lemma part_sources_mem:
  assumes "(key, mid) \<in> set (part_sources r fv i)"
  shows "(key = cr_store r \<and> mid = fv_message_ids fv ! i \<and> fv_owned_by fv (cr_store r) \<and> 0 < mid)
    \<or> (\<exists>ids. (key, ids) \<in> set (fv_mirrors fv) \<and> i < length ids \<and> mid = ids ! i \<and> 0 < mid)"
proof -
  let ?own = "if fv_owned_by fv (cr_store r) \<and> 0 < fv_message_ids fv ! i
    then [(cr_store r, fv_message_ids fv ! i)] else []"
  let ?mir = "\<lambda>g. concat (map (\<lambda>(key, ids).
    if store_for r g key \<and> i < length ids \<and> 0 < ids ! i then [(key, ids ! i)] else []) (fv_mirrors fv))"
  have rot: "set (if p then drop 1 s @ take 1 s else s) = set s" for p and s :: "(string \<times> int) list"
    by (cases s) auto
  have "(key, mid) \<in> set ?own \<union> (\<Union>g. set (?mir g))"
  proof (cases "cr_group r")
    case None
    with assms show ?thesis unfolding part_sources_def Let_def by simp
  next
    case (Some g)
    have "set (part_sources r fv i) = set (?own @ ?mir g)"
      unfolding part_sources_def Let_def Some option.case set_sort by (rule rot)
    with assms show ?thesis unfolding set_append by blast
  qed
  then show ?thesis by (auto split: if_splits)
qed

lemma primary_layout_holds:
  assumes "copies_hold content (cr_store r) fv data" and "l \<in> set (primary_layouts r fv)"
  shows "holds_data content data l"
proof -
  let ?n = "length (fv_message_ids fv)"
  obtain P where P: "fv_part_sizes fv = sizes_from P 0 ?n" "bytes_from P 0 ?n = data"
    "\<And>i. i < ?n \<Longrightarrow> fv_owned_by fv (cr_store r) \<Longrightarrow> 0 < fv_message_ids fv ! i
       \<Longrightarrow> content (cr_store r) (fv_message_ids fv ! i) = Some (P i)"
    "\<And>i key ids. i < ?n \<Longrightarrow> (key, ids) \<in> set (fv_mirrors fv) \<Longrightarrow> i < length ids \<Longrightarrow> 0 < ids ! i
       \<Longrightarrow> content key (ids ! i) = Some (P i)"
    using assms(1) unfolding copies_hold_def by blast
  have "content key mid = Some (P i)" if "i < ?n" "(key, mid) \<in> set (part_sources r fv i)" for i key mid
    using part_sources_mem [OF that(2)] P(3,4) that(1) by blast
  with P assms(2) have "layout_holds content l P ?n"
    by (auto simp: primary_layouts_def layout_holds_def split: if_splits)
  with P(2) show ?thesis by (auto simp: holds_data_def)
qed

lemma replica_layout_holds:
  assumes "copies_hold content (cr_store r) fv data" and "l \<in> set (replica_layouts r fv)"
  shows "holds_data content data l"
proof -
  from assms(2) obtain key rep where rep: "(key, rep) \<in> set (fv_replicas fv)"
    "l_part_sizes l = r_part_sizes rep" "l_candidates l = map (\<lambda>mid. [(key, mid)]) (r_message_ids rep)"
    "length (r_part_sizes rep) = length (r_message_ids rep)"
    by (auto simp: replica_layouts_def split: option.splits if_splits)
  then obtain P n where "r_part_sizes rep = sizes_from P 0 n" "bytes_from P 0 n = data"
    "\<forall>i < n. i < length (r_message_ids rep) \<longrightarrow> content key (r_message_ids rep ! i) = Some (P i)"
    using assms(1) unfolding copies_hold_def by blast
  then show ?thesis using rep by (auto simp: holds_data_def layout_holds_def intro!: exI [of _ P])
qed

lemma layouts_hold:
  "copies_hold content (cr_store r) fv data \<Longrightarrow> l \<in> set (layouts r fv) \<Longrightarrow> holds_data content data l"
  using primary_layout_holds replica_layout_holds by (auto simp: layouts_def)

text \<open>C4: reading a version with failover is byte exact. Whatever stores fail and wherever in
  the stream, the bytes handed out are the requested range of the file's data or a proper
  prefix of it followed by an error, never other, repeated or missing bytes; and when some
  layout has for every part a store that is up, the read delivers the whole range.\<close>

theorem failover_read_exact:
  assumes "honest dl content" and "copies_hold content (cr_store r) fv data"
    and "layouts r fv \<noteq> []" and "0 \<le> b" and "b \<le> end_of (int (length data)) e" and "data \<noteq> []"
  shows "serves (stream_layouts_loop r dl (layouts r fv) b e 0 None)
           (subrange data b (end_of (int (length data)) e))
    \<and> ((\<exists>l \<in> set (layouts r fv). layout_up dl content l)
        \<longrightarrow> snd (stream_layouts_loop r dl (layouts r fv) b e 0 None) = None)"
  using stream_layouts_loop_serves [OF assms(1), of "layouts r fv" data b 0 e None r]
    layouts_hold [OF assms(2)] assms(3-6) by auto

text \<open>A primary that is down and a mirror that is up, for the examples.\<close>

definition example_content :: store_content where
  "example_content key mid = (if mid = 1 \<or> mid = 5 then Some [10, 11] else
     if mid = 2 \<or> mid = 6 then Some [12] else None)"

definition example_download :: download where
  "example_download key mid b e = (if key = ''tg:1'' then raising TechnicalError else
     (case example_content key mid of None \<Rightarrow> raising (MessageNotFound mid)
      | Some c \<Rightarrow> ([subrange c b e], None)))"

definition example_read_version :: file_version where
  "example_read_version = example_version\<lparr>fv_message_ids := [1, 2], fv_part_sizes := [2, 1],
     fv_mirrors := [(''dc:9'', [5, 6])], fv_replicas := [], fv_store := Some ''tg:1''\<rparr>"

definition example_repo :: content_repo where
  "example_repo = \<lparr>cr_store = ''tg:1'',
     cr_group = Some \<lparr>g_mirror_keys = [''dc:9''], g_primary_dead = False\<rparr>,
     cr_read_preference = [], cr_read_parallel = False, cr_read_sources = [], cr_piece_size = 4,
     cr_parallel_threshold = 10, cr_read_window = 8\<rparr>"

lemma example_layouts: "layouts example_repo example_read_version =
  [\<lparr>l_part_sizes = [2, 1], l_candidates = [[(''tg:1'', 1), (''dc:9'', 5)], [(''tg:1'', 2), (''dc:9'', 6)]],
    l_label = ''primary''\<rparr>]"
  by (simp add: layouts_def primary_layouts_def replica_layouts_def part_sources_def Let_def
      example_repo_def example_read_version_def fv_owned_by_def store_for_def upt_rec
      preference_rank_def)

lemma example_honest: "honest example_download example_content"
  using subrange_nonempty by (fastforce simp: honest_def example_download_def)

lemma example_mirror_up: "up example_download example_content ''dc:9''"
  by (auto simp: up_def example_download_def)

lemma example_copies: "copies_hold example_content (cr_store example_repo) example_read_version [10, 11, 12]"
  unfolding copies_hold_def
  by (intro conjI exI [of _ "\<lambda>i. if i = 0 then [10, 11] else [12]"])
    (auto simp: example_read_version_def sizes_from_def bytes_from_def upt_rec example_repo_def
      example_content_def less_Suc_eq numeral_2_eq_2)

theorem failover_read_exact_witness:
  "stream_layouts_loop example_repo example_download (layouts example_repo example_read_version) 1 (-1) 0 None
     = ([[11], [12]], None)
   \<and> serves (stream_layouts_loop example_repo example_download
       (layouts example_repo example_read_version) 1 (-1) 0 None) [11, 12]"
proof -
  let ?s = "stream_layouts_loop example_repo example_download
       (layouts example_repo example_read_version) 1 (-1) 0 None"
  have "layouts example_repo example_read_version \<noteq> []" by (simp add: example_layouts)
  from failover_read_exact [OF example_honest example_copies this, of 1 "-1"]
  have "serves ?s [11, 12]" by (simp add: end_of_def subrange_def)
  moreover have "?s = ([[11], [12]], None)"
    by (simp add: example_layouts stream_layout_def map_range_def end_of_def layout_size_def
        download_part_def example_download_def example_content_def raising_def take_over_def
        stream_bytes_def subrange_def)
  ultimately show ?thesis by simp
qed

text \<open>A layout in which an earlier part has no source cannot serve the later parts it does
  have: \<open>_stream_layout\<close> lists one message id per part that has a source, and the mapping
  indexes that shortened list by part number, so the read of the second part of two is an
  \<open>IndexError\<close>.\<close>

lemma missing_part_hides_others:
  assumes "0 < s0" and "0 < s1"
  shows "stream_layout r dl \<lparr>l_part_sizes = [s0, s1], l_candidates = [[], [(key, mid)]], l_label = lbl\<rparr>
    s0 (s0 + s1 - 1) = Inl IndexError"
  using assms by (simp add: stream_layout_def map_range_def layout_size_def end_of_def Let_def)

end
