(* ===== verification/CacheEntry.thy ===== *)
theory CacheEntry
  imports Streams
begin

text \<open>
  One entry of the local cache (\<open>CacheEntry\<close> in \<open>src/tgdcfs/core/local_cache.py\<close>): a version's
  bytes in blocks, each on disk or not. The theory has the block arithmetic, what an entry
  is charged, and that \<open>missing_runs\<close> describes exactly the blocks a reader has to fetch.
  The data file of an entry is its field \<open>e_data\<close>; \<open>e_token\<close> tells apart two entries that were
  created under the same id one after the other, as object identity does in the code.
\<close>

record cache_entry =
  e_fs :: string
  e_size :: int
  e_block_size :: int
  e_present :: "bool list"
  e_last_access :: int
  e_pins :: int
  e_writing :: bool
  e_inflight :: int
  e_pinned_at :: int
  e_token :: nat
  e_data :: bytes

definition evictable :: "cache_entry \<Rightarrow> bool" where
  "evictable e \<longleftrightarrow> e_pins e = 0 \<and> \<not> e_writing e \<and> e_inflight e = 0"

definition blocks :: "cache_entry \<Rightarrow> nat" where
  "blocks e = length (e_present e)"

definition block_length :: "cache_entry \<Rightarrow> nat \<Rightarrow> int" where
  "block_length e i =
     (if int i < int (blocks e) - 1 then e_block_size e else e_size e - int i * e_block_size e)"

definition present_bytes :: "cache_entry \<Rightarrow> int" where
  "present_bytes e = sum_list (map (block_length e) (filter (\<lambda>i. e_present e ! i) [0..<blocks e]))"

definition charged_bytes :: "cache_entry \<Rightarrow> int" where
  "charged_bytes e = (if e_writing e then e_size e else present_bytes e + e_inflight e)"

definition is_complete :: "cache_entry \<Rightarrow> bool" where
  "is_complete e \<longleftrightarrow> e_size e = 0 \<or> list_all id (e_present e)"

definition has_range :: "cache_entry \<Rightarrow> int \<Rightarrow> int \<Rightarrow> bool" where
  "has_range e b0 e0 \<longleftrightarrow> e_size e = 0 \<or>
     (\<not> (b0 < 0 \<or> e_size e \<le> e0 \<or> e0 < b0) \<and>
      list_all id (subrange (e_present e) (b0 div e_block_size e) (e0 div e_block_size e)))"

text \<open>The loop of \<open>missing_runs\<close> over the block indices; \<open>start\<close> is the open run.\<close>

fun runs_loop :: "cache_entry \<Rightarrow> nat \<Rightarrow> nat list \<Rightarrow> nat option \<Rightarrow> (int \<times> int) list" where
  "runs_loop e lst [] start = []"
| "runs_loop e lst (i # is) start =
     (let missing = (i \<le> lst \<and> \<not> e_present e ! i) in
      if missing \<and> start = None then runs_loop e lst is (Some i)
      else (case start of
              Some s \<Rightarrow>
                if \<not> missing
                then (int s * e_block_size e,
                      (int i - 1) * e_block_size e + block_length e (i - 1) - 1)
                     # runs_loop e lst is None
                else runs_loop e lst is start
            | None \<Rightarrow> runs_loop e lst is None))"

definition missing_runs :: "cache_entry \<Rightarrow> int \<Rightarrow> int \<Rightarrow> (int \<times> int) list" where
  "missing_runs e b0 e0 =
     (if e_size e = 0 then []
      else
        let e1 = min e0 (e_size e - 1);
            first = nat (b0 div e_block_size e); lst = nat (e1 div e_block_size e)
        in runs_loop e lst [first..<lst + 2] None)"

definition blocks_for :: "int \<Rightarrow> int \<Rightarrow> nat" where
  "blocks_for sz block_size = nat (max 0 ((sz + block_size - 1) div block_size))"

section \<open>Well-formed entries and their charge\<close>

definition entry_ok :: "cache_entry \<Rightarrow> bool" where
  "entry_ok e \<longleftrightarrow> 0 < e_block_size e \<and> 0 \<le> e_size e \<and> 0 \<le> e_inflight e \<and> 0 \<le> e_pins e
     \<and> length (e_present e) = blocks_for (e_size e) (e_block_size e)
     \<and> e_size e \<le> int (length (e_data e))"

lemma blocks_for_bounds:
  assumes "0 < bs" and "0 \<le> sz"
  shows "sz \<le> int (blocks_for sz bs) * bs" and "0 < sz \<Longrightarrow> (int (blocks_for sz bs) - 1) * bs < sz"
proof -
  let ?n = "(sz + bs - 1) div bs"
  have n: "0 \<le> ?n" using assms by (simp add: pos_imp_zdiv_nonneg_iff)
  have eq: "?n * bs + (sz + bs - 1) mod bs = sz + bs - 1" by (rule div_mult_mod_eq)
  have m: "0 \<le> (sz + bs - 1) mod bs" "(sz + bs - 1) mod bs < bs"
    using assms(1) by simp_all
  have bn: "int (blocks_for sz bs) = ?n" using n by (simp add: blocks_for_def)
  show "sz \<le> int (blocks_for sz bs) * bs" unfolding bn using eq m by linarith
  have "(?n - 1) * bs = ?n * bs - bs" by (simp add: algebra_simps)
  then show "(int (blocks_for sz bs) - 1) * bs < sz" unfolding bn using eq m by linarith
qed

lemma entry_blocks:
  assumes "entry_ok e"
  shows "e_size e \<le> int (blocks e) * e_block_size e"
    and "0 < e_size e \<Longrightarrow> (int (blocks e) - 1) * e_block_size e < e_size e"
  using assms blocks_for_bounds by (auto simp: entry_ok_def blocks_def)

lemma entry_empty: "entry_ok e \<Longrightarrow> e_size e = 0 \<Longrightarrow> blocks e = 0"
  by (auto simp: entry_ok_def blocks_def blocks_for_def div_pos_pos_trivial max_def)

lemma block_length_pos:
  assumes "entry_ok e" and "i < blocks e"
  shows "0 < block_length e i" and "block_length e i \<le> e_block_size e"
proof -
  have sz: "0 < e_size e"
    using assms entry_empty [of e] by (cases "e_size e = 0") (auto simp: entry_ok_def)
  have i: "int i \<le> int (blocks e) - 1" using assms(2) by simp
  have bs: "0 < e_block_size e" using assms(1) by (simp add: entry_ok_def)
  have "int i * e_block_size e \<le> (int (blocks e) - 1) * e_block_size e"
    using i bs by (intro mult_right_mono) auto
  then have "int i * e_block_size e < e_size e" using entry_blocks(2) [OF assms(1) sz] by linarith
  with bs show "0 < block_length e i" by (simp add: block_length_def)
  have "e_size e - int i * e_block_size e \<le> e_block_size e" if "\<not> int i < int (blocks e) - 1"
  proof -
    have "int i = int (blocks e) - 1" using that i by simp
    then have "int i * e_block_size e = int (blocks e) * e_block_size e - e_block_size e"
      by (simp only: left_diff_distrib mult_1)
    then show ?thesis using entry_blocks(1) [OF assms(1)] by simp
  qed
  then show "block_length e i \<le> e_block_size e" by (simp add: block_length_def)
qed

lemma sum_block_lengths:
  assumes "entry_ok e" and "k < blocks e"
  shows "sum_list (map (block_length e) [0..<k]) = int k * e_block_size e"
  using assms(2)
proof (induction k)
  case (Suc k)
  then show ?case by (simp add: block_length_def algebra_simps)
qed simp

lemma sum_all_blocks:
  assumes "entry_ok e"
  shows "sum_list (map (block_length e) [0..<blocks e]) = e_size e"
proof (cases "blocks e")
  case 0
  then show ?thesis using entry_blocks [OF assms] assms by (auto simp: entry_ok_def)
next
  case (Suc k)
  have "sum_list (map (block_length e) [0..<Suc k])
      = sum_list (map (block_length e) [0..<k]) + block_length e k" by simp
  also have "\<dots> = e_size e"
    using sum_block_lengths [OF assms, of k] Suc by (simp add: block_length_def)
  finally show ?thesis using Suc by simp
qed

lemma sum_filter_le:
  assumes "\<forall>x \<in> set xs. 0 \<le> f x"
  shows "0 \<le> sum_list (map f (filter P xs)) \<and> sum_list (map f (filter P xs)) \<le> (sum_list (map f xs) :: int)"
  using assms by (induction xs) auto

lemma present_bytes_bounds:
  assumes "entry_ok e"
  shows "0 \<le> present_bytes e" and "present_bytes e \<le> e_size e"
  using sum_filter_le [of "[0..<blocks e]" "block_length e" "\<lambda>i. e_present e ! i"]
    block_length_pos [OF assms] sum_all_blocks [OF assms]
  by (force simp: present_bytes_def)+

lemma charged_nonneg: "entry_ok e \<Longrightarrow> 0 \<le> charged_bytes e"
  using present_bytes_bounds by (auto simp: charged_bytes_def entry_ok_def)

lemma present_bytes_complete:
  assumes "entry_ok e" and "list_all id (e_present e)"
  shows "present_bytes e = e_size e"
proof -
  have "filter (\<lambda>i. e_present e ! i) [0..<blocks e] = [0..<blocks e]"
    using assms(2) by (intro filter_True) (simp add: list_all_length blocks_def)
  then show ?thesis by (simp add: present_bytes_def sum_all_blocks [OF assms(1)])
qed

section \<open>Missing runs\<close>

text \<open>
  \<open>runs_cover e i lst rs\<close>: reading the blocks \<open>i..lst\<close> in order alternates between stretches of
  blocks on disk and the runs \<open>rs\<close>, each of which is a maximal stretch \<open>s..t\<close> of missing
  blocks, from the first byte of block \<open>s\<close> to the last of block \<open>t\<close>.
\<close>

definition block_begin :: "cache_entry \<Rightarrow> nat \<Rightarrow> int" where
  "block_begin e i = int i * e_block_size e"

definition block_last :: "cache_entry \<Rightarrow> nat \<Rightarrow> int" where
  "block_last e i = block_begin e i + block_length e i - 1"

definition all_present :: "cache_entry \<Rightarrow> nat \<Rightarrow> nat \<Rightarrow> bool" where
  "all_present e i j \<longleftrightarrow> (\<forall>k. i \<le> k \<and> k < j \<longrightarrow> e_present e ! k)"

definition all_missing :: "cache_entry \<Rightarrow> nat \<Rightarrow> nat \<Rightarrow> bool" where
  "all_missing e i j \<longleftrightarrow> (\<forall>k. i \<le> k \<and> k < j \<longrightarrow> \<not> e_present e ! k)"

inductive runs_cover :: "cache_entry \<Rightarrow> nat \<Rightarrow> nat \<Rightarrow> (int \<times> int) list \<Rightarrow> bool" for e lst where
  cover_done: "all_present e i (Suc lst) \<Longrightarrow> runs_cover e lst i []"
| cover_run: "i \<le> s \<Longrightarrow> s \<le> t \<Longrightarrow> t \<le> lst \<Longrightarrow> all_present e i s \<Longrightarrow> all_missing e s (Suc t)
    \<Longrightarrow> t < lst \<longrightarrow> e_present e ! Suc t \<Longrightarrow> runs_cover e lst (Suc t) rs
    \<Longrightarrow> runs_cover e lst i ((block_begin e s, block_last e t) # rs)"

lemma cover_extend:
  assumes "runs_cover e lst (Suc i) rs" and "e_present e ! i"
  shows "runs_cover e lst i rs"
proof -
  have "all_present e i j" if "all_present e (Suc i) j" for j
    using that assms(2) by (auto simp: all_present_def) (metis Suc_leI le_neq_implies_less)
  with assms(1) show ?thesis
    by (cases rule: runs_cover.cases) (auto intro: runs_cover.intros)
qed

lemma runs_loop_cover:
  assumes "i \<le> Suc lst"
  shows "runs_cover e lst i (runs_loop e lst [i..<Suc (Suc lst)] None)
    \<and> (\<forall>s. s < i \<and> all_missing e s i \<longrightarrow>
        (\<exists>t rs. runs_loop e lst [i..<Suc (Suc lst)] (Some s) = (block_begin e s, block_last e t) # rs
           \<and> i \<le> Suc t \<and> t \<le> lst \<and> all_missing e s (Suc t) \<and> (t < lst \<longrightarrow> e_present e ! Suc t)
           \<and> runs_cover e lst (Suc t) rs))"
  using assms
proof (induction "Suc lst - i" arbitrary: i)
  case 0
  then have i: "i = Suc lst" by simp
  have "(int (Suc lst) - 1) * e_block_size e + block_length e (Suc lst - 1) - 1 = block_last e lst"
    by (simp add: block_last_def block_begin_def)
  then have "runs_loop e lst [i..<Suc (Suc lst)] (Some s) = [(block_begin e s, block_last e lst)]" for s
    by (simp add: i block_begin_def)
  moreover have cover: "runs_cover e lst (Suc lst) []"
    by (rule runs_cover.cover_done) (auto simp: all_present_def)
  moreover have "runs_loop e lst [i..<Suc (Suc lst)] None = []" by (simp add: i)
  ultimately show ?case by (auto simp: i simp del: upt_Suc)
next
  case (Suc n)
  then have i: "i \<le> lst" and n: "n = Suc lst - Suc i" by simp_all
  have upt: "[i..<Suc (Suc lst)] = i # [Suc i..<Suc (Suc lst)]" using i by (simp add: upt_conv_Cons)
  note IH = Suc.hyps(1) [OF n Suc_le_mono [THEN iffD2, OF i]]
  show ?case
  proof (cases "e_present e ! i")
    case True
    have "runs_loop e lst [i..<Suc (Suc lst)] None = runs_loop e lst [Suc i..<Suc (Suc lst)] None"
      using True by (simp add: upt del: upt_Suc)
    moreover have "runs_loop e lst [i..<Suc (Suc lst)] (Some s)
        = (block_begin e s, block_last e (i - 1)) # runs_loop e lst [Suc i..<Suc (Suc lst)] None"
      if "s < i" for s
    proof -
      have "(int i - 1) * e_block_size e = block_begin e (i - 1)"
        using that by (simp add: block_begin_def)
      then show ?thesis
        using True unfolding upt block_last_def block_begin_def by simp
    qed
    moreover have "runs_cover e lst i (runs_loop e lst [Suc i..<Suc (Suc lst)] None)"
      using IH True cover_extend by blast
    ultimately show ?thesis
      using True i by (auto simp del: upt_Suc intro!: exI [of _ "i - 1"])
  next
    case False
    have none: "runs_loop e lst [i..<Suc (Suc lst)] None = runs_loop e lst [Suc i..<Suc (Suc lst)] (Some i)"
      and some: "\<And>s. runs_loop e lst [i..<Suc (Suc lst)] (Some s)
        = runs_loop e lst [Suc i..<Suc (Suc lst)] (Some s)"
      using False i by (simp_all add: upt del: upt_Suc)
    have "all_missing e i (Suc i)" using False by (auto simp: all_missing_def less_Suc_eq)
    then obtain t rs where t: "runs_loop e lst [Suc i..<Suc (Suc lst)] (Some i)
        = (block_begin e i, block_last e t) # rs" "i \<le> t" "t \<le> lst" "all_missing e i (Suc t)"
      "t < lst \<longrightarrow> e_present e ! Suc t" "runs_cover e lst (Suc t) rs"
      using IH by (auto simp del: upt_Suc)
    have "all_present e i i" by (auto simp: all_present_def)
    then have "runs_cover e lst i (runs_loop e lst [i..<Suc (Suc lst)] None)"
      unfolding none t(1) using t by (intro runs_cover.cover_run) auto
    moreover have "all_missing e s (Suc i)" if "all_missing e s i" for s
      using that False by (auto simp: all_missing_def less_Suc_eq)
    ultimately show ?thesis
      using IH unfolding some by (metis Suc_leD less_SucI)
  qed
qed

text \<open>\<open>missing_runs\<close> of a range inside the version cuts the blocks the range touches into
  those on disk and maximal runs of missing ones, in order: the runs are exactly the missing
  blocks, widened to whole blocks.\<close>

lemma missing_runs_cover:
  assumes "0 < e_size e" and "0 \<le> b" and "b \<le> x" and "x < e_size e" and "0 < e_block_size e"
  shows "runs_cover e (nat (x div e_block_size e)) (nat (b div e_block_size e)) (missing_runs e b x)"
proof -
  have "b div e_block_size e \<le> x div e_block_size e" using assms by (simp add: zdiv_mono1)
  then have "nat (b div e_block_size e) \<le> Suc (nat (x div e_block_size e))" by simp
  moreover have "min x (e_size e - 1) = x" using assms by simp
  ultimately show ?thesis
    using runs_loop_cover [of "nat (b div e_block_size e)" "nat (x div e_block_size e)" e] assms(1)
    by (simp add: missing_runs_def Let_def del: upt_Suc)
qed

definition example_entry :: cache_entry where
  "example_entry = \<lparr>e_fs = ''fs'', e_size = 10, e_block_size = 4, e_present = [True, False, False],
     e_last_access = 0, e_pins = 0, e_writing = False, e_inflight = 0, e_pinned_at = 0,
     e_token = 0, e_data = replicate 10 7\<rparr>"

end
