(* ===== verification/LocalCache.thy ===== *)
theory LocalCache
  imports CacheEntry Prelude
begin

text \<open>
  The local cache on the data volume (\<open>LocalCache\<close>, \<open>StagingWriter\<close> and \<open>CacheConfig\<close>;
  \<open>src/tgdcfs/core/local_cache.py\<close>, \<open>src/tgdcfs/config.py\<close>): admission, the budget and eviction,
  staging, read-cache fills, pins and the sweep. A disk operation that may fail takes its
  outcome as an argument; \<open>df\<close> is the free space on the disk as a function of what the cache
  holds (\<open>None\<close> when it is unknown). A fill suspends while its bytes go to disk, so
  \<open>write_blocks\<close> is two steps, and the interleaving of all operations is a transition system
  whose invariant is the budget.
\<close>

section \<open>Configuration\<close>

record cache_config =
  cc_enabled :: bool
  cc_max_size_mb :: int
  cc_max_files :: int
  cc_max_file_size_mb :: int
  cc_block_kb :: int
  cc_stage_uploads :: bool
  cc_keep_for_reads :: bool
  cc_min_free_mb :: int
  cc_max_age_hours :: int
  cc_target_fill_percent :: int

definition max_size_bytes :: "cache_config \<Rightarrow> int" where
  "max_size_bytes cfg = cc_max_size_mb cfg * 1024 * 1024"

definition max_file_size_bytes :: "cache_config \<Rightarrow> int" where
  "max_file_size_bytes cfg = cc_max_file_size_mb cfg * 1024 * 1024"

definition min_free_bytes :: "cache_config \<Rightarrow> int" where
  "min_free_bytes cfg = cc_min_free_mb cfg * 1024 * 1024"

definition block_bytes :: "cache_config \<Rightarrow> int" where
  "block_bytes cfg = cc_block_kb cfg * 1024"

definition max_age_seconds :: "cache_config \<Rightarrow> int" where
  "max_age_seconds cfg = cc_max_age_hours cfg * 3600"

definition target_bytes :: "cache_config \<Rightarrow> int option" where
  "target_bytes cfg =
     (if cc_max_size_mb cfg = 0 \<or> 100 \<le> cc_target_fill_percent cfg then None
      else Some (max_size_bytes cfg * cc_target_fill_percent cfg div 100))"

section \<open>State\<close>

record lcache =
  c_config :: cache_config
  c_entries :: "(string, cache_entry) dict"
  c_hits :: int
  c_misses :: int
  c_last_sweep :: "int option"
  c_next_token :: nat

type_synonym disk_free = "(string, cache_entry) dict \<Rightarrow> int option"

record writer =
  w_version_id :: string
  w_token :: nat
  w_size :: int
  w_block_size :: int
  w_offset :: int
  w_fd :: "nat option"
  w_failed :: bool

record fill =
  f_version_id :: string
  f_token :: nat
  f_begin :: int
  f_data :: bytes
  f_blocks :: "nat list"
  f_added :: int

definition used_bytes :: "lcache \<Rightarrow> int" where
  "used_bytes c = sum_list (map (charged_bytes \<circ> snd) (c_entries c))"

definition entry :: "lcache \<Rightarrow> string \<Rightarrow> cache_entry option" where
  "entry c vid = map_of (c_entries c) vid"

definition complete :: "lcache \<Rightarrow> string \<Rightarrow> bool" where
  "complete c vid = (case entry c vid of
     None \<Rightarrow> False | Some e \<Rightarrow> \<not> e_writing e \<and> is_complete e)"

definition cache_has_range :: "lcache \<Rightarrow> string \<Rightarrow> int \<Rightarrow> int \<Rightarrow> bool" where
  "cache_has_range c vid b0 e0 = (case entry c vid of None \<Rightarrow> False | Some e \<Rightarrow> has_range e b0 e0)"

section \<open>The budget\<close>

text \<open>
  \<open>_lru_order\<close>, in the order in which its users pop the victims: the code sorts by last access
  in reverse, which keeps the order of equal ones, and pops from the end.
\<close>

definition lru_order :: "string option \<Rightarrow> lcache \<Rightarrow> (string \<times> cache_entry) list" where
  "lru_order keep c =
     sort_key (\<lambda>(k, e). e_last_access e)
       (rev (filter (\<lambda>(k, e). evictable e \<and> Some k \<noteq> keep) (c_entries c)))"

definition drop_entry :: "string \<Rightarrow> lcache \<Rightarrow> lcache" where
  "drop_entry vid c = c\<lparr>c_entries := AList.delete vid (c_entries c)\<rparr>"

definition fits :: "cache_config \<Rightarrow> int \<Rightarrow> bool" where
  "fits cfg sz \<longleftrightarrow> \<not> (max_file_size_bytes cfg \<noteq> 0 \<and> max_file_size_bytes cfg < sz)"

definition over_bytes :: "lcache \<Rightarrow> int \<Rightarrow> int \<Rightarrow> bool" where
  "over_bytes c used sz \<longleftrightarrow> max_size_bytes (c_config c) \<noteq> 0 \<and> max_size_bytes (c_config c) < used + sz"

definition over_files :: "lcache \<Rightarrow> bool \<Rightarrow> bool" where
  "over_files c new_entry \<longleftrightarrow> new_entry \<and> cc_max_files (c_config c) \<noteq> 0
     \<and> cc_max_files (c_config c) < int (length (c_entries c)) + 1"

definition over_disk :: "disk_free \<Rightarrow> lcache \<Rightarrow> int \<Rightarrow> bool" where
  "over_disk df c sz \<longleftrightarrow> min_free_bytes (c_config c) \<noteq> 0
     \<and> (case df (c_entries c) of None \<Rightarrow> False | Some free \<Rightarrow> free - sz < min_free_bytes (c_config c))"

text \<open>
  \<open>_make_room\<close>: \<open>True\<close> is the code's \<open>None\<close> (the bytes fit), \<open>False\<close> the reason why they cannot.
\<close>

fun make_room_loop ::
    "disk_free \<Rightarrow> int \<Rightarrow> bool \<Rightarrow> int \<Rightarrow> (string \<times> cache_entry) list \<Rightarrow> lcache \<Rightarrow> lcache \<times> bool" where
  "make_room_loop df sz new_entry used victims c =
     (if \<not> over_bytes c used sz \<and> \<not> over_files c new_entry \<and> \<not> over_disk df c sz then (c, True)
      else (case victims of
              [] \<Rightarrow> (c, False)
            | (k, e) # vs \<Rightarrow>
                make_room_loop df sz new_entry (used - charged_bytes e) vs (drop_entry k c)))"

declare make_room_loop.simps [simp del]

definition make_room :: "disk_free \<Rightarrow> int \<Rightarrow> bool \<Rightarrow> string option \<Rightarrow> lcache \<Rightarrow> lcache \<times> bool" where
  "make_room df sz new_entry keep c =
     make_room_loop df sz new_entry (used_bytes c) (lru_order keep c) c"

section \<open>Entries\<close>

definition remove :: "string \<Rightarrow> lcache \<Rightarrow> lcache" where
  "remove vid c = drop_entry vid c"

definition remove_many :: "string list \<Rightarrow> lcache \<Rightarrow> lcache" where
  "remove_many vids c = fold drop_entry vids c"

definition new_entry :: "lcache \<Rightarrow> string \<Rightarrow> int \<Rightarrow> int \<Rightarrow> bool \<Rightarrow> cache_entry" where
  "new_entry c fs sz now writing =
     \<lparr>e_fs = fs, e_size = sz, e_block_size = block_bytes (c_config c),
      e_present = replicate (blocks_for sz (block_bytes (c_config c))) False,
      e_last_access = now, e_pins = 0, e_writing = writing, e_inflight = 0, e_pinned_at = 0,
      e_token = c_next_token c, e_data = replicate (nat sz) 0\<rparr>"

definition add_entry :: "string \<Rightarrow> cache_entry \<Rightarrow> lcache \<Rightarrow> lcache" where
  "add_entry vid e c =
     c\<lparr>c_entries := AList.update vid e (c_entries c), c_next_token := Suc (c_next_token c)\<rparr>"

text \<open>\<open>open_staging\<close>; \<open>disk_ok\<close> is whether \<open>_create_files\<close> succeeds.\<close>

definition open_staging ::
    "disk_free \<Rightarrow> bool \<Rightarrow> string \<Rightarrow> string \<Rightarrow> int \<Rightarrow> int \<Rightarrow> lcache \<Rightarrow> lcache \<times> writer option" where
  "open_staging df disk_ok fs vid sz now c =
     (if \<not> cc_enabled (c_config c) \<or> sz < 0 then (c, None)
      else let c1 = (if dict_has (c_entries c) vid then remove vid c else c) in
        if \<not> fits (c_config c1) sz then (c1, None)
        else (case make_room df sz True None c1 of
            (c2, False) \<Rightarrow> (c2, None)
          | (c2, True) \<Rightarrow>
              let e = new_entry c2 fs sz now True in
              if \<not> disk_ok then (c2, None)
              else (add_entry vid e c2,
                    Some \<lparr>w_version_id = vid, w_token = e_token e, w_size = sz,
                          w_block_size = e_block_size e, w_offset = 0, w_fd = None,
                          w_failed = False\<rparr>)))"

definition reserve ::
    "disk_free \<Rightarrow> bool \<Rightarrow> string \<Rightarrow> string \<Rightarrow> int \<Rightarrow> int \<Rightarrow> lcache \<Rightarrow> lcache \<times> cache_entry option" where
  "reserve df disk_ok fs vid sz now c =
     (if \<not> cc_enabled (c_config c) \<or> sz < 0 then (c, None)
      else let c1 = (if dict_has (c_entries c) vid then remove vid c else c) in
        (case make_room df 0 True None c1 of
            (c2, False) \<Rightarrow> (c2, None)
          | (c2, True) \<Rightarrow>
              let e = new_entry c2 fs sz now False in
              if \<not> disk_ok then (c2, None) else (add_entry vid e c2, Some e)))"

text \<open>An update of the entry object with the given identity, if it is still in the cache.\<close>

definition on_entry :: "string \<Rightarrow> nat \<Rightarrow> (cache_entry \<Rightarrow> cache_entry) \<Rightarrow> lcache \<Rightarrow> lcache" where
  "on_entry vid tok f c = (case map_of (c_entries c) vid of
     Some e \<Rightarrow> if e_token e = tok then c\<lparr>c_entries := AList.update vid (f e) (c_entries c)\<rparr> else c
   | None \<Rightarrow> c)"

definition set_present :: "nat list \<Rightarrow> cache_entry \<Rightarrow> cache_entry" where
  "set_present bs e = e\<lparr>e_present := fold (\<lambda>i p. p[i := True]) bs (e_present e)\<rparr>"

definition mark_present :: "string \<Rightarrow> nat \<Rightarrow> nat list \<Rightarrow> lcache \<Rightarrow> lcache" where
  "mark_present vid tok bs c = on_entry vid tok (set_present bs) c"

text \<open>\<open>os.pwrite\<close> of all of \<open>data\<close> at \<open>off\<close>; a gap is filled with zeros.\<close>

definition pwrite :: "int \<Rightarrow> bytes \<Rightarrow> bytes \<Rightarrow> bytes" where
  "pwrite off data file =
     take (nat off) (file @ replicate (nat off - length file) 0) @ data
       @ drop (nat off + length data) file"

section \<open>The staging writer\<close>

definition writer_finish :: "writer \<Rightarrow> lcache \<Rightarrow> writer \<times> lcache" where
  "writer_finish w c =
     (w\<lparr>w_fd := None\<rparr>, on_entry (w_version_id w) (w_token w) (\<lambda>e. e\<lparr>e_writing := False\<rparr>) c)"

definition writer_abort :: "writer \<Rightarrow> lcache \<Rightarrow> writer \<times> lcache" where
  "writer_abort w c =
     (w\<lparr>w_failed := True, w_fd := None\<rparr>,
      remove (w_version_id w)
        (on_entry (w_version_id w) (w_token w) (\<lambda>e. e\<lparr>e_writing := False\<rparr>) c))"

text \<open>
  \<open>write\<close>: the file is opened on first use, which fails when the entry (with its file) is
  gone; \<open>disk_ok\<close> is whether the bytes reach the disk.
\<close>

definition writer_write :: "bool \<Rightarrow> bytes \<Rightarrow> writer \<Rightarrow> lcache \<Rightarrow> writer \<times> lcache" where
  "writer_write disk_ok data w c =
     (if w_failed w \<or> data = [] then (w, c)
      else
        let fd = (case w_fd w of Some t \<Rightarrow> Some t
                  | None \<Rightarrow> map_option e_token (entry c (w_version_id w)))
        in (case fd of
              None \<Rightarrow> writer_abort w c
            | Some t \<Rightarrow>
                if \<not> disk_ok then writer_abort w c
                else
                  let c1 = on_entry (w_version_id w) t
                             (\<lambda>e. e\<lparr>e_data := pwrite (w_offset w) data (e_data e)\<rparr>) c;
                      off = w_offset w + int (length data);
                      w1 = w\<lparr>w_offset := off, w_fd := Some t\<rparr>;
                      blocks_done = (if w_size w \<le> off then blocks_for (w_size w) (w_block_size w)
                                     else nat (off div w_block_size w));
                      c2 = mark_present (w_version_id w) (w_token w) [0..<blocks_done] c1
                  in if w_size w \<le> off then writer_finish w1 c2 else (w1, c2)))"

definition writer_close :: "writer \<Rightarrow> lcache \<Rightarrow> writer \<times> lcache" where
  "writer_close w c =
     (if w_failed w then (w, c)
      else if w_size w \<le> w_offset w then (if w_fd w \<noteq> None then writer_finish w c else (w, c))
      else writer_abort w c)"

section \<open>Read-cache fills\<close>

definition write_blocks_begin ::
    "disk_free \<Rightarrow> string \<Rightarrow> int \<Rightarrow> bytes \<Rightarrow> lcache \<Rightarrow> lcache \<times> fill option" where
  "write_blocks_begin df vid b0 data c =
     (case entry c vid of
        None \<Rightarrow> (c, None)
      | Some e \<Rightarrow>
          if e_writing e \<or> data = [] then (c, None)
          else if b0 mod e_block_size e \<noteq> 0 \<or> e_size e < b0 + int (length data) then (c, None)
          else
            let first = nat (b0 div e_block_size e);
                end_offset = b0 + int (length data);
                last_full = (if e_size e \<le> end_offset then blocks e
                             else nat (end_offset div e_block_size e));
                bs = [first..<last_full];
                added = sum_list (map (block_length e) (filter (\<lambda>i. \<not> e_present e ! i) bs))
            in if bs = [] then (c, None)
               else (case (if added \<noteq> 0 then make_room df added False (Some vid) c else (c, True)) of
                   (c1, False) \<Rightarrow> (c1, None)
                 | (c1, True) \<Rightarrow>
                     (on_entry vid (e_token e) (\<lambda>e. e\<lparr>e_inflight := e_inflight e + added\<rparr>) c1,
                      Some \<lparr>f_version_id = vid, f_token = e_token e, f_begin = b0,
                            f_data = data, f_blocks = bs, f_added = added\<rparr>)))"

text \<open>
  The bytes go into the file that is at the version's path now, whatever entry it belongs to;
  with no file the open fails like any other disk error.
\<close>

definition write_blocks_end :: "bool \<Rightarrow> int \<Rightarrow> fill \<Rightarrow> lcache \<Rightarrow> lcache" where
  "write_blocks_end disk_ok now f c =
     (let vid = f_version_id f; tok = f_token f in
      case entry c vid of
        None \<Rightarrow> c
      | Some cur \<Rightarrow>
          if \<not> disk_ok
          then remove vid (on_entry vid tok (\<lambda>e. e\<lparr>e_inflight := e_inflight e - f_added f\<rparr>) c)
          else
            let c1 = on_entry vid (e_token cur)
                       (\<lambda>e. e\<lparr>e_data := pwrite (f_begin f) (f_data f) (e_data e)\<rparr>) c;
                c2 = on_entry vid tok (\<lambda>e. e\<lparr>e_inflight := e_inflight e - f_added f\<rparr>) c1;
                c3 = mark_present vid tok (f_blocks f) c2
            in on_entry vid tok (\<lambda>e. e\<lparr>e_last_access := now\<rparr>) c3)"

section \<open>Pins, removal and the sweep\<close>

definition pin :: "int \<Rightarrow> string \<Rightarrow> lcache \<Rightarrow> lcache" where
  "pin now vid c = (case map_of (c_entries c) vid of
     None \<Rightarrow> c
   | Some e \<Rightarrow> c\<lparr>c_entries := AList.update vid
       (e\<lparr>e_pinned_at := (if e_pins e = 0 then now else e_pinned_at e), e_pins := e_pins e + 1\<rparr>)
       (c_entries c)\<rparr>)"

definition unpin :: "string \<Rightarrow> lcache \<Rightarrow> lcache" where
  "unpin vid c = (case map_of (c_entries c) vid of
     None \<Rightarrow> c
   | Some e \<Rightarrow> c\<lparr>c_entries := AList.update vid (e\<lparr>e_pins := max 0 (e_pins e - 1)\<rparr>) (c_entries c)\<rparr>)"

definition release :: "string \<Rightarrow> lcache \<Rightarrow> lcache" where
  "release vid c = (case map_of (c_entries c) vid of
     None \<Rightarrow> c
   | Some e \<Rightarrow>
       if \<not> cc_keep_for_reads (c_config c) then remove vid c
       else c\<lparr>c_entries := AList.update vid (e\<lparr>e_pins := 0, e_pinned_at := 0\<rparr>) (c_entries c)\<rparr>)"

definition evict_unpinned :: "lcache \<Rightarrow> lcache" where
  "evict_unpinned c = remove_many (map fst (filter (\<lambda>(k, e). evictable e) (c_entries c))) c"

definition STALE_PIN_SECONDS :: int where
  "STALE_PIN_SECONDS = 24 * 3600"

definition release_stale :: "(string \<Rightarrow> bool) option \<Rightarrow> int \<Rightarrow> lcache \<Rightarrow> lcache" where
  "release_stale queue_empty now c =
     fold (\<lambda>(k, e) c.
         if 0 < e_pins e \<and> \<not> e_writing e \<and> STALE_PIN_SECONDS \<le> now - e_pinned_at e
            \<and> (case queue_empty of None \<Rightarrow> True | Some q \<Rightarrow> q (e_fs e))
         then release k c else c)
       (c_entries c) c"

definition expire :: "int \<Rightarrow> lcache \<Rightarrow> lcache" where
  "expire now c =
     (if max_age_seconds (c_config c) = 0 then c
      else fold (\<lambda>(k, e) c.
             if evictable e \<and> max_age_seconds (c_config c) \<le> now - e_last_access e
             then drop_entry k c else c)
           (c_entries c) c)"

fun evict_to_target :: "int \<Rightarrow> int \<Rightarrow> (string \<times> cache_entry) list \<Rightarrow> lcache
    \<Rightarrow> (string \<times> cache_entry) list \<times> lcache" where
  "evict_to_target target used [] c = ([], c)"
| "evict_to_target target used ((k, e) # vs) c =
     (if target < used then evict_to_target target (used - charged_bytes e) vs (drop_entry k c)
      else ((k, e) # vs, c))"

fun evict_for_disk :: "disk_free \<Rightarrow> (string \<times> cache_entry) list \<Rightarrow> lcache \<Rightarrow> lcache" where
  "evict_for_disk df [] c = c"
| "evict_for_disk df ((k, e) # vs) c =
     (if min_free_bytes (c_config c) = 0 then c
      else (case df (c_entries c) of
              None \<Rightarrow> c
            | Some free \<Rightarrow>
                if min_free_bytes (c_config c) \<le> free then c
                else evict_for_disk df vs (drop_entry k c)))"

definition sweep :: "disk_free \<Rightarrow> (string \<Rightarrow> bool) option \<Rightarrow> int \<Rightarrow> lcache \<Rightarrow> lcache" where
  "sweep df queue_empty now c =
     (let c1 = expire now (release_stale queue_empty now c);
          victims = lru_order None c1;
          (vs, c2) = (case target_bytes (c_config c1) of
              None \<Rightarrow> (victims, c1)
            | Some target \<Rightarrow> evict_to_target target (used_bytes c1) victims c1)
      in (evict_for_disk df vs c2)\<lparr>c_last_sweep := Some now\<rparr>)"

end
