(* ===== verification/CacheMachine.thy ===== *)
theory CacheMachine
  imports CacheBudget
begin

text \<open>
  The cache as a transition system: any number of uploads being staged, read-cache fills
  whose bytes are on their way to the disk, pins, removals and sweeps, interleaved in any
  order and with any outcome of the disk operations. The invariant gives the budget.
\<close>

record cmachine =
  m_cache :: lcache
  m_fills :: "fill list"
  m_writers :: "writer list"

definition replace1 :: "'a \<Rightarrow> 'a \<Rightarrow> 'a list \<Rightarrow> 'a list" where
  "replace1 x y xs = y # remove1 x xs"

text \<open>What a step is given from outside: the version that is opened, the bytes that are written.\<close>

datatype cache_label =
    Opens string int
  | Writes writer bytes
  | Fills string int bytes
  | Other

inductive cache_step :: "cache_label \<Rightarrow> cmachine \<Rightarrow> cmachine \<Rightarrow> bool" where
  step_open: "open_staging df ok fs vid sz now (m_cache m) = (c, w) \<Longrightarrow>
    cache_step (Opens vid sz) m (m\<lparr>m_cache := c, m_writers := (case w of None \<Rightarrow> m_writers m | Some x \<Rightarrow> x # m_writers m)\<rparr>)"
| step_write: "w \<in> set (m_writers m) \<Longrightarrow> writer_write ok data w (m_cache m) = (w', c) \<Longrightarrow>
    cache_step (Writes w data) m (m\<lparr>m_cache := c, m_writers := replace1 w w' (m_writers m)\<rparr>)"
| step_close: "w \<in> set (m_writers m) \<Longrightarrow> writer_close w (m_cache m) = (w', c) \<Longrightarrow>
    cache_step Other m (m\<lparr>m_cache := c, m_writers := replace1 w w' (m_writers m)\<rparr>)"
| step_abort: "w \<in> set (m_writers m) \<Longrightarrow> writer_abort w (m_cache m) = (w', c) \<Longrightarrow>
    cache_step Other m (m\<lparr>m_cache := c, m_writers := replace1 w w' (m_writers m)\<rparr>)"
| step_reserve: "reserve df ok fs vid sz now (m_cache m) = (c, e) \<Longrightarrow> cache_step (Opens vid sz) m (m\<lparr>m_cache := c\<rparr>)"
| step_fill: "0 \<le> b \<Longrightarrow> write_blocks_begin df vid b data (m_cache m) = (c, f) \<Longrightarrow>
    cache_step (Fills vid b data) m (m\<lparr>m_cache := c, m_fills := (case f of None \<Rightarrow> m_fills m | Some x \<Rightarrow> x # m_fills m)\<rparr>)"
| step_filled: "f \<in> set (m_fills m) \<Longrightarrow>
    cache_step Other m (m\<lparr>m_cache := write_blocks_end ok now f (m_cache m), m_fills := remove1 f (m_fills m)\<rparr>)"
| step_pin: "cache_step Other m (m\<lparr>m_cache := pin now vid (m_cache m)\<rparr>)"
| step_unpin: "cache_step Other m (m\<lparr>m_cache := unpin vid (m_cache m)\<rparr>)"
| step_release: "cache_step Other m (m\<lparr>m_cache := release vid (m_cache m)\<rparr>)"
| step_remove: "cache_step Other m (m\<lparr>m_cache := remove vid (m_cache m)\<rparr>)"
| step_remove_many: "cache_step Other m (m\<lparr>m_cache := remove_many vids (m_cache m)\<rparr>)"
| step_evict: "cache_step Other m (m\<lparr>m_cache := evict_unpinned (m_cache m)\<rparr>)"
| step_sweep: "cache_step Other m (m\<lparr>m_cache := sweep df q now (m_cache m)\<rparr>)"

definition empty_cache :: "cache_config \<Rightarrow> lcache" where
  "empty_cache cfg = \<lparr>c_config = cfg, c_entries = [], c_hits = 0, c_misses = 0,
     c_last_sweep = None, c_next_token = 0\<rparr>"

inductive cache_reach :: "cache_config \<Rightarrow> cmachine \<Rightarrow> bool" for cfg where
  reach_start: "cache_reach cfg \<lparr>m_cache = empty_cache cfg, m_fills = [], m_writers = []\<rparr>"
| reach_next: "cache_reach cfg m \<Longrightarrow> cache_step l m m' \<Longrightarrow> cache_reach cfg m'"

section \<open>The invariant\<close>

definition budget :: "lcache \<Rightarrow> bool" where
  "budget c \<longleftrightarrow>
     (max_size_bytes (c_config c) \<noteq> 0 \<longrightarrow> used_bytes c \<le> max_size_bytes (c_config c))
   \<and> (cc_max_files (c_config c) \<noteq> 0 \<longrightarrow> int (length (c_entries c)) \<le> cc_max_files (c_config c))"

definition cache_ok :: "lcache \<Rightarrow> bool" where
  "cache_ok c \<longleftrightarrow> dict_ok (c_entries c) \<and> 0 < block_bytes (c_config c)
     \<and> (\<forall>(k, e) \<in> set (c_entries c). entry_ok e \<and> (e_writing e \<longrightarrow> e_inflight e = 0)
          \<and> e_token e < c_next_token c)"

definition fills :: "string \<Rightarrow> cache_entry \<Rightarrow> fill \<Rightarrow> bool" where
  "fills k e f \<longleftrightarrow> f_version_id f = k \<and> f_token f = e_token e"

definition claims :: "cache_entry \<Rightarrow> fill \<Rightarrow> bool" where
  "claims e f \<longleftrightarrow> \<not> e_writing e \<and> set (f_blocks f) \<subseteq> {..<blocks e} \<and> distinct (f_blocks f)
     \<and> sum_list (map (block_length e) (filter (\<lambda>i. \<not> e_present e ! i) (f_blocks f))) \<le> f_added f
     \<and> 0 \<le> f_begin f \<and> f_begin f + int (length (f_data f)) \<le> e_size e"

definition fills_ok :: "fill list \<Rightarrow> lcache \<Rightarrow> bool" where
  "fills_ok fs c \<longleftrightarrow> (\<forall>f \<in> set fs. f_token f < c_next_token c \<and> 0 \<le> f_added f \<and> 0 \<le> f_begin f)
     \<and> (\<forall>(k, e) \<in> set (c_entries c). e_inflight e = sum_list (map f_added (filter (fills k e) fs))
          \<and> (\<forall>f \<in> set fs. fills k e f \<longrightarrow> claims e f))"

definition writer_ok :: "writer \<Rightarrow> lcache \<Rightarrow> bool" where
  "writer_ok w c \<longleftrightarrow> 0 \<le> w_offset w \<and> w_token w < c_next_token c
     \<and> (\<not> w_failed w \<and> w_fd w \<noteq> None \<longrightarrow> w_offset w < w_size w)
     \<and> (\<forall>(k, e) \<in> set (c_entries c). k = w_version_id w \<and> e_token e = w_token w
          \<longrightarrow> e_size e = w_size w \<and> e_block_size e = w_block_size w
            \<and> (\<not> e_writing e \<longrightarrow> (\<forall>i < blocks e. e_present e ! i)))"

definition cache_inv :: "cmachine \<Rightarrow> bool" where
  "cache_inv m \<longleftrightarrow> cache_ok (m_cache m) \<and> budget (m_cache m) \<and> fills_ok (m_fills m) (m_cache m)
     \<and> (\<forall>w \<in> set (m_writers m). writer_ok w (m_cache m))"

section \<open>Updating one entry\<close>

text \<open>An update that charges no more, forgets no block and leaves the claims alone.\<close>

definition entry_mono :: "cache_entry \<Rightarrow> cache_entry \<Rightarrow> bool" where
  "entry_mono e e' \<longleftrightarrow> entry_ok e' \<and> e_size e' = e_size e \<and> e_block_size e' = e_block_size e
     \<and> e_token e' = e_token e \<and> e_inflight e' = e_inflight e
     \<and> length (e_present e') = length (e_present e)
     \<and> (\<forall>i < blocks e. e_present e ! i \<longrightarrow> e_present e' ! i)
     \<and> charged_bytes e' \<le> charged_bytes e \<and> (e_writing e' \<longrightarrow> e_writing e)
     \<and> (e_writing e \<longrightarrow> e_writing e' \<or> (\<forall>i < blocks e. e_present e' ! i))"

lemma set_dict_update:
  assumes "dict_ok d" and "(j, w) \<in> set (AList.update k v d)"
  shows "(j = k \<and> w = v) \<or> (j \<noteq> k \<and> (j, w) \<in> set d)"
proof -
  have "dict_ok (AList.update k v d)" using assms(1) by simp
  then have "map_of (AList.update k v d) j = Some w" using assms(2) by (simp add: dict_ok_def)
  then show ?thesis by (auto simp: update_conv' split: if_splits dest: map_of_SomeD)
qed

lemma length_update_same: "map_of d k \<noteq> None \<Longrightarrow> length (AList.update k v d) = length d"
  by (induction d) auto

lemma block_length_cong:
  "e_size e' = e_size e \<Longrightarrow> e_block_size e' = e_block_size e \<Longrightarrow> length (e_present e') = length (e_present e)
    \<Longrightarrow> block_length e' = block_length e"
  by (simp add: block_length_def blocks_def fun_eq_iff)

lemma sum_filter_mono:
  assumes "\<And>x. x \<in> set xs \<Longrightarrow> P x \<Longrightarrow> Q x" and "\<And>x. x \<in> set xs \<Longrightarrow> 0 \<le> (f x :: int)"
  shows "sum_list (map f (filter P xs)) \<le> sum_list (map f (filter Q xs))"
  using assms by (induction xs) (auto intro: add_increasing)

lemma claims_mono:
  assumes "entry_ok e" and "entry_mono e e'" and "claims e f"
  shows "claims e' f"
proof -
  have len: "length (e_present e') = length (e_present e)"
    "e_size e' = e_size e" "e_block_size e' = e_block_size e"
    using assms(2) by (simp_all add: entry_mono_def)
  then have bl: "block_length e' = block_length e" by (intro block_length_cong)
  have sub: "set (f_blocks f) \<subseteq> {..<blocks e}" using assms(3) by (simp add: claims_def)
  have "sum_list (map (block_length e) (filter (\<lambda>i. \<not> e_present e' ! i) (f_blocks f)))
      \<le> sum_list (map (block_length e) (filter (\<lambda>i. \<not> e_present e ! i) (f_blocks f)))"
  proof (rule sum_filter_mono)
    fix i assume i: "i \<in> set (f_blocks f)"
    then have "i < blocks e" using sub by auto
    then show "0 \<le> block_length e i" using block_length_pos(1) [OF assms(1)] by (simp add: less_imp_le)
    assume "\<not> e_present e' ! i"
    then show "\<not> e_present e ! i" using assms(2) \<open>i < blocks e\<close> by (auto simp: entry_mono_def)
  qed
  then show ?thesis
    using assms(2,3) len by (auto simp: claims_def entry_mono_def bl blocks_def)
qed

lemma update_used:
  assumes "dict_ok (c_entries c)" and "map_of (c_entries c) k = Some e"
  shows "used_bytes (c\<lparr>c_entries := AList.update k e' (c_entries c)\<rparr>)
    = used_bytes c + charged_bytes e' - charged_bytes e"
  using entry_sum_update [OF assms(1), of charged_bytes k e'] assms(2) by (simp add: used_bytes_sum)

lemma cache_inv_update:
  assumes inv: "cache_inv m" and e: "map_of (c_entries (m_cache m)) k = Some e" and "entry_mono e e'"
  shows "cache_inv (m\<lparr>m_cache := (m_cache m)\<lparr>c_entries := AList.update k e' (c_entries (m_cache m))\<rparr>\<rparr>)"
proof -
  let ?c = "m_cache m"
  let ?c' = "?c\<lparr>c_entries := AList.update k e' (c_entries ?c)\<rparr>"
  have ok: "dict_ok (c_entries ?c)" using inv by (simp add: cache_inv_def cache_ok_def)
  have mem: "(k, e) \<in> set (c_entries ?c)" using e by (rule map_of_SomeD)
  then have e_ok: "entry_ok e" "e_writing e \<longrightarrow> e_inflight e = 0" "e_token e < c_next_token ?c"
    using inv by (auto simp: cache_inv_def cache_ok_def)
  note cases = set_dict_update [OF ok]
  have "cache_ok ?c'"
    using inv assms(3) e_ok ok cases by (fastforce simp: cache_inv_def cache_ok_def entry_mono_def)
  moreover have "budget ?c'"
    using inv assms(3) e update_used [OF ok e, of e']
    by (auto simp: cache_inv_def budget_def entry_mono_def length_update_same)
  moreover have "fills_ok (m_fills m) ?c'"
  proof -
    have tok: "fills k e' = fills k e" using assms(3) by (auto simp: fills_def entry_mono_def fun_eq_iff)
    have old: "e_inflight e = sum_list (map f_added (filter (fills k e) (m_fills m)))"
      "\<forall>f \<in> set (m_fills m). fills k e f \<longrightarrow> claims e f"
      using inv mem by (auto simp: cache_inv_def fills_ok_def)
    have "e_inflight e' = sum_list (map f_added (filter (fills k e') (m_fills m)))"
      "\<forall>f \<in> set (m_fills m). fills k e' f \<longrightarrow> claims e' f"
      using old assms(3) claims_mono [OF e_ok(1) assms(3)] by (auto simp: tok entry_mono_def)
    then show ?thesis
      using inv by (auto simp: cache_inv_def fills_ok_def dest!: cases)
  qed
  moreover have "writer_ok w ?c'" if "w \<in> set (m_writers m)" for w
  proof -
    have w: "writer_ok w ?c" using inv that by (simp add: cache_inv_def)
    have b: "blocks e' = blocks e" using assms(3) by (simp add: entry_mono_def blocks_def)
    have "e_size e' = w_size w \<and> e_block_size e' = w_block_size w
        \<and> (\<not> e_writing e' \<longrightarrow> (\<forall>i < blocks e'. e_present e' ! i))"
      if "k = w_version_id w" "e_token e' = w_token w"
    proof -
      have "e_token e = w_token w" using that(2) assms(3) by (simp add: entry_mono_def)
      then have "e_size e = w_size w" "e_block_size e = w_block_size w"
        "\<not> e_writing e \<longrightarrow> (\<forall>i < blocks e. e_present e ! i)"
        using w mem that(1) by (auto simp: writer_ok_def)
      then show ?thesis using assms(3) unfolding b entry_mono_def by metis
    qed
    with w show ?thesis by (auto simp: writer_ok_def dest!: cases)
  qed
  ultimately show ?thesis by (simp add: cache_inv_def)
qed

lemma cache_inv_on_entry:
  assumes "cache_inv m"
    and "\<And>e. map_of (c_entries (m_cache m)) k = Some e \<Longrightarrow> e_token e = t \<Longrightarrow> entry_ok e \<Longrightarrow> entry_mono e (g e)"
  shows "cache_inv (m\<lparr>m_cache := on_entry k t g (m_cache m)\<rparr>)"
proof -
  have "entry_ok e" if "map_of (c_entries (m_cache m)) k = Some e" for e
    using assms(1) map_of_SomeD [OF that] by (auto simp: cache_inv_def cache_ok_def)
  then show ?thesis
    using assms cache_inv_update [OF assms(1), of k]
    by (auto simp: on_entry_def split: option.split)
qed

lemma cache_inv_on_entry':
  assumes "cache_inv (m\<lparr>m_cache := c\<rparr>)"
    and "\<And>e. map_of (c_entries c) k = Some e \<Longrightarrow> e_token e = t \<Longrightarrow> entry_ok e \<Longrightarrow> entry_mono e (g e)"
  shows "cache_inv (m\<lparr>m_cache := on_entry k t g c\<rparr>)"
  using cache_inv_on_entry [OF assms(1), of k t g] assms(2) by simp

lemma cache_inv_without:
  assumes "cache_inv m"
  shows "cache_inv (m\<lparr>m_cache := without ks (m_cache m)\<rparr>)"
proof -
  have "\<forall>(k, e) \<in> set (c_entries (m_cache m)). 0 \<le> charged_bytes e"
    using assms charged_nonneg by (fastforce simp: cache_inv_def cache_ok_def)
  then have "used_bytes (without ks (m_cache m)) \<le> used_bytes (m_cache m)"
    using entry_sum_filter(1) [of "c_entries (m_cache m)" charged_bytes] by (simp add: used_bytes_sum)
  moreover have "int (length (c_entries (without ks (m_cache m)))) \<le> int (length (c_entries (m_cache m)))"
    by (simp only: without_simps of_nat_le_iff length_filter_le)
  ultimately have "budget (without ks (m_cache m))"
    using assms unfolding cache_inv_def budget_def without_simps by linarith
  moreover have "cache_ok (without ks (m_cache m))"
    using assms by (auto simp: cache_inv_def cache_ok_def dict_ok_def distinct_map_filter)
  ultimately show ?thesis
    using assms by (auto simp: cache_inv_def fills_ok_def writer_ok_def)
qed

lemma without_upd: "m\<lparr>m_cache := c, m_fills := fs\<rparr> = (m\<lparr>m_fills := fs\<rparr>)\<lparr>m_cache := c\<rparr>"
  by simp

lemma remove_without: "remove vid c = without {vid} c"
  by (simp add: remove_def drop_entry_without)

lemma fold_drop_without: "fold drop_entry vids c = without (set vids) c"
proof (induction vids arbitrary: c)
  case (Cons v vids)
  then show ?case by (simp add: drop_entry_without without_without)
qed simp

lemma make_room_without: "dict_ok (c_entries c) \<Longrightarrow> \<exists>ks. fst (make_room df sz ne keep c) = without ks c"
  by (rule make_room_spec [of c keep df sz ne]) auto

lemma set_present_simps [simp]:
  "e_size (set_present bs e) = e_size e" "e_block_size (set_present bs e) = e_block_size e"
  "e_token (set_present bs e) = e_token e" "e_inflight (set_present bs e) = e_inflight e"
  "e_writing (set_present bs e) = e_writing e" "e_data (set_present bs e) = e_data e"
  "e_pins (set_present bs e) = e_pins e"
  by (simp_all add: set_present_def)

lemma length_fold_update: "length (fold (\<lambda>i p. p[i := True]) bs p) = length p"
  by (induction bs arbitrary: p) simp_all

lemma nth_fold_update:
  "i < length p \<Longrightarrow> fold (\<lambda>i p. p[i := True]) bs p ! i = (p ! i \<or> i \<in> set bs)"
proof (induction bs arbitrary: p)
  case (Cons b bs)
  then show ?case by (cases "b = i") simp_all
qed simp

lemma present_set_present:
  "length (e_present (set_present bs e)) = length (e_present e)"
  "blocks (set_present bs e) = blocks e"
  "i < blocks e \<Longrightarrow> e_present (set_present bs e) ! i = (e_present e ! i \<or> i \<in> set bs)"
  by (simp_all add: set_present_def length_fold_update nth_fold_update blocks_def)

lemma entry_ok_set_present [simp]: "entry_ok (set_present bs e) = entry_ok e"
  by (simp add: entry_ok_def present_set_present)

section \<open>The operations keep the invariant\<close>

lemma charged_cong:
  assumes "e_size e' = e_size e" and "e_block_size e' = e_block_size e" and "e_present e' = e_present e"
    and "e_writing e' = e_writing e" and "e_inflight e' = e_inflight e"
  shows "charged_bytes e' = charged_bytes e"
  using block_length_cong [of e' e] assms by (simp add: charged_bytes_def present_bytes_def blocks_def)

lemma entry_mono_same:
  assumes "entry_ok e'" and "e_size e' = e_size e" and "e_block_size e' = e_block_size e"
    and "e_present e' = e_present e" and "e_writing e' = e_writing e" and "e_inflight e' = e_inflight e"
    and "e_token e' = e_token e"
  shows "entry_mono e e'"
  using assms charged_cong [of e' e] by (simp add: entry_mono_def)

lemma entry_mono_access: "entry_ok e \<Longrightarrow> entry_mono e (e\<lparr>e_last_access := now\<rparr>)"
  by (rule entry_mono_same) (simp_all add: entry_ok_def)

lemma entry_mono_pins: "entry_ok e \<Longrightarrow> 0 \<le> n \<Longrightarrow> entry_mono e (e\<lparr>e_pins := n, e_pinned_at := t\<rparr>)"
  by (rule entry_mono_same) (simp_all add: entry_ok_def)

lemma entry_mono_unpin: "entry_ok e \<Longrightarrow> 0 \<le> n \<Longrightarrow> entry_mono e (e\<lparr>e_pins := n\<rparr>)"
  by (rule entry_mono_same) (simp_all add: entry_ok_def)

lemma length_pwrite: "length file \<le> length (pwrite off data file)"
  by (auto simp: pwrite_def min_def)

lemma entry_mono_data: "entry_ok e \<Longrightarrow> entry_mono e (e\<lparr>e_data := pwrite off data (e_data e)\<rparr>)"
  using length_pwrite [of "e_data e" off data] by (intro entry_mono_same) (auto simp: entry_ok_def)

lemma entry_mono_present_writing:
  assumes "entry_ok e" and "e_writing e"
  shows "entry_mono e (set_present bs e)"
  using assms by (simp add: entry_mono_def charged_bytes_def present_set_present)

lemma cache_inv_entries:
  "cache_inv m \<Longrightarrow> dict_ok (c_entries (m_cache m))"
  "cache_inv m \<Longrightarrow> map_of (c_entries (m_cache m)) k = Some e \<Longrightarrow> entry_ok e"
  by (auto simp: cache_inv_def cache_ok_def dest: map_of_SomeD)

lemma cache_inv_pin: "cache_inv m \<Longrightarrow> cache_inv (m\<lparr>m_cache := pin now vid (m_cache m)\<rparr>)"
proof -
  assume inv: "cache_inv m"
  have "entry_mono e (e\<lparr>e_pinned_at := t, e_pins := e_pins e + 1\<rparr>)" if "entry_ok e" for e t
    using that by (intro entry_mono_same) (simp_all add: entry_ok_def)
  then show ?thesis
    using cache_inv_update [OF inv] cache_inv_entries(2) [OF inv] inv
    by (auto simp: pin_def split: option.split)
qed

lemma cache_inv_unpin: "cache_inv m \<Longrightarrow> cache_inv (m\<lparr>m_cache := unpin vid (m_cache m)\<rparr>)"
  using cache_inv_update [of m vid] cache_inv_entries(2) [of m vid]
  by (auto simp: unpin_def entry_mono_unpin split: option.split)

lemma cache_inv_release: "cache_inv m \<Longrightarrow> cache_inv (m\<lparr>m_cache := release vid (m_cache m)\<rparr>)"
  using cache_inv_update [of m vid] cache_inv_entries(2) [of m vid] cache_inv_without [of m "{vid}"]
  by (auto simp: release_def entry_mono_pins remove_without split: option.split)

lemma cache_inv_fold:
  assumes "cache_inv m" and "\<And>m x. cache_inv m \<Longrightarrow> cache_inv (m\<lparr>m_cache := g x (m_cache m)\<rparr>)"
  shows "cache_inv (m\<lparr>m_cache := fold g xs (m_cache m)\<rparr>)"
  using assms(1)
proof (induction xs arbitrary: m)
  case (Cons x xs)
  show ?case using Cons.IH [OF assms(2) [OF Cons.prems, of x]] by simp
qed simp

lemma evict_to_target_without: "\<exists>ks. snd (evict_to_target target used vs c) = without ks c"
proof (induction vs arbitrary: used c)
  case Nil
  show ?case by (auto intro: exI [of _ "{}"])
next
  case (Cons v vs)
  obtain k e where v: "v = (k, e)" by (cases v)
  obtain ks where "snd (evict_to_target target (used - charged_bytes e) vs (drop_entry k c))
      = without ks (drop_entry k c)" using Cons.IH by blast
  then show ?case
    by (auto simp: v drop_entry_without without_without intro: exI [of _ "{}"])
qed

lemma evict_for_disk_without: "\<exists>ks. evict_for_disk df vs c = without ks c"
proof (induction vs arbitrary: c)
  case Nil
  show ?case by (auto intro: exI [of _ "{}"])
next
  case (Cons v vs)
  obtain k e where v: "v = (k, e)" by (cases v)
  obtain ks where "evict_for_disk df vs (drop_entry k c) = without ks (drop_entry k c)"
    using Cons.IH by blast
  then have "\<exists>ks. evict_for_disk df vs (drop_entry k c) = without ks c"
    by (auto simp: drop_entry_without without_without)
  moreover have "\<exists>ks. c = without ks c" by (rule exI [of _ "{}"]) simp
  ultimately show ?case by (auto simp: v split: option.split)
qed

lemma cache_inv_sweep: "cache_inv m \<Longrightarrow> cache_inv (m\<lparr>m_cache := sweep df q now (m_cache m)\<rparr>)"
proof -
  assume inv: "cache_inv m"
  let ?g = "\<lambda>(k, e) c. if 0 < e_pins e \<and> \<not> e_writing e \<and> STALE_PIN_SECONDS \<le> now - e_pinned_at e
            \<and> (case q of None \<Rightarrow> True | Some p \<Rightarrow> p (e_fs e)) then release k c else c"
  let ?h = "\<lambda>(k, e) c. if evictable e \<and> max_age_seconds (c_config c) \<le> now - e_last_access e
             then drop_entry k c else c"
  let ?m1 = "m\<lparr>m_cache := release_stale q now (m_cache m)\<rparr>"
  have inv1: "cache_inv ?m1"
    unfolding release_stale_def by (rule cache_inv_fold [OF inv]) (auto simp: cache_inv_release)
  have drop: "cache_inv m' \<Longrightarrow> cache_inv (m'\<lparr>m_cache := ?h x (m_cache m')\<rparr>)" for m' x
    using cache_inv_without [of m'] by (auto simp: drop_entry_without split: prod.splits)
  let ?m2 = "?m1\<lparr>m_cache := expire now (m_cache ?m1)\<rparr>"
  have inv2: "cache_inv ?m2"
    using cache_inv_fold [OF inv1, of ?h "c_entries (m_cache ?m1)"] drop inv1
    by (simp add: expire_def)
  have last_sweep: "cache_inv (m'\<lparr>m_cache := (m_cache m')\<lparr>c_last_sweep := t\<rparr>\<rparr>)" if "cache_inv m'" for m' t
    using that by (simp add: cache_inv_def cache_ok_def budget_def fills_ok_def writer_ok_def used_bytes_def)
  have without: "cache_inv (?m2\<lparr>m_cache := (without ks (m_cache ?m2))\<lparr>c_last_sweep := t\<rparr>\<rparr>)" for ks t
    using last_sweep [OF cache_inv_without [OF inv2, of ks], of t] by simp
  have "\<exists>ks. sweep df q now (m_cache m) = (without ks (m_cache ?m2))\<lparr>c_last_sweep := Some now\<rparr>"
  proof (cases "target_bytes (c_config (m_cache ?m2))")
    case None
    then show ?thesis
      using evict_for_disk_without [of df "lru_order None (m_cache ?m2)" "m_cache ?m2"]
      by (auto simp: sweep_def Let_def)
  next
    case (Some t)
    let ?r = "evict_to_target t (used_bytes (m_cache ?m2)) (lru_order None (m_cache ?m2)) (m_cache ?m2)"
    obtain ks where "snd ?r = without ks (m_cache ?m2)" using evict_to_target_without by blast
    moreover obtain js where "evict_for_disk df (fst ?r) (snd ?r) = without js (snd ?r)"
      using evict_for_disk_without by blast
    ultimately have "evict_for_disk df (fst ?r) (snd ?r) = without (ks \<union> js) (m_cache ?m2)"
      by (simp add: without_without)
    then show ?thesis using Some by (auto simp: sweep_def Let_def split: prod.split)
  qed
  then obtain ks where ks: "sweep df q now (m_cache m) = (without ks (m_cache ?m2))\<lparr>c_last_sweep := Some now\<rparr>"
    by blast
  show ?thesis unfolding ks using without by simp
qed

section \<open>New entries\<close>

lemma new_entry_simps [simp]:
  "e_size (new_entry c fs sz now wr) = sz" "e_block_size (new_entry c fs sz now wr) = block_bytes (c_config c)"
  "e_token (new_entry c fs sz now wr) = c_next_token c" "e_inflight (new_entry c fs sz now wr) = 0"
  "e_writing (new_entry c fs sz now wr) = wr"
  by (simp_all add: new_entry_def)

lemma new_entry_ok: "0 \<le> sz \<Longrightarrow> 0 < block_bytes (c_config c) \<Longrightarrow> entry_ok (new_entry c fs sz now wr)"
  by (simp add: entry_ok_def new_entry_def)

lemma new_entry_charge: "charged_bytes (new_entry c fs sz now wr) = (if wr then sz else 0)"
proof -
  let ?e = "new_entry c fs sz now wr"
  have "filter (\<lambda>i. e_present ?e ! i) [0..<blocks ?e] = []"
    by (simp add: filter_empty_conv new_entry_def blocks_def)
  then have "present_bytes ?e = 0" by (simp only: present_bytes_def) simp
  then show ?thesis by (cases wr) (simp_all add: charged_bytes_def)
qed

text \<open>The writer a new entry gets, and the machine with both.\<close>

lemma cache_inv_add:
  assumes inv: "cache_inv m" and new: "\<not> dict_has (c_entries (m_cache m)) vid" and sz: "0 \<le> sz"
    and room: "\<not> over_bytes (m_cache m) (used_bytes (m_cache m)) (if wr then sz else 0)"
    and files: "\<not> over_files (m_cache m) True"
    and ws: "\<And>w. w \<in> set ws \<Longrightarrow> w \<in> set (m_writers m)
      \<or> (wr \<and> w_version_id w = vid \<and> w_token w = c_next_token (m_cache m) \<and> w_size w = sz
         \<and> w_block_size w = block_bytes (c_config (m_cache m)) \<and> w_offset w = 0 \<and> w_fd w = None)"
  shows "cache_inv (m\<lparr>m_cache := add_entry vid (new_entry (m_cache m) fs sz now wr) (m_cache m),
    m_writers := ws\<rparr>)"
proof -
  let ?c = "m_cache m"
  let ?e = "new_entry ?c fs sz now wr"
  let ?c' = "add_entry vid ?e ?c"
  have ok: "dict_ok (c_entries ?c)" "0 < block_bytes (c_config ?c)"
    using inv by (simp_all add: cache_inv_def cache_ok_def)
  have none: "map_of (c_entries ?c) vid = None" using new by (simp add: dict_simps)
  have upd: "AList.update vid ?e (c_entries ?c) = c_entries ?c @ [(vid, ?e)]"
    using new by (intro update_new) (simp add: dict_has_def)
  have c': "c_entries ?c' = c_entries ?c @ [(vid, ?e)]" "c_config ?c' = c_config ?c"
    "c_next_token ?c' = Suc (c_next_token ?c)"
    by (simp_all add: add_entry_def upd)
  have fresh: "e_token e < c_next_token ?c" if "(k, e) \<in> set (c_entries ?c)" for k e
    using inv that by (auto simp: cache_inv_def cache_ok_def)
  have "cache_ok ?c'"
    using inv new_entry_ok [OF sz ok(2)] new unfolding cache_inv_def cache_ok_def c'
    by (auto simp: dict_ok_def dict_has_def less_Suc_eq)
  moreover have "budget ?c'"
  proof -
    have "used_bytes ?c' = used_bytes ?c + (if wr then sz else 0)"
      unfolding used_bytes_def c' by (simp add: new_entry_charge)
    then show ?thesis
      using inv room files unfolding cache_inv_def budget_def over_bytes_def over_files_def c' by auto
  qed
  moreover have "fills_ok (m_fills m) ?c'"
  proof -
    have "\<not> fills vid ?e f" if "f \<in> set (m_fills m)" for f
      using inv that by (auto simp: cache_inv_def fills_ok_def fills_def)
    then have "filter (fills vid ?e) (m_fills m) = []" by (simp add: filter_empty_conv)
    with inv show ?thesis
      unfolding cache_inv_def fills_ok_def c' by (auto simp: less_Suc_eq filter_empty_conv)
  qed
  moreover have "writer_ok w ?c'" if "w \<in> set ws" for w
  proof (cases "w \<in> set (m_writers m)")
    case True
    then have "writer_ok w ?c" using inv by (simp add: cache_inv_def)
    then show ?thesis unfolding writer_ok_def c' by (auto simp: less_Suc_eq)
  next
    case False
    with ws [OF that] show ?thesis
      unfolding writer_ok_def c' using fresh by (auto simp: less_Suc_eq dest: less_irrefl_nat fresh)
  qed
  ultimately show ?thesis by (simp add: cache_inv_def)
qed

lemma without_dict_has: "dict_has (c_entries (without ks c)) vid \<Longrightarrow> dict_has (c_entries c) vid \<and> vid \<notin> ks"
  by (auto simp: dict_has_def)

lemma prepare_entry:
  assumes inv: "cache_inv m"
    and c1: "c1 = (if dict_has (c_entries (m_cache m)) vid then remove vid (m_cache m) else m_cache m)"
  shows "cache_inv (m\<lparr>m_cache := c1\<rparr>)" and "\<not> dict_has (c_entries c1) vid"
    and "make_room df sz ne keep c1 = (c2, ok) \<Longrightarrow>
      cache_inv (m\<lparr>m_cache := c2\<rparr>) \<and> \<not> dict_has (c_entries c2) vid \<and> c_config c2 = c_config (m_cache m)
      \<and> (ok \<longrightarrow> \<not> over_bytes c2 (used_bytes c2) sz \<and> \<not> over_files c2 ne)"
proof -
  show inv1: "cache_inv (m\<lparr>m_cache := c1\<rparr>)"
    using cache_inv_without [OF inv, of "{vid}"] inv by (simp add: c1 remove_without)
  show no: "\<not> dict_has (c_entries c1) vid"
    using without_dict_has [of "{vid}" "m_cache m" vid] by (auto simp: c1 remove_without)
  assume mr: "make_room df sz ne keep c1 = (c2, ok)"
  have ok1: "dict_ok (c_entries c1)" using cache_inv_entries(1) [OF inv1] by simp
  obtain ks where c2: "c2 = without ks c1"
    using make_room_without [OF ok1, of df sz ne keep] mr by auto
  have "c_config c2 = c_config (m_cache m)" by (simp add: c2 c1 remove_without)
  moreover have "cache_inv (m\<lparr>m_cache := c2\<rparr>)" using cache_inv_without [OF inv1, of ks] by (simp add: c2)
  moreover have "\<not> dict_has (c_entries c2) vid" using no without_dict_has unfolding c2 by blast
  moreover have "ok \<longrightarrow> \<not> over_bytes c2 (used_bytes c2) sz \<and> \<not> over_files c2 ne"
    by (rule make_room_spec [OF ok1, of keep df sz ne]) (use mr in auto)
  ultimately show "cache_inv (m\<lparr>m_cache := c2\<rparr>) \<and> \<not> dict_has (c_entries c2) vid
      \<and> c_config c2 = c_config (m_cache m)
      \<and> (ok \<longrightarrow> \<not> over_bytes c2 (used_bytes c2) sz \<and> \<not> over_files c2 ne)" by blast
qed

lemma cache_inv_open:
  assumes inv: "cache_inv m" and op: "open_staging df disk fs vid sz now (m_cache m) = (c, w)"
  shows "cache_inv (m\<lparr>m_cache := c, m_writers := (case w of None \<Rightarrow> m_writers m | Some x \<Rightarrow> x # m_writers m)\<rparr>)"
proof (cases "\<not> cc_enabled (c_config (m_cache m)) \<or> sz < 0")
  case True
  then show ?thesis using inv op by (auto simp: open_staging_def)
next
  case False
  let ?c1 = "if dict_has (c_entries (m_cache m)) vid then remove vid (m_cache m) else m_cache m"
  obtain c2 ok where mr: "make_room df sz True None ?c1 = (c2, ok)" by (cases "make_room df sz True None ?c1")
  note prep = prepare_entry(1) [OF inv refl, of vid] prepare_entry(3) [OF inv refl mr]
  show ?thesis
  proof (cases "fits (c_config ?c1) sz \<and> ok \<and> disk")
    case False
    then have "w = None" "c = ?c1 \<or> c = c2"
      using op mr \<open>\<not> (\<not> cc_enabled (c_config (m_cache m)) \<or> sz < 0)\<close>
      by (auto simp: open_staging_def Let_def split: if_splits bool.splits)
    then show ?thesis using prep by auto
  next
    case True
    let ?e = "new_entry c2 fs sz now True"
    let ?w = "\<lparr>w_version_id = vid, w_token = e_token ?e, w_size = sz, w_block_size = e_block_size ?e,
       w_offset = 0, w_fd = None, w_failed = False\<rparr>"
    have res: "c = add_entry vid ?e c2" "w = Some ?w"
      using op mr False True by (auto simp: open_staging_def Let_def split: if_splits)
    have sz: "0 \<le> sz" using False by simp
    have "cache_inv ((m\<lparr>m_cache := c2\<rparr>)\<lparr>m_cache := add_entry vid (new_entry (m_cache (m\<lparr>m_cache := c2\<rparr>)) fs sz now True)
        (m_cache (m\<lparr>m_cache := c2\<rparr>)), m_writers := ?w # m_writers m\<rparr>)"
      by (rule cache_inv_add) (use prep True sz in auto)
    then show ?thesis by (simp add: res)
  qed
qed

lemma cache_inv_reserve:
  assumes inv: "cache_inv m" and op: "reserve df disk fs vid sz now (m_cache m) = (c, e)"
  shows "cache_inv (m\<lparr>m_cache := c\<rparr>)"
proof (cases "\<not> cc_enabled (c_config (m_cache m)) \<or> sz < 0")
  case True
  then show ?thesis using inv op by (auto simp: reserve_def)
next
  case False
  let ?c1 = "if dict_has (c_entries (m_cache m)) vid then remove vid (m_cache m) else m_cache m"
  obtain c2 ok where mr: "make_room df 0 True None ?c1 = (c2, ok)" by (cases "make_room df 0 True None ?c1")
  note prep = prepare_entry(1) [OF inv refl, of vid] prepare_entry(3) [OF inv refl mr]
  show ?thesis
  proof (cases "ok \<and> disk")
    case False
    then have "c = c2"
      using op mr \<open>\<not> (\<not> cc_enabled (c_config (m_cache m)) \<or> sz < 0)\<close>
      by (auto simp: reserve_def Let_def split: if_splits bool.splits)
    then show ?thesis using prep by auto
  next
    case True
    have res: "c = add_entry vid (new_entry c2 fs sz now False) c2"
      using op mr False True by (auto simp: reserve_def Let_def split: if_splits)
    have sz: "0 \<le> sz" using False by simp
    have "cache_inv ((m\<lparr>m_cache := c2\<rparr>)\<lparr>m_cache := add_entry vid (new_entry (m_cache (m\<lparr>m_cache := c2\<rparr>)) fs sz now False)
        (m_cache (m\<lparr>m_cache := c2\<rparr>)), m_writers := m_writers m\<rparr>)"
      by (rule cache_inv_add) (use prep True sz in auto)
    then show ?thesis by (simp add: res)
  qed
qed

section \<open>Writers\<close>

lemma remove_on_entry: "remove k (on_entry k t g c) = remove k c"
  by (simp add: remove_def drop_entry_def on_entry_def AList.delete_eq split: option.split)
    (auto simp: AList.delete_eq [symmetric] delete_update_same)

lemma writer_okI:
  assumes "writer_ok w c" and "w_version_id w' = w_version_id w" and "w_token w' = w_token w"
    and "w_size w' = w_size w" and "w_block_size w' = w_block_size w" and "0 \<le> w_offset w'"
    and "\<not> w_failed w' \<and> w_fd w' \<noteq> None \<longrightarrow> w_offset w' < w_size w'"
  shows "writer_ok w' c"
  using assms by (auto simp: writer_ok_def)

lemma cache_inv_writers:
  assumes "cache_inv m" and "\<And>w. w \<in> set ws \<Longrightarrow> w \<in> set (m_writers m) \<or> writer_ok w (m_cache m)"
  shows "cache_inv (m\<lparr>m_writers := ws\<rparr>)"
  using assms by (auto simp: cache_inv_def)

lemma replace1_mem: "x \<in> set (replace1 w w' ws) \<Longrightarrow> x = w' \<or> x \<in> set ws"
  by (auto simp: replace1_def dest: in_set_remove1 notin_set_remove1)

lemma cache_inv_replace:
  assumes "cache_inv (m\<lparr>m_cache := c\<rparr>)" and "w \<in> set (m_writers m)"
    and "writer_ok w c \<Longrightarrow> writer_ok w' c"
  shows "cache_inv (m\<lparr>m_cache := c, m_writers := replace1 w w' (m_writers m)\<rparr>)"
proof -
  have "writer_ok w c" using assms(1,2) by (simp add: cache_inv_def)
  then have "cache_inv ((m\<lparr>m_cache := c\<rparr>)\<lparr>m_writers := replace1 w w' (m_writers m)\<rparr>)"
    using assms by (intro cache_inv_writers) (auto dest: replace1_mem)
  then show ?thesis by simp
qed

lemma cache_inv_abort:
  assumes "cache_inv m" and "w \<in> set (m_writers m)" and "writer_abort w (m_cache m) = (w', c)"
  shows "cache_inv (m\<lparr>m_cache := c, m_writers := replace1 w w' (m_writers m)\<rparr>)"
proof -
  have "c = without {w_version_id w} (m_cache m)" "w' = w\<lparr>w_failed := True, w_fd := None\<rparr>"
    using assms(3) by (auto simp: writer_abort_def remove_on_entry) (simp add: remove_without)
  moreover have "writer_ok w c \<Longrightarrow> writer_ok (w\<lparr>w_failed := True, w_fd := None\<rparr>) c" for c
    by (simp add: writer_ok_def)
  ultimately show ?thesis
    using cache_inv_without [OF assms(1)] cache_inv_replace [OF _ assms(2)] by blast
qed

lemma entry_mono_finish:
  assumes "entry_ok e" and "\<forall>i < blocks e. e_present e ! i" and "e_writing e \<longrightarrow> e_inflight e = 0"
  shows "entry_mono e (e\<lparr>e_writing := False\<rparr>)"
proof -
  have "list_all id (e_present e)" using assms(2) by (simp add: list_all_length blocks_def)
  then have full: "present_bytes e = e_size e" using present_bytes_complete [OF assms(1)] by simp
  moreover have "present_bytes (e\<lparr>e_writing := False\<rparr>) = present_bytes e"
    using block_length_cong [of "e\<lparr>e_writing := False\<rparr>" e] by (simp add: present_bytes_def blocks_def)
  ultimately have "charged_bytes (e\<lparr>e_writing := False\<rparr>) \<le> charged_bytes e"
    using assms(3) by (simp add: charged_bytes_def)
  then show ?thesis using assms(1,2) by (simp add: entry_mono_def entry_ok_def)
qed

text \<open>Marking all blocks of an entry that is not being written changes nothing of a complete one.\<close>

lemma on_entry_map_of:
  "map_of (c_entries (on_entry k t g c)) k = (case map_of (c_entries c) k of
     None \<Rightarrow> None | Some e \<Rightarrow> Some (if e_token e = t then g e else e))"
  by (auto simp: on_entry_def update_conv' split: option.split)

lemma mark_present_SomeD:
  assumes "map_of (c_entries (mark_present k t bs c)) k = Some e" and "e_token e = t"
  shows "\<exists>e1. map_of (c_entries c) k = Some e1 \<and> e_token e1 = t \<and> e = set_present bs e1"
  using assms by (auto simp: mark_present_def on_entry_map_of split: option.splits if_splits)

lemma present_bytes_set:
  "present_bytes e = (\<Sum>i \<in> {i. i < blocks e \<and> e_present e ! i}. block_length e i)"
proof -
  have "set (filter (\<lambda>i. e_present e ! i) [0..<blocks e]) = {i. i < blocks e \<and> e_present e ! i}" by auto
  then show ?thesis
    unfolding present_bytes_def by (metis distinct_filter distinct_upt sum_list_distinct_conv_sum_set)
qed

lemma present_bytes_mark:
  assumes "distinct bs" and "set bs \<subseteq> {..<blocks e}"
  shows "present_bytes (set_present bs e)
    = present_bytes e + sum_list (map (block_length e) (filter (\<lambda>i. \<not> e_present e ! i) bs))"
proof -
  let ?old = "{i. i < blocks e \<and> e_present e ! i}" and ?new = "{i \<in> set bs. \<not> e_present e ! i}"
  have bl: "block_length (set_present bs e) = block_length e"
    by (intro block_length_cong) (simp_all add: present_set_present)
  have "{i. i < blocks (set_present bs e) \<and> e_present (set_present bs e) ! i} = ?old \<union> ?new"
    using assms(2) by (auto simp: present_set_present)
  then have "present_bytes (set_present bs e) = sum (block_length e) (?old \<union> ?new)"
    by (simp add: present_bytes_set bl)
  also have "\<dots> = sum (block_length e) ?old + sum (block_length e) ?new"
    by (intro sum.union_disjoint) auto
  also have "sum (block_length e) ?new = sum_list (map (block_length e) (filter (\<lambda>i. \<not> e_present e ! i) bs))"
    using assms(1) by (subst sum_list_distinct_conv_sum_set) auto
  finally show ?thesis by (simp add: present_bytes_set)
qed

lemma entry_mono_mark:
  assumes "entry_ok e" and "\<not> e_writing e \<longrightarrow> (\<forall>i < blocks e. e_present e ! i)"
    and "distinct bs" and "set bs \<subseteq> {..<blocks e}"
  shows "entry_mono e (set_present bs e)"
proof -
  have "filter (\<lambda>i. \<not> e_present e ! i) bs = []" if "\<not> e_writing e"
    using that assms(2,4) by (auto simp: filter_empty_conv)
  then have "charged_bytes (set_present bs e) \<le> charged_bytes e"
    using present_bytes_mark [OF assms(3,4)] by (simp add: charged_bytes_def)
  then show ?thesis using assms(1) by (simp add: entry_mono_def present_set_present)
qed

lemma blocks_for_le:
  assumes "0 < bs" and "0 \<le> off" and "off < sz"
  shows "nat (off div bs) \<le> blocks_for sz bs"
proof -
  have "off div bs \<le> (sz + bs - 1) div bs" using assms by (intro zdiv_mono1) auto
  then show ?thesis by (simp add: blocks_for_def)
qed

lemma cache_inv_write:
  assumes inv: "cache_inv m" and w: "w \<in> set (m_writers m)"
    and op: "writer_write disk data w (m_cache m) = (w', c)"
  shows "cache_inv (m\<lparr>m_cache := c, m_writers := replace1 w w' (m_writers m)\<rparr>)"
proof -
  let ?fd = "case w_fd w of Some t \<Rightarrow> Some t | None \<Rightarrow> map_option e_token (entry (m_cache m) (w_version_id w))"
  have wok: "writer_ok w (m_cache m)" using inv w by (simp add: cache_inv_def)
  consider (skip) "w_failed w \<or> data = []" | (abort) "\<not> (w_failed w \<or> data = [])" "?fd = None \<or> \<not> disk"
    | (go) t where "\<not> (w_failed w \<or> data = [])" "?fd = Some t" "disk" by (cases ?fd) auto
  then show ?thesis
  proof cases
    case skip
    then have "w' = w" "c = m_cache m" using op by (auto simp: writer_write_def)
    then show ?thesis using cache_inv_replace [where m = m and c = "m_cache m" and w = w and w' = w] inv w by simp
  next
    case abort
    then have "writer_abort w (m_cache m) = (w', c)"
      using op by (auto simp: writer_write_def Let_def split: option.splits)
    then show ?thesis using cache_inv_abort [OF inv w] by simp
  next
    case go
    let ?k = "w_version_id w" and ?off = "w_offset w + int (length data)"
    let ?c1 = "on_entry ?k t (\<lambda>e. e\<lparr>e_data := pwrite (w_offset w) data (e_data e)\<rparr>) (m_cache m)"
    let ?n = "if w_size w \<le> ?off then blocks_for (w_size w) (w_block_size w)
              else nat (?off div w_block_size w)"
    let ?c2 = "mark_present ?k (w_token w) [0..<?n] ?c1"
    let ?w1 = "w\<lparr>w_offset := ?off, w_fd := Some t\<rparr>"
    have eq: "(w', c) = (if w_size w \<le> ?off then writer_finish ?w1 ?c2 else (?w1, ?c2))"
      using op go by (simp add: writer_write_def Let_def)
    let ?m1 = "m\<lparr>m_cache := ?c1\<rparr>"
    have inv1: "cache_inv ?m1" by (rule cache_inv_on_entry [OF inv]) (rule entry_mono_data)
    then have w1: "writer_ok w ?c1" using w by (simp add: cache_inv_def)
    have n: "?n \<le> blocks e" if "map_of (c_entries ?c1) ?k = Some e" "e_token e = w_token w" "entry_ok e" for e
    proof -
      have e: "e_size e = w_size w" "e_block_size e = w_block_size w"
        using w1 map_of_SomeD [OF that(1)] that(2) by (auto simp: writer_ok_def)
      then have b: "blocks e = blocks_for (w_size w) (w_block_size w)" "0 < w_block_size w"
        using that(3) by (simp_all add: entry_ok_def blocks_def)
      moreover have "0 \<le> ?off" using wok by (simp add: writer_ok_def)
      ultimately show ?thesis using blocks_for_le [of "w_block_size w" ?off "w_size w"] by simp
    qed
    let ?m2 = "m\<lparr>m_cache := ?c2\<rparr>"
    have inv2: "cache_inv ?m2"
      unfolding mark_present_def
    proof (rule cache_inv_on_entry' [OF inv1])
      fix e assume e: "map_of (c_entries ?c1) ?k = Some e" "e_token e = w_token w" "entry_ok e"
      have "\<not> e_writing e \<longrightarrow> (\<forall>i < blocks e. e_present e ! i)"
        using w1 map_of_SomeD [OF e(1)] e(2) by (auto simp: writer_ok_def)
      then show "entry_mono e (set_present [0..<?n] e)"
        using n [OF e] e(3) by (intro entry_mono_mark) auto
    qed
    show ?thesis
    proof (cases "w_size w \<le> ?off")
      case False
      then have res: "w' = ?w1" "c = ?c2" using eq by auto
      show ?thesis
        unfolding res
      proof (rule cache_inv_replace)
        show "cache_inv (m\<lparr>m_cache := ?c2\<rparr>)" by (rule inv2)
        show "w \<in> set (m_writers m)" by (rule w)
        assume "writer_ok w ?c2"
        then show "writer_ok ?w1 ?c2" by (rule writer_okI) (use wok False in \<open>auto simp: writer_ok_def\<close>)
      qed
    next
      case True
      let ?c3 = "on_entry ?k (w_token w) (\<lambda>e. e\<lparr>e_writing := False\<rparr>) ?c2"
      have res: "w' = ?w1\<lparr>w_fd := None\<rparr>" "c = ?c3" using eq True by (auto simp: writer_finish_def)
      have inv3: "cache_inv (m\<lparr>m_cache := ?c3\<rparr>)"
      proof (rule cache_inv_on_entry' [OF inv2])
        fix e assume e: "map_of (c_entries ?c2) ?k = Some e" "e_token e = w_token w" "entry_ok e"
        from e(1,2) obtain e1 where e1: "map_of (c_entries ?c1) ?k = Some e1" "e_token e1 = w_token w"
          "e = set_present [0..<?n] e1"
          using mark_present_SomeD by blast
        have "entry_ok e1" using e(3) e1(3) by simp
        have "e_size e1 = w_size w" "e_block_size e1 = w_block_size w"
          using w1 map_of_SomeD [OF e1(1)] e1(2) by (auto simp: writer_ok_def)
        then have "?n = blocks e1" using True \<open>entry_ok e1\<close> by (simp add: entry_ok_def blocks_def)
        then have "\<forall>i < blocks e. e_present e ! i" by (simp add: e1(3) present_set_present)
        moreover have "e_writing e \<longrightarrow> e_inflight e = 0"
          using inv2 map_of_SomeD [OF e(1)] by (auto simp: cache_inv_def cache_ok_def)
        ultimately show "entry_mono e (e\<lparr>e_writing := False\<rparr>)" using entry_mono_finish e(3) by blast
      qed
      show ?thesis
        unfolding res
      proof (rule cache_inv_replace)
        show "cache_inv (m\<lparr>m_cache := ?c3\<rparr>)" by (rule inv3)
        show "w \<in> set (m_writers m)" by (rule w)
        assume "writer_ok w ?c3"
        then show "writer_ok (?w1\<lparr>w_fd := None\<rparr>) ?c3" by (rule writer_okI) (use wok in \<open>auto simp: writer_ok_def\<close>)
      qed
    qed
  qed
qed

lemma cache_inv_close:
  assumes inv: "cache_inv m" and w: "w \<in> set (m_writers m)" and op: "writer_close w (m_cache m) = (w', c)"
  shows "cache_inv (m\<lparr>m_cache := c, m_writers := replace1 w w' (m_writers m)\<rparr>)"
proof -
  have "writer_ok w (m_cache m)" using inv w by (simp add: cache_inv_def)
  then have "\<not> (\<not> w_failed w \<and> w_size w \<le> w_offset w \<and> w_fd w \<noteq> None)" by (auto simp: writer_ok_def)
  then have "(w', c) = (w, m_cache m) \<or> writer_abort w (m_cache m) = (w', c)"
    using op by (auto simp: writer_close_def split: if_splits)
  then show ?thesis
    using cache_inv_abort [OF inv w] cache_inv_replace [where m = m and c = "m_cache m" and w = w and w' = w] inv w by auto
qed

section \<open>Fills\<close>

text \<open>Claiming room for a fill and giving it back change the claim on one entry only.\<close>

lemma cache_inv_claim:
  assumes inv: "cache_inv m" and e: "map_of (c_entries (m_cache m)) k = Some e"
    and e': "entry_ok e'" "e_size e' = e_size e" "e_block_size e' = e_block_size e"
      "e_token e' = e_token e" "e_writing e' = e_writing e" "\<not> e_writing e"
      "length (e_present e') = length (e_present e)" "\<And>i. i < blocks e \<Longrightarrow> e_present e ! i \<Longrightarrow> e_present e' ! i"
    and room: "max_size_bytes (c_config (m_cache m)) \<noteq> 0 \<Longrightarrow>
      used_bytes (m_cache m) + charged_bytes e' - charged_bytes e \<le> max_size_bytes (c_config (m_cache m))"
    and fs: "\<And>f. f \<in> set fs \<Longrightarrow> f \<in> set (m_fills m) \<or> (fills k e' f \<and> 0 \<le> f_added f \<and> claims e' f)"
    and others: "\<And>j d. j \<noteq> k \<Longrightarrow> filter (fills j d) fs = filter (fills j d) (m_fills m)"
    and own: "e_inflight e' = sum_list (map f_added (filter (fills k e') fs))"
  shows "cache_inv (m\<lparr>m_cache := (m_cache m)\<lparr>c_entries := AList.update k e' (c_entries (m_cache m))\<rparr>, m_fills := fs\<rparr>)"
proof -
  let ?c = "m_cache m"
  let ?c' = "?c\<lparr>c_entries := AList.update k e' (c_entries ?c)\<rparr>"
  have ok: "dict_ok (c_entries ?c)" using inv by (simp add: cache_inv_def cache_ok_def)
  have mem: "(k, e) \<in> set (c_entries ?c)" using e by (rule map_of_SomeD)
  then have e_ok: "entry_ok e" "e_token e < c_next_token ?c"
    using inv by (auto simp: cache_inv_def cache_ok_def)
  note cases = set_dict_update [OF ok]
  have bl: "block_length e' = block_length e" "blocks e' = blocks e"
    using e' by (auto intro: block_length_cong simp: blocks_def)
  have claims: "claims e' f" if f: "claims e f" for f
  proof -
    have "sum_list (map (block_length e) (filter (\<lambda>i. \<not> e_present e' ! i) (f_blocks f)))
        \<le> sum_list (map (block_length e) (filter (\<lambda>i. \<not> e_present e ! i) (f_blocks f)))"
      by (rule sum_filter_mono)
        (use f e'(8) block_length_pos(1) [OF e_ok(1)] in \<open>auto simp: claims_def less_imp_le subset_iff\<close>)
    then show ?thesis using f e' by (auto simp: claims_def bl)
  qed
  have "cache_ok ?c'"
    using inv e' e_ok ok cases by (fastforce simp: cache_inv_def cache_ok_def)
  moreover have "budget ?c'"
    using inv room e update_used [OF ok e, of e']
    by (auto simp: cache_inv_def budget_def length_update_same)
  moreover have "fills_ok fs ?c'"
  proof -
    have tok: "fills k e' = fills k e" using e' by (auto simp: fills_def fun_eq_iff)
    have "f_token f < c_next_token ?c \<and> 0 \<le> f_added f \<and> 0 \<le> f_begin f" if "f \<in> set fs" for f
      using fs [OF that] inv e_ok(2) e'(4) by (auto simp: cache_inv_def fills_ok_def fills_def claims_def)
    moreover have "claims e' f" if "f \<in> set fs" "fills k e' f" for f
    proof -
      have "claims e f" if "f \<in> set (m_fills m)"
        using inv mem that \<open>fills k e' f\<close> tok by (auto simp: cache_inv_def fills_ok_def)
      then show ?thesis using fs [OF that(1)] claims by blast
    qed
    moreover have "e_inflight d = sum_list (map f_added (filter (fills j d) fs))
        \<and> (\<forall>f \<in> set fs. fills j d f \<longrightarrow> claims d f)" if "(j, d) \<in> set (c_entries ?c)" "j \<noteq> k" for j d
    proof -
      have old: "e_inflight d = sum_list (map f_added (filter (fills j d) (m_fills m)))"
        "\<forall>f \<in> set (m_fills m). fills j d f \<longrightarrow> claims d f"
        using inv that(1) by (auto simp: cache_inv_def fills_ok_def)
      have "f \<in> set (m_fills m)" if "f \<in> set fs" "fills j d f" for f
        using arg_cong [OF others [OF \<open>j \<noteq> k\<close>, of d], of set] that by auto
      with old others [OF that(2), of d] show ?thesis by auto
    qed
    ultimately show ?thesis using own by (auto simp: fills_ok_def dest!: cases)
  qed
  moreover have "writer_ok w ?c'" if "w \<in> set (m_writers m)" for w
  proof -
    have "writer_ok w ?c" using inv that by (simp add: cache_inv_def)
    with e' mem bl show ?thesis unfolding writer_ok_def by (fastforce dest!: cases)
  qed
  ultimately show ?thesis by (simp add: cache_inv_def)
qed

lemma cache_inv_drop_fill:
  assumes "cache_inv m" and "\<And>e. map_of (c_entries (m_cache m)) (f_version_id f) = Some e \<Longrightarrow> e_token e \<noteq> f_token f"
  shows "cache_inv (m\<lparr>m_fills := remove1 f (m_fills m)\<rparr>)"
proof -
  have "\<not> fills k e f" if "(k, e) \<in> set (c_entries (m_cache m))" for k e
  proof -
    have "map_of (c_entries (m_cache m)) k = Some e"
      using assms(1) that by (simp add: cache_inv_def cache_ok_def dict_ok_def)
    then show ?thesis using assms(2) by (auto simp: fills_def)
  qed
  then have "filter (fills k e) (remove1 f (m_fills m)) = filter (fills k e) (m_fills m)"
    if "(k, e) \<in> set (c_entries (m_cache m))" for k e
    using that by (simp add: filter_remove1 remove1_idem)
  with assms(1) show ?thesis
    by (auto simp: cache_inv_def fills_ok_def dest!: set_remove1_subset [THEN subsetD])
qed

lemma missing_bytes_nonneg:
  assumes "entry_ok e" and "set bs \<subseteq> {..<blocks e}"
  shows "0 \<le> sum_list (map (block_length e) (filter P bs))"
proof (rule sum_list_int_nonneg)
  show "\<forall>x \<in> set (map (block_length e) (filter P bs)). 0 \<le> x"
    using block_length_pos(1) [OF assms(1)] assms(2) by (auto simp: less_imp_le subset_iff)
qed

lemma if4_cases:
  "(if p then x else if q then x else if r then x else if ok then y else z) = res
    \<Longrightarrow> res = x \<or> res = z \<or> (ok \<and> \<not> p \<and> \<not> q \<and> res = y)"
  by (auto split: if_splits)

lemma claims_self:
  assumes "\<not> e_writing e" and "set bs \<subseteq> {..<blocks e}" and "distinct bs" and "0 \<le> b"
    and "\<not> e_size e < b + int (length data)"
  shows "claims (e\<lparr>e_inflight := n\<rparr>) \<lparr>f_version_id = vid, f_token = t, f_begin = b, f_data = data,
    f_blocks = bs, f_added = sum_list (map (block_length e) (filter (\<lambda>i. \<not> e_present e ! i) bs))\<rparr>"
proof -
  have "block_length (e\<lparr>e_inflight := n\<rparr>) = block_length e" by (intro block_length_cong) simp_all
  with assms show ?thesis by (simp add: claims_def blocks_def)
qed

lemma write_blocks_begin_eq:
  fixes e b data
  defines "bs \<equiv> [nat (b div e_block_size e)..<if e_size e \<le> b + int (length data) then blocks e
    else nat ((b + int (length data)) div e_block_size e)]"
  defines "added \<equiv> sum_list (map (block_length e) (filter (\<lambda>i. \<not> e_present e ! i) bs))"
  assumes e: "map_of (c_entries c) vid = Some e"
    and mr: "(if added \<noteq> 0 then make_room df added False (Some vid) c else (c, True)) = (c1, ok)"
  shows "write_blocks_begin df vid b data c =
    (if e_writing e \<or> data = [] then (c, None)
     else if b mod e_block_size e \<noteq> 0 \<or> e_size e < b + int (length data) then (c, None)
     else if bs = [] then (c, None)
     else if ok then (on_entry vid (e_token e) (\<lambda>e. e\<lparr>e_inflight := e_inflight e + added\<rparr>) c1,
       Some \<lparr>f_version_id = vid, f_token = e_token e, f_begin = b, f_data = data,
             f_blocks = bs, f_added = added\<rparr>)
     else (c1, None))"
  unfolding write_blocks_begin_def entry_def e option.case Let_def
  using mr unfolding bs_def added_def by (cases ok) simp_all

lemma cache_inv_fill_begin:
  assumes inv: "cache_inv m" and b: "0 \<le> b" and op: "write_blocks_begin df vid b data (m_cache m) = (c, f)"
  shows "cache_inv (m\<lparr>m_cache := c, m_fills := (case f of None \<Rightarrow> m_fills m | Some x \<Rightarrow> x # m_fills m)\<rparr>)"
proof (cases "map_of (c_entries (m_cache m)) vid")
  case None
  then have "c = m_cache m" "f = None" using op by (simp_all add: write_blocks_begin_def entry_def)
  then show ?thesis using inv by simp
next
  case (Some e)
  let ?first = "nat (b div e_block_size e)" and ?stop = "b + int (length data)"
  let ?last = "if e_size e \<le> ?stop then blocks e else nat (?stop div e_block_size e)"
  let ?bs = "[?first..<?last]"
  let ?added = "sum_list (map (block_length e) (filter (\<lambda>i. \<not> e_present e ! i) ?bs))"
  let ?mr = "if ?added \<noteq> 0 then make_room df ?added False (Some vid) (m_cache m) else (m_cache m, True)"
  obtain c1 ok where mr: "?mr = (c1, ok)" by (cases ?mr)
  have dok: "dict_ok (c_entries (m_cache m))" and eok: "entry_ok e"
    using cache_inv_entries [OF inv] Some by auto
  obtain ks where c1: "c1 = without ks (m_cache m)" "vid \<notin> ks"
    "ok \<longrightarrow> \<not> over_bytes c1 (used_bytes c1) ?added \<or> ?added = 0"
  proof (cases "?added \<noteq> 0")
    case True
    then have mk: "make_room df ?added False (Some vid) (m_cache m) = (c1, ok)" using mr by simp
    show thesis
    proof (rule make_room_spec [OF dok, of "Some vid" df ?added False])
      fix dropped kept
      assume d: "lru_order (Some vid) (m_cache m) = dropped @ kept"
        "fst (make_room df ?added False (Some vid) (m_cache m)) = without (fst ` set dropped) (m_cache m)"
        "snd (make_room df ?added False (Some vid) (m_cache m)) \<Longrightarrow>
           \<not> over_bytes (fst (make_room df ?added False (Some vid) (m_cache m)))
               (used_bytes (fst (make_room df ?added False (Some vid) (m_cache m)))) ?added
         \<and> \<not> over_files (fst (make_room df ?added False (Some vid) (m_cache m))) False
         \<and> \<not> over_disk df (fst (make_room df ?added False (Some vid) (m_cache m))) ?added"
      have "vid \<notin> fst ` set dropped"
        using lru_order_props(1) [OF dok, of "Some vid"] d(1) by fastforce
      with d mk that show thesis by simp
    qed
  next
    case False
    then have "c1 = without {} (m_cache m)" using mr by simp
    with False that [of "{}"] show thesis by simp
  qed
  have inv1: "cache_inv (m\<lparr>m_cache := c1\<rparr>)" using cache_inv_without [OF inv, of ks] by (simp add: c1(1))
  note eq = write_blocks_begin_eq [OF Some mr]
  consider (none) "f = None" "c = m_cache m \<or> c = c1"
    | (some) "ok" "\<not> e_writing e" "data \<noteq> []" "\<not> e_size e < ?stop"
      "c = on_entry vid (e_token e) (\<lambda>e. e\<lparr>e_inflight := e_inflight e + ?added\<rparr>) c1"
      "f = Some \<lparr>f_version_id = vid, f_token = e_token e, f_begin = b, f_data = data,
                 f_blocks = ?bs, f_added = ?added\<rparr>"
    using if4_cases [OF op [unfolded eq]] unfolding prod.inject de_Morgan_disj by blast
  then show ?thesis
  proof cases
    case none
    then show ?thesis using inv inv1 by auto
  next
    case some
    let ?f = "\<lparr>f_version_id = vid, f_token = e_token e, f_begin = b, f_data = data,
                 f_blocks = ?bs, f_added = ?added\<rparr>"
    let ?e = "e\<lparr>e_inflight := e_inflight e + ?added\<rparr>"
    have e1: "map_of (c_entries c1) vid = Some e"
    proof -
      have "(vid, e) \<in> set (c_entries c1)" using map_of_SomeD [OF Some] c1 by auto
      moreover have "dict_ok (c_entries c1)" using cache_inv_entries(1) [OF inv1] by simp
      ultimately show ?thesis by (simp add: dict_ok_def)
    qed
    have last: "?last \<le> blocks e"
    proof -
      have "nat (?stop div e_block_size e) \<le> blocks_for (e_size e) (e_block_size e)" if "?stop < e_size e"
        using that eok b by (intro blocks_for_le) (auto simp: entry_ok_def)
      then show ?thesis using eok by (auto simp: entry_ok_def blocks_def)
    qed
    have added: "0 \<le> ?added"
      by (rule missing_bytes_nonneg [OF eok]) (use last in auto)
    have bl: "block_length ?e = block_length e" by (intro block_length_cong) simp_all
    have charged: "charged_bytes ?e = charged_bytes e + ?added"
      using some(2) by (simp add: charged_bytes_def present_bytes_def bl blocks_def)
    have fl: "fills vid ?e = fills vid e" by (simp add: fills_def fun_eq_iff)
    have inflight: "e_inflight e = sum_list (map f_added (filter (fills vid e) (m_fills m)))"
      using inv1 map_of_SomeD [OF e1] by (auto simp: cache_inv_def fills_ok_def)
    have "cache_inv ((m\<lparr>m_cache := c1\<rparr>)\<lparr>m_cache := (m_cache (m\<lparr>m_cache := c1\<rparr>))\<lparr>c_entries :=
        AList.update vid ?e (c_entries (m_cache (m\<lparr>m_cache := c1\<rparr>)))\<rparr>, m_fills := ?f # m_fills m\<rparr>)"
    proof (rule cache_inv_claim [OF inv1])
      show "map_of (c_entries (m_cache (m\<lparr>m_cache := c1\<rparr>))) vid = Some e" using e1 by simp
      show "entry_ok ?e" using eok added by (simp add: entry_ok_def)
      show "used_bytes (m_cache (m\<lparr>m_cache := c1\<rparr>)) + charged_bytes ?e - charged_bytes e
          \<le> max_size_bytes (c_config (m_cache (m\<lparr>m_cache := c1\<rparr>)))"
        if "max_size_bytes (c_config (m_cache (m\<lparr>m_cache := c1\<rparr>))) \<noteq> 0"
        using c1(3) some(1) that inv1 unfolding charged
        by (auto simp: over_bytes_def cache_inv_def budget_def)
      show "f \<in> set (m_fills (m\<lparr>m_cache := c1\<rparr>)) \<or> (fills vid ?e f \<and> 0 \<le> f_added f \<and> claims ?e f)"
        if "f \<in> set (?f # m_fills m)" for f
      proof -
        have "claims ?e ?f"
          by (rule claims_self) (use some(2-4) b last in auto)
        moreover have "fills vid ?e ?f" by (simp add: fills_def)
        moreover have "0 \<le> f_added ?f" using added by (simp only: fill.select_convs)
        ultimately have own: "fills vid ?e ?f \<and> 0 \<le> f_added ?f \<and> claims ?e ?f" by blast
        from that have "f = ?f \<or> f \<in> set (m_fills m)" by (simp only: list.set insert_iff)
        then show ?thesis
        proof
          assume "f = ?f"
          then show ?thesis by (intro disjI2) (simp only: own)
        qed simp
      qed
      show "e_inflight ?e = sum_list (map f_added (filter (fills vid ?e) (?f # m_fills m)))"
        unfolding fl using inflight by (simp add: fills_def)
    qed (use some(2) in \<open>auto simp: fills_def\<close>)
    then show ?thesis using some(5,6) e1 by (simp add: on_entry_def)
  qed
qed

lemma sum_remove1:
  assumes "f \<in> set fs" and "P f"
  shows "sum_list (map g (filter P (remove1 f fs))) = sum_list (map g (filter P fs)) - (g f :: int)"
  using assms by (induction fs) auto

lemma cache_inv_filled:
  assumes inv: "cache_inv m" and f: "f \<in> set (m_fills m)"
  shows "cache_inv (m\<lparr>m_cache := write_blocks_end disk now f (m_cache m), m_fills := remove1 f (m_fills m)\<rparr>)"
proof (cases "map_of (c_entries (m_cache m)) (f_version_id f)")
  case None
  then have "write_blocks_end disk now f (m_cache m) = m_cache m"
    by (simp add: write_blocks_end_def entry_def)
  then show ?thesis using cache_inv_drop_fill [OF inv, of f] None by simp
next
  case (Some cur)
  let ?k = "f_version_id f" and ?fs = "remove1 f (m_fills m)"
  show ?thesis
  proof (cases disk)
    case False
    then have c: "write_blocks_end disk now f (m_cache m) = without {?k} (m_cache m)"
      using Some by (simp add: write_blocks_end_def entry_def remove_on_entry) (simp add: remove_without)
    have "map_of (c_entries (without {?k} (m_cache m))) ?k = None"
      by (auto simp: map_of_eq_None_iff)
    then show ?thesis
      using cache_inv_drop_fill [OF cache_inv_without [OF inv, of "{?k}"], of f] by (simp add: c)
  next
    case True
    let ?d = "\<lambda>e. e\<lparr>e_data := pwrite (f_begin f) (f_data f) (e_data e)\<rparr>"
    let ?c1 = "(m_cache m)\<lparr>c_entries := AList.update ?k (?d cur) (c_entries (m_cache m))\<rparr>"
    have c1: "on_entry ?k (e_token cur) ?d (m_cache m) = ?c1" using Some by (simp add: on_entry_def)
    have inv1: "cache_inv (m\<lparr>m_cache := ?c1\<rparr>)"
      using cache_inv_update [OF inv Some entry_mono_data] cache_inv_entries(2) [OF inv Some] by blast
    have m1: "map_of (c_entries ?c1) ?k = Some (?d cur)" by (simp add: update_conv')
    show ?thesis
    proof (cases "e_token cur = f_token f")
      case other: False
      then have "write_blocks_end disk now f (m_cache m) = ?c1"
        using True Some m1 by (simp add: write_blocks_end_def entry_def Let_def c1 mark_present_def)
          (simp add: on_entry_def)
      moreover have "cache_inv ((m\<lparr>m_cache := ?c1\<rparr>)\<lparr>m_fills := remove1 f (m_fills (m\<lparr>m_cache := ?c1\<rparr>))\<rparr>)"
        by (rule cache_inv_drop_fill [OF inv1]) (use m1 other in simp)
      ultimately show ?thesis by simp
    next
      case same: True
      let ?e = "?d cur"
      let ?e' = "(set_present (f_blocks f) (?e\<lparr>e_inflight := e_inflight ?e - f_added f\<rparr>))\<lparr>e_last_access := now\<rparr>"
      have "write_blocks_end disk now f (m_cache m)
          = (m_cache m)\<lparr>c_entries := AList.update ?k ?e' (c_entries (m_cache m))\<rparr>"
        using True Some same m1
        by (simp add: write_blocks_end_def entry_def Let_def mark_present_def on_entry_def update_conv')
      then have c: "write_blocks_end disk now f (m_cache m)
          = ?c1\<lparr>c_entries := AList.update ?k ?e' (c_entries ?c1)\<rparr>" by simp
      have mem: "(?k, ?e) \<in> set (c_entries ?c1)" using m1 by (rule map_of_SomeD)
      have fl: "fills ?k ?e f" "fills ?k ?e' = fills ?k ?e"
        using same by (simp_all add: fills_def fun_eq_iff)
      have ok: "entry_ok ?e" using cache_inv_entries(2) [OF inv1] m1 by simp
      have old: "e_inflight ?e = sum_list (map f_added (filter (fills ?k ?e) (m_fills m)))"
        "claims ?e f" "\<forall>f \<in> set (m_fills m). 0 \<le> f_added f"
        using inv1 mem f fl(1) by (auto simp: cache_inv_def fills_ok_def)
      have rest: "e_inflight ?e - f_added f = sum_list (map f_added (filter (fills ?k ?e) ?fs))"
        using sum_remove1 [of f "m_fills m" "fills ?k ?e" f_added] f fl(1) old(1) by simp
      moreover have "0 \<le> sum_list (map f_added (filter (fills ?k ?e) ?fs))"
        using old(3) by (intro sum_list_int_nonneg) (auto dest: set_remove1_subset [THEN subsetD])
      ultimately have inflight: "0 \<le> e_inflight ?e - f_added f" by simp
      have bl: "block_length ?e' = block_length ?e"
        by (intro block_length_cong) (simp_all add: present_set_present)
      have pb: "present_bytes ?e' = present_bytes (set_present (f_blocks f) ?e)"
        using block_length_cong [of ?e' "set_present (f_blocks f) ?e"]
        by (simp add: present_bytes_def set_present_def blocks_def)
      have "present_bytes ?e' \<le> present_bytes ?e + f_added f"
        using present_bytes_mark [of "f_blocks f" ?e] old(2) unfolding pb by (auto simp: claims_def)
      then have charged: "charged_bytes ?e' \<le> charged_bytes ?e"
        using old(2) by (simp add: charged_bytes_def claims_def)
      have "cache_inv ((m\<lparr>m_cache := ?c1\<rparr>)\<lparr>m_cache := (m_cache (m\<lparr>m_cache := ?c1\<rparr>))\<lparr>c_entries :=
          AList.update ?k ?e' (c_entries (m_cache (m\<lparr>m_cache := ?c1\<rparr>)))\<rparr>, m_fills := ?fs\<rparr>)"
      proof (rule cache_inv_claim [OF inv1])
        show "map_of (c_entries (m_cache (m\<lparr>m_cache := ?c1\<rparr>))) ?k = Some ?e" using m1 by simp
        show "entry_ok ?e'" using ok inflight by (simp add: entry_ok_def present_set_present)
        show "used_bytes (m_cache (m\<lparr>m_cache := ?c1\<rparr>)) + charged_bytes ?e' - charged_bytes ?e
            \<le> max_size_bytes (c_config (m_cache (m\<lparr>m_cache := ?c1\<rparr>)))"
          if "max_size_bytes (c_config (m_cache (m\<lparr>m_cache := ?c1\<rparr>))) \<noteq> 0"
          using charged inv1 that unfolding cache_inv_def budget_def by fastforce
        show "e_inflight ?e' = sum_list (map f_added (filter (fills ?k ?e') ?fs))"
          unfolding fl(2) using rest by simp
        show "\<not> e_writing ?e" using old(2) by (simp add: claims_def)
        show "filter (fills j d) ?fs = filter (fills j d) (m_fills (m\<lparr>m_cache := ?c1\<rparr>))" if "j \<noteq> ?k" for j d
          using that by (simp add: filter_remove1 remove1_idem fills_def)
        show "g \<in> set (m_fills (m\<lparr>m_cache := ?c1\<rparr>)) \<or> (fills ?k ?e' g \<and> 0 \<le> f_added g \<and> claims ?e' g)"
          if "g \<in> set ?fs" for g
          using that by (auto dest: set_remove1_subset [THEN subsetD])
        show "e_present ?e' ! i" if "i < blocks ?e" "e_present ?e ! i" for i
          using that by (simp add: set_present_def nth_fold_update blocks_def)
      qed (simp_all add: present_set_present)
      then show ?thesis by (simp add: c)
    qed
  qed
qed

section \<open>The budget holds\<close>

lemma cache_inv_step: "cache_step l m m' \<Longrightarrow> cache_inv m \<Longrightarrow> cache_inv m'"
proof (induction rule: cache_step.induct)
  case (step_remove m vid)
  then show ?case using cache_inv_without [of m "{vid}"] by (simp add: remove_without)
next
  case (step_remove_many m vids)
  then show ?case using cache_inv_without [of m] by (simp add: remove_many_def fold_drop_without)
next
  case (step_evict m)
  then show ?case
    using cache_inv_without [of m] by (simp add: evict_unpinned_def remove_many_def fold_drop_without)
qed (auto intro: cache_inv_open cache_inv_write cache_inv_close cache_inv_abort cache_inv_reserve
    cache_inv_fill_begin cache_inv_filled cache_inv_pin cache_inv_unpin cache_inv_release cache_inv_sweep)

lemma config_simps [simp]:
  "c_config (on_entry k t g c) = c_config c" "c_config (drop_entry k c) = c_config c"
  "c_config (remove k c) = c_config c" "c_config (add_entry k e c) = c_config c"
  "c_config (mark_present k t bs c) = c_config c" "c_config (pin now k c) = c_config c"
  "c_config (unpin k c) = c_config c" "c_config (release k c) = c_config c"
  by (simp_all add: on_entry_def drop_entry_def remove_def add_entry_def mark_present_def pin_def
      unpin_def release_def split: option.split)

lemma config_make_room_loop: "c_config (fst (make_room_loop df sz ne used vs c)) = c_config c"
proof (induction vs arbitrary: used c)
  case (Cons v vs)
  show ?case by (subst make_room_loop.simps) (cases v, simp add: Cons.IH)
qed (subst make_room_loop.simps, simp)

lemma config_make_room: "make_room df sz ne keep c = (c', ok) \<Longrightarrow> c_config c' = c_config c"
  using config_make_room_loop [of df sz ne "used_bytes c" "lru_order keep c" c]
  by (simp add: make_room_def)

lemma config_fold: "(\<And>x c. c_config (g x c) = c_config c) \<Longrightarrow> c_config (fold g xs c) = c_config c"
  by (induction xs arbitrary: c) simp_all

lemma config_sweep: "c_config (sweep df q now c) = c_config c"
proof -
  have r: "c_config (release_stale q now c) = c_config c" for c
    unfolding release_stale_def by (rule config_fold) (auto split: prod.split)
  have e: "c_config (expire now c) = c_config c" for c
    unfolding expire_def by (auto intro!: config_fold split: prod.split)
  have t: "c_config (snd (evict_to_target t u vs c)) = c_config c" for t u vs c
    using evict_to_target_without [of t u vs c] by auto
  have d: "c_config (evict_for_disk df vs c) = c_config c" for vs c
    using evict_for_disk_without [of df vs c] by auto
  show ?thesis
    by (simp add: sweep_def Let_def r e t d split: prod.split option.split) (metis snd_conv t r e)
qed

lemma config_writer:
  "c_config (snd (writer_abort w c)) = c_config c" "c_config (snd (writer_finish w c)) = c_config c"
  "c_config (snd (writer_write ok data w c)) = c_config c" "c_config (snd (writer_close w c)) = c_config c"
  by (simp_all add: writer_abort_def writer_finish_def writer_write_def writer_close_def Let_def
      split: option.split)

lemma config_open: "open_staging df ok fs vid sz now c = (c', w) \<Longrightarrow> c_config c' = c_config c"
  by (auto simp: open_staging_def Let_def split: if_splits prod.splits bool.splits
      dest: config_make_room)

lemma config_reserve: "reserve df ok fs vid sz now c = (c', w) \<Longrightarrow> c_config c' = c_config c"
  by (auto simp: reserve_def Let_def split: if_splits prod.splits bool.splits dest: config_make_room)

lemma config_fill:
  "write_blocks_begin df vid b data c = (c', f) \<Longrightarrow> c_config c' = c_config c"
  "c_config (write_blocks_end ok now g c) = c_config c"
  by (auto simp: write_blocks_begin_def write_blocks_end_def Let_def
      split: if_splits prod.splits bool.splits option.splits dest: config_make_room)

lemma config_step: "cache_step l m m' \<Longrightarrow> c_config (m_cache m') = c_config (m_cache m)"
proof (induction rule: cache_step.induct)
  case (step_write w m ok data w' c)
  then show ?case using config_writer(3) [of ok data w "m_cache m"] by simp
next
  case (step_close w m w' c)
  then show ?case using config_writer(4) [of w "m_cache m"] by simp
next
  case (step_abort w m w' c)
  then show ?case using config_writer(1) [of w "m_cache m"] by simp
qed (auto simp: config_fill config_sweep remove_many_def evict_unpinned_def fold_drop_without
    dest: config_open config_reserve config_fill(1))

lemma cache_reach_inv:
  "cache_reach cfg m \<Longrightarrow> 0 < block_bytes cfg \<Longrightarrow> 0 \<le> max_size_bytes cfg \<Longrightarrow> 0 \<le> cc_max_files cfg
    \<Longrightarrow> cache_inv m \<and> c_config (m_cache m) = cfg"
proof (induction rule: cache_reach.induct)
  case reach_start
  then show ?case
    by (simp add: cache_inv_def cache_ok_def budget_def fills_ok_def empty_cache_def used_bytes_def)
next
  case (reach_next m l m')
  then show ?case using cache_inv_step config_step by metis
qed

text \<open>C3: the budget is a hard ceiling. Whatever uploads are staged, fills run, entries are
  pinned, released, removed or swept, in whatever order and with whatever outcome of the disk
  operations, the bytes charged never exceed \<open>max_size\<close> and the entries never exceed
  \<open>max_files\<close> (0 means no limit).\<close>

theorem cache_budget:
  assumes "cache_reach cfg m" and "0 < cc_block_kb cfg" and "0 \<le> cc_max_size_mb cfg" and "0 \<le> cc_max_files cfg"
  shows "(cc_max_size_mb cfg \<noteq> 0 \<longrightarrow> used_bytes (m_cache m) \<le> max_size_bytes cfg)
    \<and> (cc_max_files cfg \<noteq> 0 \<longrightarrow> int (length (c_entries (m_cache m))) \<le> cc_max_files cfg)"
  using cache_reach_inv [OF assms(1)] assms(2-4)
  by (auto simp: cache_inv_def budget_def block_bytes_def max_size_bytes_def)

definition example_config :: cache_config where
  "example_config = \<lparr>cc_enabled = True, cc_max_size_mb = 1, cc_max_files = 1,
     cc_max_file_size_mb = 1, cc_block_kb = 64, cc_stage_uploads = True, cc_keep_for_reads = True,
     cc_min_free_mb = 0, cc_max_age_hours = 0, cc_target_fill_percent = 90\<rparr>"

lemma example_open:
  "\<exists>c w. open_staging (\<lambda>_. None) True ''fs'' ''v1'' 100000 0 (empty_cache example_config) = (c, Some w)
     \<and> length (c_entries c) = 1 \<and> used_bytes c = 100000"
proof -
  let ?c = "empty_cache example_config"
  have "used_bytes ?c = 0" "lru_order None ?c = []"
    by (simp_all add: used_bytes_def empty_cache_def lru_order_def)
  then have "make_room (\<lambda>_. None) 100000 True None ?c = (?c, True)"
    by (simp add: make_room_def make_room_loop_list over_bytes_def over_files_def over_disk_def
        empty_cache_def example_config_def max_size_bytes_def)
  then show ?thesis
    by (simp add: open_staging_def Let_def empty_cache_def example_config_def dict_has_def fits_def
        max_file_size_bytes_def add_entry_def used_bytes_def new_entry_charge)
qed

theorem cache_budget_witness:
  "\<exists>m. cache_reach example_config m \<and> used_bytes (m_cache m) = 100000
     \<and> used_bytes (m_cache m) \<le> 1024 * 1024"
proof -
  obtain c w where c: "open_staging (\<lambda>_. None) True ''fs'' ''v1'' 100000 0 (empty_cache example_config) = (c, Some w)"
    "used_bytes c = 100000" using example_open by blast
  let ?m0 = "\<lparr>m_cache = empty_cache example_config, m_fills = [], m_writers = []\<rparr>"
  have "cache_step (Opens ''v1'' 100000) ?m0 (?m0\<lparr>m_cache := c,
      m_writers := (case Some w of None \<Rightarrow> m_writers ?m0 | Some x \<Rightarrow> x # m_writers ?m0)\<rparr>)"
    by (rule cache_step.step_open) (use c in simp)
  then have "cache_reach example_config (?m0\<lparr>m_cache := c,
      m_writers := (case Some w of None \<Rightarrow> m_writers ?m0 | Some x \<Rightarrow> x # m_writers ?m0)\<rparr>)"
    using cache_reach.reach_start cache_reach.reach_next by blast
  from cache_budget [OF this] this c(2) show ?thesis
    by (intro exI [of _ "?m0\<lparr>m_cache := c, m_writers := [w]\<rparr>"])
      (simp add: example_config_def max_size_bytes_def)
qed

text \<open>Staging an empty upload never completes the entry: the writer closes without having
  opened the file, so the entry stays marked as being written, and a reader of the pending
  version is told that the cache has no complete copy.\<close>

lemma empty_staging_never_completes:
  assumes "open_staging df ok fs vid 0 now c = (c', Some w)"
  shows "writer_close w c' = (w, c') \<and> \<not> complete c' vid"
proof -
  from assms obtain c2 where "c' = add_entry vid (new_entry c2 fs 0 now True) c2"
    "w_offset w = 0" "w_size w = 0" "w_fd w = None" "\<not> w_failed w"
    by (auto simp: open_staging_def Let_def split: if_splits prod.splits bool.splits)
  then show ?thesis
    by (simp add: writer_close_def complete_def entry_def add_entry_def update_conv')
qed

end
