(* ===== verification/CacheContent.thy ===== *)
theory CacheContent
  imports CacheMachine
begin

text \<open>
  What the cache serves is what was written: versions are immutable, and as long as every
  upload and every fill hands in bytes of its version at their offsets, every block marked
  present holds the version's bytes, whatever entries are evicted, replaced and refilled in
  between. A read of the cache then returns the version's bytes.
\<close>

section \<open>Reading from an entry\<close>

definition READ_CHUNK :: nat where
  "READ_CHUNK = 1024 * 1024"

text \<open>The read loop of \<open>LocalCache.read\<close>: chunks of at most \<open>READ_CHUNK\<close> from the data file.\<close>

function read_chunks :: "bytes \<Rightarrow> int \<Rightarrow> int \<Rightarrow> stream" where
  "read_chunks data offset e0 =
     (if offset \<le> e0 then
        let chunk = subrange data offset (offset + min (int READ_CHUNK) (e0 - offset + 1) - 1) in
        if chunk = [] then raising OSError
        else take_over ([chunk], None) (read_chunks data (offset + int (length chunk)) e0)
      else ([], None))"
  by pat_completeness auto
termination
proof (relation "measure (\<lambda>(data, offset, e0). nat (e0 + 1 - offset))", simp)
  fix data :: bytes and offset e0 :: int and x
  assume "offset \<le> e0" and "x = subrange data offset (offset + min (int READ_CHUNK) (e0 - offset + 1) - 1)"
    and "x \<noteq> []"
  then have "0 < length x" by simp
  then show "((data, offset + int (length x), e0), data, offset, e0)
      \<in> measure (\<lambda>(data, offset, e0). nat (e0 + 1 - offset))"
    using \<open>offset \<le> e0\<close> by simp
qed

declare read_chunks.simps [simp del]

text \<open>
  \<open>LocalCache.read\<close> when nothing else runs between its chunks: the stream and the cache with
  the entry's last access renewed.
\<close>

definition cache_read :: "int \<Rightarrow> string \<Rightarrow> int \<Rightarrow> int \<Rightarrow> lcache \<Rightarrow> stream \<times> lcache" where
  "cache_read now vid b0 e0 c = (case map_of (c_entries c) vid of
     None \<Rightarrow> (raising (KeyError vid), c)
   | Some e \<Rightarrow>
       let e1 = (if e0 < 0 \<or> e_size e \<le> e0 then e_size e - 1 else e0) in
       if \<not> has_range e b0 e1 then (raising (KeyError vid), c)
       else (read_chunks (e_data e) b0 e1,
             on_entry vid (e_token e) (\<lambda>e. e\<lparr>e_last_access := now\<rparr>) c))"

lemma read_chunks_serves:
  assumes "0 \<le> b" and "e < int (length data)"
  shows "stream_bytes (read_chunks data b e) = subrange data b e \<and> snd (read_chunks data b e) = None"
  using assms
proof (induction data b e rule: read_chunks.induct)
  case (1 data b e)
  let ?n = "min (int READ_CHUNK) (e - b + 1)"
  let ?chunk = "subrange data b (b + ?n - 1)"
  show ?case
  proof (cases "b \<le> e")
    case True
    then have n: "0 < ?n" "b + ?n \<le> e + 1" by (auto simp: READ_CHUNK_def)
    have len: "length ?chunk = nat ?n" using "1.prems" n by (subst length_subrange) auto
    then have ne: "?chunk \<noteq> []" using n(1) by auto
    have IH: "stream_bytes (read_chunks data (b + int (length ?chunk)) e)
        = subrange data (b + int (length ?chunk)) e"
      "snd (read_chunks data (b + int (length ?chunk)) e) = None"
      using "1.IH" [OF True refl ne] "1.prems" by auto
    have "subrange data b e = ?chunk @ subrange data (b + ?n) e"
      using subrange_split [of b "b + ?n" e data] "1.prems" n by simp
    moreover have "int (length ?chunk) = ?n" using len n(1) by simp
    ultimately show ?thesis
      using IH True ne
      by (subst (1 2) read_chunks.simps) (simp add: Let_def take_over_def stream_bytes_def)
  next
    case False
    then show ?thesis by (simp add: read_chunks.simps stream_bytes_def)
  qed
qed

section \<open>Blocks hold the version's bytes\<close>

definition good :: "(string \<Rightarrow> bytes) \<Rightarrow> string \<Rightarrow> cache_entry \<Rightarrow> nat \<Rightarrow> bool" where
  "good content k e x \<longleftrightarrow> e_data e ! x = content k ! x"

definition entry_good :: "(string \<Rightarrow> bytes) \<Rightarrow> string \<Rightarrow> cache_entry \<Rightarrow> bool" where
  "entry_good content k e \<longleftrightarrow> e_size e = int (length (content k))
     \<and> (\<forall>x < length (content k). e_present e ! (x div nat (e_block_size e)) \<longrightarrow> good content k e x)"

definition piece_of :: "bytes \<Rightarrow> int \<Rightarrow> bytes \<Rightarrow> bool" where
  "piece_of whole off data \<longleftrightarrow> data = take (length data) (drop (nat off) whole)"

definition covers :: "cache_entry \<Rightarrow> fill \<Rightarrow> bool" where
  "covers e f \<longleftrightarrow> (\<forall>i \<in> set (f_blocks f). f_begin f \<le> block_begin e i
     \<and> block_last e i < f_begin f + int (length (f_data f)))"

definition writer_good :: "(string \<Rightarrow> bytes) \<Rightarrow> lcache \<Rightarrow> writer \<Rightarrow> bool" where
  "writer_good content c w \<longleftrightarrow>
     (\<forall>(k, e) \<in> set (c_entries c). k = w_version_id w \<and> e_token e = w_token w \<and> \<not> w_failed w
        \<longrightarrow> (w_fd w = None \<or> w_fd w = Some (w_token w))
          \<and> (\<forall>x < length (content k). int x < w_offset w \<longrightarrow> good content k e x))"

definition data_inv :: "(string \<Rightarrow> bytes) \<Rightarrow> cmachine \<Rightarrow> bool" where
  "data_inv content m \<longleftrightarrow>
     (\<forall>(k, e) \<in> set (c_entries (m_cache m)). entry_good content k e)
   \<and> (\<forall>w \<in> set (m_writers m). writer_good content (m_cache m) w)
   \<and> (\<forall>f \<in> set (m_fills m). piece_of (content (f_version_id f)) (f_begin f) (f_data f)
        \<and> (\<forall>(k, e) \<in> set (c_entries (m_cache m)). fills k e f \<longrightarrow> covers e f))"

fun honest_label :: "(string \<Rightarrow> bytes) \<Rightarrow> cache_label \<Rightarrow> bool" where
  "honest_label content (Opens vid sz) \<longleftrightarrow> sz = int (length (content vid))"
| "honest_label content (Writes w data) \<longleftrightarrow> piece_of (content (w_version_id w)) (w_offset w) data"
| "honest_label content (Fills vid b data) \<longleftrightarrow> piece_of (content vid) b data"
| "honest_label content Other \<longleftrightarrow> True"

text \<open>
  An update of one entry that keeps its shape and its good bytes, and marks no bad block.
\<close>

definition entry_data_mono :: "(string \<Rightarrow> bytes) \<Rightarrow> string \<Rightarrow> cache_entry \<Rightarrow> cache_entry \<Rightarrow> bool" where
  "entry_data_mono content k e e' \<longleftrightarrow> e_size e' = e_size e \<and> e_block_size e' = e_block_size e
     \<and> e_token e' = e_token e \<and> blocks e' = blocks e
     \<and> (\<forall>x < length (content k). good content k e x \<longrightarrow> good content k e' x) \<and> entry_good content k e'"

definition evolves :: "(string \<Rightarrow> bytes) \<Rightarrow> lcache \<Rightarrow> lcache \<Rightarrow> bool" where
  "evolves content c c' \<longleftrightarrow> (\<forall>(k, e') \<in> set (c_entries c'). \<exists>e. (k, e) \<in> set (c_entries c)
     \<and> entry_data_mono content k e e')"

lemma entry_data_mono_refl: "entry_good content k e \<Longrightarrow> entry_data_mono content k e e"
  by (simp add: entry_data_mono_def)

lemma entry_data_mono_trans:
  "entry_data_mono content k a b \<Longrightarrow> entry_data_mono content k b c \<Longrightarrow> entry_data_mono content k a c"
  by (simp add: entry_data_mono_def)

lemma evolves_trans: "evolves content a b \<Longrightarrow> evolves content b c \<Longrightarrow> evolves content a c"
  unfolding evolves_def using entry_data_mono_trans by fast

lemma covers_mono: "entry_data_mono content k e e' \<Longrightarrow> covers e f \<Longrightarrow> covers e' f"
proof -
  assume m: "entry_data_mono content k e e'"
  then have "block_length e' = block_length e"
    by (intro block_length_cong) (simp_all add: entry_data_mono_def blocks_def)
  with m show "covers e f \<Longrightarrow> covers e' f"
    by (simp add: covers_def block_last_def block_begin_def entry_data_mono_def)
qed

lemma writer_good_evolves: "evolves content c c' \<Longrightarrow> writer_good content c w \<Longrightarrow> writer_good content c' w"
  unfolding evolves_def writer_good_def entry_data_mono_def by fastforce

lemma data_inv_evolves:
  assumes "data_inv content m" and "evolves content (m_cache m) c"
  shows "data_inv content (m\<lparr>m_cache := c\<rparr>)"
proof -
  have "entry_good content k e" if "(k, e) \<in> set (c_entries c)" for k e
    using assms(2) that by (auto simp: evolves_def entry_data_mono_def)
  moreover have "covers e f" if "(k, e) \<in> set (c_entries c)" "f \<in> set (m_fills m)" "fills k e f" for k e f
  proof -
    obtain e0 where e0: "(k, e0) \<in> set (c_entries (m_cache m))" "entry_data_mono content k e0 e"
      using assms(2) \<open>(k, e) \<in> set (c_entries c)\<close> by (auto simp: evolves_def)
    then have "fills k e0 f" using that(3) by (simp add: fills_def entry_data_mono_def)
    then have "covers e0 f" using assms(1) e0(1) that(2) by (auto simp: data_inv_def)
    then show ?thesis using covers_mono e0(2) by blast
  qed
  ultimately show ?thesis
    using assms writer_good_evolves by (auto simp: data_inv_def)
qed

section \<open>Operations that write no bytes\<close>

definition cache_good :: "(string \<Rightarrow> bytes) \<Rightarrow> lcache \<Rightarrow> bool" where
  "cache_good content c \<longleftrightarrow> dict_ok (c_entries c) \<and> (\<forall>(k, e) \<in> set (c_entries c). entry_good content k e)"

definition tame :: "(string \<Rightarrow> bytes) \<Rightarrow> lcache \<Rightarrow> lcache \<Rightarrow> bool" where
  "tame content c c' \<longleftrightarrow> (cache_good content c \<longrightarrow> cache_good content c' \<and> evolves content c c')"

lemma tame_refl: "tame content c c"
  using entry_data_mono_refl by (force simp: tame_def evolves_def cache_good_def)

lemma tame_trans: "tame content a b \<Longrightarrow> tame content b c \<Longrightarrow> tame content a c"
  using evolves_trans unfolding tame_def by blast

lemma tame_without: "tame content c (without ks c)"
  using entry_data_mono_refl
  by (force simp: tame_def evolves_def cache_good_def dict_ok_def distinct_map_filter)

lemma tame_update:
  assumes "map_of (c_entries c) k = Some e" and "entry_good content k e \<Longrightarrow> entry_data_mono content k e e'"
  shows "tame content c (c\<lparr>c_entries := AList.update k e' (c_entries c)\<rparr>)"
  unfolding tame_def
proof
  assume good: "cache_good content c"
  then have ok: "dict_ok (c_entries c)" by (simp add: cache_good_def)
  have mem: "(k, e) \<in> set (c_entries c)" using assms(1) by (rule map_of_SomeD)
  then have mono: "entry_data_mono content k e e'" using good assms(2) by (auto simp: cache_good_def)
  have "\<exists>a. (j, a) \<in> set (c_entries c) \<and> entry_data_mono content j a d"
    if "(j, d) \<in> set (AList.update k e' (c_entries c))" for j d
    using set_dict_update [OF ok that]
  proof
    assume "j = k \<and> d = e'"
    then show ?thesis using mem mono by blast
  next
    assume d: "j \<noteq> k \<and> (j, d) \<in> set (c_entries c)"
    then have "entry_good content j d" using good by (auto simp: cache_good_def)
    then show ?thesis using d entry_data_mono_refl by blast
  qed
  then have ev: "evolves content c (c\<lparr>c_entries := AList.update k e' (c_entries c)\<rparr>)"
    by (auto simp: evolves_def)
  then have "\<forall>(j, d) \<in> set (AList.update k e' (c_entries c)). entry_good content j d"
    by (auto simp: evolves_def entry_data_mono_def)
  with ev ok show "cache_good content (c\<lparr>c_entries := AList.update k e' (c_entries c)\<rparr>)
      \<and> evolves content c (c\<lparr>c_entries := AList.update k e' (c_entries c)\<rparr>)"
    by (simp add: cache_good_def)
qed

lemma tame_on_entry:
  assumes "\<And>e. map_of (c_entries c) k = Some e \<Longrightarrow> e_token e = t \<Longrightarrow> entry_good content k e
    \<Longrightarrow> entry_data_mono content k e (g e)"
  shows "tame content c (on_entry k t g c)"
  using assms tame_update [of c k] tame_refl by (auto simp: on_entry_def split: option.split)

lemma entry_data_mono_same:
  assumes "entry_good content k e" and "e_size e' = e_size e" and "e_block_size e' = e_block_size e"
    and "e_token e' = e_token e" and "e_present e' = e_present e" and "e_data e' = e_data e"
  shows "entry_data_mono content k e e'"
  using assms by (simp add: entry_data_mono_def entry_good_def good_def blocks_def)

lemma tame_pin: "tame content c (pin now vid c)"
  using tame_update [of c vid] tame_refl
  by (auto simp: pin_def entry_data_mono_same split: option.split)

lemma tame_unpin: "tame content c (unpin vid c)"
  using tame_update [of c vid] tame_refl
  by (auto simp: unpin_def entry_data_mono_same split: option.split)

lemma tame_release: "tame content c (release vid c)"
  using tame_update [of c vid] tame_refl tame_without [of content c "{vid}"]
  by (auto simp: release_def remove_without entry_data_mono_same split: option.split)

lemma tame_fold: "(\<And>x c. tame content c (g x c)) \<Longrightarrow> tame content c (fold g xs c)"
proof (induction xs arbitrary: c)
  case (Cons x xs)
  then show ?case using tame_trans [of content c "g x c"] by simp
qed (simp add: tame_refl)

lemma tame_last_sweep: "tame content c c' \<Longrightarrow> tame content c (c'\<lparr>c_last_sweep := t\<rparr>)"
  by (simp add: tame_def cache_good_def evolves_def)

lemma tame_sweep: "tame content c (sweep df q now c)"
proof -
  have r: "tame content c (release_stale q now c)" for c
    unfolding release_stale_def
    by (rule tame_fold) (auto simp: tame_release tame_refl split: prod.split)
  have e: "tame content c (expire now c)" for c
    unfolding expire_def
    by (auto intro!: tame_fold simp: tame_refl tame_without drop_entry_without split: prod.split)
  have t: "tame content c (snd (evict_to_target t u vs c))" for t u vs c
    using evict_to_target_without [of t u vs c] tame_without by metis
  have d: "tame content c (evict_for_disk df vs c)" for vs c
    using evict_for_disk_without [of df vs c] tame_without by metis
  let ?c1 = "expire now (release_stale q now c)"
  have c1: "tame content c ?c1" using r e tame_trans by blast
  show ?thesis
  proof (cases "target_bytes (c_config ?c1)")
    case None
    then show ?thesis
      using c1 d tame_trans by (auto simp: sweep_def Let_def intro!: tame_last_sweep)
  next
    case (Some g)
    let ?r = "evict_to_target g (used_bytes ?c1) (lru_order None ?c1) ?c1"
    have "tame content c (evict_for_disk df (fst ?r) (snd ?r))"
      using c1 t d tame_trans by metis
    then show ?thesis
      using Some by (auto simp: sweep_def Let_def intro!: tame_last_sweep split: prod.split)
  qed
qed

lemma tame_make_room:
  assumes "dict_ok (c_entries c)"
  shows "tame content c (fst (make_room df sz ne keep c))"
  using make_room_without [OF assms, of df sz ne keep] tame_without by metis

lemma data_inv_good: "data_inv content m \<Longrightarrow> cache_inv m \<Longrightarrow> cache_good content (m_cache m)"
  using cache_inv_entries(1) by (auto simp: data_inv_def cache_good_def)

lemma data_inv_tame:
  "data_inv content m \<Longrightarrow> cache_inv m \<Longrightarrow> tame content (m_cache m) c \<Longrightarrow> data_inv content (m\<lparr>m_cache := c\<rparr>)"
  using data_inv_good data_inv_evolves unfolding tame_def by blast

section \<open>Operations that write bytes\<close>

lemma nth_append3:
  assumes "length pre = n" and "n + length data \<le> x"
  shows "(pre @ data @ rest) ! x = rest ! (x - (n + length data))"
  using assms by (auto simp: nth_append)

lemma pwrite_nth:
  assumes "0 \<le> off" and "x < length file"
  shows "pwrite off data file ! x =
    (if off \<le> int x \<and> int x < off + int (length data) then data ! (x - nat off) else file ! x)"
proof -
  let ?n = "nat off"
  let ?pre = "take ?n (file @ replicate (?n - length file) 0)"
  have len: "length ?pre = ?n" by simp
  consider "x < ?n" | "?n \<le> x" "x < ?n + length data" | "?n + length data \<le> x" by linarith
  then show ?thesis
  proof cases
    case 1
    then show ?thesis using assms by (auto simp: pwrite_def nth_append len)
  next
    case 2
    then show ?thesis using assms by (auto simp: pwrite_def nth_append len)
  next
    case 3
    have "(?pre @ data @ drop (?n + length data) file) ! x = drop (?n + length data) file ! (x - (?n + length data))"
      using nth_append3 [OF len 3] .
    also have "\<dots> = file ! x" using 3 assms(2) by simp
    finally show ?thesis using 3 assms(1) by (auto simp: pwrite_def)
  qed
qed

lemma piece_of_nth:
  assumes "piece_of whole off data" and "0 \<le> off" and "off \<le> int x" and "int x < off + int (length data)"
  shows "data ! (x - nat off) = whole ! x"
proof -
  have x: "x - nat off < length data" "nat off \<le> x" using assms by auto
  then have "x - nat off < length (drop (nat off) whole)"
    using assms(1) by (metis length_take min.strict_boundedE piece_of_def)
  moreover have "data ! (x - nat off) = drop (nat off) whole ! (x - nat off)"
    using assms(1) x(1) by (metis nth_take piece_of_def)
  ultimately show ?thesis using x(2) by simp
qed

text \<open>Writing bytes of the version keeps what is good and makes the written range good.\<close>

lemma good_pwrite:
  assumes "piece_of (content k) off data" and "0 \<le> off" and "x < length (e_data e)"
  shows "good content k (e\<lparr>e_data := pwrite off data (e_data e)\<rparr>) x
    \<longleftrightarrow> good content k e x \<or> (off \<le> int x \<and> int x < off + int (length data))"
  using pwrite_nth [OF assms(2,3)] piece_of_nth [OF assms(1,2)] by (auto simp: good_def)

lemma entry_data_mono_pwrite:
  assumes "entry_good content k e" and "entry_ok e" and "piece_of (content k) off data" and "0 \<le> off"
  shows "entry_data_mono content k e (e\<lparr>e_data := pwrite off data (e_data e)\<rparr>)"
proof -
  have "length (content k) \<le> length (e_data e)"
    using assms(1,2) by (simp add: entry_good_def entry_ok_def)
  then have "good content k (e\<lparr>e_data := pwrite off data (e_data e)\<rparr>) x" if "x < length (content k)" "good content k e x" for x
    using good_pwrite [of content k off data x e] assms(3,4) that by simp
  then show ?thesis using assms(1) by (auto simp: entry_data_mono_def entry_good_def blocks_def)
qed

text \<open>Marking blocks whose bytes are all good.\<close>

lemma entry_data_mono_mark:
  assumes "entry_good content k e" and "entry_ok e"
    and "\<And>x. x < length (content k) \<Longrightarrow> x div nat (e_block_size e) \<in> set bs \<Longrightarrow> good content k e x"
  shows "entry_data_mono content k e (set_present bs e)"
proof -
  have "good content k e x"
    if x: "x < length (content k)" "e_present (set_present bs e) ! (x div nat (e_block_size e))" for x
  proof -
    have "0 < e_block_size e" "e_size e \<le> int (blocks e) * e_block_size e" "e_size e = int (length (content k))"
      using assms(1,2) entry_blocks(1) [OF assms(2)] by (simp_all add: entry_ok_def entry_good_def)
    then have "int x < int (blocks e) * int (nat (e_block_size e))" using x(1) by simp
    then have "x < blocks e * nat (e_block_size e)" by (metis of_nat_less_iff of_nat_mult)
    then have "x div nat (e_block_size e) < blocks e" by (simp add: less_mult_imp_div_less)
    then show ?thesis
      using x assms(1,3) by (auto simp: present_set_present entry_good_def)
  qed
  moreover have "good content k (set_present bs e) = good content k e" by (simp add: good_def fun_eq_iff)
  ultimately show ?thesis
    using assms(1) by (auto simp: entry_data_mono_def entry_good_def present_set_present)
qed

lemma data_inv_writers:
  assumes "data_inv content m" and "\<And>w. w \<in> set ws \<Longrightarrow> w \<in> set (m_writers m) \<or> writer_good content (m_cache m) w"
  shows "data_inv content (m\<lparr>m_writers := ws\<rparr>)"
  using assms by (auto simp: data_inv_def)

lemma data_inv_add:
  assumes inv: "data_inv content m" "cache_inv m" and new: "\<not> dict_has (c_entries (m_cache m)) vid"
    and sz: "sz = int (length (content vid))"
    and ws: "\<And>w. w \<in> set ws \<Longrightarrow> w \<in> set (m_writers m)
      \<or> (w_token w = c_next_token (m_cache m) \<and> w_offset w = 0 \<and> w_fd w = None)"
  shows "data_inv content (m\<lparr>m_cache := add_entry vid (new_entry (m_cache m) fs sz now wr) (m_cache m),
    m_writers := ws\<rparr>)"
proof -
  let ?c = "m_cache m"
  let ?e = "new_entry ?c fs sz now wr"
  let ?c' = "add_entry vid ?e ?c"
  have upd: "AList.update vid ?e (c_entries ?c) = c_entries ?c @ [(vid, ?e)]"
    using new by (intro update_new) (simp add: dict_has_def)
  have c': "c_entries ?c' = c_entries ?c @ [(vid, ?e)]" by (simp add: add_entry_def upd)
  have bs: "0 < block_bytes (c_config ?c)" using inv(2) by (simp add: cache_inv_def cache_ok_def)
  have "\<not> e_present ?e ! (x div nat (e_block_size ?e))" if "x < length (content vid)" for x
  proof -
    have ok: "entry_ok ?e" using bs sz by (intro new_entry_ok) auto
    have "int x < int (blocks ?e) * int (nat (e_block_size ?e))"
      using entry_blocks(1) [OF ok] that sz bs by simp
    then have "x div nat (e_block_size ?e) < blocks ?e"
      by (metis less_mult_imp_div_less of_nat_less_iff of_nat_mult)
    then show ?thesis by (simp add: new_entry_def blocks_def)
  qed
  then have good: "entry_good content vid ?e" by (auto simp: entry_good_def sz)
  have fresh_f: "\<not> fills vid ?e f" if "f \<in> set (m_fills m)" for f
    using inv(2) that by (auto simp: cache_inv_def fills_ok_def fills_def)
  have fresh_e: "e_token e < c_next_token ?c" if "(k, e) \<in> set (c_entries ?c)" for k e
    using inv(2) that by (auto simp: cache_inv_def cache_ok_def)
  have "writer_good content ?c' w" if "w \<in> set ws" for w
  proof (cases "w \<in> set (m_writers m)")
    case True
    then have "writer_good content ?c w" "w_token w < c_next_token ?c"
      using inv by (auto simp: data_inv_def cache_inv_def writer_ok_def)
    then show ?thesis unfolding writer_good_def c' by auto
  next
    case False
    with ws [OF that] show ?thesis unfolding writer_good_def c' by (auto simp: not_less)
  qed
  then show ?thesis
    using inv(1) good fresh_f unfolding data_inv_def by (auto simp: c')
qed

lemma data_inv_open:
  assumes inv: "data_inv content m" "cache_inv m"
    and op: "open_staging df disk fs vid sz now (m_cache m) = (c, w)" and sz: "sz = int (length (content vid))"
  shows "data_inv content (m\<lparr>m_cache := c, m_writers := (case w of None \<Rightarrow> m_writers m | Some x \<Rightarrow> x # m_writers m)\<rparr>)"
proof (cases "\<not> cc_enabled (c_config (m_cache m))")
  case True
  then show ?thesis using inv op by (auto simp: open_staging_def)
next
  case enabled: False
  let ?c1 = "if dict_has (c_entries (m_cache m)) vid then remove vid (m_cache m) else m_cache m"
  obtain c2 ok where mr: "make_room df sz True None ?c1 = (c2, ok)" by (cases "make_room df sz True None ?c1")
  have t1: "tame content (m_cache m) ?c1" using tame_without tame_refl by (simp add: remove_without)
  have "dict_ok (c_entries ?c1)" using cache_inv_entries(1) [OF prepare_entry(1) [OF inv(2) refl]] by simp
  then have "tame content (m_cache m) c2" using tame_make_room [of ?c1] t1 tame_trans mr by (metis fst_conv)
  then have d: "data_inv content (m\<lparr>m_cache := ?c1\<rparr>)" "data_inv content (m\<lparr>m_cache := c2\<rparr>)"
    using data_inv_tame inv t1 by blast+
  note prep = prepare_entry(3) [OF inv(2) refl mr]
  show ?thesis
  proof (cases "fits (c_config ?c1) sz \<and> ok \<and> disk")
    case False
    then have "w = None" "c = ?c1 \<or> c = c2"
      using op mr enabled sz by (auto simp: open_staging_def Let_def split: if_splits bool.splits)
    then show ?thesis using d by auto
  next
    case True
    let ?e = "new_entry c2 fs sz now True"
    let ?w = "\<lparr>w_version_id = vid, w_token = e_token ?e, w_size = sz, w_block_size = e_block_size ?e,
       w_offset = 0, w_fd = None, w_failed = False\<rparr>"
    have res: "c = add_entry vid ?e c2" "w = Some ?w"
      using op mr enabled True sz by (auto simp: open_staging_def Let_def split: if_splits)
    have "data_inv content ((m\<lparr>m_cache := c2\<rparr>)\<lparr>m_cache := add_entry vid
        (new_entry (m_cache (m\<lparr>m_cache := c2\<rparr>)) fs sz now True) (m_cache (m\<lparr>m_cache := c2\<rparr>)),
        m_writers := ?w # m_writers m\<rparr>)"
      by (rule data_inv_add) (use d prep sz in auto)
    then show ?thesis by (simp add: res)
  qed
qed

lemma data_inv_reserve:
  assumes inv: "data_inv content m" "cache_inv m"
    and op: "reserve df disk fs vid sz now (m_cache m) = (c, e)" and sz: "sz = int (length (content vid))"
  shows "data_inv content (m\<lparr>m_cache := c\<rparr>)"
proof (cases "\<not> cc_enabled (c_config (m_cache m))")
  case True
  then show ?thesis using inv op by (auto simp: reserve_def)
next
  case enabled: False
  let ?c1 = "if dict_has (c_entries (m_cache m)) vid then remove vid (m_cache m) else m_cache m"
  obtain c2 ok where mr: "make_room df 0 True None ?c1 = (c2, ok)" by (cases "make_room df 0 True None ?c1")
  have t1: "tame content (m_cache m) ?c1" using tame_without tame_refl by (simp add: remove_without)
  have "dict_ok (c_entries ?c1)" using cache_inv_entries(1) [OF prepare_entry(1) [OF inv(2) refl]] by simp
  then have "tame content (m_cache m) c2" using tame_make_room [of ?c1] t1 tame_trans mr by (metis fst_conv)
  then have d: "data_inv content (m\<lparr>m_cache := c2\<rparr>)" using data_inv_tame inv by blast
  note prep = prepare_entry(3) [OF inv(2) refl mr]
  show ?thesis
  proof (cases "ok \<and> disk")
    case False
    then have "c = c2"
      using op mr enabled sz by (auto simp: reserve_def Let_def split: if_splits bool.splits)
    then show ?thesis using d by auto
  next
    case True
    have res: "c = add_entry vid (new_entry c2 fs sz now False) c2"
      using op mr enabled True sz by (auto simp: reserve_def Let_def split: if_splits)
    have "data_inv content ((m\<lparr>m_cache := c2\<rparr>)\<lparr>m_cache := add_entry vid
        (new_entry (m_cache (m\<lparr>m_cache := c2\<rparr>)) fs sz now False) (m_cache (m\<lparr>m_cache := c2\<rparr>)),
        m_writers := m_writers m\<rparr>)"
      by (rule data_inv_add) (use d prep sz in auto)
    then show ?thesis by (simp add: res)
  qed
qed

lemma data_inv_replace:
  assumes "data_inv content (m\<lparr>m_cache := c\<rparr>)" and "writer_good content c w'"
  shows "data_inv content (m\<lparr>m_cache := c, m_writers := replace1 w w' (m_writers m)\<rparr>)"
proof -
  have "data_inv content ((m\<lparr>m_cache := c\<rparr>)\<lparr>m_writers := replace1 w w' (m_writers m)\<rparr>)"
    by (rule data_inv_writers) (use assms in \<open>auto dest: replace1_mem\<close>)
  then show ?thesis by simp
qed

lemma writer_good_failed: "w_failed w \<Longrightarrow> writer_good content c w"
  by (simp add: writer_good_def)

lemma data_inv_abort:
  assumes "data_inv content m" and "cache_inv m" and "writer_abort w (m_cache m) = (w', c)"
  shows "data_inv content (m\<lparr>m_cache := c, m_writers := replace1 w w' (m_writers m)\<rparr>)"
proof -
  have c: "c = without {w_version_id w} (m_cache m)" and "w_failed w'"
    using assms(3) by (auto simp: writer_abort_def remove_on_entry) (simp add: remove_without)
  then have "writer_good content c w'" by (simp add: writer_good_failed)
  moreover have "data_inv content (m\<lparr>m_cache := c\<rparr>)"
    using data_inv_tame [OF assms(1,2)] tame_without by (simp add: c)
  ultimately show ?thesis by (intro data_inv_replace)
qed

lemma div_block_less:
  assumes "0 < bs" and "x div nat bs < nat (off div bs)" and "0 \<le> off"
  shows "int x < off"
proof -
  have "int (x div nat bs) < off div bs" using assms(2) by simp
  then have "int x div bs < off div bs" using assms(1) by (simp add: zdiv_int)
  then show ?thesis using assms(1) by (meson not_less zdiv_mono1)
qed

lemma entry_good_mem:
  "cache_good content c \<Longrightarrow> map_of (c_entries c) k = Some e \<Longrightarrow> entry_good content k e"
  by (auto simp: cache_good_def dest: map_of_SomeD)

lemma writer_good_D:
  assumes "writer_good content c w" and "map_of (c_entries c) (w_version_id w) = Some e"
    and "e_token e = w_token w" and "\<not> w_failed w"
  shows "w_fd w = None \<or> w_fd w = Some (w_token w)"
    and "x < length (content (w_version_id w)) \<Longrightarrow> int x < w_offset w \<Longrightarrow> good content (w_version_id w) e x"
  using assms map_of_SomeD [OF assms(2)] by (auto simp: writer_good_def)

lemma on_entry_SomeD:
  assumes "map_of (c_entries (on_entry k t g c)) k = Some e1"
  shows "\<exists>e. map_of (c_entries c) k = Some e \<and> e1 = (if e_token e = t then g e else e)"
  using assms by (cases "map_of (c_entries c) k") (auto simp: on_entry_map_of)

lemma data_inv_write:
  assumes inv: "data_inv content m" "cache_inv m" and w: "w \<in> set (m_writers m)"
    and op: "writer_write disk data w (m_cache m) = (w', c)"
    and piece: "piece_of (content (w_version_id w)) (w_offset w) data"
  shows "data_inv content (m\<lparr>m_cache := c, m_writers := replace1 w w' (m_writers m)\<rparr>)"
proof -
  let ?k = "w_version_id w"
  let ?fd = "case w_fd w of Some t \<Rightarrow> Some t | None \<Rightarrow> map_option e_token (entry (m_cache m) ?k)"
  have good0: "cache_good content (m_cache m)" using data_inv_good inv by blast
  have wg: "writer_good content (m_cache m) w" using inv(1) w by (simp add: data_inv_def)
  have wok: "writer_ok w (m_cache m)" using inv(2) w by (simp add: cache_inv_def)
  then have off0: "0 \<le> w_offset w" by (simp add: writer_ok_def)
  consider (skip) "w_failed w \<or> data = []" | (abort) "\<not> (w_failed w \<or> data = [])" "?fd = None \<or> \<not> disk"
    | (go) t where "\<not> (w_failed w \<or> data = [])" "?fd = Some t" "disk" by (cases ?fd) auto
  then show ?thesis
  proof cases
    case skip
    then have "w' = w" "c = m_cache m" using op by (auto simp: writer_write_def)
    then show ?thesis using data_inv_replace [where m = m and c = "m_cache m" and w = w and w' = w] inv(1) wg by simp
  next
    case abort
    then have "writer_abort w (m_cache m) = (w', c)"
      using op by (auto simp: writer_write_def Let_def split: option.splits)
    then show ?thesis using data_inv_abort [OF inv] by simp
  next
    case go
    let ?off = "w_offset w + int (length data)"
    let ?g = "\<lambda>e. e\<lparr>e_data := pwrite (w_offset w) data (e_data e)\<rparr>"
    let ?c1 = "on_entry ?k t ?g (m_cache m)"
    let ?n = "if w_size w \<le> ?off then blocks_for (w_size w) (w_block_size w)
              else nat (?off div w_block_size w)"
    let ?c2 = "mark_present ?k (w_token w) [0..<?n] ?c1"
    let ?w1 = "w\<lparr>w_offset := ?off, w_fd := Some t\<rparr>"
    have eq: "(w', c) = (if w_size w \<le> ?off then writer_finish ?w1 ?c2 else (?w1, ?c2))"
      using op go by (simp add: writer_write_def Let_def)
    have t1: "tame content (m_cache m) ?c1"
    proof (rule tame_on_entry)
      fix e assume "map_of (c_entries (m_cache m)) ?k = Some e" "entry_good content ?k e"
      then show "entry_data_mono content ?k e (?g e)"
        using entry_data_mono_pwrite piece off0 cache_inv_entries(2) [OF inv(2)] by blast
    qed
    have own: "t = w_token w" "\<And>x. x < length (content ?k) \<Longrightarrow> int x < ?off \<Longrightarrow> good content ?k e1 x"
      if e1: "map_of (c_entries ?c1) ?k = Some e1" "e_token e1 = w_token w" for e1
    proof -
      obtain e where e0: "map_of (c_entries (m_cache m)) ?k = Some e"
        "e1 = (if e_token e = t then ?g e else e)"
        using on_entry_SomeD [OF e1(1)] by blast
      have "e_token e = w_token w" using e1(2) e0(2) by (cases "e_token e = t") simp_all
      note e = e0(1) this e0(2)
      note wgD = writer_good_D [OF wg e(1,2)]
      show t: "t = w_token w"
        using wgD(1) go e(1,2) by (auto simp: entry_def split: option.splits)
      fix x assume x: "x < length (content ?k)" "int x < ?off"
      have "entry_good content ?k e" "entry_ok e"
        using good0 entry_good_mem cache_inv_entries(2) [OF inv(2)] e(1) by blast+
      then have "x < length (e_data e)" using x(1) by (simp add: entry_good_def entry_ok_def)
      moreover have "good content ?k e x \<or> (w_offset w \<le> int x \<and> int x < ?off)"
        using wgD(2) go(1) x by auto
      ultimately show "good content ?k e1 x"
        using good_pwrite [of content ?k "w_offset w" data x e] piece off0 e(2,3) t by simp
    qed
    have g1: "writer_good content ?c1 ?w1"
    proof -
      have ok1: "dict_ok (c_entries ?c1)" using t1 good0 by (simp add: tame_def cache_good_def)
      show ?thesis
        unfolding writer_good_def using own ok1 by (auto simp: dict_ok_def)
    qed
    have t2: "tame content ?c1 ?c2"
      unfolding mark_present_def
    proof (rule tame_on_entry)
      fix e assume e: "map_of (c_entries ?c1) ?k = Some e" "e_token e = w_token w" "entry_good content ?k e"
      have m1: "cache_inv (m\<lparr>m_cache := ?c1\<rparr>)"
        by (rule cache_inv_on_entry [OF inv(2)]) (rule entry_mono_data)
      then have eok: "entry_ok e" using cache_inv_entries(2) [OF m1] e(1) by simp
      have "writer_ok w ?c1" using m1 w by (simp add: cache_inv_def)
      then have sz: "e_size e = w_size w" "e_block_size e = w_block_size w"
        using map_of_SomeD [OF e(1)] e(2) by (auto simp: writer_ok_def)
      show "entry_data_mono content ?k e (set_present [0..<?n] e)"
      proof (rule entry_data_mono_mark [OF e(3) eok])
        fix x assume x: "x < length (content ?k)" "x div nat (e_block_size e) \<in> set [0..<?n]"
        have "int x < ?off"
        proof (cases "w_size w \<le> ?off")
          case True
          then show ?thesis using x(1) e(3) sz by (simp add: entry_good_def)
        next
          case False
          then show ?thesis
            using x(2) sz eok off0 div_block_less [of "w_block_size w" x ?off] by (simp add: entry_ok_def)
        qed
        then show "good content ?k e x" using own(2) [OF e(1,2)] x(1) by blast
      qed
    qed
    have t12: "tame content (m_cache m) ?c2" using t1 t2 tame_trans by blast
    have ev2: "evolves content ?c1 ?c2" using t1 t2 good0 by (simp add: tame_def)
    show ?thesis
    proof (cases "w_size w \<le> ?off")
      case False
      then have res: "w' = ?w1" "c = ?c2" using eq by auto
      show ?thesis
        unfolding res using data_inv_tame [OF inv t12] writer_good_evolves [OF ev2 g1]
        by (intro data_inv_replace)
    next
      case True
      let ?c3 = "on_entry ?k (w_token w) (\<lambda>e. e\<lparr>e_writing := False\<rparr>) ?c2"
      have res: "w' = ?w1\<lparr>w_fd := None\<rparr>" "c = ?c3" using eq True by (auto simp: writer_finish_def)
      have t3: "tame content ?c2 ?c3"
        by (rule tame_on_entry) (rule entry_data_mono_same, simp_all)
      then have "evolves content ?c2 ?c3" using t12 good0 by (simp add: tame_def)
      then have "writer_good content ?c3 ?w1"
        using writer_good_evolves ev2 g1 by blast
      then have "writer_good content ?c3 (?w1\<lparr>w_fd := None\<rparr>)" by (auto simp: writer_good_def)
      moreover have "data_inv content (m\<lparr>m_cache := ?c3\<rparr>)"
        using data_inv_tame [OF inv] tame_trans [OF t12 t3] by blast
      ultimately show ?thesis unfolding res by (intro data_inv_replace)
    qed
  qed
qed

lemma data_inv_close:
  assumes inv: "data_inv content m" "cache_inv m" and w: "w \<in> set (m_writers m)"
    and op: "writer_close w (m_cache m) = (w', c)"
  shows "data_inv content (m\<lparr>m_cache := c, m_writers := replace1 w w' (m_writers m)\<rparr>)"
proof -
  have "writer_ok w (m_cache m)" using inv(2) w by (simp add: cache_inv_def)
  then have "\<not> (\<not> w_failed w \<and> w_size w \<le> w_offset w \<and> w_fd w \<noteq> None)" by (auto simp: writer_ok_def)
  then have "(w', c) = (w, m_cache m) \<or> writer_abort w (m_cache m) = (w', c)"
    using op by (auto simp: writer_close_def split: if_splits)
  moreover have "writer_good content (m_cache m) w" using inv(1) w by (simp add: data_inv_def)
  ultimately show ?thesis
    using data_inv_abort [OF inv] data_inv_replace [where m = m and c = "m_cache m" and w = w and w' = w] inv(1)
    by auto
qed

text \<open>A block that a fill claims lies within the bytes of the fill.\<close>

lemma fill_covers:
  assumes eok: "entry_ok e" and b: "0 \<le> b" "b mod e_block_size e = 0"
    and i: "nat (b div e_block_size e) \<le> i"
      "i < (if e_size e \<le> x then blocks e else nat (x div e_block_size e))"
    and x: "0 \<le> x"
  shows "b \<le> block_begin e i \<and> block_last e i < x"
proof -
  let ?bs = "e_block_size e"
  have bs: "0 < ?bs" using eok by (simp add: entry_ok_def)
  have "b = b div ?bs * ?bs" using b(2) by (metis add.right_neutral div_mult_mod_eq)
  also have "\<dots> \<le> int i * ?bs" using i(1) bs by (intro mult_right_mono) auto
  finally have lo: "b \<le> block_begin e i" by (simp add: block_begin_def)
  have "block_last e i < x"
  proof (cases "e_size e \<le> x")
    case True
    then have ib: "i < blocks e" using i(2) by simp
    have "block_last e i < e_size e"
    proof (cases "int i < int (blocks e) - 1")
      case True
      have "(int i + 1) * ?bs \<le> (int (blocks e) - 1) * ?bs"
        using True bs by (intro mult_right_mono) auto
      moreover have "0 < e_size e"
        using entry_empty [OF eok] ib eok by (cases "e_size e = 0") (auto simp: entry_ok_def)
      ultimately have "(int i + 1) * ?bs < e_size e" using entry_blocks(2) [OF eok] by linarith
      then show ?thesis using True by (simp add: block_last_def block_begin_def block_length_def algebra_simps)
    qed (simp add: block_last_def block_begin_def block_length_def)
    with True show ?thesis by simp
  next
    case False
    then have ix: "int i + 1 \<le> x div ?bs" using i(2) by auto
    have "(int i + 1) * ?bs \<le> x div ?bs * ?bs" using ix bs by (intro mult_right_mono) auto
    moreover have "x div ?bs * ?bs \<le> x"
      using div_mult_mod_eq [of x ?bs] pos_mod_sign [OF bs, of x] by linarith
    ultimately have le: "(int i + 1) * ?bs \<le> x" by linarith
    have "x < e_size e" using False by simp
    then have "(int i + 1) * ?bs < int (blocks e) * ?bs" using le entry_blocks(1) [OF eok] by linarith
    then have "i < blocks e" using bs by simp
    then have "block_last e i \<le> (int i + 1) * ?bs - 1"
      using block_length_pos(2) [OF eok] by (simp add: block_last_def block_begin_def algebra_simps)
    with le show ?thesis by linarith
  qed
  with lo show ?thesis by blast
qed

lemma data_inv_fill_begin:
  assumes inv: "data_inv content m" "cache_inv m" and b: "0 \<le> b"
    and op: "write_blocks_begin df vid b data (m_cache m) = (c, f)"
    and piece: "piece_of (content vid) b data"
  shows "data_inv content (m\<lparr>m_cache := c, m_fills := (case f of None \<Rightarrow> m_fills m | Some x \<Rightarrow> x # m_fills m)\<rparr>)"
proof (cases "map_of (c_entries (m_cache m)) vid")
  case None
  then have "c = m_cache m" "f = None" using op by (simp_all add: write_blocks_begin_def entry_def)
  then show ?thesis using inv by simp
next
  case (Some e)
  let ?stop = "b + int (length data)"
  have good0: "cache_good content (m_cache m)" using data_inv_good inv by blast
  have dok: "dict_ok (c_entries (m_cache m))" and eok: "entry_ok e"
    using cache_inv_entries [OF inv(2)] Some by auto
  let ?bs = "[nat (b div e_block_size e)..<if e_size e \<le> ?stop then blocks e
    else nat (?stop div e_block_size e)]"
  let ?added = "sum_list (map (block_length e) (filter (\<lambda>i. \<not> e_present e ! i) ?bs))"
  let ?mr = "if ?added \<noteq> 0 then make_room df ?added False (Some vid) (m_cache m) else (m_cache m, True)"
  obtain c1 ok where mr: "?mr = (c1, ok)" by (cases ?mr)
  let ?c = "on_entry vid (e_token e) (\<lambda>e. e\<lparr>e_inflight := e_inflight e + ?added\<rparr>) c1"
  let ?f = "\<lparr>f_version_id = vid, f_token = e_token e, f_begin = b, f_data = data,
    f_blocks = ?bs, f_added = ?added\<rparr>"
  have room: "tame content (m_cache m) c1"
  proof (cases "?added \<noteq> 0")
    case True
    then have "make_room df ?added False (Some vid) (m_cache m) = (c1, ok)" using mr by simp
    then show ?thesis using tame_make_room [OF dok] by (metis fst_conv)
  next
    case False
    then show ?thesis using mr tame_refl by simp
  qed
  have inflight: "tame content c1 ?c"
    by (rule tame_on_entry) (rule entry_data_mono_same, simp_all)
  from if4_cases [OF op [unfolded write_blocks_begin_eq [OF Some mr]]]
  consider "c = m_cache m" "f = None" | "c = c1" "f = None"
    | "b mod e_block_size e = 0" "c = ?c" "f = Some ?f"
    unfolding prod.inject by blast
  then have "tame content (m_cache m) c \<and> (\<forall>g. f = Some g \<longrightarrow> f_version_id g = vid \<and> f_begin g = b
      \<and> f_data g = data \<and> f_token g = e_token e \<and> b mod e_block_size e = 0
      \<and> (\<forall>i \<in> set (f_blocks g). nat (b div e_block_size e) \<le> i
           \<and> i < (if e_size e \<le> ?stop then blocks e else nat (?stop div e_block_size e))))"
  proof cases
    case 3
    have g: "g = ?f" if "f = Some g" for g using that 3(3) by (simp only: option.inject)
    have "\<forall>i \<in> set ?bs. nat (b div e_block_size e) \<le> i
           \<and> i < (if e_size e \<le> ?stop then blocks e else nat (?stop div e_block_size e))" by auto
    then have P: "f_version_id ?f = vid \<and> f_begin ?f = b
      \<and> f_data ?f = data \<and> f_token ?f = e_token e \<and> b mod e_block_size e = 0
      \<and> (\<forall>i \<in> set (f_blocks ?f). nat (b div e_block_size e) \<le> i
           \<and> i < (if e_size e \<le> ?stop then blocks e else nat (?stop div e_block_size e)))"
      using 3(1) by (simp only: fill.select_convs)
    show ?thesis
    proof (rule conjI)
      show "tame content (m_cache m) c" using tame_trans [OF room inflight] 3(2) by (simp only:)
    qed (intro allI impI, drule g, erule ssubst, rule P)
  qed (use room tame_refl in auto)
  then have t: "tame content (m_cache m) c" and f: "\<And>g. f = Some g \<Longrightarrow> f_version_id g = vid
      \<and> f_begin g = b \<and> f_data g = data \<and> f_token g = e_token e \<and> b mod e_block_size e = 0
      \<and> (\<forall>i \<in> set (f_blocks g). nat (b div e_block_size e) \<le> i
           \<and> i < (if e_size e \<le> ?stop then blocks e else nat (?stop div e_block_size e)))"
    by blast+
  have d: "data_inv content (m\<lparr>m_cache := c\<rparr>)" using data_inv_tame inv t by blast
  show ?thesis
  proof (cases f)
    case None
    then show ?thesis using d by simp
  next
    case f': (Some g)
    note g = f [OF f']
    have "covers e' g" if e': "(k, e') \<in> set (c_entries c)" "fills k e' g" for k e'
    proof -
      obtain e0 where e0: "(k, e0) \<in> set (c_entries (m_cache m))" "entry_data_mono content k e0 e'"
        using t good0 e'(1) by (auto simp: tame_def evolves_def)
      moreover have "k = vid" using e'(2) g by (simp add: fills_def)
      ultimately have "e0 = e" using Some dok by (auto simp: dict_ok_def dest: map_of_is_SomeI)
      have "covers e g"
        unfolding covers_def using g fill_covers [OF eok b, of _ ?stop] b by auto
      then show ?thesis using covers_mono e0(2) \<open>e0 = e\<close> by blast
    qed
    then show ?thesis using d piece g f' by (auto simp: data_inv_def)
  qed
qed

lemma data_inv_drop_fill: "data_inv content m \<Longrightarrow> data_inv content (m\<lparr>m_fills := remove1 f (m_fills m)\<rparr>)"
  by (auto simp: data_inv_def dest!: set_remove1_subset [THEN subsetD])

lemma block_of:
  assumes "entry_ok e" and "int x < e_size e" and "x div nat (e_block_size e) = i"
  shows "block_begin e i \<le> int x" and "int x \<le> block_last e i"
proof -
  let ?bs = "e_block_size e"
  have bs: "0 < ?bs" using assms(1) by (simp add: entry_ok_def)
  have i: "int i = int x div ?bs" using assms(3) bs by (auto simp: zdiv_int)
  have eq: "int x div ?bs * ?bs + int x mod ?bs = int x" by (rule div_mult_mod_eq)
  have m: "0 \<le> int x mod ?bs" "int x mod ?bs < ?bs" using bs by simp_all
  show "block_begin e i \<le> int x" unfolding block_begin_def i using eq m by linarith
  show "int x \<le> block_last e i"
  proof (cases "int i < int (blocks e) - 1")
    case True
    then have "block_last e i = int x div ?bs * ?bs + ?bs - 1"
      by (simp add: block_last_def block_begin_def block_length_def i)
    then show ?thesis using eq m by linarith
  next
    case False
    then have "block_last e i = e_size e - 1"
      by (simp add: block_last_def block_begin_def block_length_def)
    then show ?thesis using assms(2) by linarith
  qed
qed

lemma data_inv_filled:
  assumes inv: "data_inv content m" "cache_inv m" and f: "f \<in> set (m_fills m)"
  shows "data_inv content (m\<lparr>m_cache := write_blocks_end disk now f (m_cache m), m_fills := remove1 f (m_fills m)\<rparr>)"
proof -
  let ?k = "f_version_id f" and ?c' = "write_blocks_end disk now f (m_cache m)"
  have good0: "cache_good content (m_cache m)" using data_inv_good inv by blast
  have piece: "piece_of (content ?k) (f_begin f) (f_data f)" "0 \<le> f_begin f"
    using inv f by (auto simp: data_inv_def cache_inv_def fills_ok_def)
  have "tame content (m_cache m) ?c'"
  proof (cases "map_of (c_entries (m_cache m)) ?k")
    case None
    then show ?thesis using tame_refl by (simp add: write_blocks_end_def entry_def)
  next
    case (Some cur)
    show ?thesis
    proof (cases disk)
      case False
      then show ?thesis
        using Some tame_without
        by (simp add: write_blocks_end_def entry_def remove_on_entry) (simp add: remove_without)
    next
      case True
      let ?g = "\<lambda>e. e\<lparr>e_data := pwrite (f_begin f) (f_data f) (e_data e)\<rparr>"
      let ?c1 = "on_entry ?k (e_token cur) ?g (m_cache m)"
      let ?c2 = "on_entry ?k (f_token f) (\<lambda>e. e\<lparr>e_inflight := e_inflight e - f_added f\<rparr>) ?c1"
      let ?c3 = "mark_present ?k (f_token f) (f_blocks f) ?c2"
      have cok: "entry_ok cur" using cache_inv_entries(2) [OF inv(2) Some] .
      have t1: "tame content (m_cache m) ?c1"
        by (rule tame_on_entry) (use Some entry_data_mono_pwrite piece cok in auto)
      have t2: "tame content ?c1 ?c2"
        by (rule tame_on_entry) (rule entry_data_mono_same, simp_all)
      have t3: "tame content ?c2 ?c3"
        unfolding mark_present_def
      proof (rule tame_on_entry)
        fix e assume e: "map_of (c_entries ?c2) ?k = Some e" "e_token e = f_token f" "entry_good content ?k e"
        have e': "e = (?g cur)\<lparr>e_inflight := e_inflight cur - f_added f\<rparr>" "e_token cur = f_token f"
          using e(1,2) Some by (auto simp: on_entry_map_of split: if_splits)
        have "fills ?k cur f" using e'(2) by (simp add: fills_def)
        then have cov: "covers cur f"
          using inv(1) f map_of_SomeD [OF Some] by (auto simp: data_inv_def)
        have "claims cur f" "fills_ok (m_fills m) (m_cache m)"
          using inv(2) f map_of_SomeD [OF Some] \<open>fills ?k cur f\<close> by (auto simp: cache_inv_def fills_ok_def)
        then have "0 \<le> e_inflight cur - f_added f"
        proof -
          have "e_inflight cur = sum_list (map f_added (filter (fills ?k cur) (m_fills m)))"
            "\<forall>g \<in> set (m_fills m). 0 \<le> f_added g"
            using inv(2) map_of_SomeD [OF Some] by (auto simp: cache_inv_def fills_ok_def)
          moreover from this(2) have "0 \<le> sum_list (map f_added (filter (fills ?k cur) (remove1 f (m_fills m))))"
            by (intro sum_list_int_nonneg) (auto dest!: set_remove1_subset [THEN subsetD])
          ultimately show ?thesis
            using sum_remove1 [of f "m_fills m" "fills ?k cur" f_added] f \<open>fills ?k cur f\<close> by simp
        qed
        then have eok: "entry_ok e"
          using cok length_pwrite [of "e_data cur" "f_begin f" "f_data f"] by (auto simp: e' entry_ok_def)
        have cg: "entry_good content ?k cur" using entry_good_mem good0 Some by blast
        show "entry_data_mono content ?k e (set_present (f_blocks f) e)"
        proof (rule entry_data_mono_mark [OF e(3) eok])
          fix x assume x: "x < length (content ?k)" "x div nat (e_block_size e) \<in> set (f_blocks f)"
          have "int x < e_size cur" "x < length (e_data cur)"
            using x(1) cg cok by (simp_all add: entry_good_def entry_ok_def)
          then have "f_begin f \<le> int x \<and> int x < f_begin f + int (length (f_data f))"
            using cov x(2) block_of [OF cok \<open>int x < e_size cur\<close>, of "x div nat (e_block_size e)"]
            unfolding covers_def by (auto simp: e' dest!: bspec)
          then have "good content ?k (?g cur) x"
            using good_pwrite [of content ?k "f_begin f" "f_data f" x cur] piece \<open>x < length (e_data cur)\<close> by simp
          then show "good content ?k e x" by (simp add: e' good_def)
        qed
      qed
      have t4: "tame content ?c3 (on_entry ?k (f_token f) (\<lambda>e. e\<lparr>e_last_access := now\<rparr>) ?c3)"
        by (rule tame_on_entry) (rule entry_data_mono_same, simp_all)
      have "?c' = on_entry ?k (f_token f) (\<lambda>e. e\<lparr>e_last_access := now\<rparr>) ?c3"
        using True Some by (simp add: write_blocks_end_def entry_def Let_def)
      then show ?thesis using tame_trans [OF t1 tame_trans [OF t2 tame_trans [OF t3 t4]]] by simp
    qed
  qed
  then have "data_inv content (m\<lparr>m_cache := ?c'\<rparr>)" using data_inv_tame inv by blast
  from data_inv_drop_fill [OF this, of f] show ?thesis by simp
qed

section \<open>The cache serves the version\<close>

inductive honest_reach :: "(string \<Rightarrow> bytes) \<Rightarrow> cache_config \<Rightarrow> cmachine \<Rightarrow> bool" for content cfg where
  honest_start: "honest_reach content cfg \<lparr>m_cache = empty_cache cfg, m_fills = [], m_writers = []\<rparr>"
| honest_next: "honest_reach content cfg m \<Longrightarrow> cache_step l m m' \<Longrightarrow> honest_label content l
    \<Longrightarrow> honest_reach content cfg m'"

lemma data_inv_step:
  "cache_step l m m' \<Longrightarrow> honest_label content l \<Longrightarrow> data_inv content m \<Longrightarrow> cache_inv m \<Longrightarrow> data_inv content m'"
proof (induction rule: cache_step.induct)
  case (step_remove m vid)
  then show ?case using data_inv_tame tame_without by (simp add: remove_without)
next
  case (step_remove_many m vids)
  then show ?case using data_inv_tame tame_without by (simp add: remove_many_def fold_drop_without)
next
  case (step_evict m)
  then show ?case
    using data_inv_tame tame_without by (simp add: evict_unpinned_def remove_many_def fold_drop_without)
qed (auto intro: data_inv_open data_inv_write data_inv_close data_inv_abort data_inv_reserve
    data_inv_fill_begin data_inv_filled data_inv_tame tame_pin tame_unpin tame_release tame_sweep)

lemma honest_reach_inv:
  assumes "honest_reach content cfg m" and "0 < cc_block_kb cfg" and "0 \<le> cc_max_size_mb cfg" and "0 \<le> cc_max_files cfg"
  shows "data_inv content m \<and> cache_inv m"
  using assms(1)
proof (induction rule: honest_reach.induct)
  case honest_start
  have "cache_reach cfg \<lparr>m_cache = empty_cache cfg, m_fills = [], m_writers = []\<rparr>"
    by (rule cache_reach.reach_start)
  from cache_reach_inv [OF this] assms(2-4) show ?case
    by (simp add: data_inv_def empty_cache_def block_bytes_def max_size_bytes_def)
next
  case (honest_next m l m')
  then show ?case using data_inv_step cache_inv_step by blast
qed

lemma subrange_nth:
  "0 \<le> b \<Longrightarrow> e < int (length xs) \<Longrightarrow> j < length (subrange xs b e) \<Longrightarrow> subrange xs b e ! j = xs ! (nat b + j)"
  by (simp add: subrange_def)

lemma has_range_present:
  assumes "entry_ok e" and "has_range e b x" and "0 < e_size e" and "b \<le> int i" and "int i \<le> x"
  shows "e_present e ! (i div nat (e_block_size e))"
proof -
  let ?bs = "e_block_size e"
  have bs: "0 < ?bs" using assms(1) by (simp add: entry_ok_def)
  have r: "0 \<le> b" "x < e_size e" "list_all id (subrange (e_present e) (b div ?bs) (x div ?bs))"
    using assms(2,3) by (auto simp: has_range_def)
  have lo: "b div ?bs \<le> int i div ?bs" "int i div ?bs \<le> x div ?bs" "0 \<le> b div ?bs"
    using assms(4,5) bs r(1) by (simp_all add: zdiv_mono1 pos_imp_zdiv_nonneg_iff)
  have "x < int (blocks e) * ?bs" using r(2) entry_blocks(1) [OF assms(1)] by linarith
  then have hi: "x div ?bs < int (length (e_present e))"
    unfolding blocks_def by (rule int_div_less [OF bs])
  let ?j = "nat (int i div ?bs - b div ?bs)"
  have len: "length (subrange (e_present e) (b div ?bs) (x div ?bs)) = nat (x div ?bs - b div ?bs + 1)"
    using lo hi by (intro length_subrange) auto
  then have j: "?j < length (subrange (e_present e) (b div ?bs) (x div ?bs))" using lo by simp
  have "subrange (e_present e) (b div ?bs) (x div ?bs) ! ?j = e_present e ! (nat (b div ?bs) + ?j)"
    using lo hi j by (intro subrange_nth) auto
  moreover have "nat (b div ?bs) + ?j = i div nat ?bs"
    using lo bs by (simp add: nat_diff_distrib) (simp add: nat_div_distrib)
  ultimately show ?thesis using r(3) j by (simp add: list_all_length)
qed

lemma has_range_bytes:
  assumes "entry_ok e" and "entry_good content k e" and "has_range e b x" and "0 < e_size e"
  shows "subrange (e_data e) b x = subrange (content k) b x"
proof (rule nth_equalityI)
  have r: "0 \<le> b" "b \<le> x" "x < e_size e" using assms(3,4) by (auto simp: has_range_def)
  have sz: "e_size e \<le> int (length (e_data e))" "e_size e = int (length (content k))"
    using assms(1,2) by (simp_all add: entry_ok_def entry_good_def)
  show len: "length (subrange (e_data e) b x) = length (subrange (content k) b x)"
    using r sz by (simp add: length_subrange)
  fix j assume j: "j < length (subrange (e_data e) b x)"
  let ?i = "nat b + j"
  have i: "b \<le> int ?i" "int ?i \<le> x" using j r sz by (simp_all add: length_subrange)
  then have "good content k e ?i"
    using has_range_present [OF assms(1,3,4) i] assms(2) r sz by (simp add: entry_good_def)
  moreover have "subrange (e_data e) b x ! j = e_data e ! ?i"
    using j r sz by (intro subrange_nth) auto
  moreover have "subrange (content k) b x ! j = content k ! ?i"
    using j len r sz by (intro subrange_nth) auto
  ultimately show "subrange (e_data e) b x ! j = subrange (content k) b x ! j"
    by (simp add: good_def)
qed

lemma cache_read_good:
  assumes "data_inv content m" and "cache_inv m" and "content vid \<noteq> []"
  shows "(\<exists>e. map_of (c_entries (m_cache m)) vid = Some e \<and> e_size e = int (length (content vid))
      \<and> has_range e b (if x < 0 \<or> e_size e \<le> x then e_size e - 1 else x)
      \<and> snd (fst (cache_read now vid b x (m_cache m))) = None
      \<and> stream_bytes (fst (cache_read now vid b x (m_cache m)))
          = subrange (content vid) b (if x < 0 \<or> e_size e \<le> x then e_size e - 1 else x))
    \<or> cache_read now vid b x (m_cache m) = (raising (KeyError vid), m_cache m)"
proof (cases "map_of (c_entries (m_cache m)) vid")
  case None
  then show ?thesis by (simp add: cache_read_def)
next
  case (Some e)
  let ?x = "if x < 0 \<or> e_size e \<le> x then e_size e - 1 else x"
  have e: "entry_ok e" "entry_good content vid e"
    using cache_inv_entries(2) [OF assms(2) Some] entry_good_mem data_inv_good assms(1,2) Some by blast+
  then have sz: "e_size e = int (length (content vid))" "0 < e_size e"
    using assms(3) by (auto simp: entry_good_def)
  show ?thesis
  proof (cases "has_range e b ?x")
    case True
    have r: "0 \<le> b" "?x < int (length (e_data e))"
      using True sz e(1) by (auto simp: has_range_def entry_ok_def)
    have "fst (cache_read now vid b x (m_cache m)) = read_chunks (e_data e) b ?x"
      using True by (simp add: cache_read_def Some Let_def)
    with read_chunks_serves [OF r] has_range_bytes [OF e True sz(2)] show ?thesis
      using Some sz(1) True by auto
  next
    case False
    then show ?thesis by (simp add: cache_read_def Some Let_def)
  qed
qed

text \<open>C7: the cache serves what was written. After any history in which uploads and fills
  handed in bytes of their versions, with any evictions, replacements, aborts and disk errors
  in between, a read that runs without an interruption either raises \<open>KeyError\<close> before its
  first byte, because the range is not on disk, or streams exactly the version's bytes of the
  range.\<close>

theorem cache_reads_exact:
  assumes "honest_reach content cfg m" and "0 < cc_block_kb cfg" and "0 \<le> cc_max_size_mb cfg"
    and "0 \<le> cc_max_files cfg" and "0 \<le> x" and "x < int (length (content vid))"
  shows "cache_read now vid b x (m_cache m) = (raising (KeyError vid), m_cache m)
    \<or> (stream_bytes (fst (cache_read now vid b x (m_cache m))) = subrange (content vid) b x
        \<and> snd (fst (cache_read now vid b x (m_cache m))) = None)"
proof -
  have "content vid \<noteq> []" using assms(5,6) by auto
  from cache_read_good [OF conjunct1 [OF honest_reach_inv [OF assms(1-4)]]
      conjunct2 [OF honest_reach_inv [OF assms(1-4)]] this, of b x now] assms(5,6)
  show ?thesis by auto
qed

definition staged_entry :: cache_entry where
  "staged_entry = \<lparr>e_fs = ''fs'', e_size = 1, e_block_size = 65536, e_present = [False],
     e_last_access = 0, e_pins = 0, e_writing = True, e_inflight = 0, e_pinned_at = 0,
     e_token = 0, e_data = [0]\<rparr>"

definition staging_writer :: writer where
  "staging_writer = \<lparr>w_version_id = ''v1'', w_token = 0, w_size = 1, w_block_size = 65536,
     w_offset = 0, w_fd = None, w_failed = False\<rparr>"

definition staged_cache :: lcache where
  "staged_cache = \<lparr>c_config = example_config, c_entries = [(''v1'', staged_entry)], c_hits = 0,
     c_misses = 0, c_last_sweep = None, c_next_token = 1\<rparr>"

lemma staged_open:
  "open_staging (\<lambda>_. None) True ''fs'' ''v1'' 1 0 (empty_cache example_config) = (staged_cache, Some staging_writer)"
proof -
  let ?c = "empty_cache example_config"
  have "used_bytes ?c = 0" "lru_order None ?c = []"
    by (simp_all add: used_bytes_def empty_cache_def lru_order_def)
  then have "make_room (\<lambda>_. None) 1 True None ?c = (?c, True)"
    by (simp add: make_room_def make_room_loop_list over_bytes_def over_files_def over_disk_def
        empty_cache_def example_config_def max_size_bytes_def)
  then show ?thesis
    by (simp add: open_staging_def Let_def empty_cache_def example_config_def dict_has_def fits_def
        max_file_size_bytes_def add_entry_def new_entry_def blocks_for_def block_bytes_def
        staged_cache_def staged_entry_def staging_writer_def)
qed

definition written_cache :: lcache where
  "written_cache = staged_cache\<lparr>c_entries := [(''v1'', staged_entry\<lparr>e_present := [True],
     e_writing := False, e_data := [7]\<rparr>)]\<rparr>"

lemma staged_write:
  "writer_write True [7] staging_writer staged_cache = (staging_writer\<lparr>w_offset := 1\<rparr>, written_cache)"
  by (simp add: writer_write_def staging_writer_def staged_cache_def staged_entry_def entry_def Let_def
      on_entry_def pwrite_def mark_present_def set_present_def blocks_for_def writer_finish_def
      written_cache_def)

lemma written_reach:
  "honest_reach (\<lambda>_. [7]) example_config \<lparr>m_cache = written_cache, m_fills = [],
     m_writers = [staging_writer\<lparr>w_offset := 1\<rparr>]\<rparr>"
proof -
  let ?m0 = "\<lparr>m_cache = empty_cache example_config, m_fills = [], m_writers = []\<rparr>"
  let ?m1 = "\<lparr>m_cache = staged_cache, m_fills = [], m_writers = [staging_writer]\<rparr>"
  have "cache_step (Opens ''v1'' 1) ?m0 ?m1"
    using cache_step.step_open [of "\<lambda>_. None" True "''fs''" "''v1''" 1 0 ?m0] staged_open by simp
  then have r1: "honest_reach (\<lambda>_. [7]) example_config ?m1"
    by (rule honest_reach.honest_next [OF honest_reach.honest_start]) simp
  have "cache_step (Writes staging_writer [7]) ?m1 \<lparr>m_cache = written_cache, m_fills = [],
     m_writers = [staging_writer\<lparr>w_offset := 1\<rparr>]\<rparr>"
    using cache_step.step_write [of staging_writer ?m1 True "[7]"] staged_write by (simp add: replace1_def)
  moreover have "honest_label (\<lambda>_. [7]) (Writes staging_writer [7])"
    by (simp add: piece_of_def staging_writer_def)
  ultimately show ?thesis using r1 honest_reach.honest_next by blast
qed

theorem cache_reads_exact_witness:
  "stream_bytes (fst (cache_read 0 ''v1'' 0 0 written_cache)) = [7]"
proof -
  have "fst (cache_read 0 ''v1'' 0 0 written_cache) \<noteq> raising (KeyError ''v1'')"
    by (simp add: cache_read_def written_cache_def staged_cache_def staged_entry_def has_range_def
        subrange_def read_chunks.simps READ_CHUNK_def take_over_def raising_def)
  then show ?thesis
    using cache_reads_exact [OF written_reach, where x = 0 and vid = "''v1''" and b = 0 and now = 0]
    by (auto simp: example_config_def subrange_def)
qed

end
