(* ===== verification/ReadThrough.thy ===== *)
theory ReadThrough
  imports ContentMap CacheContent
begin

text \<open>
  Reads with the local cache in front of the stores (\<open>_stream_through_cache\<close>, \<open>_fetch_run\<close> and
  \<open>get\<close> in \<open>src/tgdcfs/core/repository/impl/file_content/__init__.py\<close>). The generators are
  defined over the operations they call, so that what they deliver is proved once, in a
  locale, from the laws of those operations, and then holds for the model of the cache.
  Between two suspensions of a read other tasks may change the cache: \<open>env p\<close> is whatever
  they do while the read is suspended at byte \<open>p\<close>.
\<close>

section \<open>Definitions\<close>

type_synonym 'c block_writer = "int \<Rightarrow> bytes \<Rightarrow> 'c \<Rightarrow> 'c"
type_synonym 'c range_reader = "int \<Rightarrow> int \<Rightarrow> 'c \<Rightarrow> stream \<times> 'c"

text \<open>The inner loop of \<open>_fetch_run\<close>: store whole blocks as they complete.\<close>

function flush_blocks :: "'c block_writer \<Rightarrow> nat \<Rightarrow> bytes \<Rightarrow> int \<Rightarrow> 'c \<Rightarrow> bytes \<times> int \<times> 'c" where
  "flush_blocks wb bs block bb c =
     (if 0 < bs \<and> bs \<le> length block
      then flush_blocks wb bs (drop bs block) (bb + int bs) (wb bb (take bs block) c)
      else (block, bb, c))"
  by pat_completeness auto
termination
  by (relation "measure (\<lambda>(wb, bs, block, b, c). length block)") auto

declare flush_blocks.simps [simp del]

text \<open>
  \<open>_fetch_run\<close> over the chunks of the stores' stream: the requested bytes of each chunk are
  handed out, the chunk is appended to the block buffer, complete blocks are stored; the
  last, short block only when the stream ended at the end of the run.
\<close>

fun fetch_chunks :: "'c block_writer \<Rightarrow> nat \<Rightarrow> int \<Rightarrow> int \<Rightarrow> bytes list \<Rightarrow> int \<Rightarrow> bytes \<Rightarrow> int \<Rightarrow> 'c
    \<Rightarrow> bytes list \<times> int \<times> bytes \<times> int \<times> 'c" where
  "fetch_chunks wb bs b0 e0 [] position block bb c = ([], position, block, bb, c)"
| "fetch_chunks wb bs b0 e0 (chunk # chunks) position block bb c =
     (let chunk_end = position + int (length chunk) - 1;
          lo = max position b0; hi = min chunk_end e0;
          out = (if lo \<le> hi then [subrange chunk (lo - position) (hi - position)] else []);
          (block', bb', c') = flush_blocks wb bs (block @ chunk) bb c;
          (outs, rest) = fetch_chunks wb bs b0 e0 chunks (chunk_end + 1) block' bb' c'
      in (out @ outs, rest))"

definition fetch_run :: "'c block_writer \<Rightarrow> (int \<Rightarrow> int \<Rightarrow> stream) \<Rightarrow> nat \<Rightarrow> int \<Rightarrow> int \<Rightarrow> int \<Rightarrow> int \<Rightarrow> 'c
    \<Rightarrow> stream \<times> 'c" where
  "fetch_run wb stores bs run_begin run_end b0 e0 c =
     (let s = stores run_begin run_end;
          (outs, position, block, bb, c') =
            fetch_chunks wb bs b0 e0 (fst s) run_begin [] run_begin c
      in ((outs, snd s),
          if snd s = None \<and> block \<noteq> [] \<and> run_end < position then wb bb block c' else c'))"

text \<open>
  The loop of \<open>_stream_through_cache\<close> over the missing runs; \<open>miss\<close> counts a miss, a hit is
  counted by \<open>rd\<close>.
\<close>

fun through_runs :: "'c range_reader \<Rightarrow> 'c block_writer \<Rightarrow> ('c \<Rightarrow> 'c) \<Rightarrow> (int \<Rightarrow> int \<Rightarrow> stream) \<Rightarrow> (int \<Rightarrow> 'c \<Rightarrow> 'c)
    \<Rightarrow> nat \<Rightarrow> int \<Rightarrow> int \<Rightarrow> (int \<times> int) list \<Rightarrow> int \<Rightarrow> 'c \<Rightarrow> stream \<times> 'c" where
  "through_runs rd wb miss stores env bs b0 e0 [] position c =
     (if position \<le> e0 then rd position e0 (env position c) else (([], None), c))"
| "through_runs rd wb miss stores env bs b0 e0 ((run_begin, run_end) # runs) position c =
     (let (s1, c1) = (if position < run_begin then rd position (run_begin - 1) (env position c)
                      else (([], None), c))
      in if snd s1 \<noteq> None then (s1, c1)
         else let (s2, c2) = fetch_run wb stores bs run_begin run_end b0 e0 (miss (env run_begin c1))
         in if snd s2 \<noteq> None then (take_over s1 s2, c2)
         else let (s3, c3) = through_runs rd wb miss stores env bs b0 e0 runs (min run_end e0 + 1) c2
         in (take_over (take_over s1 s2) s3, c3))"

section \<open>What a read delivers\<close>

text \<open>
  The bytes delivered are a prefix of the wanted ones, and all of them when the stream ends
  normally. It is weaker than \<open>serves\<close>: a run is widened to whole blocks, so the fetch can
  still fail after the last wanted byte.
\<close>

definition delivers :: "stream \<Rightarrow> bytes \<Rightarrow> bool" where
  "delivers s want \<longleftrightarrow> prefix (stream_bytes s) want \<and> (snd s = None \<longrightarrow> stream_bytes s = want)"

lemma serves_delivers: "serves s want \<Longrightarrow> delivers s want"
  using serves_prefix by (auto simp: delivers_def serves_def split: option.splits)

lemma delivers_take_over:
  assumes "delivers s w1" and "snd s = None" and "delivers t w2"
  shows "delivers (take_over s t) (w1 @ w2)"
  using assms by (auto simp: delivers_def take_over_def stream_bytes_def)

lemma delivers_failed: "delivers s w1 \<Longrightarrow> snd s \<noteq> None \<Longrightarrow> delivers s (w1 @ w2)"
  by (auto simp: delivers_def)

text \<open>Handing out the part of each chunk that was asked for.\<close>

lemma fetch_chunks_out:
  assumes "stream_bytes (chunks, r) = subrange data position (position + int (length (concat chunks)) - 1)"
    and "0 \<le> position" and "0 \<le> b"
    and "position + int (length (concat chunks)) \<le> int (length data)"
  shows "concat (fst (fetch_chunks wb bs b e chunks position block bb c))
      = subrange data (max position b) (min (position + int (length (concat chunks)) - 1) e)
    \<and> fst (snd (fetch_chunks wb bs b e chunks position block bb c)) = position + int (length (concat chunks))"
  using assms
proof (induction chunks arbitrary: position block bb c)
  case Nil
  then show ?case by simp
next
  case (Cons chunk chunks)
  let ?n = "int (length chunk)" and ?m = "int (length (concat chunks))"
  let ?p = "position + ?n"
  have whole: "chunk @ concat chunks = subrange data position (?p + ?m - 1)"
    using Cons.prems(1) by (simp add: stream_bytes_def algebra_simps)
  also have "\<dots> = subrange data position (?p - 1) @ subrange data ?p (?p + ?m - 1)"
    using Cons.prems(2) by (intro subrange_split) auto
  finally have eq: "chunk @ concat chunks = subrange data position (?p - 1) @ subrange data ?p (?p + ?m - 1)" .
  have "length (subrange data position (?p - 1)) = length chunk"
    using Cons.prems(2,4) by (subst length_subrange) auto
  with eq have split: "chunk = subrange data position (?p - 1)" "concat chunks = subrange data ?p (?p + ?m - 1)"
    by (metis append_eq_append_conv)+
  obtain block' bb' c' where fl: "flush_blocks wb bs (block @ chunk) bb c = (block', bb', c')"
    by (cases "flush_blocks wb bs (block @ chunk) bb c")
  have p: "0 \<le> ?p" using Cons.prems(2) by simp
  have IH: "concat (fst (fetch_chunks wb bs b e chunks ?p block' bb' c'))
        = subrange data (max ?p b) (min (?p + ?m - 1) e)"
    "fst (snd (fetch_chunks wb bs b e chunks ?p block' bb' c')) = ?p + ?m"
    using Cons.IH [OF _ p Cons.prems(3), of block' bb' c'] split(2) Cons.prems(4)
    by (auto simp: stream_bytes_def algebra_simps)
  let ?lo = "max position b" and ?hi = "min (?p - 1) e"
  let ?out = "if ?lo \<le> ?hi then [subrange chunk (?lo - position) (?hi - position)] else []"
  have out: "concat ?out = subrange data ?lo ?hi"
  proof (cases "?lo \<le> ?hi")
    case True
    have "subrange chunk (?lo - position) (?hi - position)
        = subrange data (position + (?lo - position)) (position + (?hi - position))"
      by (subst split(1), intro subrange_subrange) (use Cons.prems(2) in auto)
    with True show ?thesis by simp
  next
    case False
    then have "subrange data ?lo ?hi = []" by (intro subrange_empty) (simp only: not_le)
    with False show ?thesis by (simp only: if_False concat.simps)
  qed
  have join: "subrange data ?lo ?hi @ subrange data (max ?p b) (min (?p + ?m - 1) e)
      = subrange data ?lo (min (?p + ?m - 1) e)"
  proof (cases "?p \<le> min (?p + ?m - 1) e + 1 \<and> ?lo \<le> ?p")
    case True
    then have hi: "?hi = ?p - 1" "max ?p b = ?p" by auto
    have "subrange data ?lo (min (?p + ?m - 1) e)
        = subrange data ?lo (?p - 1) @ subrange data ?p (min (?p + ?m - 1) e)"
      using True Cons.prems(2) by (intro subrange_split) auto
    then show ?thesis by (simp only: hi)
  next
    case False
    then consider "e + 1 < ?p" | "?p < b" using Cons.prems(2) by auto
    then show ?thesis
    proof cases
      case 1
      then have "?hi = e" "min (?p + ?m - 1) e = e" "e < max ?p b" by auto
      then show ?thesis by simp
    next
      case 2
      then have "?hi < ?lo" "?lo = max ?p b" using Cons.prems(2) by auto
      then show ?thesis by simp
    qed
  qed
  have fc: "fetch_chunks wb bs b e (chunk # chunks) position block bb c =
      (?out @ fst (fetch_chunks wb bs b e chunks ?p block' bb' c'),
       snd (fetch_chunks wb bs b e chunks ?p block' bb' c'))"
    by (simp add: Let_def fl split: prod.split)
  have "position + int (length (concat (chunk # chunks))) - 1 = ?p + ?m - 1" by simp
  then show ?case
    unfolding fc using out join IH by (simp add: add.assoc del: fetch_chunks.simps)
qed

lemma piece_of_prefix: "piece_of whole b d \<longleftrightarrow> prefix d (drop (nat b) whole)"
  by (auto simp: piece_of_def prefix_def) (metis append_take_drop_id)

lemma prefix_split: "prefix (xs @ ys) zs \<longleftrightarrow> prefix xs zs \<and> prefix ys (drop (length xs) zs)"
  by (auto simp: prefix_def)

lemma piece_of_append:
  assumes "0 \<le> b"
  shows "piece_of whole b (xs @ ys) \<longleftrightarrow> piece_of whole b xs \<and> piece_of whole (b + int (length xs)) ys"
proof -
  have "nat (b + int (length xs)) = length xs + nat b" using assms by simp
  then show ?thesis by (simp add: piece_of_prefix prefix_split)
qed

lemma piece_of_Nil [simp]: "piece_of whole b []"
  by (simp add: piece_of_def)

lemma take_take_subrange:
  assumes "int (length zs) \<le> re - rb + 1"
  shows "take (length zs) (subrange data rb re) = subrange data rb (rb + int (length zs) - 1)"
proof -
  have "min (length zs) (nat (re - rb + 1)) = nat (rb + int (length zs) - 1 - rb + 1)" using assms by simp
  then show ?thesis unfolding subrange_def take_take by (simp only:)
qed

lemma subrange_prefix: "x \<le> y \<Longrightarrow> prefix (subrange xs b x) (subrange xs b y)"
proof -
  assume "x \<le> y"
  then have "nat (x - b + 1) \<le> nat (y - b + 1)" by simp
  then show ?thesis unfolding subrange_def by (metis prefix_order.refl take_is_prefix take_take min.absorb1)
qed

text \<open>
  \<open>runs_within n b e p runs\<close>: the runs lie in a version of \<open>n\<close> bytes in order, the first may
  begin before the position \<open>p\<close> that the read of \<open>b..e\<close> has reached, the last may end after \<open>e\<close>.
\<close>

fun runs_within :: "int \<Rightarrow> int \<Rightarrow> int \<Rightarrow> int \<Rightarrow> (int \<times> int) list \<Rightarrow> bool" where
  "runs_within n b e p [] = True"
| "runs_within n b e p ((rb, re) # runs) \<longleftrightarrow> 0 \<le> rb \<and> rb \<le> e \<and> p \<le> re \<and> rb \<le> re \<and> re < n
     \<and> max rb b = max rb p \<and> runs_within n b e (min re e + 1) runs"

lemma subrange_three:
  assumes "0 \<le> p" and "rb \<le> e" and "p \<le> re" and "rb \<le> re" and "max rb b = max rb p" and "p \<le> e + 1"
  shows "subrange xs p e = subrange xs p (rb - 1) @ subrange xs (max rb b) (min re e)
    @ subrange xs (min re e + 1) e"
proof -
  have "subrange xs p e = subrange xs p (max rb p - 1) @ subrange xs (max rb p) e"
    using assms by (intro subrange_split) auto
  moreover have "subrange xs (max rb p) e = subrange xs (max rb p) (min re e) @ subrange xs (min re e + 1) e"
  proof -
    have "min re e + 1 \<le> e + 1" "0 \<le> max rb p" "max rb p \<le> min re e + 1" using assms by auto
    then show ?thesis using subrange_split [of "max rb p" "min re e + 1" e xs] by simp
  qed
  moreover have "subrange xs p (max rb p - 1) = subrange xs p (rb - 1)"
    by (cases "rb \<le> p") (simp_all add: max_def subrange_empty)
  ultimately show ?thesis by (simp add: assms(5))
qed

section \<open>The contract of a read-through cache\<close>

text \<open>
  What the streaming code relies on: a read of the cache delivers the bytes asked for or
  fails, a store read serves its range, and storing bytes of the version keeps the cache
  trustworthy. \<open>inv\<close> is the cache's own invariant.
\<close>

locale read_through =
  fixes inv :: "'c \<Rightarrow> bool" and rd :: "'c range_reader" and wb :: "'c block_writer"
    and miss :: "'c \<Rightarrow> 'c" and data :: bytes
  assumes read_exact: "inv c \<Longrightarrow> 0 \<le> b \<Longrightarrow> b \<le> x \<Longrightarrow> x < int (length data)
      \<Longrightarrow> delivers (fst (rd b x c)) (subrange data b x)"
    and read_inv: "inv c \<Longrightarrow> 0 \<le> b \<Longrightarrow> b \<le> x \<Longrightarrow> x < int (length data) \<Longrightarrow> inv (snd (rd b x c))"
    and write_inv: "inv c \<Longrightarrow> 0 \<le> b \<Longrightarrow> piece_of data b d \<Longrightarrow> inv (wb b d c)"
    and miss_inv: "inv c \<Longrightarrow> inv (miss c)"
begin

lemma flush_inv:
  assumes "inv c" and "0 \<le> bb" and "piece_of data bb block"
    and "flush_blocks wb bs block bb c = (block', bb', c')"
  shows "inv c' \<and> 0 \<le> bb' \<and> piece_of data bb' block' \<and> bb' + int (length block') = bb + int (length block)"
  using assms
proof (induction "length block" arbitrary: block bb c rule: less_induct)
  case less
  show ?case
  proof (cases "0 < bs \<and> bs \<le> length block")
    case True
    have p: "piece_of data bb (take bs block @ drop bs block)" using less.prems(3) by simp
    have pieces: "piece_of data bb (take bs block)" "piece_of data (bb + int bs) (drop bs block)"
      using p unfolding piece_of_append [OF less.prems(2)] using True by simp_all
    have "flush_blocks wb bs (drop bs block) (bb + int bs) (wb bb (take bs block) c) = (block', bb', c')"
      using less.prems(4) True by (simp add: flush_blocks.simps [of _ _ block])
    moreover have "length (drop bs block) < length block" "0 \<le> bb + int bs" using True less.prems(2) by auto
    ultimately show ?thesis
      using less.hyps [OF _ write_inv [OF less.prems(1,2) pieces(1)] _ pieces(2)] True by simp
  next
    case False
    then show ?thesis using less.prems by (auto simp: flush_blocks.simps [of _ _ block])
  qed
qed

lemma fetch_chunks_inv:
  assumes "inv c" and "0 \<le> bb" and "piece_of data bb (block @ concat chunks)"
    and "fetch_chunks wb bs b e chunks position block bb c = (outs, position', block', bb', c')"
  shows "inv c' \<and> 0 \<le> bb' \<and> piece_of data bb' block'"
  using assms
proof (induction chunks arbitrary: position block bb c outs)
  case Nil
  then show ?case by auto
next
  case (Cons chunk chunks)
  obtain block1 bb1 c1 where fl: "flush_blocks wb bs (block @ chunk) bb c = (block1, bb1, c1)"
    by (cases "flush_blocks wb bs (block @ chunk) bb c")
  have p: "piece_of data bb ((block @ chunk) @ concat chunks)" using Cons.prems(3) by simp
  have pieces: "piece_of data bb (block @ chunk)"
    "piece_of data (bb + int (length (block @ chunk))) (concat chunks)"
    using p unfolding piece_of_append [OF Cons.prems(2), of _ "block @ chunk"] by blast+
  have f: "inv c1" "0 \<le> bb1" "piece_of data bb1 block1"
    "bb1 + int (length block1) = bb + int (length (block @ chunk))"
    using flush_inv [OF Cons.prems(1,2) pieces(1) fl] by auto
  have "piece_of data bb1 (block1 @ concat chunks)"
    using f(3,4) pieces(2) unfolding piece_of_append [OF f(2)] by simp
  moreover obtain outs1 where "fetch_chunks wb bs b e chunks (position + int (length chunk) - 1 + 1) block1 bb1 c1
      = (outs1, position', block', bb', c')"
    using Cons.prems(4) by (auto simp: Let_def fl split: prod.splits)
  ultimately show ?case using Cons.IH f(1,2) by blast
qed

lemma fetch_run_delivers:
  assumes "inv c" and "0 \<le> rb" and "rb \<le> re" and "re < int (length data)" and "0 \<le> b"
    and serves: "serves (stores rb re) (subrange data rb re)"
  shows "delivers (fst (fetch_run wb stores bs rb re b e c)) (subrange data (max rb b) (min re e))
    \<and> inv (snd (fetch_run wb stores bs rb re b e c))"
proof -
  obtain chunks r where s: "stores rb re = (chunks, r)" by (cases "stores rb re")
  let ?n = "int (length (concat chunks))"
  have pre: "prefix (concat chunks) (subrange data rb re)"
    using serves_prefix [OF serves] by (simp add: s stream_bytes_def)
  have n: "?n \<le> re - rb + 1"
    using prefix_length_le [OF pre] assms(2-4) by (simp add: length_subrange)
  have "concat chunks = take (length (concat chunks)) (subrange data rb re)"
    using pre by (auto simp: prefix_def)
  also have "\<dots> = subrange data rb (rb + ?n - 1)"
    by (rule take_take_subrange [OF n])
  finally have bytes: "concat chunks = subrange data rb (rb + ?n - 1)" .
  obtain outs pos block bb c' where fc: "fetch_chunks wb bs b e chunks rb [] rb c = (outs, pos, block, bb, c')"
    by (cases "fetch_chunks wb bs b e chunks rb [] rb c")
  have out: "concat outs = subrange data (max rb b) (min (rb + ?n - 1) e)" "pos = rb + ?n"
    using fetch_chunks_out [of chunks r data rb b wb bs e "[]" rb c] bytes assms(2-5) n
    by (auto simp: fc stream_bytes_def)
  have piece: "piece_of data rb (concat chunks)"
    using pre prefix_order.trans [OF pre, of "drop (nat rb) data"]
    by (simp add: piece_of_prefix subrange_def take_is_prefix)
  have inv: "inv c'" "0 \<le> bb" "piece_of data bb block"
    using fetch_chunks_inv [OF assms(1,2) _ fc] piece by auto
  have "delivers (outs, r) (subrange data (max rb b) (min re e))"
  proof (cases "rb + ?n - 1 = re")
    case True
    then show ?thesis using out(1) by (simp add: delivers_def stream_bytes_def)
  next
    case False
    have "length (subrange data rb re) = nat (re - rb + 1)"
      using assms(2-4) by (intro length_subrange) auto
    then have "concat chunks \<noteq> subrange data rb re" using False assms(3) by auto
    then have "r \<noteq> None" using serves by (cases r) (simp_all add: s)
    moreover have "prefix (concat outs) (subrange data (max rb b) (min re e))"
      unfolding out(1) using n by (intro subrange_prefix) auto
    ultimately show ?thesis by (auto simp: delivers_def stream_bytes_def)
  qed
  then show ?thesis
    using inv write_inv by (simp add: fetch_run_def s fc Let_def)
qed

lemma through_runs_delivers:
  assumes "inv c" and "runs_within (int (length data)) b e p runs" and "0 \<le> b" and "b \<le> p"
    and "e < int (length data)" and "p \<le> e + 1"
    and stores: "\<And>rb re. 0 \<le> rb \<Longrightarrow> rb \<le> re \<Longrightarrow> re < int (length data) \<Longrightarrow> serves (stores rb re) (subrange data rb re)"
    and env: "\<And>p c. inv c \<Longrightarrow> inv (env p c)"
  shows "delivers (fst (through_runs rd wb miss stores env bs b e runs p c)) (subrange data p e)
    \<and> inv (snd (through_runs rd wb miss stores env bs b e runs p c))"
  using assms(1-6)
proof (induction runs arbitrary: p c)
  case Nil
  then show ?case
    using read_exact [OF env] read_inv [OF env] by (auto simp: delivers_def stream_bytes_def)
next
  case (Cons run runs)
  obtain rb re where run: "run = (rb, re)" by (cases run)
  have w: "0 \<le> rb" "rb \<le> e" "p \<le> re" "rb \<le> re" "re < int (length data)" "max rb b = max rb p"
    "runs_within (int (length data)) b e (min re e + 1) runs" using Cons.prems(2) by (simp_all add: run)
  obtain s1 c1 where r1: "(if p < rb then rd p (rb - 1) (env p c) else (([], None), c)) = (s1, c1)"
    by (cases "if p < rb then rd p (rb - 1) (env p c) else (([], None), c)")
  have d1: "delivers s1 (subrange data p (rb - 1))" "inv c1"
    using r1 read_exact [OF env [OF Cons.prems(1)], where p1 = p and b = p and x = "rb - 1"]
      read_inv [OF env [OF Cons.prems(1)], where p1 = p and b = p and x = "rb - 1"] Cons.prems(1,3,4) w
    by (auto simp: delivers_def stream_bytes_def split: if_splits)
  obtain s2 c2 where r2: "fetch_run wb stores bs rb re b e (miss (env rb c1)) = (s2, c2)"
    by (cases "fetch_run wb stores bs rb re b e (miss (env rb c1))")
  have d2: "delivers s2 (subrange data (max rb b) (min re e))" "inv c2"
    using fetch_run_delivers [where c = "miss (env rb c1)" and rb = rb and re = re and b = b and e = e and stores = stores and bs = bs]
      miss_inv [OF env [OF d1(2)]] w Cons.prems(3) stores [of rb re] r2 by auto
  obtain s3 c3 where r3: "through_runs rd wb miss stores env bs b e runs (min re e + 1) c2 = (s3, c3)"
    by (cases "through_runs rd wb miss stores env bs b e runs (min re e + 1) c2")
  have pe: "b \<le> min re e + 1" "p \<le> e + 1" "min re e + 1 \<le> e + 1" using w Cons.prems(4,6) by auto
  have d3: "delivers s3 (subrange data (min re e + 1) e)" "inv c3"
    using Cons.IH [OF d2(2) w(7) Cons.prems(3) pe(1) Cons.prems(5) pe(3)] r3 by auto
  have split: "subrange data p e = subrange data p (rb - 1) @ subrange data (max rb b) (min re e)
      @ subrange data (min re e + 1) e"
    using w Cons.prems(3,4) pe by (intro subrange_three) auto
  have s12: "delivers (take_over s1 s2) (subrange data p (rb - 1) @ subrange data (max rb b) (min re e))"
    if "snd s1 = None" using delivers_take_over [OF d1(1) that d2(1)] .
  have "delivers (take_over (take_over s1 s2) s3) (subrange data p e)" if "snd s1 = None" and "snd s2 = None"
    using delivers_take_over [OF s12 [OF that(1)] _ d3(1)] that(2) unfolding split by (simp add: take_over_def)
  moreover have "delivers (take_over s1 s2) (subrange data p e)" if "snd s1 = None" and "snd s2 \<noteq> None"
    using delivers_failed [OF s12 [OF that(1)]] that(2) unfolding split by (simp add: take_over_def)
  moreover have "delivers s1 (subrange data p e)" if "snd s1 \<noteq> None"
    unfolding split using delivers_failed [OF d1(1) that] .
  ultimately show ?case using d1(2) d2(2) d3(2) by (simp add: run r1 r2 r3 Let_def)
qed

end

section \<open>The model of the cache keeps the contract\<close>

text \<open>
  What other tasks may do to the cache while a read is suspended: every operation of the
  cache, with the bytes of the version it is about. \<open>mine\<close> is the fill the suspended task
  itself has on its way to the disk, which nobody else completes.
\<close>

datatype interference =
    I_open disk_free bool string string int
  | I_write nat bool nat
  | I_close nat
  | I_abort nat
  | I_reserve disk_free bool string string int
  | I_fill disk_free string nat nat
  | I_filled fill bool int
  | I_pin int string
  | I_unpin string
  | I_release string
  | I_remove_many "string list"
  | I_evict
  | I_sweep disk_free "(string \<Rightarrow> bool) option" int

definition with_writer :: "nat \<Rightarrow> (writer \<Rightarrow> lcache \<Rightarrow> writer \<times> lcache) \<Rightarrow> cmachine \<Rightarrow> cmachine" where
  "with_writer i f m =
     (if i < length (m_writers m) then
        let w = m_writers m ! i; (w', c) = f w (m_cache m)
        in m\<lparr>m_cache := c, m_writers := replace1 w w' (m_writers m)\<rparr>
      else m)"

fun interfere :: "(string \<Rightarrow> bytes) \<Rightarrow> fill option \<Rightarrow> interference \<Rightarrow> cmachine \<Rightarrow> cmachine" where
  "interfere content mine (I_open df ok fs vid now) m =
     (let (c, w) = open_staging df ok fs vid (int (length (content vid))) now (m_cache m)
      in m\<lparr>m_cache := c, m_writers := (case w of None \<Rightarrow> m_writers m | Some x \<Rightarrow> x # m_writers m)\<rparr>)"
| "interfere content mine (I_write i ok n) m =
     with_writer i (\<lambda>w. writer_write ok (take n (drop (nat (w_offset w)) (content (w_version_id w)))) w) m"
| "interfere content mine (I_close i) m = with_writer i writer_close m"
| "interfere content mine (I_abort i) m = with_writer i writer_abort m"
| "interfere content mine (I_reserve df ok fs vid now) m =
     m\<lparr>m_cache := fst (reserve df ok fs vid (int (length (content vid))) now (m_cache m))\<rparr>"
| "interfere content mine (I_fill df vid b n) m =
     (let (c, f) = write_blocks_begin df vid (int b) (take n (drop b (content vid))) (m_cache m)
      in m\<lparr>m_cache := c, m_fills := (case f of None \<Rightarrow> m_fills m | Some x \<Rightarrow> x # m_fills m)\<rparr>)"
| "interfere content mine (I_filled f ok now) m =
     (if f \<in> set (m_fills m) \<and> mine \<noteq> Some f
      then m\<lparr>m_cache := write_blocks_end ok now f (m_cache m), m_fills := remove1 f (m_fills m)\<rparr> else m)"
| "interfere content mine (I_pin now vid) m = m\<lparr>m_cache := pin now vid (m_cache m)\<rparr>"
| "interfere content mine (I_unpin vid) m = m\<lparr>m_cache := unpin vid (m_cache m)\<rparr>"
| "interfere content mine (I_release vid) m = m\<lparr>m_cache := release vid (m_cache m)\<rparr>"
| "interfere content mine (I_remove_many vids) m = m\<lparr>m_cache := remove_many vids (m_cache m)\<rparr>"
| "interfere content mine I_evict m = m\<lparr>m_cache := evict_unpinned (m_cache m)\<rparr>"
| "interfere content mine (I_sweep df q now) m = m\<lparr>m_cache := sweep df q now (m_cache m)\<rparr>"

definition machine_inv :: "(string \<Rightarrow> bytes) \<Rightarrow> cmachine \<Rightarrow> bool" where
  "machine_inv content m \<longleftrightarrow> data_inv content m \<and> cache_inv m"

text \<open>
  \<open>LocalCache.read\<close> checks the range once and then reads the file at the version's path chunk
  by chunk, suspended at every chunk: \<open>env p\<close> is what happens before the chunk at \<open>p\<close> is read.
  The path is opened anew for every chunk.
\<close>

function read_loop :: "(int \<Rightarrow> cmachine \<Rightarrow> cmachine) \<Rightarrow> string \<Rightarrow> int \<Rightarrow> int \<Rightarrow> cmachine \<Rightarrow> stream \<times> cmachine" where
  "read_loop env vid offset e0 m =
     (if offset \<le> e0 then
        let m1 = env offset m in
        (case entry (m_cache m1) vid of
           None \<Rightarrow> (raising OSError, m1)
         | Some cur \<Rightarrow>
             let chunk = subrange (e_data cur) offset (offset + min (int READ_CHUNK) (e0 - offset + 1) - 1) in
             if chunk = [] then (raising OSError, m1)
             else let (s, m2) = read_loop env vid (offset + int (length chunk)) e0 m1
                  in (take_over ([chunk], None) s, m2))
      else (([], None), m))"
  by pat_completeness auto
termination
  by (relation "measure (\<lambda>(env, vid, offset, e0, m). nat (e0 + 1 - offset))") auto

declare read_loop.simps [simp del]

definition touch :: "int \<Rightarrow> string \<Rightarrow> nat \<Rightarrow> cmachine \<Rightarrow> cmachine" where
  "touch now vid tok m = m\<lparr>m_cache := on_entry vid tok (\<lambda>e. e\<lparr>e_last_access := now\<rparr>) (m_cache m)\<rparr>"

definition read_steps :: "(int \<Rightarrow> cmachine \<Rightarrow> cmachine) \<Rightarrow> int \<Rightarrow> string \<Rightarrow> cmachine range_reader" where
  "read_steps env now vid b0 e0 m = (case entry (m_cache m) vid of
     None \<Rightarrow> (raising (KeyError vid), m)
   | Some e \<Rightarrow>
       let e1 = (if e0 < 0 \<or> e_size e \<le> e0 then e_size e - 1 else e0) in
       if \<not> has_range e b0 e1 then (raising (KeyError vid), m)
       else read_loop env vid b0 e1 (touch now vid (e_token e) m))"

text \<open>
  The cached stretch of a read, with a hit counted. The other tasks' operations between its
  chunks are those after which the stretch is still on disk; without this restriction the
  read can be handed other bytes (\<open>displaced_read_serves_zeros\<close> below).
\<close>

definition sparing :: "(string \<Rightarrow> bytes) \<Rightarrow> string \<Rightarrow> int \<Rightarrow> int \<Rightarrow> interference list \<Rightarrow> cmachine \<Rightarrow> cmachine" where
  "sparing content vid b0 e0 acts m =
     fold (\<lambda>a m. let m' = interfere content None a m in
             if cache_has_range (m_cache m') vid b0 e0 then m' else m) acts m"

text \<open>
  \<open>LocalCache.write_blocks\<close> on the machine: it is suspended while its bytes go to disk, and
  \<open>during\<close> is what happens meanwhile.
\<close>

definition count_hit :: "lcache \<Rightarrow> lcache" where
  "count_hit c = c\<lparr>c_hits := c_hits c + 1\<rparr>"

definition count_miss :: "lcache \<Rightarrow> lcache" where
  "count_miss c = c\<lparr>c_misses := c_misses c + 1\<rparr>"

definition machine_read :: "(string \<Rightarrow> bytes) \<Rightarrow> (int \<Rightarrow> interference list) \<Rightarrow> int \<Rightarrow> string \<Rightarrow> cmachine range_reader" where
  "machine_read content while_reading now vid b0 e0 m =
     read_steps (\<lambda>p. sparing content vid b0 e0 (while_reading p)) now vid b0 e0
       (m\<lparr>m_cache := count_hit (m_cache m)\<rparr>)"

definition machine_miss :: "cmachine \<Rightarrow> cmachine" where
  "machine_miss m = m\<lparr>m_cache := count_miss (m_cache m)\<rparr>"

definition write_blocks :: "(string \<Rightarrow> bytes) \<Rightarrow> disk_free \<Rightarrow> bool \<Rightarrow> int \<Rightarrow> (int \<Rightarrow> interference list)
    \<Rightarrow> string \<Rightarrow> cmachine block_writer" where
  "write_blocks content df disk_ok now during vid b0 data m =
     (case write_blocks_begin df vid b0 data (m_cache m) of
        (c, None) \<Rightarrow> m\<lparr>m_cache := c\<rparr>
      | (c, Some f) \<Rightarrow>
          let m1 = m\<lparr>m_cache := c, m_fills := f # m_fills m\<rparr>;
              m2 = fold (interfere content (Some f)) (during b0) m1
          in m2\<lparr>m_cache := write_blocks_end disk_ok now f (m_cache m2), m_fills := remove1 f (m_fills m2)\<rparr>)"

lemma machine_inv_step:
  "cache_step l m m' \<Longrightarrow> honest_label content l \<Longrightarrow> machine_inv content m \<Longrightarrow> machine_inv content m'"
  using data_inv_step cache_inv_step unfolding machine_inv_def by blast

lemma piece_of_take: "piece_of whole b (take n (drop (nat b) whole))"
  by (simp add: piece_of_prefix take_is_prefix)

lemma interfere_step:
  "\<exists>l. honest_label content l \<and> (cache_step l m (interfere content mine a m) \<or> interfere content mine a m = m)"
proof -
  show ?thesis
  proof (cases a)
    case (I_write i ok n)
    show ?thesis
    proof (cases "i < length (m_writers m)")
      case True
      let ?w = "m_writers m ! i"
      let ?d = "take n (drop (nat (w_offset ?w)) (content (w_version_id ?w)))"
      have w: "?w \<in> set (m_writers m)" using True by simp
      have "honest_label content (Writes ?w ?d)" by (simp add: piece_of_take)
      moreover obtain w' c where "writer_write ok ?d ?w (m_cache m) = (w', c)" by fastforce
      ultimately show ?thesis
        using cache_step.step_write [OF w] True by (fastforce simp: I_write with_writer_def Let_def)
    qed (auto simp: I_write with_writer_def intro: exI [of _ Other])
  next
    case (I_close i)
    then show ?thesis using cache_step.step_close [of _ m]
      by (auto simp: with_writer_def Let_def split: prod.split intro!: exI [of _ Other])
  next
    case (I_abort i)
    then show ?thesis using cache_step.step_abort [of _ m]
      by (auto simp: with_writer_def Let_def split: prod.split intro!: exI [of _ Other])
  next
    case (I_open df ok fs vid now)
    then show ?thesis
      by (auto simp: Let_def split: prod.split
          intro!: exI [of _ "Opens vid (int (length (content vid)))"] cache_step.step_open)
  next
    case (I_reserve df ok fs vid now)
    then show ?thesis
      using cache_step.step_reserve [of df ok fs vid "int (length (content vid))" now m]
      by (auto simp: prod_eq_iff intro!: exI [of _ "Opens vid (int (length (content vid)))"])
  next
    case (I_fill df vid b n)
    have "honest_label content (Fills vid (int b) (take n (drop b (content vid))))"
      using piece_of_take [of "content vid" "int b" n] by simp
    then show ?thesis unfolding I_fill
      by (intro exI [of _ "Fills vid (int b) (take n (drop b (content vid)))"])
        (auto simp: Let_def simp del: honest_label.simps split: prod.split intro!: cache_step.step_fill)
  qed (auto intro!: exI [of _ Other] cache_step.intros)
qed

lemma interfere_keeps: "f \<in> set (m_fills m) \<Longrightarrow> f \<in> set (m_fills (interfere content (Some f) a m))"
  by (cases a) (auto simp: with_writer_def Let_def in_set_remove1 split: prod.split option.split)

lemma interfere_inv: "machine_inv content m \<Longrightarrow> machine_inv content (interfere content mine a m)"
  using interfere_step [of content m mine a] machine_inv_step by metis

lemma interferes_inv: "machine_inv content m \<Longrightarrow> machine_inv content (fold (interfere content mine) as m)"
  by (induction as arbitrary: m) (simp_all add: interfere_inv)

lemma interferes_keep:
  "f \<in> set (m_fills m) \<Longrightarrow> f \<in> set (m_fills (fold (interfere content (Some f)) as m))"
  by (induction as arbitrary: m) (simp_all add: interfere_keeps)

lemma write_blocks_inv:
  assumes "machine_inv content m" and "0 \<le> b" and "piece_of (content vid) b d"
  shows "machine_inv content (write_blocks content df ok now during vid b d m)"
proof -
  obtain c fo where wb: "write_blocks_begin df vid b d (m_cache m) = (c, fo)"
    by (cases "write_blocks_begin df vid b d (m_cache m)")
  let ?m1 = "m\<lparr>m_cache := c, m_fills := (case fo of None \<Rightarrow> m_fills m | Some x \<Rightarrow> x # m_fills m)\<rparr>"
  have m1: "machine_inv content ?m1"
    using machine_inv_step [OF cache_step.step_fill [OF assms(2) wb]] assms(1,3) by simp
  show ?thesis
  proof (cases fo)
    case None
    then show ?thesis using m1 by (simp add: write_blocks_def wb)
  next
    case (Some f)
    let ?m2 = "fold (interfere content (Some f)) (during b) ?m1"
    have "f \<in> set (m_fills ?m2)" by (rule interferes_keep) (simp add: Some)
    from machine_inv_step [OF cache_step.step_filled [OF this, of ok now]] interferes_inv [OF m1]
    show ?thesis by (simp add: write_blocks_def wb Some Let_def)
  qed
qed

text \<open>The counters have no part in the invariant.\<close>

lemma cache_inv_counters:
  "cache_inv (m\<lparr>m_cache := (m_cache m)\<lparr>c_hits := h\<rparr>\<rparr>) = cache_inv m"
  "cache_inv (m\<lparr>m_cache := (m_cache m)\<lparr>c_misses := h\<rparr>\<rparr>) = cache_inv m"
  by (simp_all add: cache_inv_def cache_ok_def budget_def used_bytes_def fills_ok_def writer_ok_def)

lemma data_inv_counters:
  "data_inv content (m\<lparr>m_cache := (m_cache m)\<lparr>c_hits := h\<rparr>\<rparr>) = data_inv content m"
  "data_inv content (m\<lparr>m_cache := (m_cache m)\<lparr>c_misses := h\<rparr>\<rparr>) = data_inv content m"
  by (simp_all add: data_inv_def writer_good_def)

lemma machine_inv_count:
  "machine_inv content (m\<lparr>m_cache := count_hit (m_cache m)\<rparr>) = machine_inv content m"
  "machine_inv content (machine_miss m) = machine_inv content m"
  unfolding machine_inv_def count_hit_def machine_miss_def count_miss_def
  by (simp_all only: cache_inv_counters data_inv_counters)

lemma machine_inv_touch:
  assumes "machine_inv content m"
  shows "machine_inv content (touch now vid t m)"
proof -
  have "cache_inv (m\<lparr>m_cache := on_entry vid t (\<lambda>e. e\<lparr>e_last_access := now\<rparr>) (m_cache m)\<rparr>)"
    using assms by (intro cache_inv_on_entry)
      (auto simp: machine_inv_def entry_mono_def entry_ok_def blocks_def charged_bytes_def
        present_bytes_def block_length_cong [of "_\<lparr>e_last_access := now\<rparr>"])
  moreover have "tame content (m_cache m) (on_entry vid t (\<lambda>e. e\<lparr>e_last_access := now\<rparr>) (m_cache m))"
    by (intro tame_on_entry entry_data_mono_same) simp_all
  ultimately show ?thesis using assms data_inv_tame unfolding machine_inv_def touch_def by blast
qed

lemma machine_entry:
  assumes "machine_inv content m" and "map_of (c_entries (m_cache m)) vid = Some e"
  shows "entry_ok e" and "e_size e = int (length (content vid))" and "entry_good content vid e"
  using assms cache_inv_entries(2) [of m vid e] map_of_SomeD [OF assms(2)]
  by (auto simp: machine_inv_def data_inv_def entry_good_def)

lemma map_of_on_entry:
  "map_of (c_entries (on_entry k t f c)) j =
     (if j = k then map_option (\<lambda>e. if e_token e = t then f e else e) (map_of (c_entries c) k)
      else map_of (c_entries c) j)"
  by (auto simp: on_entry_def update_conv' split: option.split)

lemma has_range_touch: "cache_has_range (m_cache (touch now vid t m)) vid b x = cache_has_range (m_cache m) vid b x"
  by (auto simp: cache_has_range_def touch_def entry_def map_of_on_entry has_range_def split: option.split)

text \<open>What the reading task relies on: the stretch stays on disk.\<close>

lemma read_loop_exact:
  assumes env: "\<And>p m. machine_inv content m \<and> cache_has_range (m_cache m) vid b x
      \<Longrightarrow> machine_inv content (env p m) \<and> cache_has_range (m_cache (env p m)) vid b x"
    and "machine_inv content m" and "cache_has_range (m_cache m) vid b x"
    and "0 \<le> b" and "b \<le> p" and "p \<le> x + 1" and x: "x < int (length (content vid))"
  shows "stream_bytes (fst (read_loop env vid p x m)) = subrange (content vid) p x
    \<and> snd (fst (read_loop env vid p x m)) = None \<and> machine_inv content (snd (read_loop env vid p x m))"
  using assms(2-6)
proof (induction "nat (x + 1 - p)" arbitrary: p m rule: less_induct)
  case less
  show ?case
  proof (cases "p \<le> x")
    case True
    let ?n = "min (int READ_CHUNK) (x - p + 1)" and ?m1 = "env p m"
    have m1: "machine_inv content ?m1" "cache_has_range (m_cache ?m1) vid b x"
      using env less.prems(1,2) by blast+
    then obtain cur where cur: "entry (m_cache ?m1) vid = Some cur" "has_range cur b x"
      by (auto simp: cache_has_range_def split: option.splits)
    note ok = machine_entry [OF m1(1) cur(1) [unfolded entry_def]]
    have n: "0 < ?n" "p + ?n \<le> x + 1" using True by (auto simp: READ_CHUNK_def)
    have "content vid \<noteq> []" using x less.prems(3,4) True by auto
    then have same: "subrange (e_data cur) b x = subrange (content vid) b x"
      using has_range_bytes [OF ok(1,3) cur(2)] ok(2) x less.prems(3,4) True by simp
    have part: "subrange xs p (p + ?n - 1) = subrange (subrange xs b x) (p - b) (p - b + ?n - 1)" for xs :: bytes
      using subrange_subrange [of b "p - b" "p - b + ?n - 1" x xs] less.prems(3,4) n by (simp add: algebra_simps)
    let ?chunk = "subrange (e_data cur) p (p + ?n - 1)"
    have chunk: "?chunk = subrange (content vid) p (p + ?n - 1)"
      by (subst (1 2) part) (simp only: same)
    have len: "int (length ?chunk) = ?n"
      unfolding chunk using n less.prems(3,4) x by (subst length_subrange) auto
    then have ne: "?chunk \<noteq> []" using n(1) by auto
    have IH: "stream_bytes (fst (read_loop env vid (p + ?n) x ?m1)) = subrange (content vid) (p + ?n) x
        \<and> snd (fst (read_loop env vid (p + ?n) x ?m1)) = None
        \<and> machine_inv content (snd (read_loop env vid (p + ?n) x ?m1))"
      using n True less.prems(3,4) m1 by (intro less.hyps) auto
    have "read_loop env vid p x m = (take_over ([?chunk], None) (fst (read_loop env vid (p + ?n) x ?m1)),
        snd (read_loop env vid (p + ?n) x ?m1))"
      using True ne len cur(1) by (subst read_loop.simps) (simp add: Let_def split: prod.split)
    moreover have "subrange (content vid) p x = ?chunk @ subrange (content vid) (p + ?n) x"
      unfolding chunk using subrange_split [of p "p + ?n" x "content vid"] n less.prems(3,4) by simp
    ultimately show ?thesis using IH by (simp add: take_over_def stream_bytes_def)
  next
    case False
    then show ?thesis using less.prems(1) by (simp add: read_loop.simps stream_bytes_def)
  qed
qed

lemma sparing_keeps:
  "machine_inv content m \<and> cache_has_range (m_cache m) vid b x
    \<Longrightarrow> machine_inv content (sparing content vid b x acts m) \<and> cache_has_range (m_cache (sparing content vid b x acts m)) vid b x"
  unfolding sparing_def by (induction acts arbitrary: m) (simp_all add: Let_def interfere_inv)

lemma machine_read_good:
  assumes "machine_inv content m" and "0 \<le> b" and "b \<le> x" and "x < int (length (content vid))"
  shows "delivers (fst (machine_read content acts now vid b x m)) (subrange (content vid) b x)
    \<and> machine_inv content (snd (machine_read content acts now vid b x m))"
proof -
  let ?m = "m\<lparr>m_cache := count_hit (m_cache m)\<rparr>"
  let ?env = "\<lambda>p. sparing content vid b x (acts p)"
  have inv: "machine_inv content ?m" using assms(1) by (simp add: machine_inv_count)
  show ?thesis
  proof (cases "cache_has_range (m_cache ?m) vid b x")
    case True
    then obtain e where e: "entry (m_cache ?m) vid = Some e" "has_range e b x"
      by (auto simp: cache_has_range_def split: option.splits)
    let ?m1 = "touch now vid (e_token e) ?m"
    have "e_size e = int (length (content vid))" using machine_entry(2) [OF inv] e(1) by (simp add: entry_def)
    then have eq: "machine_read content acts now vid b x m = read_loop ?env vid b x ?m1"
      using e assms(2-4) by (simp add: machine_read_def read_steps_def Let_def)
    from read_loop_exact [where env = ?env and b = b and p = b and m = ?m1, OF sparing_keeps
        machine_inv_touch [OF inv] _ assms(2)] True assms
    show ?thesis unfolding eq by (auto simp: delivers_def has_range_touch)
  next
    case False
    then have "machine_read content acts now vid b x m = (raising (KeyError vid), ?m)"
      using machine_entry(2) [OF inv, of vid] assms(2-4)
      by (auto simp: machine_read_def read_steps_def cache_has_range_def entry_def Let_def split: option.splits)
    then show ?thesis using inv by (simp add: delivers_def raising_def stream_bytes_def)
  qed
qed

interpretation rt: read_through "machine_inv content" "machine_read content acts now vid"
    "write_blocks content df ok now during vid" machine_miss "content vid"
  for content acts now vid df ok during
  by unfold_locales (simp_all add: machine_read_good write_blocks_inv machine_inv_count)

section \<open>An entry displaced under a read\<close>

text \<open>A cache with one complete version of two chunks, all of whose bytes are 7.\<close>

definition big_content :: "string \<Rightarrow> bytes" where
  "big_content vid = replicate (2 * READ_CHUNK) 7"

definition big_entry :: cache_entry where
  "big_entry = \<lparr>e_fs = ''fs'', e_size = int (2 * READ_CHUNK), e_block_size = 65536, e_present = replicate 32 True,
     e_last_access = 0, e_pins = 0, e_writing = False, e_inflight = 0, e_pinned_at = 0,
     e_token = 0, e_data = big_content ''v1''\<rparr>"

definition big_machine :: cmachine where
  "big_machine = \<lparr>m_cache = (empty_cache (example_config\<lparr>cc_max_size_mb := 4\<rparr>))\<lparr>c_entries := [(''v1'', big_entry)], c_next_token := 1\<rparr>,
     m_fills = [], m_writers = []\<rparr>"

text \<open>Before the second chunk is read the entry is evicted, and another read reserves it again.\<close>

definition displacing :: "int \<Rightarrow> interference list" where
  "displacing p = (if p = int READ_CHUNK then [I_evict, I_reserve (\<lambda>_. None) True ''fs'' ''v1'' 1] else [])"

lemma subrange_replicate:
  assumes "0 \<le> b" and "e < int n"
  shows "subrange (replicate n v) b e = replicate (nat (e - b + 1)) v"
proof -
  have "nat (e - b + 1) \<le> n - nat b" using assms by arith
  then have "min (nat (e - b + 1)) (n - nat b) = nat (e - b + 1)" by simp
  then show ?thesis by (simp add: subrange_def)
qed

lemma big_entry_ok: "entry_ok big_entry" "charged_bytes big_entry = int (2 * READ_CHUNK)"
proof -
  show ok: "entry_ok big_entry"
    by (simp add: big_entry_def big_content_def entry_ok_def blocks_for_def READ_CHUNK_def)
  have "list_all id (e_present big_entry)" by (simp add: big_entry_def list_all_iff)
  from present_bytes_complete [OF ok this] show "charged_bytes big_entry = int (2 * READ_CHUNK)"
    by (simp add: charged_bytes_def big_entry_def)
qed

lemma big_machine_inv: "machine_inv big_content big_machine"
proof -
  have "entry_good big_content ''v1'' big_entry"
    by (auto simp: entry_good_def good_def big_entry_def big_content_def)
  moreover have "used_bytes (m_cache big_machine) = int (2 * READ_CHUNK)"
    using big_entry_ok(2) by (simp add: used_bytes_def big_machine_def)
  ultimately show ?thesis
    using big_entry_ok(1)
    by (auto simp: machine_inv_def data_inv_def cache_inv_def cache_ok_def fills_ok_def budget_def big_machine_def
        empty_cache_def dict_ok_def READ_CHUNK_def example_config_def block_bytes_def max_size_bytes_def big_entry_def)
qed

definition displaced_entry :: cache_entry where
  "displaced_entry = new_entry (m_cache big_machine) ''fs'' (int (2 * READ_CHUNK)) 1 False"

lemma displaced:
  "entry (m_cache (fold (interfere big_content None) (displacing (int READ_CHUNK)) (touch 1 ''v1'' 0 big_machine))) ''v1''
     = Some displaced_entry"
proof -
  let ?c = "(m_cache big_machine)\<lparr>c_entries := []\<rparr>"
  have "evict_unpinned (m_cache (touch 1 ''v1'' 0 big_machine)) = ?c"
    by (simp add: touch_def big_machine_def on_entry_def evict_unpinned_def big_entry_def evictable_def remove_many_def
        drop_entry_def)
  moreover have "make_room (\<lambda>_. None) 0 True None ?c = (?c, True)"
    by (simp add: make_room_def make_room_loop_list over_bytes_def over_files_def over_disk_def used_bytes_def
        lru_order_def big_machine_def empty_cache_def example_config_def max_size_bytes_def)
  then have "map_of (c_entries (fst (reserve (\<lambda>_. None) True ''fs'' ''v1'' (int (2 * READ_CHUNK)) 1 ?c))) ''v1''
      = Some displaced_entry"
    by (simp add: reserve_def Let_def dict_has_def add_entry_def displaced_entry_def new_entry_def big_machine_def
        empty_cache_def example_config_def)
  ultimately show ?thesis by (simp add: displacing_def entry_def big_content_def)
qed

text \<open>C40: the cached part of a read is not protected against eviction. The range is checked
  once, the file is opened again for every chunk, and nothing pins the entry: when it is
  evicted after the first chunk and another read reserves the version again, the file at the
  path is the new, sparse one, and the rest of the read is zeros, without an error.\<close>

theorem displaced_read_serves_zeros:
  "machine_inv big_content big_machine
   \<and> stream_bytes (fst (read_steps (\<lambda>p. fold (interfere big_content None) (displacing p)) 1 ''v1'' 0
        (int (2 * READ_CHUNK) - 1) big_machine)) = replicate READ_CHUNK 7 @ replicate READ_CHUNK 0
   \<and> snd (fst (read_steps (\<lambda>p. fold (interfere big_content None) (displacing p)) 1 ''v1'' 0
        (int (2 * READ_CHUNK) - 1) big_machine)) = None"
proof -
  let ?env = "\<lambda>p. fold (interfere big_content None) (displacing p)" and ?n = "int READ_CHUNK"
  let ?m = "touch 1 ''v1'' 0 big_machine"
  let ?m' = "?env ?n ?m"
  have n: "0 < ?n" by (simp add: READ_CHUNK_def)
  have size: "e_size big_entry = 2 * ?n" "e_token big_entry = 0" by (simp_all add: big_entry_def)
  have "has_range big_entry 0 (2 * ?n - 1)"
    using n by (auto simp: has_range_def size) (simp add: big_entry_def subrange_def list_all_iff)
  then have steps: "read_steps ?env 1 ''v1'' 0 (2 * ?n - 1) big_machine = read_loop ?env ''v1'' 0 (2 * ?n - 1) ?m"
    using n by (simp add: read_steps_def entry_def big_machine_def size Let_def)
  have e0: "entry (m_cache (?env 0 ?m)) ''v1'' = Some (big_entry\<lparr>e_last_access := 1\<rparr>)"
    using n by (simp add: displacing_def touch_def big_machine_def on_entry_def entry_def size)
  have c0: "subrange (e_data (big_entry\<lparr>e_last_access := 1\<rparr>)) 0 (0 + min ?n (2 * ?n - 1 - 0 + 1) - 1) = replicate READ_CHUNK 7"
    using n by (simp add: big_entry_def big_content_def subrange_replicate)
  have c1: "subrange (e_data displaced_entry) ?n (?n + min ?n (2 * ?n - 1 - ?n + 1) - 1) = replicate READ_CHUNK 0"
    using n by (simp add: displaced_entry_def new_entry_def subrange_replicate)
  have env0: "?env 0 ?m = ?m" using n by (simp add: displacing_def)
  have last: "read_loop ?env ''v1'' (2 * ?n) (2 * ?n - 1) ?m' = (([], None), ?m')"
    by (simp add: read_loop.simps)
  have "read_loop ?env ''v1'' ?n (2 * ?n - 1) ?m = (([replicate READ_CHUNK 0], None), ?m')"
    using n displaced c1 last by (subst read_loop.simps) (simp add: Let_def take_over_def)
  then have "read_loop ?env ''v1'' 0 (2 * ?n - 1) ?m = (([replicate READ_CHUNK 7, replicate READ_CHUNK 0], None), ?m')"
    using n e0 c0 env0 by (subst read_loop.simps) (simp add: Let_def take_over_def)
  then show ?thesis using big_machine_inv steps by (simp add: stream_bytes_def)
qed

section \<open>The missing runs of an entry\<close>

lemma int_div_mult_le: "0 < d \<Longrightarrow> x div d * d \<le> (x :: int)"
  using div_mult_mod_eq [of x d] pos_mod_sign [of d x] by linarith

lemma block_last_bounds:
  assumes "entry_ok e" and "t < blocks e"
  shows "block_begin e t \<le> block_last e t" and "block_last e t < e_size e"
    and "Suc t < blocks e \<Longrightarrow> block_last e t = block_begin e (Suc t) - 1"
    and "\<not> Suc t < blocks e \<Longrightarrow> block_last e t = e_size e - 1"
proof -
  show last: "\<not> Suc t < blocks e \<Longrightarrow> block_last e t = e_size e - 1"
    by (simp add: block_last_def block_begin_def block_length_def)
  show inner: "Suc t < blocks e \<Longrightarrow> block_last e t = block_begin e (Suc t) - 1"
    by (simp add: block_last_def block_begin_def block_length_def algebra_simps)
  show "block_begin e t \<le> block_last e t" using block_length_pos(1) [OF assms] by (simp add: block_last_def)
  have sz: "0 < e_size e" using assms entry_empty [of e] by (cases "e_size e = 0") (auto simp: entry_ok_def)
  show "block_last e t < e_size e"
  proof (cases "Suc t < blocks e")
    case True
    then have "int (Suc t) * e_block_size e \<le> (int (blocks e) - 1) * e_block_size e"
      using assms(1) by (intro mult_right_mono) (auto simp: entry_ok_def)
    then show ?thesis using inner [OF True] entry_blocks(2) [OF assms(1) sz] by (simp add: block_begin_def)
  next
    case False
    then show ?thesis using last by simp
  qed
qed

lemma runs_cover_within:
  assumes "runs_cover e lst i rs" and ok: "entry_ok e" and lst: "lst = nat (x div e_block_size e)"
    and "nat (b div e_block_size e) \<le> i" and "p = max b (block_begin e i)"
    and b: "0 \<le> b" "b \<le> x" "x < e_size e"
  shows "runs_within (e_size e) b x p rs"
  using assms(1,4,5)
proof (induction arbitrary: p rule: runs_cover.induct)
  case (cover_done i)
  then show ?case by simp
next
  case (cover_run i s t rs)
  let ?bs = "e_block_size e"
  have bs: "0 < ?bs" using ok by (simp add: entry_ok_def)
  have xdiv: "int lst = x div ?bs" using lst b bs by (simp add: pos_imp_zdiv_nonneg_iff)
  have x: "int lst * ?bs \<le> x" unfolding xdiv using bs by (simp add: int_div_mult_le)
  have "x < int (blocks e) * ?bs" using b(3) entry_blocks(1) [OF ok] by linarith
  then have "x div ?bs < int (blocks e)" by (rule int_div_less [OF bs])
  then have lt: "lst < blocks e" using xdiv by simp
  then have t: "t < blocks e" using cover_run.hyps(3) by simp
  have bmono: "block_begin e j \<le> block_begin e k" if "j \<le> k" for j k
    using that bs by (simp add: block_begin_def mult_right_mono)
  have b_next: "b < block_begin e (Suc k)" if "i \<le> k" for k
  proof -
    have "b div ?bs < int (Suc k)" using cover_run.prems(1) that b(1) by linarith
    then have "(b div ?bs + 1) * ?bs \<le> int (Suc k) * ?bs" using bs by (intro mult_right_mono) auto
    moreover have "b < (b div ?bs + 1) * ?bs"
      using div_mult_mod_eq [of b ?bs] pos_mod_bound [OF bs, of b] by (simp only: distrib_right mult_1)
    ultimately show ?thesis by (simp add: block_begin_def)
  qed
  have sx: "block_begin e s \<le> x" using bmono [of s lst] cover_run.hyps(2,3) x by (simp add: block_begin_def)
  have pt: "block_begin e i \<le> block_last e t" "block_begin e s \<le> block_last e t"
    using bmono [of i t] bmono [of s t] block_last_bounds(1) [OF ok t] cover_run.hyps(1,2) by linarith+
  have bt: "b \<le> block_last e t"
    using block_last_bounds(3,4) [OF ok t] b_next [of t] cover_run.hyps(1,2) b by (cases "Suc t < blocks e") auto
  have rest: "runs_within (e_size e) b x (min (block_last e t) x + 1) rs"
  proof (cases "t < lst")
    case True
    then have eq: "block_last e t = block_begin e (Suc t) - 1" using block_last_bounds(3) [OF ok t] lt by simp
    have "block_begin e (Suc t) \<le> x" using bmono [of "Suc t" lst] True x by (simp add: block_begin_def)
    then have "min (block_last e t) x + 1 = max b (block_begin e (Suc t))"
      using eq b_next [of t] cover_run.hyps(1,2) by simp
    then show ?thesis using cover_run.IH cover_run.prems(1) cover_run.hyps(1,2) by simp
  next
    case False
    then have "rs = []" using cover_run.hyps(3,7) by (auto elim: runs_cover.cases)
    then show ?thesis by simp
  qed
  have "max (block_begin e s) b = max (block_begin e s) p"
    using cover_run.prems(2) bmono [OF cover_run.hyps(1)] by simp
  moreover have "0 \<le> block_begin e s" using bs by (simp add: block_begin_def)
  ultimately show ?case
    using rest sx pt bt block_last_bounds(2) [OF ok t] cover_run.prems(2) by simp
qed

lemma missing_runs_within:
  assumes ok: "entry_ok e" and "0 \<le> b" and "b \<le> x" and "x < e_size e"
  shows "runs_within (e_size e) b x b (missing_runs e b x)"
proof -
  let ?bs = "e_block_size e"
  have bs: "0 < ?bs" using ok by (simp add: entry_ok_def)
  let ?i = "nat (b div ?bs)" and ?l = "nat (x div ?bs)"
  have "b div ?bs \<le> x div ?bs" using assms bs by (simp add: zdiv_mono1)
  then have "?i \<le> Suc ?l" by simp
  moreover have "min x (e_size e - 1) = x" "e_size e \<noteq> 0" using assms by auto
  ultimately have "runs_cover e ?l ?i (missing_runs e b x)"
    using runs_loop_cover [of ?i ?l e] by (simp add: missing_runs_def Let_def del: upt_Suc)
  moreover have "b = max b (block_begin e ?i)"
    using assms(2) bs int_div_mult_le [OF bs, of b] by (simp add: block_begin_def pos_imp_zdiv_nonneg_iff)
  ultimately show ?thesis using runs_cover_within [OF _ ok refl] assms by blast
qed

end
