(* ===== verification/MultiSource.thy ===== *)
theory MultiSource
  imports ContentMap "HOL-Library.Multiset"
begin

text \<open>
  Multi-source reads (\<open>src/tgdcfs/core/multisource.py\<close>): one read shared by every store that has
  the version complete. The range is cut into pieces, the workers of every store claim pieces
  inside a window, a failed piece goes back for the other stores, a store that fails twice in
  a row is benched, and the consumer hands out the pieces in order. A transition system whose
  steps are what a task does between taking and leaving the condition's lock; waiting on the
  condition and being notified are part of the state, so that a lost wake-up would show.

  The bytes handed out are exactly the range or a prefix of it, the window bounds what is held
  in memory, every run ends, and it ends with the whole range when one store answers every
  download. When no store does, a run can hang: a piece may wait for a store that has been
  benched in the meantime.
\<close>

section \<open>The scheduler\<close>

definition BENCH_AFTER :: nat where "BENCH_AFTER = 2"
definition DEFAULT_SLOTS :: int where "DEFAULT_SLOTS = 2"

text \<open>\<open>read_slots\<close>: the store's attribute is absent, or its conversion by \<open>int\<close> gives a number or raises.\<close>

definition read_slots :: "int res option \<Rightarrow> int" where
  "read_slots attr = (case attr of Some (Inr n) \<Rightarrow> max 1 n | _ \<Rightarrow> DEFAULT_SLOTS)"

record piece =
  p_index :: nat
  p_begin :: int
  p_end :: int
  p_tried :: "string list"

text \<open>\<open>range(start, stop, step)\<close> for a positive step.\<close>

definition py_range :: "int \<Rightarrow> int \<Rightarrow> int \<Rightarrow> int list" where
  "py_range start stop step = map (\<lambda>i. start + int i * step) [0..<nat ((stop - start + step - 1) div step)]"

definition read_pieces :: "int \<Rightarrow> int \<Rightarrow> int \<Rightarrow> piece list" where
  "read_pieces b e piece_size =
     map (\<lambda>(i, x). \<lparr>p_index = i, p_begin = x, p_end = min (x + piece_size - 1) e, p_tried = []\<rparr>)
       (enumerate 0 (py_range b (e + 1) (max 1 piece_size)))"

text \<open>What does not change during a read; \<open>mr_worker_views\<close> has one entry per worker, its store's view.\<close>

record multi_read_cfg =
  mr_views :: "store_view list"
  mr_size :: int
  mr_pieces :: "piece list"
  mr_window :: nat
  mr_worker_views :: "store_view list"

datatype worker = Ready | Waiting | Fetching piece | Returned

record multi_state =
  ms_results :: "(nat, bytes) dict"
  ms_next :: nat
  ms_pending :: "piece list"
  ms_failures :: "string \<Rightarrow> nat"
  ms_benched :: "string list"
  ms_fatal :: "exn option"
  ms_workers :: "worker list"
  ms_consumer_waits :: bool
  ms_out :: "bytes list"
  ms_done :: "exn option option"

definition multi_read_init ::
    "(string \<Rightarrow> int) \<Rightarrow> store_view list \<Rightarrow> int \<Rightarrow> int \<Rightarrow> int \<Rightarrow> int \<Rightarrow> int \<Rightarrow> (multi_read_cfg \<times> multi_state) res" where
  "multi_read_init slots views sz b e piece_size window =
     (if views = [] then Inl TechnicalError
      else
        let ps = read_pieces b e piece_size;
            ws = concat (map (\<lambda>v. replicate (nat (max 1 (slots (sv_store v)))) v) views) in
        Inr (\<lparr>mr_views = views, mr_size = sz, mr_pieces = ps, mr_window = nat (max 1 window), mr_worker_views = ws\<rparr>,
             \<lparr>ms_results = [], ms_next = 0, ms_pending = ps, ms_failures = (\<lambda>_. 0), ms_benched = [], ms_fatal = None,
              ms_workers = replicate (length ws) Ready, ms_consumer_waits = False, ms_out = [], ms_done = None\<rparr>))"

subsection \<open>Workers\<close>

fun claim :: "string \<Rightarrow> nat \<Rightarrow> piece list \<Rightarrow> (piece \<times> piece list) option" where
  "claim key limit [] = None"
| "claim key limit (p # ps) =
     (if limit \<le> p_index p then None
      else if key \<notin> set (p_tried p) then Some (p, ps)
      else map_option (\<lambda>(q, qs). (q, p # qs)) (claim key limit ps))"

fun fetch_parts :: "download \<Rightarrow> string \<Rightarrow> (nat \<times> int \<times> int \<times> int) list \<Rightarrow> bytes res" where
  "fetch_parts dl key [] = Inr []"
| "fetch_parts dl key ((_, mid, part_begin, part_end) # parts) =
     (let s = dl key mid part_begin part_end in
      case snd s of
        Some ex \<Rightarrow> Inl ex
      | None \<Rightarrow> rbind (fetch_parts dl key parts) (\<lambda>out. Inr (stream_bytes s @ out)))"

definition fetch :: "download \<Rightarrow> int \<Rightarrow> store_view \<Rightarrow> piece \<Rightarrow> bytes res" where
  "fetch dl sz v p =
     rbind (map_range (sv_message_ids v) (sv_part_sizes v) sz (p_begin p) (p_end p)) (\<lambda>parts.
     rbind (fetch_parts dl (sv_store v) parts) (\<lambda>out.
       if int (length out) \<noteq> p_end p - p_begin p + 1 then Inl TechnicalError else Inr out))"

text \<open>\<open>notify_all\<close>: whoever waits on the condition looks again.\<close>

definition notify_all :: "multi_state \<Rightarrow> multi_state" where
  "notify_all s = s\<lparr>ms_workers := map (\<lambda>w. if w = Waiting then Ready else w) (ms_workers s), ms_consumer_waits := False\<rparr>"

definition set_worker :: "nat \<Rightarrow> worker \<Rightarrow> multi_state \<Rightarrow> multi_state" where
  "set_worker i w s = s\<lparr>ms_workers := (ms_workers s)[i := w]\<rparr>"

text \<open>One round of the inner loop of \<open>_worker\<close> under the lock.\<close>

definition worker_turn :: "multi_read_cfg \<Rightarrow> nat \<Rightarrow> multi_state \<Rightarrow> multi_state" where
  "worker_turn cfg i s =
     (let key = sv_store (mr_worker_views cfg ! i) in
      if ms_fatal s \<noteq> None \<or> length (mr_pieces cfg) \<le> ms_next s then set_worker i Returned s
      else if key \<in> set (ms_benched s) then set_worker i Returned s
      else case claim key (ms_next s + mr_window cfg) (ms_pending s) of
          Some (p, rest) \<Rightarrow> set_worker i (Fetching p) (s\<lparr>ms_pending := rest\<rparr>)
        | None \<Rightarrow>
            if ms_pending s = [] \<and> \<not> list_ex (\<lambda>p. ms_next s \<le> p_index p) (mr_pieces cfg)
            then set_worker i Returned s
            else set_worker i Waiting s)"

definition piece_failed :: "multi_read_cfg \<Rightarrow> nat \<Rightarrow> piece \<Rightarrow> multi_state \<Rightarrow> multi_state" where
  "piece_failed cfg i p s =
     (let key = sv_store (mr_worker_views cfg ! i);
          p' = p\<lparr>p_tried := List.insert key (p_tried p)\<rparr>;
          failures = (ms_failures s)(key := ms_failures s key + 1);
          benched = (if BENCH_AFTER \<le> failures key then List.insert key (ms_benched s) else ms_benched s);
          remaining = filter (\<lambda>v. sv_store v \<notin> set (p_tried p') \<and> sv_store v \<notin> set benched) (mr_views cfg);
          s1 = s\<lparr>ms_failures := failures, ms_benched := benched\<rparr>;
          s2 = (if remaining = [] then s1\<lparr>ms_fatal := Some TechnicalError\<rparr>
                else s1\<lparr>ms_pending := sort_key p_index (ms_pending s1 @ [p'])\<rparr>)
      in set_worker i (if key \<in> set benched then Returned else Ready) (notify_all s2))"

definition piece_fetched :: "multi_read_cfg \<Rightarrow> nat \<Rightarrow> piece \<Rightarrow> bytes \<Rightarrow> multi_state \<Rightarrow> multi_state" where
  "piece_fetched cfg i p data s =
     (let key = sv_store (mr_worker_views cfg ! i) in
      set_worker i Ready (notify_all
        (s\<lparr>ms_failures := (ms_failures s)(key := 0), ms_results := AList.update (p_index p) data (ms_results s)\<rparr>)))"

subsection \<open>The consumer\<close>

text \<open>
  One round of \<open>stream\<close> under the lock, with the \<open>yield\<close> that follows it. However it leaves,
  the \<open>finally\<close> clause cancels the workers.
\<close>

definition consumer_turn :: "multi_read_cfg \<Rightarrow> multi_state \<Rightarrow> multi_state" where
  "consumer_turn cfg s =
     (if length (mr_pieces cfg) \<le> ms_next s then s\<lparr>ms_done := Some None\<rparr>
      else case ms_fatal s of
          Some ex \<Rightarrow> s\<lparr>ms_done := Some (Some ex)\<rparr>
        | None \<Rightarrow> (case map_of (ms_results s) (ms_next s) of
              Some data \<Rightarrow>
                notify_all (s\<lparr>ms_results := AList.delete (ms_next s) (ms_results s), ms_next := ms_next s + 1,
                  ms_out := ms_out s @ [data]\<rparr>)
            | None \<Rightarrow>
                if list_all (\<lambda>w. w = Returned) (ms_workers s) \<and> ms_results s = []
                then s\<lparr>ms_done := Some (Some TechnicalError)\<rparr>
                else s\<lparr>ms_consumer_waits := True\<rparr>))"

text \<open>
  \<open>D\<close> holds of the ways the stores may answer; every fetch meets one of them, so a store may
  fail now and answer later.
\<close>

inductive multi_step :: "(download \<Rightarrow> bool) \<Rightarrow> multi_read_cfg \<Rightarrow> multi_state \<Rightarrow> multi_state \<Rightarrow> bool"
  for D cfg where
  turn: "ms_done s = None \<Longrightarrow> i < length (ms_workers s) \<Longrightarrow> ms_workers s ! i = Ready \<Longrightarrow>
    multi_step D cfg s (worker_turn cfg i s)"
| failed: "ms_done s = None \<Longrightarrow> i < length (ms_workers s) \<Longrightarrow> ms_workers s ! i = Fetching p \<Longrightarrow> D dl \<Longrightarrow>
    fetch dl (mr_size cfg) (mr_worker_views cfg ! i) p = Inl ex \<Longrightarrow> multi_step D cfg s (piece_failed cfg i p s)"
| fetched: "ms_done s = None \<Longrightarrow> i < length (ms_workers s) \<Longrightarrow> ms_workers s ! i = Fetching p \<Longrightarrow> D dl \<Longrightarrow>
    fetch dl (mr_size cfg) (mr_worker_views cfg ! i) p = Inr data \<Longrightarrow> multi_step D cfg s (piece_fetched cfg i p data s)"
| consume: "ms_done s = None \<Longrightarrow> \<not> ms_consumer_waits s \<Longrightarrow> multi_step D cfg s (consumer_turn cfg s)"

inductive multi_reach :: "(download \<Rightarrow> bool) \<Rightarrow> multi_read_cfg \<Rightarrow> multi_state \<Rightarrow> multi_state \<Rightarrow> bool"
  for D cfg s where
  reach_refl: "multi_reach D cfg s s"
| reach_step: "multi_reach D cfg s t \<Longrightarrow> multi_step D cfg t u \<Longrightarrow> multi_reach D cfg s u"

section \<open>Pieces\<close>

lemma read_pieces_nth:
  assumes "i < length (read_pieces b e ps)"
  shows "read_pieces b e ps ! i = \<lparr>p_index = i, p_begin = b + int i * max 1 ps,
    p_end = min (b + int i * max 1 ps + ps - 1) e, p_tried = []\<rparr>"
  using assms by (simp add: read_pieces_def nth_enumerate_eq py_range_def)

lemma read_pieces_index: "map p_index (read_pieces b e ps) = [0..<length (read_pieces b e ps)]"
  by (rule nth_equalityI) (simp_all add: read_pieces_nth)

lemma read_pieces_inside:
  assumes "i < length (read_pieces b e ps)" and "0 < ps"
  shows "b + int i * ps \<le> e"
proof -
  let ?N = "(e + 1 - b + ps - 1) div ps"
  have "int i < ?N" using assms by (simp add: read_pieces_def py_range_def max_def split: if_splits)
  then have "(int i + 1) * ps \<le> ?N * ps" using assms(2) by (intro mult_right_mono) auto
  also have "?N * ps \<le> e + 1 - b + ps - 1"
    using div_mult_mod_eq [of "e + 1 - b + ps - 1" ps] pos_mod_sign [OF assms(2), of "e + 1 - b + ps - 1"] by linarith
  finally show ?thesis by (simp add: algebra_simps)
qed

lemma read_pieces_length:
  assumes "0 < ps" and "b \<le> e"
  shows "e < b + int (length (read_pieces b e ps)) * ps"
proof -
  let ?N = "(e + 1 - b + ps - 1) div ps"
  have "0 \<le> ?N" using assms by (simp add: pos_imp_zdiv_nonneg_iff)
  then have "int (length (read_pieces b e ps)) = ?N"
    using assms by (simp add: read_pieces_def py_range_def max_def)
  moreover have "e + 1 - b + ps - 1 < ?N * ps + ps"
    using div_mult_mod_eq [of "e + 1 - b + ps - 1" ps] pos_mod_bound [OF assms(1), of "e + 1 - b + ps - 1"] by linarith
  ultimately have "e + 1 - b + ps - 1 < int (length (read_pieces b e ps)) * ps + ps" by (simp only:)
  then show ?thesis by linarith
qed

lemma read_pieces_prefix:
  assumes "0 \<le> b" and "0 < ps" and "k \<le> length (read_pieces b e ps)"
  shows "concat (map (\<lambda>p. subrange xs (p_begin p) (p_end p)) (take k (read_pieces b e ps)))
    = subrange xs b (min (b + int k * ps - 1) e)"
  using assms(3)
proof (induction k)
  case (Suc k)
  let ?p = "read_pieces b e ps ! k"
  have k: "k < length (read_pieces b e ps)" using Suc by simp
  note i = read_pieces_inside [OF k assms(2)]
  have p: "p_begin ?p = b + int k * ps" "p_end ?p = min (b + int k * ps + ps - 1) e"
    using read_pieces_nth [OF k] assms(2) by (simp_all add: max_def split: if_splits)
  have m: "min (b + int k * ps - 1) e = b + int k * ps - 1" using i by simp
  have "subrange xs b (p_end ?p) = subrange xs b (b + int k * ps - 1) @ subrange xs (b + int k * ps) (p_end ?p)"
    using i assms p by (intro subrange_split) auto
  moreover have "concat (map (\<lambda>p. subrange xs (p_begin p) (p_end p)) (take k (read_pieces b e ps)))
      = subrange xs b (b + int k * ps - 1)" using Suc m by simp
  moreover have "min (b + int (Suc k) * ps - 1) e = p_end ?p" by (simp add: p(2) algebra_simps)
  ultimately show ?case using k by (simp add: take_Suc_conv_app_nth p)
qed simp

lemma read_pieces_cover:
  assumes "0 \<le> b" and "b \<le> e" and "0 < ps"
  shows "concat (map (\<lambda>p. subrange xs (p_begin p) (p_end p)) (read_pieces b e ps)) = subrange xs b e"
proof -
  have "min (b + int (length (read_pieces b e ps)) * ps - 1) e = e"
    using read_pieces_length [OF assms(3,2)] by simp
  with read_pieces_prefix [OF assms(1,3) order_refl, where xs = xs and e = e] show ?thesis by simp
qed

section \<open>Claiming\<close>

lemma claim_Some:
  assumes "claim key limit ps = Some (p, rest)"
  shows "mset ps = add_mset p (mset rest)" and "p_index p < limit" and "key \<notin> set (p_tried p)"
  using assms by (induction ps arbitrary: rest) (auto split: if_splits)

lemma claim_subset: "claim key limit ps = Some (p, rest) \<Longrightarrow> set rest \<subseteq> set ps"
  using claim_Some(1) by (metis set_mset_mset set_mset_add_mset_insert subset_insertI)

lemma claim_sorted:
  assumes "claim key limit ps = Some (p, rest)" and "sorted (map p_index ps)"
  shows "sorted (map p_index rest)"
  using assms
proof (induction ps arbitrary: rest)
  case (Cons q ps)
  then show ?case using claim_subset [of key limit ps p] by (fastforce split: if_splits)
qed simp

lemma claim_None:
  assumes "sorted (map p_index ps)"
  shows "claim key limit ps = None \<longleftrightarrow> (\<forall>p \<in> set ps. p_index p < limit \<longrightarrow> key \<in> set (p_tried p))"
  using assms by (induction ps) auto

section \<open>Where the pieces are\<close>

fun flight :: "worker \<Rightarrow> piece list" where
  "flight (Fetching p) = [p]"
| "flight w = []"

definition flights :: "worker list \<Rightarrow> piece list" where
  "flights ws = concat (map flight ws)"

definition held :: "multi_state \<Rightarrow> nat list" where
  "held s = map p_index (ms_pending s) @ map p_index (flights (ms_workers s)) @ map fst (ms_results s)"

lemma flights_update:
  assumes "i < length ws"
  shows "mset (flights (ws[i := w])) + mset (flight (ws ! i)) = mset (flights ws) + mset (flight w)"
proof -
  have "flights ws = flights (take i ws) @ flight (ws ! i) @ flights (drop (Suc i) ws)"
    by (subst id_take_nth_drop [OF assms]) (simp add: flights_def)
  moreover have "flights (ws[i := w]) = flights (take i ws) @ flight w @ flights (drop (Suc i) ws)"
    by (subst upd_conv_take_nth_drop [OF assms]) (simp add: flights_def)
  ultimately show ?thesis by simp
qed

lemma flights_woken [simp]: "flights (map (\<lambda>w. if w = Waiting then Ready else w) ws) = flights ws"
  by (auto simp: flights_def intro!: arg_cong [where f = concat] map_cong)

lemma flights_mem: "p \<in> set (flights ws) \<longleftrightarrow> (\<exists>i < length ws. ws ! i = Fetching p)"
proof -
  have "p \<in> set (flight w) \<longleftrightarrow> w = Fetching p" for w by (cases w) auto
  then show ?thesis by (auto simp: flights_def in_set_conv_nth)
qed

lemma woken_nth: "i < length ws \<Longrightarrow> map (\<lambda>w. if w = Waiting then Ready else w) ws ! i = (if ws ! i = Waiting then Ready else ws ! i)"
  by simp

lemma flight_idle: "w \<in> {Ready, Waiting, Returned} \<Longrightarrow> flight w = []"
  by auto

lemma notify_all_simps [simp]:
  "ms_results (notify_all s) = ms_results s" "ms_next (notify_all s) = ms_next s" "ms_pending (notify_all s) = ms_pending s"
  "ms_failures (notify_all s) = ms_failures s" "ms_benched (notify_all s) = ms_benched s" "ms_fatal (notify_all s) = ms_fatal s"
  "ms_out (notify_all s) = ms_out s" "ms_done (notify_all s) = ms_done s" "\<not> ms_consumer_waits (notify_all s)"
  "ms_workers (notify_all s) = map (\<lambda>w. if w = Waiting then Ready else w) (ms_workers s)"
  by (simp_all add: notify_all_def)

lemma set_worker_simps [simp]:
  "ms_results (set_worker i w s) = ms_results s" "ms_next (set_worker i w s) = ms_next s"
  "ms_pending (set_worker i w s) = ms_pending s" "ms_failures (set_worker i w s) = ms_failures s"
  "ms_benched (set_worker i w s) = ms_benched s" "ms_fatal (set_worker i w s) = ms_fatal s"
  "ms_out (set_worker i w s) = ms_out s" "ms_done (set_worker i w s) = ms_done s"
  "ms_consumer_waits (set_worker i w s) = ms_consumer_waits s" "ms_workers (set_worker i w s) = (ms_workers s)[i := w]"
  by (simp_all add: set_worker_def)

lemma held_notify [simp]: "held (notify_all s) = held s"
  by (simp add: held_def)

lemma held_worker:
  assumes "i < length (ms_workers s)"
  shows "mset (held (set_worker i w s)) + mset (map p_index (flight (ms_workers s ! i)))
    = mset (held s) + mset (map p_index (flight w))"
proof -
  have "image_mset p_index (mset (flights ((ms_workers s)[i := w]))) + image_mset p_index (mset (flight (ms_workers s ! i)))
      = image_mset p_index (mset (flights (ms_workers s))) + image_mset p_index (mset (flight w))"
    using flights_update [OF assms] by (metis image_mset_union)
  then show ?thesis by (simp add: held_def ac_simps)
qed

text \<open>A turn of a worker moves pieces and loses none.\<close>

lemma worker_turn_held:
  assumes "i < length (ms_workers s)" and "ms_workers s ! i = Ready"
  shows "mset (held (worker_turn cfg i s)) = mset (held s)"
proof -
  let ?key = "sv_store (mr_worker_views cfg ! i)" and ?limit = "ms_next s + mr_window cfg"
  have idle: "mset (held (set_worker i w s)) = mset (held s)" if "flight w = []" for w
    using held_worker [OF assms(1), of w] assms(2) that by simp
  show ?thesis
  proof (cases "claim ?key ?limit (ms_pending s)")
    case None
    then show ?thesis by (simp add: worker_turn_def Let_def idle)
  next
    case (Some c)
    obtain p rest where c: "c = (p, rest)" by (cases c)
    have "mset (held (set_worker i (Fetching p) (s\<lparr>ms_pending := rest\<rparr>))) = mset (held (s\<lparr>ms_pending := rest\<rparr>)) + {#p_index p#}"
      using held_worker [of i "s\<lparr>ms_pending := rest\<rparr>" "Fetching p"] assms by simp
    also have "\<dots> = mset (held s)" using claim_Some(1) [of ?key ?limit "ms_pending s"] Some c by (simp add: held_def)
    finally show ?thesis using Some c by (simp add: worker_turn_def Let_def idle)
  qed
qed

lemma piece_fetched_held:
  assumes "i < length (ms_workers s)" and "ms_workers s ! i = Fetching p" and "p_index p \<notin> fst ` set (ms_results s)"
  shows "mset (held (piece_fetched cfg i p data s)) = mset (held s)"
  using held_worker [of i "notify_all (s\<lparr>ms_failures := f, ms_results := AList.update (p_index p) data (ms_results s)\<rparr>)" Ready for f] assms
  by (simp add: piece_fetched_def held_def update_new)

text \<open>The parts of the state after a failure.\<close>

abbreviation worker_key :: "multi_read_cfg \<Rightarrow> nat \<Rightarrow> string" where
  "worker_key cfg i \<equiv> sv_store (mr_worker_views cfg ! i)"

definition tried_by :: "string \<Rightarrow> piece \<Rightarrow> piece" where
  "tried_by key p = p\<lparr>p_tried := List.insert key (p_tried p)\<rparr>"

definition benched_after :: "string \<Rightarrow> multi_state \<Rightarrow> string list" where
  "benched_after key s = (if BENCH_AFTER \<le> ms_failures s key + 1 then List.insert key (ms_benched s) else ms_benched s)"

definition servers :: "multi_read_cfg \<Rightarrow> piece \<Rightarrow> string list \<Rightarrow> store_view list" where
  "servers cfg p benched = filter (\<lambda>v. sv_store v \<notin> set (p_tried p) \<and> sv_store v \<notin> set benched) (mr_views cfg)"

lemma tried_by_simps [simp]:
  "p_index (tried_by key p) = p_index p" "p_begin (tried_by key p) = p_begin p" "p_end (tried_by key p) = p_end p"
  "set (p_tried (tried_by key p)) = insert key (set (p_tried p))"
  "(tried_by key p)\<lparr>p_tried := keys\<rparr> = p\<lparr>p_tried := keys\<rparr>"
  by (simp_all add: tried_by_def)

lemma piece_failed_parts:
  defines "fails \<equiv> \<lambda>cfg i p s. servers cfg (tried_by (worker_key cfg i) p) (benched_after (worker_key cfg i) s) = []"
  shows "ms_results (piece_failed cfg i p s) = ms_results s" "ms_next (piece_failed cfg i p s) = ms_next s"
    "ms_out (piece_failed cfg i p s) = ms_out s" "ms_done (piece_failed cfg i p s) = ms_done s"
    "\<not> ms_consumer_waits (piece_failed cfg i p s)"
    "ms_benched (piece_failed cfg i p s) = benched_after (worker_key cfg i) s"
    "ms_failures (piece_failed cfg i p s) = (ms_failures s)(worker_key cfg i := ms_failures s (worker_key cfg i) + 1)"
    "ms_fatal (piece_failed cfg i p s) = (if fails cfg i p s then Some TechnicalError else ms_fatal s)"
    "ms_pending (piece_failed cfg i p s) = (if fails cfg i p s then ms_pending s
       else sort_key p_index (ms_pending s @ [tried_by (worker_key cfg i) p]))"
    "ms_workers (piece_failed cfg i p s) = (map (\<lambda>w. if w = Waiting then Ready else w) (ms_workers s))
       [i := if worker_key cfg i \<in> set (benched_after (worker_key cfg i) s) then Returned else Ready]"
  by (simp_all add: piece_failed_def Let_def benched_after_def servers_def tried_by_def fails_def)

lemma piece_fetched_parts:
  "ms_results (piece_fetched cfg i p data s) = AList.update (p_index p) data (ms_results s)"
  "ms_next (piece_fetched cfg i p data s) = ms_next s" "ms_out (piece_fetched cfg i p data s) = ms_out s"
  "ms_done (piece_fetched cfg i p data s) = ms_done s" "\<not> ms_consumer_waits (piece_fetched cfg i p data s)"
  "ms_benched (piece_fetched cfg i p data s) = ms_benched s" "ms_fatal (piece_fetched cfg i p data s) = ms_fatal s"
  "ms_failures (piece_fetched cfg i p data s) = (ms_failures s)(worker_key cfg i := 0)"
  "ms_pending (piece_fetched cfg i p data s) = ms_pending s"
  "ms_workers (piece_fetched cfg i p data s) = (map (\<lambda>w. if w = Waiting then Ready else w) (ms_workers s))[i := Ready]"
  by (simp_all add: piece_fetched_def Let_def)

lemma piece_failed_held:
  assumes "i < length (ms_workers s)" and "ms_workers s ! i = Fetching p"
  shows "(if servers cfg (tried_by (worker_key cfg i) p) (benched_after (worker_key cfg i) s) = [] then {#p_index p#} else {#})
    + mset (held (piece_failed cfg i p s)) = mset (held s)"
proof -
  let ?ws = "map (\<lambda>w. if w = Waiting then Ready else w) (ms_workers s)"
  have "mset (flights (?ws[i := if worker_key cfg i \<in> set (benched_after (worker_key cfg i) s) then Returned else Ready])) + {#p#}
      = mset (flights (ms_workers s))"
    using flights_update [of i ?ws] assms by (simp split: if_splits)
  from arg_cong [OF this, of "image_mset p_index"] show ?thesis
    by (auto simp: held_def piece_failed_parts ac_simps)
qed

section \<open>The scheduling invariant\<close>

text \<open>
  Every piece that is not handed out is pending, on its way or a result, once; while no piece
  has been given up these are all. Pieces on their way and results lie in the window.
\<close>

definition multi_inv :: "multi_read_cfg \<Rightarrow> multi_state \<Rightarrow> bool" where
  "multi_inv cfg s \<longleftrightarrow>
     length (ms_workers s) = length (mr_worker_views cfg)
     \<and> ms_next s \<le> length (mr_pieces cfg)
     \<and> distinct (held s) \<and> set (held s) \<subseteq> {ms_next s..<length (mr_pieces cfg)}
     \<and> (ms_fatal s = None \<longrightarrow> {ms_next s..<length (mr_pieces cfg)} \<subseteq> set (held s))
     \<and> sorted (map p_index (ms_pending s))
     \<and> (\<forall>p \<in> set (ms_pending s) \<union> set (flights (ms_workers s)). p\<lparr>p_tried := []\<rparr> = mr_pieces cfg ! p_index p)
     \<and> (\<forall>i < length (ms_workers s). \<forall>p. ms_workers s ! i = Fetching p \<longrightarrow> worker_key cfg i \<notin> set (p_tried p))
     \<and> (\<forall>j \<in> p_index ` set (flights (ms_workers s)) \<union> fst ` set (ms_results s). j < ms_next s + mr_window cfg)
     \<and> (ms_done s = Some None \<longrightarrow> ms_next s = length (mr_pieces cfg))
     \<and> (\<forall>e. ms_done s = Some (Some e) \<longrightarrow> ms_next s < length (mr_pieces cfg))"

lemma set_flights_update:
  assumes "i < length ws"
  shows "set (flights (ws[i := w])) \<subseteq> set (flights ws) \<union> set (flight w)"
  using arg_cong [OF flights_update [OF assms, of w], of set_mset] by auto

lemma multi_inv_range:
  "multi_inv cfg s \<Longrightarrow> length (ms_workers s) = length (mr_worker_views cfg)"
  "multi_inv cfg s \<Longrightarrow> ms_next s \<le> length (mr_pieces cfg)"
  "multi_inv cfg s \<Longrightarrow> set (held s) \<subseteq> {ms_next s..<length (mr_pieces cfg)}"
  "multi_inv cfg s \<Longrightarrow> ms_fatal s = None \<Longrightarrow> {ms_next s..<length (mr_pieces cfg)} \<subseteq> set (held s)"
  unfolding multi_inv_def by blast+

lemma multi_inv_workers:
  assumes inv: "multi_inv cfg s" and "length (ms_workers t) = length (ms_workers s)" and "ms_next t = ms_next s"
    and "distinct (held t)" and "set (held t) \<subseteq> set (held s)"
    and "ms_fatal t = None \<Longrightarrow> ms_fatal s = None \<and> set (held s) \<subseteq> set (held t)"
    and "sorted (map p_index (ms_pending t))"
    and "\<And>p. p \<in> set (ms_pending t) \<Longrightarrow> p\<lparr>p_tried := []\<rparr> = mr_pieces cfg ! p_index p"
    and "\<And>i p. i < length (ms_workers s) \<Longrightarrow> ms_workers t ! i = Fetching p \<Longrightarrow>
      p\<lparr>p_tried := []\<rparr> = mr_pieces cfg ! p_index p \<and> worker_key cfg i \<notin> set (p_tried p) \<and> p_index p < ms_next s + mr_window cfg"
    and "\<And>j. j \<in> fst ` set (ms_results t) \<Longrightarrow> j < ms_next s + mr_window cfg"
    and "ms_done t = None"
  shows "multi_inv cfg t"
proof -
  have fl: "p\<lparr>p_tried := []\<rparr> = mr_pieces cfg ! p_index p \<and> p_index p < ms_next s + mr_window cfg"
    if "p \<in> set (flights (ms_workers t))" for p
    using that assms(2,9) unfolding flights_mem by metis
  have old: "ms_next s \<le> length (mr_pieces cfg)" "length (ms_workers s) = length (mr_worker_views cfg)"
    "set (held t) \<subseteq> {ms_next s..<length (mr_pieces cfg)}"
    "ms_fatal t = None \<longrightarrow> {ms_next s..<length (mr_pieces cfg)} \<subseteq> set (held t)"
    using multi_inv_range [OF inv] assms(5,6) by auto
  have worker: "\<forall>i < length (ms_workers t). \<forall>p. ms_workers t ! i = Fetching p \<longrightarrow> worker_key cfg i \<notin> set (p_tried p)"
    using assms(2,9) by simp
  show ?thesis
    unfolding multi_inv_def assms(3,11)
  proof (intro conjI)
    show "length (ms_workers t) = length (mr_worker_views cfg)" using assms(2) old(2) by (rule trans)
    show "\<forall>p \<in> set (ms_pending t) \<union> set (flights (ms_workers t)). p\<lparr>p_tried := []\<rparr> = mr_pieces cfg ! p_index p"
      using fl assms(8) by blast
    show "\<forall>j \<in> p_index ` set (flights (ms_workers t)) \<union> fst ` set (ms_results t). j < ms_next s + mr_window cfg"
      using fl assms(10) by blast
  qed (use old assms(4,7) worker in \<open>simp_all only: option.distinct(1) simp_thms\<close>)
qed

lemma worker_turn_split:
  "(worker_turn cfg i s = set_worker i Returned s
      \<and> (ms_fatal s \<noteq> None \<or> length (mr_pieces cfg) \<le> ms_next s \<or> worker_key cfg i \<in> set (ms_benched s)
         \<or> \<not> list_ex (\<lambda>p. ms_next s \<le> p_index p) (mr_pieces cfg)))
   \<or> (worker_turn cfg i s = set_worker i Waiting s \<and> ms_fatal s = None \<and> ms_next s < length (mr_pieces cfg)
      \<and> worker_key cfg i \<notin> set (ms_benched s)
      \<and> claim (worker_key cfg i) (ms_next s + mr_window cfg) (ms_pending s) = None)
   \<or> (\<exists>p rest. claim (worker_key cfg i) (ms_next s + mr_window cfg) (ms_pending s) = Some (p, rest)
      \<and> worker_turn cfg i s = set_worker i (Fetching p) (s\<lparr>ms_pending := rest\<rparr>))"
  by (cases "claim (worker_key cfg i) (ms_next s + mr_window cfg) (ms_pending s)")
    (auto simp: worker_turn_def Let_def)

lemma multi_inv_fetching:
  assumes "multi_inv cfg s" and "i < length (ms_workers s)" and "ms_workers s ! i = Fetching p"
  shows "p\<lparr>p_tried := []\<rparr> = mr_pieces cfg ! p_index p" and "worker_key cfg i \<notin> set (p_tried p)"
    and "p_index p < ms_next s + mr_window cfg"
proof -
  have "p \<in> set (flights (ms_workers s))" using assms(2,3) by (auto simp: flights_mem)
  then show "p\<lparr>p_tried := []\<rparr> = mr_pieces cfg ! p_index p" "p_index p < ms_next s + mr_window cfg"
    using assms(1) unfolding multi_inv_def by blast+
  show "worker_key cfg i \<notin> set (p_tried p)" using assms unfolding multi_inv_def by blast
qed

lemma multi_inv_pending:
  "multi_inv cfg s \<Longrightarrow> p \<in> set (ms_pending s) \<Longrightarrow> p\<lparr>p_tried := []\<rparr> = mr_pieces cfg ! p_index p"
  "multi_inv cfg s \<Longrightarrow> sorted (map p_index (ms_pending s))"
  "multi_inv cfg s \<Longrightarrow> distinct (held s)"
  "multi_inv cfg s \<Longrightarrow> j \<in> fst ` set (ms_results s) \<Longrightarrow> j < ms_next s + mr_window cfg"
  unfolding multi_inv_def by blast+

lemma multi_inv_turn:
  assumes inv: "multi_inv cfg s" and i: "i < length (ms_workers s)" "ms_workers s ! i = Ready" and "ms_done s = None"
  shows "multi_inv cfg (worker_turn cfg i s)"
proof -
  note h = worker_turn_held [OF i, of cfg]
  have held: "distinct (held (worker_turn cfg i s))" "set (held (worker_turn cfg i s)) = set (held s)"
    using mset_eq_imp_distinct_iff [OF h] mset_eq_setD [OF h] multi_inv_pending(3) [OF inv] by auto
  note facts = multi_inv_pending [OF inv] multi_inv_fetching [OF inv] assms(4) held i
  consider (idle) w where "worker_turn cfg i s = set_worker i w s" "w \<in> {Waiting, Returned}"
    | (claims) p rest where "claim (worker_key cfg i) (ms_next s + mr_window cfg) (ms_pending s) = Some (p, rest)"
      "worker_turn cfg i s = set_worker i (Fetching p) (s\<lparr>ms_pending := rest\<rparr>)"
    using worker_turn_split [of cfg i s] by blast
  then show ?thesis
  proof cases
    case (idle w)
    show ?thesis
      by (rule multi_inv_workers [OF inv]) (use idle facts in \<open>auto simp: nth_list_update split: if_splits\<close>)
  next
    case (claims p rest)
    have "p \<in> set (ms_pending s)" using claim_Some(1) [OF claims(1)] by (metis set_mset_mset union_single_eq_member)
    note p = multi_inv_pending(1) [OF inv this] claim_Some(2,3) [OF claims(1)]
    have rest: "q\<lparr>p_tried := []\<rparr> = mr_pieces cfg ! p_index q" if "q \<in> set rest" for q
      using multi_inv_pending(1) [OF inv] claim_subset [OF claims(1)] that by blast
    show ?thesis
      by (rule multi_inv_workers [OF inv])
        (use claims(2) facts p rest claim_sorted [OF claims(1)] in \<open>auto simp: nth_list_update split: if_splits\<close>)
  qed
qed

lemma fetching_unheld:
  assumes "multi_inv cfg s" and "i < length (ms_workers s)" and "ms_workers s ! i = Fetching p"
  shows "p_index p \<notin> fst ` set (ms_results s)" and "p_index p < length (mr_pieces cfg)" and "ms_next s \<le> p_index p"
proof -
  have p: "p \<in> set (flights (ms_workers s))" using assms(2,3) by (auto simp: flights_mem)
  then show "p_index p \<notin> fst ` set (ms_results s)" "p_index p < length (mr_pieces cfg)" "ms_next s \<le> p_index p"
    using assms(1) by (auto simp: multi_inv_def held_def)
qed

lemma multi_inv_fetched:
  assumes inv: "multi_inv cfg s" and i: "i < length (ms_workers s)" "ms_workers s ! i = Fetching p" and "ms_done s = None"
  shows "multi_inv cfg (piece_fetched cfg i p data s)"
proof -
  note un = fetching_unheld [OF inv i]
  note h = piece_fetched_held [OF i un(1), of cfg data]
  have held: "distinct (held (piece_fetched cfg i p data s))" "set (held (piece_fetched cfg i p data s)) = set (held s)"
    using mset_eq_imp_distinct_iff [OF h] mset_eq_setD [OF h] multi_inv_pending(3) [OF inv] by auto
  show ?thesis
    by (rule multi_inv_workers [OF inv])
      (use held multi_inv_pending [OF inv] multi_inv_fetching [OF inv] i un(1) assms(4) in
        \<open>auto simp: piece_fetched_parts nth_list_update update_new split: if_splits\<close>)
qed

lemma multi_inv_failed:
  assumes inv: "multi_inv cfg s" and i: "i < length (ms_workers s)" "ms_workers s ! i = Fetching p" and "ms_done s = None"
  shows "multi_inv cfg (piece_failed cfg i p s)"
proof -
  let ?t = "piece_failed cfg i p s" and ?key = "worker_key cfg i"
  let ?gone = "servers cfg (tried_by ?key p) (benched_after ?key s) = []"
  have h: "mset (held s) = mset ((if ?gone then [p_index p] else []) @ held ?t)"
    using piece_failed_held [OF i, of cfg] by (auto split: if_splits)
  have held: "distinct (held ?t)" "set (held ?t) \<subseteq> set (held s)" "\<not> ?gone \<longrightarrow> set (held s) \<subseteq> set (held ?t)"
    using mset_eq_imp_distinct_iff [OF h] mset_eq_setD [OF h] multi_inv_pending(3) [OF inv] by (auto split: if_splits)
  have pend: "q\<lparr>p_tried := []\<rparr> = mr_pieces cfg ! p_index q" if "q \<in> set (ms_pending ?t)" for q
    using that multi_inv_pending(1) [OF inv] multi_inv_fetching(1) [OF inv i]
    by (auto simp: piece_failed_parts split: if_splits)
  show ?thesis
  proof (rule multi_inv_workers [OF inv _ _ held(1,2) _ _ pend])
    show "sorted (map p_index (ms_pending ?t))"
      using multi_inv_pending(2) [OF inv] by (simp add: piece_failed_parts)
  qed (use held(3) multi_inv_pending(4) [OF inv] multi_inv_fetching [OF inv] assms(4) i(1) in
      \<open>auto simp: piece_failed_parts nth_list_update split: if_splits\<close>)
qed

lemma held_emitted:
  assumes "distinct (map fst rs)" and "k \<in> fst ` set rs"
  shows "mset (map fst rs) = add_mset k (mset (map fst (AList.delete k rs)))"
  using assms by (induction rs) (auto simp: delete_absent split: if_splits)

lemma next_removed:
  assumes "insert k H = {k..<n}" and "k \<notin> H"
  shows "H = {Suc k..<n}"
proof -
  have "H = {k..<n} - {k}" using assms by blast
  also have "\<dots> = {Suc k..<n}" by (rule set_eqI) (simp add: Suc_le_eq, arith)
  finally show ?thesis .
qed

lemma multi_inv_consumer:
  assumes inv: "multi_inv cfg s" and "ms_done s = None"
  shows "multi_inv cfg (consumer_turn cfg s)"
proof -
  let ?n = "length (mr_pieces cfg)"
  have next_le: "ms_next s \<le> ?n" and fields: "length (ms_workers s) = length (mr_worker_views cfg)"
    and range: "set (held s) \<subseteq> {ms_next s..<?n}" "ms_fatal s = None \<longrightarrow> {ms_next s..<?n} \<subseteq> set (held s)"
    using multi_inv_range [OF inv] by auto
  have same: "multi_inv cfg (s\<lparr>ms_done := d, ms_consumer_waits := w\<rparr>)"
    if "d = Some None \<longrightarrow> ms_next s = ?n" "\<And>e. d = Some (Some e) \<Longrightarrow> ms_next s < ?n" for d w
    using inv that by (simp add: multi_inv_def held_def)
  have waits: "multi_inv cfg (s\<lparr>ms_consumer_waits := True\<rparr>)" using inv by (simp add: multi_inv_def held_def)
  show ?thesis
  proof (cases "?n \<le> ms_next s \<or> ms_fatal s \<noteq> None \<or> map_of (ms_results s) (ms_next s) = None")
    case True
    then show ?thesis
      using same [of "Some None" "ms_consumer_waits s"] same [of "Some (ms_fatal s)" "ms_consumer_waits s"]
        waits same [of "Some (Some TechnicalError)" "ms_consumer_waits s"] next_le assms(2)
      by (auto simp: consumer_turn_def split: option.splits)
  next
    case False
    then obtain data where data: "map_of (ms_results s) (ms_next s) = Some data" and lt: "ms_next s < ?n"
      and fatal: "ms_fatal s = None" by auto
    let ?t = "notify_all (s\<lparr>ms_results := AList.delete (ms_next s) (ms_results s), ms_next := ms_next s + 1,
                  ms_out := ms_out s @ [data]\<rparr>)"
    have t: "consumer_turn cfg s = ?t" using data lt fatal by (simp add: consumer_turn_def)
    have "mset (held s) = mset (ms_next s # held ?t)"
      using held_emitted [of "ms_results s" "ms_next s"] multi_inv_pending(3) [OF inv] data
      by (force simp: held_def dest: map_of_SomeD)
    from mset_eq_imp_distinct_iff [OF this] mset_eq_setD [OF this] multi_inv_pending(3) [OF inv]
    have d: "distinct (held ?t)" "ms_next s \<notin> set (held ?t)" "set (held s) = insert (ms_next s) (set (held ?t))" by auto
    have "set (held ?t) = {Suc (ms_next s)..<?n}"
      using next_removed [OF _ d(2)] range d(3) fatal by (metis subset_antisym)
    moreover have "\<forall>j \<in> p_index ` set (flights (ms_workers ?t)) \<union> fst ` set (ms_results ?t). j < ms_next ?t + mr_window cfg"
      using multi_inv_pending(4) [OF inv] multi_inv_fetching(3) [OF inv] delete_subset
      by (fastforce simp: less_Suc_eq flights_mem)
    moreover have "\<forall>i < length (ms_workers ?t). \<forall>p. ms_workers ?t ! i = Fetching p \<longrightarrow> worker_key cfg i \<notin> set (p_tried p)"
      using multi_inv_fetching(2) [OF inv] by (auto split: if_splits)
    ultimately show ?thesis
      using inv d(1) lt assms(2) unfolding t by (simp add: multi_inv_def)
  qed
qed

lemma multi_inv_step:
  assumes "multi_step D cfg s t" and "multi_inv cfg s"
  shows "multi_inv cfg t"
  using assms
  by (induction rule: multi_step.induct)
    (auto intro: multi_inv_turn multi_inv_failed multi_inv_fetched multi_inv_consumer)

lemma multi_read_init_parts:
  assumes "multi_read_init slots views sz b e ps w = Inr (cfg, s)"
  shows "mr_views cfg = views" "mr_size cfg = sz" "mr_pieces cfg = read_pieces b e ps" "mr_window cfg = nat (max 1 w)"
    "set (mr_worker_views cfg) = set views" "views \<noteq> []"
    "ms_results s = []" "ms_next s = 0" "ms_pending s = read_pieces b e ps" "ms_benched s = []" "ms_fatal s = None"
    "ms_workers s = replicate (length (mr_worker_views cfg)) Ready" "ms_out s = []" "ms_done s = None"
    "\<not> ms_consumer_waits s" "ms_failures s = (\<lambda>_. 0)"
  using assms by (auto simp: multi_read_init_def Let_def split: if_splits)

lemma flights_replicate [simp]: "flights (replicate n Ready) = []"
  by (simp add: flights_def)

lemma multi_inv_init:
  assumes "multi_read_init slots views sz b e ps w = Inr (cfg, s)"
  shows "multi_inv cfg s"
proof -
  note i = multi_read_init_parts [OF assms]
  have "held s = [0..<length (read_pieces b e ps)]" by (simp add: held_def i read_pieces_index)
  moreover have "p\<lparr>p_tried := []\<rparr> = read_pieces b e ps ! p_index p" if "p \<in> set (read_pieces b e ps)" for p
    using that by (auto simp: in_set_conv_nth read_pieces_nth)
  ultimately show ?thesis by (simp add: multi_inv_def i read_pieces_index)
qed

lemma multi_reach_inv:
  assumes "multi_reach D cfg s0 s" and "multi_read_init slots views sz b e ps w = Inr (cfg, s0)"
  shows "multi_inv cfg s"
  using assms by (induction rule: multi_reach.induct) (auto intro: multi_inv_init multi_inv_step)

section \<open>The bytes are the range's\<close>

text \<open>
  A download that delivers bytes of the message from the start of the range on, however it
  ends: \<open>_fetch\<close> compares lengths and so needs no more.
\<close>

definition truncating :: "download \<Rightarrow> store_content \<Rightarrow> bool" where
  "truncating dl content \<longleftrightarrow> (\<forall>key mid c b e. content key mid = Some c \<longrightarrow> 0 \<le> b \<longrightarrow> b \<le> e
     \<longrightarrow> e < int (length c) \<longrightarrow> prefix (stream_bytes (dl key mid b e)) (subrange c b e))"

lemma honest_truncating: "honest dl content \<Longrightarrow> truncating dl content"
  using serves_prefix by (auto simp: honest_def truncating_def)

definition view_holds :: "store_content \<Rightarrow> bytes \<Rightarrow> store_view \<Rightarrow> bool" where
  "view_holds content data v \<longleftrightarrow> (\<exists>P n. sv_part_sizes v = sizes_from P 0 n \<and> length (sv_message_ids v) = n
     \<and> (\<forall>j < n. content (sv_store v) (sv_message_ids v ! j) = Some (P j)) \<and> bytes_from P 0 n = data)"

lemma fetch_parts_prefix:
  assumes "\<forall>(j, mid, b, e) \<in> set ps. prefix (stream_bytes (dl key mid b e)) (piece_bytes P (j, mid, b, e))"
    and "fetch_parts dl key ps = Inr out"
  shows "length out \<le> length (concat (map (piece_bytes P) ps))
    \<and> (length out = length (concat (map (piece_bytes P) ps)) \<longrightarrow> out = concat (map (piece_bytes P) ps))"
  using assms
proof (induction dl key ps arbitrary: out rule: fetch_parts.induct)
  case (2 dl key j mid b e ps)
  then obtain r where r: "fetch_parts dl key ps = Inr r" "out = stream_bytes (dl key mid b e) @ r"
    by (auto simp: rbind_Inr_iff Let_def split: option.splits)
  have none: "snd (dl key mid b e) = None" using "2.prems"(2) by (auto simp: Let_def split: option.splits)
  have pre: "prefix (stream_bytes (dl key mid b e)) (piece_bytes P (j, mid, b, e))" using "2.prems"(1) by simp
  from "2.IH" [OF refl none] "2.prems"(1) r(1)
  have IH: "length r \<le> length (concat (map (piece_bytes P) ps))"
    "length r = length (concat (map (piece_bytes P) ps)) \<longrightarrow> r = concat (map (piece_bytes P) ps)" by auto
  note len = prefix_length_le [OF pre]
  have "stream_bytes (dl key mid b e) = piece_bytes P (j, mid, b, e)"
    if "length (stream_bytes (dl key mid b e)) = length (piece_bytes P (j, mid, b, e))"
    using pre that by (auto simp: prefix_def)
  then show ?case using IH len r(2) by auto
qed simp

lemma view_map_range:
  assumes "view_holds content data v" and "0 \<le> b" and "b \<le> e" and "e < int (length data)"
  obtains P ps where "map_range (sv_message_ids v) (sv_part_sizes v) (int (length data)) b e = Inr ps"
    and "concat (map (piece_bytes P) ps) = subrange data b e"
    and "\<And>j mid x y. (j, mid, x, y) \<in> set ps \<Longrightarrow> content (sv_store v) mid = Some (P j) \<and> 0 \<le> x \<and> x \<le> y \<and> y < int (length (P j))"
proof -
  obtain P n where P: "sv_part_sizes v = sizes_from P 0 n" "length (sv_message_ids v) = n" "bytes_from P 0 n = data"
    "\<forall>j < n. content (sv_store v) (sv_message_ids v ! j) = Some (P j)" using assms(1) by (auto simp: view_holds_def)
  have em: "emitted P (sv_message_ids v) n (subrange data b e) (map_range (sv_message_ids v) (sv_part_sizes v) (int (length data)) b e)"
    using map_range_parts [of b P n e "sv_message_ids v"] assms(2-4) P(1,3)
    by (cases "data = []") (auto simp: end_of_bounds sum_sizes_from)
  then obtain ps where ps: "map_range (sv_message_ids v) (sv_part_sizes v) (int (length data)) b e = Inr ps"
    "list_all (piece_ok P (sv_message_ids v) n) ps" "concat (map (piece_bytes P) ps) = subrange data b e"
    using P(2) by (auto simp: emitted_def split: sum.splits)
  have "content (sv_store v) mid = Some (P j) \<and> 0 \<le> x \<and> x \<le> y \<and> y < int (length (P j))" if "(j, mid, x, y) \<in> set ps" for j mid x y
    using ps(2) that P(4) by (auto simp: list_all_iff piece_ok_def)
  with ps(1,3) show ?thesis by (rule that)
qed

lemma fetch_exact:
  assumes "truncating dl content" and "view_holds content data v" and "0 \<le> p_begin p" and "p_begin p \<le> p_end p"
    and "p_end p < int (length data)" and "fetch dl (int (length data)) v p = Inr out"
  shows "out = subrange data (p_begin p) (p_end p)"
proof -
  obtain P ps where ps: "map_range (sv_message_ids v) (sv_part_sizes v) (int (length data)) (p_begin p) (p_end p) = Inr ps"
    "concat (map (piece_bytes P) ps) = subrange data (p_begin p) (p_end p)"
    "\<And>j mid x y. (j, mid, x, y) \<in> set ps \<Longrightarrow> content (sv_store v) mid = Some (P j) \<and> 0 \<le> x \<and> x \<le> y \<and> y < int (length (P j))"
    using view_map_range [OF assms(2-5)] by metis
  have out: "fetch_parts dl (sv_store v) ps = Inr out" "int (length out) = p_end p - p_begin p + 1"
    using assms(6) by (auto simp: fetch_def ps(1) rbind_Inr_iff split: if_splits)
  have "\<forall>(j, mid, x, y) \<in> set ps. prefix (stream_bytes (dl (sv_store v) mid x y)) (piece_bytes P (j, mid, x, y))"
    using ps(3) assms(1) by (auto simp: truncating_def piece_bytes_def)
  from fetch_parts_prefix [OF this out(1)] out(2) ps(2) show ?thesis
    using assms(3-5) by (simp add: length_subrange)
qed

definition cfg_holds :: "store_content \<Rightarrow> bytes \<Rightarrow> multi_read_cfg \<Rightarrow> bool" where
  "cfg_holds content data cfg \<longleftrightarrow> mr_size cfg = int (length data) \<and> (\<forall>v \<in> set (mr_worker_views cfg). view_holds content data v)
     \<and> (\<forall>p \<in> set (mr_pieces cfg). 0 \<le> p_begin p \<and> p_begin p \<le> p_end p \<and> p_end p < int (length data))"

abbreviation piece_data :: "bytes \<Rightarrow> piece \<Rightarrow> bytes" where
  "piece_data data p \<equiv> subrange data (p_begin p) (p_end p)"

definition bytes_inv :: "bytes \<Rightarrow> multi_read_cfg \<Rightarrow> multi_state \<Rightarrow> bool" where
  "bytes_inv data cfg s \<longleftrightarrow> (\<forall>(j, x) \<in> set (ms_results s). x = piece_data data (mr_pieces cfg ! j))
     \<and> ms_out s = map (piece_data data) (take (ms_next s) (mr_pieces cfg))"

lemma piece_stripped:
  assumes "p\<lparr>p_tried := []\<rparr> = q"
  shows "p_begin p = p_begin q" and "p_end p = p_end q"
  using assms by auto

lemma worker_turn_keeps:
  "ms_results (worker_turn cfg i s) = ms_results s" "ms_next (worker_turn cfg i s) = ms_next s"
  "ms_out (worker_turn cfg i s) = ms_out s" "ms_fatal (worker_turn cfg i s) = ms_fatal s"
  "ms_benched (worker_turn cfg i s) = ms_benched s" "ms_consumer_waits (worker_turn cfg i s) = ms_consumer_waits s"
  "ms_done (worker_turn cfg i s) = ms_done s" "ms_failures (worker_turn cfg i s) = ms_failures s"
  using worker_turn_split [of cfg i s] by auto

lemma bytes_inv_step:
  assumes "multi_step D cfg s t" and "\<forall>dl. D dl \<longrightarrow> truncating dl content" and "cfg_holds content data cfg"
    and "multi_inv cfg s" and "bytes_inv data cfg s"
  shows "bytes_inv data cfg t"
  using assms
proof (induction rule: multi_step.induct)
  case (turn s i)
  then show ?case by (simp add: bytes_inv_def worker_turn_keeps)
next
  case (failed s i p dl ex)
  then show ?case by (simp add: bytes_inv_def piece_failed_parts)
next
  case (fetched s i p dl x)
  note inv = fetched.prems(3) and i = fetched.hyps(2,3)
  note st = multi_inv_fetching(1) [OF inv i] and un = fetching_unheld [OF inv i]
  have "mr_pieces cfg ! p_index p \<in> set (mr_pieces cfg)" using un(2) by simp
  then have r: "0 \<le> p_begin p" "p_begin p \<le> p_end p" "p_end p < int (length data)"
    using fetched.prems(2) piece_stripped [OF st] by (auto simp: cfg_holds_def)
  have "view_holds content data (mr_worker_views cfg ! i)" "fetch dl (int (length data)) (mr_worker_views cfg ! i) p = Inr x"
    using fetched.prems(2) fetched.hyps(5) i(1) multi_inv_range(1) [OF inv] by (auto simp: cfg_holds_def)
  then have "x = piece_data data (mr_pieces cfg ! p_index p)"
    using fetch_exact [of dl content data] fetched.prems(1) fetched.hyps(4) r piece_stripped [OF st] by metis
  then show ?case
    using fetched.prems(4) un(1) by (auto simp: bytes_inv_def piece_fetched_parts update_new)
next
  case (consume s)
  show ?case
  proof (cases "\<exists>x. ms_next s < length (mr_pieces cfg) \<and> ms_fatal s = None \<and> map_of (ms_results s) (ms_next s) = Some x")
    case True
    then obtain x where x: "ms_next s < length (mr_pieces cfg)" "ms_fatal s = None" "map_of (ms_results s) (ms_next s) = Some x"
      by blast
    then have "x = piece_data data (mr_pieces cfg ! ms_next s)"
      using consume.prems(4) map_of_SomeD by (fastforce simp: bytes_inv_def)
    then show ?thesis
      using x consume.prems(4) delete_subset [of "ms_next s" "ms_results s"]
      by (auto simp: bytes_inv_def consumer_turn_def take_Suc_conv_app_nth)
  next
    case False
    then have "ms_results (consumer_turn cfg s) = ms_results s" "ms_out (consumer_turn cfg s) = ms_out s"
      "ms_next (consumer_turn cfg s) = ms_next s"
      by (auto simp: consumer_turn_def split: option.splits)
    then show ?thesis using consume.prems(4) by (simp add: bytes_inv_def)
  qed
qed

lemma multi_read_cfg_holds:
  assumes "multi_read_init slots views (int (length data)) b e ps w = Inr (cfg, s0)"
    and "\<forall>v \<in> set views. view_holds content data v" and "0 \<le> b" and "e < int (length data)" and "0 < ps"
  shows "cfg_holds content data cfg"
proof -
  have "0 \<le> p_begin p \<and> p_begin p \<le> p_end p \<and> p_end p < int (length data)" if "p \<in> set (read_pieces b e ps)" for p
  proof -
    obtain i where i: "i < length (read_pieces b e ps)" "p = read_pieces b e ps ! i" using \<open>p \<in> _\<close> by (auto simp: in_set_conv_nth)
    show ?thesis
      using read_pieces_nth [OF i(1)] read_pieces_inside [OF i(1) assms(5)] i(2) assms(3-5) by (simp add: max_def split: if_splits)
  qed
  then show ?thesis using assms(2) by (auto simp: cfg_holds_def multi_read_init_parts [OF assms(1)])
qed

lemma multi_reach_data:
  assumes "multi_reach D cfg s0 s" and init: "multi_read_init slots views (int (length data)) b e ps w = Inr (cfg, s0)"
    and "\<forall>dl. D dl \<longrightarrow> truncating dl content" and "\<forall>v \<in> set views. view_holds content data v"
    and "0 \<le> b" and "e < int (length data)" and "0 < ps"
  shows "bytes_inv data cfg s"
  using assms(1)
proof (induction rule: multi_reach.induct)
  case reach_refl
  then show ?case by (simp add: bytes_inv_def multi_read_init_parts [OF init])
next
  case (reach_step t u)
  then show ?case
    using bytes_inv_step [OF _ assms(3) multi_read_cfg_holds [OF init assms(4-7)] multi_reach_inv [OF _ init]] by blast
qed

lemma multi_read_serves:
  assumes init: "multi_read_init slots views (int (length data)) b e ps w = Inr (cfg, s0)"
    and "multi_reach D cfg s0 s" and "\<forall>dl. D dl \<longrightarrow> truncating dl content" and "\<forall>v \<in> set views. view_holds content data v"
    and "0 \<le> b" and "b \<le> e" and "e < int (length data)" and "0 < ps"
  shows "prefix (concat (ms_out s)) (subrange data b e)" and "ms_done s = Some r \<Longrightarrow> serves (ms_out s, r) (subrange data b e)"
proof -
  let ?ps = "read_pieces b e ps"
  note i = multi_read_init_parts [OF init]
  have out: "concat (ms_out s) = concat (map (piece_data data) (take (ms_next s) ?ps))"
    using multi_reach_data [OF assms(2) init assms(3,4,5,7,8)] by (simp add: bytes_inv_def i)
  have cover: "concat (map (piece_data data) (take (ms_next s) ?ps)) @ concat (map (piece_data data) (drop (ms_next s) ?ps))
      = subrange data b e"
    using read_pieces_cover [OF assms(5,6,8), of data] by (metis append_take_drop_id concat_append map_append)
  show "prefix (concat (ms_out s)) (subrange data b e)" unfolding out cover [symmetric] by simp
  assume dn: "ms_done s = Some r"
  have "multi_inv cfg s" by (rule multi_reach_inv [OF assms(2) init])
  then have fin: "r = None \<longrightarrow> ms_next s = length ?ps" "r \<noteq> None \<longrightarrow> ms_next s < length ?ps"
    using dn by (auto simp: multi_inv_def i)
  have cfg: "cfg_holds content data cfg" using multi_read_cfg_holds [OF init assms(4,5,7,8)] .
  have "concat (map (piece_data data) (drop (ms_next s) ?ps)) \<noteq> []" if lt: "ms_next s < length ?ps"
  proof -
    have "?ps ! ms_next s \<in> set ?ps" using lt by simp
    then have "piece_data data (?ps ! ms_next s) \<noteq> []"
      using cfg by (intro subrange_nonempty) (simp_all add: cfg_holds_def i)
    then show ?thesis using lt by (simp add: Cons_nth_drop_Suc [symmetric])
  qed
  then show "serves (ms_out s, r) (subrange data b e)"
    using fin unfolding cover [symmetric] by (cases r) (simp_all add: out strict_prefix_def)
qed

lemma multi_read_window:
  assumes "multi_reach D cfg s0 s" and init: "multi_read_init slots views sz b e ps w = Inr (cfg, s0)"
  shows "length (ms_results s) + length (flights (ms_workers s)) \<le> nat (max 1 w)"
proof -
  let ?l = "map p_index (flights (ms_workers s)) @ map fst (ms_results s)"
  have inv: "multi_inv cfg s" by (rule multi_reach_inv [OF assms])
  then have "distinct ?l" by (auto simp: multi_inv_def held_def)
  moreover have "set ?l \<subseteq> {ms_next s..<ms_next s + mr_window cfg}"
  proof
    fix j assume j: "j \<in> set ?l"
    then have "j \<in> set (held s)" by (simp add: held_def)
    then have "ms_next s \<le> j" using multi_inv_range(3) [OF inv] by auto
    moreover have "j < ms_next s + mr_window cfg" using inv j unfolding multi_inv_def set_append set_map by blast
    ultimately show "j \<in> {ms_next s..<ms_next s + mr_window cfg}" by simp
  qed
  ultimately have "length ?l \<le> card {ms_next s..<ms_next s + mr_window cfg}"
    by (metis card_mono distinct_card finite_atLeastLessThan)
  then show ?thesis by (simp add: multi_read_init_parts [OF init])
qed

section \<open>Nobody sleeps for nothing\<close>

text \<open>
  Whoever waits has nothing to do at the moment, and a worker that has returned is not needed
  any more: the read is over, has failed, or the store is benched.
\<close>

definition wait_inv :: "multi_read_cfg \<Rightarrow> multi_state \<Rightarrow> bool" where
  "wait_inv cfg s \<longleftrightarrow>
     (ms_consumer_waits s \<longrightarrow> ms_next s < length (mr_pieces cfg) \<and> ms_fatal s = None \<and> map_of (ms_results s) (ms_next s) = None)
     \<and> (\<forall>i < length (ms_workers s).
          (ms_workers s ! i = Waiting \<longrightarrow>
             (\<forall>p \<in> set (ms_pending s). p_index p < ms_next s + mr_window cfg \<longrightarrow> worker_key cfg i \<in> set (p_tried p)))
        \<and> (ms_workers s ! i = Returned \<longrightarrow>
             ms_fatal s \<noteq> None \<or> length (mr_pieces cfg) \<le> ms_next s \<or> worker_key cfg i \<in> set (ms_benched s)))"

lemma wait_inv_turn:
  assumes inv: "multi_inv cfg s" and w: "wait_inv cfg s" and i: "i < length (ms_workers s)" "ms_workers s ! i = Ready"
    and idx: "map p_index (mr_pieces cfg) = [0..<length (mr_pieces cfg)]"
  shows "wait_inv cfg (worker_turn cfg i s)"
proof -
  have more: "list_ex (\<lambda>p. ms_next s \<le> p_index p) (mr_pieces cfg)" if "ms_next s < length (mr_pieces cfg)"
  proof -
    have "p_index (mr_pieces cfg ! ms_next s) = ms_next s"
      using that idx by (metis add_0 nth_map nth_upt length_map)
    then show ?thesis using that by (auto simp: list_ex_iff intro!: bexI [of _ "mr_pieces cfg ! ms_next s"])
  qed
  consider (returned) "worker_turn cfg i s = set_worker i Returned s"
      "ms_fatal s \<noteq> None \<or> length (mr_pieces cfg) \<le> ms_next s \<or> worker_key cfg i \<in> set (ms_benched s)"
    | (waiting) "worker_turn cfg i s = set_worker i Waiting s"
      "claim (worker_key cfg i) (ms_next s + mr_window cfg) (ms_pending s) = None"
    | (claims) p rest where "claim (worker_key cfg i) (ms_next s + mr_window cfg) (ms_pending s) = Some (p, rest)"
      "worker_turn cfg i s = set_worker i (Fetching p) (s\<lparr>ms_pending := rest\<rparr>)"
    using worker_turn_split [of cfg i s] more by (metis not_le)
  then show ?thesis
  proof cases
    case returned
    then show ?thesis using w i by (auto simp: wait_inv_def nth_list_update)
  next
    case waiting
    then show ?thesis
      using w i claim_None [OF multi_inv_pending(2) [OF inv]] by (auto simp: wait_inv_def nth_list_update)
  next
    case (claims p rest)
    then show ?thesis using w i claim_subset [OF claims(1)] by (fastforce simp: wait_inv_def nth_list_update)
  qed
qed

lemma wait_inv_step:
  assumes "multi_step D cfg s t" and "multi_inv cfg s" and "wait_inv cfg s"
    and "map p_index (mr_pieces cfg) = [0..<length (mr_pieces cfg)]"
  shows "wait_inv cfg t"
  using assms
proof (induction rule: multi_step.induct)
  case (turn s i)
  then show ?case by (intro wait_inv_turn)
next
  case (failed s i p dl ex)
  have "set (ms_benched s) \<subseteq> set (benched_after (worker_key cfg i) s)" by (auto simp: benched_after_def)
  then show ?case
    using failed unfolding wait_inv_def by (auto simp: piece_failed_parts nth_list_update split: if_splits)
next
  case (fetched s i p dl x)
  then show ?case by (auto simp: wait_inv_def piece_fetched_parts nth_list_update split: if_splits)
next
  case (consume s)
  then show ?case by (auto simp: wait_inv_def consumer_turn_def le_Suc_eq split: option.splits if_splits)
qed

lemma multi_reach_waits:
  assumes "multi_reach D cfg s0 s" and init: "multi_read_init slots views sz b e ps w = Inr (cfg, s0)"
  shows "wait_inv cfg s"
  using assms(1)
proof (induction rule: multi_reach.induct)
  case reach_refl
  then show ?case by (simp add: wait_inv_def multi_read_init_parts [OF init])
next
  case (reach_step t u)
  then show ?case
    using wait_inv_step [OF reach_step(2) multi_reach_inv [OF reach_step(1) init] reach_step.IH]
    by (simp add: multi_read_init_parts [OF init] read_pieces_index)
qed

text \<open>A state in which every pending piece has a store left can always go on.\<close>

lemma multi_progress:
  assumes inv: "multi_inv cfg s" and w: "wait_inv cfg s" and "ms_done s = None" and D: "D dl"
    and views: "set (mr_views cfg) \<subseteq> set (mr_worker_views cfg)" and win: "0 < mr_window cfg"
    and left: "\<And>p. p \<in> set (ms_pending s) \<Longrightarrow> servers cfg p (ms_benched s) \<noteq> []"
  shows "\<exists>t. multi_step D cfg s t"
proof (rule ccontr)
  assume stuck: "\<nexists>t. multi_step D cfg s t"
  have cw: "ms_consumer_waits s" using stuck multi_step.consume [OF assms(3)] by blast
  then have nx: "ms_next s < length (mr_pieces cfg)" "ms_fatal s = None" "ms_next s \<notin> fst ` set (ms_results s)"
    using w by (auto simp: wait_inv_def map_of_eq_None_iff)
  have idle: "ms_workers s ! i \<in> {Waiting, Returned}" if "i < length (ms_workers s)" for i
  proof (cases "ms_workers s ! i")
    case (Fetching p)
    then show ?thesis
      using stuck multi_step.failed [where D = D and dl = dl, OF assms(3) that Fetching D] multi_step.fetched [where D = D and dl = dl, OF assms(3) that Fetching D]
      by (cases "fetch dl (mr_size cfg) (mr_worker_views cfg ! i) p") blast+
  qed (use stuck multi_step.turn [OF assms(3) that] in auto)
  have "p \<notin> set (flights (ms_workers s))" for p
  proof
    assume "p \<in> set (flights (ms_workers s))"
    then obtain i where "i < length (ms_workers s)" "ms_workers s ! i = Fetching p" by (auto simp: flights_mem)
    with idle [of i] show False by simp
  qed
  then have "flights (ms_workers s) = []" by (metis last_in_set)
  moreover have "ms_next s \<in> set (held s)" using multi_inv_range(4) [OF inv nx(2)] nx(1) by auto
  ultimately obtain p where p: "p \<in> set (ms_pending s)" "p_index p = ms_next s" using nx(3) by (auto simp: held_def)
  obtain v where v: "v \<in> set (mr_views cfg)" "sv_store v \<notin> set (p_tried p)" "sv_store v \<notin> set (ms_benched s)"
    using left [OF p(1)] by (auto simp: servers_def filter_empty_conv)
  then obtain i where i: "i < length (ms_workers s)" "mr_worker_views cfg ! i = v"
    using views multi_inv_range(1) [OF inv] by (auto simp: in_set_conv_nth subset_iff)
  from idle [OF i(1)] w i v p nx win show False by (auto simp: wait_inv_def)
qed

section \<open>Every run ends\<close>

definition untried :: "multi_read_cfg \<Rightarrow> piece \<Rightarrow> nat" where
  "untried cfg p = length (filter (\<lambda>v. sv_store v \<notin> set (p_tried p)) (mr_views cfg))"

definition piece_work :: "multi_read_cfg \<Rightarrow> multi_state \<Rightarrow> nat" where
  "piece_work cfg s = (\<Sum>p \<leftarrow> ms_pending s. 3 * untried cfg p + 3) + (\<Sum>p \<leftarrow> flights (ms_workers s). 3 * untried cfg p + 2)
     + length (ms_results s)"

definition attention :: "multi_state \<Rightarrow> nat" where
  "attention s = count_list (ms_workers s) Ready + (if ms_consumer_waits s then 0 else 1) + (if ms_done s = None then 1 else 0)"

text \<open>Attempts that are left, and then tasks that have not looked yet.\<close>

definition multi_work :: "multi_read_cfg \<Rightarrow> multi_state \<Rightarrow> nat" where
  "multi_work cfg s = piece_work cfg s * (length (mr_worker_views cfg) + 3) + attention s"

lemma attention_bound: "length (ms_workers s) = n \<Longrightarrow> attention s < n + 3"
  using count_le_length [of "ms_workers s" Ready] by (simp add: attention_def)

lemma multi_work_less:
  assumes "length (ms_workers t) = length (mr_worker_views cfg)"
    and "piece_work cfg t < piece_work cfg s \<or> piece_work cfg t = piece_work cfg s \<and> attention t < attention s"
  shows "multi_work cfg t < multi_work cfg s"
proof -
  let ?n = "length (mr_worker_views cfg) + 3"
  have "piece_work cfg t * ?n + ?n \<le> piece_work cfg s * ?n" if "piece_work cfg t < piece_work cfg s"
    using mult_le_mono1 [of "Suc (piece_work cfg t)" "piece_work cfg s" ?n] that by simp
  with assms attention_bound [OF assms(1)] show ?thesis by (auto simp: multi_work_def)
qed

lemma sum_flights_update:
  assumes "i < length ws"
  shows "(\<Sum>p \<leftarrow> flights (ws[i := w]). f p) + (\<Sum>p \<leftarrow> flight (ws ! i). f p) = (\<Sum>p \<leftarrow> flights ws. f p) + (\<Sum>p \<leftarrow> flight w. f p :: nat)"
proof -
  have sums: "(\<Sum>p \<leftarrow> xs. f p) = sum_mset (image_mset f (mset xs))" for xs by (metis mset_map sum_mset_sum_list)
  show ?thesis unfolding sums using flights_update [OF assms, of w] by (metis image_mset_union sum_mset.union)
qed

lemma sum_pending:
  assumes "mset ps = add_mset p (mset qs)"
  shows "(\<Sum>q \<leftarrow> ps. f q) = f p + (\<Sum>q \<leftarrow> qs. f q :: nat)"
  by (metis assms image_mset_add_mset mset_map sum_mset.add_mset sum_mset_sum_list)

lemma count_list_update:
  assumes "i < length ws" and "ws ! i = x" and "w \<noteq> x"
  shows "count_list (ws[i := w]) x < count_list ws x"
proof -
  have "count_list ws x = Suc (count_list (ws[i := w]) x)"
    using assms(3) by (subst id_take_nth_drop [OF assms(1)], subst upd_conv_take_nth_drop [OF assms(1)]) (simp add: assms(2))
  then show ?thesis by simp
qed

lemma turn_work:
  assumes "multi_inv cfg s" and i: "i < length (ms_workers s)" "ms_workers s ! i = Ready"
  shows "multi_work cfg (worker_turn cfg i s) < multi_work cfg s"
proof (rule multi_work_less)
  show len: "length (ms_workers (worker_turn cfg i s)) = length (mr_worker_views cfg)"
    using worker_turn_split [of cfg i s] multi_inv_range(1) [OF assms(1)] by auto
  consider (idle) w where "worker_turn cfg i s = set_worker i w s" "w \<in> {Waiting, Returned}"
    | (claims) p rest where "claim (worker_key cfg i) (ms_next s + mr_window cfg) (ms_pending s) = Some (p, rest)"
      "worker_turn cfg i s = set_worker i (Fetching p) (s\<lparr>ms_pending := rest\<rparr>)"
    using worker_turn_split [of cfg i s] by blast
  then show "piece_work cfg (worker_turn cfg i s) < piece_work cfg s
      \<or> piece_work cfg (worker_turn cfg i s) = piece_work cfg s \<and> attention (worker_turn cfg i s) < attention s"
  proof cases
    case (idle w)
    then show ?thesis
      using sum_flights_update [OF i(1), of "\<lambda>p. 3 * untried cfg p + 2" w] count_list_update [OF i, of w] i(2)
      by (auto simp: piece_work_def attention_def)
  next
    case (claims p rest)
    have "(\<Sum>q \<leftarrow> ms_pending s. 3 * untried cfg q + 3) = 3 * untried cfg p + 3 + (\<Sum>q \<leftarrow> rest. 3 * untried cfg q + 3)"
      by (rule sum_pending [OF claim_Some(1) [OF claims(1)]])
    then show ?thesis
      using claims(2) sum_flights_update [OF i(1), of "\<lambda>p. 3 * untried cfg p + 2" "Fetching p"] i(2) by (simp add: piece_work_def)
  qed
qed

lemma untried_less:
  assumes "v \<in> set (mr_views cfg)" and "sv_store v \<notin> set (p_tried p)"
  shows "untried cfg (tried_by (sv_store v) p) < untried cfg p"
proof -
  have "filter (\<lambda>u. sv_store u \<notin> set (p_tried (tried_by (sv_store v) p))) (mr_views cfg)
      = filter (\<lambda>u. sv_store u \<noteq> sv_store v) (filter (\<lambda>u. sv_store u \<notin> set (p_tried p)) (mr_views cfg))"
    by (auto intro!: filter_cong)
  moreover have "v \<in> set (filter (\<lambda>u. sv_store u \<notin> set (p_tried p)) (mr_views cfg))" using assms by simp
  ultimately show ?thesis
    unfolding untried_def by (metis (mono_tags, lifting) length_filter_less)
qed

lemma failed_work:
  assumes inv: "multi_inv cfg s" and i: "i < length (ms_workers s)" "ms_workers s ! i = Fetching p"
    and "set (mr_worker_views cfg) \<subseteq> set (mr_views cfg)"
  shows "multi_work cfg (piece_failed cfg i p s) < multi_work cfg s"
proof (rule multi_work_less)
  let ?ws = "map (\<lambda>w. if w = Waiting then Ready else w) (ms_workers s)" and ?key = "worker_key cfg i"
  show "length (ms_workers (piece_failed cfg i p s)) = length (mr_worker_views cfg)"
    using multi_inv_range(1) [OF inv] by (simp add: piece_failed_parts)
  have "mr_worker_views cfg ! i \<in> set (mr_views cfg)" using assms(4) i(1) multi_inv_range(1) [OF inv] by auto
  note less = untried_less [OF this multi_inv_fetching(2) [OF inv i]]
  have f: "(\<Sum>q \<leftarrow> flights (?ws[i := if ?key \<in> set (benched_after ?key s) then Returned else Ready]). 3 * untried cfg q + 2)
      + (3 * untried cfg p + 2) = (\<Sum>q \<leftarrow> flights (ms_workers s). 3 * untried cfg q + 2)"
    using sum_flights_update [of i ?ws "\<lambda>p. 3 * untried cfg p + 2"] i by auto
  have "(\<Sum>q \<leftarrow> sort_key p_index (ms_pending s @ [tried_by ?key p]). 3 * untried cfg q + 3)
      = 3 * untried cfg (tried_by ?key p) + 3 + (\<Sum>q \<leftarrow> ms_pending s. 3 * untried cfg q + 3)"
    by (rule sum_pending) simp
  then show "piece_work cfg (piece_failed cfg i p s) < piece_work cfg s
      \<or> piece_work cfg (piece_failed cfg i p s) = piece_work cfg s \<and> attention (piece_failed cfg i p s) < attention s"
    using f less by (auto simp: piece_work_def piece_failed_parts)
qed

lemma fetched_work:
  assumes inv: "multi_inv cfg s" and i: "i < length (ms_workers s)" "ms_workers s ! i = Fetching p"
  shows "multi_work cfg (piece_fetched cfg i p x s) < multi_work cfg s"
proof (rule multi_work_less)
  let ?ws = "map (\<lambda>w. if w = Waiting then Ready else w) (ms_workers s)"
  show "length (ms_workers (piece_fetched cfg i p x s)) = length (mr_worker_views cfg)"
    using multi_inv_range(1) [OF inv] by (simp add: piece_fetched_parts)
  have "(\<Sum>q \<leftarrow> flights (?ws[i := Ready]). 3 * untried cfg q + 2) + (3 * untried cfg p + 2)
      = (\<Sum>q \<leftarrow> flights (ms_workers s). 3 * untried cfg q + 2)"
    using sum_flights_update [of i ?ws "\<lambda>p. 3 * untried cfg p + 2" Ready] i by simp
  then show "piece_work cfg (piece_fetched cfg i p x s) < piece_work cfg s
      \<or> piece_work cfg (piece_fetched cfg i p x s) = piece_work cfg s \<and> attention (piece_fetched cfg i p x s) < attention s"
    using fetching_unheld(1) [OF inv i] by (simp add: piece_work_def piece_fetched_parts update_new)
qed

lemma consumer_work:
  assumes "multi_inv cfg s" and "ms_done s = None" and "\<not> ms_consumer_waits s"
  shows "multi_work cfg (consumer_turn cfg s) < multi_work cfg s"
proof (rule multi_work_less)
  have l: "length (AList.delete k rs) < length rs" if "map_of rs k = Some (x :: bytes)" for k :: nat and rs x
    using that by (induction rs) (auto simp: le_imp_less_Suc length_delete_le split: if_splits)
  show "length (ms_workers (consumer_turn cfg s)) = length (mr_worker_views cfg)"
    using multi_inv_range(1) [OF assms(1)] by (simp add: consumer_turn_def split: option.split)
  show "piece_work cfg (consumer_turn cfg s) < piece_work cfg s
      \<or> piece_work cfg (consumer_turn cfg s) = piece_work cfg s \<and> attention (consumer_turn cfg s) < attention s"
    using assms(2,3) l by (auto simp: consumer_turn_def piece_work_def attention_def split: option.split)
qed

lemma multi_step_work:
  assumes "multi_step D cfg s t" and "multi_inv cfg s" and "set (mr_worker_views cfg) \<subseteq> set (mr_views cfg)"
  shows "multi_work cfg t < multi_work cfg s"
  using assms by (induction rule: multi_step.induct) (auto intro: turn_work failed_work fetched_work consumer_work)

section \<open>One store that answers is enough\<close>

lemma fetch_parts_up:
  assumes "\<And>j mid x y. (j, mid, x, y) \<in> set ps \<Longrightarrow> dl key mid x y = (cs j mid x y, None)
    \<and> concat (cs j mid x y) = piece_bytes P (j, mid, x, y)"
  shows "fetch_parts dl key ps = Inr (concat (map (piece_bytes P) ps))"
  using assms
proof (induction ps)
  case (Cons q ps)
  obtain j mid x y where q: "q = (j, mid, x, y)" by (cases q)
  have "fetch_parts dl key ps = Inr (concat (map (piece_bytes P) ps))" by (rule Cons.IH) (use Cons.prems in simp)
  moreover have "dl key mid x y = (cs j mid x y, None)" "concat (cs j mid x y) = piece_bytes P q"
    using Cons.prems [of j mid x y] q by auto
  ultimately show ?case by (simp add: q stream_bytes_def)
qed simp

lemma fetch_up:
  assumes "honest dl content" and "up dl content (sv_store v)" and "view_holds content data v"
    and "0 \<le> p_begin p" and "p_begin p \<le> p_end p" and "p_end p < int (length data)"
  shows "fetch dl (int (length data)) v p = Inr (subrange data (p_begin p) (p_end p))"
proof -
  obtain P ps where ps: "map_range (sv_message_ids v) (sv_part_sizes v) (int (length data)) (p_begin p) (p_end p) = Inr ps"
    "concat (map (piece_bytes P) ps) = subrange data (p_begin p) (p_end p)"
    "\<And>j mid x y. (j, mid, x, y) \<in> set ps \<Longrightarrow> content (sv_store v) mid = Some (P j) \<and> 0 \<le> x \<and> x \<le> y \<and> y < int (length (P j))"
    using view_map_range [OF assms(3-6)] by metis
  have "dl (sv_store v) mid x y = (fst (dl (sv_store v) mid x y), None)
      \<and> concat (fst (dl (sv_store v) mid x y)) = piece_bytes P (j, mid, x, y)" if "(j, mid, x, y) \<in> set ps" for j mid x y
  proof -
    have "snd (dl (sv_store v) mid x y) = None" using ps(3) [OF that] assms(2) unfolding up_def by blast
    moreover have "serves (dl (sv_store v) mid x y) (subrange (P j) x y)"
      using ps(3) [OF that] assms(1) unfolding honest_def by blast
    ultimately show ?thesis
      by (cases "dl (sv_store v) mid x y") (simp add: piece_bytes_def)
  qed
  from fetch_parts_up [of ps dl "sv_store v" "\<lambda>j mid x y. fst (dl (sv_store v) mid x y)", OF this]
  have "fetch_parts dl (sv_store v) ps = Inr (subrange data (p_begin p) (p_end p))" using ps(2) by simp
  then show ?thesis using assms(4-6) by (simp add: fetch_def ps(1) length_subrange)
qed

definition steady_inv :: "string \<Rightarrow> multi_state \<Rightarrow> bool" where
  "steady_inv key s \<longleftrightarrow> key \<notin> set (ms_benched s) \<and> ms_fatal s = None \<and> (\<forall>e. ms_done s \<noteq> Some (Some e))
     \<and> (\<forall>p \<in> set (ms_pending s) \<union> set (flights (ms_workers s)). key \<notin> set (p_tried p))"

lemma steady_failed:
  assumes "steady_inv (sv_store v) s" and "v \<in> set (mr_views cfg)" and "worker_key cfg i \<noteq> sv_store v"
    and i: "i < length (ms_workers s)" "ms_workers s ! i = Fetching p"
  shows "steady_inv (sv_store v) (piece_failed cfg i p s)"
proof -
  let ?key = "worker_key cfg i"
  have p: "p \<in> set (flights (ms_workers s))" using i by (auto simp: flights_mem)
  then have tried: "sv_store v \<notin> set (p_tried (tried_by ?key p))" using assms(1,3) by (simp add: steady_inv_def)
  moreover have benched: "sv_store v \<notin> set (benched_after ?key s)" using assms(1,3) by (simp add: steady_inv_def benched_after_def)
  ultimately have "servers cfg (tried_by ?key p) (benched_after ?key s) \<noteq> []"
    using assms(2) by (auto simp: servers_def filter_empty_conv)
  moreover have "set (flights (ms_workers (piece_failed cfg i p s))) \<subseteq> set (flights (ms_workers s))"
    using set_flights_update [of i "map (\<lambda>w. if w = Waiting then Ready else w) (ms_workers s)"] i(1)
    by (force simp: piece_failed_parts split: if_splits)
  ultimately show ?thesis using assms(1) tried benched by (auto simp: steady_inv_def piece_failed_parts)
qed

lemma steady_step:
  assumes "multi_step D cfg s t" and "multi_inv cfg s" and "wait_inv cfg s" and cfg: "cfg_holds content data cfg"
    and D: "\<forall>dl. D dl \<longrightarrow> honest dl content \<and> up dl content (sv_store v)"
    and v: "v \<in> set (mr_views cfg)" "v \<in> set (mr_worker_views cfg)" and "steady_inv (sv_store v) s"
  shows "steady_inv (sv_store v) t"
  using assms(1,2,3,8)
proof (induction rule: multi_step.induct)
  case (turn s i)
  consider (idle) w where "worker_turn cfg i s = set_worker i w s" "w \<in> {Waiting, Returned}"
    | (claims) p rest where "claim (worker_key cfg i) (ms_next s + mr_window cfg) (ms_pending s) = Some (p, rest)"
      "worker_turn cfg i s = set_worker i (Fetching p) (s\<lparr>ms_pending := rest\<rparr>)"
    using worker_turn_split [of cfg i s] by blast
  then show ?case
  proof cases
    case (idle w)
    then show ?thesis using turn set_flights_update [OF turn.hyps(2), of w] by (auto simp: steady_inv_def)
  next
    case (claims p rest)
    have "p \<in> set (ms_pending s)" using claim_Some(1) [OF claims(1)] by (metis set_mset_mset union_single_eq_member)
    then show ?thesis
      using turn claims set_flights_update [OF turn.hyps(2), of "Fetching p"] claim_subset [OF claims(1)]
      by (auto simp: steady_inv_def)
  qed
next
  case (failed s i p dl ex)
  note inv = failed.prems(1) and i = failed.hyps(2,3)
  have "mr_pieces cfg ! p_index p \<in> set (mr_pieces cfg)" using fetching_unheld(2) [OF inv i] by simp
  then have r: "0 \<le> p_begin p" "p_begin p \<le> p_end p" "p_end p < int (length data)"
    using cfg piece_stripped [OF multi_inv_fetching(1) [OF inv i]] by (auto simp: cfg_holds_def)
  have h: "view_holds content data (mr_worker_views cfg ! i)" "mr_size cfg = int (length data)"
    using cfg i(1) multi_inv_range(1) [OF inv] by (auto simp: cfg_holds_def)
  have "worker_key cfg i \<noteq> sv_store v"
    using fetch_up [OF _ _ h(1) r, of dl] D failed.hyps(4,5) h(2) by auto
  then show ?case using steady_failed [OF failed.prems(3) v(1)] i by blast
next
  case (fetched s i p dl x)
  then show ?case
    using set_flights_update [of i "map (\<lambda>w. if w = Waiting then Ready else w) (ms_workers s)" Ready]
    by (auto simp: steady_inv_def piece_fetched_parts)
next
  case (consume s)
  obtain i where "i < length (ms_workers s)" "mr_worker_views cfg ! i = v"
    using v(2) multi_inv_range(1) [OF consume.prems(1)] by (auto simp: in_set_conv_nth)
  then have "list_all (\<lambda>w. w = Returned) (ms_workers s) \<longrightarrow> length (mr_pieces cfg) \<le> ms_next s"
    using consume.prems(2,3) by (auto simp: wait_inv_def steady_inv_def list_all_length)
  then show ?case
    using consume by (auto simp: steady_inv_def consumer_turn_def split: option.split)
qed

lemma steady_reach:
  assumes "multi_reach D cfg s0 s" and init: "multi_read_init slots views (int (length data)) b e ps w = Inr (cfg, s0)"
    and "\<forall>dl. D dl \<longrightarrow> honest dl content \<and> up dl content (sv_store v)" and "\<forall>v \<in> set views. view_holds content data v"
    and "v \<in> set views" and "0 \<le> b" and "e < int (length data)" and "0 < ps"
  shows "steady_inv (sv_store v) s"
  using assms(1)
proof (induction rule: multi_reach.induct)
  case reach_refl
  have "sv_store v \<notin> set (p_tried p)" if "p \<in> set (read_pieces b e ps)" for p
    using that by (auto simp: in_set_conv_nth read_pieces_nth)
  then show ?case by (simp add: steady_inv_def multi_read_init_parts [OF init])
next
  case (reach_step t u)
  show ?case
    by (rule steady_step [OF reach_step(2) multi_reach_inv [OF reach_step(1) init] multi_reach_waits [OF reach_step(1) init]
          multi_read_cfg_holds [OF init assms(4,6,7,8)] assms(3) _ _ reach_step.IH])
      (use assms(5) in \<open>simp_all add: multi_read_init_parts [OF init]\<close>)
qed

section \<open>The views of a version hold its data\<close>

lemma per_store_ids:
  "map_of (fold (\<lambda>(key, mid). dict_extend key [mid]) xs d) key
    = (if map_of d key = None \<and> key \<notin> fst ` set xs then None
       else Some ((case map_of d key of None \<Rightarrow> [] | Some ids \<Rightarrow> ids) @ map snd (filter (\<lambda>(k, _). k = key) xs)))"
proof (induction xs arbitrary: d)
  case (Cons x xs)
  show ?case by (cases x) (auto simp: Cons.IH split: option.splits)
qed (auto split: option.splits)

lemma one_each:
  assumes "\<forall>ys \<in> set yss. length ys \<le> 1" and "length (concat yss) = length yss" and "j < length yss"
  shows "yss ! j = [concat yss ! j]"
  using assms
proof (induction yss arbitrary: j)
  case (Cons ys yss)
  have "length (concat yss) \<le> length yss" using Cons.prems(1) by (induction yss) auto
  then have len: "length ys = 1" "length (concat yss) = length yss" using Cons.prems(1,2) by auto
  then obtain y where "ys = [y]" by (cases ys) auto
  with Cons.IH [OF _ len(2)] Cons.prems(1,3) show ?case by (cases j) auto
qed simp

definition sources_apart :: "layout \<Rightarrow> bool" where
  "sources_apart l \<longleftrightarrow> (\<forall>srcs \<in> set (l_candidates l). distinct (map fst srcs))"

lemma per_store_view:
  assumes "layout_holds content l P n" and "sources_apart l"
    and ids: "map_of (fold (\<lambda>(key, mid). dict_extend key [mid]) (concat (l_candidates l)) []) key = Some ids"
    and len: "length ids = length (l_part_sizes l)" and j: "j < n"
  shows "content key (ids ! j) = Some (P j)"
proof -
  let ?cs = "l_candidates l" and ?f = "filter (\<lambda>(k, _). k = key)"
  have n: "length ?cs = n" "length (l_part_sizes l) = n" using assms(1) by (auto simp: layout_holds_def)
  have eq: "ids = map snd (concat (map ?f ?cs))" using ids by (simp add: per_store_ids filter_concat split: if_splits)
  have one: "length (?f srcs) \<le> 1" if "distinct (map fst srcs)" for srcs :: "(string \<times> int) list"
    using that by (induction srcs) (auto simp: filter_empty_conv split: if_splits, force)
  have small: "\<forall>ys \<in> set (map ?f ?cs). length ys \<le> 1" using assms(2) one by (auto simp: sources_apart_def)
  have total: "length (concat (map ?f ?cs)) = length (map ?f ?cs)" using len n eq by simp
  have "map ?f ?cs ! j = [concat (map ?f ?cs) ! j]" by (rule one_each [OF small total]) (use j n in simp)
  then have at: "?f (?cs ! j) = [concat (map ?f ?cs) ! j]" using j n by simp
  obtain k mid where km: "concat (map ?f ?cs) ! j = (k, mid)" by (cases "concat (map ?f ?cs) ! j")
  from at have "(k, mid) \<in> set (?f (?cs ! j))" by (simp add: km)
  then have "(key, mid) \<in> set (?cs ! j)" by auto
  moreover have "ids ! j = mid" using eq km j total n by simp
  ultimately show ?thesis using assms(1) j by (auto simp: layout_holds_def)
qed

lemma dict_ok_per_store: "dict_ok (fold (\<lambda>(key, mid). dict_extend key [mid]) xs [])"
  by (rule fold_invariant) auto

lemma layout_views_hold:
  assumes "holds_data content data l" and "sources_apart l" and "\<forall>v \<in> set vs. view_holds content data v"
  shows "\<forall>v \<in> set (layout_views r l vs). view_holds content data v"
proof -
  let ?per = "fold (\<lambda>(key, mid). dict_extend key [mid]) (concat (l_candidates l)) []"
  obtain P n where P: "layout_holds content l P n" "bytes_from P 0 n = data" using assms(1) by (auto simp: holds_data_def)
  have new: "view_holds content data \<lparr>sv_store = key, sv_message_ids = ids, sv_part_sizes = l_part_sizes l\<rparr>"
    if "(key, ids) \<in> set ?per" "length ids = length (l_part_sizes l)" for key ids
  proof -
    have "map_of ?per key = Some ids" using that(1) dict_ok_per_store [of "concat (l_candidates l)"] by (simp add: dict_ok_def)
    with per_store_view [OF P(1) assms(2) _ that(2)] P that(2) show ?thesis
      unfolding view_holds_def by (intro exI [of _ P] exI [of _ n]) (auto simp: layout_holds_def)
  qed
  show ?thesis
    unfolding layout_views_def Let_def
    by (rule fold_invariant [where P = "\<lambda>vs. \<forall>v \<in> set vs. view_holds content data v", OF assms(3)]) (use new in \<open>auto split: if_splits\<close>)
qed

lemma store_views_hold:
  assumes "\<forall>l \<in> set ls. holds_data content data l \<and> sources_apart l" and "v \<in> set (store_views r ls)"
  shows "view_holds content data v"
proof -
  have "\<forall>v \<in> set (fold (layout_views r) ls []). view_holds content data v"
    by (rule fold_invariant) (use layout_views_hold assms(1) in auto)
  then show ?thesis using assms(2) by (simp add: store_views_def)
qed

text \<open>A version's mirrors have distinct keys, and the owner is none of its own mirrors.\<close>

definition mirrors_apart :: "string \<Rightarrow> file_version \<Rightarrow> bool" where
  "mirrors_apart primary fv \<longleftrightarrow> dict_ok (fv_mirrors fv) \<and> (fv_owned_by fv primary \<longrightarrow> \<not> dict_has (fv_mirrors fv) primary)"

lemma part_sources_apart:
  assumes "mirrors_apart (cr_store r) fv"
  shows "distinct (map fst (part_sources r fv i))"
proof -
  let ?own = "if fv_owned_by fv (cr_store r) \<and> 0 < fv_message_ids fv ! i then [(cr_store r, fv_message_ids fv ! i)] else []"
  let ?mir = "\<lambda>g ms. concat (map (\<lambda>(key, ids). if store_for r g key \<and> i < length ids \<and> 0 < ids ! i then [(key, ids ! i)] else []) ms)"
  have keys: "fst ` set (?mir g ms) \<subseteq> fst ` set ms" for g ms by force
  have mir: "distinct (map fst (?mir g ms))" if "distinct (map fst ms)" for g and ms :: "(string, int list) dict"
    using that
  proof (induction ms)
    case (Cons m ms)
    then show ?case by (cases m) (force split: if_splits)
  qed simp
  have all: "distinct (map fst (?own @ ?mir g (fv_mirrors fv)))" for g
  proof -
    have "distinct (map fst (?mir g (fv_mirrors fv)))" using assms mir by (simp add: mirrors_apart_def dict_ok_def)
    moreover have "fst ` set ?own \<inter> fst ` set (?mir g (fv_mirrors fv)) = {}"
    proof (cases "fv_owned_by fv (cr_store r)")
      case True
      then have "cr_store r \<notin> fst ` set (fv_mirrors fv)" using assms by (simp add: mirrors_apart_def dict_has_def)
      then have "cr_store r \<notin> fst ` set (?mir g (fv_mirrors fv))" using keys [of g "fv_mirrors fv"] by blast
      then show ?thesis by (cases "0 < fv_message_ids fv ! i") (simp_all only: True if_True if_False simp_thms list.set image_insert image_empty fst_conv, blast+)
    qed simp
    moreover have "distinct (map fst ?own)" by simp
    ultimately show ?thesis by (simp only: map_append distinct_append set_map)
  qed
  have rot: "distinct (map fst (if p then drop 1 s @ take 1 s else s))" if "distinct (map fst s)" for p and s :: "(string \<times> int) list"
    using that by (cases s) auto
  have sorted: "distinct (map fst (sort_key f xs)) = distinct (map fst xs)" for f :: "string \<times> int \<Rightarrow> nat" and xs
    by (rule mset_eq_imp_distinct_iff) simp
  show ?thesis
  proof (cases "cr_group r")
    case None
    then show ?thesis unfolding part_sources_def Let_def sorted by simp
  next
    case (Some g)
    show ?thesis unfolding part_sources_def Let_def sorted Some option.case by (rule rot [OF all])
  qed
qed

lemma layouts_apart: "mirrors_apart (cr_store r) fv \<Longrightarrow> l \<in> set (layouts r fv) \<Longrightarrow> sources_apart l"
  using part_sources_apart
  by (auto simp: layouts_def primary_layouts_def replica_layouts_def sources_apart_def split: if_splits option.splits)

text \<open>The stream of a read that came to an end.\<close>

definition multi_outcome ::
    "(download \<Rightarrow> bool) \<Rightarrow> store_view list \<Rightarrow> int \<Rightarrow> int \<Rightarrow> int \<Rightarrow> int \<Rightarrow> int \<Rightarrow> stream \<Rightarrow> bool" where
  "multi_outcome D views sz b e ps w st \<longleftrightarrow> (\<exists>slots cfg s0 s. multi_read_init slots views sz b e ps w = Inr (cfg, s0)
     \<and> multi_reach D cfg s0 s \<and> ms_done s = Some (snd st) \<and> ms_out s = fst st)"

lemma multi_outcome_serves:
  assumes "multi_outcome (\<lambda>dl. honest dl content) views (int (length data)) b e ps w st"
    and "\<forall>v \<in> set views. view_holds content data v" and "0 \<le> b" and "b \<le> e" and "e < int (length data)" and "0 < ps"
  shows "serves st (subrange data b e)"
proof -
  obtain slots cfg s0 s where s: "multi_read_init slots views (int (length data)) b e ps w = Inr (cfg, s0)"
    "multi_reach (\<lambda>dl. honest dl content) cfg s0 s" "ms_done s = Some (snd st)" "ms_out s = fst st"
    using assms(1) by (auto simp: multi_outcome_def)
  have "serves (ms_out s, snd st) (subrange data b e)"
    by (rule multi_read_serves(2) [OF s(1,2) _ assms(2-6) s(3)]) (simp add: honest_truncating)
  with s(4) show ?thesis by simp
qed

section \<open>Properties\<close>

text \<open>Two stores with the same three bytes, and downloads that answer and that fail.\<close>

definition twin_content :: store_content where
  "twin_content key mid = (if mid = 1 then Some [10, 11, 12] else None)"

definition twin_views :: "store_view list" where
  "twin_views = [\<lparr>sv_store = ''a'', sv_message_ids = [1], sv_part_sizes = [3]\<rparr>,
     \<lparr>sv_store = ''b'', sv_message_ids = [1], sv_part_sizes = [3]\<rparr>]"

definition answering :: download where
  "answering key mid b e = (case twin_content key mid of None \<Rightarrow> raising (MessageNotFound mid) | Some c \<Rightarrow> ([subrange c b e], None))"

definition refusing :: download where
  "refusing key mid b e = raising TechnicalError"

lemma twin_honest: "honest answering twin_content" "honest refusing twin_content"
  using subrange_nonempty by (fastforce simp: honest_def answering_def refusing_def)+

lemma twin_holds: "list_all (view_holds twin_content [10, 11, 12]) twin_views"
proof -
  have "view_holds twin_content [10, 11, 12] v" if "sv_message_ids v = [1]" "sv_part_sizes v = [3]" for v
    unfolding view_holds_def using that
    by (intro exI [of _ "\<lambda>_. [10, 11, 12]"] exI [of _ 1]) (simp add: sizes_from_def bytes_from_def twin_content_def)
  then show ?thesis by (simp add: twin_views_def)
qed

text \<open>C5: A shared read hands out the right bytes. Whatever the interleaving of the workers and whichever downloads
  fail, are cut short or answer later, what a multi-source read has handed out is a prefix of the
  requested range; when the read ends it is the whole range, or a proper prefix and the
  error; and at no time are more pieces in memory or under way than the window allows.\<close>

theorem multi_read_exact:
  assumes "multi_read_init slots views (int (length data)) b e ps w = Inr (cfg, s0)" and "multi_reach D cfg s0 s"
    and "\<forall>dl. D dl \<longrightarrow> truncating dl content" and "\<forall>v \<in> set views. view_holds content data v"
    and "0 \<le> b" and "b \<le> e" and "e < int (length data)" and "0 < ps"
  shows "prefix (concat (ms_out s)) (subrange data b e)
    \<and> (\<forall>r. ms_done s = Some r \<longrightarrow> serves (ms_out s, r) (subrange data b e))
    \<and> length (ms_results s) + length (flights (ms_workers s)) \<le> nat (max 1 w)"
  using multi_read_serves [OF assms] multi_read_window [OF assms(2,1)] by blast

text \<open>C6: A shared read comes to an end, and one store that answers is enough. Every step of a multi-source read
  uses up work, so there is no infinite run; and when one of the stores answers every download,
  then whatever the others do no run gets stuck or fails: a state is final, with the whole
  range handed out, or the read goes on.\<close>

theorem multi_read_completes:
  assumes "multi_read_init slots views (int (length data)) b e ps w = Inr (cfg, s0)" and "multi_reach D cfg s0 s"
    and "\<forall>dl. D dl \<longrightarrow> honest dl content \<and> up dl content (sv_store v)" and "D dl"
    and "\<forall>v \<in> set views. view_holds content data v" and "v \<in> set views"
    and "0 \<le> b" and "b \<le> e" and "e < int (length data)" and "0 < ps"
  shows "(\<forall>t. multi_step D cfg s t \<longrightarrow> multi_work cfg t < multi_work cfg s)
    \<and> (ms_done s = Some None \<and> concat (ms_out s) = subrange data b e
       \<or> ms_done s = None \<and> (\<exists>t. multi_step D cfg s t))"
proof -
  note i = multi_read_init_parts [OF assms(1)]
  note inv = multi_reach_inv [OF assms(2,1)] and waits = multi_reach_waits [OF assms(2,1)]
  have st: "steady_inv (sv_store v) s" by (rule steady_reach [OF assms(2,1,3,5,6,7,9,10)])
  then have left: "servers cfg p (ms_benched s) \<noteq> []" if "p \<in> set (ms_pending s)" for p
    using that assms(6) by (auto simp: steady_inv_def servers_def filter_empty_conv i)
  have "\<exists>t. multi_step D cfg s t" if "ms_done s = None"
    using multi_progress [where D = D and dl = dl, OF inv waits that assms(4) _ _ left] by (simp add: i)
  moreover have "ms_done s = None \<or> ms_done s = Some None" using st by (auto simp: steady_inv_def) (metis option.exhaust)
  moreover have "concat (ms_out s) = subrange data b e" if "ms_done s = Some None"
    using multi_read_serves(2) [OF assms(1,2) _ assms(5,7,8,9,10) that] assms(3) honest_truncating by auto
  moreover have "\<forall>t. multi_step D cfg s t \<longrightarrow> multi_work cfg t < multi_work cfg s"
    using multi_step_work [OF _ inv] by (simp add: i)
  ultimately show ?thesis by (cases "ms_done s = None") auto
qed

lemma multi_runs_end:
  assumes "\<And>s. multi_reach D cfg s0 s \<Longrightarrow> (\<forall>t. multi_step D cfg s t \<longrightarrow> multi_work cfg t < multi_work cfg s)
    \<and> (ms_done s \<noteq> None \<and> Q s \<or> (\<exists>t. multi_step D cfg s t))"
    and "multi_reach D cfg s0 s"
  shows "\<exists>t. multi_reach D cfg s0 t \<and> ms_done t \<noteq> None \<and> Q t"
  using assms(2)
proof (induction "multi_work cfg s" arbitrary: s rule: less_induct)
  case less
  from assms(1) [OF less.prems] less.hyps less.prems multi_reach.reach_step show ?case by metis
qed

abbreviation twin_init :: "(multi_read_cfg \<times> multi_state) res" where
  "twin_init \<equiv> multi_read_init (\<lambda>_. 1) twin_views 3 0 2 1 8"

theorem multi_read_completes_witness:
  "\<exists>cfg s0 s. twin_init = Inr (cfg, s0) \<and> multi_reach (\<lambda>dl. dl = answering) cfg s0 s
    \<and> ms_done s = Some None \<and> concat (ms_out s) = [10, 11, 12]"
proof -
  let ?D = "\<lambda>dl. dl = answering" and ?data = "[10, 11, 12] :: bytes" and ?v = "hd twin_views"
  obtain cfg s0 where init: "multi_read_init (\<lambda>_. 1) twin_views (int (length ?data)) 0 2 1 8 = Inr (cfg, s0)"
    by (simp add: multi_read_init_def twin_views_def Let_def)
  have D: "\<forall>dl. ?D dl \<longrightarrow> honest dl twin_content \<and> up dl twin_content (sv_store ?v)"
    using twin_honest(1) by (auto simp: up_def answering_def)
  have v: "?v \<in> set twin_views" by (simp add: twin_views_def)
  have hold: "\<forall>v \<in> set twin_views. view_holds twin_content ?data v" using twin_holds by (simp add: list_all_iff)
  note fin = multi_read_completes [OF init _ D refl hold v]
  have all: "subrange ?data 0 2 = ?data" by (simp add: subrange_def)
  have "\<exists>t. multi_reach ?D cfg s0 t \<and> ms_done t \<noteq> None \<and> (ms_done t = Some None \<and> concat (ms_out t) = ?data)"
    by (rule multi_runs_end [OF _ multi_reach.reach_refl]) (use fin all in fastforce)
  then show ?thesis using init by auto
qed

theorem multi_read_exact_witness:
  "\<exists>cfg s0 s. twin_init = Inr (cfg, s0) \<and> multi_reach (\<lambda>dl. dl = refusing) cfg s0 s
    \<and> prefix (concat (ms_out s)) [10, 11, 12]"
proof -
  let ?data = "[10, 11, 12] :: bytes"
  obtain cfg s0 where init: "multi_read_init (\<lambda>_. 1) twin_views (int (length ?data)) 0 2 1 8 = Inr (cfg, s0)"
    by (simp add: multi_read_init_def twin_views_def Let_def)
  have "\<forall>dl. dl = refusing \<longrightarrow> truncating dl twin_content" "\<forall>v \<in> set twin_views. view_holds twin_content ?data v"
    using twin_honest(2) honest_truncating twin_holds by (auto simp: list_all_iff)
  from multi_read_exact [OF init multi_reach.reach_refl this] init show ?thesis
    using multi_reach.reach_refl by (fastforce simp: subrange_def)
qed

subsection \<open>A run that hangs\<close>

definition twin_cfg :: multi_read_cfg where
  "twin_cfg = \<lparr>mr_views = twin_views, mr_size = 3,
     mr_pieces = [\<lparr>p_index = 0, p_begin = 0, p_end = 0, p_tried = []\<rparr>, \<lparr>p_index = 1, p_begin = 1, p_end = 1, p_tried = []\<rparr>,
       \<lparr>p_index = 2, p_begin = 2, p_end = 2, p_tried = []\<rparr>], mr_window = 8, mr_worker_views = twin_views\<rparr>"

text \<open>Before anything is handed out: results, pending pieces, failures, benched stores, workers.\<close>

definition twin_state :: "(nat, bytes) dict \<Rightarrow> (nat \<times> string list) list \<Rightarrow> (string \<Rightarrow> nat) \<Rightarrow> string list \<Rightarrow> worker list \<Rightarrow> bool \<Rightarrow> multi_state" where
  "twin_state rs ps f bn ws waits = \<lparr>ms_results = rs, ms_next = 0,
     ms_pending = map (\<lambda>(i, ks). \<lparr>p_index = i, p_begin = int i, p_end = int i, p_tried = ks\<rparr>) ps,
     ms_failures = f, ms_benched = bn, ms_fatal = None, ms_workers = ws, ms_consumer_waits = waits, ms_out = [], ms_done = None\<rparr>"

definition twin_piece :: "nat \<Rightarrow> string list \<Rightarrow> piece" where
  "twin_piece i ks = \<lparr>p_index = i, p_begin = int i, p_end = int i, p_tried = ks\<rparr>"

lemma twin_start: "twin_init = Inr (twin_cfg, twin_state [] [(0, []), (1, []), (2, [])] (\<lambda>_. 0) [] [Ready, Ready] False)"
  by (simp add: multi_read_init_def twin_cfg_def twin_state_def twin_views_def read_pieces_def py_range_def upt_rec
      eval_nat_numeral enumerate_Suc_eq Let_def)

lemmas twin_simps = twin_state_def twin_piece_def twin_cfg_def twin_views_def worker_turn_def set_worker_def Let_def
  piece_failed_def piece_fetched_def notify_all_def BENCH_AFTER_def

lemma twin_fetch:
  assumes "v \<in> set twin_views" and "i < 3"
  shows "fetch refusing 3 v (twin_piece i ks) = Inl TechnicalError"
    and "fetch answering 3 v (twin_piece i ks) = Inr [[10, 11, 12] ! i]"
proof -
  obtain v: "sv_message_ids v = [1]" "sv_part_sizes v = [3]" using assms(1) by (auto simp: twin_views_def)
  have mr: "map_range [1] [3] 3 (int i) (int i) = Inr [(0, 1, int i, int i)]"
    using assms(2) by (simp add: map_range_def end_of_def Let_def)
  show "fetch refusing 3 v (twin_piece i ks) = Inl TechnicalError"
    by (simp add: fetch_def v twin_piece_def mr refusing_def raising_def)
  have "i = 0 \<or> i = 1 \<or> i = 2" using assms(2) by auto
  then show "fetch answering 3 v (twin_piece i ks) = Inr [[10, 11, 12] ! i]"
    by (auto simp: fetch_def v twin_piece_def mr answering_def twin_content_def stream_bytes_def subrange_def)
qed

lemma twin_honest_step:
  assumes "multi_reach (\<lambda>dl. honest dl twin_content) twin_cfg s0 s" and "ms_done s = None"
  shows twin_turn: "i < length (ms_workers s) \<Longrightarrow> ms_workers s ! i = Ready \<Longrightarrow>
      multi_reach (\<lambda>dl. honest dl twin_content) twin_cfg s0 (worker_turn twin_cfg i s)"
    and twin_failed: "i < 2 \<Longrightarrow> i < length (ms_workers s) \<Longrightarrow> j < 3 \<Longrightarrow> ms_workers s ! i = Fetching (twin_piece j ks) \<Longrightarrow>
      multi_reach (\<lambda>dl. honest dl twin_content) twin_cfg s0 (piece_failed twin_cfg i (twin_piece j ks) s)"
    and twin_fetched: "i < 2 \<Longrightarrow> i < length (ms_workers s) \<Longrightarrow> j < 3 \<Longrightarrow> ms_workers s ! i = Fetching (twin_piece j ks) \<Longrightarrow>
      multi_reach (\<lambda>dl. honest dl twin_content) twin_cfg s0 (piece_fetched twin_cfg i (twin_piece j ks) [[10, 11, 12] ! j] s)"
    and twin_consume: "\<not> ms_consumer_waits s \<Longrightarrow>
      multi_reach (\<lambda>dl. honest dl twin_content) twin_cfg s0 (consumer_turn twin_cfg s)"
proof -
  have v: "mr_worker_views twin_cfg ! i \<in> set twin_views" if "i < 2" for i
    using that by (auto simp: twin_cfg_def twin_views_def less_2_cases_iff)
  have sz: "mr_size twin_cfg = 3" by (simp add: twin_cfg_def)
  show "multi_reach (\<lambda>dl. honest dl twin_content) twin_cfg s0 (worker_turn twin_cfg i s)"
    if "i < length (ms_workers s)" "ms_workers s ! i = Ready"
    using multi_reach.reach_step [OF assms(1) multi_step.turn [OF assms(2) that]] .
  show "multi_reach (\<lambda>dl. honest dl twin_content) twin_cfg s0 (piece_failed twin_cfg i (twin_piece j ks) s)"
    if "i < 2" "i < length (ms_workers s)" "j < 3" "ms_workers s ! i = Fetching (twin_piece j ks)"
    using multi_reach.reach_step [OF assms(1) multi_step.failed [where dl = refusing and D = "\<lambda>dl. honest dl twin_content", OF assms(2) that(2,4) twin_honest(2)]]
      twin_fetch(1) [OF v [OF that(1)] that(3)] sz by auto
  show "multi_reach (\<lambda>dl. honest dl twin_content) twin_cfg s0 (piece_fetched twin_cfg i (twin_piece j ks) [[10, 11, 12] ! j] s)"
    if "i < 2" "i < length (ms_workers s)" "j < 3" "ms_workers s ! i = Fetching (twin_piece j ks)"
    using multi_reach.reach_step [OF assms(1) multi_step.fetched [where dl = answering and D = "\<lambda>dl. honest dl twin_content", OF assms(2) that(2,4) twin_honest(1)]]
      twin_fetch(2) [OF v [OF that(1)] that(3)] sz by auto
  show "multi_reach (\<lambda>dl. honest dl twin_content) twin_cfg s0 (consumer_turn twin_cfg s)" if "\<not> ms_consumer_waits s"
    using multi_reach.reach_step [OF assms(1) multi_step.consume [OF assms(2) that]] .
qed

text \<open>
  Store a fails piece 0 and store b piece 1; b goes on with piece 2 and fails again, which benches it,
  while a fetches the pieces 1 and 2. Piece 0 has been tried on a and waits for b.
\<close>

abbreviation twin_reach :: "multi_state \<Rightarrow> bool" where
  "twin_reach \<equiv> multi_reach (\<lambda>dl. honest dl twin_content) twin_cfg
     (twin_state [] [(0, []), (1, []), (2, [])] (\<lambda>_. 0) [] [Ready, Ready] False)"

definition twin_fails :: "nat \<Rightarrow> nat \<Rightarrow> string \<Rightarrow> nat" where
  "twin_fails a b key = (if key = ''a'' then a else if key = ''b'' then b else 0)"

lemma twin_fails_upd [simp]:
  "(\<lambda>_. 0) = twin_fails 0 0" "(twin_fails x y)(''a'' := n) = twin_fails n y" "(twin_fails x y)(''b'' := n) = twin_fails x n"
  "twin_fails x y ''a'' = x" "twin_fails x y ''b'' = y"
  by (auto simp: twin_fails_def fun_eq_iff)

lemma twin_hangs:
  "twin_reach (twin_state [(1, [11]), (2, [12])] [(0, [''a''])] (twin_fails 0 2) [''b''] [Waiting, Returned] True)"
proof -
  have 1: "twin_reach (twin_state [] [(1, []), (2, [])] (twin_fails 0 0) [] [Fetching (twin_piece 0 []), Ready] False)"
    using twin_turn [OF multi_reach.reach_refl [where s = "twin_state [] [(0, []), (1, []), (2, [])] (\<lambda>_. 0) [] [Ready, Ready] False"],
        of 0] by (simp add: twin_simps)
  have 2: "twin_reach (twin_state [] [(2, [])] (twin_fails 0 0) [] [Fetching (twin_piece 0 []), Fetching (twin_piece 1 [])] False)"
    using twin_turn [OF 1, of 1] by (simp add: twin_simps)
  have 3: "twin_reach (twin_state [] [(1, [''b'']), (2, [])] (twin_fails 0 1) [] [Fetching (twin_piece 0 []), Ready] False)"
    using twin_failed [OF 2, of 1 1 "[]"] by (simp add: twin_simps)
  have 4: "twin_reach (twin_state [] [(1, [''b''])] (twin_fails 0 1) [] [Fetching (twin_piece 0 []), Fetching (twin_piece 2 [])] False)"
    using twin_turn [OF 3, of 1] by (simp add: twin_simps)
  have 5: "twin_reach (twin_state [] [(0, [''a'']), (1, [''b''])] (twin_fails 1 1) [] [Ready, Fetching (twin_piece 2 [])] False)"
    using twin_failed [OF 4, of 0 0 "[]"] by (simp add: twin_simps)
  have 6: "twin_reach (twin_state [] [(0, [''a''])] (twin_fails 1 1) [] [Fetching (twin_piece 1 [''b'']), Fetching (twin_piece 2 [])] False)"
    using twin_turn [OF 5, of 0] by (simp add: twin_simps)
  have 7: "twin_reach (twin_state [] [(0, [''a'']), (2, [''b''])] (twin_fails 1 2) [''b''] [Fetching (twin_piece 1 [''b'']), Returned] False)"
    using twin_failed [OF 6, of 1 2 "[]"] by (simp add: twin_simps numeral_2_eq_2)
  have 8: "twin_reach (twin_state [(1, [11])] [(0, [''a'']), (2, [''b''])] (twin_fails 0 2) [''b''] [Ready, Returned] False)"
    using twin_fetched [OF 7, of 0 1 "[''b'']"] by (simp add: twin_simps)
  have 9: "twin_reach (twin_state [(1, [11])] [(0, [''a''])] (twin_fails 0 2) [''b''] [Fetching (twin_piece 2 [''b'']), Returned] False)"
    using twin_turn [OF 8, of 0] by (simp add: twin_simps)
  have 10: "twin_reach (twin_state [(1, [11]), (2, [12])] [(0, [''a''])] (twin_fails 0 2) [''b''] [Ready, Returned] False)"
    using twin_fetched [OF 9, of 0 2 "[''b'']"] by (simp add: twin_simps)
  have 11: "twin_reach (twin_state [(1, [11]), (2, [12])] [(0, [''a''])] (twin_fails 0 2) [''b''] [Waiting, Returned] False)"
    using twin_turn [OF 10, of 0] by (simp add: twin_simps)
  show ?thesis
    using twin_consume [OF 11] by (simp add: twin_simps consumer_turn_def)
qed

text \<open>C39: A shared read can hang. There are a read of three pieces from two stores that both hold the file and a run in which
  each store fails only now and then, after which no task can go on and the read has neither
  ended nor failed: a piece that failed on the first store waits for the second, which has been
  benched for failing two others, and only the piece that fails is checked for stores that are left.\<close>

theorem multi_read_can_hang:
  "\<exists>cfg s0 s. multi_read_init (\<lambda>_. 1) twin_views 3 0 2 1 8 = Inr (cfg, s0)
    \<and> list_all (view_holds twin_content [10, 11, 12]) twin_views
    \<and> multi_reach (\<lambda>dl. honest dl twin_content) cfg s0 s \<and> ms_done s = None
    \<and> (\<nexists>t. multi_step (\<lambda>dl. honest dl twin_content) cfg s t)"
proof -
  let ?s = "twin_state [(1, [11]), (2, [12])] [(0, [''a''])] (twin_fails 0 2) [''b''] [Waiting, Returned] True"
  have "\<not> multi_step (\<lambda>dl. honest dl twin_content) twin_cfg ?s t" for t
  proof
    assume "multi_step (\<lambda>dl. honest dl twin_content) twin_cfg ?s t"
    then show False by (cases rule: multi_step.cases) (auto simp: twin_state_def less_Suc_eq nth_Cons')
  qed
  moreover have "ms_done ?s = None" by (simp add: twin_state_def)
  ultimately show ?thesis using twin_start twin_holds twin_hangs by blast
qed

end
