(* ===== verification/ContentRepo.thy ===== *)
theory ContentRepo
  imports ReadThrough MultiSource
begin

text \<open>
  \<open>StoreFileContentRepository\<close> as its callers see it
  (\<open>src/tgdcfs/core/repository/impl/file_content/__init__.py\<close>): \<open>get\<close> with its four ways to
  serve a read, and \<open>stage\<close>, which accepts an upload into the cache alone. The state is the
  cache machine. \<open>ms\<close> gives the stream of every run of \<open>MultiSourceRead\<close> that a read starts; the
  properties take any outcome that the scheduler's own transition system can have.
\<close>

section \<open>Reading\<close>

type_synonym multi_read = "store_view list \<Rightarrow> int \<Rightarrow> int \<Rightarrow> int \<Rightarrow> int \<Rightarrow> int \<Rightarrow> stream"

fun plan_stream :: "multi_read \<Rightarrow> read_plan \<Rightarrow> stream" where
  "plan_stream ms (Sequential s) = s"
| "plan_stream ms (MultiSource views sz b0 e0 piece_size window) = ms views sz b0 e0 piece_size window"

definition store_stream :: "content_repo \<Rightarrow> download \<Rightarrow> multi_read \<Rightarrow> layout list \<Rightarrow> int \<Rightarrow> int \<Rightarrow> stream" where
  "store_stream r dl ms ls b0 e0 = plan_stream ms (stream_layouts r dl ls b0 e0)"

text \<open>
  What the cache operations of one read meet: the free disk space, whether the disk works,
  the clock, the scope, and what other tasks do while the read is suspended: between two
  stretches, between two chunks of a cached stretch, and while a block goes to disk.
\<close>

record surroundings =
  s_disk_free :: disk_free
  s_disk_ok :: bool
  s_now :: int
  s_scope :: string
  s_content :: "string \<Rightarrow> bytes"
  s_between :: "int \<Rightarrow> interference list"
  s_reading :: "int \<Rightarrow> interference list"
  s_during :: "int \<Rightarrow> interference list"

definition others :: "surroundings \<Rightarrow> int \<Rightarrow> cmachine \<Rightarrow> cmachine" where
  "others s p m = fold (interfere (s_content s) None) (s_between s p) m"

definition stream_through_cache ::
    "surroundings \<Rightarrow> (int \<Rightarrow> int \<Rightarrow> stream) \<Rightarrow> int \<Rightarrow> string \<Rightarrow> bool \<Rightarrow> int \<Rightarrow> int \<Rightarrow> cmachine
      \<Rightarrow> stream \<times> cmachine" where
  "stream_through_cache s stores sz vid admit b0 e0 m =
     (let (e, m1) = (case entry (m_cache m) vid of
          Some e \<Rightarrow> (Some e, m)
        | None \<Rightarrow>
            if admit
            then let (c, e) = reserve (s_disk_free s) (s_disk_ok s) (s_scope s) vid sz (s_now s) (m_cache m)
                 in (e, m\<lparr>m_cache := c\<rparr>)
            else (None, m))
      in case e of
           None \<Rightarrow> (stores b0 e0, m1)
         | Some e \<Rightarrow>
             through_runs (machine_read (s_content s) (s_reading s) (s_now s) vid)
               (write_blocks (s_content s) (s_disk_free s) (s_disk_ok s) (s_now s) (s_during s) vid)
               machine_miss stores (others s) (nat (e_block_size e)) b0 e0 (missing_runs e b0 e0) b0 m1)"

text \<open>\<open>get\<close>; \<open>cached\<close> is whether the repository has a cache that is switched on.\<close>

definition content_get ::
    "content_repo \<Rightarrow> download \<Rightarrow> multi_read \<Rightarrow> surroundings \<Rightarrow> bool \<Rightarrow> file_version \<Rightarrow> int \<Rightarrow> int \<Rightarrow> bool
      \<Rightarrow> cmachine \<Rightarrow> stream res \<times> cmachine" where
  "content_get r dl ms s cached fv b0 e0 admit m =
     (if fv_pending fv then
        (if cached \<and> complete (m_cache m) (fv_id fv) then
           (if fv_size fv \<le> 0 then (Inr ([], None), m)
            else
              let lst = (if e0 < 0 then fv_size fv - 1 else min e0 (fv_size fv - 1)) in
              if b0 < 0 \<or> lst < b0 then (Inl TechnicalError, m)
              else let (st, c) = cache_read (s_now s) (fv_id fv) b0 lst (m_cache m)
                   in (Inr st, m\<lparr>m_cache := c\<rparr>))
         else (Inl TechnicalError, m))
      else
        let ls = layouts r fv in
        if ls = [] then (if fv_size fv \<le> 0 then (Inr ([], None), m) else (Inl TechnicalError, m))
        else
          let sizes = l_part_sizes (hd ls); sz = layout_size (hd ls) in
          case map_range (replicate (length sizes) 0) sizes sz b0 e0 of
            Inl ex \<Rightarrow> (Inl ex, m)
          | Inr _ \<Rightarrow>
              let lst = end_of sz e0 in
              if cached \<and> cc_keep_for_reads (c_config (m_cache m)) \<and> fv_cacheable fv \<and> fv_id fv \<noteq> []
              then let (st, m') = stream_through_cache s (store_stream r dl ms ls) sz (fv_id fv) admit b0 lst m
                   in (Inr st, m')
              else (Inr (store_stream r dl ms ls b0 e0), m))"

section \<open>Staging and forgetting\<close>

definition STAGE_READ_CHUNK :: int where
  "STAGE_READ_CHUNK = 1024 * 1024"

text \<open>
  The body of an upload as \<open>stage\<close> reads it: the chunks that successive reads return, each with
  whether the disk takes it, and whether the body then ends or the read raises. \<open>stage_loop\<close> is the copy loop: what is left
  to write, the writer, the cache, and the exception that ended it.
\<close>

fun stage_loop :: "(bytes \<times> bool) list \<Rightarrow> exn option \<Rightarrow> int \<Rightarrow> writer \<Rightarrow> lcache
    \<Rightarrow> int \<times> writer \<times> lcache \<times> exn option" where
  "stage_loop [] end_ex remaining w c =
     (if 0 < remaining then (remaining, w, c, end_ex) else (remaining, w, c, None))"
| "stage_loop ((chunk, ok) # chunks) end_ex remaining w c =
     (if 0 < remaining then
        (if chunk = [] then (remaining, w, c, None)
         else
           let (w1, c1) = writer_write ok chunk w c;
               left = remaining - int (length chunk)
           in if w_failed w1 then (left, w1, c1, None)
              else stage_loop chunks end_ex left w1 c1)
      else (remaining, w, c, None))"

definition stage :: "surroundings \<Rightarrow> bool \<Rightarrow> string \<Rightarrow> int \<Rightarrow> (bytes \<times> bool) list \<times> exn option \<Rightarrow> lcache
    \<Rightarrow> int option res \<times> lcache" where
  "stage s cached vid sz body c =
     (if \<not> cached then (Inr None, c)
      else (case open_staging (s_disk_free s) (s_disk_ok s) (s_scope s) vid sz (s_now s) c of
          (c1, None) \<Rightarrow> (Inr None, c1)
        | (c1, Some w) \<Rightarrow>
            let c2 = pin (s_now s) vid c1;
                (remaining, w1, c3, ex) = stage_loop (fst body) (snd body) sz w c2
            in case ex of
                 Some x \<Rightarrow> (Inl x, snd (writer_abort w1 c3))
               | None \<Rightarrow>
                   let (w2, c4) = writer_close w1 c3
                   in if w_failed w2 \<or> 0 < remaining then (Inl TechnicalError, remove vid c4)
                      else (Inr (Some sz), c4)))"

definition forget :: "bool \<Rightarrow> string list \<Rightarrow> lcache \<Rightarrow> lcache" where
  "forget cached vids c = (if cached then remove_many vids c else c)"

section \<open>Reads are exact\<close>

lemma reserve_lookup:
  "reserve df ok fs vid sz now c = (c', Some e) \<Longrightarrow> map_of (c_entries c') vid = Some e"
  by (auto simp: reserve_def Let_def add_entry_def update_conv' split: if_splits prod.splits bool.splits)

lemma others_inv: "machine_inv (s_content s) m \<Longrightarrow> machine_inv (s_content s) (others s p m)"
  by (simp add: others_def interferes_inv)

lemma stream_through_cache_delivers:
  assumes inv: "machine_inv (s_content s) m" and data: "s_content s vid = data"
    and b: "0 \<le> b" "b \<le> x" "x < int (length data)"
    and stores: "\<And>rb re. 0 \<le> rb \<Longrightarrow> rb \<le> re \<Longrightarrow> re < int (length data) \<Longrightarrow> serves (stores rb re) (subrange data rb re)"
    and sz: "sz = int (length data)"
  shows "delivers (fst (stream_through_cache s stores sz vid admit b x m)) (subrange data b x)
    \<and> machine_inv (s_content s) (snd (stream_through_cache s stores sz vid admit b x m))"
proof -
  let ?rd = "machine_read (s_content s) (s_reading s) (s_now s) vid"
  let ?wb = "write_blocks (s_content s) (s_disk_free s) (s_disk_ok s) (s_now s) (s_during s) vid"
  have plain: "delivers (stores b x) (subrange data b x)" using stores [OF b] by (rule serves_delivers)
  have run: "delivers (fst (through_runs ?rd ?wb machine_miss stores (others s) bs b x (missing_runs e b x) b m1))
        (subrange data b x)
      \<and> machine_inv (s_content s) (snd (through_runs ?rd ?wb machine_miss stores (others s) bs b x (missing_runs e b x) b m1))"
    if "machine_inv (s_content s) m1" and "map_of (c_entries (m_cache m1)) vid = Some e" for m1 e bs
  proof -
    have e: "entry_ok e" "e_size e = int (length data)" using machine_entry [OF that] data by simp_all
    then have "runs_within (int (length data)) b x b (missing_runs e b x)"
      using missing_runs_within [OF e(1) b(1,2)] b(3) by simp
    then show ?thesis
      using rt.through_runs_delivers [OF that(1), of vid b x b] b stores others_inv by (simp add: data)
  qed
  show ?thesis
  proof (cases "entry (m_cache m) vid")
    case (Some e)
    then show ?thesis using run [OF inv] by (simp add: stream_through_cache_def entry_def)
  next
    case None
    obtain c e where rs: "reserve (s_disk_free s) (s_disk_ok s) (s_scope s) vid sz (s_now s) (m_cache m) = (c, e)"
      by fastforce
    have "machine_inv (s_content s) (m\<lparr>m_cache := c\<rparr>)"
      using machine_inv_step [OF cache_step.step_reserve [OF rs] _ inv] data sz by simp
    then show ?thesis
      using plain inv run [of "m\<lparr>m_cache := c\<rparr>"] reserve_lookup [of _ _ _ _ _ _ _ c] rs None
      by (cases e) (auto simp: stream_through_cache_def)
  qed
qed

text \<open>
  A repository that reads in parallel does so with a positive piece size, and each of its
  shared reads that comes to an end is the outcome of some run of the scheduler.
\<close>

definition multi_runs :: "store_content \<Rightarrow> content_repo \<Rightarrow> multi_read \<Rightarrow> bool" where
  "multi_runs content r ms \<longleftrightarrow> (cr_read_parallel r \<longrightarrow> 0 < cr_piece_size r
     \<and> (\<forall>views sz b e ps w. 1 < length views
          \<longrightarrow> multi_outcome (\<lambda>dl. honest dl content) views sz b e ps w (ms views sz b e ps w)))"

lemma holds_size: "holds_data content data l \<Longrightarrow> layout_size l = int (length data)"
  by (auto simp: holds_data_def layout_holds_def layout_size_def sum_sizes_from)

lemma store_stream_serves:
  assumes "honest dl content" and hold: "\<forall>l \<in> set ls. holds_data content data l" and apart: "\<forall>l \<in> set ls. sources_apart l"
    and runs: "multi_runs content r ms"
    and "ls \<noteq> []" and "0 \<le> b" and "b \<le> end_of (int (length data)) e" and "data \<noteq> []"
  shows "serves (store_stream r dl ms ls b e) (subrange data b (end_of (int (length data)) e))"
proof -
  have sz: "layout_size (hd ls) = int (length data)" using holds_size [OF bspec [OF hold]] assms(5) by simp
  have le: "end_of (int (length data)) e < int (length data)" using assms(8) end_of_bounds(1) by simp
  have "serves (ms (store_views r ls) (int (length data)) b (end_of (int (length data)) e) (cr_piece_size r) (cr_read_window r))
      (subrange data b (end_of (int (length data)) e))" if "cr_read_parallel r" "1 < length (store_views r ls)"
  proof (rule multi_outcome_serves [where w = "cr_read_window r", OF _ _ assms(6,7) le])
    show "\<forall>v \<in> set (store_views r ls). view_holds content data v" using store_views_hold hold apart by blast
  qed (use runs that in \<open>auto simp: multi_runs_def\<close>)
  then show ?thesis
    using stream_layouts_loop_serves [OF assms(1) hold assms(6), of 0 e None r] assms(5-8) sz
    by (auto simp: store_stream_def stream_layouts_def Let_def)
qed

lemma map_range_holds:
  assumes "holds_data content data l" and "0 \<le> b" and "b \<le> end_of (int (length data)) e" and "data \<noteq> []"
  shows "\<exists>ps. map_range (replicate (length (l_part_sizes l)) 0) (l_part_sizes l) (layout_size l) b e = Inr ps"
proof -
  let ?ids = "replicate (length (l_part_sizes l)) (0 :: int)"
  obtain P n where P: "l_part_sizes l = sizes_from P 0 n" "bytes_from P 0 n = data"
    using assms(1) by (auto simp: holds_data_def layout_holds_def)
  have "emitted P ?ids n (subrange data b (end_of (int (length data)) e))
      (map_range ?ids (l_part_sizes l) (layout_size l) b e)"
    using map_range_parts [of b P n e ?ids] assms(2-4) P by (simp add: layout_size_def)
  moreover have "\<not> length ?ids < n" by (simp add: P(1))
  ultimately show ?thesis by (auto simp: emitted_def split: sum.splits)
qed

lemma content_get_delivers:
  assumes "\<not> fv_pending fv" and "honest dl content" and "copies_hold content (cr_store r) fv data"
    and "layouts r fv \<noteq> []" and "multi_runs content r ms" and "mirrors_apart (cr_store r) fv" and "data \<noteq> []"
    and "0 \<le> b" and "b \<le> end_of (int (length data)) e"
    and "machine_inv (s_content s) m" and "s_content s (fv_id fv) = data"
  shows "\<exists>st m'. content_get r dl ms s cached fv b e admit m = (Inr st, m')
    \<and> delivers st (subrange data b (end_of (int (length data)) e)) \<and> machine_inv (s_content s) m'"
proof -
  let ?ls = "layouts r fv"
  have hold: "\<forall>l \<in> set ?ls. holds_data content data l" using layouts_hold [OF assms(3)] by blast
  have apart: "\<forall>l \<in> set ?ls. sources_apart l" using layouts_apart [OF assms(6)] by blast
  from hold have hd: "holds_data content data (hd ?ls)" using assms(4) by simp
  note sz = holds_size [OF hd]
  obtain ps where mr: "map_range (replicate (length (l_part_sizes (hd ?ls))) 0) (l_part_sizes (hd ?ls))
      (int (length data)) b e = Inr ps"
    using map_range_holds [OF hd assms(8,9,7)] sz by auto
  have stores: "serves (store_stream r dl ms ?ls rb re) (subrange data rb re)"
    if "0 \<le> rb" "rb \<le> re" "re < int (length data)" for rb re
    using store_stream_serves [OF assms(2) hold apart assms(5,4) that(1), of re] that assms(7) end_of_bounds(2) [of re]
    by simp
  have plain: "delivers (store_stream r dl ms ?ls b e) (subrange data b (end_of (int (length data)) e))"
    using store_stream_serves [OF assms(2) hold apart assms(5,4,8,9,7)] by (rule serves_delivers)
  have "end_of (int (length data)) e < int (length data)" using assms(7) end_of_bounds(1) by simp
  note through = stream_through_cache_delivers [OF assms(10,11,8,9) this stores refl, of admit]
  let ?cache = "cached \<and> cc_keep_for_reads (c_config (m_cache m)) \<and> fv_cacheable fv \<and> fv_id fv \<noteq> []"
  show ?thesis
  proof (cases ?cache)
    case True
    obtain st m' where st: "stream_through_cache s (store_stream r dl ms ?ls) (int (length data)) (fv_id fv) admit b
        (end_of (int (length data)) e) m = (st, m')" by fastforce
    then have "content_get r dl ms s cached fv b e admit m = (Inr st, m')"
      using True mr assms(1,4) sz by (simp add: content_get_def Let_def)
    then show ?thesis using through st by simp
  next
    case False
    then have "content_get r dl ms s cached fv b e admit m = (Inr (store_stream r dl ms ?ls b e), m)"
      using mr assms(1,4) sz by (simp add: content_get_def Let_def if_not_P)
    then show ?thesis using plain assms(10) by blast
  qed
qed

text \<open>
  When the read ends normally. A version of which nothing is cached is fetched in one run that covers the whole range,
  so the cache adds no way to fail, whatever other tasks do to it: the read ends as the read of the stores does.
\<close>

lemma fresh_runs:
  assumes ok: "entry_ok e" and fresh: "\<forall>k < blocks e. \<not> e_present e ! k" and b: "0 \<le> b" "b \<le> x" "x < e_size e"
  shows "\<exists>rb re. missing_runs e b x = [(rb, re)] \<and> 0 \<le> rb \<and> rb \<le> b \<and> x \<le> re \<and> re < e_size e"
proof -
  let ?bs = "e_block_size e"
  let ?i = "nat (b div ?bs)" and ?l = "nat (x div ?bs)"
  have bs: "0 < ?bs" using ok by (simp add: entry_ok_def)
  have dx: "int ?l = x div ?bs" "int ?i = b div ?bs" using b bs by (simp_all add: pos_imp_zdiv_nonneg_iff)
  have x: "x < block_begin e (Suc ?l)" "block_begin e ?l \<le> x" "block_begin e ?i \<le> b"
  proof -
    show "x < block_begin e (Suc ?l)"
      using dx(1) div_mult_mod_eq [of x ?bs] pos_mod_bound [OF bs, of x]
      by (simp only: block_begin_def of_nat_Suc distrib_right mult_1)
  qed (use dx int_div_mult_le [OF bs] in \<open>simp_all add: block_begin_def\<close>)
  have "int ?l * ?bs < int (blocks e) * ?bs" using entry_blocks(1) [OF ok] x(2) b(3) by (simp add: block_begin_def)
  then have "int ?l < int (blocks e)" using bs by (simp only: mult_less_cancel_right_pos)
  then have l: "?l < blocks e" by (simp only: of_nat_less_iff)
  have il: "?i \<le> ?l" using b bs by (simp add: nat_mono zdiv_mono1)
  have last: "x \<le> block_last e ?l" "block_last e ?l < e_size e"
    using block_last_bounds [OF ok l] x(1) b(3) by (cases "Suc ?l < blocks e"; simp)+
  have "runs_cover e ?l ?i (missing_runs e b x)" using missing_runs_cover [of e b x] b bs by simp
  then have "missing_runs e b x = [(block_begin e ?i, block_last e ?l)]"
  proof cases
    case cover_done
    then have "e_present e ! ?i" using il by (simp add: all_present_def)
    then show ?thesis using fresh il l by auto
  next
    case (cover_run s t rs)
    then have "s = ?i" using fresh l by (metis all_present_def le_neq_implies_less le_trans less_le_trans order_refl not_le)
    moreover have "t = ?l" using cover_run(4,7) fresh l by (metis Suc_leI le_neq_implies_less le_less_trans)
    moreover from this have "rs = []" using cover_run(8) by (auto elim: runs_cover.cases)
    ultimately show ?thesis using cover_run(1) by simp
  qed
  moreover have "0 \<le> block_begin e ?i" using bs by (simp add: block_begin_def)
  ultimately show ?thesis using x(3) last by blast
qed

lemma one_run_ends:
  assumes "rb \<le> b" and "x \<le> re" and "snd (stores rb re) = None"
  shows "snd (fst (through_runs rd wb miss stores env bs b x [(rb, re)] b c)) = None"
  using assms by (simp add: fetch_run_def Let_def take_over_def split: prod.splits)

lemma stream_through_cache_ends:
  assumes inv: "machine_inv (s_content s) m" and data: "int (length (s_content s vid)) = sz"
    and cold: "entry (m_cache m) vid = None" and b: "0 \<le> b" "b \<le> x" "x < sz"
    and stores: "\<And>rb re. 0 \<le> rb \<Longrightarrow> rb \<le> re \<Longrightarrow> re < sz \<Longrightarrow> snd (stores rb re) = None"
  shows "snd (fst (stream_through_cache s stores sz vid admit b x m)) = None
    \<and> (\<not> admit \<longrightarrow> snd (stream_through_cache s stores sz vid admit b x m) = m)"
proof -
  obtain c e where rs: "reserve (s_disk_free s) (s_disk_ok s) (s_scope s) vid sz (s_now s) (m_cache m) = (c, e)"
    by fastforce
  have "snd (fst (stream_through_cache s stores sz vid True b x m)) = None" if e: "e = Some e'" for e'
  proof -
    have ci: "machine_inv (s_content s) (m\<lparr>m_cache := c\<rparr>)"
      using machine_inv_step [OF cache_step.step_reserve [OF rs] _ inv] data by simp
    have ok: "entry_ok e'" "e_size e' = sz"
      using machine_entry [OF ci] reserve_lookup [OF rs [unfolded e]] data by auto
    have fresh: "\<forall>k < blocks e'. \<not> e_present e' ! k"
      using rs e by (auto simp: reserve_def Let_def new_entry_def blocks_def split: if_splits prod.splits bool.splits)
    obtain rb re where r: "missing_runs e' b x = [(rb, re)]" "0 \<le> rb" "rb \<le> b" "x \<le> re" "re < sz"
      using fresh_runs [OF ok(1) fresh b(1,2)] b(3) ok(2) by auto
    then have "snd (stores rb re) = None" using stores b by simp
    then show ?thesis
      using one_run_ends [OF r(3,4)] cold rs e by (simp add: stream_through_cache_def r(1) del: through_runs.simps)
  qed
  then show ?thesis
    using rs cold stores [OF b] by (cases admit; cases e) (auto simp: stream_through_cache_def)
qed

lemma content_get_ends:
  assumes "\<not> fv_pending fv" and "honest dl content" and "copies_hold content (cr_store r) fv data"
    and "\<not> cr_read_parallel r" and up: "l \<in> set (layouts r fv)" "layout_up dl content l"
    and b: "0 \<le> b" "b \<le> e" "e < int (length data)"
    and inv: "machine_inv (s_content s) m" and data: "s_content s (fv_id fv) = data"
    and cold: "cached \<longrightarrow> entry (m_cache m) (fv_id fv) = None"
  shows "snd (of_res (fst (content_get r dl ms s cached fv b e admit m))) = None
    \<and> (\<not> admit \<longrightarrow> snd (content_get r dl ms s cached fv b e admit m) = m)"
proof -
  let ?ls = "layouts r fv"
  have hold: "\<forall>l \<in> set ?ls. holds_data content data l" using layouts_hold [OF assms(3)] by blast
  have ls: "?ls \<noteq> []" and ne: "data \<noteq> []" using up(1) b by auto
  then have hd: "holds_data content data (hd ?ls)" using hold by simp
  have eo: "end_of (int (length data)) re = re" if "0 \<le> re" "re < int (length data)" for re
    using end_of_bounds(2) that by simp
  obtain ps where mr: "map_range (replicate (length (l_part_sizes (hd ?ls))) 0) (l_part_sizes (hd ?ls))
      (int (length data)) b e = Inr ps"
    using map_range_holds [OF hd b(1) _ ne, of e] b eo holds_size [OF hd] by auto
  have stores: "snd (store_stream r dl ms ?ls rb re) = None" if "0 \<le> rb" "rb \<le> re" "re < int (length data)" for rb re
    using stream_layouts_loop_serves [OF assms(2) hold that(1), of 0 re None r] that up ne ls assms(4) eo
    by (auto simp: store_stream_def stream_layouts_def Let_def)
  let ?cache = "cached \<and> cc_keep_for_reads (c_config (m_cache m)) \<and> fv_cacheable fv \<and> fv_id fv \<noteq> []"
  show ?thesis
  proof (cases ?cache)
    case True
    then have "entry (m_cache m) (fv_id fv) = None" using cold by blast
    note ends = stream_through_cache_ends [OF inv arg_cong [OF data, of "\<lambda>d. int (length d)"] this b, of "store_stream r dl ms ?ls", OF stores]
    have "content_get r dl ms s cached fv b e admit m
        = (let (st, m') = stream_through_cache s (store_stream r dl ms ?ls) (int (length data)) (fv_id fv) admit b e m in (Inr st, m'))"
      using True mr assms(1) ls holds_size [OF hd] eo [of e] b by (simp add: content_get_def Let_def)
    then show ?thesis
      using ends [of admit]
      by (cases "stream_through_cache s (store_stream r dl ms ?ls) (int (length data)) (fv_id fv) admit b e m") auto
  next
    case False
    then have "content_get r dl ms s cached fv b e admit m = (Inr (store_stream r dl ms ?ls b e), m)"
      using mr assms(1) ls holds_size [OF hd] by (simp add: content_get_def Let_def if_not_P)
    then show ?thesis using stores [OF b] by auto
  qed
qed

text \<open>C2: reading a distributed version is exact, whatever the local cache holds and whatever
  happens to it meanwhile. \<open>get\<close> returns a stream that hands out a prefix of the requested
  range, and all of it unless it raises: with the cache off, with the version refused by the
  cache, with blocks read from disk and missing runs fetched and stored, and with cache
  operations of other tasks (uploads, fills, evictions, sweeps) at every suspension, as long
  as those between two chunks of a cached stretch leave that stretch on disk. The cache's
  invariant holds afterwards, so later reads are served what was written.\<close>

theorem content_get_exact:
  assumes "\<not> fv_pending fv" and "honest dl content" and "copies_hold content (cr_store r) fv data"
    and "layouts r fv \<noteq> []" and "multi_runs content r ms" and "mirrors_apart (cr_store r) fv" and "data \<noteq> []"
    and "0 \<le> b" and "b \<le> end_of (int (length data)) e"
    and "machine_inv (s_content s) m" and "s_content s (fv_id fv) = data"
  shows "\<exists>st m'. content_get r dl ms s cached fv b e admit m = (Inr st, m')
    \<and> delivers st (subrange data b (end_of (int (length data)) e)) \<and> machine_inv (s_content s) m'"
  using assms by (rule content_get_delivers)

definition example_surroundings :: surroundings where
  "example_surroundings = \<lparr>s_disk_free = (\<lambda>_. None), s_disk_ok = True, s_now = 5, s_scope = ''fs'',
     s_content = (\<lambda>_. [10, 11, 12]), s_between = (\<lambda>_. [I_evict]), s_reading = (\<lambda>_. []), s_during = (\<lambda>_. [])\<rparr>"

definition empty_machine :: "cache_config \<Rightarrow> cmachine" where
  "empty_machine cfg = \<lparr>m_cache = empty_cache cfg, m_fills = [], m_writers = []\<rparr>"

lemma empty_machine_inv: "machine_inv content (empty_machine example_config)"
  using honest_reach_inv [OF honest_reach.honest_start, of example_config content]
  by (simp add: machine_inv_def empty_machine_def example_config_def)

theorem content_get_exact_witness:
  "\<exists>st m'. content_get example_repo example_download (\<lambda>_ _ _ _ _ _. raising TechnicalError) example_surroundings True
      example_read_version 1 (-1) True (empty_machine example_config) = (Inr st, m')
    \<and> delivers st [11, 12] \<and> machine_inv (s_content example_surroundings) m'"
proof -
  have ne: "layouts example_repo example_read_version \<noteq> []" by (simp add: example_layouts)
  have runs: "multi_runs example_content example_repo (\<lambda>_ _ _ _ _ _. raising TechnicalError)"
    and apart: "mirrors_apart (cr_store example_repo) example_read_version"
    by (simp_all add: multi_runs_def example_repo_def mirrors_apart_def example_read_version_def dict_ok_def dict_has_def)
  from content_get_exact [OF _ example_honest example_copies ne runs apart, where s = example_surroundings
      and m = "empty_machine example_config" and b = 1 and e = "-1" and cached = True and admit = True]
  show ?thesis
    by (simp add: example_read_version_def example_version_def example_surroundings_def empty_machine_inv end_of_def subrange_def)
qed

section \<open>A staged upload can be read at once\<close>

definition live :: "writer \<Rightarrow> lcache \<Rightarrow> bool" where
  "live w c \<longleftrightarrow> w_failed w \<or> (\<exists>e. map_of (c_entries c) (w_version_id w) = Some e \<and> e_token e = w_token w
     \<and> (0 < w_offset w \<and> w_size w \<le> w_offset w \<longrightarrow> \<not> e_writing e))"

lemma writer_write_live:
  assumes "live w c" and "writer_write ok data w c = (w', c')" and "\<not> w_failed w'" and "data \<noteq> []"
  shows "live w' c' \<and> w_offset w' = w_offset w + int (length data) \<and> w_version_id w' = w_version_id w
    \<and> w_token w' = w_token w \<and> w_size w' = w_size w"
proof -
  have nf: "\<not> w_failed w" using assms(2-4) by (auto simp: writer_write_def)
  then obtain e where e: "map_of (c_entries c) (w_version_id w) = Some e" "e_token e = w_token w"
    using assms(1) by (auto simp: live_def)
  from assms(2,3,4) nf e show ?thesis
    by (auto simp: writer_write_def writer_abort_def Let_def live_def writer_finish_def mark_present_def
        map_of_on_entry set_present_def entry_def split: option.splits if_splits)
qed

lemma writers_step:
  assumes "machine_inv content m" and "w \<in> set (m_writers m)" and "cache_step l m m'" and "honest_label content l"
    and "m' = m\<lparr>m_cache := c, m_writers := replace1 w w' (m_writers m)\<rparr>"
  shows "machine_inv content m' \<and> w' \<in> set (m_writers m') \<and> m_cache m' = c"
  using machine_inv_step [OF assms(3,4,1)] assms(5) by (simp add: replace1_def)

lemma stage_loop_inv:
  assumes "stage_loop chunks ex remaining w (m_cache m) = (left, w', c', None)"
    and "machine_inv content m" and "w \<in> set (m_writers m)" and "live w (m_cache m)" and "\<not> w_failed w'"
    and "0 \<le> w_offset w" and "w_offset w + remaining = w_size w"
    and "piece_of (content (w_version_id w)) (w_offset w) (concat (map fst chunks))"
  shows "\<exists>m'. machine_inv content m' \<and> m_cache m' = c' \<and> w' \<in> set (m_writers m') \<and> live w' c'
    \<and> w_version_id w' = w_version_id w \<and> w_size w' = w_size w \<and> w_offset w' + left = w_size w'
    \<and> w_offset w \<le> w_offset w'"
  using assms
proof (induction chunks arbitrary: remaining w m)
  case Nil
  then show ?case by (auto split: if_splits)
next
  case (Cons chunk_ok chunks)
  obtain chunk ok where ch: "chunk_ok = (chunk, ok)" by (cases chunk_ok)
  show ?case
  proof (cases "0 < remaining \<and> chunk \<noteq> []")
    case True
    obtain w1 c1 where wr: "writer_write ok chunk w (m_cache m) = (w1, c1)" by fastforce
    have nf: "\<not> w_failed w1"
      using Cons.prems(1,5) True by (auto simp: ch wr Let_def split: if_splits)
    note lw = writer_write_live [OF Cons.prems(4) wr nf] True
    have loop: "stage_loop chunks ex (remaining - int (length chunk)) w1 c1 = (left, w', c', None)"
      using Cons.prems(1) True nf by (simp add: ch wr Let_def)
    have pieces: "piece_of (content (w_version_id w)) (w_offset w) chunk"
      "piece_of (content (w_version_id w)) (w_offset w + int (length chunk)) (concat (map fst chunks))"
      using Cons.prems(8) by (simp_all add: ch piece_of_append [OF Cons.prems(6)])
    let ?m1 = "m\<lparr>m_cache := c1, m_writers := replace1 w w1 (m_writers m)\<rparr>"
    have m1: "machine_inv content ?m1 \<and> w1 \<in> set (m_writers ?m1) \<and> m_cache ?m1 = c1"
      using writers_step [OF Cons.prems(2,3) cache_step.step_write [OF Cons.prems(3) wr] _ refl] pieces(1) by simp
    have "\<exists>m'. machine_inv content m' \<and> m_cache m' = c' \<and> w' \<in> set (m_writers m') \<and> live w' c'
        \<and> w_version_id w' = w_version_id w1 \<and> w_size w' = w_size w1 \<and> w_offset w' + left = w_size w'
        \<and> w_offset w1 \<le> w_offset w'"
      by (rule Cons.IH [where m = ?m1 and remaining = "remaining - int (length chunk)"])
        (use loop m1 lw pieces(2) Cons.prems(5-7) in simp_all)
    then show ?thesis using lw by auto
  next
    case False
    then have "left = remaining \<and> w' = w \<and> c' = m_cache m"
      using Cons.prems(1) by (auto simp: ch split: if_splits)
    then show ?thesis using Cons.prems by auto
  qed
qed

lemma writer_close_live:
  assumes "live w c" and "writer_close w c = (w', c')" and "\<not> w_failed w'"
  shows "live w' c' \<and> w_offset w' = w_offset w \<and> w_version_id w' = w_version_id w \<and> w_size w' = w_size w"
  using assms
  by (auto simp: writer_close_def writer_abort_def live_def writer_finish_def map_of_on_entry split: if_splits)

lemma live_complete:
  assumes "machine_inv content m" and "w \<in> set (m_writers m)" and "live w (m_cache m)" and "\<not> w_failed w"
    and "0 < w_offset w" and "w_size w \<le> w_offset w"
  shows "complete (m_cache m) (w_version_id w)"
proof -
  obtain e where e: "map_of (c_entries (m_cache m)) (w_version_id w) = Some e" "e_token e = w_token w" "\<not> e_writing e"
    using assms(3-6) by (auto simp: live_def)
  then have "\<forall>i < blocks e. e_present e ! i"
    using assms(1,2) map_of_SomeD [OF e(1)] unfolding machine_inv_def cache_inv_def writer_ok_def by fast
  then show ?thesis using e by (auto simp: complete_def entry_def is_complete_def list_all_length blocks_def)
qed

lemma open_staging_live:
  assumes "open_staging df ok fs vid sz now c = (c', Some w)"
  shows "map_of (c_entries c') vid \<noteq> None" and "w_version_id w = vid" and "w_size w = sz" and "w_offset w = 0"
    and "\<not> w_failed w" and "map_option e_token (map_of (c_entries c') vid) = Some (w_token w)"
  using assms
  by (auto simp: open_staging_def Let_def add_entry_def update_conv' split: if_splits prod.splits bool.splits)

lemma stage_complete:
  assumes st: "stage s True vid sz (chunks, ex) (m_cache m) = (Inr (Some n), c')"
    and inv: "machine_inv content m" and data: "content vid = concat (map fst chunks)"
    and sz: "sz = int (length (content vid))" "0 < sz"
  shows "n = sz \<and> complete c' vid \<and> (\<exists>m'. machine_inv content m' \<and> m_cache m' = c')"
proof -
  obtain c1 w where op: "open_staging (s_disk_free s) (s_disk_ok s) (s_scope s) vid sz (s_now s) (m_cache m) = (c1, Some w)"
    using st by (auto simp: stage_def split: option.splits prod.splits)
  let ?c2 = "pin (s_now s) vid c1"
  let ?m1 = "m\<lparr>m_cache := c1, m_writers := w # m_writers m\<rparr>" and ?m2 = "m\<lparr>m_writers := w # m_writers m, m_cache := ?c2\<rparr>"
  have "machine_inv content ?m1"
    using machine_inv_step [OF cache_step.step_open [OF op] _ inv] sz(1) by simp
  from machine_inv_step [OF cache_step.step_pin _ this, of "s_now s" vid]
  have m2: "machine_inv content ?m2" by simp
  obtain left w1 c3 where loop: "stage_loop chunks ex sz w ?c2 = (left, w1, c3, None)"
    using st by (auto simp: stage_def op Let_def split: prod.splits option.splits)
  obtain w2 c4 where cl: "writer_close w1 c3 = (w2, c4)" by fastforce
  have ends: "\<not> w_failed w2" "\<not> 0 < left" "c' = c4" "n = sz"
    using st by (auto simp: stage_def op loop cl split: if_splits)
  have nf1: "\<not> w_failed w1" using ends(1) cl by (auto simp: writer_close_def split: if_splits)
  note ow = open_staging_live [OF op]
  have live2: "live w ?c2"
    using ow by (auto simp: live_def pin_def update_conv' split: option.split)
  have "piece_of (content (w_version_id w)) (w_offset w) (concat (map fst chunks))"
    using ow data by (simp add: piece_of_def)
  then obtain m3 where m3: "machine_inv content m3" "m_cache m3 = c3" "w1 \<in> set (m_writers m3)" "live w1 c3"
    "w_version_id w1 = vid" "w_size w1 = sz" "w_offset w1 + left = sz"
    using stage_loop_inv [where m = ?m2 and content = content, of chunks ex sz w left w1 c3] loop m2 live2 nf1 ow by auto
  let ?m4 = "m3\<lparr>m_cache := c4, m_writers := replace1 w1 w2 (m_writers m3)\<rparr>"
  have m4: "machine_inv content ?m4" "w2 \<in> set (m_writers ?m4)"
    using writers_step [OF m3(1,3) cache_step.step_close [OF m3(3)] _ refl] cl m3(2) by simp_all
  have "live w2 c4 \<and> w_offset w2 = w_offset w1 \<and> w_version_id w2 = vid \<and> w_size w2 = sz"
    using writer_close_live [OF m3(4) cl ends(1)] m3(5,6) by simp
  then have "complete c4 vid"
    using live_complete [OF m4, unfolded cmachine.simps] ends m3(7) sz(2) by auto
  then show ?thesis using ends m4(1) by (intro conjI exI [of _ ?m4]) simp_all
qed

text \<open>C8: an upload acknowledged from the cache can be read at once. When \<open>stage\<close> returns a
  size, the entry is complete, and \<open>get\<close> of the pending version streams exactly the bytes of
  the body for every range inside the file.\<close>

theorem staged_upload_readable:
  assumes "stage s True vid sz (chunks, ex) (m_cache m) = (Inr (Some n), c')"
    and "machine_inv content m" and "content vid = concat (map fst chunks)"
    and "sz = int (length (content vid))" and "0 < sz"
    and "fv_pending fv" and "fv_id fv = vid" and "fv_size fv = sz" and "0 \<le> b" and "b \<le> x" and "x < sz"
  shows "n = sz \<and> (\<exists>st m''. content_get r dl ms s True fv b x admit (m\<lparr>m_cache := c'\<rparr>) = (Inr st, m'')
    \<and> stream_bytes st = subrange (content vid) b x \<and> snd st = None)"
proof -
  obtain m' where m': "machine_inv content m'" "m_cache m' = c'" "complete c' vid" "n = sz"
    using stage_complete [OF assms(1-5)] by auto
  obtain e where e: "map_of (c_entries c') vid = Some e" "is_complete e"
    using m'(3) by (auto simp: complete_def entry_def split: option.splits)
  have eo: "entry_ok e" "e_size e = sz" using machine_entry [OF m'(1)] e m'(2) assms(4) by auto
  have "list_all id (e_present e)" using e(2) eo(2) assms(5) by (simp add: is_complete_def)
  then have "list_all id (subrange (e_present e) i j)" for i j
    by (auto simp: subrange_def list_all_iff dest!: in_set_takeD in_set_dropD)
  then have "has_range e b x" using assms(9-11) eo(2) by (simp add: has_range_def)
  moreover have "content vid \<noteq> []" using assms(4,5) by auto
  moreover have good: "entry_good content vid e"
    using m'(1,2) map_of_SomeD [OF e(1)] by (auto simp: machine_inv_def data_inv_def)
  ultimately have "snd (fst (cache_read (s_now s) vid b x c')) = None
      \<and> stream_bytes (fst (cache_read (s_now s) vid b x c')) = subrange (content vid) b x"
    using has_range_bytes [OF eo(1), of content vid b x]
      read_chunks_serves [of b x "e_data e"] eo assms(5,9-11) good
    by (auto simp: cache_read_def e(1) Let_def entry_ok_def)
  then show ?thesis
    using m'(3,4) assms(5-11) by (auto simp: content_get_def Let_def split: prod.split)
qed

definition staging_surroundings :: surroundings where
  "staging_surroundings = \<lparr>s_disk_free = (\<lambda>_. None), s_disk_ok = True, s_now = 0, s_scope = ''fs'',
     s_content = (\<lambda>_. [7]), s_between = (\<lambda>_. []), s_reading = (\<lambda>_. []), s_during = (\<lambda>_. [])\<rparr>"

definition pending_example :: file_version where
  "pending_example = example_version\<lparr>fv_id := ''v1'', fv_pending := True, fv_raw_size := 1, fv_recorded_size := 1,
     fv_message_ids := [], fv_part_sizes := []\<rparr>"

lemma stage_example:
  "fst (stage staging_surroundings True ''v1'' 1 ([([7], True)], None) (empty_cache example_config)) = Inr (Some 1)"
  by (simp add: stage_def staging_surroundings_def staged_open Let_def staged_cache_def staged_entry_def
      staging_writer_def pin_def writer_write_def entry_def on_entry_def pwrite_def mark_present_def
      set_present_def blocks_for_def writer_finish_def writer_close_def)

theorem staged_upload_readable_witness:
  "\<exists>c' st m''. stage staging_surroundings True ''v1'' 1 ([([7], True)], None) (empty_cache example_config)
      = (Inr (Some 1), c')
    \<and> content_get example_repo example_download (\<lambda>_ _ _ _ _ _. raising TechnicalError) staging_surroundings True
        pending_example 0 0 True ((empty_machine example_config)\<lparr>m_cache := c'\<rparr>) = (Inr st, m'')
    \<and> stream_bytes st = [7] \<and> snd st = None"
proof -
  obtain c' where c': "stage staging_surroundings True ''v1'' 1 ([([7], True)], None) (empty_cache example_config)
      = (Inr (Some 1), c')"
    using stage_example by (metis prod.collapse)
  have cm: "m_cache (empty_machine example_config) = empty_cache example_config" by (simp add: empty_machine_def)
  have size1: "fv_size pending_example = 1" by (simp add: fv_size_def fv_memo_size_def pending_example_def INVALID_FILE_SIZE_def)
  from staged_upload_readable [OF c' [folded cm] empty_machine_inv [of "\<lambda>_. [7]"], of pending_example 0 0]
  obtain st m'' where "content_get example_repo example_download (\<lambda>_ _ _ _ _ _. raising TechnicalError)
      staging_surroundings True pending_example 0 0 True ((empty_machine example_config)\<lparr>m_cache := c'\<rparr>) = (Inr st, m'')"
    "stream_bytes st = [7]" "snd st = None"
    using size1 by (fastforce simp: pending_example_def subrange_def)
  then show ?thesis using c' by blast
qed

end
