(* ===== verification/RefList.thy ===== *)
theory RefList
  imports FileModel
begin

text \<open>
  \<open>FileRefList\<close> (\<open>src/tgdcfs/core/model/directory.py\<close>): the list of a directory's file refs
  with an index by name. Refs are objects with an identity, here addresses; \<open>nm\<close> gives the
  name of the object at an address and \<open>eq\<close> its dataclass equality. The contract of the list
  is a locale: looking a name up in the index is scanning the list.
\<close>

section \<open>The list\<close>

record ref_list =
  rl_items :: "nat list"
  rl_by_name :: "(string, nat list) dict"

definition rl_index :: "(nat \<Rightarrow> string) \<Rightarrow> nat \<Rightarrow> ref_list \<Rightarrow> ref_list" where
  "rl_index nm r l = l\<lparr>rl_by_name := dict_extend (nm r) [r] (rl_by_name l)\<rparr>"

definition rl_unindex :: "(nat \<Rightarrow> string) \<Rightarrow> nat \<Rightarrow> ref_list \<Rightarrow> ref_list" where
  "rl_unindex nm r l = (case map_of (rl_by_name l) (nm r) of
     None \<Rightarrow> l
   | Some refs \<Rightarrow>
       let refs' = filter (\<lambda>x. x \<noteq> r) refs in
       l\<lparr>rl_by_name := (if refs' = [] then AList.delete (nm r) (rl_by_name l)
                       else AList.update (nm r) refs' (rl_by_name l))\<rparr>)"

definition rl_reindex :: "(nat \<Rightarrow> string) \<Rightarrow> ref_list \<Rightarrow> ref_list" where
  "rl_reindex nm l = fold (rl_index nm) (rl_items l) (l\<lparr>rl_by_name := []\<rparr>)"

definition rl_new :: "(nat \<Rightarrow> string) \<Rightarrow> nat list \<Rightarrow> ref_list" where
  "rl_new nm refs = fold (rl_index nm) refs \<lparr>rl_items = refs, rl_by_name = []\<rparr>"

definition rl_named :: "string \<Rightarrow> ref_list \<Rightarrow> nat list" where
  "rl_named name l = (case map_of (rl_by_name l) name of None \<Rightarrow> [] | Some refs \<Rightarrow> refs)"

definition rl_append :: "(nat \<Rightarrow> string) \<Rightarrow> nat \<Rightarrow> ref_list \<Rightarrow> ref_list" where
  "rl_append nm r l = rl_index nm r (l\<lparr>rl_items := rl_items l @ [r]\<rparr>)"

definition rl_extend :: "(nat \<Rightarrow> string) \<Rightarrow> nat list \<Rightarrow> ref_list \<Rightarrow> ref_list" where
  "rl_extend nm refs l = fold (rl_append nm) refs l"

text \<open>Python's \<open>insert\<close> clamps its index; a negative one counts from the end.\<close>

definition insert_position :: "int \<Rightarrow> nat \<Rightarrow> nat" where
  "insert_position i n = nat (max 0 (min (int n) (if i < 0 then i + int n else i)))"

definition rl_insert :: "(nat \<Rightarrow> string) \<Rightarrow> int \<Rightarrow> nat \<Rightarrow> ref_list \<Rightarrow> ref_list" where
  "rl_insert nm i r l =
     (let n = insert_position i (length (rl_items l))
      in rl_index nm r (l\<lparr>rl_items := take n (rl_items l) @ r # drop n (rl_items l)\<rparr>))"

text \<open>\<open>list.remove\<close> drops the first element that is, or equals, the given one.\<close>

fun remove_first :: "('a \<Rightarrow> bool) \<Rightarrow> 'a list \<Rightarrow> 'a list option" where
  "remove_first p [] = None"
| "remove_first p (x # xs) = (if p x then Some xs else map_option ((#) x) (remove_first p xs))"

definition rl_remove :: "(nat \<Rightarrow> string) \<Rightarrow> (nat \<Rightarrow> nat \<Rightarrow> bool) \<Rightarrow> nat \<Rightarrow> ref_list \<Rightarrow> ref_list res" where
  "rl_remove nm eq r l = (case remove_first (\<lambda>x. x = r \<or> eq x r) (rl_items l) of
     None \<Rightarrow> Inl ValueError
   | Some items \<Rightarrow> Inr (rl_unindex nm r (l\<lparr>rl_items := items\<rparr>)))"

text \<open>An index into a list of length \<open>n\<close>, as Python reads it.\<close>

definition item_position :: "int \<Rightarrow> nat \<Rightarrow> nat option" where
  "item_position i n =
     (let j = (if i < 0 then i + int n else i) in if 0 \<le> j \<and> j < int n then Some (nat j) else None)"

definition delete_at :: "nat \<Rightarrow> 'a list \<Rightarrow> 'a list" where
  "delete_at i xs = take i xs @ drop (Suc i) xs"

definition rl_pop :: "(nat \<Rightarrow> string) \<Rightarrow> int \<Rightarrow> ref_list \<Rightarrow> (nat \<times> ref_list) res" where
  "rl_pop nm i l = (case item_position i (length (rl_items l)) of
     None \<Rightarrow> Inl IndexError
   | Some j \<Rightarrow> let r = rl_items l ! j
                in Inr (r, rl_unindex nm r (l\<lparr>rl_items := delete_at j (rl_items l)\<rparr>)))"

definition rl_clear :: "ref_list \<Rightarrow> ref_list" where
  "rl_clear l = \<lparr>rl_items = [], rl_by_name = []\<rparr>"

text \<open>\<open>__setitem__\<close> and \<open>__delitem__\<close> with an integer index.\<close>

definition rl_setitem :: "(nat \<Rightarrow> string) \<Rightarrow> int \<Rightarrow> nat \<Rightarrow> ref_list \<Rightarrow> ref_list res" where
  "rl_setitem nm i r l = (case item_position i (length (rl_items l)) of
     None \<Rightarrow> Inl IndexError
   | Some j \<Rightarrow> Inr (rl_reindex nm (l\<lparr>rl_items := (rl_items l)[j := r]\<rparr>)))"

definition rl_delitem :: "(nat \<Rightarrow> string) \<Rightarrow> int \<Rightarrow> ref_list \<Rightarrow> ref_list res" where
  "rl_delitem nm i l = (case item_position i (length (rl_items l)) of
     None \<Rightarrow> Inl IndexError
   | Some j \<Rightarrow> Inr (rl_reindex nm (l\<lparr>rl_items := delete_at j (rl_items l)\<rparr>)))"

definition rl_imul :: "(nat \<Rightarrow> string) \<Rightarrow> int \<Rightarrow> ref_list \<Rightarrow> ref_list" where
  "rl_imul nm n l = rl_reindex nm (l\<lparr>rl_items := concat (replicate (nat n) (rl_items l))\<rparr>)"

lemma remove1_filter: "distinct xs \<Longrightarrow> remove1 r xs = filter (\<lambda>x. x \<noteq> r) xs"
proof (induction xs)
  case (Cons a xs)
  have "filter (\<lambda>x. x \<noteq> a) xs = xs" using Cons.prems by (intro filter_True) auto
  then show ?case using Cons by auto
qed simp

section \<open>The contract of an indexed list\<close>

text \<open>
  \<open>ok nm l\<close> says that the index of \<open>l\<close> is in step with its items. What a directory relies on:
  a lookup by name is a scan, and appending and removing keep it so; removing must be able to
  tell the given ref from the others.
\<close>

locale indexed_list =
  fixes ok :: "(nat \<Rightarrow> string) \<Rightarrow> 'l \<Rightarrow> bool" and items :: "'l \<Rightarrow> nat list" and named :: "string \<Rightarrow> 'l \<Rightarrow> nat list"
    and app :: "(nat \<Rightarrow> string) \<Rightarrow> nat \<Rightarrow> 'l \<Rightarrow> 'l"
    and rem :: "(nat \<Rightarrow> string) \<Rightarrow> (nat \<Rightarrow> nat \<Rightarrow> bool) \<Rightarrow> nat \<Rightarrow> 'l \<Rightarrow> 'l res"
  assumes named_scan: "ok nm l \<Longrightarrow> named n l = filter (\<lambda>r. nm r = n) (items l)"
    and items_app: "items (app nm r l) = items l @ [r]"
    and ok_app: "ok nm l \<Longrightarrow> ok nm (app nm r l)"
    and rem_ok: "ok nm l \<Longrightarrow> distinct (items l) \<Longrightarrow> r \<in> set (items l)
      \<Longrightarrow> (\<And>x. x \<in> set (items l) \<Longrightarrow> eq x r \<Longrightarrow> x = r)
      \<Longrightarrow> \<exists>l'. rem nm eq r l = Inr l' \<and> items l' = remove1 r (items l) \<and> ok nm l'"
    and rem_absent: "r \<notin> set (items l) \<Longrightarrow> (\<And>x. x \<in> set (items l) \<Longrightarrow> \<not> eq x r)
      \<Longrightarrow> rem nm eq r l = Inl ValueError"
    and ok_cong: "(\<And>r. r \<in> set (items l) \<Longrightarrow> nm r = nm' r) \<Longrightarrow> ok nm l = ok nm' l"
begin

text \<open>A list without two refs of one name finds what was appended, and nothing after its removal.\<close>

lemma named_app: "ok nm l \<Longrightarrow> named n (app nm r l) = named n l @ (if nm r = n then [r] else [])"
  by (simp add: named_scan [OF ok_app] named_scan items_app)

lemma unique_named:
  assumes "ok nm l" and "distinct (map nm (items l))" and "r \<in> set (items l)"
  shows "named (nm r) l = [r]"
proof -
  have "filter (\<lambda>x. nm x = nm r) xs = [r]" if "distinct (map nm xs)" and "r \<in> set xs" for xs
    using that
  proof (induction xs)
    case (Cons a xs)
    have "filter (\<lambda>x. nm x = nm a) xs = []" using Cons.prems(1) by (simp add: filter_empty_conv) (metis imageI)
    then show ?case using Cons by auto
  qed simp
  then show ?thesis using named_scan [OF assms(1)] assms(2,3) by simp
qed

lemma rem_named:
  assumes "ok nm l" and "distinct (map nm (items l))" and "r \<in> set (items l)"
    and "\<And>x. x \<in> set (items l) \<Longrightarrow> eq x r \<Longrightarrow> nm x = nm r"
  shows "\<exists>l'. rem nm eq r l = Inr l' \<and> items l' = remove1 r (items l) \<and> ok nm l'
    \<and> named (nm r) l' = [] \<and> (\<forall>n. n \<noteq> nm r \<longrightarrow> named n l' = named n l)"
proof -
  have inj: "inj_on nm (set (items l))" and d: "distinct (items l)"
    using assms(2) by (simp_all add: distinct_map)
  then have "x = r" if "x \<in> set (items l)" "eq x r" for x
    using assms(3,4) that by (auto dest: inj_onD)
  from rem_ok [OF assms(1) d assms(3) this] obtain l' where
    l': "rem nm eq r l = Inr l'" "items l' = remove1 r (items l)" "ok nm l'" by blast
  have others: "filter (\<lambda>x. nm x = n) (remove1 r (items l)) = (if n = nm r then [] else filter (\<lambda>x. nm x = n) (items l))" for n
  proof -
    have "remove1 r (items l) = filter (\<lambda>x. x \<noteq> r) (items l)" using d by (rule remove1_filter)
    moreover have "filter (\<lambda>x. x \<noteq> r \<and> nm x = n) (items l) = (if n = nm r then [] else filter (\<lambda>x. nm x = n) (items l))"
      using inj assms(3) by (auto simp: filter_empty_conv inj_on_def intro!: filter_cong)
    ultimately show ?thesis by (simp add: conj_commute)
  qed
  then show ?thesis using l' named_scan [OF l'(3)] named_scan [OF assms(1)] by auto
qed

end

section \<open>The list keeps its contract\<close>

definition rl_ok :: "(nat \<Rightarrow> string) \<Rightarrow> ref_list \<Rightarrow> bool" where
  "rl_ok nm l \<longleftrightarrow> dict_ok (rl_by_name l) \<and> (\<forall>n. rl_named n l = filter (\<lambda>r. nm r = n) (rl_items l))"

lemma named_index: "rl_named n (rl_index nm r l) = rl_named n l @ (if nm r = n then [r] else [])"
  by (auto simp: rl_named_def rl_index_def split: option.split)

lemma index_items [simp]: "rl_items (rl_index nm r l) = rl_items l"
  "rl_items (fold (rl_index nm) rs l) = rl_items l"
  by (simp add: rl_index_def) (induction rs arbitrary: l, simp_all add: rl_index_def)

lemma named_fold_index:
  "rl_named n (fold (rl_index nm) rs l) = rl_named n l @ filter (\<lambda>r. nm r = n) rs"
  by (induction rs arbitrary: l) (simp_all add: named_index)

lemma dict_ok_index: "dict_ok (rl_by_name l) \<Longrightarrow> dict_ok (rl_by_name (rl_index nm r l))"
  by (simp add: rl_index_def)

lemma dict_ok_fold_index: "dict_ok (rl_by_name l) \<Longrightarrow> dict_ok (rl_by_name (fold (rl_index nm) rs l))"
  by (induction rs arbitrary: l) (simp_all add: dict_ok_index)

lemma rl_reindex_ok: "rl_ok nm (rl_reindex nm l)"
proof -
  have "rl_named n (l\<lparr>rl_by_name := []\<rparr>) = []" for n by (simp add: rl_named_def)
  then show ?thesis by (simp add: rl_ok_def rl_reindex_def named_fold_index dict_ok_fold_index)
qed

lemma rl_new_ok: "rl_ok nm (rl_new nm refs)" "rl_items (rl_new nm refs) = refs"
proof -
  have "rl_named n \<lparr>rl_items = refs, rl_by_name = []\<rparr> = []" for n by (simp add: rl_named_def)
  then show "rl_ok nm (rl_new nm refs)"
    by (simp add: rl_ok_def rl_new_def named_fold_index dict_ok_fold_index)
qed (simp add: rl_new_def)

lemma rl_append_ok: "rl_ok nm l \<Longrightarrow> rl_ok nm (rl_append nm r l)" "rl_items (rl_append nm r l) = rl_items l @ [r]"
proof -
  have "rl_named n (l\<lparr>rl_items := xs\<rparr>) = rl_named n l" for n xs by (simp add: rl_named_def)
  then show "rl_ok nm l \<Longrightarrow> rl_ok nm (rl_append nm r l)"
    by (simp add: rl_ok_def rl_append_def named_index dict_ok_index)
qed (simp add: rl_append_def)

lemma named_unindex:
  assumes "dict_ok (rl_by_name l)"
  shows "rl_named n (rl_unindex nm r l) = (if n = nm r then filter (\<lambda>x. x \<noteq> r) (rl_named n l) else rl_named n l)"
    and "dict_ok (rl_by_name (rl_unindex nm r l))" and "rl_items (rl_unindex nm r l) = rl_items l"
  using assms
  by (auto simp: rl_named_def rl_unindex_def Let_def update_conv' delete_conv' split: option.split)

lemma remove_first_distinct:
  assumes "r \<in> set xs" and "\<And>x. x \<in> set xs \<Longrightarrow> p x \<longleftrightarrow> x = r"
  shows "remove_first p xs = Some (remove1 r xs)"
  using assms by (induction xs) auto

lemma rl_remove_ok:
  assumes "rl_ok nm l" and d: "distinct (rl_items l)" and "r \<in> set (rl_items l)"
    and "\<And>x. x \<in> set (rl_items l) \<Longrightarrow> eq x r \<Longrightarrow> x = r"
  shows "\<exists>l'. rl_remove nm eq r l = Inr l' \<and> rl_items l' = remove1 r (rl_items l) \<and> rl_ok nm l'"
proof -
  let ?items = "remove1 r (rl_items l)"
  have rf: "remove_first (\<lambda>x. x = r \<or> eq x r) (rl_items l) = Some ?items"
    using assms(3,4) by (intro remove_first_distinct) auto
  have ok: "dict_ok (rl_by_name (l\<lparr>rl_items := ?items\<rparr>))" using assms(1) by (simp add: rl_ok_def)
  have named: "rl_named n (l\<lparr>rl_items := ?items\<rparr>) = filter (\<lambda>x. nm x = n) (rl_items l)" for n
    using assms(1) by (simp add: rl_ok_def rl_named_def)
  have eq: "?items = filter (\<lambda>x. x \<noteq> r) (rl_items l)" using d by (rule remove1_filter)
  have "rl_ok nm (rl_unindex nm r (l\<lparr>rl_items := ?items\<rparr>))"
    unfolding rl_ok_def named_unindex(1,3) [OF ok] named
    using named_unindex(2) [OF ok] by (auto simp: eq intro!: filter_cong)
  then show ?thesis using rf named_unindex(3) [OF ok] by (auto simp: rl_remove_def)
qed

lemma rl_ok_cong: "(\<And>r. r \<in> set (rl_items l) \<Longrightarrow> nm r = nm' r) \<Longrightarrow> rl_ok nm l = rl_ok nm' l"
  by (auto simp: rl_ok_def cong: filter_cong)

lemma remove_first_None: "(\<And>x. x \<in> set xs \<Longrightarrow> \<not> p x) \<Longrightarrow> remove_first p xs = None"
  by (induction xs) auto

interpretation rl: indexed_list rl_ok rl_items rl_named rl_append rl_remove
proof
  fix nm eq and r :: nat and l :: ref_list
  assume "r \<notin> set (rl_items l)" and "\<And>x. x \<in> set (rl_items l) \<Longrightarrow> \<not> eq x r"
  then have "remove_first (\<lambda>x. x = r \<or> eq x r) (rl_items l) = None" by (intro remove_first_None) auto
  then show "rl_remove nm eq r l = Inl ValueError" by (simp add: rl_remove_def)
next
  fix nm nm' :: "nat \<Rightarrow> string" and l :: ref_list
  assume "\<And>r. r \<in> set (rl_items l) \<Longrightarrow> nm r = nm' r"
  then show "rl_ok nm l = rl_ok nm' l" by (rule rl_ok_cong)
qed (simp_all add: rl_append_ok rl_remove_ok, simp add: rl_ok_def)

text \<open>The remaining mutators.\<close>

lemma rl_mutators_ok:
  "rl_ok nm l \<Longrightarrow> rl_ok nm (rl_extend nm refs l)"
  "rl_ok nm (rl_clear l)"
  "rl_setitem nm i r l = Inr l' \<Longrightarrow> rl_ok nm l'"
  "rl_delitem nm i l = Inr l' \<Longrightarrow> rl_ok nm l'"
  "rl_ok nm (rl_imul nm k l)"
proof -
  show "rl_ok nm l \<Longrightarrow> rl_ok nm (rl_extend nm refs l)"
    unfolding rl_extend_def by (induction refs arbitrary: l) (simp_all add: rl_append_ok)
qed (auto simp: rl_clear_def rl_ok_def [of _ "\<lparr>rl_items = [], rl_by_name = []\<rparr>"] rl_named_def rl_setitem_def rl_delitem_def
    rl_imul_def rl_reindex_ok split: option.splits)

text \<open>
  With two equal refs in the list the index does drift: the list drops the first of them, the
  index the given one, so the name leads to a ref that is no longer in the list.
\<close>

lemma remove_equal_drifts:
  "\<exists>l'. rl_remove (\<lambda>_. ''a'') (\<lambda>_ _. True) 1 (rl_new (\<lambda>_. ''a'') [0, 1]) = Inr l'
     \<and> rl_items l' = [1] \<and> rl_named ''a'' l' = [0]"
  by (simp add: rl_remove_def rl_new_def rl_index_def dict_extend_def rl_unindex_def rl_named_def)

end
