(* ===== verification/DirTree.thy ===== *)
theory DirTree
  imports RefList
begin

text \<open>
  Directories and file refs (\<open>src/tgdcfs/core/model/directory.py\<close>). Both are objects that refer
  to each other, so they live in a heap: \<open>t_dir\<close> and \<open>t_ref\<close> give the object at an address, and
  addresses from \<open>t_next\<close> on are free. Sharing is then as in the program: a ref is the same
  object in the list, in the index and for whoever holds it. \<open>list.remove\<close> on the children of a
  directory compares with dataclass equality, which looks at the name first; siblings have
  different names, so it is removal of the object itself.
\<close>

section \<open>Objects\<close>

record file_ref =
  fr_message_id :: int
  fr_name :: string
  fr_location :: nat
  fr_mirrors :: "(string, int) dict"
  fr_store :: "string option"
  fr_stat :: "file_stat option"
  fr_stat_epoch :: int

record tgdir =
  d_name :: string
  d_parent :: "nat option"
  d_children :: "nat list"
  d_files :: ref_list
  d_created_at :: datetime
  d_modified_at :: datetime

record fstree =
  t_dir :: "nat \<Rightarrow> tgdir"
  t_ref :: "nat \<Rightarrow> file_ref"
  t_next :: nat

definition upd_dir :: "nat \<Rightarrow> (tgdir \<Rightarrow> tgdir) \<Rightarrow> fstree \<Rightarrow> fstree" where
  "upd_dir d f t = t\<lparr>t_dir := (t_dir t)(d := f (t_dir t d))\<rparr>"

definition upd_ref :: "nat \<Rightarrow> (file_ref \<Rightarrow> file_ref) \<Rightarrow> fstree \<Rightarrow> fstree" where
  "upd_ref r f t = t\<lparr>t_ref := (t_ref t)(r := f (t_ref t r))\<rparr>"

definition ref_name :: "fstree \<Rightarrow> nat \<Rightarrow> string" where
  "ref_name t r = fr_name (t_ref t r)"

definition items :: "fstree \<Rightarrow> nat \<Rightarrow> nat list" where
  "items t d = rl_items (d_files (t_dir t d))"

section \<open>File refs\<close>

text \<open>The equality that \<open>@dataclass\<close> generates; two refs of one list have one location.\<close>

definition fr_eq :: "fstree \<Rightarrow> nat \<Rightarrow> nat \<Rightarrow> bool" where
  "fr_eq t a b \<longleftrightarrow> fr_message_id (t_ref t a) = fr_message_id (t_ref t b)
     \<and> fr_name (t_ref t a) = fr_name (t_ref t b) \<and> fr_location (t_ref t a) = fr_location (t_ref t b)
     \<and> dict_eq (fr_mirrors (t_ref t a)) (fr_mirrors (t_ref t b))
     \<and> fr_store (t_ref t a) = fr_store (t_ref t b)"

definition fr_owned_by :: "file_ref \<Rightarrow> string \<Rightarrow> bool" where
  "fr_owned_by fr key \<longleftrightarrow> fr_store fr = None \<or> fr_store fr = Some key"

definition fr_relocate :: "string \<Rightarrow> file_ref \<Rightarrow> file_ref" where
  "fr_relocate primary fr =
     (case fr_store fr of
        None \<Rightarrow> fr
      | Some old \<Rightarrow>
          if fr_owned_by fr primary then fr
          else
            let ms = dict_setdefault old (fr_message_id fr) (fr_mirrors fr) in
            (case map_of ms primary of
               Some mid \<Rightarrow>
                 if 0 < mid
                 then fr\<lparr>fr_mirrors := AList.delete primary ms, fr_message_id := mid, fr_store := Some primary\<rparr>
                 else fr\<lparr>fr_mirrors := ms\<rparr>
             | None \<Rightarrow> fr\<lparr>fr_mirrors := ms\<rparr>))"

section \<open>Directories\<close>

definition touch_modified :: "datetime \<Rightarrow> nat \<Rightarrow> fstree \<Rightarrow> fstree" where
  "touch_modified now d t = upd_dir d (\<lambda>x. x\<lparr>d_modified_at := now\<rparr>) t"

definition find_dirs :: "fstree \<Rightarrow> nat \<Rightarrow> string list \<Rightarrow> nat list" where
  "find_dirs t d names =
     (if names = [] then d_children (t_dir t d)
      else filter (\<lambda>c. d_name (t_dir t c) \<in> set names) (d_children (t_dir t d)))"

definition find_dir :: "fstree \<Rightarrow> nat \<Rightarrow> string \<Rightarrow> nat res" where
  "find_dir t d name = (case find_dirs t d [name] of
     [] \<Rightarrow> Inl (FileOrDirectoryDoesNotExist name) | c # cs \<Rightarrow> Inr c)"

text \<open>One name is looked up in the index, several are a scan.\<close>

definition find_files :: "fstree \<Rightarrow> nat \<Rightarrow> string list \<Rightarrow> nat list" where
  "find_files t d names = (case names of
     [] \<Rightarrow> items t d
   | [name] \<Rightarrow> rl_named name (d_files (t_dir t d))
   | _ \<Rightarrow> filter (\<lambda>r. ref_name t r \<in> set names) (items t d))"

definition find_file :: "fstree \<Rightarrow> nat \<Rightarrow> string \<Rightarrow> nat res" where
  "find_file t d name = (case find_files t d [name] of
     [] \<Rightarrow> Inl (FileOrDirectoryDoesNotExist name) | r # rs \<Rightarrow> Inr r)"

definition new_dir :: "string \<Rightarrow> nat option \<Rightarrow> datetime \<Rightarrow> datetime \<Rightarrow> tgdir" where
  "new_dir name parent created modified =
     \<lparr>d_name = name, d_parent = parent, d_children = [], d_files = rl_new (\<lambda>_. []) [],
      d_created_at = created, d_modified_at = modified\<rparr>"

definition alloc_dir :: "tgdir \<Rightarrow> fstree \<Rightarrow> nat \<times> fstree" where
  "alloc_dir x t = (t_next t, t\<lparr>t_dir := (t_dir t)(t_next t := x), t_next := Suc (t_next t)\<rparr>)"

definition alloc_ref :: "file_ref \<Rightarrow> fstree \<Rightarrow> nat \<times> fstree" where
  "alloc_ref x t = (t_next t, t\<lparr>t_ref := (t_ref t)(t_next t := x), t_next := Suc (t_next t)\<rparr>)"

definition create_dir :: "datetime \<Rightarrow> string \<Rightarrow> nat \<Rightarrow> fstree \<Rightarrow> (nat \<times> fstree) res" where
  "create_dir now name d t =
     (if find_dirs t d [name] \<noteq> [] then Inl (FileOrDirectoryAlreadyExists name)
      else rbind (validate_name name) (\<lambda>_.
        let (c, t1) = alloc_dir (new_dir name (Some d) now now) t;
            t2 = upd_dir d (\<lambda>x. x\<lparr>d_children := d_children x @ [c]\<rparr>) t1
        in Inr (c, touch_modified now d t2)))"

definition attach_file_ref :: "string \<Rightarrow> int \<Rightarrow> nat \<Rightarrow> fstree \<Rightarrow> (nat \<times> fstree) res" where
  "attach_file_ref name mid d t =
     (if find_files t d [name] \<noteq> [] then Inl (FileOrDirectoryAlreadyExists name)
      else
        let (r, t1) = alloc_ref \<lparr>fr_message_id = mid, fr_name = name, fr_location = d, fr_mirrors = [],
                                  fr_store = None, fr_stat = None, fr_stat_epoch = 0\<rparr> t
        in Inr (r, upd_dir d (\<lambda>x. x\<lparr>d_files := rl_append (ref_name t1) r (d_files x)\<rparr>) t1))"

definition create_file_ref :: "datetime \<Rightarrow> string \<Rightarrow> int \<Rightarrow> nat \<Rightarrow> fstree \<Rightarrow> (nat \<times> fstree) res" where
  "create_file_ref now name mid d t =
     rbind (attach_file_ref name mid d t) (\<lambda>(r, t1). Inr (r, touch_modified now d t1))"

definition delete_file_ref :: "datetime \<Rightarrow> nat \<Rightarrow> nat \<Rightarrow> fstree \<Rightarrow> fstree res" where
  "delete_file_ref now d r t =
     rbind (rl_remove (ref_name t) (fr_eq t) r (d_files (t_dir t d)))
       (\<lambda>l. Inr (touch_modified now d (upd_dir d (\<lambda>x. x\<lparr>d_files := l\<rparr>) t)))"

text \<open>\<open>TGFSFileRef.delete\<close>\<close>

definition fr_delete :: "datetime \<Rightarrow> nat \<Rightarrow> fstree \<Rightarrow> fstree res" where
  "fr_delete now r t = delete_file_ref now (fr_location (t_ref t r)) r t"

text \<open>\<open>new_name or fr.name\<close>: an absent and an empty name both mean the old one.\<close>

definition name_or :: "string option \<Rightarrow> string \<Rightarrow> string" where
  "name_or new old = (case new of None \<Rightarrow> old | Some n \<Rightarrow> if n = [] then old else n)"

definition relocate_file_ref ::
    "datetime \<Rightarrow> nat \<Rightarrow> nat \<Rightarrow> nat \<Rightarrow> string option \<Rightarrow> fstree \<Rightarrow> nat res \<times> fstree" where
  "relocate_file_ref now d r to new_name t =
     (let fr = t_ref t r; name = name_or new_name (fr_name fr) in
      if to = d \<and> name = fr_name fr then (Inr r, t)
      else (case create_file_ref now name (fr_message_id fr) to t of
          Inl ex \<Rightarrow> (Inl ex, t)
        | Inr (moved, t1) \<Rightarrow>
            let t2 = upd_ref moved (\<lambda>x. x\<lparr>fr_mirrors := fr_mirrors fr, fr_store := fr_store fr,
                       fr_stat := fr_stat fr, fr_stat_epoch := fr_stat_epoch fr\<rparr>) t1
            in (case delete_file_ref now d r t2 of
                  Inr t3 \<Rightarrow> (Inr moved, t3)
                | Inl ex \<Rightarrow>
                    (case delete_file_ref now to moved t2 of
                       Inr t3 \<Rightarrow> (Inl ex, t3)
                     | Inl ex' \<Rightarrow> (Inl ex', t2)))))"

text \<open>
  The walks up the parent chain. They end only when the chain does, so they are partial.
\<close>

partial_function (option) is_ancestor_of :: "fstree \<Rightarrow> nat \<Rightarrow> nat \<Rightarrow> bool option" where
  [code]: "is_ancestor_of t d node =
     (if node = d then Some True
      else (case d_parent (t_dir t node) of None \<Rightarrow> Some False | Some p \<Rightarrow> is_ancestor_of t d p))"

partial_function (option) absolute_path :: "fstree \<Rightarrow> nat \<Rightarrow> string option" where
  [code]: "absolute_path t d = (case d_parent (t_dir t d) of
     None \<Rightarrow> Some []
   | Some p \<Rightarrow> Option.bind (absolute_path t p) (\<lambda>pre.
       Some (if d_name (t_dir t d) = [] then pre else pre @ ''/'' @ d_name (t_dir t d))))"

definition reparent :: "datetime \<Rightarrow> nat \<Rightarrow> nat \<Rightarrow> nat \<Rightarrow> string \<Rightarrow> fstree \<Rightarrow> fstree" where
  "reparent now d old new_parent name t =
     (let t1 = touch_modified now old (upd_dir old (\<lambda>x. x\<lparr>d_children := remove1 d (d_children x)\<rparr>) t);
          t2 = upd_dir d (\<lambda>x. x\<lparr>d_name := name, d_parent := Some new_parent\<rparr>) t1;
          t3 = upd_dir new_parent (\<lambda>x. x\<lparr>d_children := d_children x @ [d]\<rparr>) t2
      in touch_modified now new_parent t3)"

definition move_to :: "datetime \<Rightarrow> nat \<Rightarrow> nat \<Rightarrow> string option \<Rightarrow> fstree \<Rightarrow> fstree res option" where
  "move_to now d new_parent new_name t = (case d_parent (t_dir t d) of
     None \<Rightarrow> Some (Inl TechnicalError)
   | Some old \<Rightarrow>
       let name = name_or new_name (d_name (t_dir t d)) in
       (case validate_name name of
          Inl ex \<Rightarrow> Some (Inl ex)
        | Inr _ \<Rightarrow>
            if new_parent = old \<and> name = d_name (t_dir t d) then Some (Inr t)
            else Option.bind (is_ancestor_of t d new_parent) (\<lambda>inside.
              if inside
              then Option.bind (absolute_path t d) (\<lambda>p. Some (Inl (InvalidPath (p @ '' cannot be moved into itself''))))
              else if find_dirs t new_parent [name] \<noteq> []
              then Some (Inl (FileOrDirectoryAlreadyExists name))
              else Some (Inr (reparent now d old new_parent name t)))))"

definition delete_dir :: "datetime \<Rightarrow> nat \<Rightarrow> fstree \<Rightarrow> fstree" where
  "delete_dir now d t = (case d_parent (t_dir t d) of
     Some p \<Rightarrow> touch_modified now p (upd_dir p (\<lambda>x. x\<lparr>d_children := remove1 d (d_children x)\<rparr>) t)
   | None \<Rightarrow> touch_modified now d (upd_dir d (\<lambda>x. x\<lparr>d_children := [], d_files := rl_clear (d_files x)\<rparr>) t))"

section \<open>Well-formed trees\<close>

text \<open>The chain of parents of a directory ends at a directory without a parent.\<close>

inductive rooted :: "fstree \<Rightarrow> nat \<Rightarrow> bool" for t where
  rooted_root: "d_parent (t_dir t d) = None \<Longrightarrow> rooted t d"
| rooted_child: "d_parent (t_dir t d) = Some p \<Longrightarrow> rooted t p \<Longrightarrow> rooted t d"

definition dir_ok :: "fstree \<Rightarrow> nat \<Rightarrow> bool" where
  "dir_ok t d \<longleftrightarrow> distinct (map (\<lambda>c. d_name (t_dir t c)) (d_children (t_dir t d)))
     \<and> (\<forall>c \<in> set (d_children (t_dir t d)). d_parent (t_dir t c) = Some d \<and> c < t_next t)
     \<and> rl_ok (ref_name t) (d_files (t_dir t d))
     \<and> distinct (map (ref_name t) (items t d))
     \<and> (\<forall>r \<in> set (items t d). fr_location (t_ref t r) = d \<and> r < t_next t)"

definition tree_ok :: "fstree \<Rightarrow> bool" where
  "tree_ok t \<longleftrightarrow> (\<forall>d. rooted t d \<and> dir_ok t d)
     \<and> (\<forall>d. t_next t \<le> d \<longrightarrow> d_parent (t_dir t d) = None \<and> d_children (t_dir t d) = [] \<and> items t d = [])
     \<and> (\<forall>d p. d_parent (t_dir t d) = Some p \<longrightarrow> p < t_next t)"

section \<open>Reading after writing\<close>

lemma upd_dir_simps [simp]:
  "t_dir (upd_dir d f t) x = (if x = d then f (t_dir t d) else t_dir t x)"
  "t_ref (upd_dir d f t) = t_ref t" "t_next (upd_dir d f t) = t_next t"
  "ref_name (upd_dir d f t) = ref_name t"
  by (auto simp: upd_dir_def ref_name_def fun_eq_iff)

lemma upd_ref_simps [simp]:
  "t_ref (upd_ref r f t) x = (if x = r then f (t_ref t r) else t_ref t x)"
  "t_dir (upd_ref r f t) = t_dir t" "t_next (upd_ref r f t) = t_next t"
  by (simp_all add: upd_ref_def)

text \<open>A directory that an operation does not touch stays well-formed.\<close>

lemma dir_okI:
  assumes "distinct (map (\<lambda>c. d_name (t_dir t c)) (d_children (t_dir t d)))"
    and "\<And>c. c \<in> set (d_children (t_dir t d)) \<Longrightarrow> d_parent (t_dir t c) = Some d \<and> c < t_next t"
    and "rl_ok (ref_name t) (d_files (t_dir t d))" and "distinct (map (ref_name t) (items t d))"
    and "\<And>r. r \<in> set (items t d) \<Longrightarrow> fr_location (t_ref t r) = d \<and> r < t_next t"
  shows "dir_ok t d"
  using assms by (simp add: dir_ok_def)

lemma dir_ok_frame:
  assumes ok: "dir_ok t d" and cs: "d_children (t_dir t' d) = d_children (t_dir t d)" and fs: "d_files (t_dir t' d) = d_files (t_dir t d)"
    and c: "\<And>c. c \<in> set (d_children (t_dir t d)) \<Longrightarrow> d_name (t_dir t' c) = d_name (t_dir t c) \<and> d_parent (t_dir t' c) = d_parent (t_dir t c)"
    and r: "\<And>r. r \<in> set (items t d) \<Longrightarrow> ref_name t' r = ref_name t r \<and> fr_location (t_ref t' r) = fr_location (t_ref t r)"
    and n: "t_next t \<le> t_next t'"
  shows "dir_ok t' d"
proof (rule dir_okI)
  have it: "items t' d = items t d" by (simp add: items_def fs)
  have same: "map (\<lambda>c. d_name (t_dir t' c)) (d_children (t_dir t d)) = map (\<lambda>c. d_name (t_dir t c)) (d_children (t_dir t d))"
    "map (ref_name t') (items t d) = map (ref_name t) (items t d)" using c r by auto
  show "distinct (map (\<lambda>c. d_name (t_dir t' c)) (d_children (t_dir t' d)))"
    "distinct (map (ref_name t') (items t' d))" using ok unfolding cs it same dir_ok_def by blast+
  show "rl_ok (ref_name t') (d_files (t_dir t' d))"
    unfolding fs using ok rl_ok_cong [of "d_files (t_dir t d)" "ref_name t'" "ref_name t"] r
    by (simp add: dir_ok_def items_def)
  show "d_parent (t_dir t' x) = Some d \<and> x < t_next t'" if "x \<in> set (d_children (t_dir t' d))" for x
    using ok c [of x] that n unfolding cs dir_ok_def by (metis less_le_trans)
  show "fr_location (t_ref t' x) = d \<and> x < t_next t'" if "x \<in> set (items t' d)" for x
    using ok r [of x] that n unfolding it dir_ok_def by (metis less_le_trans)
qed

text \<open>What the tree is made of, without the dates.\<close>

definition same_shape :: "fstree \<Rightarrow> fstree \<Rightarrow> bool" where
  "same_shape t t' \<longleftrightarrow> t_next t = t_next t' \<and> t_ref t = t_ref t'
     \<and> (\<forall>d. d_name (t_dir t d) = d_name (t_dir t' d) \<and> d_parent (t_dir t d) = d_parent (t_dir t' d)
          \<and> d_children (t_dir t d) = d_children (t_dir t' d) \<and> d_files (t_dir t d) = d_files (t_dir t' d))"

lemma rooted_mono: "rooted t d \<Longrightarrow> (\<And>x. d_parent (t_dir t x) = d_parent (t_dir t' x)) \<Longrightarrow> rooted t' d"
  by (induction rule: rooted.induct) (auto intro: rooted.intros)

lemma same_shape_sym: "same_shape t t' \<Longrightarrow> same_shape t' t"
  by (simp add: same_shape_def)

lemma same_shape_tree_ok: "same_shape t t' \<Longrightarrow> tree_ok t \<Longrightarrow> tree_ok t'"
proof -
  assume s: "same_shape t t'" and ok: "tree_ok t"
  note sh = s [unfolded same_shape_def]
  have "rooted t' d" for d
    by (rule rooted_mono [of t]) (use ok sh in \<open>simp_all add: tree_ok_def\<close>)
  moreover have "dir_ok t' d" for d
    by (rule dir_ok_frame [of t]) (use ok sh in \<open>auto simp: tree_ok_def ref_name_def\<close>)
  ultimately show ?thesis using ok sh by (auto simp: tree_ok_def items_def)
qed

lemma touch_shape: "same_shape t (touch_modified now d t)"
  by (simp add: same_shape_def touch_modified_def)

lemma tree_ok_touch [simp]: "tree_ok (touch_modified now d t) = tree_ok t"
  using same_shape_tree_ok [OF touch_shape] same_shape_tree_ok [OF same_shape_sym [OF touch_shape]] by blast

lemma touch_simps [simp]:
  "d_name (t_dir (touch_modified now d t) x) = d_name (t_dir t x)"
  "d_parent (t_dir (touch_modified now d t) x) = d_parent (t_dir t x)"
  "d_children (t_dir (touch_modified now d t) x) = d_children (t_dir t x)"
  "d_files (t_dir (touch_modified now d t) x) = d_files (t_dir t x)"
  "t_ref (touch_modified now d t) = t_ref t" "t_next (touch_modified now d t) = t_next t"
  "ref_name (touch_modified now d t) = ref_name t" "items (touch_modified now d t) = items t"
  by (auto simp: touch_modified_def items_def fun_eq_iff)

lemma find_simps [simp]:
  "find_dirs (touch_modified now d t) x names = find_dirs t x names"
  "find_files (touch_modified now d t) x names = find_files t x names"
  by (simp_all add: find_dirs_def find_files_def split: list.split)

text \<open>Looking files up by the index is scanning the list.\<close>

lemma find_files_scan:
  assumes "tree_ok t"
  shows "find_files t d names = (if names = [] then items t d else filter (\<lambda>r. ref_name t r \<in> set names) (items t d))"
  using assms rl.named_scan [of "ref_name t" "d_files (t_dir t d)"]
  by (auto simp: find_files_def tree_ok_def dir_ok_def items_def split: list.split)

lemma tree_ok_dir:
  assumes "tree_ok t"
  shows "rooted t d" and "distinct (map (\<lambda>c. d_name (t_dir t c)) (d_children (t_dir t d)))"
    and "c \<in> set (d_children (t_dir t d)) \<Longrightarrow> d_parent (t_dir t c) = Some d"
    and "rl_ok (ref_name t) (d_files (t_dir t d))" and "distinct (map (ref_name t) (items t d))"
    and "r \<in> set (items t d) \<Longrightarrow> fr_location (t_ref t r) = d" and "r \<in> set (items t d) \<Longrightarrow> r < t_next t"
    and "d_parent (t_dir t d) = Some p \<Longrightarrow> d < t_next t \<and> p < t_next t"
    and "c \<in> set (d_children (t_dir t d)) \<Longrightarrow> c < t_next t"
proof -
  show "d_parent (t_dir t d) = Some p \<Longrightarrow> d < t_next t \<and> p < t_next t"
    using assms unfolding tree_ok_def by (metis not_le option.distinct(1))
qed (use assms in \<open>auto simp: tree_ok_def dir_ok_def\<close>)

lemma rl_new_any: "rl_ok nm (rl_new nm' [])"
  using rl_ok_cong [of "rl_new nm' []" nm nm'] by (simp add: rl_new_ok)

section \<open>Creating and deleting\<close>

lemma create_dir_ok:
  assumes ok: "tree_ok t" and "d < t_next t" and "create_dir now name d t = Inr (c, t')"
  shows "tree_ok t' \<and> c = t_next t \<and> d_children (t_dir t' d) = d_children (t_dir t d) @ [c] \<and> d_name (t_dir t' c) = name
    \<and> t_next t' = Suc (t_next t)"
proof -
  let ?c = "t_next t"
  define t1 where "t1 = snd (alloc_dir (new_dir name (Some d) now now) t)"
  define t2 where "t2 = upd_dir d (\<lambda>x. x\<lparr>d_children := d_children x @ [?c]\<rparr>) t1"
  have t': "c = ?c" "t' = touch_modified now d t2"
    and none: "find_dirs t d [name] = []"
    using assms(3) by (auto simp: create_dir_def t2_def t1_def alloc_dir_def rbind_Inr_iff Let_def split: if_splits)
  have dn: "d \<noteq> ?c" using assms(2) by simp
  have t2s: "t_dir t2 x = (if x = d then (t_dir t d)\<lparr>d_children := d_children (t_dir t d) @ [?c]\<rparr>
      else if x = ?c then new_dir name (Some d) now now else t_dir t x)" "t_ref t2 = t_ref t" "t_next t2 = Suc ?c" for x
    using dn by (simp_all add: t2_def t1_def alloc_dir_def)
  have names: "ref_name t2 = ref_name t" by (simp add: ref_name_def t2s fun_eq_iff)
  have parent: "d_parent (t_dir t2 x) = (if x = ?c then Some d else d_parent (t_dir t x))" for x
    using dn by (simp add: t2s new_dir_def)
  have "rooted t2 x" if "rooted t x" for x
    using that
  proof (induction rule: rooted.induct)
    case (rooted_root x)
    have "rooted t2 d"
      using tree_ok_dir(1) [OF ok, of d] assms(2)
    proof (induction rule: rooted.induct)
      case (rooted_child y p)
      then show ?case using tree_ok_dir(8) [OF ok rooted_child(1)] by (auto simp: parent intro: rooted.rooted_child)
    qed (simp add: parent rooted.rooted_root)
    then show ?case using rooted_root by (cases "x = ?c") (auto simp: parent intro: rooted.intros)
  next
    case (rooted_child x p)
    then show ?case using tree_ok_dir(8) [OF ok rooted_child(1)] by (auto simp: parent intro: rooted.rooted_child)
  qed
  moreover have "dir_ok t2 x" for x
  proof -
    have okd: "dir_ok t y" for y using ok by (simp add: tree_ok_def)
    have old: "c' \<noteq> ?c" if "c' \<in> set (d_children (t_dir t y))" for c' y using tree_ok_dir(9) [OF ok that] by simp
    consider "x = d" | "x = ?c" | "x \<noteq> d" "x \<noteq> ?c" by blast
    then show ?thesis
    proof cases
      case 1
      have "name \<notin> (\<lambda>c. d_name (t_dir t c)) ` set (d_children (t_dir t d))"
        using none by (auto simp: find_dirs_def filter_empty_conv)
      moreover have "map (\<lambda>c. d_name (t_dir t2 c)) (d_children (t_dir t d)) = map (\<lambda>c. d_name (t_dir t c)) (d_children (t_dir t d))"
        using old by (auto simp: t2s)
      moreover have "d_name (t_dir t2 ?c) = name" using dn by (simp add: t2s new_dir_def)
      ultimately have dist: "distinct (map (\<lambda>c. d_name (t_dir t2 c)) (d_children (t_dir t d) @ [?c]))"
        using tree_ok_dir(2) [OF ok, of d] by (simp only: map_append distinct_append) simp
      have ch: "d_children (t_dir t2 d) = d_children (t_dir t d) @ [?c]" and it: "items t2 d = items t d"
        and fl: "d_files (t_dir t2 d) = d_files (t_dir t d)" by (simp_all add: t2s items_def)
      show ?thesis
        unfolding 1 by (rule dir_okI)
          (use okd [of d] dist in \<open>auto simp: ch it fl names parent t2s(2,3) dir_ok_def less_SucI simp del: map_append\<close>)
    next
      case 2
      then show ?thesis using dn by (intro dir_okI) (auto simp: t2s new_dir_def items_def rl_new_ok(2) rl_new_any)
    next
      case 3
      then show ?thesis
        using old by (intro dir_ok_frame [OF okd]) (auto simp: t2s names parent new_dir_def)
    qed
  qed
  moreover have "d_parent (t_dir t2 x) = None \<and> d_children (t_dir t2 x) = [] \<and> items t2 x = []" if "Suc ?c \<le> x" for x
    using that ok assms(2) by (simp add: tree_ok_def t2s items_def)
  moreover have "p < Suc ?c" if "d_parent (t_dir t2 x) = Some p" for x p
    using that tree_ok_dir(8) [OF ok, of x p] assms(2) by (auto simp: parent split: if_splits)
  ultimately have "tree_ok t2" using tree_ok_dir(1) [OF ok] by (auto simp: tree_ok_def t2s)
  then show ?thesis using dn by (simp add: t' t2s new_dir_def)
qed

lemma tree_okI:
  assumes "\<And>d. rooted t d" and "\<And>d. dir_ok t d"
    and "\<And>d. t_next t \<le> d \<Longrightarrow> d_parent (t_dir t d) = None \<and> d_children (t_dir t d) = [] \<and> items t d = []"
    and "\<And>d p. d_parent (t_dir t d) = Some p \<Longrightarrow> p < t_next t"
  shows "tree_ok t"
  using assms by (simp add: tree_ok_def)

lemma tree_okD:
  assumes "tree_ok t"
  shows "rooted t d" and "dir_ok t d"
    and "t_next t \<le> d \<Longrightarrow> d_parent (t_dir t d) = None \<and> d_children (t_dir t d) = [] \<and> items t d = []"
    and "d_parent (t_dir t d) = Some p \<Longrightarrow> p < t_next t"
  using assms by (simp_all add: tree_ok_def)

lemma set_files_ok:
  assumes ok: "tree_ok t" and "rl_ok (ref_name t) l" and "distinct (map (ref_name t) (rl_items l))"
    and l: "\<And>r. r \<in> set (rl_items l) \<Longrightarrow> fr_location (t_ref t r) = d \<and> r < t_next t" and "d < t_next t"
  shows "tree_ok (upd_dir d (\<lambda>x. x\<lparr>d_files := l\<rparr>) t)" (is "tree_ok ?t")
proof (rule tree_okI)
  fix x
  have it: "items ?t y = (if y = d then rl_items l else items t y)" for y by (simp add: items_def)
  have same: "d_name (t_dir ?t y) = d_name (t_dir t y)" "d_parent (t_dir ?t y) = d_parent (t_dir t y)"
    "d_children (t_dir ?t y) = d_children (t_dir t y)" for y by simp_all
  show "rooted ?t x" by (rule rooted_mono [OF tree_okD(1) [OF ok]]) simp
  show "dir_ok ?t x"
  proof (cases "x = d")
    case True
    show ?thesis
      unfolding True by (rule dir_okI) (use assms(2,3) l tree_okD(2) [OF ok, of d] in \<open>auto simp: it same dir_ok_def simp del: upd_dir_simps(1), simp_all\<close>)
  next
    case False
    then show ?thesis by (intro dir_ok_frame [OF tree_okD(2) [OF ok]]) auto
  qed
  show "d_parent (t_dir ?t x) = None \<and> d_children (t_dir ?t x) = [] \<and> items ?t x = []" if "t_next ?t \<le> x"
    using tree_okD(3) [OF ok, of x] that assms(5) by (auto simp: it)
  show "p < t_next ?t" if "d_parent (t_dir ?t x) = Some p" for p
    using tree_okD(4) [OF ok, of x p] that by (auto split: if_splits)
qed

lemma alloc_ref_ok:
  assumes ok: "tree_ok t"
  shows "tree_ok (snd (alloc_ref fr t))" (is "tree_ok ?t")
proof (rule tree_okI)
  fix x
  show "rooted ?t x" by (rule rooted_mono [OF tree_okD(1) [OF ok]]) (simp add: alloc_ref_def)
  show "dir_ok ?t x"
    using tree_ok_dir(7) [OF ok] by (intro dir_ok_frame [OF tree_okD(2) [OF ok]]) (auto simp: alloc_ref_def ref_name_def)
  show "d_parent (t_dir ?t x) = None \<and> d_children (t_dir ?t x) = [] \<and> items ?t x = []" if "t_next ?t \<le> x"
    using tree_okD(3) [OF ok, of x] that by (auto simp: alloc_ref_def items_def)
  show "p < t_next ?t" if "d_parent (t_dir ?t x) = Some p" for p
    using tree_okD(4) [OF ok, of x p] that by (simp add: alloc_ref_def)
qed

lemma upd_ref_ok:
  assumes ok: "tree_ok t" and "fr_name (f (t_ref t r)) = fr_name (t_ref t r)" and "fr_location (f (t_ref t r)) = fr_location (t_ref t r)"
  shows "tree_ok (upd_ref r f t)" (is "tree_ok ?t")
proof (rule tree_okI)
  fix x
  show "rooted ?t x" by (rule rooted_mono [OF tree_okD(1) [OF ok]]) simp
  show "dir_ok ?t x"
    using assms(2,3) by (intro dir_ok_frame [OF tree_okD(2) [OF ok]]) (auto simp: ref_name_def)
  show "d_parent (t_dir ?t x) = None \<and> d_children (t_dir ?t x) = [] \<and> items ?t x = []" if "t_next ?t \<le> x"
    using tree_okD(3) [OF ok, of x] that by (simp add: items_def)
  show "p < t_next ?t" if "d_parent (t_dir ?t x) = Some p" for p
    using tree_okD(4) [OF ok, of x p] that by simp
qed

lemma create_file_ref_ok:
  assumes ok: "tree_ok t" and "d < t_next t" and "create_file_ref now name mid d t = Inr (r, t')"
  shows "tree_ok t' \<and> r = t_next t \<and> (\<forall>x. items t' x = items t x @ (if x = d then [r] else []))
    \<and> t_ref t' = (t_ref t)(r := \<lparr>fr_message_id = mid, fr_name = name, fr_location = d, fr_mirrors = [],
        fr_store = None, fr_stat = None, fr_stat_epoch = 0\<rparr>)
    \<and> t_next t' = Suc (t_next t) \<and> name \<notin> ref_name t ` set (items t d)
    \<and> (\<forall>x. d_children (t_dir t' x) = d_children (t_dir t x) \<and> d_name (t_dir t' x) = d_name (t_dir t x)
         \<and> d_parent (t_dir t' x) = d_parent (t_dir t x))"
proof -
  let ?fr = "\<lparr>fr_message_id = mid, fr_name = name, fr_location = d, fr_mirrors = [],
        fr_store = None, fr_stat = None, fr_stat_epoch = 0\<rparr> :: file_ref"
  define t1 where "t1 = snd (alloc_ref ?fr t)"
  let ?l = "rl_append (ref_name t1) (t_next t) (d_files (t_dir t d))"
  have t': "r = t_next t" "t' = touch_modified now d (upd_dir d (\<lambda>x. x\<lparr>d_files := ?l\<rparr>) t1)" and none: "find_files t d [name] = []"
    using assms(3)
    by (auto simp: create_file_ref_def attach_file_ref_def t1_def alloc_ref_def rbind_Inr_iff Let_def upd_dir_def
        split: if_splits)
  have t1s: "t_dir t1 = t_dir t" "t_ref t1 = (t_ref t)(t_next t := ?fr)" "t_next t1 = Suc (t_next t)"
    by (simp_all add: t1_def alloc_ref_def)
  have ok1: "tree_ok t1" using alloc_ref_ok [OF ok] by (simp add: t1_def)
  have new: "name \<notin> ref_name t ` set (items t d)"
    using none by (auto simp: find_files_scan [OF ok] filter_empty_conv)
  have old: "ref_name t1 x = ref_name t x" if "x \<in> set (items t y)" for x y
    using tree_ok_dir(7) [OF ok that] by (simp add: ref_name_def t1s)
  have same: "map (ref_name t1) (items t d) = map (ref_name t) (items t d)" using old by auto
  have it: "rl_items ?l = items t d @ [t_next t]" by (simp add: rl_append_ok items_def)
  have "tree_ok (upd_dir d (\<lambda>x. x\<lparr>d_files := ?l\<rparr>) t1)"
  proof (rule set_files_ok [OF ok1])
    show "rl_ok (ref_name t1) ?l" using tree_ok_dir(4) [OF ok1, of d] by (simp add: rl_append_ok t1s)
    have "ref_name t1 (t_next t) = name" by (simp add: ref_name_def t1s)
    then show "distinct (map (ref_name t1) (rl_items ?l))"
      unfolding it using new tree_ok_dir(5) [OF ok, of d] by (simp only: map_append distinct_append same) (auto simp: old)
  qed (use tree_ok_dir(6,7) [OF ok, of _ d] assms(2) in \<open>auto simp: it t1s less_SucI\<close>)
  then show ?thesis using new it by (auto simp: t' t1s items_def)
qed

lemma delete_file_ref_ok:
  assumes ok: "tree_ok t" and r: "r \<in> set (items t d)"
  shows "\<exists>t'. delete_file_ref now d r t = Inr t' \<and> tree_ok t' \<and> t_ref t' = t_ref t \<and> t_next t' = t_next t
    \<and> (\<forall>x. items t' x = (if x = d then remove1 r (items t d) else items t x)
         \<and> d_children (t_dir t' x) = d_children (t_dir t x) \<and> d_name (t_dir t' x) = d_name (t_dir t x)
         \<and> d_parent (t_dir t' x) = d_parent (t_dir t x))"
proof -
  let ?l = "d_files (t_dir t d)"
  have d: "d < t_next t" using tree_okD(3) [OF ok, of d] r by (cases "t_next t \<le> d") auto
  have eqn: "ref_name t x = ref_name t r" if "fr_eq t x r" for x using that by (simp add: fr_eq_def ref_name_def)
  obtain l where l: "rl_remove (ref_name t) (fr_eq t) r ?l = Inr l" "rl_items l = remove1 r (rl_items ?l)" "rl_ok (ref_name t) l"
    using rl.rem_named [OF tree_ok_dir(4) [OF ok] tree_ok_dir(5) [OF ok, unfolded items_def] r [unfolded items_def] eqn]
    by blast
  have "tree_ok (upd_dir d (\<lambda>x. x\<lparr>d_files := l\<rparr>) t)"
  proof (rule set_files_ok [OF ok l(3) _ _ d])
    have "distinct (rl_items ?l)" "inj_on (ref_name t) (set (rl_items ?l))"
      using tree_ok_dir(5) [OF ok, of d] by (simp_all add: distinct_map items_def)
    then show "distinct (map (ref_name t) (rl_items l))"
      unfolding l(2) distinct_map by (auto intro: inj_on_subset set_remove1_subset [THEN subsetD])
  qed (use tree_ok_dir(6,7) [OF ok, of _ d] set_remove1_subset [of r "rl_items ?l"] in \<open>auto simp: l(2) items_def\<close>)
  then show ?thesis using l by (simp add: delete_file_ref_def items_def)
qed

section \<open>Moving a file\<close>

lemma name_or_old: "name_or None n = n" "name_or (Some []) n = n"
  by (simp_all add: name_or_def)

lemma unique_file:
  assumes "tree_ok t" and "r \<in> set (items t d)"
  shows "find_file t d (ref_name t r) = Inr r"
  using rl.unique_named [OF tree_ok_dir(4,5) [OF assms(1), unfolded items_def], of r d] assms(2)
  by (simp add: find_file_def find_files_def items_def)

lemma find_file_none:
  assumes "tree_ok t" and "n \<notin> ref_name t ` set (items t d)"
  shows "find_file t d n = Inl (FileOrDirectoryDoesNotExist n)"
proof -
  have "find_files t d [n] = []" using assms by (auto simp: find_files_scan filter_empty_conv)
  then show ?thesis by (simp add: find_file_def)
qed

text \<open>Moving or renaming a file keeps the file. When \<open>relocate_file_ref\<close> succeeds, the name
  leads, in the destination, to a ref with the same message, mirrors, store and listing data,
  the old name is gone from the source, every other ref of every directory is where it was,
  and the tree is well-formed; when it raises, because the destination has the name already,
  the tree has not changed.\<close>

lemma relocate_file_ref_moves:
  assumes ok: "tree_ok t" and r: "r \<in> set (items t d)" and "to < t_next t"
    and res: "relocate_file_ref now d r to new_name t = (res, t')"
  defines "name \<equiv> name_or new_name (ref_name t r)"
  shows "case res of
      Inl ex \<Rightarrow> ex = FileOrDirectoryAlreadyExists name \<and> t' = t \<and> name \<in> ref_name t ` set (items t to)
    | Inr m \<Rightarrow> tree_ok t' \<and> find_file t' to name = Inr m
        \<and> fr_message_id (t_ref t' m) = fr_message_id (t_ref t r) \<and> fr_mirrors (t_ref t' m) = fr_mirrors (t_ref t r)
        \<and> fr_store (t_ref t' m) = fr_store (t_ref t r) \<and> fr_stat (t_ref t' m) = fr_stat (t_ref t r)
        \<and> (to = d \<and> name = ref_name t r \<or> find_file t' d (ref_name t r) = Inl (FileOrDirectoryDoesNotExist (ref_name t r)))
        \<and> (\<forall>x. set (items t' x) - {m} = set (items t x) - {r})
        \<and> (\<forall>q. q \<noteq> m \<longrightarrow> q < t_next t \<longrightarrow> t_ref t' q = t_ref t q)"
proof -
  let ?fr = "t_ref t r"
  have nm: "name = name_or new_name (fr_name ?fr)" by (simp add: name_def ref_name_def)
  show ?thesis
  proof (cases "to = d \<and> name = fr_name ?fr")
    case True
    then have "res = Inr r" "t' = t" using res by (simp_all add: relocate_file_ref_def nm)
    then show ?thesis using unique_file [OF ok r] True ok by (auto simp: ref_name_def)
  next
    case False
    note new = False
    note rel = res [unfolded relocate_file_ref_def Let_def, folded nm, unfolded if_not_P [OF new]]
    show ?thesis
    proof (cases "create_file_ref now name (fr_message_id ?fr) to t")
      case (Inl ex)
      then have "ex = FileOrDirectoryAlreadyExists name \<and> find_files t to [name] \<noteq> []"
        by (auto simp: create_file_ref_def attach_file_ref_def Let_def rbind_def split: if_splits prod.splits sum.splits)
      moreover have "res = Inl ex" "t' = t"
        using rel by (simp_all add: Inl)
      ultimately show ?thesis using find_files_scan [OF ok, of to "[name]"] by (auto simp: filter_empty_conv)
    next
      case (Inr mt)
      obtain m t1 where mt: "mt = (m, t1)" by (cases mt)
      note c = create_file_ref_ok [OF ok assms(3) Inr [unfolded mt]]
      define t2 where "t2 = upd_ref m (\<lambda>x. x\<lparr>fr_mirrors := fr_mirrors ?fr, fr_store := fr_store ?fr,
                       fr_stat := fr_stat ?fr, fr_stat_epoch := fr_stat_epoch ?fr\<rparr>) t1"
      have ok2: "tree_ok t2" unfolding t2_def using c by (intro upd_ref_ok) auto
      have it2: "items t2 x = items t x @ (if x = to then [m] else [])" for x using c by (simp add: t2_def items_def)
      have mr: "m \<noteq> r" using c tree_ok_dir(7) [OF ok r] by simp
      have "r \<in> set (items t2 d)" using r it2 by simp
      from delete_file_ref_ok [OF ok2 this, of now] obtain t3 where
        t3: "delete_file_ref now d r t2 = Inr t3" "tree_ok t3" "t_ref t3 = t_ref t2"
          "\<And>x. items t3 x = (if x = d then remove1 r (items t2 d) else items t2 x)" by auto
      have out: "res = Inr m" "t' = t3"
        using rel t3(1) by (simp_all add: Inr mt t2_def [symmetric])
      have dist: "distinct (items t2 d)" using tree_ok_dir(5) [OF ok2, of d] by (simp add: distinct_map)
      have names: "ref_name t3 m = name" "\<And>q. q \<noteq> m \<Longrightarrow> ref_name t3 q = ref_name t q"
        using c by (simp_all add: ref_name_def t3(3) t2_def)
      have mem: "m \<in> set (items t3 to)" using t3(4) it2 mr by auto
      have "ref_name t r \<notin> ref_name t3 ` set (items t3 d)"
      proof
        assume "ref_name t r \<in> ref_name t3 ` set (items t3 d)"
        then obtain q where q: "q \<in> set (items t3 d)" "ref_name t3 q = ref_name t r" by auto
        then have "q \<noteq> r" "q \<in> set (items t2 d)" using t3(4) dist by (auto simp: set_remove1_eq)
        moreover have "q \<noteq> m" if "d \<noteq> to" using calculation(2) it2 that tree_ok_dir(7) [OF ok, of q d] c by auto
        moreover have "ref_name t3 m \<noteq> ref_name t r" if "d = to" using new that names(1) by (simp add: ref_name_def)
        ultimately show False
          using q(2) r names(2) [of q] it2 tree_ok_dir(5) [OF ok, of d]
          by (cases "d = to") (auto simp: distinct_map dest: inj_onD)
      qed
      then have gone: "find_file t3 d (ref_name t r) = Inl (FileOrDirectoryDoesNotExist (ref_name t r))"
        by (rule find_file_none [OF t3(2)])
      have "set (items t3 x) - {m} = set (items t x) - {r}" for x
      proof -
        have "m \<notin> set (items t x)" using tree_ok_dir(7) [OF ok, of m x] c by auto
        moreover have "r \<notin> set (items t x)" if "x \<noteq> d" using tree_ok_dir(6) [OF ok] r that by blast
        ultimately show ?thesis using t3(4) [of x] it2 dist by (auto simp: set_remove1_eq)
      qed
      then show ?thesis
        using t3(2) gone unique_file [OF t3(2) mem] names(1) c by (simp add: out t3(3) t2_def)
    qed
  qed
qed

section \<open>Moving a directory\<close>

inductive below :: "fstree \<Rightarrow> nat \<Rightarrow> nat \<Rightarrow> bool" for t d where
  below_self: "below t d d"
| below_child: "d_parent (t_dir t x) = Some p \<Longrightarrow> below t d p \<Longrightarrow> below t d x"

inductive_cases belowE: "below t d x"

lemma is_ancestor_of_rooted: "rooted t x \<Longrightarrow> is_ancestor_of t d x = Some (below t d x)"
proof (induction rule: rooted.induct)
  case (rooted_root x)
  then show ?case by (auto simp: is_ancestor_of.simps [of t d x] intro: below_self elim: belowE)
next
  case (rooted_child x p)
  then show ?case
    by (auto simp: is_ancestor_of.simps [of t d x] intro: below.intros elim: belowE)
qed

lemma absolute_path_rooted: "rooted t x \<Longrightarrow> \<exists>p. absolute_path t x = Some p"
  by (induction rule: rooted.induct) (simp_all add: absolute_path.simps [of t], force)

lemma reparent_dir:
  assumes "d \<noteq> old" and "d \<noteq> np"
  shows "d_children (t_dir (reparent now d old np name t) x) =
      (if x = old then remove1 d (d_children (t_dir t x)) else d_children (t_dir t x)) @ (if x = np then [d] else [])"
    and "d_name (t_dir (reparent now d old np name t) x) = (if x = d then name else d_name (t_dir t x))"
    and "d_parent (t_dir (reparent now d old np name t) x) = (if x = d then Some np else d_parent (t_dir t x))"
    and "d_files (t_dir (reparent now d old np name t) x) = d_files (t_dir t x)"
    and "t_ref (reparent now d old np name t) = t_ref t" and "t_next (reparent now d old np name t) = t_next t"
    and "ref_name (reparent now d old np name t) = ref_name t"
  using assms by (auto simp: reparent_def Let_def touch_modified_def)

lemma not_below_rooted:
  assumes "rooted t x" and "\<not> below t d x" and "\<And>y. y \<noteq> d \<Longrightarrow> d_parent (t_dir t' y) = d_parent (t_dir t y)"
  shows "rooted t' x"
  using assms(1,2)
proof (induction rule: rooted.induct)
  case (rooted_root x)
  then show ?case using assms(3) [of x] below_self [of t d] by (auto intro: rooted.rooted_root)
next
  case (rooted_child x p)
  then show ?case using assms(3) [of x] below.intros [of t] by (metis rooted.rooted_child)
qed

lemma parent_neq: "rooted t d \<Longrightarrow> d_parent (t_dir t d) \<noteq> Some d"
proof (induction rule: rooted.induct)
  case (rooted_child d p)
  then show ?case by auto
qed simp

lemma reparent_ok:
  assumes ok: "tree_ok t" and old: "d_parent (t_dir t d) = Some old" and np: "np < t_next t"
    and "\<not> below t d np" and none: "find_dirs t np [name] = []"
  shows "tree_ok (reparent now d old np name t)" (is "tree_ok ?t")
proof -
  have neq: "d \<noteq> old" "d \<noteq> np"
    using parent_neq [OF tree_okD(1) [OF ok], of d] old assms(4) below_self by auto
  note rd = reparent_dir [OF neq]
  have here: "x = old" if "d \<in> set (d_children (t_dir t x))" for x using tree_ok_dir(3) [OF ok that] old by simp
  define cs where "cs x = (if x = old then remove1 d (d_children (t_dir t x)) else d_children (t_dir t x))" for x
  have dist: "distinct (d_children (t_dir t x))" for x using tree_ok_dir(2) [OF ok, of x] by (simp add: distinct_map)
  have cs: "set (cs x) = set (d_children (t_dir t x)) - {d}" "distinct (cs x)" for x
    using here [of x] dist [of x] by (auto simp: cs_def)
  have ch: "d_children (t_dir ?t x) = cs x @ (if x = np then [d] else [])" for x by (simp add: rd cs_def)
  have names: "distinct (map (\<lambda>c. d_name (t_dir ?t c)) (cs x))" for x
  proof -
    have eq: "map (\<lambda>c. d_name (t_dir ?t c)) (cs x) = map (\<lambda>c. d_name (t_dir t c)) (cs x)" using cs(1) [of x] by (auto simp: rd)
    have "inj_on (\<lambda>c. d_name (t_dir t c)) (set (cs x))"
      using tree_ok_dir(2) [OF ok, of x] cs(1) [of x] by (auto simp: distinct_map intro: inj_on_subset)
    then show ?thesis unfolding eq distinct_map using cs(2) by blast
  qed
  have fresh: "name \<notin> (\<lambda>c. d_name (t_dir ?t c)) ` set (cs np)"
    using none cs(1) [of np] by (auto simp: rd find_dirs_def filter_empty_conv)
  have it: "items ?t = items t" by (simp add: items_def rd fun_eq_iff)
  have parent: "d_parent (t_dir ?t y) = d_parent (t_dir t y)" if "y \<noteq> d" for y using that by (simp add: rd)
  have "rooted ?t np" using not_below_rooted [OF tree_okD(1) [OF ok] assms(4) parent] .
  then have rooted_d: "rooted ?t d" by (intro rooted.rooted_child [of ?t d np]) (simp_all add: rd)
  have root: "rooted ?t x" for x
    using tree_okD(1) [OF ok, of x]
  proof (induction rule: rooted.induct)
    case (rooted_root x)
    then show ?case using rooted_d by (cases "x = d") (auto simp: rd intro: rooted.rooted_root)
  next
    case (rooted_child x p)
    then show ?case using rooted_d by (cases "x = d") (auto simp: rd intro: rooted.rooted_child)
  qed
  show ?thesis
  proof (rule tree_okI)
    fix x
    show "rooted ?t x" by (rule root)
    show "dir_ok ?t x"
    proof (rule dir_okI)
      show "distinct (map (\<lambda>c. d_name (t_dir ?t c)) (d_children (t_dir ?t x)))"
        using names [of x] fresh by (cases "x = np") (simp_all add: ch rd(2) [where x = d])
      show "d_parent (t_dir ?t c) = Some x \<and> c < t_next ?t" if "c \<in> set (d_children (t_dir ?t x))" for c
      proof (cases "c = d")
        case True
        then have "x = np" using that cs(1) [of x] by (auto simp: ch split: if_splits)
        then show ?thesis using True tree_ok_dir(8) [OF ok old] by (simp add: rd(3,6))
      next
        case False
        then have "c \<in> set (d_children (t_dir t x))" using that cs(1) [of x] by (auto simp: ch split: if_splits)
        from tree_ok_dir(3,9) [OF ok this] False show ?thesis by (simp add: rd(3,6))
      qed
    qed (use tree_ok_dir(4-7) [OF ok] in \<open>simp_all add: rd it\<close>)
    show "d_parent (t_dir ?t x) = None \<and> d_children (t_dir ?t x) = [] \<and> items ?t x = []" if "t_next ?t \<le> x"
      using tree_okD(3) [OF ok, of x] that np tree_ok_dir(8) [OF ok old] by (auto simp: rd it)
    show "p < t_next ?t" if "d_parent (t_dir ?t x) = Some p" for p
      using that tree_okD(4) [OF ok, of x p] np by (auto simp: rd split: if_splits)
  qed
qed

text \<open>Moving a directory always comes to an end and never damages the tree. \<open>move_to\<close> refuses
  the root, a bad name, a destination inside the directory itself and a name that is taken,
  and leaves the tree as it is; otherwise the directory is the last child of its new parent
  under its new name, every other directory keeps its place and name, no file has moved, and
  the tree is well-formed, without a cycle.\<close>

lemma move_to_keeps_tree:
  assumes ok: "tree_ok t" and "np < t_next t" and name: "name = name_or new_name (d_name (t_dir t d))"
  shows "\<exists>r. move_to now d np new_name t = Some r
    \<and> (\<forall>ex. r = Inl ex \<longrightarrow> ex = TechnicalError \<and> d_parent (t_dir t d) = None \<or> validate_name name = Inl ex
        \<or> (\<exists>p. ex = InvalidPath p) \<and> below t d np \<or> ex = FileOrDirectoryAlreadyExists name \<and> find_dirs t np [name] \<noteq> [])
    \<and> (\<forall>t'. r = Inr t' \<longrightarrow> tree_ok t' \<and> d_parent (t_dir t' d) = Some np \<and> d_name (t_dir t' d) = name
        \<and> (t' = t \<or> last (d_children (t_dir t' np)) = d \<and> d \<in> set (d_children (t_dir t' np)))
        \<and> items t' = items t \<and> t_ref t' = t_ref t
        \<and> (\<forall>x. x \<noteq> d \<longrightarrow> d_parent (t_dir t' x) = d_parent (t_dir t x) \<and> d_name (t_dir t' x) = d_name (t_dir t x))
        \<and> (\<forall>x. set (d_children (t_dir t' x)) - {d} = set (d_children (t_dir t x)) - {d}))"
proof (cases "d_parent (t_dir t d)")
  case None
  then show ?thesis by (simp add: move_to_def)
next
  case (Some old)
  have up: "is_ancestor_of t d np = Some (below t d np)" by (rule is_ancestor_of_rooted [OF tree_okD(1) [OF ok]])
  obtain p where p: "absolute_path t d = Some p" using absolute_path_rooted [OF tree_okD(1) [OF ok]] by blast
  show ?thesis
  proof (cases "validate_name name = Inr () \<and> \<not> (np = old \<and> name = d_name (t_dir t d)) \<and> \<not> below t d np \<and> find_dirs t np [name] = []")
    case True
    let ?t = "reparent now d old np name t"
    have mv: "move_to now d np new_name t = Some (Inr ?t)"
      using True by (auto simp: move_to_def Some Let_def name [symmetric] up)
    have neq: "d \<noteq> old" "d \<noteq> np"
      using parent_neq [OF tree_okD(1) [OF ok], of d] Some True below_self by auto
    note rd = reparent_dir [OF neq]
    have "items ?t = items t" by (simp add: items_def rd fun_eq_iff)
    moreover have "set (d_children (t_dir ?t x)) - {d} = set (d_children (t_dir t x)) - {d}" for x
      using tree_ok_dir(2) [OF ok, of x] by (auto simp: rd distinct_map)
    ultimately show ?thesis
      using reparent_ok [OF ok Some assms(2)] True by (simp add: mv rd)
  next
    case False
    then show ?thesis
      using Some ok up p by (auto simp: move_to_def name [symmetric] Let_def split: sum.split)
  qed
qed

text \<open>Two directories in a root, for the examples.\<close>

definition empty_tree :: "fstree" where
  "empty_tree = \<lparr>t_dir = (\<lambda>_. new_dir ''root'' None (Naive 0) (Naive 0)),
     t_ref = (\<lambda>_. \<lparr>fr_message_id = 0, fr_name = [], fr_location = 0, fr_mirrors = [], fr_store = None,
       fr_stat = None, fr_stat_epoch = 0\<rparr>), t_next = 1\<rparr>"

lemma empty_tree_ok: "tree_ok empty_tree"
  by (auto simp: tree_ok_def dir_ok_def empty_tree_def new_dir_def items_def rl_new_ok(2) rl_new_any intro: rooted.intros)

definition example_tree :: fstree where
  "example_tree = snd (projr (create_dir (Naive 2) ''b'' 0 (snd (projr (create_dir (Naive 1) ''a'' 0 empty_tree)))))"

lemma example_tree_ok: "tree_ok example_tree" "t_next example_tree = 3" "d_children (t_dir example_tree 0) = [1, 2]"
proof -
  let ?t1 = "snd (projr (create_dir (Naive 1) ''a'' 0 empty_tree))"
  have c1: "create_dir (Naive 1) ''a'' 0 empty_tree = Inr (1, ?t1)"
    by (simp add: create_dir_def empty_tree_def find_dirs_def new_dir_def validate_name_def alloc_dir_def Let_def)
  have t1: "tree_ok ?t1" "d_children (t_dir ?t1 0) = [1]" "t_next ?t1 = 2"
    using create_dir_ok [OF empty_tree_ok _ c1] by (simp_all add: empty_tree_def new_dir_def)
  have c2: "create_dir (Naive 2) ''b'' 0 ?t1 = Inr (2, example_tree)"
    by (simp add: example_tree_def create_dir_def empty_tree_def find_dirs_def new_dir_def validate_name_def alloc_dir_def Let_def
        touch_modified_def)
  show "tree_ok example_tree" "d_children (t_dir example_tree 0) = [1, 2]" "t_next example_tree = 3"
    using create_dir_ok [OF t1(1) _ c2] t1(2,3) by simp_all
qed

lemma example_tree_dirs:
  "d_parent (t_dir example_tree 1) = Some 0" "d_parent (t_dir example_tree 2) = Some 0"
  "d_name (t_dir example_tree 2) = ''b''" "d_children (t_dir example_tree 1) = []"
  "d_parent (t_dir example_tree 0) = None"
  by (simp_all add: example_tree_def create_dir_def empty_tree_def find_dirs_def new_dir_def validate_name_def
      alloc_dir_def Let_def touch_modified_def)

definition example_ref_tree :: fstree where
  "example_ref_tree = snd (projr (create_file_ref (Naive 3) ''f'' 77 1 example_tree))"

lemma example_tree_items: "items example_tree x = []"
  by (simp add: items_def example_tree_def create_dir_def empty_tree_def find_dirs_def new_dir_def validate_name_def
      alloc_dir_def Let_def touch_modified_def rl_new_ok(2))

lemma example_ref_tree_created: "create_file_ref (Naive 3) ''f'' 77 1 example_tree = Inr (3, example_ref_tree)"
proof -
  have "find_files example_tree 1 [''f''] = []" by (simp add: find_files_scan [OF example_tree_ok(1)] example_tree_items)
  then show ?thesis
    by (simp add: example_ref_tree_def create_file_ref_def attach_file_ref_def alloc_ref_def example_tree_ok(2))
qed

lemma example_ref_tree_ok:
  "tree_ok example_ref_tree" "items example_ref_tree 1 = [3]" "items example_ref_tree 2 = []" "ref_name example_ref_tree 3 = ''f''"
  "fr_message_id (t_ref example_ref_tree 3) = 77" "t_next example_ref_tree = 4"
  using create_file_ref_ok [OF example_tree_ok(1) _ example_ref_tree_created] by (simp_all add: example_tree_ok(2) example_tree_items ref_name_def)

text \<open>Deleting a directory takes it, and nothing else, out of its parent.\<close>

lemma delete_dir_children:
  "d_parent (t_dir t d) = Some p \<Longrightarrow> d_children (t_dir (delete_dir now d t) x)
     = (if x = p then remove1 d (d_children (t_dir t p)) else d_children (t_dir t x))"
  "d_parent (t_dir t d) = None \<Longrightarrow> d_children (t_dir (delete_dir now d t) x) = (if x = d then [] else d_children (t_dir t x))"
  "items (delete_dir now d t) x = (if x = d \<and> d_parent (t_dir t d) = None then [] else items t x)"
  by (auto simp: delete_dir_def items_def rl_clear_def split: option.split)

lemma delete_dir_ok:
  assumes ok: "tree_ok t"
  shows "tree_ok (delete_dir now d t)" (is "tree_ok ?t")
proof (rule tree_okI)
  fix x
  have same: "d_name (t_dir ?t y) = d_name (t_dir t y)" "d_parent (t_dir ?t y) = d_parent (t_dir t y)"
    "t_ref ?t = t_ref t" "t_next ?t = t_next t" "ref_name ?t = ref_name t" for y
    by (auto simp: delete_dir_def split: option.split)
  have cases: "d_children (t_dir ?t y) \<in> {d_children (t_dir t y), remove1 d (d_children (t_dir t y)), []}" for y
    by (cases "d_parent (t_dir t d)") (simp_all add: delete_dir_children)
  have sub: "set (d_children (t_dir ?t y)) \<subseteq> set (d_children (t_dir t y))" for y
    using cases [of y] set_remove1_subset [of d "d_children (t_dir t y)"] by auto
  have "distinct (d_children (t_dir ?t y))" for y
    using cases [of y] tree_ok_dir(2) [OF ok, of y] by (auto simp: distinct_map)
  then have dist: "distinct (map (\<lambda>c. d_name (t_dir t c)) (d_children (t_dir ?t y)))" for y
    using sub [of y] tree_ok_dir(2) [OF ok, of y] by (auto simp: distinct_map intro: inj_on_subset)
  show "rooted ?t x" by (rule rooted_mono [OF tree_okD(1) [OF ok]]) (simp add: same)
  have files: "d_files (t_dir ?t x) = (if x = d \<and> d_parent (t_dir t d) = None then rl_clear (d_files (t_dir t d)) else d_files (t_dir t x))"
    by (auto simp: delete_dir_def split: option.split)
  show "dir_ok ?t x"
    by (rule dir_okI)
      (use sub [of x] dist [of x] tree_okD(2) [OF ok, of x] rl_mutators_ok(2) in
        \<open>auto simp: same files items_def rl_clear_def dir_ok_def subset_iff split: if_splits\<close>)
  show "d_parent (t_dir ?t x) = None \<and> d_children (t_dir ?t x) = [] \<and> items ?t x = []" if "t_next ?t \<le> x"
    using tree_okD(3) [OF ok, of x] that sub [of x] by (simp add: same delete_dir_children(3))
  show "p < t_next ?t" if "d_parent (t_dir ?t x) = Some p" for p
    using that tree_okD(4) [OF ok, of x p] by (simp add: same)
qed

section \<open>Subtrees\<close>

definition below_set :: "fstree \<Rightarrow> nat \<Rightarrow> nat set" where
  "below_set t d = {x. x < t_next t \<and> below t d x}"

lemma below_trans: "below t a b \<Longrightarrow> below t b c \<Longrightarrow> below t a c"
  by (rotate_tac 1, induction rule: below.induct) (auto intro: below.intros)

lemma below_antisym: "rooted t x \<Longrightarrow> below t y x \<Longrightarrow> y \<noteq> x \<Longrightarrow> \<not> below t x y"
proof (induction arbitrary: y rule: rooted.induct)
  case (rooted_root x)
  then show ?case by (auto elim: belowE)
next
  case (rooted_child x p)
  have up: "below t p x" using rooted_child.hyps(1) by (auto intro: below.intros)
  have y: "below t y p" using rooted_child.prems rooted_child.hyps(1) by (auto elim: belowE)
  have "x \<noteq> p" using parent_neq [OF rooted.rooted_child [OF rooted_child.hyps]] rooted_child.hyps(1) by auto
  then have "\<not> below t x p" using rooted_child.IH [of x] up by blast
  then show ?case using rooted_child.IH [of y] y up below_trans by metis
qed

lemma child_below_set:
  assumes ok: "tree_ok t" and c: "c \<in> set (d_children (t_dir t d))" and "d < t_next t"
  shows "c < t_next t" and "below_set t c \<subset> below_set t d"
proof -
  have p: "d_parent (t_dir t c) = Some d" using tree_ok_dir(3) [OF ok c] .
  show "c < t_next t" using tree_okD(2) [OF ok, of d] c by (simp add: dir_ok_def)
  have dc: "below t d c" using p by (auto intro: below.intros)
  have "c \<noteq> d" using parent_neq [OF tree_okD(1) [OF ok], of d] p by auto
  then have "\<not> below t c d" using below_antisym [OF tree_okD(1) [OF ok]] dc by blast
  then show "below_set t c \<subset> below_set t d"
    using below_trans [OF dc] assms(3) by (auto simp: below_set_def intro: below.intros)
qed

lemma those_total: "(\<And>x. x \<in> set xs \<Longrightarrow> \<exists>y. f x = Some y) \<Longrightarrow> \<exists>ys. those (map f xs) = Some ys"
proof (induction xs)
  case (Cons x xs)
  obtain y ys where "f x = Some y" "those (map f xs) = Some ys" using Cons by force
  then show ?case by simp
qed simp

text \<open>The directories reached from \<open>d\<close> through the lists of children.\<close>

inductive reaches :: "fstree \<Rightarrow> nat \<Rightarrow> nat \<Rightarrow> bool" for t where
  reaches_self: "reaches t d d"
| reaches_child: "c \<in> set (d_children (t_dir t d)) \<Longrightarrow> reaches t c x \<Longrightarrow> reaches t d x"

inductive_cases reachesE: "reaches t d x"

lemma reaches_below: "tree_ok t \<Longrightarrow> reaches t d x \<Longrightarrow> below t d x"
proof (rotate_tac 1, induction rule: reaches.induct)
  case (reaches_child c d x)
  then have "below t d c" using tree_ok_dir(3) [of t c d] by (auto intro: below.intros)
  then show ?case using reaches_child below_trans by blast
qed (rule below_self)

end
