(* ===== verification/DirSerial.thy ===== *)
theory DirSerial
  imports DirTree
begin

text \<open>
  The serialised form of a directory tree, in which the metadata is kept
  (\<open>to_dict\<close> and \<open>from_dict\<close> in \<open>src/tgdcfs/core/model/directory.py\<close>, \<open>model/serialized.py\<close>,
  \<open>model/metadata.py\<close>): reading allocates the objects of the tree, writing follows the
  children. Writing a heap with a cycle would not end, so it takes a fuel; the theorem says how
  much is enough.
\<close>

section \<open>Serialised trees\<close>

record ref_ser =
  frs_messageId :: int
  frs_name :: string
  frs_mirrors :: "(string, int) dict option"
  frs_store :: "string option"
  frs_stat :: "(string, json_scalar) dict option"

datatype dir_ser = DirSer (ds_name: string) (ds_createdAt: "int option") (ds_modifiedAt: "int option")
  (ds_children: "dir_ser list") (ds_files: "ref_ser list")

definition fr_to_dict :: "file_ref \<Rightarrow> ref_ser" where
  "fr_to_dict fr =
     \<lparr>frs_messageId = fr_message_id fr, frs_name = fr_name fr,
      frs_mirrors = (if fr_mirrors fr = [] then None else Some (fr_mirrors fr)),
      frs_store = (case fr_store fr of None \<Rightarrow> None | Some s \<Rightarrow> if s = [] then None else Some s),
      frs_stat = map_option stat_to_dict (fr_stat fr)\<rparr>"

definition fr_from_dict :: "nat \<Rightarrow> ref_ser \<Rightarrow> file_ref" where
  "fr_from_dict d f =
     \<lparr>fr_message_id = frs_messageId f, fr_name = frs_name f, fr_location = d,
      fr_mirrors = dict_update_all [] (map (\<lambda>(k, mid). (normalize_store_key k, mid)) (or_empty (frs_mirrors f))),
      fr_store = (case frs_store f of None \<Rightarrow> None | Some s \<Rightarrow> if s = [] then None else Some (normalize_store_key s)),
      fr_stat = stat_from_dict (frs_stat f), fr_stat_epoch = 0\<rparr>"

fun to_dict :: "nat \<Rightarrow> fstree \<Rightarrow> nat \<Rightarrow> dir_ser option" where
  "to_dict 0 t d = None"
| "to_dict (Suc n) t d =
     map_option (\<lambda>cs. DirSer (d_name (t_dir t d)) (Some (ts (d_created_at (t_dir t d))))
         (Some (ts (d_modified_at (t_dir t d)))) cs (map (fr_to_dict \<circ> t_ref t) (items t d)))
       (those (map (to_dict n t) (d_children (t_dir t d))))"

definition read_ts :: "int option \<Rightarrow> datetime" where
  "read_ts v = (case v of None \<Rightarrow> FIRST_DAY_OF_EPOCH
     | Some n \<Rightarrow> if 0 < n then fromtimestamp_ms n else FIRST_DAY_OF_EPOCH)"

fun alloc_refs :: "nat \<Rightarrow> ref_ser list \<Rightarrow> fstree \<Rightarrow> nat list \<times> fstree" where
  "alloc_refs d [] t = ([], t)"
| "alloc_refs d (f # fs) t =
     (let (r, t1) = alloc_ref (fr_from_dict d f) t; (rs, t2) = alloc_refs d fs t1 in (r # rs, t2))"

fun from_dict :: "dir_ser \<Rightarrow> nat option \<Rightarrow> fstree \<Rightarrow> (nat \<times> fstree) res"
  and from_dicts :: "dir_ser list \<Rightarrow> nat \<Rightarrow> fstree \<Rightarrow> (nat list \<times> fstree) res" where
  "from_dict (DirSer name created modified cs fs) parent t =
     rbind (validate_name name) (\<lambda>_.
       let (d, t1) = alloc_dir (new_dir name parent (read_ts created) (read_ts modified)) t;
           (refs, t2) = alloc_refs d (filter (\<lambda>f. frs_name f \<noteq> [] \<and> frs_messageId f \<noteq> 0) fs) t1;
           t3 = upd_dir d (\<lambda>x. x\<lparr>d_files := rl_new (ref_name t2) refs\<rparr>) t2
       in rbind (from_dicts cs d t3) (\<lambda>(kids, t4). Inr (d, upd_dir d (\<lambda>x. x\<lparr>d_children := kids\<rparr>) t4)))"
| "from_dicts [] d t = Inr ([], t)"
| "from_dicts (c # cs) d t =
     rbind (from_dict c (Some d) t) (\<lambda>(k, t1). rbind (from_dicts cs d t1) (\<lambda>(ks, t2). Inr (k # ks, t2)))"

definition metadata_from_dict :: "dir_ser \<Rightarrow> fstree \<Rightarrow> (nat \<times> fstree) res" where
  "metadata_from_dict data t = from_dict data None t"

section \<open>What a heap represents\<close>

text \<open>
  \<open>rep a b t d data\<close>: the object at \<open>d\<close> is the tree \<open>data\<close>, all of whose objects have addresses
  from \<open>a\<close> to \<open>b\<close>. Reading further objects does not disturb it.
\<close>

definition ref_rep :: "nat \<Rightarrow> nat \<Rightarrow> fstree \<Rightarrow> nat \<Rightarrow> ref_ser \<Rightarrow> bool" where
  "ref_rep a b t r f \<longleftrightarrow> a \<le> r \<and> r < b \<and> fr_to_dict (t_ref t r) = f \<and> fr_store (t_ref t r) \<noteq> Some []"

fun rep :: "nat \<Rightarrow> nat \<Rightarrow> fstree \<Rightarrow> nat \<Rightarrow> dir_ser \<Rightarrow> bool"
  and reps :: "nat \<Rightarrow> nat \<Rightarrow> fstree \<Rightarrow> nat list \<Rightarrow> dir_ser list \<Rightarrow> bool" where
  "rep a b t d (DirSer name created modified cs fs) \<longleftrightarrow> a \<le> d \<and> d < b \<and> d_name (t_dir t d) = name
     \<and> created = Some (ts (d_created_at (t_dir t d))) \<and> modified = Some (ts (d_modified_at (t_dir t d)))
     \<and> list_all2 (ref_rep a b t) (items t d) fs \<and> reps a b t (d_children (t_dir t d)) cs"
| "reps a b t ds [] \<longleftrightarrow> ds = []"
| "reps a b t ds (c # cs) \<longleftrightarrow> (case ds of [] \<Rightarrow> False | d # ds' \<Rightarrow> rep a b t d c \<and> reps a b t ds' cs)"

definition agree :: "nat \<Rightarrow> nat \<Rightarrow> fstree \<Rightarrow> fstree \<Rightarrow> bool" where
  "agree a b t t' \<longleftrightarrow> (\<forall>x. a \<le> x \<longrightarrow> x < b \<longrightarrow> t_dir t' x = t_dir t x \<and> t_ref t' x = t_ref t x)"

lemma agree_refl [simp]: "agree a b t t"
  by (simp add: agree_def)

lemma agree_trans: "agree a b t t1 \<Longrightarrow> agree a b t1 t2 \<Longrightarrow> agree a b t t2"
  by (simp add: agree_def)

lemma agree_mono: "agree a b t t' \<Longrightarrow> a \<le> a' \<Longrightarrow> b' \<le> b \<Longrightarrow> agree a' b' t t'"
  by (auto simp: agree_def)

lemma ref_rep_frame: "ref_rep a b t r f \<Longrightarrow> agree a b t t' \<Longrightarrow> a' \<le> a \<Longrightarrow> b \<le> b' \<Longrightarrow> ref_rep a' b' t' r f"
  by (auto simp: ref_rep_def agree_def)

lemma rep_frame:
  "agree a b t t' \<Longrightarrow> a' \<le> a \<Longrightarrow> b \<le> b' \<Longrightarrow> rep a b t d data \<Longrightarrow> rep a' b' t' d data"
  "agree a b t t' \<Longrightarrow> a' \<le> a \<Longrightarrow> b \<le> b' \<Longrightarrow> reps a b t ds datas \<Longrightarrow> reps a' b' t' ds datas"
proof (induction a b t d data and a b t ds datas rule: rep_reps.induct)
  case (1 a b t d name created modified cs fs)
  have "list_all2 (ref_rep a b t) xs fs \<Longrightarrow> list_all2 (ref_rep a' b' t') xs fs" for xs
    using list_all2_mono [of "ref_rep a b t" xs fs "ref_rep a' b' t'"] ref_rep_frame [OF _ "1.prems"(1-3)] by blast
  then show ?case using 1 by (auto simp: agree_def items_def)
next
  case (3 a b t ds c cs)
  then show ?case by (cases ds) auto
qed simp

lemma rep_to_dict:
  "rep a b t d data \<Longrightarrow> size data < n \<Longrightarrow> to_dict n t d = Some data"
  "reps a b t ds datas \<Longrightarrow> (\<And>c. c \<in> set datas \<Longrightarrow> size c < n) \<Longrightarrow> those (map (to_dict n t) ds) = Some datas"
proof (induction a b t d data and a b t ds datas arbitrary: n and n rule: rep_reps.induct)
  case (1 a b t d name created modified cs fs)
  obtain m where n: "n = Suc m" using "1.prems"(2) by (cases n) auto
  have "size c < m" if "c \<in> set cs" for c
    using that "1.prems"(2) size_list_estimation' [of c cs "size c" size] by (simp add: n)
  then have "those (map (to_dict m t) (d_children (t_dir t d))) = Some cs" using 1 by simp
  moreover have "map (fr_to_dict \<circ> t_ref t) (items t d) = fs"
    using "1.prems"(1) by (auto simp: list_all2_conv_all_nth ref_rep_def intro: nth_equalityI)
  ultimately show ?case using "1.prems"(1) by (simp add: n)
next
  case (3 a b t ds c cs)
  then show ?case by (cases ds) auto
qed simp

section \<open>Clean metadata\<close>

text \<open>
  Metadata as \<open>to_dict\<close> writes it: valid names that differ in one directory, refs with a name and a message, no empty optional
  values, normalised store keys, dates that are not negative.
\<close>

definition ref_clean :: "ref_ser \<Rightarrow> bool" where
  "ref_clean f \<longleftrightarrow> frs_name f \<noteq> [] \<and> frs_messageId f \<noteq> 0
     \<and> (case frs_mirrors f of None \<Rightarrow> True
        | Some m \<Rightarrow> m \<noteq> [] \<and> dict_ok m \<and> (\<forall>k \<in> fst ` set m. normalize_store_key k = k))
     \<and> (case frs_store f of None \<Rightarrow> True | Some s \<Rightarrow> s \<noteq> [] \<and> normalize_store_key s = s)
     \<and> (case frs_stat f of None \<Rightarrow> True | Some st \<Rightarrow> \<exists>x. st = stat_to_dict x)"

fun clean :: "dir_ser \<Rightarrow> bool" where
  "clean (DirSer name created modified cs fs) \<longleftrightarrow> validate_name name = Inr ()
     \<and> (\<exists>v \<ge> 0. created = Some v) \<and> (\<exists>v \<ge> 0. modified = Some v) \<and> list_all ref_clean fs \<and> list_all clean cs
     \<and> distinct (map ds_name cs) \<and> distinct (map frs_name fs)"

lemma stat_roundtrip: "stat_from_dict (Some (stat_to_dict x)) = Some x"
  by (simp add: stat_from_dict_def stat_to_dict_def)

lemma ref_roundtrip: "ref_clean f \<Longrightarrow> fr_to_dict (fr_from_dict d f) = f"
proof -
  assume c: "ref_clean f"
  have "dict_update_all [] (map (\<lambda>(k, mid). (normalize_store_key k, mid)) (or_empty (frs_mirrors f))) = or_empty (frs_mirrors f)"
  proof (cases "frs_mirrors f")
    case (Some m)
    have "map (\<lambda>(k, mid). (normalize_store_key k, mid)) m = m"
      using c by (intro map_idI) (auto simp: ref_clean_def Some)
    then show ?thesis using c by (simp add: Some or_empty_def dict_update_all_Nil ref_clean_def)
  qed (simp add: or_empty_def dict_update_all_def)
  then show ?thesis
    using c by (auto simp: ref_clean_def fr_to_dict_def fr_from_dict_def or_empty_def stat_roundtrip stat_from_dict_def [of None]
        intro!: ref_ser.equality split: option.splits)
qed

lemma ref_store: "ref_clean f \<Longrightarrow> fr_store (fr_from_dict d f) \<noteq> Some []"
  by (auto simp: ref_clean_def fr_from_dict_def split: option.splits)

lemma read_ts_ts: "0 \<le> v \<Longrightarrow> ts (read_ts (Some v)) = v"
  by (auto simp: read_ts_def FIRST_DAY_OF_EPOCH_def ts_def [of "Aware 0"])

lemma alloc_refs_rep:
  "alloc_refs d fs t = (rs, t') \<Longrightarrow> list_all ref_clean fs
    \<Longrightarrow> t_next t \<le> t_next t' \<and> t_dir t' = t_dir t \<and> agree 0 (t_next t) t t'
      \<and> list_all2 (ref_rep (t_next t) (t_next t') t') rs fs"
proof (induction fs arbitrary: t rs)
  case (Cons f fs)
  define t1 where "t1 = snd (alloc_ref (fr_from_dict d f) t)"
  have t1: "alloc_ref (fr_from_dict d f) t = (t_next t, t1)" "t_next t1 = Suc (t_next t)" "t_dir t1 = t_dir t"
    "t_ref t1 = (t_ref t)(t_next t := fr_from_dict d f)" by (simp_all add: alloc_ref_def t1_def)
  obtain rs' where rs': "alloc_refs d fs t1 = (rs', t')" "rs = t_next t # rs'"
    using Cons.prems(1) by (auto simp: t1(1) Let_def split: prod.splits)
  have IH: "t_next t1 \<le> t_next t' \<and> t_dir t' = t_dir t1 \<and> agree 0 (t_next t1) t1 t'
      \<and> list_all2 (ref_rep (t_next t1) (t_next t') t') rs' fs"
    using Cons.IH [OF rs'(1)] Cons.prems(2) by simp
  have "list_all2 (ref_rep (t_next t) (t_next t') t') rs' fs"
    by (rule list_all2_mono [OF conjunct2 [OF conjunct2 [OF conjunct2 [OF IH]]]]) (auto simp: ref_rep_def t1)
  moreover have "ref_rep (t_next t) (t_next t') t' (t_next t) f"
    using IH Cons.prems(2) ref_roundtrip [of f d] ref_store [of f d] by (auto simp: ref_rep_def agree_def t1)
  ultimately show ?case using IH by (auto simp: rs' t1 agree_def)
qed simp

lemma from_dict_rep:
  "clean data \<Longrightarrow> \<exists>d t'. from_dict data parent t = Inr (d, t') \<and> t_next t \<le> t_next t' \<and> agree 0 (t_next t) t t'
      \<and> rep (t_next t) (t_next t') t' d data \<and> d = t_next t"
  "list_all clean datas \<Longrightarrow> \<exists>ks t'. from_dicts datas d t = Inr (ks, t') \<and> t_next t \<le> t_next t' \<and> agree 0 (t_next t) t t'
      \<and> reps (t_next t) (t_next t') t' ks datas"
proof (induction data parent t and datas d t rule: from_dict_from_dicts.induct)
  case (1 name created modified cs fs parent t)
  obtain c m where cm: "created = Some c" "modified = Some m" "0 \<le> c" "0 \<le> m" using "1.prems" by auto
  have v: "validate_name name = Inr ()" and fs: "list_all ref_clean fs" and cs: "list_all clean cs" using "1.prems" by auto
  let ?d = "t_next t"
  define x where "x = new_dir name parent (read_ts created) (read_ts modified)"
  define t1 where "t1 = snd (alloc_dir x t)"
  have t1: "alloc_dir x t = (?d, t1)" "t_next t1 = Suc ?d" "t_dir t1 = (t_dir t)(?d := x)" "t_ref t1 = t_ref t"
    by (simp_all add: t1_def alloc_dir_def)
  have keep: "filter (\<lambda>f. frs_name f \<noteq> [] \<and> frs_messageId f \<noteq> 0) fs = fs"
    using fs by (auto simp: list_all_iff ref_clean_def filter_id_conv)
  obtain refs t2 where t2: "alloc_refs ?d fs t1 = (refs, t2)" by (cases "alloc_refs ?d fs t1")
  have t2': "alloc_refs ?d (filter (\<lambda>f. frs_name f \<noteq> [] \<and> frs_messageId f \<noteq> 0) fs) t1 = (refs, t2)"
    using t2 by (simp only: keep)
  note r = alloc_refs_rep [OF t2 fs]
  define t3 where "t3 = upd_dir ?d (\<lambda>x. x\<lparr>d_files := rl_new (ref_name t2) refs\<rparr>) t2"
  obtain ks t4 where t4: "from_dicts cs ?d t3 = Inr (ks, t4)" "t_next t3 \<le> t_next t4" "agree 0 (t_next t3) t3 t4"
    "reps (t_next t3) (t_next t4) t4 ks cs"
    using "1.IH" [OF refl t1(1) [unfolded x_def, symmetric] refl t2' [symmetric] t3_def cs] by auto
  define t5 where "t5 = upd_dir ?d (\<lambda>x. x\<lparr>d_children := ks\<rparr>) t4"
  have res: "from_dict (DirSer name created modified cs fs) parent t = Inr (?d, t5)"
    using v t1(1) t2 t4(1) by (simp add: x_def keep t3_def t5_def)
  have n: "?d < t_next t3" "t_next t5 = t_next t4" "t_next t3 = t_next t2" using r t1 by (simp_all add: t3_def t5_def)
  have d5: "t_dir t5 ?d = x\<lparr>d_files := rl_new (ref_name t2) refs, d_children := ks\<rparr>"
    using t4(3) n r by (simp add: t5_def agree_def t3_def t1)
  have "agree (t_next t3) (t_next t4) t4 t5" using n by (simp add: agree_def t5_def)
  then have kids: "reps ?d (t_next t4) t5 ks cs"
    using rep_frame(2) [OF _ _ _ t4(4), of t5 ?d "t_next t4"] n by simp
  have "agree (t_next t1) (t_next t2) t2 t5" using t4(3) n r t1 by (simp add: agree_def t5_def t3_def)
  then have files: "list_all2 (ref_rep ?d (t_next t4) t5) refs fs"
    using r n t1 t4(2) by (auto elim!: list_all2_mono ref_rep_frame)
  have "agree 0 ?d t t5" using r t4(3) n by (simp add: agree_def t5_def t3_def t1)
  moreover have "rep ?d (t_next t5) t5 ?d (DirSer name created modified cs fs)"
    using kids files n t4(2) cm by (simp add: d5 items_def rl_new_ok(2) x_def new_dir_def read_ts_ts)
  ultimately show ?case using res n t4(2) by simp
next
  case (2 d t)
  then show ?case by simp
next
  case (3 c cs d t)
  obtain k t1 where k: "from_dict c (Some d) t = Inr (k, t1)" "t_next t \<le> t_next t1" "agree 0 (t_next t) t t1"
    "rep (t_next t) (t_next t1) t1 k c" using "3.IH"(1) "3.prems" by auto
  obtain ks t2 where ks: "from_dicts cs d t1 = Inr (ks, t2)" "t_next t1 \<le> t_next t2" "agree 0 (t_next t1) t1 t2"
    "reps (t_next t1) (t_next t2) t2 ks cs" using "3.IH"(2) [of t1] "3.prems" by auto
  have "rep (t_next t) (t_next t2) t2 k c"
    using rep_frame(1) [OF agree_mono [OF ks(3)] _ ks(2) k(4), of "t_next t"] k(2) by simp
  moreover have "reps (t_next t) (t_next t2) t2 ks cs" using rep_frame(2) [OF agree_refl k(2) order_refl ks(4)] .
  moreover have "agree 0 (t_next t) t t2" using agree_trans [OF k(3) agree_mono [OF ks(3)]] k(2) by simp
  ultimately show ?case using k(1,2) ks(1,2) by simp
qed

lemma clean_metadata_roundtrip:
  assumes "clean data" and "size data < n"
  shows "\<exists>d t'. metadata_from_dict data t = Inr (d, t') \<and> to_dict n t' d = Some data"
  using from_dict_rep(1) [OF assms(1), of None t] rep_to_dict(1) [OF _ assms(2)]
  by (auto simp: metadata_from_dict_def)

section \<open>The tree that is read is well-formed\<close>

lemma alloc_dir_ok:
  assumes ok: "tree_ok t" and p: "\<And>p. parent = Some p \<Longrightarrow> p < t_next t"
  shows "tree_ok (snd (alloc_dir (new_dir name parent c m) t))" (is "tree_ok ?t")
proof (rule tree_okI)
  have t: "t_dir ?t = (t_dir t)(t_next t := new_dir name parent c m)" "t_ref ?t = t_ref t" "t_next ?t = Suc (t_next t)"
    "ref_name ?t = ref_name t" by (simp_all add: alloc_dir_def ref_name_def fun_eq_iff)
  have old: "rooted ?t x" if "x < t_next t" for x
    using tree_okD(1) [OF ok, of x] that
  proof (induction rule: rooted.induct)
    case (rooted_child x p)
    then show ?case using tree_okD(4) [OF ok, of x p] by (intro rooted.rooted_child [of _ x p]) (simp_all add: t)
  qed (auto simp: t intro: rooted.rooted_root)
  have par: "d_parent (t_dir ?t (t_next t)) = parent" by (simp add: alloc_dir_def new_dir_def)
  have new: "rooted ?t (t_next t)"
  proof (cases parent)
    case None
    with par show ?thesis by (intro rooted.rooted_root) (simp only:)
  next
    case (Some q)
    show ?thesis by (rule rooted.rooted_child [OF trans [OF par Some] old [OF p [OF Some]]])
  qed
  fix x
  show "rooted ?t x"
    using old new tree_okD(3) [OF ok, of x] by (cases x "t_next t" rule: linorder_cases) (auto simp: t intro: rooted.rooted_root)
  show "dir_ok ?t x"
  proof (cases "x = t_next t")
    case True
    then show ?thesis by (auto simp: dir_ok_def alloc_dir_def new_dir_def items_def rl_new_ok(2) rl_new_any)
  next
    case False
    have "c' \<noteq> t_next t" if "c' \<in> set (d_children (t_dir t x))" for c' using tree_ok_dir(9) [OF ok that] by simp
    with False show ?thesis by (intro dir_ok_frame [OF tree_okD(2) [OF ok]]) (auto simp: t)
  qed
  show "d_parent (t_dir ?t x) = None \<and> d_children (t_dir ?t x) = [] \<and> items ?t x = []" if "t_next ?t \<le> x"
    using tree_okD(3) [OF ok, of x] that by (simp add: t items_def)
  show "q < t_next ?t" if "d_parent (t_dir ?t x) = Some q" for q
    using tree_okD(4) [OF ok, of x q] p that by (auto simp: alloc_dir_def new_dir_def less_SucI split: if_splits)
qed

lemma set_children_ok:
  assumes ok: "tree_ok t" and "d < t_next t" and kids: "\<And>k. k \<in> set ks \<Longrightarrow> d_parent (t_dir t k) = Some d \<and> k < t_next t"
    and "distinct (map (\<lambda>k. d_name (t_dir t k)) ks)"
  shows "tree_ok (upd_dir d (\<lambda>x. x\<lparr>d_children := ks\<rparr>) t)" (is "tree_ok ?t")
proof (rule tree_okI)
  fix x
  have same: "d_name (t_dir ?t y) = d_name (t_dir t y)" "d_parent (t_dir ?t y) = d_parent (t_dir t y)"
    "items ?t y = items t y" for y by (simp_all add: items_def)
  show "rooted ?t x" by (rule rooted_mono [OF tree_okD(1) [OF ok]]) simp
  show "dir_ok ?t x"
  proof (cases "x = d")
    case True
    have "d_parent (t_dir ?t k) = Some d \<and> k < t_next ?t" if "k \<in> set ks" for k using kids [OF that] unfolding same by simp
    moreover have "distinct (map (\<lambda>k. d_name (t_dir ?t k)) ks)" using assms(4) unfolding same .
    moreover have "d_children (t_dir ?t d) = ks" "d_files (t_dir ?t d) = d_files (t_dir t d)" "t_ref ?t = t_ref t" "ref_name ?t = ref_name t" by simp_all
    ultimately show ?thesis
      unfolding True dir_ok_def using tree_okD(2) [OF ok, of d] unfolding same dir_ok_def by (simp del: upd_dir_simps(1))
  next
    case False
    then show ?thesis by (intro dir_ok_frame [OF tree_okD(2) [OF ok]]) auto
  qed
  show "d_parent (t_dir ?t x) = None \<and> d_children (t_dir ?t x) = [] \<and> items ?t x = []" if "t_next ?t \<le> x"
    using tree_okD(3) [OF ok, of x] that assms(2) by (auto simp: same)
  show "p < t_next ?t" if "d_parent (t_dir ?t x) = Some p" for p
    using tree_okD(4) [OF ok, of x p] that unfolding same by simp
qed

lemma alloc_refs_ok:
  "alloc_refs d fs t = (rs, t') \<Longrightarrow> tree_ok t \<Longrightarrow> tree_ok t' \<and> t_next t \<le> t_next t' \<and> t_dir t' = t_dir t \<and> (\<forall>x < t_next t. t_ref t' x = t_ref t x)
    \<and> map (t_ref t') rs = map (fr_from_dict d) fs \<and> (\<forall>r \<in> set rs. r < t_next t')"
proof (induction fs arbitrary: t rs)
  case (Cons f fs)
  define t1 where "t1 = snd (alloc_ref (fr_from_dict d f) t)"
  have t1: "alloc_ref (fr_from_dict d f) t = (t_next t, t1)" "t_next t1 = Suc (t_next t)" "t_dir t1 = t_dir t"
    "t_ref t1 = (t_ref t)(t_next t := fr_from_dict d f)" by (simp_all add: alloc_ref_def t1_def)
  obtain rs' where rs': "alloc_refs d fs t1 = (rs', t')" "rs = t_next t # rs'"
    using Cons.prems(1) by (auto simp: t1(1) Let_def split: prod.splits)
  have "tree_ok t1" unfolding t1_def by (rule alloc_ref_ok [OF Cons.prems(2)])
  with Cons.IH [OF rs'(1)] show ?case by (auto simp: rs'(2) t1 less_Suc_eq)
qed simp

lemma from_dict_ok:
  "clean data \<Longrightarrow> tree_ok t \<Longrightarrow> (\<And>p. parent = Some p \<Longrightarrow> p < t_next t) \<Longrightarrow> from_dict data parent t = Inr (d, t')
    \<Longrightarrow> tree_ok t' \<and> d < t_next t' \<and> d_parent (t_dir t' d) = parent \<and> d_name (t_dir t' d) = ds_name data"
  "list_all clean datas \<Longrightarrow> tree_ok t \<Longrightarrow> p < t_next t \<Longrightarrow> from_dicts datas p t = Inr (ks, t')
    \<Longrightarrow> tree_ok t' \<and> (\<forall>k \<in> set ks. d_parent (t_dir t' k) = Some p \<and> k < t_next t') \<and> map (\<lambda>k. d_name (t_dir t' k)) ks = map ds_name datas"
proof (induction data parent t and datas p t arbitrary: d t' and ks t' rule: from_dict_from_dicts.induct)
  case (1 name created modified cs fs parent t)
  have v: "validate_name name = Inr ()" and fs: "list_all ref_clean fs" and cs: "list_all clean cs"
    and dist: "distinct (map ds_name cs)" "distinct (map frs_name fs)" using "1.prems"(1) by auto
  let ?d = "t_next t"
  define x where "x = new_dir name parent (read_ts created) (read_ts modified)"
  define t1 where "t1 = snd (alloc_dir x t)"
  have t1: "alloc_dir x t = (?d, t1)" "t_next t1 = Suc ?d" "t_dir t1 = (t_dir t)(?d := x)"
    by (simp_all add: t1_def alloc_dir_def)
  have ok1: "tree_ok t1" unfolding t1_def x_def by (rule alloc_dir_ok [OF "1.prems"(2,3)])
  have keep: "filter (\<lambda>f. frs_name f \<noteq> [] \<and> frs_messageId f \<noteq> 0) fs = fs"
    using fs by (auto simp: list_all_iff ref_clean_def filter_id_conv)
  obtain refs t2 where t2: "alloc_refs ?d fs t1 = (refs, t2)" by (cases "alloc_refs ?d fs t1")
  have t2': "alloc_refs ?d (filter (\<lambda>f. frs_name f \<noteq> [] \<and> frs_messageId f \<noteq> 0) fs) t1 = (refs, t2)"
    using t2 by (simp only: keep)
  note r = alloc_refs_ok [OF t2 ok1]
  define t3 where "t3 = upd_dir ?d (\<lambda>x. x\<lparr>d_files := rl_new (ref_name t2) refs\<rparr>) t2"
  have refs: "t_ref t2 q \<in> fr_from_dict ?d ` set fs" if "q \<in> set refs" for q
    using r that by (metis (no_types, lifting) image_eqI list.set_map)
  have names: "map (ref_name t2) refs = map frs_name fs"
  proof -
    have "map fr_name (map (t_ref t2) refs) = map fr_name (map (fr_from_dict ?d) fs)" using r by metis
    then show ?thesis by (simp add: ref_name_def [abs_def] fr_from_dict_def comp_def)
  qed
  have ok3: "tree_ok t3"
    unfolding t3_def
  proof (rule set_files_ok)
    show "distinct (map (ref_name t2) (rl_items (rl_new (ref_name t2) refs)))" by (simp add: rl_new_ok(2) names dist(2))
    show "fr_location (t_ref t2 q) = ?d \<and> q < t_next t2" if "q \<in> set (rl_items (rl_new (ref_name t2) refs))" for q
      using refs [of q] r that by (auto simp: rl_new_ok(2) fr_from_dict_def)
  qed (use r t1(2) in \<open>simp_all add: rl_new_ok(1)\<close>)
  have n3: "?d < t_next t3" using r t1(2) by (simp add: t3_def)
  obtain ks t4 where t4: "from_dicts cs ?d t3 = Inr (ks, t4)" and d: "d = ?d" "t' = upd_dir ?d (\<lambda>x. x\<lparr>d_children := ks\<rparr>) t4"
    using "1.prems"(4) v t1(1) t2 by (auto simp: x_def keep t3_def rbind_Inr_iff)
  note kids = "1.IH" [OF refl t1(1) [unfolded x_def, symmetric] refl t2' [symmetric] t3_def cs ok3 n3 t4]
  have agree: "t_next t3 \<le> t_next t4" "agree 0 (t_next t3) t3 t4"
    using from_dict_rep(2) [OF cs, of ?d t3] t4 by auto
  then have d4: "d_parent (t_dir t4 ?d) = parent" "d_name (t_dir t4 ?d) = name" "?d < t_next t4"
    using n3 r t1(3) by (auto simp: agree_def t3_def x_def new_dir_def)
  have "tree_ok t'" unfolding d(2) using kids d4(3) dist(1) by (intro set_children_ok) auto
  then show ?case using d4 by (simp add: d)
next
  case (3 c cs p t)
  obtain k t1 ks' where k: "from_dict c (Some p) t = Inr (k, t1)" "from_dicts cs p t1 = Inr (ks', t')" "ks = k # ks'"
    using "3.prems"(4) by (auto simp: rbind_Inr_iff)
  have c: "clean c" "list_all clean cs" using "3.prems"(1) by simp_all
  have one: "tree_ok t1" "k < t_next t1" "d_parent (t_dir t1 k) = Some p" "d_name (t_dir t1 k) = ds_name c"
    using "3.IH"(1) [OF c(1) "3.prems"(2) _ k(1)] "3.prems"(3) by auto
  have "t_next t \<le> t_next t1" using from_dict_rep(1) [OF c(1), of "Some p" t] k(1) by auto
  then have rest: "tree_ok t'" "\<forall>k \<in> set ks'. d_parent (t_dir t' k) = Some p \<and> k < t_next t'" "map (\<lambda>k. d_name (t_dir t' k)) ks' = map ds_name cs"
    using "3.IH"(2) [OF c(2) one(1) _ k(2)] "3.prems"(3) by auto
  have "t_next t1 \<le> t_next t'" "agree 0 (t_next t1) t1 t'" using from_dict_rep(2) [OF c(2), of p t1] k(2) by auto
  then have "d_parent (t_dir t' k) = Some p" "d_name (t_dir t' k) = ds_name c" "k < t_next t'"
    using one by (auto simp: agree_def)
  with rest show ?case by (simp add: k(3))
qed simp

section \<open>Trees that can be stored\<close>

text \<open>
  What the metadata keeps of a file ref and of a directory: dates are written in milliseconds, an empty store is none, and store keys
  are normalised when they are read. \<open>from_dict\<close> skips a ref without a name or a message.
\<close>

definition ref_storable :: "file_ref \<Rightarrow> bool" where
  "ref_storable fr \<longleftrightarrow> fr_name fr \<noteq> [] \<and> fr_message_id fr \<noteq> 0 \<and> dict_ok (fr_mirrors fr)
     \<and> (\<forall>k \<in> fst ` set (fr_mirrors fr). normalize_store_key k = k)
     \<and> (case fr_store fr of None \<Rightarrow> True | Some s \<Rightarrow> s \<noteq> [] \<and> normalize_store_key s = s)"

definition storable :: "fstree \<Rightarrow> nat \<Rightarrow> bool" where
  "storable t d \<longleftrightarrow> (\<forall>x. reaches t d x \<longrightarrow> validate_name (d_name (t_dir t x)) = Inr ()
     \<and> 0 \<le> ts (d_created_at (t_dir t x)) \<and> 0 \<le> ts (d_modified_at (t_dir t x))
     \<and> (\<forall>r \<in> set (items t x). ref_storable (t_ref t r)))"

definition same_ref :: "file_ref \<Rightarrow> file_ref \<Rightarrow> bool" where
  "same_ref fr fr' \<longleftrightarrow> fr_message_id fr' = fr_message_id fr \<and> fr_name fr' = fr_name fr \<and> fr_mirrors fr' = fr_mirrors fr
     \<and> fr_store fr' = fr_store fr \<and> fr_stat fr' = fr_stat fr"

text \<open>The tree at \<open>d'\<close> of one heap is the tree at \<open>d\<close> of the other, children and files in the same order.\<close>

inductive same_tree :: "fstree \<Rightarrow> fstree \<Rightarrow> nat \<Rightarrow> nat \<Rightarrow> bool" for t t' where
  same_dir: "d_name (t_dir t' d') = d_name (t_dir t d) \<Longrightarrow> ts (d_created_at (t_dir t' d')) = ts (d_created_at (t_dir t d))
    \<Longrightarrow> ts (d_modified_at (t_dir t' d')) = ts (d_modified_at (t_dir t d))
    \<Longrightarrow> list_all2 (\<lambda>r r'. same_ref (t_ref t r) (t_ref t' r')) (items t d) (items t' d')
    \<Longrightarrow> list_all2 (same_tree t t') (d_children (t_dir t d)) (d_children (t_dir t' d'))
    \<Longrightarrow> same_tree t t' d d'"

inductive_cases same_treeE: "same_tree t t' d d'"

lemma storable_child: "storable t d \<Longrightarrow> c \<in> set (d_children (t_dir t d)) \<Longrightarrow> storable t c"
  unfolding storable_def by (blast intro: reaches_child)

lemma storable_here:
  assumes "storable t d"
  shows "validate_name (d_name (t_dir t d)) = Inr ()" and "0 \<le> ts (d_created_at (t_dir t d))" and "0 \<le> ts (d_modified_at (t_dir t d))"
    and "r \<in> set (items t d) \<Longrightarrow> ref_storable (t_ref t r)"
  using assms reaches_self [of t d] unfolding storable_def by blast+

lemma those_children: "those (map f xs) = Some ys \<longleftrightarrow> list_all2 (\<lambda>x y. f x = Some y) xs ys"
  by (induction xs arbitrary: ys) (auto simp: list_all2_Cons1 split: option.splits)

lemma reps_list: "reps a b t ds datas \<longleftrightarrow> list_all2 (rep a b t) ds datas"
  by (induction datas arbitrary: ds) (auto simp: list_all2_Cons2 split: list.splits)

lemma ref_storable_clean: "ref_storable fr \<Longrightarrow> ref_clean (fr_to_dict fr)"
  by (auto simp: ref_storable_def ref_clean_def fr_to_dict_def split: option.splits)

lemma stat_to_dict_inj: "stat_to_dict x = stat_to_dict y \<Longrightarrow> x = y"
  by (metis option.inject stat_roundtrip)

lemma same_ref_dict:
  assumes "fr_to_dict fr' = fr_to_dict fr" and "ref_storable fr" and "fr_store fr' \<noteq> Some []"
  shows "same_ref fr fr'"
proof -
  have stat: "map_option stat_to_dict (fr_stat fr') = map_option stat_to_dict (fr_stat fr)" using assms(1) by (simp add: fr_to_dict_def)
  have "fr_stat fr' = fr_stat fr" by (rule option.inj_map_strong [OF _ stat]) (rule stat_to_dict_inj)
  moreover have "fr_mirrors fr' = fr_mirrors fr" using assms(1) by (simp add: fr_to_dict_def split: if_splits)
  moreover have "fr_store fr' = fr_store fr"
    using assms by (cases "fr_store fr"; cases "fr_store fr'") (auto simp: fr_to_dict_def ref_storable_def split: if_splits)
  ultimately show ?thesis using assms(1) by (simp add: fr_to_dict_def same_ref_def)
qed

text \<open>Writing ends: a fuel of the number of objects is enough.\<close>

lemma to_dict_total:
  assumes ok: "tree_ok t"
  shows "d < t_next t \<Longrightarrow> card (below_set t d) \<le> n \<Longrightarrow> \<exists>data. to_dict n t d = Some data"
proof (induction n arbitrary: d)
  case 0
  have "d \<in> below_set t d" using 0 by (auto simp: below_set_def intro: below.intros)
  moreover have "finite (below_set t d)" by (simp add: below_set_def)
  ultimately show ?case using 0 by auto
next
  case (Suc n)
  have fin: "finite (below_set t d)" by (simp add: below_set_def)
  have "\<exists>data. to_dict n t c = Some data" if "c \<in> set (d_children (t_dir t d))" for c
  proof (rule Suc.IH)
    show "c < t_next t" by (rule child_below_set(1) [OF ok that Suc.prems(1)])
    show "card (below_set t c) \<le> n"
      using psubset_card_mono [OF fin child_below_set(2) [OF ok that Suc.prems(1)]] Suc.prems(2) by simp
  qed
  then obtain cs where "those (map (to_dict n t) (d_children (t_dir t d))) = Some cs" using those_total by blast
  then show ?case by simp
qed

lemma to_dict_clean:
  assumes ok: "tree_ok t"
  shows "to_dict n t d = Some data \<Longrightarrow> storable t d \<Longrightarrow> clean data \<and> ds_name data = d_name (t_dir t d)"
proof (induction n arbitrary: d data)
  case (Suc n)
  obtain cs where cs: "list_all2 (\<lambda>c y. to_dict n t c = Some y) (d_children (t_dir t d)) cs"
      and data: "data = DirSer (d_name (t_dir t d)) (Some (ts (d_created_at (t_dir t d)))) (Some (ts (d_modified_at (t_dir t d)))) cs
        (map (fr_to_dict \<circ> t_ref t) (items t d))"
    using Suc.prems(1) by (auto simp: those_children)
  have kids: "list_all2 (\<lambda>c y. clean y \<and> ds_name y = d_name (t_dir t c)) (d_children (t_dir t d)) cs"
    by (rule list.rel_mono_strong [OF cs]) (use Suc.IH storable_child [OF Suc.prems(2)] in blast)
  then have "list_all clean cs" "map ds_name cs = map (\<lambda>c. d_name (t_dir t c)) (d_children (t_dir t d))"
    by (induction rule: list_all2_induct) auto
  moreover have "map frs_name (map (fr_to_dict \<circ> t_ref t) (items t d)) = map (ref_name t) (items t d)"
    by (simp add: fr_to_dict_def ref_name_def)
  moreover have "list_all ref_clean (map (fr_to_dict \<circ> t_ref t) (items t d))"
    using ref_storable_clean storable_here(4) [OF Suc.prems(2)] by (auto simp: list_all_iff)
  ultimately show ?case
    using storable_here(1-3) [OF Suc.prems(2)] tree_ok_dir(2,5) [OF ok, of d] by (simp add: data del: map_map)
qed simp

lemma rep_same:
  "to_dict n t d = Some data \<Longrightarrow> storable t d \<Longrightarrow> rep a b t' d' data \<Longrightarrow> same_tree t t' d d'"
proof (induction n arbitrary: d data d')
  case (Suc n)
  obtain cs where cs: "list_all2 (\<lambda>c y. to_dict n t c = Some y) (d_children (t_dir t d)) cs"
      and data: "data = DirSer (d_name (t_dir t d)) (Some (ts (d_created_at (t_dir t d)))) (Some (ts (d_modified_at (t_dir t d)))) cs
        (map (fr_to_dict \<circ> t_ref t) (items t d))"
    using Suc.prems(1) by (auto simp: those_children)
  have r: "list_all2 (ref_rep a b t') (items t' d') (map (fr_to_dict \<circ> t_ref t) (items t d))" "list_all2 (rep a b t') (d_children (t_dir t' d')) cs"
    using Suc.prems(3) by (simp_all add: data reps_list)
  have "list_all2 (\<lambda>r r'. same_ref (t_ref t r) (t_ref t' r')) (items t d) (items t' d')"
    using r(1) storable_here(4) [OF Suc.prems(2)]
    by (auto simp: list_all2_conv_all_nth ref_rep_def intro!: same_ref_dict)
  moreover have "same_tree t t' c c'" if "i < length cs" "c = d_children (t_dir t d) ! i" "c' = d_children (t_dir t' d') ! i" for i c c'
    using Suc.IH [of c "cs ! i" c'] storable_child [OF Suc.prems(2), of c] cs r(2) that by (auto simp: list_all2_conv_all_nth)
  then have "list_all2 (same_tree t t') (d_children (t_dir t d)) (d_children (t_dir t' d'))"
    using cs r(2) by (simp add: list_all2_conv_all_nth)
  ultimately show ?case using Suc.prems(3) by (intro same_dir) (simp_all add: data)
qed simp

text \<open>C29: The metadata keeps the whole tree. From every directory of a well-formed tree whose names are valid, whose dates are not before the epoch and whose
  file refs have a name, a message and normalised store keys, writing ends with metadata, and reading that metadata into any
  well-formed heap succeeds and gives a well-formed tree with the same directories and file refs in the same order: the same names,
  the dates in milliseconds, and of every ref its message, mirrors, store and listing data; parents, locations and the name index are
  consistent again. Writing the tree that was read gives the same metadata.\<close>

theorem metadata_roundtrip:
  assumes ok: "tree_ok t" and d: "d < t_next t" and st: "storable t d" and u: "tree_ok u"
  shows "\<exists>data d' t'. to_dict (t_next t) t d = Some data \<and> metadata_from_dict data u = Inr (d', t')
    \<and> tree_ok t' \<and> d_parent (t_dir t' d') = None \<and> same_tree t t' d d' \<and> to_dict (Suc (size data)) t' d' = Some data"
proof -
  have "card (below_set t d) \<le> t_next t" using card_mono [of "{..<t_next t}" "below_set t d"] by (auto simp: below_set_def)
  then obtain data where data: "to_dict (t_next t) t d = Some data" using to_dict_total [OF ok d] by blast
  have clean: "clean data" using to_dict_clean [OF ok data st] by blast
  obtain d' t' where r: "from_dict data None u = Inr (d', t')" "rep (t_next u) (t_next t') t' d' data"
    using from_dict_rep(1) [OF clean, of None u] by blast
  have "tree_ok t'" "d_parent (t_dir t' d') = None" using from_dict_ok(1) [OF clean u _ r(1)] by auto
  moreover have "same_tree t t' d d'" by (rule rep_same [OF data st r(2)])
  moreover have "to_dict (Suc (size data)) t' d' = Some data" by (rule rep_to_dict(1) [OF r(2)]) simp
  ultimately show ?thesis using data r(1) by (auto simp: metadata_from_dict_def)
qed

text \<open>The tree with the directories a and b and the file f in a.\<close>

lemma example_ref_tree_parts:
  "d_children (t_dir example_ref_tree 0) = [1, 2]" "d_children (t_dir example_ref_tree 1) = []" "d_children (t_dir example_ref_tree 2) = []"
  "items example_ref_tree 0 = []" "d_name (t_dir example_ref_tree 0) = ''root''" "d_name (t_dir example_ref_tree 1) = ''a''"
  "d_name (t_dir example_ref_tree 2) = ''b''"
  "0 \<le> ts (d_created_at (t_dir example_ref_tree x))" "0 \<le> ts (d_modified_at (t_dir example_ref_tree x))"
  "ref_storable (t_ref example_ref_tree 3)"
proof -
  have f: "find_files example_tree 1 [''f''] = []" by (simp add: find_files_scan [OF example_tree_ok(1)] example_tree_items)
  obtain l where t: "t_dir example_ref_tree = (t_dir example_tree)(1 := (t_dir example_tree 1)\<lparr>d_files := l, d_modified_at := Naive 3\<rparr>)"
    using f by (simp add: example_ref_tree_def create_file_ref_def attach_file_ref_def alloc_ref_def touch_modified_def upd_dir_def)
  have r: "t_ref example_ref_tree 3 = \<lparr>fr_message_id = 77, fr_name = ''f'', fr_location = 1, fr_mirrors = [], fr_store = None, fr_stat = None, fr_stat_epoch = 0\<rparr>"
    using f by (simp add: example_ref_tree_def create_file_ref_def attach_file_ref_def alloc_ref_def example_tree_ok(2))
  show "ref_storable (t_ref example_ref_tree 3)" by (simp add: r ref_storable_def dict_ok_def)
  note ex = example_tree_def create_dir_def empty_tree_def find_dirs_def new_dir_def validate_name_def alloc_dir_def Let_def touch_modified_def
  show "d_children (t_dir example_ref_tree 0) = [1, 2]" "d_children (t_dir example_ref_tree 1) = []" "d_children (t_dir example_ref_tree 2) = []"
    "items example_ref_tree 0 = []" "d_name (t_dir example_ref_tree 0) = ''root''" "d_name (t_dir example_ref_tree 1) = ''a''"
    "d_name (t_dir example_ref_tree 2) = ''b''"
    using example_tree_items [of 0] by (simp_all add: t items_def ex)
  show "0 \<le> ts (d_created_at (t_dir example_ref_tree x))" "0 \<le> ts (d_modified_at (t_dir example_ref_tree x))"
    by (simp_all add: t ex ts_def)
qed

lemma example_ref_tree_reaches: "reaches example_ref_tree d x \<Longrightarrow> d \<in> {0, 1, 2} \<Longrightarrow> x \<in> {0, 1, 2}"
  by (induction rule: reaches.induct) (auto simp: example_ref_tree_parts simp del: One_nat_def)

lemma example_ref_tree_storable: "storable example_ref_tree 0"
  unfolding storable_def
proof (intro allI impI)
  fix x
  assume "reaches example_ref_tree 0 x"
  then have "x = 0 \<or> x = 1 \<or> x = 2" using example_ref_tree_reaches by blast
  then show "validate_name (d_name (t_dir example_ref_tree x)) = Inr () \<and> 0 \<le> ts (d_created_at (t_dir example_ref_tree x))
      \<and> 0 \<le> ts (d_modified_at (t_dir example_ref_tree x)) \<and> (\<forall>r \<in> set (items example_ref_tree x). ref_storable (t_ref example_ref_tree r))"
    by (elim disjE) (simp_all add: example_ref_tree_parts example_ref_tree_ok validate_name_def del: One_nat_def)
qed

theorem metadata_roundtrip_witness:
  "\<exists>data d' t' r. to_dict 4 example_ref_tree 0 = Some data \<and> metadata_from_dict data empty_tree = Inr (d', t')
    \<and> find_file t' (d_children (t_dir t' d') ! 0) ''f'' = Inr r \<and> fr_message_id (t_ref t' r) = 77"
proof -
  obtain data d' t' where rt: "to_dict 4 example_ref_tree 0 = Some data" "metadata_from_dict data empty_tree = Inr (d', t')" "tree_ok t'"
      "same_tree example_ref_tree t' 0 d'"
    using metadata_roundtrip [OF example_ref_tree_ok(1) _ example_ref_tree_storable empty_tree_ok] by (auto simp: example_ref_tree_ok(6))
  from rt(4) have "list_all2 (same_tree example_ref_tree t') [1, 2] (d_children (t_dir t' d'))"
    by (rule same_treeE) (simp add: example_ref_tree_parts del: One_nat_def)
  then have "same_tree example_ref_tree t' 1 (d_children (t_dir t' d') ! 0)" by (auto simp: list_all2_Cons1)
  then have "list_all2 (\<lambda>r r'. same_ref (t_ref example_ref_tree r) (t_ref t' r')) [3] (items t' (d_children (t_dir t' d') ! 0))"
    by (rule same_treeE) (simp add: example_ref_tree_ok(2) del: One_nat_def)
  then obtain r where r: "r \<in> set (items t' (d_children (t_dir t' d') ! 0))" "same_ref (t_ref example_ref_tree 3) (t_ref t' r)"
    by (auto simp: list_all2_Cons1)
  then have "find_file t' (d_children (t_dir t' d') ! 0) ''f'' = Inr r" "fr_message_id (t_ref t' r) = 77"
    using unique_file [OF rt(3) r(1)] example_ref_tree_ok(4,5) by (simp_all add: same_ref_def ref_name_def)
  with rt(1,2) show ?thesis by blast
qed

end
