(* ===== verification/CryptoFormat.thy ===== *)
theory CryptoFormat
  imports FileModel
begin

text \<open>
  The encrypted file format (\<open>src/tgdcfs/crypto/header.py\<close>, \<open>cipher.py\<close>, \<open>kdf.py\<close>, \<open>names.py\<close>,
  \<open>path_names.py\<close>). The primitives come from a library: AES-GCM, AES-SIV, HMAC and HKDF are
  parameters. What the code relies on, that decryption with the same key and nonce gives the
  plaintext back and that a ciphertext is 16 bytes longer than its plaintext, is the
  predicate \<open>aead_law\<close>.
\<close>

section \<open>Primitives\<close>

text \<open>\<open>encrypt key nonce plaintext\<close> and \<open>decrypt key nonce ciphertext\<close>, \<open>None\<close> for \<open>InvalidTag\<close>.\<close>

record aead =
  aead_encrypt :: "bytes \<Rightarrow> bytes \<Rightarrow> bytes \<Rightarrow> bytes"
  aead_decrypt :: "bytes \<Rightarrow> bytes \<Rightarrow> bytes \<Rightarrow> bytes option"

definition NONCE_SIZE :: nat where "NONCE_SIZE = 12"
definition TAG_SIZE :: nat where "TAG_SIZE = 16"
definition CHUNK_OVERHEAD :: nat where "CHUNK_OVERHEAD = NONCE_SIZE + TAG_SIZE"

definition aead_law :: "aead \<Rightarrow> bool" where
  "aead_law A \<longleftrightarrow> (\<forall>k n p. aead_decrypt A k n (aead_encrypt A k n p) = Some p
     \<and> length (aead_encrypt A k n p) = length p + TAG_SIZE)"

section \<open>The header\<close>

definition HEADER_SIZE :: nat where "HEADER_SIZE = 60"
definition MAGIC :: bytes where "MAGIC = [0x54, 0x47, 0x46, 0x53]"
definition HEADER_VERSION :: int where "HEADER_VERSION = 1"
definition DEFAULT_CHUNK_SIZE :: int where "DEFAULT_CHUNK_SIZE = 64 * 1024"
definition FILE_SALT_SIZE :: nat where "FILE_SALT_SIZE = 32"
definition HEADER_MAC_SIZE :: nat where "HEADER_MAC_SIZE = 16"
definition BODY_SIZE :: nat where "BODY_SIZE = 44"

datatype Algorithm = AES_256_GCM

fun algorithm_id :: "Algorithm \<Rightarrow> int" where
  "algorithm_id AES_256_GCM = 1"

definition algorithm_of :: "int \<Rightarrow> Algorithm res" where
  "algorithm_of n = (if n = 1 then Inr AES_256_GCM else Inl ValueError)"

record file_header =
  h_version :: int
  h_algorithm :: Algorithm
  h_chunk_size :: int
  h_file_salt :: bytes

definition new_header :: "int \<Rightarrow> bytes \<Rightarrow> file_header" where
  "new_header chunk_size salt =
     \<lparr>h_version = HEADER_VERSION, h_algorithm = AES_256_GCM, h_chunk_size = chunk_size, h_file_salt = salt\<rparr>"

text \<open>The format \<open>32s\<close> of \<open>struct.pack\<close> pads with zeros and cuts off.\<close>

definition pack_s :: "nat \<Rightarrow> bytes \<Rightarrow> bytes" where
  "pack_s n bs = take n (bs @ replicate (n - length bs) 0)"

definition header_body :: "file_header \<Rightarrow> bytes res" where
  "header_body h =
     rbind (struct_pack_be 2 (h_version h)) (\<lambda>v.
     rbind (struct_pack_be 2 (algorithm_id (h_algorithm h))) (\<lambda>a.
     rbind (struct_pack_be 4 (h_chunk_size h)) (\<lambda>c.
     Inr (MAGIC @ v @ a @ c @ pack_s FILE_SALT_SIZE (h_file_salt h)))))"

text \<open>\<open>mac key body\<close> is \<open>HMAC-SHA256\<close>, 32 bytes.\<close>

type_synonym hmac = "bytes \<Rightarrow> bytes \<Rightarrow> bytes"

definition header_serialize :: "hmac \<Rightarrow> bytes \<Rightarrow> file_header \<Rightarrow> bytes res" where
  "header_serialize mac file_key h =
     rbind (header_body h) (\<lambda>body. Inr (body @ take HEADER_MAC_SIZE (mac file_key body)))"

definition header_parse :: "bytes \<Rightarrow> file_header res" where
  "header_parse raw =
     (if length raw < HEADER_SIZE then Inl InvalidHeaderError
      else
        let body = take BODY_SIZE raw;
            magic = take 4 body; version = int (be_value (take 2 (drop 4 body)));
            algo = int (be_value (take 2 (drop 6 body)));
            chunk_size = int (be_value (take 4 (drop 8 body)));
            salt = take 32 (drop 12 body)
        in if magic \<noteq> MAGIC then Inl InvalidHeaderError
           else if version \<noteq> HEADER_VERSION then Inl InvalidHeaderError
           else (case algorithm_of algo of
               Inl _ \<Rightarrow> Inl InvalidHeaderError
             | Inr a \<Rightarrow>
                 if chunk_size \<le> 0 \<or> 16 * 1024 * 1024 < chunk_size then Inl InvalidHeaderError
                 else Inr \<lparr>h_version = version, h_algorithm = a, h_chunk_size = chunk_size, h_file_salt = salt\<rparr>))"

definition header_verify :: "hmac \<Rightarrow> bytes \<Rightarrow> bytes \<Rightarrow> unit res" where
  "header_verify mac raw file_key =
     (if length raw < HEADER_SIZE then Inl InvalidHeaderError
      else
        let body = take BODY_SIZE raw; tag = drop BODY_SIZE (take HEADER_SIZE raw)
        in if tag \<noteq> take HEADER_MAC_SIZE (mac file_key body) then Inl InvalidHeaderError else Inr ())"

section \<open>Chunks\<close>

definition chunk_nonce :: "bytes \<Rightarrow> int \<Rightarrow> bytes res" where
  "chunk_nonce salt i =
     (if i < 0 \<or> 0xFFFFFFFFFFFFFFFF < i then Inl ValueError
      else rbind (struct_pack_be 8 i) (\<lambda>b. Inr (take 4 salt @ b)))"

record chunked_cipher =
  ck_file_key :: bytes
  ck_file_salt :: bytes
  ck_chunk_size :: int

definition new_cipher :: "bytes \<Rightarrow> bytes \<Rightarrow> int \<Rightarrow> chunked_cipher res" where
  "new_cipher key salt chunk_size =
     (if length key \<noteq> 32 then Inl ValueError
      else if length salt < 4 then Inl ValueError
      else if chunk_size \<le> 0 then Inl ValueError
      else Inr \<lparr>ck_file_key = key, ck_file_salt = salt, ck_chunk_size = chunk_size\<rparr>)"

definition ciphertext_chunk_size :: "int \<Rightarrow> int" where
  "ciphertext_chunk_size n = n + int CHUNK_OVERHEAD"

definition encrypt_chunk :: "aead \<Rightarrow> chunked_cipher \<Rightarrow> bytes \<Rightarrow> int \<Rightarrow> bytes res" where
  "encrypt_chunk A ck plaintext i =
     (if ck_chunk_size ck < int (length plaintext) then Inl ValueError
      else rbind (chunk_nonce (ck_file_salt ck) i) (\<lambda>nonce.
        Inr (nonce @ aead_encrypt A (ck_file_key ck) nonce plaintext)))"

definition decrypt_chunk :: "aead \<Rightarrow> chunked_cipher \<Rightarrow> bytes \<Rightarrow> int \<Rightarrow> bytes res" where
  "decrypt_chunk A ck blob i =
     (if length blob < CHUNK_OVERHEAD then Inl CipherError
      else
        let nonce = take NONCE_SIZE blob; ct = drop NONCE_SIZE blob in
        rbind (chunk_nonce (ck_file_salt ck) i) (\<lambda>expected.
          if nonce \<noteq> expected then Inl CipherError
          else (case aead_decrypt A (ck_file_key ck) nonce ct of
              None \<Rightarrow> Inl CipherError | Some p \<Rightarrow> Inr p)))"

definition ciphertext_size_for_plaintext :: "int \<Rightarrow> int \<Rightarrow> int res" where
  "ciphertext_size_for_plaintext n chunk_size =
     (if n < 0 then Inl ValueError
      else if n = 0 then Inr 0
      else
        let full = n div chunk_size; r = n mod chunk_size; chunks = full + (if r \<noteq> 0 then 1 else 0)
        in Inr (n + chunks * int CHUNK_OVERHEAD))"

definition plaintext_offset_to_chunk :: "int \<Rightarrow> int \<Rightarrow> (int \<times> int) res" where
  "plaintext_offset_to_chunk off chunk_size =
     (if off < 0 then Inl ValueError else Inr (off div chunk_size, off mod chunk_size))"

definition chunk_to_ciphertext_offset :: "int \<Rightarrow> int \<Rightarrow> int res" where
  "chunk_to_ciphertext_offset i chunk_size =
     (if i < 0 then Inl ValueError else Inr (i * (chunk_size + int CHUNK_OVERHEAD)))"

definition encrypted_size_for :: "int \<Rightarrow> int \<Rightarrow> int res" where
  "encrypted_size_for n chunk_size =
     rbind (ciphertext_size_for_plaintext n chunk_size) (\<lambda>c. Inr (int HEADER_SIZE + c))"

definition plaintext_size_from_ciphertext :: "int \<Rightarrow> int \<Rightarrow> int res" where
  "plaintext_size_from_ciphertext csize chunk_size =
     (if csize \<le> int HEADER_SIZE then Inr 0
      else
        let payload = csize - int HEADER_SIZE; stride = chunk_size + int CHUNK_OVERHEAD;
            full = payload div stride; tail = payload mod stride
        in if tail = 0 then Inr (full * chunk_size)
           else if tail < int CHUNK_OVERHEAD then Inl ValueError
           else Inr (full * chunk_size + (tail - int CHUNK_OVERHEAD)))"

section \<open>Keys\<close>

text \<open>\<open>hkdf n salt info secret\<close> is HKDF-SHA256 with \<open>n\<close> bytes of output; \<open>argon2 passphrase salt\<close> is Argon2id.\<close>

type_synonym hkdf = "nat \<Rightarrow> bytes \<Rightarrow> string \<Rightarrow> bytes \<Rightarrow> bytes"

definition MASTER_SALT_SIZE :: nat where "MASTER_SALT_SIZE = 16"

record master_key =
  mk_key :: bytes
  mk_salt :: bytes

definition derive_master_key :: "(bytes \<Rightarrow> bytes \<Rightarrow> bytes) \<Rightarrow> bytes \<Rightarrow> bytes \<Rightarrow> bytes option \<Rightarrow> master_key res" where
  "derive_master_key argon2 random passphrase salt = (case salt of
     None \<Rightarrow> Inr \<lparr>mk_key = argon2 passphrase (take MASTER_SALT_SIZE random), mk_salt = take MASTER_SALT_SIZE random\<rparr>
   | Some s \<Rightarrow> if length s < 8 then Inl ValueError else Inr \<lparr>mk_key = argon2 passphrase s, mk_salt = s\<rparr>)"

definition derive_file_key :: "hkdf \<Rightarrow> bytes \<Rightarrow> bytes \<Rightarrow> bytes res" where
  "derive_file_key kdf master salt =
     (if length master \<noteq> 32 then Inl ValueError
      else if length salt < 16 then Inl ValueError
      else Inr (kdf 32 salt ''tgfs-file-key-v1'' master))"

definition derive_name_key :: "hkdf \<Rightarrow> bytes \<Rightarrow> bytes res" where
  "derive_name_key kdf master =
     (if length master \<noteq> 32 then Inl ValueError else Inr (kdf 32 [] ''tgfs-name-key-v1'' master))"

definition derive_path_name_key :: "hkdf \<Rightarrow> bytes \<Rightarrow> bytes res" where
  "derive_path_name_key kdf master =
     (if length master \<noteq> 32 then Inl ValueError else Inr (kdf 64 [] ''tgfs-path-name-key-v1'' master))"

section \<open>Names\<close>

text \<open>UTF-8 on the code points below 256 that a \<open>string\<close> has.\<close>

fun utf8_encode :: "string \<Rightarrow> bytes" where
  "utf8_encode [] = []"
| "utf8_encode (c # cs) =
     (let n = of_char c :: nat in
      (if n < 128 then [of_nat n] else [of_nat (192 + n div 64), of_nat (128 + n mod 64)]) @ utf8_encode cs)"

fun utf8_decode :: "bytes \<Rightarrow> string res" where
  "utf8_decode [] = Inr []"
| "utf8_decode (b # bs) =
     (let n = unat b in
      if n < 128 then rbind (utf8_decode bs) (\<lambda>s. Inr (char_of n # s))
      else if n = 194 \<or> n = 195 then
        (case bs of
           [] \<Rightarrow> Inl UnicodeDecodeError
         | b' # bs' \<Rightarrow>
             if 128 \<le> unat b' \<and> unat b' < 192
             then rbind (utf8_decode bs') (\<lambda>s. Inr (char_of ((n - 192) * 64 + (unat b' - 128)) # s))
             else Inl UnicodeDecodeError)
      else Inl UnicodeDecodeError)"

definition NAME_PREFIX :: string where "NAME_PREFIX = ''TGFS1_''"
definition PATH_NAME_PREFIX :: string where "PATH_NAME_PREFIX = ''TGFSP1_''"
definition NAME_NONCE_SIZE :: nat where "NAME_NONCE_SIZE = 12"
definition NAME_TAG_SIZE :: nat where "NAME_TAG_SIZE = 16"

definition starts_with :: "string \<Rightarrow> string \<Rightarrow> bool" where
  "starts_with p s \<longleftrightarrow> take (length p) s = p"

definition is_encrypted_name :: "string \<Rightarrow> bool" where
  "is_encrypted_name s \<longleftrightarrow> starts_with NAME_PREFIX s"

text \<open>\<open>nonce\<close> stands for the random bytes.\<close>

definition encrypt_name :: "aead \<Rightarrow> bytes \<Rightarrow> bytes \<Rightarrow> string \<Rightarrow> string" where
  "encrypt_name A key nonce plaintext =
     NAME_PREFIX @ b64_encode (nonce @ aead_encrypt A key nonce (utf8_encode plaintext))"

definition decrypt_name :: "aead \<Rightarrow> bytes \<Rightarrow> string \<Rightarrow> string res" where
  "decrypt_name A key s =
     (if \<not> starts_with NAME_PREFIX s then Inl NameEncryptionError
      else (case b64_decode (drop (length NAME_PREFIX) s) of
          Inl _ \<Rightarrow> Inl NameEncryptionError
        | Inr blob \<Rightarrow>
            if length blob < NAME_NONCE_SIZE + NAME_TAG_SIZE then Inl NameEncryptionError
            else (case aead_decrypt A key (take NAME_NONCE_SIZE blob) (drop NAME_NONCE_SIZE blob) of
                None \<Rightarrow> Inl NameEncryptionError
              | Some plain \<Rightarrow> utf8_decode plain)))"

text \<open>AES-SIV takes no nonce.\<close>

record siv =
  siv_encrypt :: "bytes \<Rightarrow> bytes \<Rightarrow> bytes"
  siv_decrypt :: "bytes \<Rightarrow> bytes \<Rightarrow> bytes option"

definition siv_law :: "siv \<Rightarrow> bool" where
  "siv_law S \<longleftrightarrow> (\<forall>k p. siv_decrypt S k (siv_encrypt S k p) = Some p)"

definition is_encrypted_path_name :: "string \<Rightarrow> bool" where
  "is_encrypted_path_name s \<longleftrightarrow> starts_with PATH_NAME_PREFIX s"

definition encrypt_path_name :: "siv \<Rightarrow> bytes \<Rightarrow> string \<Rightarrow> string" where
  "encrypt_path_name S key plaintext = PATH_NAME_PREFIX @ b64_encode (siv_encrypt S key (utf8_encode plaintext))"

definition decrypt_path_name :: "siv \<Rightarrow> bytes \<Rightarrow> string \<Rightarrow> string res" where
  "decrypt_path_name S key s =
     (if \<not> starts_with PATH_NAME_PREFIX s then Inl PathNameEncryptionError
      else (case b64_decode (drop (length PATH_NAME_PREFIX) s) of
          Inl _ \<Rightarrow> Inl PathNameEncryptionError
        | Inr blob \<Rightarrow> (case siv_decrypt S key blob of
            None \<Rightarrow> Inl PathNameEncryptionError | Some plain \<Rightarrow> utf8_decode plain)))"

section \<open>The header reads back\<close>

lemma struct_pack_ok: "0 \<le> x \<Longrightarrow> x < 256 ^ n \<Longrightarrow> struct_pack_be n x = Inr (be_bytes n (nat x))"
  by (simp add: struct_pack_be_def)

lemma be_value_pack: "0 \<le> x \<Longrightarrow> x < 256 ^ n \<Longrightarrow> int (be_value (be_bytes n (nat x))) = x"
  by (subst be_value_be_bytes) (simp_all add: nat_less_iff)

definition header_packable :: "file_header \<Rightarrow> bool" where
  "header_packable h \<longleftrightarrow> h_version h = HEADER_VERSION \<and> 0 \<le> h_chunk_size h \<and> h_chunk_size h < 256 ^ 4
     \<and> length (h_file_salt h) = FILE_SALT_SIZE"

text \<open>What every reader of the program accepts: the parser's ceiling on the chunk size included.\<close>

definition header_ok :: "file_header \<Rightarrow> bool" where
  "header_ok h \<longleftrightarrow> h_version h = HEADER_VERSION \<and> 0 < h_chunk_size h \<and> h_chunk_size h \<le> 16 * 1024 * 1024
     \<and> length (h_file_salt h) = FILE_SALT_SIZE"

lemma header_ok_packable: "header_ok h \<Longrightarrow> header_packable h"
  by (simp add: header_ok_def header_packable_def)

lemma pack_s_id [simp]: "length bs = n \<Longrightarrow> pack_s n bs = bs"
  by (simp add: pack_s_def)

lemma header_body_ok:
  assumes "header_packable h"
  shows "header_body h = Inr (MAGIC @ be_bytes 2 1 @ be_bytes 2 1 @ be_bytes 4 (nat (h_chunk_size h)) @ h_file_salt h)"
  using assms
  by (cases "h_algorithm h") (simp add: header_packable_def header_body_def struct_pack_ok HEADER_VERSION_def)

text \<open>\<open>HMAC-SHA256\<close> gives 32 bytes; the code keeps 16 of them.\<close>

definition hmac_law :: "hmac \<Rightarrow> bool" where
  "hmac_law mac \<longleftrightarrow> (\<forall>k m. length (mac k m) = 32)"

lemma header_serialize_ok:
  assumes "header_packable h" and "hmac_law mac"
  obtains raw where "header_serialize mac k h = Inr raw" and "length raw = HEADER_SIZE"
    and "take 4 raw = MAGIC" and "header_verify mac (raw @ rest) k = Inr ()"
    and "header_parse (raw @ rest) = (if header_ok h then Inr h else Inl InvalidHeaderError)"
proof -
  let ?body = "MAGIC @ be_bytes 2 1 @ be_bytes 2 1 @ be_bytes 4 (nat (h_chunk_size h)) @ h_file_salt h"
  let ?raw = "?body @ take HEADER_MAC_SIZE (mac k ?body)"
  have len: "length ?body = BODY_SIZE" and maclen: "\<And>m. length (mac k m) = 32"
    using assms by (simp_all add: header_packable_def hmac_law_def BODY_SIZE_def MAGIC_def FILE_SALT_SIZE_def)
  have fields: "take 4 ?body = MAGIC" "take 2 (drop 4 ?body) = be_bytes 2 1" "take 2 (drop 6 ?body) = be_bytes 2 1"
    "take 4 (drop 8 ?body) = be_bytes 4 (nat (h_chunk_size h))" "take 32 (drop 12 ?body) = h_file_salt h"
    using assms(1) by (simp_all add: MAGIC_def header_packable_def FILE_SALT_SIZE_def)
  have body: "take BODY_SIZE (?raw @ rest) = ?body"
    using len by simp
  have size: "length ?raw = HEADER_SIZE"
    using len maclen by (simp add: BODY_SIZE_def HEADER_SIZE_def HEADER_MAC_SIZE_def)
  have one: "int (be_value (be_bytes 2 1)) = 1"
    using be_value_be_bytes [of 1 2] by simp
  have cs: "int (be_value (be_bytes 4 (nat (h_chunk_size h)))) = h_chunk_size h"
    using assms(1) by (intro be_value_pack) (simp_all add: header_packable_def)
  have parse: "header_parse (?raw @ rest) = (if header_ok h then Inr h else Inl InvalidHeaderError)"
    using assms(1) size unfolding header_parse_def Let_def body fields one cs
    by (cases h, cases "h_algorithm h")
       (auto simp: header_packable_def header_ok_def HEADER_VERSION_def algorithm_of_def)
  have verify: "header_verify mac (?raw @ rest) k = Inr ()"
  proof -
    have "drop BODY_SIZE (take HEADER_SIZE (?raw @ rest)) = take HEADER_MAC_SIZE (mac k ?body)"
      using len size by (metis append_eq_conv_conj)
    with size show ?thesis
      unfolding header_verify_def Let_def body by simp
  qed
  have "header_serialize mac k h = Inr ?raw"
    using assms(1) by (simp add: header_serialize_def header_body_ok)
  moreover have "take 4 ?raw = MAGIC" by (simp add: MAGIC_def)
  ultimately show thesis using that size parse verify by blast
qed

section \<open>The laws hold of a concrete primitive\<close>

text \<open>The tag is sixteen zero bytes.\<close>

definition toy_aead :: aead where
  "toy_aead = \<lparr>aead_encrypt = (\<lambda>k n p. p @ replicate 16 0),
     aead_decrypt = (\<lambda>k n c. if 16 \<le> length c then Some (take (length c - 16) c) else None)\<rparr>"

definition toy_siv :: siv where
  "toy_siv = \<lparr>siv_encrypt = (\<lambda>k p. rev p), siv_decrypt = (\<lambda>k c. Some (rev c))\<rparr>"

definition toy_hmac :: hmac where
  "toy_hmac k m = replicate 32 (of_nat (length m))"

lemma toy_aead_law: "aead_law toy_aead"
  by (simp add: aead_law_def toy_aead_def TAG_SIZE_def)

lemma toy_siv_law: "siv_law toy_siv"
  by (simp add: siv_law_def toy_siv_def)

lemma toy_hmac_law: "hmac_law toy_hmac"
  by (simp add: hmac_law_def toy_hmac_def)

text \<open>A header that is written is accepted exactly when its chunk size is within the parser's ceiling:
  the serialised header is 60 bytes with the magic in front, its MAC verifies under the file key, and
  parsing gives the header back, except that a chunk size over 16 MiB, which nothing refuses
  on the way in, makes every later read raise \<open>InvalidHeaderError\<close>.\<close>

lemma header_written_read:
  assumes "header_packable h" and "hmac_law mac"
  shows "\<exists>raw. header_serialize mac k h = Inr raw \<and> length raw = HEADER_SIZE \<and> take 4 raw = MAGIC
    \<and> header_verify mac raw k = Inr ()
    \<and> header_parse raw = (if 0 < h_chunk_size h \<and> h_chunk_size h \<le> 16 * 1024 * 1024
        then Inr h else Inl InvalidHeaderError)"
proof -
  have "header_ok h \<longleftrightarrow> 0 < h_chunk_size h \<and> h_chunk_size h \<le> 16 * 1024 * 1024"
    using assms(1) by (simp add: header_ok_def header_packable_def)
  then show ?thesis
    using header_serialize_ok [OF assms, of k "[]"] by (metis append_Nil2)
qed

section \<open>Chunks read back\<close>

lemma chunk_nonce_ok:
  "0 \<le> i \<Longrightarrow> i < 2 ^ 64 \<Longrightarrow> chunk_nonce salt i = Inr (take 4 salt @ be_bytes 8 (nat i))"
  by (simp add: chunk_nonce_def struct_pack_ok)

definition cipher_ok :: "chunked_cipher \<Rightarrow> bool" where
  "cipher_ok ck \<longleftrightarrow> length (ck_file_key ck) = 32 \<and> 4 \<le> length (ck_file_salt ck) \<and> 0 < ck_chunk_size ck"

lemma new_cipher_ok: "new_cipher key salt n = Inr ck \<Longrightarrow> cipher_ok ck"
  by (auto simp: new_cipher_def cipher_ok_def split: if_splits)

definition enc :: "aead \<Rightarrow> chunked_cipher \<Rightarrow> bytes \<Rightarrow> int \<Rightarrow> bytes" where
  "enc A ck p i = (let nonce = take 4 (ck_file_salt ck) @ be_bytes 8 (nat i)
     in nonce @ aead_encrypt A (ck_file_key ck) nonce p)"

lemma encrypt_chunk_enc:
  "0 \<le> i \<Longrightarrow> i < 2 ^ 64 \<Longrightarrow> int (length p) \<le> ck_chunk_size ck \<Longrightarrow> encrypt_chunk A ck p i = Inr (enc A ck p i)"
  by (simp add: encrypt_chunk_def chunk_nonce_ok enc_def Let_def)

lemma length_enc: "aead_law A \<Longrightarrow> cipher_ok ck \<Longrightarrow> length (enc A ck p i) = length p + CHUNK_OVERHEAD"
  by (simp add: enc_def Let_def aead_law_def cipher_ok_def CHUNK_OVERHEAD_def NONCE_SIZE_def)

lemma nonce_length: "4 \<le> length salt \<Longrightarrow> length (take 4 salt @ be_bytes 8 n) = NONCE_SIZE"
  by (simp add: NONCE_SIZE_def)

lemma be_bytes_inj: "x < 256 ^ n \<Longrightarrow> y < 256 ^ n \<Longrightarrow> be_bytes n x = be_bytes n y \<longleftrightarrow> x = y"
  by (metis be_value_be_bytes)

text \<open>Decrypting at the index a chunk was encrypted at, and at any other.\<close>

lemma decrypt_enc:
  assumes "aead_law A" and "cipher_ok ck" and "0 \<le> i" and "i < 2 ^ 64" and "0 \<le> j" and "j < 2 ^ 64"
  shows "decrypt_chunk A ck (enc A ck p i) j = (if i = j then Inr p else Inl CipherError)"
proof -
  let ?nonce = "\<lambda>i. take 4 (ck_file_salt ck) @ be_bytes 8 (nat i)"
  have len: "length (?nonce i) = NONCE_SIZE"
    using assms(2) by (intro nonce_length) (simp add: cipher_ok_def)
  have "?nonce i = ?nonce j \<longleftrightarrow> i = j"
    using assms(3-6) by (simp add: be_bytes_inj eq_nat_nat_iff)
  moreover have "take NONCE_SIZE (enc A ck p i) = ?nonce i"
    and "drop NONCE_SIZE (enc A ck p i) = aead_encrypt A (ck_file_key ck) (?nonce i) p"
    using len by (simp_all add: enc_def Let_def)
  moreover have "CHUNK_OVERHEAD \<le> length (enc A ck p i)"
    using length_enc [OF assms(1,2)] by simp
  ultimately show ?thesis
    using assms(1,5,6) by (simp add: decrypt_chunk_def Let_def chunk_nonce_ok aead_law_def)
qed

text \<open>A chunk decrypts at its own index and nowhere else: what \<open>encrypt_chunk\<close> writes for one index is the
  plaintext at that index, and \<open>decrypt_chunk\<close> raises \<open>CipherError\<close> when it is moved to another one.\<close>

lemma chunk_bound_to_index:
  assumes "aead_law A" and "cipher_ok ck" and "int (length p) \<le> ck_chunk_size ck"
    and "0 \<le> i" and "i < 2 ^ 64" and "0 \<le> j" and "j < 2 ^ 64"
  shows "rbind (encrypt_chunk A ck p i) (\<lambda>blob. decrypt_chunk A ck blob j) = (if i = j then Inr p else Inl CipherError)"
  using assms by (simp add: encrypt_chunk_enc decrypt_enc)

section \<open>Sizes\<close>

lemma div_mod_chunks:
  assumes "0 < (c :: int)"
  shows "n = (n div c) * c + n mod c" and "0 \<le> n mod c" and "n mod c < c"
  using assms by (simp_all add: div_mult_mod_eq)

lemma overhead_pos: "0 < int CHUNK_OVERHEAD"
  by (simp add: CHUNK_OVERHEAD_def NONCE_SIZE_def)

text \<open>The number of ciphertext bytes of \<open>n\<close> plaintext bytes, in full chunks and a tail.\<close>

definition cipher_len :: "int \<Rightarrow> int \<Rightarrow> int" where
  "cipher_len n c = (n div c) * (c + int CHUNK_OVERHEAD) + (if n mod c = 0 then 0 else n mod c + int CHUNK_OVERHEAD)"

lemma cipher_len_overhead:
  assumes "0 < c"
  shows "cipher_len n c = n + (n div c + (if n mod c \<noteq> 0 then 1 else 0)) * int CHUNK_OVERHEAD"
proof -
  have "n = c * (n div c) + n mod c" by simp
  then have "n + n div c * int CHUNK_OVERHEAD = n div c * (c + int CHUNK_OVERHEAD) + n mod c"
    by (simp only: algebra_simps)
  then show ?thesis by (simp add: cipher_len_def distrib_right)
qed

lemma ciphertext_size_cipher_len:
  assumes "0 < c" and "0 \<le> n"
  shows "ciphertext_size_for_plaintext n c = Inr (cipher_len n c)"
  using assms by (auto simp: ciphertext_size_for_plaintext_def Let_def cipher_len_overhead)

lemma cipher_len_ge: "0 < c \<Longrightarrow> 0 \<le> n \<Longrightarrow> n \<le> cipher_len n c"
  by (simp add: cipher_len_overhead pos_imp_zdiv_nonneg_iff)

lemma plaintext_size_inverts:
  assumes "0 < c" and "0 \<le> n"
  shows "plaintext_size_from_ciphertext (int HEADER_SIZE + cipher_len n c) c = Inr n"
proof (cases "n = 0")
  case True
  with assms show ?thesis by (simp add: cipher_len_def plaintext_size_from_ciphertext_def)
next
  case False
  let ?s = "c + int CHUNK_OVERHEAD"
  let ?t = "if n mod c = 0 then 0 else n mod c + int CHUNK_OVERHEAD"
  have t: "0 \<le> ?t" "?t < ?s"
    using assms overhead_pos div_mod_chunks [OF assms(1), of n] by auto
  have len: "cipher_len n c = ?t + (n div c) * ?s" by (simp add: cipher_len_def)
  have "cipher_len n c div ?s = n div c" and "cipher_len n c mod ?s = ?t"
    unfolding len using t by simp_all
  moreover have "0 < cipher_len n c"
    using assms False cipher_len_ge [of c n] by simp
  moreover have "n = (n div c) * c + n mod c" and "0 \<le> n mod c"
    using div_mod_chunks [OF assms(1), of n] by auto
  ultimately show ?thesis
    by (auto simp: plaintext_size_from_ciphertext_def Let_def)
qed

text \<open>The declared size of an encrypted upload determines the size of the plaintext: for a positive chunk size,
  \<open>_plaintext_size_from_ciphertext\<close> inverts \<open>encrypted_size_for\<close> on every plaintext size, the empty file and
  the sizes that end on a chunk boundary included.\<close>

lemma encrypted_size_roundtrip:
  assumes "0 < chunk_size" and "0 \<le> n"
  shows "rbind (encrypted_size_for n chunk_size) (\<lambda>csize. plaintext_size_from_ciphertext csize chunk_size) = Inr n"
  using assms by (simp add: encrypted_size_for_def ciphertext_size_cipher_len plaintext_size_inverts)

section \<open>Names read back\<close>

lemma unat_byte: "m < 256 \<Longrightarrow> unat (of_nat m :: 8 word) = m"
  by (simp add: unat_of_nat)

lemma utf8_decode_pair:
  fixes n :: nat
  assumes "\<not> n < 128" and "n < 256"
  shows "utf8_decode (of_nat (192 + n div 64) # of_nat (128 + n mod 64) # bs)
    = rbind (utf8_decode bs) (\<lambda>s. Inr (char_of n # s))"
proof -
  have "2 \<le> n div 64" and "n div 64 < 4"
    using assms by (simp_all add: less_eq_div_iff_mult_less_eq div_less_iff_less_mult)
  then have hi: "n div 64 = 2 \<or> n div 64 = 3" by linarith
  have lo: "n mod 64 < 64" by simp
  have b: "unat (of_nat (192 + n div 64) :: 8 word) = 192 + n div 64"
    using hi by (intro unat_byte) auto
  have b': "unat (of_nat (128 + n mod 64) :: 8 word) = 128 + n mod 64"
    using lo by (intro unat_byte) simp
  have "192 + n div 64 - 192 = n div 64" "128 + n mod 64 - 128 = n mod 64"
    and "n div 64 * 64 + n mod 64 = n" by simp_all
  moreover have "192 + n div 64 = 194 \<or> 192 + n div 64 = 195" "\<not> 192 + n div 64 < 128"
    "128 \<le> 128 + n mod 64" "128 + n mod 64 < 192"
    using hi lo by auto
  ultimately show ?thesis
    unfolding utf8_decode.simps Let_def b b' list.case by simp
qed

lemma utf8_roundtrip: "utf8_decode (utf8_encode s) = Inr s"
proof (induction s)
  case (Cons c cs)
  show ?case
  proof (cases "(of_char c :: nat) < 128")
    case True
    with Cons show ?thesis by (simp add: unat_of_nat)
  next
    case False
    then show ?thesis
      using Cons utf8_decode_pair [OF False nat_of_char_less_256] by (simp add: Let_def del: utf8_decode.simps of_nat_add)
  qed
qed simp

lemma starts_with_append [simp]: "starts_with p (p @ s)"
  by (simp add: starts_with_def)

lemma name_roundtrip:
  assumes "aead_law A" and "length nonce = NAME_NONCE_SIZE"
  shows "decrypt_name A key (encrypt_name A key nonce name) = Inr name"
proof -
  let ?ct = "aead_encrypt A key nonce (utf8_encode name)"
  have "length ?ct = length (utf8_encode name) + TAG_SIZE" and "aead_decrypt A key nonce ?ct = Some (utf8_encode name)"
    using assms(1) by (simp_all add: aead_law_def)
  then show ?thesis
    using assms(2)
    by (simp add: encrypt_name_def decrypt_name_def b64_roundtrip utf8_roundtrip NAME_TAG_SIZE_def TAG_SIZE_def)
qed

lemma path_name_roundtrip:
  "siv_law S \<Longrightarrow> decrypt_path_name S key (encrypt_path_name S key name) = Inr name"
  by (simp add: encrypt_path_name_def decrypt_path_name_def b64_roundtrip utf8_roundtrip siv_law_def)

lemma names_do_not_mix:
  "decrypt_name A key (encrypt_path_name S key' name) = Inl NameEncryptionError"
  "decrypt_path_name S key' (encrypt_name A key nonce name) = Inl PathNameEncryptionError"
  by (simp_all add: decrypt_name_def decrypt_path_name_def encrypt_path_name_def encrypt_name_def starts_with_def
      NAME_PREFIX_def PATH_NAME_PREFIX_def)

text \<open>Name encryption is lossless and the two schemes never mix: under its key an encrypted
  document name decrypts to the name whatever its random nonce, a deterministic path name decrypts to the
  name, and neither decrypter takes the other's text for its own.\<close>

lemma encrypted_names_roundtrip:
  assumes "aead_law A" and "siv_law S" and "length nonce = NAME_NONCE_SIZE"
  shows "decrypt_name A key (encrypt_name A key nonce name) = Inr name
    \<and> decrypt_path_name S key' (encrypt_path_name S key' name) = Inr name
    \<and> decrypt_name A key (encrypt_path_name S key' name) = Inl NameEncryptionError
    \<and> decrypt_path_name S key' (encrypt_name A key nonce name) = Inl PathNameEncryptionError"
  by (intro conjI name_roundtrip path_name_roundtrip names_do_not_mix assms)

end
