(* ===== verification/UploadMessages.thy ===== *)
theory UploadMessages
  imports Streams Stores
begin

text \<open>
  The messages an uploader reads (\<open>src/tgdcfs/reqres.py\<close>, and \<open>FileMessageFromCache\<close> of
  \<open>src/tgdcfs/core/local_cache.py\<close>). \<open>UploadableFileMessage\<close> is an abstract class: its methods are
  the record \<open>message_ops\<close>, one value of it per subclass, so that the uploaders and the
  wrapping messages take the class as an argument the way the code dispatches on it.

  Two contracts are stated over that interface. \<open>part_source\<close> is what the Telegram uploader
  needs of a message that it sizes, opens, reads, closes and advances once per part;
  \<open>whole_source\<close> is what a wrapping message needs of the message inside it, which it opens again
  for every part and reads front to back. The stream message keeps both, the buffer message
  the first one, and the message over a cached version neither.
\<close>

section \<open>The interface\<close>

record 'm message_ops =
  op_name :: "'m \<Rightarrow> string"
  op_set_name :: "string \<Rightarrow> 'm \<Rightarrow> 'm"
  op_get_size :: "'m \<Rightarrow> int"
  op_set_size :: "int \<Rightarrow> 'm \<Rightarrow> 'm"
  op_open :: "'m \<Rightarrow> 'm"
  op_read :: "int \<Rightarrow> 'm \<Rightarrow> bytes res \<times> 'm"
  op_close :: "'m \<Rightarrow> 'm"
  op_next_part :: "int \<Rightarrow> 'm \<Rightarrow> 'm"

text \<open>\<open>self.name or "unnamed"\<close> and \<open>self.size or self._get_size()\<close>\<close>

definition file_name :: "string \<Rightarrow> string" where
  "file_name n = (if n = [] then ''unnamed'' else n)"

definition size_or :: "int \<Rightarrow> int \<Rightarrow> int" where
  "size_or n fallback = (if n = 0 then fallback else n)"

text \<open>The slices \<open>xs[:n]\<close> and \<open>xs[n:]\<close>, which count from the other side when \<open>n\<close> is negative.\<close>

definition slice_to :: "int \<Rightarrow> 'a list \<Rightarrow> 'a list" where
  "slice_to n xs = (if 0 \<le> n then take (nat n) xs else take (length xs - nat (- n)) xs)"

definition slice_from :: "int \<Rightarrow> 'a list \<Rightarrow> 'a list" where
  "slice_from n xs = (if 0 \<le> n then drop (nat n) xs else drop (length xs - nat (- n)) xs)"

section \<open>A message over a buffer\<close>

record buffer_msg =
  bm_name :: string
  bm_size :: int
  bm_offset :: int
  bm_read_size :: int
  bm_buffer :: bytes
  bm_rest :: bytes

definition buffer_new :: "bytes \<Rightarrow> string \<Rightarrow> buffer_msg" where
  "buffer_new buf name =
     \<lparr>bm_name = name, bm_size = int (length buf), bm_offset = 0, bm_read_size = 0, bm_buffer = buf, bm_rest = []\<rparr>"

definition buffer_get_size :: "buffer_msg \<Rightarrow> int" where
  "buffer_get_size m = size_or (bm_size m) (int (length (bm_buffer m)))"

definition buffer_open :: "buffer_msg \<Rightarrow> buffer_msg" where
  "buffer_open m = m\<lparr>bm_rest := slice_from (bm_offset m) (bm_buffer m)\<rparr>"

definition buffer_read :: "int \<Rightarrow> buffer_msg \<Rightarrow> bytes res \<times> buffer_msg" where
  "buffer_read n m = (Inr (slice_to n (bm_rest m)), m\<lparr>bm_rest := slice_from n (bm_rest m)\<rparr>)"

definition buffer_next_part :: "int \<Rightarrow> buffer_msg \<Rightarrow> buffer_msg" where
  "buffer_next_part n m = m\<lparr>bm_offset := bm_offset m + n, bm_read_size := 0\<rparr>"

definition buffer_ops :: "buffer_msg message_ops" where
  "buffer_ops = \<lparr>op_name = bm_name, op_set_name = (\<lambda>s m. m\<lparr>bm_name := s\<rparr>), op_get_size = buffer_get_size,
     op_set_size = (\<lambda>n m. m\<lparr>bm_size := n\<rparr>), op_open = buffer_open, op_read = buffer_read, op_close = (\<lambda>m. m),
     op_next_part = buffer_next_part\<rparr>"

section \<open>A message over a stream\<close>

text \<open>\<open>st_stream\<close> is what is left of the asynchronous iterator.\<close>

record stream_msg =
  st_name :: string
  st_size :: int
  st_offset :: int
  st_read_size :: int
  st_stream :: stream
  st_buffer :: bytes

definition stream_new :: "stream \<Rightarrow> int \<Rightarrow> string \<Rightarrow> stream_msg" where
  "stream_new s n name =
     \<lparr>st_name = name, st_size = n, st_offset = 0, st_read_size = 0, st_stream = s, st_buffer = []\<rparr>"

definition stream_get_size :: "stream_msg \<Rightarrow> int" where
  "stream_get_size m = size_or (st_size m) 0"

text \<open>The loop over \<open>anext\<close>: the buffer once it holds \<open>want\<close> bytes, or the exception.\<close>

fun pull :: "int \<Rightarrow> bytes \<Rightarrow> bytes list \<Rightarrow> exn option \<Rightarrow> exn option \<times> bytes \<times> bytes list" where
  "pull want buf [] fin =
     (if int (length buf) < want
      then (Some (case fin of None \<Rightarrow> StopAsyncIteration | Some e \<Rightarrow> e), buf, []) else (None, buf, []))"
| "pull want buf (c # cs) fin =
     (if int (length buf) < want then pull want (buf @ c) cs fin else (None, buf, c # cs))"

definition stream_read :: "int \<Rightarrow> stream_msg \<Rightarrow> bytes res \<times> stream_msg" where
  "stream_read n m =
     (let want = min n (stream_get_size m - st_read_size m);
          (failure, buf, cs) = pull want (st_buffer m) (fst (st_stream m)) (snd (st_stream m));
          m' = m\<lparr>st_stream := (cs, snd (st_stream m))\<rparr>
      in case failure of
           Some e \<Rightarrow> (Inl e, m'\<lparr>st_buffer := buf\<rparr>)
         | None \<Rightarrow> (Inr (slice_to want buf),
             m'\<lparr>st_buffer := slice_from want buf, st_read_size := st_read_size m + want\<rparr>))"

definition stream_next_part :: "int \<Rightarrow> stream_msg \<Rightarrow> stream_msg" where
  "stream_next_part n m = m\<lparr>st_offset := st_offset m + n, st_read_size := 0\<rparr>"

definition stream_ops :: "stream_msg message_ops" where
  "stream_ops = \<lparr>op_name = st_name, op_set_name = (\<lambda>s m. m\<lparr>st_name := s\<rparr>), op_get_size = stream_get_size,
     op_set_size = (\<lambda>n m. m\<lparr>st_size := n\<rparr>), op_open = (\<lambda>m. m), op_read = stream_read, op_close = (\<lambda>m. m),
     op_next_part = stream_next_part\<rparr>"

section \<open>A message over a file\<close>

text \<open>\<open>pm_fd\<close> is the open file's remaining bytes, \<open>None\<close> once it is closed.\<close>

record path_msg =
  pm_name :: string
  pm_size :: int
  pm_offset :: int
  pm_read_size :: int
  pm_file :: bytes
  pm_fd :: "bytes option"

definition path_new :: "bytes \<Rightarrow> string \<Rightarrow> path_msg" where
  "path_new content name =
     \<lparr>pm_name = name, pm_size = int (length content), pm_offset = 0, pm_read_size = 0, pm_file = content,
      pm_fd = Some content\<rparr>"

definition path_get_size :: "path_msg \<Rightarrow> int" where
  "path_get_size m = size_or (pm_size m) (int (length (pm_file m)))"

text \<open>\<open>fd.read\<close> of a closed file is a \<open>ValueError\<close>; of a negative length, all of it.\<close>

definition path_read :: "int \<Rightarrow> path_msg \<Rightarrow> bytes res \<times> path_msg" where
  "path_read n m = (case pm_fd m of
     None \<Rightarrow> (Inl ValueError, m)
   | Some rest \<Rightarrow> let k = (if n < 0 then length rest else nat n) in
       (Inr (take k rest), m\<lparr>pm_fd := Some (drop k rest)\<rparr>))"

definition path_close :: "path_msg \<Rightarrow> path_msg" where
  "path_close m = m\<lparr>pm_fd := None\<rparr>"

definition path_next_part :: "int \<Rightarrow> path_msg \<Rightarrow> path_msg" where
  "path_next_part n m = m\<lparr>pm_offset := pm_offset m + n, pm_read_size := 0\<rparr>"

definition path_ops :: "path_msg message_ops" where
  "path_ops = \<lparr>op_name = pm_name, op_set_name = (\<lambda>s m. m\<lparr>pm_name := s\<rparr>), op_get_size = path_get_size,
     op_set_size = (\<lambda>n m. m\<lparr>pm_size := n\<rparr>), op_open = (\<lambda>m. m), op_read = path_read, op_close = path_close,
     op_next_part = path_next_part\<rparr>"

section \<open>A message over a cached version\<close>

text \<open>\<open>cm_source\<close> is \<open>VersionBytes\<close>: \<open>read_bytes begin end\<close> of a complete cached version.\<close>

record cached_bytes =
  cb_size :: int
  cb_read :: "int \<Rightarrow> int \<Rightarrow> bytes res"

record cache_msg =
  cm_name :: string
  cm_size :: int
  cm_offset :: int
  cm_read_size :: int
  cm_source :: cached_bytes
  cm_start :: int

definition cache_msg_new :: "cached_bytes \<Rightarrow> string \<Rightarrow> int \<Rightarrow> int option \<Rightarrow> cache_msg" where
  "cache_msg_new src name start n =
     \<lparr>cm_name = name, cm_size = (case n of None \<Rightarrow> cb_size src - start | Some k \<Rightarrow> k), cm_offset = 0,
      cm_read_size = 0, cm_source = src, cm_start = start\<rparr>"

definition cache_msg_get_size :: "cache_msg \<Rightarrow> int" where
  "cache_msg_get_size m = size_or (cm_size m) 0"

definition cache_msg_part :: "int \<Rightarrow> int \<Rightarrow> cache_msg \<Rightarrow> cache_msg" where
  "cache_msg_part offset n m = cache_msg_new (cm_source m) (cm_name m) (cm_start m + offset) (Some n)"

definition cache_msg_read :: "int \<Rightarrow> cache_msg \<Rightarrow> bytes res \<times> cache_msg" where
  "cache_msg_read n m =
     (let position = cm_start m + cm_offset m + cm_read_size m;
          stop = min (position + n) (cm_start m + cache_msg_get_size m) - 1
      in if stop < position then (Inr [], m)
         else (case cb_read (cm_source m) position stop of
             Inl e \<Rightarrow> (Inl e, m)
           | Inr d \<Rightarrow> (Inr d, m\<lparr>cm_read_size := cm_read_size m + int (length d)\<rparr>)))"

definition cache_msg_next_part :: "int \<Rightarrow> cache_msg \<Rightarrow> cache_msg" where
  "cache_msg_next_part n m = m\<lparr>cm_offset := cm_offset m + n, cm_read_size := 0\<rparr>"

definition cache_msg_ops :: "cache_msg message_ops" where
  "cache_msg_ops = \<lparr>op_name = cm_name, op_set_name = (\<lambda>s m. m\<lparr>cm_name := s\<rparr>), op_get_size = cache_msg_get_size,
     op_set_size = (\<lambda>n m. m\<lparr>cm_size := n\<rparr>), op_open = (\<lambda>m. m), op_read = cache_msg_read, op_close = (\<lambda>m. m),
     op_next_part = cache_msg_next_part\<rparr>"

section \<open>The contracts\<close>

text \<open>
  \<open>between R m\<close>: the message is between two parts and the bytes \<open>R\<close> are still to come;
  \<open>sized R s m\<close>: it has been sized for a part of \<open>s\<close> bytes; \<open>inside R k s m\<close>: it is open and \<open>k\<close> bytes
  of the part are still to be read.
\<close>

locale message_reader =
  fixes ops :: "'m message_ops"
    and inside :: "bytes \<Rightarrow> int \<Rightarrow> int \<Rightarrow> 'm \<Rightarrow> bool"
  assumes inside_read: "inside R k s m \<Longrightarrow> 0 < n \<Longrightarrow> n \<le> k \<Longrightarrow>
      fst (op_read ops n m) = Inr (take (nat n) R) \<and> inside (drop (nat n) R) (k - n) s (snd (op_read ops n m))"
    and inside_room: "inside R k s m \<Longrightarrow> k \<le> int (length R)"

locale part_source = message_reader +
  fixes between :: "bytes \<Rightarrow> 'm \<Rightarrow> bool"
    and sized :: "bytes \<Rightarrow> int \<Rightarrow> 'm \<Rightarrow> bool"
  assumes sized_set_size:
      "between R m \<Longrightarrow> 0 < s \<Longrightarrow> s \<le> int (length R) \<Longrightarrow> sized R s (op_set_size ops s (op_set_name ops name m))"
    and sized_size: "sized R s m \<Longrightarrow> op_get_size ops m = s"
    and inside_open: "sized R s m \<Longrightarrow> inside R s s (op_open ops m)"
    and between_next: "inside R 0 s m \<Longrightarrow> between R (op_next_part ops s (op_close ops m))"

text \<open>
  \<open>holds R m\<close>: the bytes \<open>R\<close> are still to be read. A read may return less than it was asked
  for, but not nothing while bytes remain.
\<close>

locale whole_source =
  fixes ops :: "'m message_ops"
    and holds :: "bytes \<Rightarrow> 'm \<Rightarrow> bool"
  assumes holds_open: "holds R m \<Longrightarrow> holds R (op_open ops m)"
    and holds_close: "holds R m \<Longrightarrow> holds R (op_close ops m)"
    and open_size: "holds R m \<Longrightarrow> op_get_size ops (op_open ops m) = op_get_size ops m"
    and close_size: "holds R m \<Longrightarrow> op_get_size ops (op_close ops m) = op_get_size ops m"
    and holds_read: "holds R m \<Longrightarrow> 0 < n \<Longrightarrow> n \<le> int (length R) \<Longrightarrow>
      \<exists>k. 0 < k \<and> k \<le> nat n \<and> fst (op_read ops n m) = Inr (take k R)
        \<and> holds (drop k R) (snd (op_read ops n m))
        \<and> op_get_size ops (snd (op_read ops n m)) = op_get_size ops m"

text \<open>A sequence of reads and the bytes they return together.\<close>

fun read_all :: "'m message_ops \<Rightarrow> int list \<Rightarrow> 'm \<Rightarrow> bytes res \<times> 'm" where
  "read_all ops [] m = (Inr [], m)"
| "read_all ops (n # ns) m = (case op_read ops n m of
     (Inl e, m') \<Rightarrow> (Inl e, m')
   | (Inr d, m') \<Rightarrow> (case read_all ops ns m' of (Inl e, m'') \<Rightarrow> (Inl e, m'') | (Inr ds, m'') \<Rightarrow> (Inr (d @ ds), m'')))"

context message_reader
begin

lemma read_all_exact:
  assumes "inside R k s m" and "\<forall>n \<in> set ns. 0 < n" and "sum_list ns \<le> k"
  shows "fst (read_all ops ns m) = Inr (take (nat (sum_list ns)) R)
    \<and> inside (drop (nat (sum_list ns)) R) (k - sum_list ns) s (snd (read_all ops ns m))"
  using assms
proof (induction ns arbitrary: R k m)
  case (Cons n ns)
  have pos: "0 \<le> sum_list ns" using Cons.prems(2) by (intro sum_list_int_nonneg) auto
  obtain m' where r: "op_read ops n m = (Inr (take (nat n) R), m')" "inside (drop (nat n) R) (k - n) s m'"
    using inside_read [OF Cons.prems(1), of n] Cons.prems(2,3) pos by (cases "op_read ops n m") auto
  have split: "nat (n + sum_list ns) = nat n + nat (sum_list ns)" using Cons.prems(2) pos by (simp add: nat_add_distrib)
  show ?case
    using Cons.IH [OF r(2)] Cons.prems(2,3) r(1)
    by (cases "read_all ops ns m'") (auto simp: split take_add add.commute diff_diff_eq)
qed simp

end

section \<open>The stream message\<close>

lemma slice_take_drop [simp]: "0 \<le> n \<Longrightarrow> slice_to n xs = take (nat n) xs" "0 \<le> n \<Longrightarrow> slice_from n xs = drop (nat n) xs"
  by (simp_all add: slice_to_def slice_from_def)

lemma pull_enough:
  assumes "want \<le> int (length (buf @ concat cs))"
  obtains buf' cs' where "pull want buf cs fin = (None, buf', cs')" and "buf' @ concat cs' = buf @ concat cs"
    and "want \<le> int (length buf')"
proof -
  have "\<exists>buf' cs'. pull want buf cs fin = (None, buf', cs') \<and> buf' @ concat cs' = buf @ concat cs
      \<and> want \<le> int (length buf')"
    using assms
  proof (induction cs arbitrary: buf)
    case (Cons c cs)
    then show ?case
      using Cons.IH [of "buf @ c"] by (cases "int (length buf) < want") auto
  qed simp
  with that show thesis by blast
qed

text \<open>The bytes the message has pulled or can still pull.\<close>

definition stream_ahead :: "stream_msg \<Rightarrow> bytes" where
  "stream_ahead m = st_buffer m @ concat (fst (st_stream m))"

lemma stream_read_exact:
  assumes "prefix R (stream_ahead m)" and "0 < n" and "n \<le> int (length R)"
    and "n \<le> stream_get_size m - st_read_size m"
  shows "fst (stream_read n m) = Inr (take (nat n) R)"
    and "stream_ahead (snd (stream_read n m)) = drop (nat n) (stream_ahead m)"
    and "st_read_size (snd (stream_read n m)) = st_read_size m + n"
    and "st_size (snd (stream_read n m)) = st_size m"
proof -
  have len: "n \<le> int (length (stream_ahead m))"
    using assms(1,3) prefix_length_le by fastforce
  obtain buf' cs' where p: "pull n (st_buffer m) (fst (st_stream m)) (snd (st_stream m)) = (None, buf', cs')"
      "buf' @ concat cs' = stream_ahead m" "n \<le> int (length buf')"
    using pull_enough [of n "st_buffer m" "fst (st_stream m)" "snd (st_stream m)"] len
    unfolding stream_ahead_def by metis
  have n: "min n (stream_get_size m - st_read_size m) = n" using assms(4) by simp
  have "take (nat n) buf' = take (nat n) R"
  proof -
    have "take (nat n) (buf' @ concat cs') = take (nat n) buf'" using p(3) by simp
    moreover have "take (nat n) (stream_ahead m) = take (nat n) R"
      using assms(1,3) by (auto simp: prefix_def)
    ultimately show ?thesis using p(2) by simp
  qed
  then show "fst (stream_read n m) = Inr (take (nat n) R)"
    using assms(2) p n by (simp add: stream_read_def)
  have "drop (nat n) buf' @ concat cs' = drop (nat n) (stream_ahead m)"
    using p(2) [symmetric] p(3) by simp
  then show "stream_ahead (snd (stream_read n m)) = drop (nat n) (stream_ahead m)"
    using assms(2) p n by (simp add: stream_read_def stream_ahead_def)
  show "st_read_size (snd (stream_read n m)) = st_read_size m + n" "st_size (snd (stream_read n m)) = st_size m"
    using p n by (simp_all add: stream_read_def)
qed

lemma prefix_drop: "prefix xs ys \<Longrightarrow> prefix (drop n xs) (drop n ys)"
  by (auto simp: prefix_def)

definition stream_between :: "bytes \<Rightarrow> stream_msg \<Rightarrow> bool" where
  "stream_between R m \<longleftrightarrow> prefix R (stream_ahead m) \<and> st_read_size m = 0"

definition stream_sized :: "bytes \<Rightarrow> int \<Rightarrow> stream_msg \<Rightarrow> bool" where
  "stream_sized R s m \<longleftrightarrow> stream_between R m \<and> st_size m = s \<and> 0 < s \<and> s \<le> int (length R)"

definition stream_inside :: "bytes \<Rightarrow> int \<Rightarrow> int \<Rightarrow> stream_msg \<Rightarrow> bool" where
  "stream_inside R k s m \<longleftrightarrow> prefix R (stream_ahead m) \<and> st_size m = s \<and> st_read_size m = s - k
     \<and> 0 < s \<and> 0 \<le> k \<and> k \<le> int (length R)"

definition stream_holds :: "bytes \<Rightarrow> stream_msg \<Rightarrow> bool" where
  "stream_holds R m \<longleftrightarrow> prefix R (stream_ahead m) \<and> stream_get_size m - st_read_size m = int (length R)"

interpretation stream_part: part_source stream_ops stream_inside stream_between stream_sized
proof
  fix R m n k s
  assume a: "stream_inside R k s m" "0 < n" "n \<le> k"
  then have pre: "prefix R (stream_ahead m)" "n \<le> int (length R)" "n \<le> stream_get_size m - st_read_size m"
    by (auto simp: stream_inside_def stream_get_size_def size_or_def)
  show "fst (op_read stream_ops n m) = Inr (take (nat n) R)
      \<and> stream_inside (drop (nat n) R) (k - n) s (snd (op_read stream_ops n m))"
    using a stream_read_exact [OF pre(1) a(2) pre(2,3)]
    by (auto simp: stream_ops_def stream_inside_def prefix_drop)
qed (auto simp: stream_ops_def stream_between_def stream_sized_def stream_inside_def stream_get_size_def size_or_def
      stream_next_part_def stream_ahead_def)

interpretation stream_whole: whole_source stream_ops stream_holds
proof
  fix R m n
  assume a: "stream_holds R m" "0 < n" "n \<le> int (length R)"
  then have pre: "prefix R (stream_ahead m)" "n \<le> stream_get_size m - st_read_size m"
    by (auto simp: stream_holds_def)
  note rd = stream_read_exact [OF pre(1) a(2,3) pre(2)]
  show "\<exists>k>0. k \<le> nat n \<and> fst (op_read stream_ops n m) = Inr (take k R)
      \<and> stream_holds (drop k R) (snd (op_read stream_ops n m))
      \<and> op_get_size stream_ops (snd (op_read stream_ops n m)) = op_get_size stream_ops m"
    using a rd by (intro exI [of _ "nat n"])
      (auto simp: stream_ops_def stream_holds_def stream_get_size_def prefix_drop)
qed (auto simp: stream_ops_def)

lemma stream_new_between: "n \<le> int (length (concat cs)) \<Longrightarrow> stream_between (take (nat n) (concat cs)) (stream_new (cs, e) n name)"
  by (simp add: stream_between_def stream_ahead_def stream_new_def take_is_prefix)

lemma stream_new_holds:
  "0 \<le> n \<Longrightarrow> n \<le> int (length (concat cs)) \<Longrightarrow> stream_holds (take (nat n) (concat cs)) (stream_new (cs, e) n name)"
  by (simp add: stream_holds_def stream_ahead_def stream_new_def take_is_prefix stream_get_size_def size_or_def)

section \<open>The buffer message\<close>

definition buffer_between :: "bytes \<Rightarrow> buffer_msg \<Rightarrow> bool" where
  "buffer_between R m \<longleftrightarrow> 0 \<le> bm_offset m \<and> drop (nat (bm_offset m)) (bm_buffer m) = R"

definition buffer_sized :: "bytes \<Rightarrow> int \<Rightarrow> buffer_msg \<Rightarrow> bool" where
  "buffer_sized R s m \<longleftrightarrow> buffer_between R m \<and> bm_size m = s \<and> 0 < s \<and> s \<le> int (length R)"

definition buffer_inside :: "bytes \<Rightarrow> int \<Rightarrow> int \<Rightarrow> buffer_msg \<Rightarrow> bool" where
  "buffer_inside R k s m \<longleftrightarrow> bm_rest m = R \<and> 0 \<le> bm_offset m \<and> 0 \<le> k \<and> k \<le> s
     \<and> drop (nat (bm_offset m + s - k)) (bm_buffer m) = R \<and> k \<le> int (length R)"

interpretation buffer_part: part_source buffer_ops buffer_inside buffer_between buffer_sized
proof
  fix R m n k s
  assume a: "buffer_inside R k s m" "0 < n" "n \<le> k"
  then have "nat (bm_offset m + s - (k - n)) = nat n + nat (bm_offset m + s - k)"
    by (auto simp: buffer_inside_def)
  then have "drop (nat (bm_offset m + s - (k - n))) (bm_buffer m) = drop (nat n) R"
    using a by (auto simp: buffer_inside_def simp flip: drop_drop)
  with a show "fst (op_read buffer_ops n m) = Inr (take (nat n) R)
      \<and> buffer_inside (drop (nat n) R) (k - n) s (snd (op_read buffer_ops n m))"
    by (auto simp: buffer_ops_def buffer_inside_def buffer_read_def)
qed (auto simp: buffer_ops_def buffer_between_def buffer_sized_def buffer_inside_def buffer_get_size_def size_or_def
      buffer_next_part_def buffer_open_def)

lemma buffer_new_between: "buffer_between buf (buffer_new buf name)"
  by (simp add: buffer_between_def buffer_new_def)

section \<open>The message over a cached version\<close>

text \<open>
  Read within one part it is exact, which is all the uploads of its independent parts need.
  It is not a \<open>part_source\<close>: its position counts the parts already sent, while the bound of
  a read counts from the start of the message, so after \<open>next_part\<close> a part that is no longer than the one
  before it reads as empty.
\<close>

definition cached_data :: "bytes \<Rightarrow> cached_bytes \<Rightarrow> bool" where
  "cached_data d src \<longleftrightarrow> cb_size src = int (length d)
     \<and> (\<forall>b e. 0 \<le> b \<longrightarrow> b \<le> e \<longrightarrow> e < int (length d) \<longrightarrow> cb_read src b e = Inr (subrange d b e))"

definition cache_inside :: "bytes \<Rightarrow> int \<Rightarrow> int \<Rightarrow> cache_msg \<Rightarrow> bool" where
  "cache_inside R k s m \<longleftrightarrow> (\<exists>d. cached_data d (cm_source m) \<and> R = subrange d (cm_start m + s - k) (int (length d) - 1)
     \<and> 0 \<le> cm_start m \<and> cm_start m + s \<le> int (length d) \<and> cm_size m = s \<and> 0 < s \<and> cm_offset m = 0
     \<and> cm_read_size m = s - k \<and> 0 \<le> k \<and> k \<le> s)"

interpretation cached_reader: message_reader cache_msg_ops cache_inside
proof
  fix R m n k s
  assume a: "cache_inside R k s m" "0 < n" "n \<le> k"
  then obtain d where d: "cached_data d (cm_source m)" "R = subrange d (cm_start m + s - k) (int (length d) - 1)"
      "0 \<le> cm_start m" "cm_start m + s \<le> int (length d)" "cm_size m = s" "0 < s" "cm_offset m = 0" "cm_read_size m = s - k"
      "0 \<le> k" "k \<le> s"
    by (auto simp: cache_inside_def)
  let ?p = "cm_start m + s - k"
  have rd: "cb_read (cm_source m) ?p (?p + n - 1) = Inr (subrange d ?p (?p + n - 1))"
    using d a(2,3) by (simp add: cached_data_def)
  have tk: "take (nat n) R = subrange d ?p (?p + n - 1)"
    using d a(2,3) by (simp add: subrange_def min_def)
  have len: "int (length (subrange d ?p (?p + n - 1))) = n"
    using d a(2,3) by (simp add: length_subrange)
  have dr: "drop (nat n) R = subrange d (?p + n) (int (length d) - 1)"
    using d a(2,3) by (simp add: drop_subrange)
  have pos: "cm_start m + cm_offset m + cm_read_size m = ?p" "\<not> ?p + n - 1 < ?p"
    and stop: "min (?p + n) (cm_start m + cache_msg_get_size m) - 1 = ?p + n - 1"
    using d a(2,3) by (simp_all add: cache_msg_get_size_def size_or_def)
  have "cache_msg_read n m = (Inr (take (nat n) R), m\<lparr>cm_read_size := s - (k - n)\<rparr>)"
    unfolding tk cache_msg_read_def Let_def pos(1) stop if_not_P [OF pos(2)] rd using len d(8) by simp
  then show "fst (op_read cache_msg_ops n m) = Inr (take (nat n) R)
      \<and> cache_inside (drop (nat n) R) (k - n) s (snd (op_read cache_msg_ops n m))"
    using d a(2,3) dr by (auto simp: cache_msg_ops_def cache_inside_def algebra_simps)
next
  fix R m k s
  assume "cache_inside R k s m"
  then show "k \<le> int (length R)"
    by (auto simp: cache_inside_def length_subrange)
qed

lemma cache_part_inside:
  assumes "cached_data d src" and "0 \<le> start" and "0 < s" and "0 \<le> off" and "start + off + s \<le> int (length d)"
  shows "cache_inside (subrange d (start + off) (int (length d) - 1)) s s
    (cache_msg_part off s (cache_msg_new src name start sz))"
  unfolding cache_inside_def
  using assms by (intro exI [of _ d]) (auto simp: cache_msg_part_def cache_msg_new_def)

end
