(* ===== verification/CryptoStream.thy ===== *)
theory CryptoStream
  imports CryptoFormat UploadMessages
begin

text \<open>
  \<open>EncryptingFileMessage\<close> (\<open>src/tgdcfs/crypto/stream.py\<close>): the message that encrypts another one as
  it is read. It buffers between the uploader's reads and its own chunks, so what it must
  get right is that the bytes it hands out, in whatever pieces they are asked for, are the
  header followed by the encrypted chunks of the plaintext (\<open>cipher_from\<close>), over every
  message that keeps the contract \<open>whole_source\<close>.
\<close>

section \<open>The message\<close>

record 'm encrypting =
  em_name :: string
  em_size :: int
  em_offset :: int
  em_read_size :: int
  em_inner :: 'm
  em_cipher :: chunked_cipher
  em_header :: bytes
  em_pending :: bytes
  em_chunk_index :: int
  em_plaintext_read :: int
  em_header_emitted :: bool

definition enc_wrap :: "hmac \<Rightarrow> 'm message_ops \<Rightarrow> 'm \<Rightarrow> bytes \<Rightarrow> file_header \<Rightarrow> 'm encrypting res" where
  "enc_wrap mac ops inner file_key h =
     rbind (new_cipher file_key (h_file_salt h) (h_chunk_size h)) (\<lambda>ck.
     rbind (header_serialize mac file_key h) (\<lambda>raw.
       if length raw \<noteq> HEADER_SIZE then Inl RuntimeError
       else rbind (ciphertext_size_for_plaintext (op_get_size ops inner) (h_chunk_size h)) (\<lambda>c.
         Inr \<lparr>em_name = op_name ops inner, em_size = int HEADER_SIZE + c, em_offset = 0, em_read_size = 0,
           em_inner = inner, em_cipher = ck, em_header = raw, em_pending = [], em_chunk_index = 0,
           em_plaintext_read = 0, em_header_emitted = False\<rparr>)))"

definition enc_open :: "'m message_ops \<Rightarrow> 'm encrypting \<Rightarrow> 'm encrypting" where
  "enc_open ops m =
     (let m' = m\<lparr>em_inner := op_open ops (em_inner m)\<rparr> in
      if em_header_emitted m then m' else m'\<lparr>em_pending := em_header m, em_header_emitted := True\<rparr>)"

definition enc_close :: "'m message_ops \<Rightarrow> 'm encrypting \<Rightarrow> 'm encrypting" where
  "enc_close ops m = m\<lparr>em_inner := op_close ops (em_inner m)\<rparr>"

text \<open>The loop of \<open>_read_plaintext_chunk\<close>; an inner message that ends early ends the chunk.\<close>

function plain_loop :: "'m message_ops \<Rightarrow> int \<Rightarrow> bytes \<Rightarrow> 'm \<Rightarrow> bytes res \<times> 'm" where
  "plain_loop ops want buf m =
     (if want \<le> int (length buf) then (Inr buf, m)
      else case op_read ops (want - int (length buf)) m of
          (Inl e, m') \<Rightarrow> (Inl e, m')
        | (Inr piece, m') \<Rightarrow> if piece = [] then (Inr buf, m') else plain_loop ops want (buf @ piece) m')"
  by pat_completeness auto
termination
  by (relation "measure (\<lambda>(ops, want, buf, m). nat (want - int (length buf)))") auto

definition read_plaintext_chunk :: "'m message_ops \<Rightarrow> 'm encrypting \<Rightarrow> bytes res \<times> 'm encrypting" where
  "read_plaintext_chunk ops m =
     (let remaining = op_get_size ops (em_inner m) - em_plaintext_read m in
      if remaining \<le> 0 then (Inr [], m)
      else case plain_loop ops (min (ck_chunk_size (em_cipher m)) remaining) [] (em_inner m) of
          (Inl e, i) \<Rightarrow> (Inl e, m\<lparr>em_inner := i\<rparr>)
        | (Inr buf, i) \<Rightarrow>
            (Inr buf, m\<lparr>em_inner := i, em_plaintext_read := em_plaintext_read m + int (length buf)\<rparr>))"

lemma encrypt_chunk_nonempty: "encrypt_chunk A ck p i = Inr c \<Longrightarrow> c \<noteq> []"
  by (auto simp: encrypt_chunk_def chunk_nonce_def struct_pack_be_def rbind_Inr_iff split: if_splits
      dest!: arg_cong [where f = length])

text \<open>The loop of \<open>read\<close>: drain what is pending, then refill it with the next encrypted chunk.\<close>

function enc_loop :: "aead \<Rightarrow> 'm message_ops \<Rightarrow> int \<Rightarrow> bytes \<Rightarrow> 'm encrypting \<Rightarrow> bytes res \<times> 'm encrypting" where
  "enc_loop A ops n out m =
     (if n \<le> int (length out) then (Inr out, m)
      else if em_pending m \<noteq> [] then
        let k = min (nat (n - int (length out))) (length (em_pending m)) in
        enc_loop A ops n (out @ take k (em_pending m)) (m\<lparr>em_pending := drop k (em_pending m)\<rparr>)
      else case read_plaintext_chunk ops m of
          (Inl e, m') \<Rightarrow> (Inl e, m')
        | (Inr p, m') \<Rightarrow>
            if p = [] then (Inr out, m')
            else (case encrypt_chunk A (em_cipher m') p (em_chunk_index m') of
                Inl e \<Rightarrow> (Inl e, m')
              | Inr c \<Rightarrow> enc_loop A ops n out (m'\<lparr>em_chunk_index := em_chunk_index m' + 1, em_pending := c\<rparr>)))"
  by pat_completeness auto
termination
  by (relation "measures [\<lambda>(A, ops, n, out, m). nat (n - int (length out)),
        \<lambda>(A, ops, n, out, m). if em_pending m = [] then 1 else 0]")
     (auto dest: encrypt_chunk_nonempty)

definition enc_read :: "aead \<Rightarrow> 'm message_ops \<Rightarrow> int \<Rightarrow> 'm encrypting \<Rightarrow> bytes res \<times> 'm encrypting" where
  "enc_read A ops n m = enc_loop A ops n [] m"

definition enc_next_part :: "int \<Rightarrow> 'm encrypting \<Rightarrow> 'm encrypting" where
  "enc_next_part n m = m\<lparr>em_offset := em_offset m + n, em_read_size := 0\<rparr>"

definition enc_ops :: "aead \<Rightarrow> 'm message_ops \<Rightarrow> 'm encrypting message_ops" where
  "enc_ops A ops = \<lparr>op_name = em_name, op_set_name = (\<lambda>s m. m\<lparr>em_name := s\<rparr>),
     op_get_size = (\<lambda>m. size_or (em_size m) (em_size m)), op_set_size = (\<lambda>n m. m\<lparr>em_size := n\<rparr>), op_open = enc_open ops,
     op_read = enc_read A ops, op_close = enc_close ops, op_next_part = enc_next_part\<rparr>"

section \<open>What it should hand out\<close>

text \<open>The encrypted chunks of a plaintext, numbered from \<open>i\<close>.\<close>

function cipher_from :: "aead \<Rightarrow> chunked_cipher \<Rightarrow> int \<Rightarrow> bytes \<Rightarrow> bytes" where
  "cipher_from A ck i ps =
     (if ps = [] \<or> ck_chunk_size ck \<le> 0 then []
      else enc A ck (take (nat (ck_chunk_size ck)) ps) i @ cipher_from A ck (i + 1) (drop (nat (ck_chunk_size ck)) ps))"
  by pat_completeness auto
termination
  by (relation "measure (\<lambda>(A, ck, i, ps). length ps)") auto

declare plain_loop.simps [simp del] enc_loop.simps [simp del] cipher_from.simps [simp del]

lemma cipher_from_Nil [simp]: "cipher_from A ck i [] = []"
  by (simp add: cipher_from.simps)

lemma cipher_len_zero [simp]: "cipher_len 0 c = 0"
  by (simp add: cipher_len_def)

lemma cipher_len_short: "0 < n \<Longrightarrow> n < c \<Longrightarrow> cipher_len n c = n + int CHUNK_OVERHEAD"
  by (simp add: cipher_len_def)

lemma cipher_len_step:
  assumes "0 < c"
  shows "cipher_len (n + c) c = c + int CHUNK_OVERHEAD + cipher_len n c"
proof -
  have "(n + c) div c = n div c + 1" using assms by (intro div_add_self2) simp
  then show ?thesis by (simp add: cipher_len_def distrib_right)
qed

lemma length_cipher_from:
  assumes "aead_law A" and "cipher_ok ck"
  shows "int (length (cipher_from A ck i ps)) = cipher_len (int (length ps)) (ck_chunk_size ck)"
proof (induction "length ps" arbitrary: i ps rule: less_induct)
  case less
  let ?c = "ck_chunk_size ck" and ?rest = "drop (nat (ck_chunk_size ck)) ps"
  have c: "0 < ?c" using assms(2) by (simp add: cipher_ok_def)
  show ?case
  proof (cases "ps = []")
    case False
    have short: "length ?rest < length ps" using c False by simp
    have "cipher_from A ck i ps = enc A ck (take (nat ?c) ps) i @ cipher_from A ck (i + 1) ?rest"
      using c False by (subst cipher_from.simps) simp
    then have step: "int (length (cipher_from A ck i ps))
        = int (length (take (nat ?c) ps)) + int CHUNK_OVERHEAD + cipher_len (int (length ?rest)) ?c"
      using less [OF short] by (simp only: length_append length_enc [OF assms] of_nat_add)
    show ?thesis
    proof (cases "int (length ps) < ?c")
      case True
      then have "?rest = []" "take (nat ?c) ps = ps" by simp_all
      with step False True cipher_len_short [of "int (length ps)" ?c] show ?thesis by simp
    next
      case False
      then have "int (length ps) = int (length ?rest) + ?c" "int (length (take (nat ?c) ps)) = ?c" using c by auto
      with step cipher_len_step [OF c, of "int (length ?rest)"] show ?thesis by (simp only:)
    qed
  qed simp
qed

section \<open>Over any message that keeps its contract\<close>

text \<open>
  \<open>R\<close> is the plaintext not yet taken from the inner message. The index of the next chunk
  stays below \<open>2 ^ 64\<close>, the range of the nonce's counter.
\<close>

definition enc_state :: "'m message_ops \<Rightarrow> (bytes \<Rightarrow> 'm \<Rightarrow> bool) \<Rightarrow> bytes \<Rightarrow> 'm encrypting \<Rightarrow> bool" where
  "enc_state ops holds R m \<longleftrightarrow> holds R (em_inner m) \<and> cipher_ok (em_cipher m)
     \<and> op_get_size ops (em_inner m) - em_plaintext_read m = int (length R)
     \<and> 0 \<le> em_chunk_index m \<and> em_chunk_index m + int (length R) \<le> 2 ^ 64"

text \<open>The ciphertext still to come, once the header has been queued.\<close>

definition enc_ahead :: "aead \<Rightarrow> bytes \<Rightarrow> 'm encrypting \<Rightarrow> bytes" where
  "enc_ahead A R m = em_pending m @ cipher_from A (em_cipher m) (em_chunk_index m) R"

context whole_source
begin

lemma plain_loop_exact:
  assumes "holds R m" and "int (length buf) \<le> want" and "want - int (length buf) \<le> int (length R)"
  shows "\<exists>m'. plain_loop ops want buf m = (Inr (buf @ take (nat (want - int (length buf))) R), m')
    \<and> holds (drop (nat (want - int (length buf))) R) m' \<and> op_get_size ops m' = op_get_size ops m"
  using assms
proof (induction "nat (want - int (length buf))" arbitrary: buf R m rule: less_induct)
  case less
  show ?case
  proof (cases "want \<le> int (length buf)")
    case True
    with less.prems show ?thesis by (simp add: plain_loop.simps)
  next
    case False
    let ?n = "want - int (length buf)"
    obtain k where k: "0 < k" "k \<le> nat ?n" "fst (op_read ops ?n m) = Inr (take k R)"
        "holds (drop k R) (snd (op_read ops ?n m))" "op_get_size ops (snd (op_read ops ?n m)) = op_get_size ops m"
      using holds_read [OF less.prems(1), of ?n] less.prems False by auto
    have len: "length (take k R) = k" using k(2) less.prems(3) by simp
    have go: "plain_loop ops want buf m = plain_loop ops want (buf @ take k R) (snd (op_read ops ?n m))"
      using False k(1,3) len by (subst plain_loop.simps) (auto split: prod.splits)
    have want': "want - int (length (buf @ take k R)) = ?n - int k" using len by simp
    obtain m' where m': "plain_loop ops want (buf @ take k R) (snd (op_read ops ?n m))
          = (Inr ((buf @ take k R) @ take (nat (?n - int k)) (drop k R)), m')"
        "holds (drop (nat (?n - int k)) (drop k R)) m'" "op_get_size ops m' = op_get_size ops (snd (op_read ops ?n m))"
      using less.hyps [of "buf @ take k R" "drop k R" "snd (op_read ops ?n m)"] k(1,2,4) less.prems False len
      unfolding want' by force
    have n: "nat ?n = k + nat (?n - int k)" using k(2) by simp
    then have "take k R @ take (nat (?n - int k)) (drop k R) = take (nat ?n) R"
      and "drop (nat (?n - int k)) (drop k R) = drop (nat ?n) R"
      by (simp_all add: take_add add.commute)
    with m' go k(5) show ?thesis by simp
  qed
qed

lemma read_plaintext_chunk_exact:
  assumes "enc_state ops holds R m" and "R \<noteq> []"
  shows "\<exists>m'. read_plaintext_chunk ops m = (Inr (take (nat (ck_chunk_size (em_cipher m))) R), m')
    \<and> enc_state ops holds (drop (nat (ck_chunk_size (em_cipher m))) R) (m'\<lparr>em_chunk_index := em_chunk_index m + 1, em_pending := c\<rparr>)
    \<and> em_cipher m' = em_cipher m \<and> em_chunk_index m' = em_chunk_index m \<and> em_header_emitted m' = em_header_emitted m
    \<and> em_size m' = em_size m"
proof -
  let ?c = "ck_chunk_size (em_cipher m)" and ?r = "op_get_size ops (em_inner m) - em_plaintext_read m"
  have c: "0 < ?c" and r: "?r = int (length R)" "\<not> ?r \<le> 0" and h: "holds R (em_inner m)"
    using assms by (simp_all add: enc_state_def cipher_ok_def)
  have cut: "take (nat (min ?c ?r)) R = take (nat ?c) R" "drop (nat (min ?c ?r)) R = drop (nat ?c) R"
    using c r by (auto simp: min_def)
  obtain i where i: "plain_loop ops (min ?c ?r) [] (em_inner m) = (Inr (take (nat ?c) R), i)"
      "holds (drop (nat ?c) R) i" "op_get_size ops i = op_get_size ops (em_inner m)"
    using plain_loop_exact [OF h, of "[]" "min ?c ?r"] c r cut by auto
  have "int (length R - nat ?c) + 1 \<le> int (length R)"
    using c assms(2) by (cases R) auto
  then have idx: "em_chunk_index m + 1 + int (length R - nat ?c) \<le> 2 ^ 64" "int (min (length R) (nat ?c)) + int (length R - nat ?c) = int (length R)"
    using assms c by (auto simp: enc_state_def min_def)
  show ?thesis
    using i r idx assms(1) by (auto simp: read_plaintext_chunk_def Let_def enc_state_def)
qed

lemma enc_loop_exact:
  assumes "aead_law A" and "enc_state ops holds R m" and "int (length out) \<le> n"
    and "n - int (length out) \<le> int (length (enc_ahead A R m))"
  shows "\<exists>m' R'. enc_loop A ops n out m = (Inr (out @ take (nat (n - int (length out))) (enc_ahead A R m)), m')
    \<and> enc_state ops holds R' m' \<and> enc_ahead A R' m' = drop (nat (n - int (length out))) (enc_ahead A R m)
    \<and> em_size m' = em_size m \<and> em_header_emitted m' = em_header_emitted m"
  using assms(2-4)
proof (induction "2 * nat (n - int (length out)) + (if em_pending m = [] then 1 else 0)"
    arbitrary: out m R rule: less_induct)
  case less
  let ?n = "n - int (length out)"
  consider (full) "n \<le> int (length out)" | (drain) "int (length out) < n" "em_pending m \<noteq> []"
    | (refill) "int (length out) < n" "em_pending m = []" by linarith
  then show ?case
  proof cases
    case full
    with less.prems show ?thesis by (subst enc_loop.simps) auto
  next
    case drain
    define k where "k = min (nat ?n) (length (em_pending m))"
    let ?m = "m\<lparr>em_pending := drop k (em_pending m)\<rparr>" and ?out = "out @ take k (em_pending m)"
    have k: "0 < k" "k \<le> nat ?n" and len: "length (take k (em_pending m)) = k"
      using drain by (auto simp: k_def)
    have go: "enc_loop A ops n out m = enc_loop A ops n ?out ?m"
      using drain by (subst enc_loop.simps) (simp add: Let_def k_def)
    have n': "n - int (length ?out) = ?n - int k" using len by simp
    have st: "enc_state ops holds R ?m" using less.prems(1) by (simp add: enc_state_def)
    have ahead: "enc_ahead A R m = take k (em_pending m) @ enc_ahead A R ?m"
      by (simp add: enc_ahead_def)
    then have la: "length (enc_ahead A R m) = k + length (enc_ahead A R ?m)" using len by simp
    have "nat (?n - int k) < nat ?n" using k drain by simp
    then have "Suc (2 * nat (?n - int k)) < 2 * nat ?n" by linarith
    then have dec: "2 * nat (n - int (length ?out)) + (if em_pending ?m = [] then 1 else 0)
        < 2 * nat ?n + (if em_pending m = [] then 1 else 0)"
      unfolding n' using drain k(1) by simp
    have le: "int (length ?out) \<le> n" using len k by simp
    have room: "n - int (length ?out) \<le> int (length (enc_ahead A R ?m))" unfolding n' using less.prems(3) la by simp
    obtain m' R' where m': "enc_loop A ops n ?out ?m
          = (Inr (?out @ take (nat (n - int (length ?out))) (enc_ahead A R ?m)), m')" "enc_state ops holds R' m'"
        "enc_ahead A R' m' = drop (nat (n - int (length ?out))) (enc_ahead A R ?m)"
        "em_size m' = em_size ?m" "em_header_emitted m' = em_header_emitted ?m"
      using less.hyps [OF dec st le room] by blast
    have "take (nat ?n) (enc_ahead A R m) = take k (em_pending m) @ take (nat (?n - int k)) (enc_ahead A R ?m)"
      and "drop (nat ?n) (enc_ahead A R m) = drop (nat (?n - int k)) (enc_ahead A R ?m)"
      unfolding ahead using len k by (simp_all add: nat_diff_distrib)
    with m' go show ?thesis unfolding n' by (intro exI [of _ m'] exI [of _ R']) simp
  next
    case refill
    have R: "R \<noteq> []" using refill less.prems(3) by (auto simp: enc_ahead_def)
    then have one: "1 \<le> int (length R)" by (cases R) auto
    let ?p = "take (nat (ck_chunk_size (em_cipher m))) R" and ?i = "em_chunk_index m"
    let ?c = "enc A (em_cipher m) ?p ?i" and ?R = "drop (nat (ck_chunk_size (em_cipher m))) R"
    obtain m1 where m1: "read_plaintext_chunk ops m = (Inr ?p, m1)" "em_cipher m1 = em_cipher m" "em_chunk_index m1 = ?i"
        "enc_state ops holds ?R (m1\<lparr>em_chunk_index := ?i + 1, em_pending := ?c\<rparr>)"
        "em_header_emitted m1 = em_header_emitted m" "em_size m1 = em_size m"
      using read_plaintext_chunk_exact [OF less.prems(1) R, of ?c] by auto
    let ?m = "m1\<lparr>em_chunk_index := ?i + 1, em_pending := ?c\<rparr>"
    have c: "0 < ck_chunk_size (em_cipher m)" "0 \<le> ?i" "?i < 2 ^ 64"
      using less.prems(1) one by (simp_all add: enc_state_def cipher_ok_def)
    then have p: "?p \<noteq> []" using R by simp
    have e: "encrypt_chunk A (em_cipher m) ?p ?i = Inr ?c"
      using c by (intro encrypt_chunk_enc) auto
    have go: "enc_loop A ops n out m = enc_loop A ops n out ?m"
      using refill m1(1-3) p e by (subst enc_loop.simps) simp
    have ahead: "enc_ahead A ?R ?m = enc_ahead A R m"
      using refill R c(1) m1(2) by (simp add: enc_ahead_def cipher_from.simps [of A _ _ R])
    have "?c \<noteq> []" by (rule encrypt_chunk_nonempty [OF e])
    then have "2 * nat (n - int (length out)) + (if em_pending ?m = [] then 1 else 0)
        < 2 * nat ?n + (if em_pending m = [] then 1 else 0)"
      using refill by simp
    from less.hyps [OF this m1(4)] show ?thesis
      unfolding go ahead using less.prems m1(5,6) by simp
  qed
qed

end

text \<open>The states of the uploader's protocol: \<open>F\<close> is the ciphertext still to be handed out.\<close>

definition enc_between ::
  "aead \<Rightarrow> 'm message_ops \<Rightarrow> (bytes \<Rightarrow> 'm \<Rightarrow> bool) \<Rightarrow> bytes \<Rightarrow> 'm encrypting \<Rightarrow> bool" where
  "enc_between A ops holds F m \<longleftrightarrow> (\<exists>R. enc_state ops holds R m
     \<and> F = (if em_header_emitted m then em_pending m else em_header m) @ cipher_from A (em_cipher m) (em_chunk_index m) R)"

definition enc_sized ::
  "aead \<Rightarrow> 'm message_ops \<Rightarrow> (bytes \<Rightarrow> 'm \<Rightarrow> bool) \<Rightarrow> bytes \<Rightarrow> int \<Rightarrow> 'm encrypting \<Rightarrow> bool" where
  "enc_sized A ops holds F s m \<longleftrightarrow> enc_between A ops holds F m \<and> em_size m = s \<and> s \<le> int (length F)"

definition enc_inside ::
  "aead \<Rightarrow> 'm message_ops \<Rightarrow> (bytes \<Rightarrow> 'm \<Rightarrow> bool) \<Rightarrow> bytes \<Rightarrow> int \<Rightarrow> int \<Rightarrow> 'm encrypting \<Rightarrow> bool" where
  "enc_inside A ops holds F k s m \<longleftrightarrow> (\<exists>R. enc_state ops holds R m \<and> F = enc_ahead A R m)
     \<and> em_header_emitted m \<and> k \<le> int (length F)"

context whole_source
begin

text \<open>
  The encrypting message keeps the uploader's contract over every inner message that keeps
  this one, whatever the sizes of the parts and of the reads.
\<close>

lemma enc_part_source:
  assumes "aead_law A"
  shows "part_source (enc_ops A ops) (enc_inside A ops holds) (enc_between A ops holds) (enc_sized A ops holds)"
proof
  fix F m and k s n :: int
  assume a: "enc_inside A ops holds F k s m" "0 < n" "n \<le> k"
  then obtain R where R: "enc_state ops holds R m" "F = enc_ahead A R m" "em_header_emitted m" "k \<le> int (length F)"
    by (auto simp: enc_inside_def)
  obtain m' R' where "enc_loop A ops n [] m = (Inr (take (nat n) F), m')" "enc_state ops holds R' m'"
      "enc_ahead A R' m' = drop (nat n) F" "em_header_emitted m'"
    using enc_loop_exact [OF assms R(1), of "[]" n] a(2,3) R by auto
  with a R show "fst (op_read (enc_ops A ops) n m) = Inr (take (nat n) F)
      \<and> enc_inside A ops holds (drop (nat n) F) (k - n) s (snd (op_read (enc_ops A ops) n m))"
    by (auto simp: enc_ops_def enc_read_def enc_inside_def)
next
  fix F s and m :: "'m encrypting"
  assume a: "enc_sized A ops holds F s m"
  then obtain R where "enc_state ops holds R m"
      "F = (if em_header_emitted m then em_pending m else em_header m) @ cipher_from A (em_cipher m) (em_chunk_index m) R"
    by (auto simp: enc_sized_def enc_between_def)
  with a show "enc_inside A ops holds F s s (op_open (enc_ops A ops) m)"
    by (auto intro!: exI [of _ R] simp: enc_ops_def enc_sized_def enc_between_def enc_inside_def enc_open_def enc_ahead_def enc_state_def
        Let_def holds_open open_size)
next
  fix F s and m :: "'m encrypting"
  assume "enc_inside A ops holds F 0 s m"
  then obtain R where "enc_state ops holds R m" "F = enc_ahead A R m" "em_header_emitted m"
    by (auto simp: enc_inside_def)
  then show "enc_between A ops holds F (op_next_part (enc_ops A ops) s (op_close (enc_ops A ops) m))"
    by (auto intro!: exI [of _ R] simp: enc_ops_def enc_between_def enc_close_def enc_next_part_def enc_ahead_def
        enc_state_def holds_close close_size)
qed (auto simp: enc_ops_def enc_sized_def enc_between_def enc_inside_def enc_state_def size_or_def)

lemma enc_wrap_between:
  assumes "aead_law A" and "hmac_law mac" and "header_ok h" and "length file_key = 32"
    and "holds R inner" and "op_get_size ops inner = int (length R)" and "int (length R) \<le> 2 ^ 64"
  shows "\<exists>m raw. enc_wrap mac ops inner file_key h = Inr m \<and> header_serialize mac file_key h = Inr raw
    \<and> enc_between A ops holds
        (raw @ cipher_from A \<lparr>ck_file_key = file_key, ck_file_salt = h_file_salt h, ck_chunk_size = h_chunk_size h\<rparr> 0 R) m
    \<and> em_size m = int (length
        (raw @ cipher_from A \<lparr>ck_file_key = file_key, ck_file_salt = h_file_salt h, ck_chunk_size = h_chunk_size h\<rparr> 0 R))"
proof -
  let ?ck = "\<lparr>ck_file_key = file_key, ck_file_salt = h_file_salt h, ck_chunk_size = h_chunk_size h\<rparr>"
  have ck: "cipher_ok ?ck" and nc: "new_cipher file_key (h_file_salt h) (h_chunk_size h) = Inr ?ck"
    using assms(3,4) by (simp_all add: cipher_ok_def header_ok_def FILE_SALT_SIZE_def new_cipher_def)
  obtain raw where raw: "header_serialize mac file_key h = Inr raw" "length raw = HEADER_SIZE"
    using header_serialize_ok [OF header_ok_packable [OF assms(3)] assms(2)] by metis
  have sz: "ciphertext_size_for_plaintext (int (length R)) (h_chunk_size h) = Inr (cipher_len (int (length R)) (h_chunk_size h))"
    using assms(3) by (intro ciphertext_size_cipher_len) (auto simp: header_ok_def)
  show ?thesis
    using nc raw sz assms(5-7) ck length_cipher_from [OF assms(1) ck, of 0 R]
    by (simp add: enc_wrap_def enc_between_def enc_state_def) blast
qed

end

text \<open>
  The buffer message is no \<open>whole_source\<close>: the encrypting message opens it again for every
  part and never advances it, so the second part of an encrypted buffer starts over at its
  first byte.
\<close>

lemma encrypted_buffer_restarts:
  "bm_offset (em_inner m) = 0 \<Longrightarrow>
    bm_rest (em_inner (enc_open buffer_ops (enc_next_part s (enc_close buffer_ops m)))) = bm_buffer (em_inner m)"
  by (simp add: enc_open_def enc_next_part_def enc_close_def buffer_ops_def buffer_open_def Let_def)

end
