(* ===== verification/CryptoRepo.thy ===== *)
theory CryptoRepo
  imports CryptoStream ContentRepo
begin

text \<open>
  \<open>EncryptingFileContentRepository\<close> (\<open>src/tgdcfs/crypto/repository.py\<close>): the decorator that encrypts
  what goes into a content repository and decrypts the ranges that are read back. The inner
  repository is an argument; \<open>content_reader\<close> is what the decorator needs of it, and the store
  repository with its local cache is shown to keep that contract.
\<close>

section \<open>The header cache\<close>

definition HEADER_CACHE_CAPACITY :: nat where
  "HEADER_CACHE_CAPACITY = 1024"

type_synonym sealed = "(file_header \<times> bytes) option"

record header_cache =
  hc_capacity :: nat
  hc_store :: "(string, sealed) dict"
  hc_order :: "string list"

definition new_header_cache :: header_cache where
  "new_header_cache = \<lparr>hc_capacity = HEADER_CACHE_CAPACITY, hc_store = [], hc_order = []\<rparr>"

definition hc_lookup :: "string \<Rightarrow> header_cache \<Rightarrow> sealed option" where
  "hc_lookup vid hc = map_of (hc_store hc) vid"

definition hc_put :: "string \<Rightarrow> sealed \<Rightarrow> header_cache \<Rightarrow> header_cache res" where
  "hc_put vid x hc =
     (if dict_has (hc_store hc) vid then Inr hc
      else rbind
        (if hc_capacity hc \<le> length (hc_store hc)
         then (case hc_order hc of
             [] \<Rightarrow> Inl IndexError
           | old # order \<Rightarrow> Inr (hc\<lparr>hc_order := order, hc_store := AList.delete old (hc_store hc)\<rparr>))
         else Inr hc)
        (\<lambda>hc1. Inr (hc1\<lparr>hc_store := AList.update vid x (hc_store hc1), hc_order := hc_order hc1 @ [vid]\<rparr>)))"

section \<open>Writing\<close>

text \<open>
  The configuration of the decorator. \<open>salt\<close> and \<open>nonce\<close> below are the random bytes of one
  upload; \<open>cx_names\<close> is whether \<open>encrypt_names\<close> is on, which fixes the name key at construction.
\<close>

record crypto_ctx =
  cx_aead :: aead
  cx_mac :: hmac
  cx_kdf :: hkdf
  cx_master :: bytes
  cx_chunk_size :: int
  cx_names :: bool

definition seal_name :: "crypto_ctx \<Rightarrow> bytes \<Rightarrow> string \<Rightarrow> string res" where
  "seal_name cx nonce name =
     (if cx_names cx \<and> name \<noteq> []
      then rbind (derive_name_key (cx_kdf cx) (cx_master cx)) (\<lambda>key. Inr (encrypt_name (cx_aead cx) key nonce name))
      else Inr name)"

definition seal :: "crypto_ctx \<Rightarrow> 'm message_ops \<Rightarrow> bytes \<Rightarrow> bytes \<Rightarrow> 'm \<Rightarrow> 'm encrypting res" where
  "seal cx ops salt nonce msg =
     rbind (seal_name cx nonce (op_name ops msg)) (\<lambda>name.
     let msg' = op_set_name ops name msg; h = new_header (cx_chunk_size cx) salt in
     rbind (derive_file_key (cx_kdf cx) (cx_master cx) salt) (\<lambda>file_key.
       enc_wrap (cx_mac cx) ops msg' file_key h))"

definition crypto_save ::
    "crypto_ctx \<Rightarrow> 'm message_ops \<Rightarrow> (string option \<Rightarrow> 'm encrypting \<Rightarrow> 'w \<Rightarrow> 'r res \<times> 'w) \<Rightarrow> bytes \<Rightarrow> bytes
      \<Rightarrow> string option \<Rightarrow> 'm \<Rightarrow> 'w \<Rightarrow> 'r res \<times> 'w" where
  "crypto_save cx ops inner_save salt nonce vid msg w = (case seal cx ops salt nonce msg of
     Inl e \<Rightarrow> (Inl e, w) | Inr m \<Rightarrow> inner_save vid m w)"

definition crypto_stage ::
    "crypto_ctx \<Rightarrow> 'm message_ops \<Rightarrow> (string \<Rightarrow> 'm encrypting \<Rightarrow> 'w \<Rightarrow> int option res \<times> 'w) \<Rightarrow> bytes \<Rightarrow> bytes
      \<Rightarrow> string \<Rightarrow> 'm \<Rightarrow> 'w \<Rightarrow> int option res \<times> 'w" where
  "crypto_stage cx ops inner_stage salt nonce vid msg w = (case seal cx ops salt nonce msg of
     Inl e \<Rightarrow> (Inl e, w) | Inr m \<Rightarrow> inner_stage vid m w)"

text \<open>The loop of \<open>update\<close> over \<open>enumerate(range(0, len(buffer), chunk_size))\<close>.\<close>

fun encrypt_buffer :: "aead \<Rightarrow> chunked_cipher \<Rightarrow> bytes \<Rightarrow> nat \<Rightarrow> int list \<Rightarrow> bytes res" where
  "encrypt_buffer A ck buf i [] = Inr []"
| "encrypt_buffer A ck buf i (start # starts) =
     rbind (encrypt_chunk A ck (take (nat (ck_chunk_size ck)) (drop (nat start) buf)) (int i)) (\<lambda>c.
     rbind (encrypt_buffer A ck buf (Suc i) starts) (\<lambda>cs. Inr (c @ cs)))"

definition range_starts :: "int \<Rightarrow> int \<Rightarrow> int list" where
  "range_starts n step = map (\<lambda>i. int i * step) [0..<nat ((n + step - 1) div step)]"

definition crypto_update_bytes :: "crypto_ctx \<Rightarrow> bytes \<Rightarrow> bytes \<Rightarrow> bytes res" where
  "crypto_update_bytes cx salt buf =
     (let h = new_header (cx_chunk_size cx) salt in
      rbind (derive_file_key (cx_kdf cx) (cx_master cx) salt) (\<lambda>file_key.
      rbind (new_cipher file_key salt (h_chunk_size h)) (\<lambda>ck.
      rbind (header_serialize (cx_mac cx) file_key h) (\<lambda>raw.
      rbind (encrypt_buffer (cx_aead cx) ck buf 0 (range_starts (int (length buf)) (h_chunk_size h))) (\<lambda>body.
        Inr (raw @ body))))))"

definition crypto_update ::
    "crypto_ctx \<Rightarrow> (int \<Rightarrow> bytes \<Rightarrow> string \<Rightarrow> 'w \<Rightarrow> int res \<times> 'w) \<Rightarrow> bytes \<Rightarrow> bytes \<Rightarrow> int \<Rightarrow> bytes \<Rightarrow> string \<Rightarrow> 'w
      \<Rightarrow> int res \<times> 'w" where
  "crypto_update cx inner_update salt nonce mid buf name w =
     (case rbind (seal_name cx nonce name) (\<lambda>nm. rbind (crypto_update_bytes cx salt buf) (\<lambda>ct. Inr (nm, ct))) of
        Inl e \<Rightarrow> (Inl e, w) | Inr (nm, ct) \<Rightarrow> inner_update mid ct nm w)"

section \<open>Detecting the format\<close>

type_synonym 'w inner_get = "file_version \<Rightarrow> int \<Rightarrow> int \<Rightarrow> bool \<Rightarrow> 'w \<Rightarrow> stream res \<times> 'w"

text \<open>The probe's loop: it stops once it has the header.\<close>

fun probe :: "int \<Rightarrow> bytes \<Rightarrow> bytes list \<Rightarrow> exn option \<Rightarrow> bytes res" where
  "probe target buf [] fin = (case fin of None \<Rightarrow> Inr buf | Some e \<Rightarrow> Inl e)"
| "probe target buf (p # ps) fin =
     (if target \<le> int (length (buf @ p)) then Inr (buf @ p) else probe target (buf @ p) ps fin)"

definition read_header :: "crypto_ctx \<Rightarrow> bytes \<Rightarrow> sealed res" where
  "read_header cx buf =
     (if length buf < length MAGIC \<or> take (length MAGIC) buf \<noteq> MAGIC then Inr None
      else if length buf < HEADER_SIZE then Inl InvalidHeaderError
      else
        let raw = take HEADER_SIZE buf in
        rbind (header_parse raw) (\<lambda>h.
        rbind (derive_file_key (cx_kdf cx) (cx_master cx) (h_file_salt h)) (\<lambda>key.
        rbind (header_verify (cx_mac cx) raw key) (\<lambda>_. Inr (Some (h, key))))))"

definition remember :: "string \<Rightarrow> sealed res \<Rightarrow> header_cache \<times> 'w \<Rightarrow> sealed res \<times> header_cache \<times> 'w" where
  "remember vid r hw = (case r of
     Inl e \<Rightarrow> (Inl e, hw)
   | Inr x \<Rightarrow> (case hc_put vid x (fst hw) of Inl e \<Rightarrow> (Inl e, hw) | Inr hc \<Rightarrow> (Inr x, hc, snd hw)))"

definition detect :: "crypto_ctx \<Rightarrow> 'w inner_get \<Rightarrow> file_version \<Rightarrow> header_cache \<times> 'w
    \<Rightarrow> sealed res \<times> header_cache \<times> 'w" where
  "detect cx inner fv hw = (case hc_lookup (fv_id fv) (fst hw) of
     Some x \<Rightarrow> (Inr x, hw)
   | None \<Rightarrow>
       if fv_size fv < int (length MAGIC) then remember (fv_id fv) (Inr None) hw
       else
         let target = min (int HEADER_SIZE) (fv_size fv);
             (st, w') = inner fv 0 (target - 1) False (snd hw);
             r = rbind st (\<lambda>s. rbind (probe target [] (fst s) (snd s)) (read_header cx))
         in remember (fv_id fv) r (fst hw, w'))"

definition content_length :: "crypto_ctx \<Rightarrow> 'w inner_get \<Rightarrow> file_version \<Rightarrow> header_cache \<times> 'w
    \<Rightarrow> int res \<times> header_cache \<times> 'w" where
  "content_length cx inner fv hw =
     (if fv_size fv \<le> 0 then (Inr 0, hw)
      else case detect cx inner fv hw of
          (Inl e, hw') \<Rightarrow> (Inl e, hw')
        | (Inr None, hw') \<Rightarrow> (Inr (fv_size fv), hw')
        | (Inr (Some (h, _)), hw') \<Rightarrow> (plaintext_size_from_ciphertext (fv_size fv) (h_chunk_size h), hw'))"

section \<open>Decrypting a stream\<close>

record dstate =
  ds_buf :: bytes
  ds_index :: int
  ds_emitted :: int
  ds_done :: int
  ds_trim :: int

definition trim_and_count :: "int \<Rightarrow> bytes \<Rightarrow> dstate \<Rightarrow> bytes \<times> dstate" where
  "trim_and_count tot p st =
     (let p1 = (if ds_trim st \<noteq> 0 then slice_from (ds_trim st) p else p);
          remaining = tot - ds_emitted st;
          p2 = (if remaining < int (length p1) then slice_to remaining p1 else p1)
      in (p2, st\<lparr>ds_trim := 0, ds_emitted := ds_emitted st + int (length p2)\<rparr>))"

datatype outcome = Going dstate | Returned | Raised exn

definition yields :: "bytes \<Rightarrow> bytes list" where
  "yields out = (if out = [] then [] else [out])"

text \<open>The inner loop: decrypt every whole chunk but the last one asked for.\<close>

function decrypt_full :: "aead \<Rightarrow> chunked_cipher \<Rightarrow> int \<Rightarrow> int \<Rightarrow> int \<Rightarrow> dstate \<Rightarrow> bytes list \<times> outcome" where
  "decrypt_full A ck stride n tot st =
     (if ds_done st < n - 1 \<and> stride \<le> int (length (ds_buf st)) then
        (case decrypt_chunk A ck (slice_to stride (ds_buf st)) (ds_index st) of
           Inl e \<Rightarrow> ([], Raised e)
         | Inr p \<Rightarrow>
             let (out, st') = trim_and_count tot p
                   (st\<lparr>ds_buf := slice_from stride (ds_buf st), ds_index := ds_index st + 1, ds_done := ds_done st + 1\<rparr>)
             in if tot \<le> ds_emitted st' then (yields out, Returned)
                else let (zs, r) = decrypt_full A ck stride n tot st' in (yields out @ zs, r))
      else ([], Going st))"
  by pat_completeness auto
termination
  by (relation "measure (\<lambda>(A, ck, stride, n, tot, st). nat (n - 1 - ds_done st))")
     (auto simp: trim_and_count_def Let_def)

text \<open>The tail, decrypted once the inner stream is exhausted.\<close>

definition decrypt_tail :: "aead \<Rightarrow> chunked_cipher \<Rightarrow> int \<Rightarrow> int \<Rightarrow> dstate \<Rightarrow> stream" where
  "decrypt_tail A ck n tot st =
     (if ds_done st < n \<and> ds_buf st \<noteq> [] \<and> ds_emitted st < tot then
        (case decrypt_chunk A ck (ds_buf st) (ds_index st) of
           Inl e \<Rightarrow> raising e | Inr p \<Rightarrow> (yields (fst (trim_and_count tot p st)), None))
      else ([], None))"

fun decrypt_pieces ::
    "aead \<Rightarrow> chunked_cipher \<Rightarrow> int \<Rightarrow> int \<Rightarrow> int \<Rightarrow> bytes list \<Rightarrow> exn option \<Rightarrow> dstate \<Rightarrow> stream" where
  "decrypt_pieces A ck stride n tot [] fin st =
     (case fin of Some e \<Rightarrow> raising e | None \<Rightarrow> decrypt_tail A ck n tot st)"
| "decrypt_pieces A ck stride n tot (p # ps) fin st =
     (if tot \<le> ds_emitted st then decrypt_pieces A ck stride n tot ps fin st
      else (case decrypt_full A ck stride n tot (st\<lparr>ds_buf := ds_buf st @ p\<rparr>) of
          (ys, Raised e) \<Rightarrow> (ys, Some e)
        | (ys, Returned) \<Rightarrow> (ys, None)
        | (ys, Going st') \<Rightarrow>
            let (zs, f) = decrypt_pieces A ck stride n tot ps fin st' in (ys @ zs, f)))"

definition decrypting_stream ::
    "aead \<Rightarrow> chunked_cipher \<Rightarrow> int \<Rightarrow> int \<Rightarrow> int \<Rightarrow> int \<Rightarrow> int \<Rightarrow> stream \<Rightarrow> stream" where
  "decrypting_stream A ck start_chunk n_chunks trim_head trim_total chunk_size inner =
     decrypt_pieces A ck (chunk_size + int CHUNK_OVERHEAD) n_chunks trim_total (fst inner) (snd inner)
       \<lparr>ds_buf = [], ds_index = start_chunk, ds_emitted = 0, ds_done = 0, ds_trim = trim_head\<rparr>"

section \<open>Reading\<close>

text \<open>
  The translation of a plaintext range: nothing to read, or the first chunk, the offset in
  it, the number of chunks, the ciphertext range and the number of plaintext bytes.
\<close>

definition plan_range :: "int \<Rightarrow> int \<Rightarrow> int \<Rightarrow> int \<Rightarrow> (int \<times> int \<times> int \<times> int \<times> int \<times> int) option res" where
  "plan_range c csize b0 e0 =
     rbind (plaintext_size_from_ciphertext csize c) (\<lambda>tot.
     let lst = (if e0 < 0 \<or> tot \<le> e0 then tot - 1 else e0) in
     if lst < b0 \<or> tot \<le> b0 then Inr None
     else
       rbind (plaintext_offset_to_chunk b0 c) (\<lambda>(sc, so).
       rbind (plaintext_offset_to_chunk lst c) (\<lambda>(lc, _).
       rbind (chunk_to_ciphertext_offset sc c) (\<lambda>cb.
       rbind (chunk_to_ciphertext_offset (lc + 1) c) (\<lambda>ce.
         Inr (Some (sc, so, lc - sc + 1, int HEADER_SIZE + cb, min (int HEADER_SIZE + ce) csize - 1, lst - b0 + 1)))))))"

definition crypto_range_get :: "crypto_ctx \<Rightarrow> 'w inner_get \<Rightarrow> file_version \<Rightarrow> int \<Rightarrow> int \<Rightarrow> bool
    \<Rightarrow> file_header \<times> bytes \<Rightarrow> 'w \<Rightarrow> stream res \<times> 'w" where
  "crypto_range_get cx inner fv b0 e0 admit hk w =
     (let (h, key) = hk; c = h_chunk_size h in
      case new_cipher key (h_file_salt h) c of
        Inl e \<Rightarrow> (Inl e, w)
      | Inr ck \<Rightarrow> (case plan_range c (fv_size fv) b0 e0 of
          Inl e \<Rightarrow> (Inl e, w)
        | Inr None \<Rightarrow> (Inr ([], None), w)
        | Inr (Some (sc, so, n, ct0, ct1, tot)) \<Rightarrow>
            let (st, w') = inner fv ct0 ct1 admit w
            in (rbind st (\<lambda>s. Inr (decrypting_stream (cx_aead cx) ck sc n so tot c s)), w')))"

definition crypto_get :: "crypto_ctx \<Rightarrow> 'w inner_get \<Rightarrow> file_version \<Rightarrow> int \<Rightarrow> int \<Rightarrow> bool
    \<Rightarrow> header_cache \<times> 'w \<Rightarrow> stream res \<times> header_cache \<times> 'w" where
  "crypto_get cx inner fv b0 e0 admit hw =
     (if fv_size fv \<le> 0 then (Inr ([], None), hw)
      else case detect cx inner fv hw of
          (Inl e, hw') \<Rightarrow> (Inl e, hw')
        | (Inr None, hw') \<Rightarrow> (let (st, w') = inner fv b0 e0 admit (snd hw') in (st, fst hw', w'))
        | (Inr (Some hk), hw') \<Rightarrow>
            (let (st, w') = crypto_range_get cx inner fv b0 e0 admit hk (snd hw') in (st, fst hw', w')))"

declare decrypt_full.simps [simp del]

section \<open>The decrypted stream is the plaintext\<close>

text \<open>
  The state of the decryption: \<open>Q\<close> is the plaintext of the chunks that are still to be
  decrypted, up to the last chunk asked for, and \<open>k\<close> the bytes still to be handed out.
\<close>

definition decrypt_inv :: "chunked_cipher \<Rightarrow> int \<Rightarrow> int \<Rightarrow> bytes \<Rightarrow> dstate \<Rightarrow> bool" where
  "decrypt_inv ck n tot Q st \<longleftrightarrow>
     ds_done st < n \<and> (n - ds_done st - 1) * ck_chunk_size ck < int (length Q)
     \<and> int (length Q) \<le> (n - ds_done st) * ck_chunk_size ck
     \<and> 0 \<le> ds_trim st \<and> ds_trim st < ck_chunk_size ck \<and> ds_emitted st < tot
     \<and> (n - ds_done st - 1) * ck_chunk_size ck < ds_trim st + (tot - ds_emitted st)
     \<and> ds_trim st + (tot - ds_emitted st) \<le> int (length Q)
     \<and> 0 \<le> ds_index st \<and> ds_index st + int (length Q) \<le> 2 ^ 64"

definition decrypt_want :: "int \<Rightarrow> bytes \<Rightarrow> dstate \<Rightarrow> bytes" where
  "decrypt_want tot Q st = take (nat (tot - ds_emitted st)) (drop (nat (ds_trim st)) Q)"

lemma trim_and_count_simp:
  assumes "0 \<le> ds_trim st" and "ds_emitted st \<le> tot"
  shows "trim_and_count tot p st = (decrypt_want tot p st,
    st\<lparr>ds_trim := 0, ds_emitted := ds_emitted st + int (length (decrypt_want tot p st))\<rparr>)"
  using assms by (auto simp: trim_and_count_def Let_def decrypt_want_def)

text \<open>One whole chunk at the head of the buffer.\<close>

definition next_state :: "chunked_cipher \<Rightarrow> dstate \<Rightarrow> dstate" where
  "next_state ck st = st\<lparr>ds_buf := drop (nat (ck_chunk_size ck) + CHUNK_OVERHEAD) (ds_buf st), ds_index := ds_index st + 1,
     ds_done := ds_done st + 1, ds_trim := 0, ds_emitted := ds_emitted st + (ck_chunk_size ck - ds_trim st)\<rparr>"

lemma decrypt_step:
  assumes law: "aead_law A" and ck: "cipher_ok ck" and inv: "decrypt_inv ck n tot Q st"
    and more: "ds_done st < n - 1"
  defines "c \<equiv> nat (ck_chunk_size ck)"
  shows "cipher_from A ck (ds_index st) Q = enc A ck (take c Q) (ds_index st) @ cipher_from A ck (ds_index st + 1) (drop c Q)"
    and "length (enc A ck (take c Q) (ds_index st)) = c + CHUNK_OVERHEAD"
    and "decrypt_inv ck n tot (drop c Q) (next_state ck st)"
    and "decrypt_want tot Q st = decrypt_want tot (take c Q) st @ decrypt_want tot (drop c Q) (next_state ck st)"
    and "int (length (decrypt_want tot (take c Q) st)) = ck_chunk_size ck - ds_trim st"
proof -
  let ?c = "ck_chunk_size ck"
  have c: "0 < ?c" "int c = ?c" "0 < c" using ck by (auto simp: cipher_ok_def c_def)
  have "1 * ?c \<le> (n - ds_done st - 1) * ?c" using more c by (intro mult_right_mono) auto
  then have big: "?c < int (length Q)" "?c < ds_trim st + (tot - ds_emitted st)"
    using inv unfolding decrypt_inv_def by linarith+
  show split: "cipher_from A ck (ds_index st) Q
      = enc A ck (take c Q) (ds_index st) @ cipher_from A ck (ds_index st + 1) (drop c Q)"
    using big(1) c by (subst cipher_from.simps) (auto simp: c_def)
  show "length (enc A ck (take c Q) (ds_index st)) = c + CHUNK_OVERHEAD"
    using big(1) c by (simp add: length_enc [OF law ck])
  have len: "int (length (drop c Q)) = int (length Q) - ?c" using big(1) c by auto
  have eq: "(n - (ds_done st + 1) - 1) * ?c = (n - ds_done st - 1) * ?c - ?c" "(n - (ds_done st + 1)) * ?c = (n - ds_done st) * ?c - ?c"
    by (simp_all add: algebra_simps)
  have nx: "ds_done (next_state ck st) = ds_done st + 1" "ds_index (next_state ck st) = ds_index st + 1"
    "ds_trim (next_state ck st) = 0" "ds_emitted (next_state ck st) = ds_emitted st + (?c - ds_trim st)"
    by (simp_all add: next_state_def)
  show "decrypt_inv ck n tot (drop c Q) (next_state ck st)"
    using inv big c more unfolding decrypt_inv_def nx len eq by (elim conjE, intro conjI; linarith)
  have t: "0 \<le> ds_trim st" "ds_trim st < ?c" using inv by (auto simp: decrypt_inv_def)
  have w: "decrypt_want tot (take c Q) st = drop (nat (ds_trim st)) (take c Q)"
    using big t c by (simp add: decrypt_want_def)
  then show wl: "int (length (decrypt_want tot (take c Q) st)) = ?c - ds_trim st"
    using big t c by auto
  have n: "nat (tot - ds_emitted st) = (c - nat (ds_trim st)) + nat (tot - (ds_emitted st + (?c - ds_trim st)))"
    using big t c by auto
  have "nat (ds_trim st) \<le> length (take c Q)" using t c big(1) by auto
  then have "drop (nat (ds_trim st)) (take c Q @ drop c Q) = drop (nat (ds_trim st)) (take c Q) @ drop c Q"
    by (subst drop_append) simp
  then have "drop (nat (ds_trim st)) Q = drop (nat (ds_trim st)) (take c Q) @ drop c Q" by simp
  moreover have "take (x + y) (u @ v) = u @ take y v" if "length u = x" for x y and u v :: bytes
    using that by simp
  moreover have "length (drop (nat (ds_trim st)) (take c Q)) = c - nat (ds_trim st)" using big(1) c by auto
  ultimately have "take (nat (tot - ds_emitted st)) (drop (nat (ds_trim st)) Q)
      = drop (nat (ds_trim st)) (take c Q) @ take (nat (tot - (ds_emitted st + (?c - ds_trim st)))) (drop c Q)"
    unfolding n by simp
  then show "decrypt_want tot Q st = decrypt_want tot (take c Q) st @ decrypt_want tot (drop c Q) (next_state ck st)"
    unfolding w by (simp add: decrypt_want_def nx)
qed

lemma prefix_covers:
  assumes "prefix xs (ys @ zs)" and "length ys \<le> length xs"
  shows "\<exists>us. xs = ys @ us \<and> prefix us zs"
proof (cases "prefix xs ys")
  case True
  with assms(2) have "xs = ys" by (auto simp: prefix_def)
  then show ?thesis by simp
next
  case False
  with assms(1) show ?thesis by (auto simp: prefix_append)
qed

lemma decrypt_full_going:
  assumes law: "aead_law A" and ck: "cipher_ok ck" and "decrypt_inv ck n tot Q st"
    and "prefix (ds_buf st) (cipher_from A ck (ds_index st) Q)"
  shows "\<exists>ys Q' st'. decrypt_full A ck (ck_chunk_size ck + int CHUNK_OVERHEAD) n tot st = (ys, Going st')
    \<and> decrypt_inv ck n tot Q' st'
    \<and> decrypt_want tot Q st = concat ys @ decrypt_want tot Q' st'
    \<and> (\<forall>more. ds_buf st @ more = cipher_from A ck (ds_index st) Q \<longleftrightarrow> ds_buf st' @ more = cipher_from A ck (ds_index st') Q')
    \<and> (\<forall>more. prefix (ds_buf st @ more) (cipher_from A ck (ds_index st) Q)
        \<longleftrightarrow> prefix (ds_buf st' @ more) (cipher_from A ck (ds_index st') Q'))
    \<and> (ds_done st' = n - 1 \<or> int (length (ds_buf st')) < ck_chunk_size ck + int CHUNK_OVERHEAD)"
  using assms(3,4)
proof (induction "nat (n - 1 - ds_done st)" arbitrary: Q st rule: less_induct)
  case less
  let ?c = "nat (ck_chunk_size ck)" and ?stride = "ck_chunk_size ck + int CHUNK_OVERHEAD"
  show ?case
  proof (cases "ds_done st < n - 1 \<and> ?stride \<le> int (length (ds_buf st))")
    case False
    then have "ds_done st = n - 1 \<or> int (length (ds_buf st)) < ?stride"
      using less.prems(1) by (auto simp: decrypt_inv_def)
    with False show ?thesis
      using less.prems(1)
      by (intro exI [of _ "[]"] exI [of _ Q] exI [of _ st]) (subst decrypt_full.simps, auto simp: decrypt_full.simps)
  next
    case True
    note step = decrypt_step [OF law ck less.prems(1) conjunct1 [OF True]]
    let ?e = "enc A ck (take ?c Q) (ds_index st)" and ?st = "next_state ck st" and ?Q = "drop ?c Q"
    have c: "int ?c = ck_chunk_size ck" "0 < ?c" using ck by (auto simp: cipher_ok_def)
    have stride: "nat ?stride = length ?e" "nat ?stride = ?c + CHUNK_OVERHEAD" using step(2) c by auto
    obtain B where B: "ds_buf st = ?e @ B" "prefix B (cipher_from A ck (ds_index st + 1) ?Q)"
    proof -
      have "length ?e \<le> length (ds_buf st)" using True stride c by auto
      moreover have "prefix (ds_buf st) (?e @ cipher_from A ck (ds_index st + 1) ?Q)"
        using less.prems(2) step(1) by simp
      ultimately show thesis
        using that prefix_covers by blast
    qed
    have idx: "0 \<le> ds_index st" "ds_index st < 2 ^ 64"
      using less.prems(1) step(3) by (auto simp: decrypt_inv_def next_state_def)
    have dec: "decrypt_chunk A ck (slice_to ?stride (ds_buf st)) (ds_index st) = Inr (take ?c Q)"
      using decrypt_enc [OF law ck idx idx, of "take ?c Q"] B(1) stride c by simp
    have inv: "0 \<le> ds_trim st" "ds_emitted st \<le> tot" using less.prems(1) by (auto simp: decrypt_inv_def)
    let ?mid = "st\<lparr>ds_buf := slice_from ?stride (ds_buf st), ds_index := ds_index st + 1, ds_done := ds_done st + 1\<rparr>"
    have trim: "trim_and_count tot (take ?c Q) ?mid = (decrypt_want tot (take ?c Q) st, ?st)"
      using inv step(5) stride c
      by (subst trim_and_count_simp) (simp_all add: decrypt_want_def next_state_def)
    have buf: "ds_buf ?st = B" "ds_index ?st = ds_index st + 1" "ds_done ?st = ds_done st + 1"
      using B(1) step(2) by (simp_all add: next_state_def)
    have going: "\<not> tot \<le> ds_emitted ?st" using step(3) by (simp add: decrypt_inv_def)
    have meas: "nat (n - 1 - ds_done ?st) < nat (n - 1 - ds_done st)" using True buf(3) by simp
    obtain ys Q' st' where ih: "decrypt_full A ck ?stride n tot ?st = (ys, Going st')" "decrypt_inv ck n tot Q' st'"
        "decrypt_want tot ?Q ?st = concat ys @ decrypt_want tot Q' st'"
        "\<And>more. B @ more = cipher_from A ck (ds_index st + 1) ?Q \<longleftrightarrow> ds_buf st' @ more = cipher_from A ck (ds_index st') Q'"
        "\<And>more. prefix (B @ more) (cipher_from A ck (ds_index st + 1) ?Q)
          \<longleftrightarrow> prefix (ds_buf st' @ more) (cipher_from A ck (ds_index st') Q')"
        "ds_done st' = n - 1 \<or> int (length (ds_buf st')) < ?stride"
      using less.hyps [OF meas step(3)] B(2) unfolding buf by blast
    have "decrypt_full A ck ?stride n tot st = (yields (decrypt_want tot (take ?c Q) st) @ ys, Going st')"
      using True dec trim going ih(1) by (subst decrypt_full.simps) simp
    moreover have "concat (yields x) = x" for x by (simp add: yields_def)
    ultimately show ?thesis
      using ih(2-6) step(1,4) B(1) by (intro exI [of _ "yields (decrypt_want tot (take ?c Q) st) @ ys"] exI [of _ Q'] exI [of _ st']) simp
  qed
qed

lemma decrypt_tail_want:
  assumes law: "aead_law A" and ck: "cipher_ok ck" and inv: "decrypt_inv ck n tot Q st"
    and buf: "ds_buf st = cipher_from A ck (ds_index st) Q"
    and end_reached: "ds_done st = n - 1 \<or> int (length (ds_buf st)) < ck_chunk_size ck + int CHUNK_OVERHEAD"
  shows "stream_bytes (decrypt_tail A ck n tot st) = decrypt_want tot Q st \<and> snd (decrypt_tail A ck n tot st) = None"
proof -
  have c: "0 < ck_chunk_size ck" using ck by (simp add: cipher_ok_def)
  have d: "ds_done st = n - 1"
  proof (rule ccontr)
    assume "ds_done st \<noteq> n - 1"
    moreover from this have "ds_done st < n - 1" using inv by (auto simp: decrypt_inv_def)
    note step = decrypt_step(1,2) [OF law ck inv this]
    ultimately show False using end_reached buf step c by simp
  qed
  have q: "Q \<noteq> []" "int (length Q) \<le> ck_chunk_size ck" and idx: "0 \<le> ds_index st" "ds_index st < 2 ^ 64"
    and t: "0 \<le> ds_trim st" "ds_emitted st < tot" "ds_done st < n"
  proof -
    have "ds_trim st + (tot - ds_emitted st) \<le> int (length Q)" "0 \<le> ds_trim st" "ds_emitted st < tot"
      using inv by (auto simp: decrypt_inv_def)
    then show "Q \<noteq> []" by auto
    then have "1 \<le> int (length Q)" by (cases Q) auto
    then show "ds_index st < 2 ^ 64" using inv by (auto simp: decrypt_inv_def)
  qed (use inv d in \<open>auto simp: decrypt_inv_def\<close>)
  have one: "cipher_from A ck (ds_index st) Q = enc A ck Q (ds_index st)"
    using q c by (subst cipher_from.simps) simp
  have "enc A ck Q (ds_index st) \<noteq> []"
    using encrypt_chunk_nonempty [OF encrypt_chunk_enc [OF idx q(2)]] .
  moreover have "decrypt_chunk A ck (enc A ck Q (ds_index st)) (ds_index st) = Inr Q"
    using decrypt_enc [OF law ck idx idx] by simp
  ultimately show ?thesis
    using t buf one by (simp add: decrypt_tail_def trim_and_count_simp stream_bytes_def yields_def)
qed

lemma decrypt_inv_buf [simp]: "decrypt_inv ck n tot Q (st\<lparr>ds_buf := B\<rparr>) = decrypt_inv ck n tot Q st"
  "decrypt_want tot Q (st\<lparr>ds_buf := B\<rparr>) = decrypt_want tot Q st"
  by (simp_all add: decrypt_inv_def decrypt_want_def)

lemma decrypt_pieces_delivers:
  assumes law: "aead_law A" and ck: "cipher_ok ck"
    and "decrypt_inv ck n tot Q st"
    and "ds_done st = n - 1 \<or> int (length (ds_buf st)) < ck_chunk_size ck + int CHUNK_OVERHEAD"
    and "prefix (ds_buf st @ concat ps) (cipher_from A ck (ds_index st) Q)"
    and "fin = None \<Longrightarrow> ds_buf st @ concat ps = cipher_from A ck (ds_index st) Q"
  shows "delivers (decrypt_pieces A ck (ck_chunk_size ck + int CHUNK_OVERHEAD) n tot ps fin st) (decrypt_want tot Q st)
    \<and> (fin = None \<longrightarrow> snd (decrypt_pieces A ck (ck_chunk_size ck + int CHUNK_OVERHEAD) n tot ps fin st) = None)"
  using assms(3-6)
proof (induction ps arbitrary: st Q)
  case Nil
  show ?case
  proof (cases fin)
    case None
    with Nil have "ds_buf st = cipher_from A ck (ds_index st) Q" by simp
    from decrypt_tail_want [OF law ck Nil(1) this Nil(2)] show ?thesis
      using None by (simp add: delivers_def)
  qed (simp add: delivers_def raising_def stream_bytes_def)
next
  case (Cons p ps)
  let ?stride = "ck_chunk_size ck + int CHUNK_OVERHEAD" and ?st = "st\<lparr>ds_buf := ds_buf st @ p\<rparr>"
  have "prefix (ds_buf ?st) (cipher_from A ck (ds_index ?st) Q)"
    using Cons.prems(3) by (auto simp: prefix_def)
  from decrypt_full_going [OF law ck _ this, of n tot] obtain ys Q' st' where
      full: "decrypt_full A ck ?stride n tot ?st = (ys, Going st')" and inv': "decrypt_inv ck n tot Q' st'"
      and want: "decrypt_want tot Q st = concat ys @ decrypt_want tot Q' st'"
      and all: "\<And>more. ds_buf ?st @ more = cipher_from A ck (ds_index st) Q
        \<longleftrightarrow> ds_buf st' @ more = cipher_from A ck (ds_index st') Q'"
      and pre: "\<And>more. prefix (ds_buf ?st @ more) (cipher_from A ck (ds_index st) Q)
        \<longleftrightarrow> prefix (ds_buf st' @ more) (cipher_from A ck (ds_index st') Q')"
      and stop: "ds_done st' = n - 1 \<or> int (length (ds_buf st')) < ?stride"
    using Cons.prems(1) by auto
  have p': "prefix (ds_buf st' @ concat ps) (cipher_from A ck (ds_index st') Q')"
    using Cons.prems(3) pre [of "concat ps"] by simp
  have a': "fin = None \<Longrightarrow> ds_buf st' @ concat ps = cipher_from A ck (ds_index st') Q'"
    using Cons.prems(4) all [of "concat ps"] by simp
  have rest: "delivers (decrypt_pieces A ck ?stride n tot ps fin st') (decrypt_want tot Q' st')
      \<and> (fin = None \<longrightarrow> snd (decrypt_pieces A ck ?stride n tot ps fin st') = None)"
    by (rule Cons.IH [OF inv' stop p' a'])
  have "\<not> tot \<le> ds_emitted st" using Cons.prems(1) by (simp add: decrypt_inv_def)
  then have "decrypt_pieces A ck ?stride n tot (p # ps) fin st
      = take_over (ys, None) (decrypt_pieces A ck ?stride n tot ps fin st')"
    using full by (simp add: take_over_def split_beta)
  then show ?case
    unfolding want using rest by (auto simp: delivers_def take_over_def stream_bytes_def)
qed

section \<open>Ranges of the ciphertext\<close>

lemma cipher_from_split:
  assumes "aead_law A" and "cipher_ok ck" and "ck_chunk_size ck \<le> int (length P)" and "c = nat (ck_chunk_size ck)"
  shows "\<exists>e. cipher_from A ck i P = e @ cipher_from A ck (i + 1) (drop c P) \<and> length e = c + CHUNK_OVERHEAD
    \<and> e = cipher_from A ck i (take c P)"
proof -
  have c: "0 < c" "int c = ck_chunk_size ck" using assms(2,4) by (auto simp: cipher_ok_def)
  then have "P \<noteq> []" "c \<le> length P" using assms(3) by auto
  then have "cipher_from A ck i P = enc A ck (take c P) i @ cipher_from A ck (i + 1) (drop c P)"
    and "cipher_from A ck i (take c P) = enc A ck (take c P) i"
    using c assms(4) by (subst cipher_from.simps, simp)+
  then show ?thesis using \<open>c \<le> length P\<close> length_enc [OF assms(1,2), of "take c P" i] by auto
qed

lemma cipher_from_drop:
  assumes "aead_law A" and "cipher_ok ck" and "c = nat (ck_chunk_size ck)" and "k * c \<le> length P"
  shows "drop (k * (c + CHUNK_OVERHEAD)) (cipher_from A ck i P) = cipher_from A ck (i + int k) (drop (k * c) P)"
  using assms(4)
proof (induction k arbitrary: i P)
  case (Suc k)
  have c: "ck_chunk_size ck \<le> int (length P)" using Suc.prems assms(2,3) by (auto simp: cipher_ok_def)
  obtain e where e: "cipher_from A ck i P = e @ cipher_from A ck (i + 1) (drop c P)" "length e = c + CHUNK_OVERHEAD"
    using cipher_from_split [OF assms(1,2) c assms(3)] by blast
  have "k * c \<le> length (drop c P)" using Suc.prems by simp
  from Suc.IH [OF this, of "i + 1"] show ?case
    unfolding e(1) using e(2) by (simp add: ac_simps)
qed simp

lemma cipher_from_take:
  assumes "aead_law A" and "cipher_ok ck" and "c = nat (ck_chunk_size ck)"
  shows "take (k * (c + CHUNK_OVERHEAD)) (cipher_from A ck i P) = cipher_from A ck i (take (k * c) P)"
proof (induction k arbitrary: i P)
  case (Suc k)
  have c: "0 < c" "int c = ck_chunk_size ck" using assms(2,3) by (auto simp: cipher_ok_def)
  show ?case
  proof (cases "c \<le> length P")
    case True
    then have "ck_chunk_size ck \<le> int (length P)" using c by simp
    then obtain e where e: "cipher_from A ck i P = e @ cipher_from A ck (i + 1) (drop c P)" "length e = c + CHUNK_OVERHEAD"
        "e = cipher_from A ck i (take c P)"
      using cipher_from_split [OF assms(1,2) _ assms(3)] by blast
    let ?P = "take (Suc k * c) P"
    have l: "ck_chunk_size ck \<le> int (length ?P)" and tk: "take c ?P = take c P" "drop c ?P = take (k * c) (drop c P)"
      using True c by (auto simp: drop_take min_def)
    obtain e' where "cipher_from A ck i ?P = e' @ cipher_from A ck (i + 1) (drop c ?P)" "e' = cipher_from A ck i (take c ?P)"
      using cipher_from_split [OF assms(1,2) l assms(3)] by blast
    with e Suc.IH [of "i + 1" "drop c P"] show ?thesis unfolding tk by simp
  next
    case False
    then have "take (Suc k * c) P = P" by simp
    moreover have "length (cipher_from A ck i P) \<le> c + CHUNK_OVERHEAD"
    proof (cases "P = []")
      case nonempty: False
      have "cipher_from A ck i P = enc A ck P i"
        using False nonempty c(1) assms(2,3) by (subst cipher_from.simps) (simp add: cipher_ok_def)
      then show ?thesis using False length_enc [OF assms(1,2), of P i] by simp
    qed simp
    ultimately show ?thesis by simp
  qed
qed simp

lemma ciphertext_range:
  fixes P :: bytes
  assumes "aead_law A" and "cipher_ok ck" and c: "c = nat (ck_chunk_size ck)" and raw: "length raw = HEADER_SIZE"
    and "sc * c \<le> length P"
  shows "take (n * (c + CHUNK_OVERHEAD)) (drop (HEADER_SIZE + sc * (c + CHUNK_OVERHEAD)) (raw @ cipher_from A ck 0 P))
    = cipher_from A ck (int sc) (take (n * c) (drop (sc * c) P))"
  using assms(5) raw cipher_from_drop [OF assms(1,2) c, of sc P 0] cipher_from_take [OF assms(1,2) c, of n "int sc"]
  by simp

text \<open>A range of the plaintext lies in the chunks from the one of its first byte to the one of its last.\<close>

lemma chunk_range:
  fixes b lst c :: int
  assumes "0 < c" and "0 \<le> b" and "b \<le> lst" and "lst < int (length P)"
    and sc: "sc = b div c" and n: "n = lst div c - sc + 1"
    and Q: "Q = take (nat (n * c)) (drop (nat (sc * c)) P)"
  shows "0 \<le> sc" and "0 < n" and "sc * c \<le> b" and "(n - 1) * c < int (length Q)" and "int (length Q) \<le> n * c"
    and "b mod c + (lst - b + 1) \<le> int (length Q)" and "(n - 1) * c < b mod c + (lst - b + 1)"
    and "sc + int (length Q) \<le> int (length P)"
    and "take (nat (lst - b + 1)) (drop (nat (b mod c)) Q) = subrange P b lst"
proof -
  have b: "b = sc * c + b mod c" "0 \<le> b mod c" "b mod c < c" using assms(1) sc by simp_all
  have l: "lst = (lst div c) * c + lst mod c" "0 \<le> lst mod c" "lst mod c < c" using assms(1) by simp_all
  have nc: "(n - 1) * c = (lst div c) * c - sc * c" "n * c = (lst div c) * c - sc * c + c"
    by (simp_all add: n algebra_simps)
  show sc0: "0 \<le> sc" using assms sc by (simp add: pos_imp_zdiv_nonneg_iff)
  show "0 < n" using zdiv_mono1 [OF assms(3,1)] n sc by simp
  then have "0 \<le> n * c" using assms(1) by simp
  show scb: "sc * c \<le> b" using b by linarith
  have "0 \<le> sc * c" using sc0 assms(1) by simp
  then have len: "int (length Q) = min (n * c) (int (length P) - sc * c)"
  proof -
    have le: "nat (sc * c) \<le> length P" using scb assms(3,4) by (simp add: nat_le_iff)
    have "int (length Q) = min (int (length P - nat (sc * c))) (int (nat (n * c)))"
      by (simp only: Q length_take length_drop of_nat_min)
    with le \<open>0 \<le> sc * c\<close> \<open>0 \<le> n * c\<close> show ?thesis by (simp only: of_nat_diff int_nat_eq if_True min.commute)
  qed
  show "int (length Q) \<le> n * c" using len by simp
  show "(n - 1) * c < int (length Q)" using len nc l assms(1,4) by linarith
  show tail: "b mod c + (lst - b + 1) \<le> int (length Q)" using len nc l b assms(4) by linarith
  show "(n - 1) * c < b mod c + (lst - b + 1)" using nc l b by linarith
  have "sc * 1 \<le> sc * c" using sc0 assms(1) by (intro mult_left_mono) auto
  then show "sc + int (length Q) \<le> int (length P)" using len by linarith
  have "nat (lst - b + 1) \<le> nat (n * c) - nat (b mod c)"
    using tail len b(2) \<open>0 \<le> n * c\<close> by linarith
  moreover have "nat (b mod c) + nat (sc * c) = nat b" using b \<open>0 \<le> sc * c\<close> by linarith
  ultimately show "take (nat (lst - b + 1)) (drop (nat (b mod c)) Q) = subrange P b lst"
    by (simp add: Q drop_take subrange_def min_def)
qed

lemma decrypting_stream_delivers:
  assumes "aead_law A" and "cipher_ok ck" and c: "c = ck_chunk_size ck"
    and r: "0 \<le> b" "b \<le> lst" "lst < int (length P)" and "int (length P) \<le> 2 ^ 64"
    and sc: "sc = b div c" and n: "n = lst div c - sc + 1"
    and s: "delivers s (cipher_from A ck sc (take (nat (n * c)) (drop (nat (sc * c)) P)))"
  shows "delivers (decrypting_stream A ck sc n (b mod c) (lst - b + 1) c s) (subrange P b lst)
    \<and> (snd s = None \<longrightarrow> snd (decrypting_stream A ck sc n (b mod c) (lst - b + 1) c s) = None)"
proof -
  define Q where "Q = take (nat (n * c)) (drop (nat (sc * c)) P)"
  have c0: "0 < c" using assms(2) c by (simp add: cipher_ok_def)
  note cr = chunk_range [OF c0 r sc n Q_def]
  let ?st = "\<lparr>ds_buf = [], ds_index = sc, ds_emitted = 0, ds_done = 0, ds_trim = b mod c\<rparr>"
  have inv: "decrypt_inv ck n (lst - b + 1) Q ?st"
    using cr r c0 assms(7) unfolding decrypt_inv_def c [symmetric] by simp
  have want: "decrypt_want (lst - b + 1) Q ?st = subrange P b lst"
    using cr(9) by (simp add: decrypt_want_def)
  have short: "int (length (ds_buf ?st)) < ck_chunk_size ck + int CHUNK_OVERHEAD"
    using c0 c by simp
  have "prefix (stream_bytes s) (cipher_from A ck sc Q)" "snd s = None \<Longrightarrow> stream_bytes s = cipher_from A ck sc Q"
    using s by (simp_all add: delivers_def Q_def)
  then show ?thesis
    using decrypt_pieces_delivers [OF assms(1,2) inv disjI2 [OF short], of "fst s" "snd s"]
    unfolding want by (simp add: decrypting_stream_def c stream_bytes_def)
qed

section \<open>The header cache and the probe\<close>

definition hc_wf :: "header_cache \<Rightarrow> bool" where
  "hc_wf hc \<longleftrightarrow> 0 < hc_capacity hc \<and> dict_ok (hc_store hc) \<and> map fst (hc_store hc) = hc_order hc
     \<and> length (hc_store hc) \<le> hc_capacity hc"

lemma new_header_cache_wf: "hc_wf new_header_cache"
  by (simp add: hc_wf_def new_header_cache_def HEADER_CACHE_CAPACITY_def)

lemma delete_hd: "dict_ok ((k, v) # d) \<Longrightarrow> AList.delete k ((k, v) # d) = d"
  by (force simp: AList.delete_eq dict_ok_def filter_id_conv split: prod.splits)

text \<open>
  The cache never forgets to evict: it stays within its capacity, and the entry just put
  is found.
\<close>

lemma hc_put_wf:
  assumes "hc_wf hc" and "hc_lookup vid hc = None"
  shows "\<exists>hc'. hc_put vid x hc = Inr hc' \<and> hc_wf hc' \<and> hc_lookup vid hc' = Some x"
proof -
  have new: "vid \<notin> fst ` set (hc_store hc)" using assms(2) by (simp add: hc_lookup_def map_of_eq_None_iff)
  then have put: "hc_put vid x hc = rbind
        (if hc_capacity hc \<le> length (hc_store hc)
         then (case hc_order hc of
             [] \<Rightarrow> Inl IndexError
           | old # order \<Rightarrow> Inr (hc\<lparr>hc_order := order, hc_store := AList.delete old (hc_store hc)\<rparr>))
         else Inr hc)
        (\<lambda>hc1. Inr (hc1\<lparr>hc_store := AList.update vid x (hc_store hc1), hc_order := hc_order hc1 @ [vid]\<rparr>))"
    using assms(2) by (simp add: hc_put_def dict_has_iff_map_of hc_lookup_def)
  show ?thesis
  proof (cases "hc_capacity hc \<le> length (hc_store hc)")
    case True
    then obtain old v d where d: "hc_store hc = (old, v) # d"
      using assms(1) by (cases "hc_store hc") (auto simp: hc_wf_def)
    then have del: "AList.delete old d = d" and order: "hc_order hc = old # map fst d"
      using assms(1) delete_hd [of old v d] by (auto simp: hc_wf_def)
    have "hc_put vid x hc = Inr (hc\<lparr>hc_store := d @ [(vid, x)], hc_order := map fst d @ [vid]\<rparr>)"
      using True new d unfolding put order by (simp add: update_new del)
    moreover have "map_of d vid = None" using new d by (simp add: map_of_eq_None_iff)
    ultimately show ?thesis
      using assms(1) d new order by (auto simp: hc_wf_def hc_lookup_def dict_ok_def map_add_def)
  next
    case False
    then have "hc_put vid x hc = Inr (hc\<lparr>hc_store := hc_store hc @ [(vid, x)], hc_order := hc_order hc @ [vid]\<rparr>)"
      using new unfolding put by (simp add: update_new)
    moreover have "map_of (hc_store hc) vid = None" using new by (simp add: map_of_eq_None_iff)
    moreover have "vid \<notin> set (hc_order hc)"
      using new assms(1) by (metis hc_wf_def image_set)
    ultimately show ?thesis
      using assms(1) False by (auto simp: hc_wf_def hc_lookup_def dict_ok_def map_add_def)
  qed
qed

lemma probe_delivers:
  assumes "prefix (buf @ concat ps) W" and "fin = None \<Longrightarrow> buf @ concat ps = W" and "int (length W) = target"
  shows "probe target buf ps fin = Inr W \<or> (fin \<noteq> None \<and> (\<exists>e. probe target buf ps fin = Inl e))"
  using assms(1,2)
proof (induction ps arbitrary: buf)
  case (Cons p ps)
  show ?case
  proof (cases "target \<le> int (length (buf @ p))")
    case True
    have "prefix (buf @ p) W" using Cons.prems(1) by (auto simp: prefix_def)
    moreover have "length W \<le> length (buf @ p)" using True assms(3) by simp
    ultimately have "buf @ p = W" by (auto simp: prefix_def)
    with True show ?thesis by simp
  next
    case False
    with Cons.IH [of "buf @ p"] Cons.prems show ?thesis by simp
  qed
qed (auto split: option.splits)

lemma read_header_sealed:
  assumes "header_ok h" and "hmac_law (cx_mac cx)" and "length (cx_master cx) = 32"
    and "derive_file_key (cx_kdf cx) (cx_master cx) (h_file_salt h) = Inr key"
    and "header_serialize (cx_mac cx) key h = Inr raw"
  shows "read_header cx raw = Inr (Some (h, key))" and "length raw = HEADER_SIZE"
proof -
  obtain raw' where r: "header_serialize (cx_mac cx) key h = Inr raw'" "length raw' = HEADER_SIZE" "take 4 raw' = MAGIC"
      "header_verify (cx_mac cx) (raw' @ []) key = Inr ()" "header_parse (raw' @ []) = Inr h"
    using header_serialize_ok [OF header_ok_packable [OF assms(1)] assms(2)] assms(1) by metis
  have raw: "raw' = raw" using r(1) assms(5) by simp
  show "length raw = HEADER_SIZE" using r raw by simp
  with r assms(4) show "read_header cx raw = Inr (Some (h, key))"
    unfolding raw by (simp add: read_header_def HEADER_SIZE_def MAGIC_def numeral_eq_Suc)
qed

section \<open>Encrypted reads are exact\<close>

text \<open>
  What the decorator needs of the repository under it. \<open>stored w fv X\<close>: in the state \<open>w\<close> the
  version's stored bytes are \<open>X\<close>.
\<close>

locale content_reader =
  fixes get :: "'w inner_get"
    and stored :: "'w \<Rightarrow> file_version \<Rightarrow> bytes \<Rightarrow> bool"
  assumes stored_size: "stored w fv X \<Longrightarrow> fv_size fv = int (length X)"
    and stored_read: "stored w fv X \<Longrightarrow> 0 \<le> b \<Longrightarrow> b \<le> e \<Longrightarrow> e < int (length X) \<Longrightarrow>
      \<exists>st w'. get fv b e admit w = (Inr st, w') \<and> delivers st (subrange X b e) \<and> stored w' fv X"

text \<open>A version that holds the plaintext \<open>P\<close>, as an upload under this master key writes it.\<close>

definition sealed_bytes :: "crypto_ctx \<Rightarrow> file_header \<Rightarrow> bytes \<Rightarrow> bytes \<Rightarrow> bytes \<Rightarrow> bool" where
  "sealed_bytes cx h key P X \<longleftrightarrow> header_ok h \<and> length key = 32
     \<and> derive_file_key (cx_kdf cx) (cx_master cx) (h_file_salt h) = Inr key
     \<and> (\<exists>raw. header_serialize (cx_mac cx) key h = Inr raw
          \<and> X = raw @ cipher_from (cx_aead cx) \<lparr>ck_file_key = key, ck_file_salt = h_file_salt h, ck_chunk_size = h_chunk_size h\<rparr> 0 P)"

definition crypto_laws :: "crypto_ctx \<Rightarrow> bool" where
  "crypto_laws cx \<longleftrightarrow> aead_law (cx_aead cx) \<and> hmac_law (cx_mac cx) \<and> length (cx_master cx) = 32"

text \<open>The header cache knows the version or has never seen it.\<close>

definition hc_right :: "file_version \<Rightarrow> file_header \<times> bytes \<Rightarrow> header_cache \<Rightarrow> bool" where
  "hc_right fv hk hc \<longleftrightarrow> hc_wf hc \<and> hc_lookup (fv_id fv) hc \<in> {None, Some (Some hk)}"

text \<open>
  The two reads of the repository below that one read of the decorator makes: the probe of the header, when the
  version is not in the header cache, and then the chunks that \<open>plan_range\<close> asks for. A raised exception and a
  stream that ends with one count alike.
\<close>

definition failed :: "stream res \<times> 'w \<Rightarrow> bool" where
  "failed x \<longleftrightarrow> snd (of_res (fst x)) \<noteq> None"

definition probed :: "'w inner_get \<Rightarrow> file_version \<Rightarrow> header_cache \<Rightarrow> 'w \<Rightarrow> 'w" where
  "probed get fv hc w = (if hc_lookup (fv_id fv) hc = None then snd (get fv 0 (int HEADER_SIZE - 1) False w) else w)"

definition probe_failed :: "'w inner_get \<Rightarrow> file_version \<Rightarrow> header_cache \<Rightarrow> 'w \<Rightarrow> bool" where
  "probe_failed get fv hc w \<longleftrightarrow> hc_lookup (fv_id fv) hc = None \<and> failed (get fv 0 (int HEADER_SIZE - 1) False w)"

definition chunks_failed :: "'w inner_get \<Rightarrow> file_version \<Rightarrow> int \<Rightarrow> int \<Rightarrow> int \<Rightarrow> bool \<Rightarrow> 'w \<Rightarrow> bool" where
  "chunks_failed get fv c b e admit w \<longleftrightarrow> (case plan_range c (fv_size fv) b e of
     Inr (Some (_, _, _, ct0, ct1, _)) \<Rightarrow> failed (get fv ct0 ct1 admit w)
   | _ \<Rightarrow> False)"

lemma delivers_raising [simp]: "delivers (raising e) want"
  by (simp add: delivers_def raising_def stream_bytes_def)

lemma sealed_nonempty:
  assumes "crypto_laws cx" and "sealed_bytes cx h key P X"
  shows "HEADER_SIZE \<le> length X" and "X \<noteq> []"
proof -
  obtain raw where "header_serialize (cx_mac cx) key h = Inr raw" "prefix raw X"
    using assms(2) by (auto simp: sealed_bytes_def)
  then show "HEADER_SIZE \<le> length X"
    using read_header_sealed(2) [of h cx key raw] assms prefix_length_le [of raw X]
    by (auto simp: sealed_bytes_def crypto_laws_def)
  then show "X \<noteq> []" by (auto simp: HEADER_SIZE_def)
qed

context content_reader
begin

lemma detect_sealed:
  assumes "crypto_laws cx" and X: "sealed_bytes cx h key P X" and st: "stored w fv X" and hc: "hc_right fv (h, key) hc"
  shows "\<exists>r hc' w'. detect cx get fv (hc, w) = (r, hc', w') \<and> stored w' fv X \<and> hc_right fv (h, key) hc'
    \<and> w' = probed get fv hc w
    \<and> (r = Inr (Some (h, key)) \<or> (\<exists>e. r = Inl e) \<and> probe_failed get fv hc w)"
proof (cases "hc_lookup (fv_id fv) hc")
  case (Some x)
  with st hc show ?thesis by (auto simp: detect_def hc_right_def probed_def)
next
  case None
  obtain raw where raw: "header_serialize (cx_mac cx) key h = Inr raw" "prefix raw X"
    using X by (auto simp: sealed_bytes_def)
  note rh = read_header_sealed [OF _ _ _ _ raw(1)]
  have read: "read_header cx raw = Inr (Some (h, key))" and len: "length raw = HEADER_SIZE"
    using rh assms(1) X by (auto simp: crypto_laws_def sealed_bytes_def)
  have big: "int HEADER_SIZE \<le> int (length X)" using prefix_length_le [OF raw(2)] len by simp
  have sz: "fv_size fv = int (length X)" by (rule stored_size [OF st])
  have h0: "0 < int HEADER_SIZE" by (simp add: HEADER_SIZE_def)
  obtain s w' where s: "get fv 0 (int HEADER_SIZE - 1) False w = (Inr s, w')"
      "delivers s (subrange X 0 (int HEADER_SIZE - 1))" "stored w' fv X"
    using stored_read [OF st, of 0 "int HEADER_SIZE - 1" False] big h0 by auto
  have W: "subrange X 0 (int HEADER_SIZE - 1) = raw"
    using raw(2) len by (auto simp: subrange_def prefix_def)
  have pr: "probe (int HEADER_SIZE) [] (fst s) (snd s) = Inr raw
      \<or> (snd s \<noteq> None \<and> (\<exists>e. probe (int HEADER_SIZE) [] (fst s) (snd s) = Inl e))"
    using s(2) len unfolding W by (intro probe_delivers) (auto simp: delivers_def stream_bytes_def)
  have not_small: "\<not> fv_size fv < int (length MAGIC)" "min (int HEADER_SIZE) (fv_size fv) = int HEADER_SIZE"
    using big sz by (simp_all add: MAGIC_def HEADER_SIZE_def)
  obtain hc' where hc': "hc_put (fv_id fv) (Some (h, key)) hc = Inr hc'" "hc_wf hc'"
      "hc_lookup (fv_id fv) hc' = Some (Some (h, key))"
    using hc_put_wf [of hc "fv_id fv" "Some (h, key)"] hc None by (auto simp: hc_right_def)
  show ?thesis
    using pr
  proof
    assume "probe (int HEADER_SIZE) [] (fst s) (snd s) = Inr raw"
    then have "detect cx get fv (hc, w) = (Inr (Some (h, key)), hc', w')"
      using None not_small s(1) read hc'(1) by (simp add: detect_def remember_def)
    with s hc' None show ?thesis by (auto simp: hc_right_def probed_def)
  next
    assume "snd s \<noteq> None \<and> (\<exists>e. probe (int HEADER_SIZE) [] (fst s) (snd s) = Inl e)"
    then obtain e where "probe (int HEADER_SIZE) [] (fst s) (snd s) = Inl e" "snd s \<noteq> None" by blast
    moreover from this have "detect cx get fv (hc, w) = (Inl e, hc, w')"
      using None not_small s(1) by (simp add: detect_def remember_def)
    ultimately show ?thesis using s hc None by (simp add: probed_def probe_failed_def failed_def)
  qed
qed

lemma plan_range_plain:
  assumes "0 < c" and "0 \<le> b" and "0 \<le> p"
    and lst: "lst = (if e < 0 \<or> p \<le> e then p - 1 else e)"
  shows "plan_range c (int HEADER_SIZE + cipher_len p c) b e =
    (if lst < b \<or> p \<le> b then Inr None
     else Inr (Some (b div c, b mod c, lst div c - b div c + 1, int HEADER_SIZE + b div c * (c + int CHUNK_OVERHEAD),
       min (int HEADER_SIZE + (lst div c + 1) * (c + int CHUNK_OVERHEAD)) (int HEADER_SIZE + cipher_len p c) - 1, lst - b + 1)))"
proof (cases "lst < b \<or> p \<le> b")
  case True
  then show ?thesis
    using plaintext_size_inverts [OF assms(1,3)] lst by (auto simp: plan_range_def Let_def)
next
  case False
  then have "\<not> lst < 0" "\<not> b < 0" "\<not> b div c < 0" "\<not> lst div c + 1 < 0"
    using assms by (auto simp: pos_imp_zdiv_neg_iff not_less pos_imp_zdiv_nonneg_iff)
  with False show ?thesis
    unfolding plan_range_def plaintext_size_inverts [OF assms(1,3)] Let_def lst [symmetric] rbind_simps
    by (simp add: plaintext_offset_to_chunk_def chunk_to_ciphertext_offset_def)
qed

lemma plan_covers:
  assumes law: "aead_law A" and ck: "cipher_ok ck" and c: "c = ck_chunk_size ck" and raw: "length raw = HEADER_SIZE"
    and r: "0 \<le> b" "b \<le> lst" "lst < int (length P)"
    and X: "X = raw @ cipher_from A ck 0 P"
    and ct0: "ct0 = int HEADER_SIZE + b div c * (c + int CHUNK_OVERHEAD)"
    and ct1: "ct1 = min (int HEADER_SIZE + (lst div c + 1) * (c + int CHUNK_OVERHEAD)) (int (length X)) - 1"
    and n: "n = lst div c - b div c + 1"
  shows "0 \<le> ct0" and "ct0 \<le> ct1" and "ct1 < int (length X)"
    and "subrange X ct0 ct1 = cipher_from A ck (b div c) (take (nat (n * c)) (drop (nat (b div c * c)) P))"
proof -
  let ?s = "c + int CHUNK_OVERHEAD" and ?sc = "b div c"
  have c0: "0 < c" using ck c by (simp add: cipher_ok_def)
  note cr = chunk_range [OF c0 r refl n refl]
  obtain k where k: "?sc = int k" using cr(1) nonneg_int_cases by blast
  obtain m where m: "n = int m" using cr(2) by (metis zero_less_imp_eq_int)
  define d where "d = nat c"
  have d: "c = int d" "d = nat (ck_chunk_size ck)" using c0 c by (simp_all add: d_def)
  have kl: "k * d \<le> length P" using cr(3) r k d(1) by (metis le_trans less_imp_le of_nat_le_iff of_nat_mult order_trans)
  have s: "?s = int (d + CHUNK_OVERHEAD)" by (simp add: d)
  have e0: "ct0 = int (HEADER_SIZE + k * (d + CHUNK_OVERHEAD))" by (simp add: ct0 k s)
  then show "0 \<le> ct0" by simp
  have span: "(lst div c + 1) * ?s = ?sc * ?s + n * ?s" by (simp add: n algebra_simps)
  have body: "drop (HEADER_SIZE + k * (d + CHUNK_OVERHEAD)) X = cipher_from A ck (int k) (drop (k * d) P)"
    using cipher_from_drop [OF law ck d(2) kl, of 0] raw by (simp add: X)
  have ne: "0 < length (cipher_from A ck (int k) (drop (k * d) P))"
  proof -
    have "drop (k * d) P \<noteq> []" using cr(3) r k d(1) by (simp flip: of_nat_mult)
    then show ?thesis
      using c0 c length_enc [OF law ck] by (subst cipher_from.simps) (simp add: overhead_pos [simplified])
  qed
  then have "HEADER_SIZE + k * (d + CHUNK_OVERHEAD) < length X" by (simp flip: body)
  then have long: "ct0 < int (length X)" using e0 by (simp only: of_nat_less_iff)
  have "0 < n * ?s" using cr(2) c0 overhead_pos by (intro mult_pos_pos) auto
  then show "ct0 \<le> ct1" using long unfolding ct1 span by (simp add: ct0)
  show "ct1 < int (length X)" by (simp add: ct1)
  have "take (nat (ct1 - ct0 + 1)) (drop (HEADER_SIZE + k * (d + CHUNK_OVERHEAD)) X)
      = take (m * (d + CHUNK_OVERHEAD)) (drop (HEADER_SIZE + k * (d + CHUNK_OVERHEAD)) X)"
  proof -
    have e1: "ct1 = min (ct0 + int (m * (d + CHUNK_OVERHEAD))) (int (length X)) - 1"
    proof -
      have "(lst div c + 1) * ?s = b div c * ?s + int (m * (d + CHUNK_OVERHEAD))" using span unfolding m s by simp
      then show ?thesis unfolding ct1 ct0 by simp
    qed
    have "nat (min (int x + int y) (int z) - 1 - int x + 1) = min y (z - x)" if "x < z" for x y z :: nat
      using that by linarith
    then have "nat (ct1 - ct0 + 1) = min (m * (d + CHUNK_OVERHEAD)) (length X - (HEADER_SIZE + k * (d + CHUNK_OVERHEAD)))"
      using long unfolding e1 e0 of_nat_less_iff by blast
    then show ?thesis by (simp add: min_def)
  qed
  moreover have "nat ct0 = HEADER_SIZE + k * (d + CHUNK_OVERHEAD)" unfolding e0 by (rule nat_int)
  moreover have "nat (b div c * c) = k * d" "nat (n * c) = m * d"
    using k m d(1) by (metis nat_int of_nat_mult)+
  ultimately show "subrange X ct0 ct1 = cipher_from A ck (b div c) (take (nat (n * c)) (drop (nat (b div c * c)) P))"
    using cipher_from_take [OF law ck d(2), of m "int k" "drop (k * d) P"] body k
    by (simp add: subrange_def)
qed

lemma planned_inside:
  assumes cx: "crypto_laws cx" and X: "sealed_bytes cx h key P X" and sz: "fv_size fv = int (length X)" and b: "0 \<le> b"
    and plan: "plan_range (h_chunk_size h) (fv_size fv) b e = Inr (Some (i, t, n, ct0, ct1, k))"
  shows "0 \<le> ct0 \<and> ct0 \<le> ct1 \<and> ct1 < int (length X)"
proof -
  define c where "c = h_chunk_size h"
  define ck where "ck = \<lparr>ck_file_key = key, ck_file_salt = h_file_salt h, ck_chunk_size = c\<rparr>"
  define lst where "lst = (if e < 0 \<or> int (length P) \<le> e then int (length P) - 1 else e)"
  obtain raw where raw: "header_serialize (cx_mac cx) key h = Inr raw" and XP: "X = raw @ cipher_from (cx_aead cx) ck 0 P"
    using X by (auto simp: sealed_bytes_def ck_def c_def)
  have hdr: "header_ok h" "length key = 32" "derive_file_key (cx_kdf cx) (cx_master cx) (h_file_salt h) = Inr key"
    using X by (auto simp: sealed_bytes_def)
  have law: "aead_law (cx_aead cx)" using cx by (simp add: crypto_laws_def)
  have len: "length raw = HEADER_SIZE"
    using read_header_sealed(2) [OF hdr(1) _ _ hdr(3) raw] cx by (simp add: crypto_laws_def)
  have ck: "cipher_ok ck" "0 < c" "c = ck_chunk_size ck"
    using hdr by (simp_all add: ck_def c_def cipher_ok_def header_ok_def FILE_SALT_SIZE_def)
  have XL: "int (length X) = int HEADER_SIZE + cipher_len (int (length P)) c"
    using length_cipher_from [OF law ck(1), of 0 P] len ck(3) by (simp add: XP)
  note pp = plan_range_plain [OF ck(2) b of_nat_0_le_iff lst_def, folded XL]
  have in_range: "b \<le> lst" "lst < int (length P)"
    using plan pp unfolding sz c_def [symmetric] by (auto simp: lst_def split: if_splits)
  from plan_covers [OF law ck(1,3) len b in_range XP refl refl refl] plan pp in_range
  show ?thesis unfolding sz c_def [symmetric] by auto
qed

lemma range_get_sealed:
  assumes cx: "crypto_laws cx" and X: "sealed_bytes cx h key P X" and st: "stored w fv X"
    and b: "0 \<le> b" and P: "int (length P) \<le> 2 ^ 64"
    and lst: "lst = (if e < 0 \<or> int (length P) \<le> e then int (length P) - 1 else e)"
  shows "\<exists>r w'. crypto_range_get cx get fv b e admit (h, key) w = (Inr r, w') \<and> stored w' fv X
    \<and> delivers r (subrange P b lst)
    \<and> (snd r = None \<or> chunks_failed get fv (h_chunk_size h) b e admit w)"
proof -
  define c where "c = h_chunk_size h"
  define ck where "ck = \<lparr>ck_file_key = key, ck_file_salt = h_file_salt h, ck_chunk_size = c\<rparr>"
  obtain raw where raw: "header_serialize (cx_mac cx) key h = Inr raw" and XP: "X = raw @ cipher_from (cx_aead cx) ck 0 P"
    using X by (auto simp: sealed_bytes_def ck_def c_def)
  have hdr: "header_ok h" "length key = 32" "derive_file_key (cx_kdf cx) (cx_master cx) (h_file_salt h) = Inr key"
    using X by (auto simp: sealed_bytes_def)
  have law: "aead_law (cx_aead cx)" using cx by (simp add: crypto_laws_def)
  have len: "length raw = HEADER_SIZE"
    using read_header_sealed(2) [OF hdr(1) _ _ hdr(3) raw] cx by (simp add: crypto_laws_def)
  have ck: "cipher_ok ck" and nc: "new_cipher key (h_file_salt h) c = Inr ck" and c0: "0 < c" and ckc: "c = ck_chunk_size ck"
    using hdr by (simp_all add: ck_def c_def cipher_ok_def new_cipher_def header_ok_def FILE_SALT_SIZE_def)
  have XL: "int (length X) = int HEADER_SIZE + cipher_len (int (length P)) c"
    using length_cipher_from [OF law ck, of 0 P] len ckc by (simp add: XP)
  have sz: "fv_size fv = int (length X)" by (rule stored_size [OF st])
  note plan = plan_range_plain [OF c0 b _ lst, folded XL, folded sz, simplified]
  show ?thesis
  proof (cases "lst < b \<or> int (length P) \<le> b")
    case True
    then have none: "crypto_range_get cx get fv b e admit (h, key) w = (Inr ([], None), w)"
      using nc plan by (simp add: crypto_range_get_def flip: c_def)
    moreover have "subrange P b lst = []" using True lst by (auto simp: subrange_def)
    ultimately show ?thesis using st by (auto simp: delivers_def stream_bytes_def)
  next
    case False
    then have r: "b \<le> lst" "lst < int (length P)" using lst by auto
    let ?ct0 = "int HEADER_SIZE + b div c * (c + int CHUNK_OVERHEAD)"
      and ?ct1 = "min (int HEADER_SIZE + (lst div c + 1) * (c + int CHUNK_OVERHEAD)) (int (length X)) - 1"
      and ?n = "lst div c - b div c + 1"
    note cov = plan_covers [OF law ck ckc len b r XP refl refl refl]
    obtain s w' where s: "get fv ?ct0 ?ct1 admit w = (Inr s, w')" "delivers s (subrange X ?ct0 ?ct1)" "stored w' fv X"
      using stored_read [OF st cov(1-3)] by blast
    let ?d = "decrypting_stream (cx_aead cx) ck (b div c) ?n (b mod c) (lst - b + 1) c s"
    have go: "crypto_range_get cx get fv b e admit (h, key) w = (Inr ?d, w')"
      using nc plan False s(1) sz by (simp add: crypto_range_get_def flip: c_def)
    have "delivers ?d (subrange P b lst) \<and> (snd s = None \<longrightarrow> snd ?d = None)"
      using decrypting_stream_delivers [OF law ck ckc b r P refl refl] s(2) unfolding cov(4) by blast
    moreover have "chunks_failed get fv (h_chunk_size h) b e admit w" if "snd s \<noteq> None"
      using plan False s(1) sz that by (simp add: chunks_failed_def failed_def flip: c_def)
    ultimately show ?thesis using go s by blast
  qed
qed

text \<open>
  A sealed version reads back as its plaintext. The stream ends normally unless the probe or
  the read of the chunks below did not.
\<close>

lemma crypto_get_sealed:
  assumes cx: "crypto_laws cx" and X: "sealed_bytes cx h key P X" and st: "stored w fv X"
    and hc: "hc_right fv (h, key) hc" and b: "0 \<le> b" and P: "int (length P) \<le> 2 ^ 64"
    and lst: "lst = (if e < 0 \<or> int (length P) \<le> e then int (length P) - 1 else e)"
  shows "\<exists>r hc' w'. crypto_get cx get fv b e admit (hc, w) = (r, hc', w') \<and> stored w' fv X \<and> hc_right fv (h, key) hc'
    \<and> delivers (of_res r) (subrange P b lst)
    \<and> (snd (of_res r) = None \<or> probe_failed get fv hc w
        \<or> chunks_failed get fv (h_chunk_size h) b e admit (probed get fv hc w))"
proof -
  obtain r hc1 where d: "detect cx get fv (hc, w) = (r, hc1, probed get fv hc w)" "stored (probed get fv hc w) fv X"
      "hc_right fv (h, key) hc1" "r = Inr (Some (h, key)) \<or> (\<exists>e. r = Inl e) \<and> probe_failed get fv hc w"
    using detect_sealed [OF cx X st hc] by blast
  have "0 < length X" using sealed_nonempty(2) [OF cx X] by simp
  then have ne: "\<not> fv_size fv \<le> 0" using stored_size [OF st] by simp
  from d(4) show ?thesis
  proof
    assume r: "r = Inr (Some (h, key))"
    obtain q w2 where q: "crypto_range_get cx get fv b e admit (h, key) (probed get fv hc w) = (Inr q, w2)" "stored w2 fv X"
        "delivers q (subrange P b lst)"
        "snd q = None \<or> chunks_failed get fv (h_chunk_size h) b e admit (probed get fv hc w)"
      using range_get_sealed [OF cx X d(2) b P lst, where admit = admit] by blast
    have "crypto_get cx get fv b e admit (hc, w) = (Inr q, hc1, w2)"
      using ne d(1) r q(1) by (simp add: crypto_get_def)
    with q d(3) show ?thesis by fastforce
  next
    assume x: "(\<exists>e. r = Inl e) \<and> probe_failed get fv hc w"
    then obtain e' where "r = Inl e'" by blast
    then have "crypto_get cx get fv b e admit (hc, w) = (Inl e', hc1, probed get fv hc w)"
      using ne d(1) by (simp add: crypto_get_def)
    with x d show ?thesis by fastforce
  qed
qed

end

text \<open>
  A repository that can be up for a version: then its reads end normally, and the probe, which
  is not kept by the cache, leaves it up.
\<close>

locale live_reader = content_reader +
  fixes up :: "'a \<Rightarrow> file_version \<Rightarrow> bytes \<Rightarrow> bool"
  assumes up_read: "stored w fv X \<Longrightarrow> up w fv X \<Longrightarrow> 0 \<le> b \<Longrightarrow> b \<le> e \<Longrightarrow> e < int (length X) \<Longrightarrow> \<not> failed (get fv b e admit w)"
    and up_probe: "stored w fv X \<Longrightarrow> up w fv X \<Longrightarrow> 0 \<le> b \<Longrightarrow> b \<le> e \<Longrightarrow> e < int (length X)
      \<Longrightarrow> up (snd (get fv b e False w)) fv X"
begin

lemma crypto_get_complete:
  assumes cx: "crypto_laws cx" and X: "sealed_bytes cx h key P X" and st: "stored w fv X" and up: "up w fv X"
    and hc: "hc_right fv (h, key) hc" and b: "0 \<le> b" and P: "int (length P) \<le> 2 ^ 64"
    and lst: "lst = (if e < 0 \<or> int (length P) \<le> e then int (length P) - 1 else e)"
  shows "\<exists>s. fst (crypto_get cx get fv b e admit (hc, w)) = Inr s \<and> snd s = None \<and> stream_bytes s = subrange P b lst"
proof -
  have h: "0 \<le> int HEADER_SIZE - 1" "int HEADER_SIZE - 1 < int (length X)"
    using sealed_nonempty(1) [OF cx X] by (auto simp: HEADER_SIZE_def)
  have p: "\<not> probe_failed get fv hc w" using up_read [OF st up order_refl h] by (simp add: probe_failed_def)
  have w1: "stored (probed get fv hc w) fv X" "up (probed get fv hc w) fv X"
    using stored_read [OF st order_refl h, of False] up_probe [OF st up order_refl h] st up by (auto simp: probed_def)
  have c: "\<not> chunks_failed get fv (h_chunk_size h) b e admit (probed get fv hc w)"
  proof -
    have "0 \<le> ct0 \<and> ct0 \<le> ct1 \<and> ct1 < int (length X)"
      if "plan_range (h_chunk_size h) (fv_size fv) b e = Inr (Some (i, t, n, ct0, ct1, k))" for i t n ct0 ct1 k
      using planned_inside [OF cx X stored_size [OF st] b that] .
    then show ?thesis using up_read [OF w1] by (auto simp: chunks_failed_def split: sum.splits option.splits)
  qed
  from crypto_get_sealed [OF cx X st hc b P lst, of admit] p c
  obtain r hc' w' where r: "crypto_get cx get fv b e admit (hc, w) = (r, hc', w')" "delivers (of_res r) (subrange P b lst)"
      "snd (of_res r) = None" by blast
  then show ?thesis by (cases r) (auto simp: delivers_def raising_def)
qed

end

section \<open>Over the store repository\<close>

text \<open>The store repository and what surrounds it, with the cache machine as its changing state.\<close>

record repo_world =
  rw_repo :: content_repo
  rw_download :: download
  rw_multi :: multi_read
  rw_surroundings :: surroundings
  rw_cached :: bool
  rw_machine :: cmachine

definition world_get :: "repo_world inner_get" where
  "world_get fv b e admit w =
     (let (r, m) = content_get (rw_repo w) (rw_download w) (rw_multi w) (rw_surroundings w) (rw_cached w) fv b e admit
        (rw_machine w) in (r, w\<lparr>rw_machine := m\<rparr>))"

definition world_stored :: "repo_world \<Rightarrow> file_version \<Rightarrow> bytes \<Rightarrow> bool" where
  "world_stored w fv X \<longleftrightarrow> \<not> fv_pending fv \<and> fv_size fv = int (length X)
     \<and> (\<exists>content. honest (rw_download w) content \<and> copies_hold content (cr_store (rw_repo w)) fv X
          \<and> multi_runs content (rw_repo w) (rw_multi w))
     \<and> layouts (rw_repo w) fv \<noteq> [] \<and> mirrors_apart (cr_store (rw_repo w)) fv
     \<and> machine_inv (s_content (rw_surroundings w)) (rw_machine w) \<and> s_content (rw_surroundings w) (fv_id fv) = X"

interpretation world: content_reader world_get world_stored
proof
  fix w fv X and b e :: int and admit
  assume a: "world_stored w fv X" "0 \<le> b" "b \<le> e" "e < int (length X)"
  then obtain content where c: "honest (rw_download w) content" "copies_hold content (cr_store (rw_repo w)) fv X"
    "multi_runs content (rw_repo w) (rw_multi w)"
    by (auto simp: world_stored_def)
  have e: "end_of (int (length X)) e = e" using a end_of_bounds(2) [of e "int (length X)"] by simp
  have "X \<noteq> []" using a by auto
  with content_get_delivers [OF _ c(1,2) _ c(3), where b = b and e = e and s = "rw_surroundings w"
      and m = "rw_machine w" and cached = "rw_cached w" and admit = admit] a e
  obtain st m' where "content_get (rw_repo w) (rw_download w) (rw_multi w) (rw_surroundings w) (rw_cached w) fv b e admit
        (rw_machine w) = (Inr st, m')" "delivers st (subrange X b e)" "machine_inv (s_content (rw_surroundings w)) m'"
    by (auto simp: world_stored_def)
  with a(1) show "\<exists>st w'. world_get fv b e admit w = (Inr st, w') \<and> delivers st (subrange X b e) \<and> world_stored w' fv X"
    by (auto simp: world_get_def world_stored_def)
qed (simp add: world_stored_def)

text \<open>
  The repository is up for a version when it reads from one store at a time, one of the version's layouts has a store
  that is up for every part, and the cache, if there is one, holds nothing of the version yet.
\<close>

definition world_up :: "repo_world \<Rightarrow> file_version \<Rightarrow> bytes \<Rightarrow> bool" where
  "world_up w fv X \<longleftrightarrow> \<not> cr_read_parallel (rw_repo w)
     \<and> (rw_cached w \<longrightarrow> entry (m_cache (rw_machine w)) (fv_id fv) = None)
     \<and> (\<exists>content. honest (rw_download w) content \<and> copies_hold content (cr_store (rw_repo w)) fv X
          \<and> (\<exists>l \<in> set (layouts (rw_repo w) fv). layout_up (rw_download w) content l))"

interpretation live: live_reader world_get world_stored world_up
proof
  fix w fv X and b e :: int and admit
  assume a: "world_stored w fv X" "world_up w fv X" "0 \<le> b" "b \<le> e" "e < int (length X)"
  have ends: "snd (of_res (fst (content_get (rw_repo w) (rw_download w) (rw_multi w) (rw_surroundings w) (rw_cached w) fv b e
        adm (rw_machine w)))) = None
    \<and> (\<not> adm \<longrightarrow> snd (content_get (rw_repo w) (rw_download w) (rw_multi w) (rw_surroundings w) (rw_cached w) fv b e
        adm (rw_machine w)) = rw_machine w)" for adm
  proof -
    obtain content l where c: "honest (rw_download w) content" "copies_hold content (cr_store (rw_repo w)) fv X"
        "l \<in> set (layouts (rw_repo w) fv)" "layout_up (rw_download w) content l"
      using a(2) by (auto simp: world_up_def)
    show ?thesis
      using a by (intro content_get_ends [OF _ c(1,2) _ c(3,4)]) (simp_all add: world_stored_def world_up_def)
  qed
  from ends [of admit] show "\<not> failed (world_get fv b e admit w)"
    by (auto simp: failed_def world_get_def split: prod.splits)
  from ends [of False] have "snd (world_get fv b e False w) = w" by (auto simp: world_get_def split: prod.splits)
  with a(2) show "world_up (snd (world_get fv b e False w)) fv X" by simp
qed

section \<open>What is written\<close>

text \<open>The number of chunks is the ceiling of the quotient: the last start lies inside the buffer, the next one behind it.\<close>

lemma ceil_chunks:
  assumes "0 < d" and "N = nat ((int n + int d - 1) div int d)"
  shows "n \<le> N * d" and "i < N \<Longrightarrow> i * d < n" and "N \<le> n"
proof -
  let ?q = "(int n + int d - 1) div int d"
  have q0: "0 \<le> ?q" using assms(1) by (simp add: pos_imp_zdiv_nonneg_iff)
  have eq: "int n + int d - 1 = ?q * int d + (int n + int d - 1) mod int d" by simp
  have m: "0 \<le> (int n + int d - 1) mod int d" "(int n + int d - 1) mod int d < int d" using assms(1) by simp_all
  have N: "int N = ?q" using assms(2) q0 by simp
  have "int n \<le> int N * int d" using eq m unfolding N by linarith
  then show "n \<le> N * d" by (metis of_nat_le_iff of_nat_mult)
  have below: "int N * int d < int n + int d" using eq m unfolding N by linarith
  have inside: "i * d < n" if "i < N" for i
  proof -
    have "(i + 1) * d \<le> N * d" using that by (intro mult_le_mono1) simp
    then have "int i * int d + int d \<le> int N * int d"
      by (metis (mono_tags, opaque_lifting) add.commute distrib_right mult_1 of_nat_1 of_nat_add of_nat_le_iff of_nat_mult)
    then have "int i * int d < int n" using below by linarith
    then show ?thesis by (metis of_nat_less_iff of_nat_mult)
  qed
  then show "i < N \<Longrightarrow> i * d < n" .
  show "N \<le> n"
  proof (cases N)
    case (Suc k)
    then have "k * d < n" using inside [of k] by simp
    moreover have "k * 1 \<le> k * d" using assms(1) by (intro mult_le_mono2) simp
    ultimately have "k < n" by linarith
    then show ?thesis using Suc by simp
  qed simp
qed

lemma encrypt_buffer_cipher:
  assumes law: "aead_law A" and ck: "cipher_ok ck" and d: "d = nat (ck_chunk_size ck)"
    and len: "int (length buf) \<le> 2 ^ 64" and N: "N = nat ((int (length buf) + int d - 1) div int d)" and "i \<le> N"
  shows "encrypt_buffer A ck buf i (map (\<lambda>j. int j * int d) [i..<N]) = Inr (cipher_from A ck (int i) (drop (i * d) buf))"
  using \<open>i \<le> N\<close>
proof (induction "N - i" arbitrary: i)
  case 0
  then have "drop (i * d) buf = []" using ceil_chunks(1) [OF _ N] d ck by (auto simp: cipher_ok_def)
  with 0 show ?case by simp
next
  case (Suc k)
  have d0: "0 < d" "int d = ck_chunk_size ck" using d ck by (auto simp: cipher_ok_def)
  have i: "i < N" using Suc.hyps(2) by simp
  then have pos: "i * d < length buf" and N64: "int i < 2 ^ 64"
    using ceil_chunks(2,3) [OF d0(1) N] len by fastforce+
  have up: "[i..<N] = i # [Suc i..<N]" using i by (simp add: upt_rec)
  have e: "encrypt_chunk A ck (take d (drop (i * d) buf)) (int i) = Inr (enc A ck (take d (drop (i * d) buf)) (int i))"
    using N64 d0 by (intro encrypt_chunk_enc) auto
  have "cipher_from A ck (int i) (drop (i * d) buf) = enc A ck (take d (drop (i * d) buf)) (int i)
      @ cipher_from A ck (int (Suc i)) (drop (Suc i * d) buf)"
    using pos d0 d by (subst cipher_from.simps) (auto simp: add.commute)
  moreover have "encrypt_buffer A ck buf (Suc i) (map (\<lambda>j. int j * int d) [Suc i..<N])
      = Inr (cipher_from A ck (int (Suc i)) (drop (Suc i * d) buf))"
    using Suc.hyps i by (intro Suc.hyps(1)) auto
  moreover have "nat (int i * int d) = i * d" by (simp flip: of_nat_mult)
  ultimately show ?case using e d unfolding up by simp
qed

definition kdf_law :: "hkdf \<Rightarrow> bool" where
  "kdf_law kdf \<longleftrightarrow> (\<forall>n salt info secret. length (kdf n salt info secret) = n)"

definition salted :: "crypto_ctx \<Rightarrow> bytes \<Rightarrow> bool" where
  "salted cx salt \<longleftrightarrow> kdf_law (cx_kdf cx) \<and> length salt = FILE_SALT_SIZE \<and> 0 < cx_chunk_size cx
     \<and> cx_chunk_size cx \<le> 16 * 1024 * 1024"

lemma salted_header:
  assumes "crypto_laws cx" and "salted cx salt" and h: "h = new_header (cx_chunk_size cx) salt"
    and key: "key = cx_kdf cx 32 salt ''tgfs-file-key-v1'' (cx_master cx)"
  shows "header_ok h" and "length key = 32" and "derive_file_key (cx_kdf cx) (cx_master cx) salt = Inr key"
    and "h_file_salt h = salt" and "h_chunk_size h = cx_chunk_size cx"
  using assms
  by (simp_all add: header_ok_def new_header_def salted_def crypto_laws_def kdf_law_def derive_file_key_def
      FILE_SALT_SIZE_def)

lemma update_bytes_sealed:
  assumes "crypto_laws cx" and "salted cx salt" and "int (length buf) \<le> 2 ^ 64"
    and h: "h = new_header (cx_chunk_size cx) salt" and key: "key = cx_kdf cx 32 salt ''tgfs-file-key-v1'' (cx_master cx)"
  shows "\<exists>X. crypto_update_bytes cx salt buf = Inr X \<and> sealed_bytes cx h key buf X"
proof -
  note sh = salted_header [OF assms(1,2) h key]
  let ?ck = "\<lparr>ck_file_key = key, ck_file_salt = salt, ck_chunk_size = cx_chunk_size cx\<rparr>"
  have ck: "cipher_ok ?ck" and nc: "new_cipher key salt (cx_chunk_size cx) = Inr ?ck"
    using sh(1,2,4,5) by (auto simp: cipher_ok_def new_cipher_def header_ok_def FILE_SALT_SIZE_def)
  obtain raw where raw: "header_serialize (cx_mac cx) key h = Inr raw"
    using header_serialize_ok [OF header_ok_packable [OF sh(1)]] assms(1) unfolding crypto_laws_def by metis
  have c: "int (nat (cx_chunk_size cx)) = cx_chunk_size cx" using assms(2) by (simp add: salted_def)
  have "encrypt_buffer (cx_aead cx) ?ck buf 0 (range_starts (int (length buf)) (cx_chunk_size cx))
      = Inr (cipher_from (cx_aead cx) ?ck 0 buf)"
    using encrypt_buffer_cipher [OF _ ck refl assms(3) refl, of "cx_aead cx" 0] assms(1) c
    by (simp add: range_starts_def crypto_laws_def)
  then have "crypto_update_bytes cx salt buf = Inr (raw @ cipher_from (cx_aead cx) ?ck 0 buf)"
    using sh(3,5) nc raw by (simp add: crypto_update_bytes_def Let_def flip: h)
  then show ?thesis using sh raw by (auto simp: sealed_bytes_def)
qed

context whole_source
begin

lemma seal_sealed:
  assumes "crypto_laws cx" and "salted cx salt" and "holds P (op_set_name ops name msg)"
    and "op_get_size ops (op_set_name ops name msg) = int (length P)" and "int (length P) \<le> 2 ^ 64"
    and "seal_name cx nonce (op_name ops msg) = Inr name"
    and h: "h = new_header (cx_chunk_size cx) salt" and key: "key = cx_kdf cx 32 salt ''tgfs-file-key-v1'' (cx_master cx)"
  shows "\<exists>m X. seal cx ops salt nonce msg = Inr m \<and> sealed_bytes cx h key P X \<and> em_size m = int (length X)
    \<and> enc_between (cx_aead cx) ops holds X m"
proof -
  note sh = salted_header [OF assms(1,2) h key]
  have law: "aead_law (cx_aead cx)" "hmac_law (cx_mac cx)" using assms(1) by (simp_all add: crypto_laws_def)
  let ?body = "cipher_from (cx_aead cx) \<lparr>ck_file_key = key, ck_file_salt = h_file_salt h, ck_chunk_size = h_chunk_size h\<rparr> 0 P"
  obtain m raw where m: "enc_wrap (cx_mac cx) ops (op_set_name ops name msg) key h = Inr m"
      "header_serialize (cx_mac cx) key h = Inr raw" "enc_between (cx_aead cx) ops holds (raw @ ?body) m"
      "em_size m = int (length (raw @ ?body))"
    using enc_wrap_between [OF law sh(1,2) assms(3-5)] by blast
  have "seal cx ops salt nonce msg = Inr m"
    using m(1) sh(3) assms(6) by (simp add: seal_def Let_def flip: h)
  moreover have "sealed_bytes cx h key P (raw @ ?body)"
    using m(2) sh by (auto simp: sealed_bytes_def)
  ultimately show ?thesis using m(3,4) by blast
qed

end

section \<open>Properties\<close>

text \<open>C9: Reading an encrypted version gives back its plaintext. For a version whose stored bytes are the header and
  the encrypted chunks of \<open>P\<close>, the decorator over the store repository with its local cache hands out, for every
  first byte and every inclusive or open end, the requested bytes of \<open>P\<close> or a prefix of them and an exception, however
  the stored bytes are cut into pieces on the way. It adds no failure of its own: when it raises, the header probe
  raised, or the read of exactly the chunks that hold the range did, in the state the probe left. So when the repository is up
  for the version it ends normally with all the requested bytes. The header cache stays right, so the next read
  of the version needs no probe.\<close>

theorem encrypted_get_exact:
  assumes "crypto_laws cx" and "sealed_bytes cx h key P X" and "world_stored w fv X"
    and "hc_right fv (h, key) hc" and "0 \<le> b" and "int (length P) \<le> 2 ^ 64"
    and want: "want = subrange P b (if e < 0 \<or> int (length P) \<le> e then int (length P) - 1 else e)"
  shows "\<exists>r hc' w'. crypto_get cx world_get fv b e admit (hc, w) = (r, hc', w')
    \<and> world_stored w' fv X \<and> hc_right fv (h, key) hc' \<and> delivers (of_res r) want
    \<and> (snd (of_res r) = None \<or> probe_failed world_get fv hc w
        \<or> chunks_failed world_get fv (h_chunk_size h) b e admit (probed world_get fv hc w))
    \<and> (world_up w fv X \<longrightarrow> (\<exists>s. r = Inr s \<and> snd s = None \<and> stream_bytes s = want))"
proof -
  from world.crypto_get_sealed [OF assms(1-6) refl, of e admit]
  obtain r hc' w' where r: "crypto_get cx world_get fv b e admit (hc, w) = (r, hc', w')"
      "world_stored w' fv X" "hc_right fv (h, key) hc'" "delivers (of_res r) want"
      "snd (of_res r) = None \<or> probe_failed world_get fv hc w
        \<or> chunks_failed world_get fv (h_chunk_size h) b e admit (probed world_get fv hc w)"
    unfolding want by blast
  have "\<exists>s. r = Inr s \<and> snd s = None \<and> stream_bytes s = want" if "world_up w fv X"
    using live.crypto_get_complete [OF assms(1-3) that assms(4-6) refl, of e admit] r(1) unfolding want by simp
  with r show ?thesis by blast
qed

definition toy_ctx :: crypto_ctx where
  "toy_ctx = \<lparr>cx_aead = toy_aead, cx_mac = toy_hmac, cx_kdf = (\<lambda>n salt info secret. replicate n 1),
     cx_master = replicate 32 9, cx_chunk_size = 2, cx_names = False\<rparr>"

definition toy_header :: file_header where
  "toy_header = new_header 2 (replicate 32 5)"

definition toy_stored :: bytes where
  "toy_stored = (case header_serialize toy_hmac (replicate 32 1) toy_header of
     Inl _ \<Rightarrow> []
   | Inr raw \<Rightarrow> raw @ cipher_from toy_aead \<lparr>ck_file_key = replicate 32 1, ck_file_salt = replicate 32 5, ck_chunk_size = 2\<rparr>
       0 [1, 2, 3])"

definition toy_version :: file_version where
  "toy_version = example_version\<lparr>fv_message_ids := [1], fv_part_sizes := [int (length toy_stored)], fv_mirrors := [],
     fv_replicas := [], fv_store := Some ''tg:1''\<rparr>"

definition toy_world :: repo_world where
  "toy_world = \<lparr>rw_repo = example_repo,
     rw_download = (\<lambda>key mid b e. if mid = 1 then ([subrange toy_stored b e], None) else raising (MessageNotFound mid)),
     rw_multi = (\<lambda>_ _ _ _ _ _. raising TechnicalError),
     rw_surroundings = example_surroundings\<lparr>s_content := (\<lambda>_. toy_stored)\<rparr>, rw_cached = True,
     rw_machine = empty_machine example_config\<rparr>"

lemma toy_header_ok: "header_ok toy_header"
  by (simp add: header_ok_def toy_header_def new_header_def HEADER_VERSION_def FILE_SALT_SIZE_def)

lemma toy_sealed: "sealed_bytes toy_ctx toy_header (replicate 32 1) [1, 2, 3] toy_stored"
proof -
  obtain raw where "header_serialize toy_hmac (replicate 32 1) toy_header = Inr raw"
    using header_serialize_ok [OF header_ok_packable [OF toy_header_ok] toy_hmac_law] by metis
  then show ?thesis
    using toy_header_ok
    by (simp add: sealed_bytes_def toy_ctx_def toy_stored_def derive_file_key_def toy_header_def new_header_def)
qed

lemma toy_length:
  assumes "sealed_bytes toy_ctx toy_header (replicate 32 1) [1, 2, 3] X"
  shows "length X = 119"
proof -
  obtain raw where "header_serialize toy_hmac (replicate 32 1) toy_header = Inr raw" "length raw = 60"
    using header_serialize_ok [OF header_ok_packable [OF toy_header_ok] toy_hmac_law] unfolding HEADER_SIZE_def by metis
  then show ?thesis
    using assms length_cipher_from [OF toy_aead_law, of "\<lparr>ck_file_key = replicate 32 1, ck_file_salt = replicate 32 5, ck_chunk_size = 2\<rparr>"
        0 "[1, 2, 3]"]
    by (auto simp: sealed_bytes_def toy_ctx_def toy_header_def new_header_def cipher_ok_def cipher_len_def
        CHUNK_OVERHEAD_def NONCE_SIZE_def TAG_SIZE_def)
qed

lemma toy_world_stored: "world_stored toy_world toy_version toy_stored"
proof -
  have one: "copies_hold (\<lambda>key mid. if mid = 1 then Some toy_stored else None) (cr_store (rw_repo toy_world)) toy_version toy_stored"
    unfolding copies_hold_def
    by (intro conjI exI [of _ "\<lambda>_. toy_stored"])
      (auto simp: toy_version_def sizes_from_def bytes_from_def upt_rec toy_world_def example_repo_def)
  have "honest (rw_download toy_world) (\<lambda>key mid. if mid = 1 then Some toy_stored else None)"
    using subrange_nonempty by (fastforce simp: honest_def toy_world_def)
  moreover have "multi_runs (\<lambda>key mid. if mid = 1 then Some toy_stored else None) (rw_repo toy_world) (rw_multi toy_world)"
    by (simp add: multi_runs_def toy_world_def example_repo_def)
  moreover have "mirrors_apart (cr_store (rw_repo toy_world)) toy_version"
    by (simp add: mirrors_apart_def toy_version_def dict_ok_def dict_has_def)
  moreover have "layouts (rw_repo toy_world) toy_version \<noteq> []"
    by (simp add: layouts_def primary_layouts_def replica_layouts_def part_sources_def Let_def toy_world_def
        example_repo_def toy_version_def fv_owned_by_def store_for_def upt_rec preference_rank_def)
  moreover have "\<not> fv_pending toy_version" "fv_size toy_version = int (length toy_stored)"
    by (simp_all add: toy_version_def example_version_def fv_size_def fv_memo_size_def INVALID_FILE_SIZE_def)
  moreover have "machine_inv (s_content (rw_surroundings toy_world)) (rw_machine toy_world)"
    by (simp add: toy_world_def empty_machine_inv)
  ultimately show ?thesis
    using one unfolding world_stored_def by (auto simp: toy_world_def)
qed

lemma toy_world_up: "world_up toy_world toy_version toy_stored"
proof -
  let ?content = "\<lambda>(key :: string) (mid :: int). if mid = 1 then Some toy_stored else None"
  have "copies_hold ?content (cr_store (rw_repo toy_world)) toy_version toy_stored"
    unfolding copies_hold_def
    by (intro conjI exI [of _ "\<lambda>_. toy_stored"])
      (auto simp: toy_version_def sizes_from_def bytes_from_def upt_rec toy_world_def example_repo_def)
  moreover have "honest (rw_download toy_world) ?content"
    using subrange_nonempty by (fastforce simp: honest_def toy_world_def)
  moreover have "up (rw_download toy_world) ?content key" for key
    by (auto simp: up_def toy_world_def)
  ultimately show ?thesis
    unfolding world_up_def
    by (intro conjI exI [of _ ?content])
      (auto simp: toy_world_def example_repo_def empty_machine_def empty_cache_def entry_def layout_up_def layouts_def
        primary_layouts_def replica_layouts_def part_sources_def Let_def toy_version_def fv_owned_by_def store_for_def
        upt_rec preference_rank_def)
qed

theorem encrypted_get_exact_witness:
  "crypto_laws toy_ctx \<and> (\<exists>s. fst (crypto_get toy_ctx world_get toy_version 1 (- 1) True (new_header_cache, toy_world)) = Inr s
     \<and> snd s = None \<and> stream_bytes s = [2, 3])"
proof -
  have cx: "crypto_laws toy_ctx" by (simp add: crypto_laws_def toy_ctx_def toy_aead_law toy_hmac_law)
  have hc: "hc_right toy_version (toy_header, replicate 32 1) new_header_cache"
    using new_header_cache_wf by (simp add: hc_right_def hc_lookup_def new_header_cache_def)
  have small: "(0 :: int) \<le> 1" "int (length [1, 2, 3 :: 8 word]) \<le> 2 ^ 64" by simp_all
  from encrypted_get_exact [OF cx toy_sealed toy_world_stored hc small refl, of "- 1" True] toy_world_up cx show ?thesis
    by (auto simp: subrange_def)
qed

text \<open>C10: The two write paths produce the same format. What \<open>update\<close> builds in memory with its own loop and what the
  uploader reads from the encrypting message of \<open>save\<close> and \<open>stage\<close>, in reads of any sizes that
  add up to the size declared for the upload, are the same bytes, and they are the bytes
  from which \<open>get\<close> reads the plaintext back.\<close>

theorem streamed_and_updated_agree:
  assumes "crypto_laws cx" and "salted cx salt" and "length (concat cs) \<le> 2 ^ 64"
    and "\<not> cx_names cx" and "\<forall>n \<in> set ns. 0 < n"
    and "seal cx stream_ops salt nonce (stream_new (cs, fin) (int (length (concat cs))) name) = Inr m"
    and "sum_list ns = em_size m" and "concat cs \<noteq> []"
  shows "fst (read_all (enc_ops (cx_aead cx) stream_ops) ns (enc_open stream_ops m)) = crypto_update_bytes cx salt (concat cs)
    \<and> (\<exists>X. crypto_update_bytes cx salt (concat cs) = Inr X
        \<and> sealed_bytes cx (new_header (cx_chunk_size cx) salt) (cx_kdf cx 32 salt ''tgfs-file-key-v1'' (cx_master cx)) (concat cs) X)"
proof -
  let ?P = "concat cs" and ?h = "new_header (cx_chunk_size cx) salt"
    and ?key = "cx_kdf cx 32 salt ''tgfs-file-key-v1'' (cx_master cx)"
  let ?msg = "stream_new (cs, fin) (int (length ?P)) name" and ?A = "cx_aead cx"
  have P: "int (length ?P) \<le> 2 ^ 64" using assms(3) by (metis of_nat_le_iff of_nat_numeral of_nat_power)
  have named: "seal_name cx nonce (op_name stream_ops ?msg) = Inr name"
    using assms(4) by (simp add: seal_name_def stream_ops_def stream_new_def)
  have same: "op_set_name stream_ops name ?msg = ?msg" by (simp add: stream_ops_def stream_new_def)
  have holds: "stream_holds ?P ?msg" using stream_new_holds [of "int (length ?P)" cs fin name] by simp
  have size: "op_get_size stream_ops ?msg = int (length ?P)"
    by (simp add: stream_ops_def stream_get_size_def stream_new_def size_or_def)
  obtain X where X: "sealed_bytes cx ?h ?key ?P X" "em_size m = int (length X)" "enc_between ?A stream_ops stream_holds X m"
    using stream_whole.seal_sealed [OF assms(1,2) _ _ P named refl refl] assms(6) holds size unfolding same by auto
  obtain Y where Y: "crypto_update_bytes cx salt ?P = Inr Y" "sealed_bytes cx ?h ?key ?P Y"
    using update_bytes_sealed [OF assms(1,2) P refl refl] by blast
  have XY: "X = Y" using X(1) Y(2) by (auto simp: sealed_bytes_def)
  have law: "aead_law ?A" using assms(1) by (simp add: crypto_laws_def)
  note ps = stream_whole.enc_part_source [OF law]
  have "enc_sized ?A stream_ops stream_holds X (em_size m) m" using X(2,3) by (simp add: enc_sized_def)
  from part_source.inside_open [OF ps this]
  have "enc_inside ?A stream_ops stream_holds X (em_size m) (em_size m) (enc_open stream_ops m)"
    by (simp add: enc_ops_def)
  from message_reader.read_all_exact [OF part_source.axioms(1) [OF ps] this assms(5)] assms(7) X(2) XY Y show ?thesis by simp
qed

theorem streamed_and_updated_agree_witness:
  "\<exists>m. seal toy_ctx stream_ops (replicate 32 5) [] (stream_new ([[1], [2, 3]], None) 3 ''f'') = Inr m
     \<and> em_size m = 119
     \<and> fst (read_all (enc_ops toy_aead stream_ops) [100, 19] (enc_open stream_ops m))
       = crypto_update_bytes toy_ctx (replicate 32 5) [1, 2, 3]"
proof -
  have cx: "crypto_laws toy_ctx" "salted toy_ctx (replicate 32 5)" "\<not> cx_names toy_ctx"
    by (simp_all add: crypto_laws_def toy_ctx_def toy_aead_law toy_hmac_law salted_def kdf_law_def FILE_SALT_SIZE_def)
  let ?msg = "stream_new ([[1], [2, 3]], None) 3 ''f''"
  have h: "stream_holds [1, 2, 3] (op_set_name stream_ops ''f'' ?msg)"
    using stream_new_holds [of 3 "[[1], [2, 3]]" None "''f''"] by (simp add: stream_ops_def stream_new_def)
  have sz: "op_get_size stream_ops (op_set_name stream_ops ''f'' ?msg) = int (length [1 :: 8 word, 2, 3])"
    by (simp add: stream_ops_def stream_new_def stream_get_size_def size_or_def)
  have nm: "seal_name toy_ctx [] (op_name stream_ops ?msg) = Inr ''f''"
    by (simp add: toy_ctx_def seal_name_def stream_ops_def stream_new_def)
  have hd: "new_header 2 (replicate 32 5) = new_header (cx_chunk_size toy_ctx) (replicate 32 5)"
    and key: "replicate 32 1 = cx_kdf toy_ctx 32 (replicate 32 5) ''tgfs-file-key-v1'' (cx_master toy_ctx)"
    by (simp_all add: toy_ctx_def)
  obtain m X where m: "seal toy_ctx stream_ops (replicate 32 5) [] ?msg = Inr m"
      "sealed_bytes toy_ctx (new_header 2 (replicate 32 5)) (replicate 32 1) [1, 2, 3] X" "em_size m = int (length X)"
    using stream_whole.seal_sealed [OF cx(1,2) h sz _ nm hd key] by auto
  have "length X = 119" using toy_length m(2) by (simp add: toy_header_def)
  with m streamed_and_updated_agree [OF cx(1,2) _ cx(3), of "[[1], [2, 3]]" "[100, 19]" "[]" None "''f''" m] show ?thesis
    by (auto simp: toy_ctx_def)
qed

end
