(* ===== verification/TgUpload.thy ===== *)
theory TgUpload
  imports UploadMessages
begin

text \<open>
  Uploading to Telegram (\<open>FileUploader\<close>, \<open>src/tgdcfs/backends/telegram/uploader.py\<close>, and
  \<open>TelegramStore.upload\<close>, \<open>src/tgdcfs/backends/telegram/store.py\<close>). One part of a file is moved by several
  workers that take numbers from a queue, read the message under a lock and save their chunk
  in any order: a transition system whose invariant is that the chunk saved under a number
  is the slice of the part that the number stands for. A file goes part by part, or all
  parts at once when the source can be cut.
\<close>

section \<open>One chunk\<close>

definition MAX_PART_ATTEMPTS :: nat where "MAX_PART_ATTEMPTS = 5"

text \<open>
  \<open>answers n\<close> is what the \<open>n\<close>-th attempt meets: an exception, or a response and whether it
  says success. The waits between the attempts do not show.
\<close>

function upload_chunk :: "(nat \<Rightarrow> bool res) \<Rightarrow> nat \<Rightarrow> unit res" where
  "upload_chunk answers attempt =
     (let failure = (case answers attempt of Inl e \<Rightarrow> Some e | Inr ok \<Rightarrow> if ok then None else Some TechnicalError) in
      case failure of
        None \<Rightarrow> Inr ()
      | Some e \<Rightarrow> if MAX_PART_ATTEMPTS \<le> attempt then Inl e else upload_chunk answers (Suc attempt))"
  by pat_completeness auto
termination
  by (relation "measure (\<lambda>(answers, attempt). MAX_PART_ATTEMPTS - attempt)") auto

declare upload_chunk.simps [simp del]

lemma upload_chunk_retries:
  assumes "attempt \<le> k" and "k \<le> MAX_PART_ATTEMPTS" and "answers k = Inr True"
  shows "upload_chunk answers attempt = Inr ()"
  using assms(1)
proof (induction "k - attempt" arbitrary: attempt)
  case 0
  then show ?case using assms(3) by (simp add: upload_chunk.simps)
next
  case (Suc n)
  then have "upload_chunk answers (Suc attempt) = Inr ()" by simp
  moreover have "\<not> MAX_PART_ATTEMPTS \<le> attempt" using Suc assms(2) by simp
  ultimately show ?case by (subst upload_chunk.simps) (auto simp: Let_def split: option.splits)
qed

section \<open>One part\<close>

record 'm uploader =
  up_msg :: 'm
  up_file_size :: int
  up_chunk_size :: int
  up_total_parts :: int
  up_next :: int
  up_waiting :: "int list"
  up_read_size :: int
  up_uploading :: "(int \<times> bytes) list"
  up_saved :: "(int \<times> bytes) list"
  up_cancelled :: bool
  up_failed :: "exn option"

definition uploader_new :: "'m message_ops \<Rightarrow> int \<Rightarrow> 'm \<Rightarrow> 'm uploader" where
  "uploader_new ops chunk m =
     \<lparr>up_msg = op_open ops m, up_file_size = op_get_size ops m, up_chunk_size = chunk,
      up_total_parts = (op_get_size ops m + chunk - 1) div chunk, up_next = 0, up_waiting = [], up_read_size = 0,
      up_uploading = [], up_saved = [], up_cancelled = False, up_failed = None\<rparr>"

text \<open>\<open>_upload_next_part\<close> under the lock.\<close>

definition read_chunk :: "'m message_ops \<Rightarrow> int \<Rightarrow> 'm uploader \<Rightarrow> 'm uploader" where
  "read_chunk ops p u =
     (if up_file_size u \<le> up_read_size u then u
      else
        let n = min (up_file_size u - up_read_size u) (up_chunk_size u) in
        (case op_read ops n (up_msg u) of
           (Inl e, m) \<Rightarrow> u\<lparr>up_msg := m, up_failed := Some e\<rparr>
         | (Inr content, m) \<Rightarrow>
             u\<lparr>up_msg := m, up_read_size := up_read_size u + n, up_uploading := up_uploading u @ [(p, content)]\<rparr>))"

text \<open>
  A worker that finds the queue non-empty takes the next number and joins the lock's queue in
  the same step (\<open>asyncio.Lock\<close> is fair); the head of that queue reads; a worker whose chunk
  is saved is free again. \<open>cancel\<close> is the task tracker saying so, after which no worker takes another number.
\<close>

inductive upload_step :: "'m message_ops \<Rightarrow> nat \<Rightarrow> 'm uploader \<Rightarrow> 'm uploader \<Rightarrow> bool"
  for ops workers where
  take_part: "up_failed u = None \<Longrightarrow> \<not> up_cancelled u \<Longrightarrow> up_next u < up_total_parts u \<Longrightarrow>
    length (up_waiting u) + length (up_uploading u) < workers \<Longrightarrow>
    upload_step ops workers u (u\<lparr>up_waiting := up_waiting u @ [up_next u], up_next := up_next u + 1\<rparr>)"
| read_part: "up_failed u = None \<Longrightarrow> up_waiting u = p # ps \<Longrightarrow>
    upload_step ops workers u (read_chunk ops p (u\<lparr>up_waiting := ps\<rparr>))"
| save_part: "up_failed u = None \<Longrightarrow> up_uploading u = xs @ (p, c) # ys \<Longrightarrow> upload_chunk answers 1 = Inr () \<Longrightarrow>
    upload_step ops workers u (u\<lparr>up_uploading := xs @ ys, up_saved := up_saved u @ [(p, c)]\<rparr>)"
| give_up: "up_failed u = None \<Longrightarrow> up_uploading u = xs @ (p, c) # ys \<Longrightarrow> upload_chunk answers 1 = Inl e \<Longrightarrow>
    upload_step ops workers u (u\<lparr>up_failed := Some e\<rparr>)"
| cancel: "up_failed u = None \<Longrightarrow> \<not> up_cancelled u \<Longrightarrow> upload_step ops workers u (u\<lparr>up_cancelled := True\<rparr>)"

inductive upload_reach :: "'m message_ops \<Rightarrow> nat \<Rightarrow> int \<Rightarrow> 'm \<Rightarrow> 'm uploader \<Rightarrow> bool"
  for ops workers chunk m where
  reach_new: "upload_reach ops workers chunk m (uploader_new ops chunk m)"
| reach_step: "upload_reach ops workers chunk m u \<Longrightarrow> upload_step ops workers u v \<Longrightarrow> upload_reach ops workers chunk m v"

text \<open>Every worker has left its loop, so \<open>upload\<close> closes the message and returns the file's size.\<close>

definition upload_ends :: "'m uploader \<Rightarrow> bool" where
  "upload_ends u \<longleftrightarrow> up_failed u = None \<and> up_waiting u = [] \<and> up_uploading u = []
     \<and> (up_cancelled u \<or> up_total_parts u \<le> up_next u)"

definition upload_result :: "'m uploader \<Rightarrow> int res" where
  "upload_result u = (case up_failed u of Some e \<Rightarrow> Inl e | None \<Rightarrow> Inr (up_file_size u))"

text \<open>The document Telegram assembles from the saved chunks, in the order of their numbers.\<close>

definition document :: "'m uploader \<Rightarrow> bytes" where
  "document u = concat (map (\<lambda>i. case map_of (up_saved u) (int i) of None \<Rightarrow> [] | Some c \<Rightarrow> c)
     [0..<nat (up_total_parts u)])"

section \<open>Every chunk lands where it belongs\<close>

definition slice_at :: "bytes \<Rightarrow> int \<Rightarrow> int \<Rightarrow> int \<Rightarrow> bytes" where
  "slice_at R s c i = take (nat (min c (s - i * c))) (drop (nat (i * c)) R)"

text \<open>\<open>r\<close> numbers have been read: the lock's queue holds exactly the numbers from \<open>r\<close> to the next one.\<close>

definition upload_inv :: "(bytes \<Rightarrow> int \<Rightarrow> int \<Rightarrow> 'm \<Rightarrow> bool) \<Rightarrow> bytes \<Rightarrow> int \<Rightarrow> int \<Rightarrow> nat \<Rightarrow> 'm uploader \<Rightarrow> bool" where
  "upload_inv inside R s c r u \<longleftrightarrow>
     up_file_size u = s \<and> up_chunk_size u = c \<and> up_total_parts u = (s + c - 1) div c
     \<and> up_next u \<le> up_total_parts u \<and> int r \<le> up_next u \<and> up_waiting u = map int [r..<nat (up_next u)]
     \<and> up_read_size u = min s (int r * c)
     \<and> inside (drop (nat (up_read_size u)) R) (s - up_read_size u) s (up_msg u)
     \<and> distinct (map fst (up_saved u @ up_uploading u))
     \<and> set (map fst (up_saved u @ up_uploading u)) = int ` {0..<r}
     \<and> (\<forall>(p, x) \<in> set (up_saved u @ up_uploading u). x = slice_at R s c p)"

lemma total_bounds:
  assumes "0 < c" and "0 < (s :: int)"
  shows "0 < (s + c - 1) div c" and "i < (s + c - 1) div c \<Longrightarrow> i * c < s" and "s \<le> (s + c - 1) div c * c"
proof -
  let ?q = "(s + c - 1) div c"
  have eq: "s + c - 1 = ?q * c + (s + c - 1) mod c" by simp
  have m: "0 \<le> (s + c - 1) mod c" "(s + c - 1) mod c < c" using assms(1) by simp_all
  show le: "s \<le> ?q * c" using eq m by linarith
  show "0 < ?q"
  proof (rule ccontr)
    assume "\<not> 0 < ?q"
    then have "?q * c \<le> 0" using assms(1) by (simp add: mult_nonpos_nonneg)
    with le assms(2) show False by simp
  qed
  show "i * c < s" if "i < ?q"
  proof -
    have "(i + 1) * c \<le> ?q * c" using that assms(1) by (intro mult_right_mono) auto
    then have "i * c + c \<le> ?q * c" by (simp add: distrib_right)
    then show ?thesis using eq m by linarith
  qed
qed

context message_reader
begin

lemma upload_inv_new:
  assumes "inside R s s (op_open ops m)" and "op_get_size ops m = s" and "0 < s" and "0 < c"
  shows "upload_inv inside R s c 0 (uploader_new ops c m)"
  using assms total_bounds(1) [of c s] by (simp add: upload_inv_def uploader_new_def)

lemma read_chunk_inv:
  assumes inv: "upload_inv inside R s c r u" and w: "up_waiting u = p # ps" and "0 < c" and "0 < s"
    and f: "up_failed u = None"
  shows "upload_inv inside R s c (Suc r) (read_chunk ops p (u\<lparr>up_waiting := ps\<rparr>))
    \<and> up_failed (read_chunk ops p (u\<lparr>up_waiting := ps\<rparr>)) = None"
proof -
  have lt: "r < nat (up_next u)" using inv w by (auto simp: upload_inv_def upt_rec [of r] split: if_splits)
  then have ps: "p = int r" "ps = map int [Suc r..<nat (up_next u)]"
    using inv w by (auto simp: upload_inv_def upt_rec [of r])
  have "int r < (s + c - 1) div c" using lt inv by (auto simp: upload_inv_def)
  from total_bounds(2) [OF assms(3,4) this] have rc: "int r * c < s" .
  then have rs: "up_read_size u = int r * c" using inv by (simp add: upload_inv_def)
  let ?n = "min (s - int r * c) c"
  have n: "0 < ?n" using rc assms(3) by simp
  have ins: "inside (drop (nat (int r * c)) R) (s - int r * c) s (up_msg u)"
    using inv rs by (simp add: upload_inv_def)
  obtain m' where m': "op_read ops ?n (up_msg u) = (Inr (take (nat ?n) (drop (nat (int r * c)) R)), m')"
      "inside (drop (nat ?n) (drop (nat (int r * c)) R)) (s - int r * c - ?n) s m'"
    using inside_read [OF ins n] by (cases "op_read ops ?n (up_msg u)") auto
  have go: "read_chunk ops p (u\<lparr>up_waiting := ps\<rparr>) = u\<lparr>up_waiting := ps, up_msg := m', up_read_size := int r * c + ?n,
      up_uploading := up_uploading u @ [(p, slice_at R s c (int r))]\<rparr>"
    using inv rs rc m'(1) by (simp add: read_chunk_def Let_def upload_inv_def slice_at_def min.commute)
  have sz: "int r * c + ?n = min s (int (Suc r) * c)" by (auto simp: min_def distrib_right)
  have dr: "drop (nat ?n) (drop (nat (int r * c)) R) = drop (nat (int r * c + ?n)) R"
    using n assms(3) by (simp add: nat_add_distrib add.commute)
  have img: "int ` {0..<Suc r} = insert (int r) (int ` {0..<r})" by (auto simp: atLeast0_lessThan_Suc)
  have ins': "inside (drop (nat (min s (int (Suc r) * c))) R) (s - min s (int (Suc r) * c)) s m'"
    using m'(2) unfolding dr sz [symmetric] by (simp add: diff_diff_eq)
  have fresh: "int r \<notin> fst ` set (up_saved u)" "int r \<notin> fst ` set (up_uploading u)"
    using inv by (auto simp: upload_inv_def dest!: equalityD1)
  have nx: "int (Suc r) \<le> up_next u" using lt by simp
  show ?thesis
    using inv f nx ps ins' fresh unfolding go sz upload_inv_def img by auto
qed

lemma upload_step_inv:
  assumes step: "upload_step ops workers u v" and inv: "upload_inv inside R s c r u" and c: "0 < c" and s: "0 < s"
  shows "\<exists>r'. upload_inv inside R s c r' v"
  using step
proof cases
  case take_part
  then have "[r..<nat (up_next u + 1)] = [r..<nat (up_next u)] @ [nat (up_next u)]"
    using inv by (auto simp: upload_inv_def nat_add_distrib)
  with take_part inv show ?thesis by (intro exI [of _ r]) (auto simp: upload_inv_def)
next
  case (read_part p ps)
  with read_chunk_inv [OF inv read_part(3) c s read_part(2)] show ?thesis by blast
next
  case (save_part xs p x ys answers)
  with inv show ?thesis by (intro exI [of _ r]) (auto simp: upload_inv_def)
next
  case (give_up xs p x ys answers e)
  with inv show ?thesis by (intro exI [of _ r]) (auto simp: upload_inv_def)
next
  case cancel
  with inv show ?thesis by (intro exI [of _ r]) (auto simp: upload_inv_def)
qed

lemma upload_reach_inv:
  assumes "upload_reach ops workers c m u" and "inside R s s (op_open ops m)" and "op_get_size ops m = s"
    and "0 < s" and "0 < c"
  shows "\<exists>r. upload_inv inside R s c r u"
  using assms(1)
proof induction
  case reach_new
  then show ?case using upload_inv_new [OF assms(2-5)] by blast
next
  case (reach_step u v)
  then show ?case using upload_step_inv [OF _ _ assms(5,4)] by blast
qed

end

text \<open>The slices of a part, put together, are the part.\<close>

lemma slices_concat:
  assumes "0 < c"
  shows "concat (map (\<lambda>i. slice_at R s c (int i)) [0..<n]) = take (nat (min s (int n * c))) R"
proof (induction n)
  case 0
  then show ?case by simp
next
  case (Suc n)
  show ?case
  proof (cases "int n * c < s")
    case True
    have "min s (int (Suc n) * c) = int n * c + min c (s - int n * c)" by (auto simp: min_def distrib_right)
    moreover have "0 \<le> int n * c" "0 \<le> min c (s - int n * c)" using assms True by auto
    ultimately have "nat (min s (int (Suc n) * c)) = nat (int n * c) + nat (min c (s - int n * c))"
      by (simp only: nat_add_distrib)
    with Suc True show ?thesis by (simp add: slice_at_def take_add)
  next
    case False
    moreover from this have "s \<le> int (Suc n) * c" using assms by (simp add: distrib_right)
    ultimately show ?thesis using Suc by (simp add: slice_at_def)
  qed
qed

context message_reader
begin

lemma upload_ends_document:
  assumes inv: "upload_inv inside R s c r u" and ends: "upload_ends u" "\<not> up_cancelled u" and c: "0 < c" and s: "0 < s"
  shows "document u = take (nat s) R" and "inside (drop (nat s) R) 0 s (up_msg u)"
proof -
  have nx: "up_next u = up_total_parts u" and w: "[r..<nat (up_next u)] = []"
    using inv ends by (auto simp: upload_inv_def upload_ends_def)
  then have r: "int r = up_total_parts u" using inv by (auto simp: upload_inv_def upt_eq_Nil_conv)
  have tot: "up_total_parts u = (s + c - 1) div c" using inv by (simp add: upload_inv_def)
  have all: "min s (int r * c) = s" using total_bounds(3) [OF c s] r tot by simp
  have "map_of (up_saved u) (int i) = Some (slice_at R s c (int i))" if "i < r" for i
  proof -
    have "int i \<in> set (map fst (up_saved u))" using inv ends that by (auto simp: upload_inv_def upload_ends_def)
    then obtain x where x: "(int i, x) \<in> set (up_saved u)" by auto
    moreover have "distinct (map fst (up_saved u))" using inv by (simp add: upload_inv_def)
    ultimately have "map_of (up_saved u) (int i) = Some x" by simp
    moreover have "x = slice_at R s c (int i)" using inv x by (auto simp: upload_inv_def)
    ultimately show ?thesis by simp
  qed
  then have "document u = concat (map (\<lambda>i. slice_at R s c (int i)) [0..<r])"
    unfolding document_def r [symmetric] nat_int by (intro arg_cong [where f = concat] map_cong) auto
  with slices_concat [OF c] all show "document u = take (nat s) R" by simp
  show "inside (drop (nat s) R) 0 s (up_msg u)" using inv all by (auto simp: upload_inv_def)
qed

text \<open>No run gets stuck: a state that has not ended has a successor, whatever Telegram answers.\<close>

lemma upload_progress:
  assumes inv: "upload_inv inside R s c r u" and "up_failed u = None" and "\<not> upload_ends u" and "0 < workers"
  shows "\<exists>v. upload_step ops workers u v"
proof -
  consider (waiting) "up_waiting u \<noteq> []" | (uploading) "up_uploading u \<noteq> []"
    | (idle) "up_waiting u = []" "up_uploading u = []" "\<not> up_cancelled u" "up_next u < up_total_parts u"
    using assms(2,3) unfolding upload_ends_def by (meson linorder_not_le)
  then show ?thesis
  proof cases
    case waiting
    then obtain p ps where "up_waiting u = p # ps" by (cases "up_waiting u") auto
    from upload_step.read_part [OF assms(2) this] show ?thesis by blast
  next
    case uploading
    then obtain p x ys where "up_uploading u = [] @ (p, x) # ys" by (cases "up_uploading u") auto
    moreover have "upload_chunk (\<lambda>_. Inr True) 1 = Inr ()" by (simp add: upload_chunk.simps)
    ultimately show ?thesis using upload_step.save_part [OF assms(2)] by blast
  next
    case idle
    with assms(2,4) show ?thesis by (intro exI) (rule upload_step.take_part, auto)
  qed
qed

end

text \<open>Every step uses up work: a number to take, a read, a save, the cancellation or the failure.\<close>

definition upload_work :: "'m uploader \<Rightarrow> nat" where
  "upload_work u = (if up_failed u = None then 3 * nat (up_total_parts u - up_next u) + 2 * length (up_waiting u)
     + length (up_uploading u) + (if up_cancelled u then 0 else 1) + 1 else 0)"

lemma upload_step_work: "upload_step ops workers u v \<Longrightarrow> upload_work v < upload_work u"
  by (induction rule: upload_step.cases)
     (auto simp: upload_work_def read_chunk_def Let_def split: sum.splits prod.splits)

text \<open>A run that nothing interrupts comes to its end.\<close>

context message_reader
begin

lemma upload_completes_from:
  assumes "upload_reach ops workers c m u" and "upload_inv inside R s c r u" and "up_failed u = None"
    and "\<not> up_cancelled u" and "0 < workers" and "0 < c" and "0 < s"
  shows "\<exists>v. upload_reach ops workers c m v \<and> upload_ends v \<and> \<not> up_cancelled v"
  using assms(1-4)
proof (induction "upload_work u" arbitrary: u r rule: less_induct)
  case less
  have go: ?thesis if step: "upload_step ops workers u v" and ok: "up_failed v = None" "\<not> up_cancelled v" for v
  proof -
    obtain r' where r': "upload_inv inside R s c r' v"
      using upload_step_inv [OF step less.prems(2) assms(6,7)] by blast
    from less.hyps [OF upload_step_work [OF step] upload_reach.reach_step [OF less.prems(1) step] r' ok] show ?thesis .
  qed
  consider (ends) "upload_ends u" | (waiting) p ps where "up_waiting u = p # ps"
    | (uploading) p x ys where "up_uploading u = [] @ (p, x) # ys"
    | (idle) "up_waiting u = []" "up_uploading u = []" "up_next u < up_total_parts u"
    using less.prems(3,4) unfolding upload_ends_def
    by (metis append_Nil linorder_not_le list.exhaust surj_pair)
  then show ?case
  proof cases
    case ends
    with less.prems show ?thesis by blast
  next
    case waiting
    have "up_failed (read_chunk ops p (u\<lparr>up_waiting := ps\<rparr>)) = None"
      using read_chunk_inv [OF less.prems(2) waiting assms(6,7) less.prems(3)] by blast
    moreover have "\<not> up_cancelled (read_chunk ops p (u\<lparr>up_waiting := ps\<rparr>))"
      using less.prems(4) by (auto simp: read_chunk_def Let_def split: sum.splits prod.splits)
    ultimately show ?thesis using go [OF upload_step.read_part [OF less.prems(3) waiting]] by blast
  next
    case uploading
    have "upload_chunk (\<lambda>_. Inr True) 1 = Inr ()" by (simp add: upload_chunk.simps)
    from go [OF upload_step.save_part [OF less.prems(3) uploading this]] less.prems show ?thesis by simp
  next
    case idle
    with less.prems assms(5) have "upload_step ops workers u (u\<lparr>up_waiting := up_waiting u @ [up_next u], up_next := up_next u + 1\<rparr>)"
      by (intro upload_step.take_part) auto
    from go [OF this] less.prems show ?thesis by simp
  qed
qed

lemma upload_completes:
  assumes "inside R s s (op_open ops m)" and "op_get_size ops m = s" and "0 < s" and "0 < c" and "0 < workers"
  shows "\<exists>u. upload_reach ops workers c m u \<and> upload_ends u \<and> \<not> up_cancelled u"
  by (rule upload_completes_from [OF upload_reach.reach_new upload_inv_new [OF assms(1-4)] _ _ assms(5,4,3)])
     (simp_all add: uploader_new_def)

lemma uploaded_document:
  assumes "upload_reach ops workers c m u" and "inside R s s (op_open ops m)" and "op_get_size ops m = s"
    and "0 < s" and "0 < c" and "upload_ends u" and "\<not> up_cancelled u"
  shows "document u = take (nat s) R" and "inside (drop (nat s) R) 0 s (up_msg u)" and "upload_result u = Inr s"
proof -
  obtain r where inv: "upload_inv inside R s c r u" using upload_reach_inv [OF assms(1-5)] by blast
  from upload_ends_document [OF inv assms(6,7,5,4)] show "document u = take (nat s) R" "inside (drop (nat s) R) 0 s (up_msg u)" .
  show "upload_result u = Inr s" using inv assms(6) by (simp add: upload_result_def upload_ends_def upload_inv_def)
qed

end

section \<open>A file\<close>

fun dec :: "nat \<Rightarrow> string" where
  "dec n = (if n < 10 then [char_of (48 + n)] else dec (n div 10) @ [char_of (48 + n mod 10)])"

declare dec.simps [simp del]

definition part_name :: "nat \<Rightarrow> string \<Rightarrow> string" where
  "part_name i name = ''[part'' @ dec (Suc i) @ '']'' @ name"

definition is_big_file :: "int \<Rightarrow> bool" where
  "is_big_file n \<longleftrightarrow> 10 * 1024 * 1024 < n"

record workers_config =
  wk_small :: nat
  wk_big :: nat

definition workers_for :: "workers_config \<Rightarrow> int \<Rightarrow> nat" where
  "workers_for w n = (if is_big_file n then wk_big w else wk_small w)"

text \<open>
  The sequential loop of \<open>upload\<close>, one uploader per part. Each document comes with the name
  and the size it is recorded under; sending it is retried until it succeeds.
\<close>

inductive upload_in_order ::
  "'m message_ops \<Rightarrow> workers_config \<Rightarrow> int \<Rightarrow> string \<Rightarrow> nat \<Rightarrow> 'm \<Rightarrow> int list \<Rightarrow> (string \<times> int \<times> bytes) list \<Rightarrow> bool"
  for ops w chunk name where
  no_parts: "upload_in_order ops w chunk name i m [] []"
| next_part: "m' = op_set_size ops s (op_set_name ops (part_name i name) m) \<Longrightarrow>
    upload_reach ops (workers_for w (op_get_size ops m')) chunk m' u \<Longrightarrow> upload_ends u \<Longrightarrow> \<not> up_cancelled u \<Longrightarrow>
    upload_in_order ops w chunk name (Suc i) (op_next_part ops s (op_close ops (up_msg u))) parts docs \<Longrightarrow>
    upload_in_order ops w chunk name i m (s # parts) ((part_name i name, up_file_size u, document u) # docs)"

text \<open>The parallel branch: independent messages cut from the source, the documents in file order.\<close>

definition part_offsets :: "int list \<Rightarrow> int list" where
  "part_offsets parts = map (\<lambda>i. sum_list (take i parts)) [0..<length parts]"

definition upload_parts_at_once ::
  "'m message_ops \<Rightarrow> (int \<Rightarrow> int \<Rightarrow> 'm) \<Rightarrow> workers_config \<Rightarrow> int \<Rightarrow> string \<Rightarrow> int list \<Rightarrow> (string \<times> int \<times> bytes) list \<Rightarrow> bool" where
  "upload_parts_at_once ops part_of w chunk name parts docs \<longleftrightarrow> length docs = length parts \<and> (\<forall>i < length parts.
     \<exists>u. let m' = op_set_size ops (parts ! i) (op_set_name ops (part_name i name) (part_of (part_offsets parts ! i) (parts ! i)))
       in upload_reach ops (workers_for w (op_get_size ops m')) chunk m' u \<and> upload_ends u \<and> \<not> up_cancelled u
         \<and> docs ! i = (part_name i name, up_file_size u, document u))"

lemma tg_partition_parts:
  assumes "0 < part" and "0 < sz"
  shows "sum_list (tg_partition sz part) = sz" and "\<forall>p \<in> set (tg_partition sz part). 0 < p"
proof -
  define n where "n = (sz + part - 1) div part"
  note b = ceil_div_bounds [OF assms, folded n_def]
  have eq: "tg_partition sz part = replicate (nat (n - 1)) part @ [sz - (n - 1) * part]"
    by (simp add: tg_partition_def n_def Let_def)
  show "sum_list (tg_partition sz part) = sz" using b(1) by (simp add: eq sum_list_replicate)
  show "\<forall>p \<in> set (tg_partition sz part). 0 < p" using b assms by (auto simp: eq)
qed

context part_source
begin

lemma upload_in_order_exact:
  assumes "upload_in_order ops w chunk name i m parts docs" and "between R m" and "sum_list parts = int (length R)"
    and "\<forall>p \<in> set parts. 0 < p" and "0 < chunk"
  shows "concat (map (\<lambda>(_, _, d). d) docs) = R \<and> map (\<lambda>(_, n, _). n) docs = parts
    \<and> list_all (\<lambda>(_, n, d). int (length d) = n) docs"
  using assms(1-4)
proof (induction arbitrary: R rule: upload_in_order.induct)
  case (no_parts i m)
  then show ?case by simp
next
  case (next_part m' s i m u parts docs)
  have rest: "0 \<le> sum_list parts" using next_part.prems(3) by (intro sum_list_int_nonneg) (auto intro: less_imp_le)
  have s: "0 < s" "s \<le> int (length R)" using next_part.prems(2,3) rest by auto
  have sz: "sized R s m'" using sized_set_size [OF next_part.prems(1) s] next_part.hyps(1) by simp
  note sizes = sized_size [OF sz] and ins = inside_open [OF sz]
  note doc = uploaded_document [OF next_part.hyps(2) ins sizes s(1) assms(5) next_part.hyps(3,4)]
  have fs: "up_file_size u = s" using doc(3) next_part.hyps(3) by (auto simp: upload_result_def upload_ends_def)
  have "sum_list parts = int (length (drop (nat s) R))" using next_part.prems(2) s by simp
  moreover have "between (drop (nat s) R) (op_next_part ops s (op_close ops (up_msg u)))"
    by (rule between_next [OF doc(2)])
  ultimately have "concat (map (\<lambda>(_, _, d). d) docs) = drop (nat s) R \<and> map (\<lambda>(_, n, _). n) docs = parts
      \<and> list_all (\<lambda>(_, n, d). int (length d) = n) docs"
    using next_part.IH next_part.prems(3) by simp
  with doc(1) fs s show ?case by simp
qed

end

section \<open>Properties\<close>

text \<open>C11: An upload to Telegram sends the file. Whatever the interleaving of the workers in every part and however
  the client's stream is cut into chunks, the documents of the parts, put together in order, are
  exactly the stream's bytes, each document has the size it is recorded with, and the
  sizes are the planned ones.\<close>

theorem tg_stream_upload_exact:
  assumes "upload_in_order stream_ops w chunk name 0 (stream_new (cs, fin) (int (length (concat cs))) name)
      (tg_plan_parts premium (int (length (concat cs)))) docs"
    and "0 < chunk" and "concat cs \<noteq> []"
  shows "concat (map (\<lambda>(_, _, d). d) docs) = concat cs
    \<and> map (\<lambda>(_, n, _). n) docs = tg_plan_parts premium (int (length (concat cs)))
    \<and> list_all (\<lambda>(_, n, d). int (length d) = n) docs"
proof -
  let ?n = "int (length (concat cs))" and ?ps = "fst (tg_part_size_for premium (int (length (concat cs))))"
  have part: "0 < ?ps" by (simp add: tg_part_size_for_def Let_def)
  have n: "0 < ?n" using assms(3) by simp
  have "stream_between (concat cs) (stream_new (cs, fin) ?n name)"
    using stream_new_between [of ?n cs fin name] by simp
  from stream_part.upload_in_order_exact [OF assms(1) this _ _ assms(2)] tg_partition_parts [OF part n]
  show ?thesis by (simp add: tg_plan_parts_def)
qed

lemma upload_in_order_one:
  assumes "m' = op_set_size ops s (op_set_name ops (part_name 0 name) m)"
    and "upload_reach ops (workers_for w (op_get_size ops m')) chunk m' u" and "upload_ends u" and "\<not> up_cancelled u"
  shows "upload_in_order ops w chunk name 0 m [s] [(part_name 0 name, up_file_size u, document u)]"
  by (rule upload_in_order.next_part [OF assms upload_in_order.no_parts])

theorem tg_stream_upload_exact_witness:
  "\<exists>docs. upload_in_order stream_ops \<lparr>wk_small = 3, wk_big = 8\<rparr> 2 ''f'' 0
      (stream_new ([[1, 2], [3]], None) (int (length (concat [[1 :: 8 word, 2], [3]]))) ''f'') (tg_plan_parts False 3) docs
    \<and> concat (map (\<lambda>(_, _, d). d) docs) = [1, 2, 3]"
proof -
  let ?m = "stream_new ([[1, 2], [3]], None) 3 ''f''"
  let ?m' = "op_set_size stream_ops 3 (op_set_name stream_ops (part_name 0 ''f'') ?m)"
  have b: "stream_between [1, 2, 3] ?m" using stream_new_between [of 3 "[[1, 2], [3]]" None "''f''"] by simp
  have sz: "stream_sized [1, 2, 3] 3 ?m'" using stream_part.sized_set_size [OF b, of 3] by simp
  have plan: "tg_plan_parts False 3 = [3]"
    by (simp add: tg_plan_parts_def tg_part_size_for_def tg_partition_def PART_SIZE_DEFAULT_def)
  note size = stream_part.sized_size [OF sz]
  obtain u where u: "upload_reach stream_ops (workers_for \<lparr>wk_small = 3, wk_big = 8\<rparr> 3) 2 ?m' u" "upload_ends u" "\<not> up_cancelled u"
    using stream_part.upload_completes [OF stream_part.inside_open [OF sz] size, of 2 "workers_for \<lparr>wk_small = 3, wk_big = 8\<rparr> 3"]
    by (auto simp: workers_for_def is_big_file_def)
  have run: "upload_in_order stream_ops \<lparr>wk_small = 3, wk_big = 8\<rparr> 2 ''f'' 0 ?m [3] [(part_name 0 ''f'', up_file_size u, document u)]"
    using upload_in_order_one [OF refl, of stream_ops _ 3 "''f''" ?m] u unfolding size by blast
  with tg_stream_upload_exact [of "\<lparr>wk_small = 3, wk_big = 8\<rparr>" 2 "''f''" "[[1, 2], [3]]" None False] plan show ?thesis
    by auto
qed

text \<open>C12: An upload comes to an end. From every state that the workers of one part can reach, unless it has ended
  or failed, some worker can go on; every step uses up work, so there is no infinite run; and
  when no attempt fails for good and nobody cancels there is a run that ends with the whole part sent.\<close>

theorem tg_upload_terminates:
  assumes "stream_sized R s m" and "0 < chunk" and "0 < workers" and "upload_reach stream_ops workers chunk m u"
  shows "(up_failed u = None \<and> \<not> upload_ends u \<longrightarrow> (\<exists>v. upload_step stream_ops workers u v))
    \<and> (\<forall>v. upload_step stream_ops workers u v \<longrightarrow> upload_work v < upload_work u)
    \<and> (\<exists>v. upload_reach stream_ops workers chunk m v \<and> upload_ends v \<and> document v = take (nat s) R)"
proof -
  have s: "0 < s" using assms(1) by (simp add: stream_sized_def)
  note ins = stream_part.inside_open [OF assms(1)] and size = stream_part.sized_size [OF assms(1)]
  obtain r where "upload_inv stream_inside R s chunk r u"
    using stream_part.upload_reach_inv [OF assms(4) ins size s assms(2)] by blast
  then have go: "up_failed u = None \<and> \<not> upload_ends u \<longrightarrow> (\<exists>v. upload_step stream_ops workers u v)"
    using stream_part.upload_progress assms(3) by blast
  obtain v where "upload_reach stream_ops workers chunk m v" "upload_ends v" "\<not> up_cancelled v"
    using stream_part.upload_completes [OF ins size s assms(2,3)] by blast
  with stream_part.uploaded_document(1) [OF _ ins size s assms(2)] go upload_step_work show ?thesis by blast
qed

theorem tg_upload_terminates_witness:
  "\<exists>v. upload_reach stream_ops 3 2 (stream_new ([[1, 2], [3]], None) 3 ''f'') v \<and> upload_ends v \<and> document v = [1, 2, 3]"
proof -
  have "stream_sized [1, 2, 3] 3 (stream_new ([[1, 2], [3]], None) 3 ''f'')"
    by (simp add: stream_sized_def stream_between_def stream_ahead_def stream_new_def)
  from tg_upload_terminates [OF this, of 2 3] upload_reach.reach_new show ?thesis by fastforce
qed

lemma cached_part_document:
  assumes "cached_data d src" and "0 < s" and "0 \<le> off" and "off + s \<le> int (length d)" and "0 < chunk"
    and m': "m' = op_set_size cache_msg_ops s (op_set_name cache_msg_ops nm (cache_msg_part off s (cache_msg_new src name 0 None)))"
    and "upload_reach cache_msg_ops workers chunk m' u" and "upload_ends u" and "\<not> up_cancelled u"
  shows "document u = take (nat s) (drop (nat off) d) \<and> up_file_size u = s"
proof -
  have "cache_inside (subrange d off (int (length d) - 1)) s s (op_open cache_msg_ops m')"
    using cache_part_inside [OF assms(1) order_refl assms(2,3), of name None] assms(4)
    by (auto simp: m' cache_msg_ops_def cache_inside_def cache_msg_part_def cache_msg_new_def)
  moreover have "op_get_size cache_msg_ops m' = s"
    using assms(2) by (simp add: m' cache_msg_ops_def cache_msg_get_size_def size_or_def)
  ultimately have "document u = take (nat s) (subrange d off (int (length d) - 1))" "upload_result u = Inr s"
    using cached_reader.uploaded_document [OF assms(7) _ _ assms(2,5,8,9)] by blast+
  then show ?thesis
    using assms(4,8) by (auto simp: subrange_def upload_result_def upload_ends_def min_def)
qed

text \<open>Sending the parts of a cached version at once is right: cut at the planned offsets, the documents of the
  parts, in file order, are the bytes of the version.\<close>

lemma cached_upload_parallel_exact:
  assumes "cached_data d src" and "d \<noteq> []" and "0 < chunk"
    and "upload_parts_at_once cache_msg_ops (\<lambda>off s. cache_msg_part off s (cache_msg_new src name 0 None)) w chunk name
      (tg_plan_parts premium (int (length d))) docs"
  shows "concat (map (\<lambda>(_, _, x). x) docs) = d"
proof -
  let ?ps = "tg_plan_parts premium (int (length d))"
  have part: "0 < fst (tg_part_size_for premium (int (length d)))" by (simp add: tg_part_size_for_def Let_def)
  have n: "0 < int (length d)" using assms(2) by simp
  note parts = tg_partition_parts [OF part n, folded tg_plan_parts_def]
  have pre: "0 \<le> sum_list (take i ?ps)" for i
    using parts(2) by (intro sum_list_int_nonneg) (auto dest: in_set_takeD intro: less_imp_le)
  have doc: "(\<lambda>(_, _, x). x) (docs ! i) = take (nat (?ps ! i)) (drop (nat (sum_list (take i ?ps))) d)" if "i < length ?ps" for i
  proof -
    have "sum_list (take (Suc i) ?ps) \<le> int (length d)"
      using sum_list_take_le [of ?ps "Suc i"] parts by (auto intro: less_imp_le)
    then have "sum_list (take i ?ps) + ?ps ! i \<le> int (length d)" using that by (simp add: take_Suc_conv_app_nth)
    moreover have "0 < ?ps ! i" using parts(2) that by auto
    ultimately show ?thesis
      using assms(4) that cached_part_document [OF assms(1) _ pre _ assms(3) refl]
      by (fastforce simp: upload_parts_at_once_def part_offsets_def Let_def)
  qed
  have "concat (map (\<lambda>i. take (nat (?ps ! i)) (drop (nat (sum_list (take i ?ps))) d)) [0..<k]) = take (nat (sum_list (take k ?ps))) d"
    if "k \<le> length ?ps" for k
    using that
  proof (induction k)
    case (Suc k)
    have "0 < ?ps ! k" using parts(2) Suc.prems by auto
    then have "nat (sum_list (take (Suc k) ?ps)) = nat (sum_list (take k ?ps)) + nat (?ps ! k)"
      using Suc.prems pre [of k] by (simp add: take_Suc_conv_app_nth nat_add_distrib)
    with Suc show ?case by (simp add: take_add)
  qed simp
  from this [of "length ?ps"] parts(1)
  have all: "concat (map (\<lambda>i. take (nat (?ps ! i)) (drop (nat (sum_list (take i ?ps))) d)) [0..<length ?ps]) = d" by simp
  have len: "length docs = length ?ps" using assms(4) by (simp add: upload_parts_at_once_def)
  have "map (\<lambda>(_, _, x). x) docs = map (\<lambda>i. (\<lambda>(_, _, x). x) (docs ! i)) [0..<length ?ps]"
    unfolding len [symmetric] by (rule nth_equalityI) auto
  also have "\<dots> = map (\<lambda>i. take (nat (?ps ! i)) (drop (nat (sum_list (take i ?ps))) d)) [0..<length ?ps]"
    using doc by (intro map_cong) auto
  finally show ?thesis using all by simp
qed

definition toy_cached :: "bytes \<Rightarrow> cached_bytes" where
  "toy_cached d = \<lparr>cb_size = int (length d), cb_read = (\<lambda>b e. Inr (subrange d b e))\<rparr>"

lemma toy_cached_data: "cached_data d (toy_cached d)"
  by (simp add: cached_data_def toy_cached_def)

text \<open>A cached message whose position has reached its size reads as empty and stays where it is.\<close>

definition used_up :: "cache_msg \<Rightarrow> bool" where
  "used_up m \<longleftrightarrow> cache_msg_get_size m \<le> cm_offset m + cm_read_size m"

lemma used_up_read: "used_up m \<Longrightarrow> 0 < n \<Longrightarrow> cache_msg_read n m = (Inr [], m)"
  by (auto simp: used_up_def cache_msg_read_def Let_def)

lemma used_up_upload:
  assumes "upload_reach cache_msg_ops workers chunk m u" and "used_up m" and "0 < chunk"
  shows "used_up (up_msg u) \<and> (\<forall>(p, x) \<in> set (up_saved u @ up_uploading u). x = []) \<and> up_file_size u = cache_msg_get_size m
    \<and> up_chunk_size u = chunk"
  using assms(1)
proof induction
  case reach_new
  then show ?case using assms(2) by (simp add: uploader_new_def cache_msg_ops_def)
next
  case (reach_step u v)
  from reach_step(2) show ?case
  proof cases
    case (read_part p ps)
    then show ?thesis
      using reach_step(3) assms(3) used_up_read [of "up_msg u" "min (up_file_size u - up_read_size u) (up_chunk_size u)"]
      by (auto simp: read_chunk_def Let_def cache_msg_ops_def)
  qed (use reach_step(3) in \<open>auto\<close>)
qed

text \<open>C33: The sequential upload loses the later parts of a cached version. When the parts of a version in the local cache are sent
  one after the other (\<open>upload_parts_in_flight\<close> is 1, the default), the message is advanced by \<open>next_part\<close> and its
  next part is no longer than the one before: every read of it is empty, so the document of the part is
  empty, and yet the upload returns the part's size.\<close>

theorem cached_later_parts_empty:
  assumes "0 < s2" and "s2 \<le> s1" and "0 \<le> cm_offset m" and "0 < chunk"
    and "m' = op_set_size cache_msg_ops s2 (op_set_name cache_msg_ops nm (op_next_part cache_msg_ops s1 (op_close cache_msg_ops m)))"
    and "upload_reach cache_msg_ops workers chunk m' u" and "upload_ends u"
  shows "document u = [] \<and> upload_result u = Inr s2"
proof -
  have "used_up m'" "cache_msg_get_size m' = s2"
    using assms(1-5) by (simp_all add: used_up_def cache_msg_ops_def cache_msg_next_part_def cache_msg_get_size_def size_or_def)
  with used_up_upload [OF assms(6) _ assms(4)]
  have e: "\<forall>(p, x) \<in> set (up_saved u). x = []" and sz: "up_file_size u = s2" by auto
  have "(case map_of (up_saved u) i of None \<Rightarrow> [] | Some c \<Rightarrow> c) = []" for i
    using e by (auto split: option.splits dest!: map_of_SomeD)
  then have "document u = []" by (simp add: document_def)
  with sz assms(7) show ?thesis by (simp add: upload_result_def upload_ends_def)
qed

lemma cached_second_part_run:
  "\<exists>u. upload_reach cache_msg_ops 1 2 m u \<and> upload_ends u \<and> \<not> up_cancelled u" if "used_up m" "cache_msg_get_size m = 2"
proof -
  let ?u0 = "uploader_new cache_msg_ops 2 m"
  let ?u1 = "?u0\<lparr>up_waiting := [0], up_next := 1\<rparr>"
  let ?u2 = "read_chunk cache_msg_ops 0 (?u1\<lparr>up_waiting := []\<rparr>)"
  have n: "up_file_size ?u0 = 2" "up_chunk_size ?u0 = 2" "up_read_size ?u0 = 0" "up_msg ?u0 = m" "up_total_parts ?u0 = 1"
    using that(2) by (simp_all add: uploader_new_def cache_msg_ops_def)
  have u2: "?u2 = ?u1\<lparr>up_waiting := [], up_read_size := 2, up_uploading := [(0, [])]\<rparr>"
    using n used_up_read [OF that(1), of 2] by (simp add: read_chunk_def Let_def cache_msg_ops_def uploader_new_def)
  have eq: "?u0\<lparr>up_waiting := up_waiting ?u0 @ [up_next ?u0], up_next := up_next ?u0 + 1\<rparr> = ?u1"
    by (simp add: uploader_new_def)
  have "upload_step cache_msg_ops 1 ?u0 (?u0\<lparr>up_waiting := up_waiting ?u0 @ [up_next ?u0], up_next := up_next ?u0 + 1\<rparr>)"
    by (rule upload_step.take_part) (use n in \<open>simp_all add: uploader_new_def\<close>)
  from upload_reach.reach_step [OF upload_reach.reach_new this] have r1: "upload_reach cache_msg_ops 1 2 m ?u1"
    unfolding eq .
  have r2: "upload_reach cache_msg_ops 1 2 m ?u2"
    by (rule upload_reach.reach_step [OF r1 upload_step.read_part]) (simp_all add: uploader_new_def)
  have ok: "upload_chunk (\<lambda>_. Inr True) 1 = Inr ()" by (simp add: upload_chunk.simps)
  have f: "up_failed ?u2 = None" "up_uploading ?u2 = [] @ (0, []) # []"
    unfolding u2 by (simp_all add: uploader_new_def)
  let ?u3 = "?u2\<lparr>up_uploading := [] @ [], up_saved := up_saved ?u2 @ [(0, [])]\<rparr>"
  have "upload_reach cache_msg_ops 1 2 m ?u3"
    by (rule upload_reach.reach_step [OF r2 upload_step.save_part [OF f ok]])
  moreover have "upload_ends ?u3 \<and> \<not> up_cancelled ?u3"
    using n unfolding u2 by (simp add: upload_ends_def uploader_new_def)
  ultimately show ?thesis by blast
qed

theorem cached_later_parts_empty_witness:
  "\<exists>u. upload_reach cache_msg_ops 1 2
      (op_set_size cache_msg_ops 2 (op_set_name cache_msg_ops ''[part2]f''
        (op_next_part cache_msg_ops 2 (op_close cache_msg_ops (cache_msg_new (toy_cached [1, 2, 3, 4]) ''f'' 0 None))))) u
    \<and> upload_ends u \<and> document u = [] \<and> upload_result u = Inr 2"
proof -
  let ?m = "cache_msg_new (toy_cached [1, 2, 3, 4]) ''f'' 0 None"
  let ?m' = "op_set_size cache_msg_ops 2 (op_set_name cache_msg_ops ''[part2]f'' (op_next_part cache_msg_ops 2 (op_close cache_msg_ops ?m)))"
  have "used_up ?m'" "cache_msg_get_size ?m' = 2"
    by (simp_all add: used_up_def cache_msg_ops_def cache_msg_next_part_def cache_msg_get_size_def size_or_def cache_msg_new_def)
  then obtain u where u: "upload_reach cache_msg_ops 1 2 ?m' u" "upload_ends u" using cached_second_part_run by blast
  have "0 \<le> cm_offset ?m" by (simp add: cache_msg_new_def)
  from cached_later_parts_empty [OF _ _ this _ refl u(1,2)] u show ?thesis by fastforce
qed

text \<open>C34: A cancelled upload is reported as a complete one. When the task is cancelled before a worker takes the first chunk, the
  uploader ends without an error and returns the whole size although nothing was sent.\<close>

theorem cancelled_upload_reports_success:
  assumes "0 < op_get_size ops m" and "0 < chunk"
  shows "\<exists>u. upload_reach ops workers chunk m u \<and> upload_ends u \<and> document u = [] \<and> upload_result u = Inr (op_get_size ops m)"
proof -
  let ?u = "(uploader_new ops chunk m)\<lparr>up_cancelled := True\<rparr>"
  have "upload_step ops workers (uploader_new ops chunk m) ?u"
    by (rule upload_step.cancel) (simp_all add: uploader_new_def)
  then have "upload_reach ops workers chunk m ?u" by (rule upload_reach.reach_step [OF upload_reach.reach_new])
  moreover have "upload_ends ?u" "document ?u = []" "upload_result ?u = Inr (op_get_size ops m)"
    by (simp_all add: upload_ends_def document_def upload_result_def uploader_new_def)
  ultimately show ?thesis by blast
qed

theorem cancelled_upload_reports_success_witness:
  "0 < op_get_size buffer_ops (buffer_new [1, 2, 3] ''f'')
   \<and> (\<exists>u. upload_reach buffer_ops 3 2 (buffer_new [1, 2, 3] ''f'') u \<and> upload_ends u \<and> document u = []
        \<and> upload_result u = Inr 3)"
  using cancelled_upload_reports_success [of buffer_ops "buffer_new [1, 2, 3] ''f''" 2 3]
  by (auto simp: buffer_ops_def buffer_get_size_def buffer_new_def size_or_def)

text \<open>
  A local file cannot be sent in more than one part: the uploader closes the message after
  every part, which closes the file, and the first read of the next part raises \<open>ValueError\<close>.
\<close>

lemma closed_file_upload:
  assumes "upload_reach path_ops workers chunk m u" and "pm_fd m = None" and "0 < path_get_size m" and "0 < chunk"
  shows "up_total_parts u = (path_get_size m + chunk - 1) div chunk \<and> up_file_size u = path_get_size m \<and> up_read_size u = 0
    \<and> pm_fd (up_msg u) = None \<and> up_uploading u = [] \<and> (up_failed u = None \<longrightarrow> up_next u = int (length (up_waiting u)))
    \<and> up_failed u \<in> {None, Some ValueError}"
  using assms(1)
proof induction
  case reach_new
  then show ?case using assms(2) by (simp add: uploader_new_def path_ops_def)
next
  case (reach_step u v)
  from reach_step(2) show ?case
  proof cases
    case (read_part p ps)
    then show ?thesis
      using reach_step(3) assms(3) by (auto simp: read_chunk_def Let_def path_ops_def path_read_def)
  qed (use reach_step(3) in auto)
qed

lemma closed_file_never_uploaded:
  assumes "upload_reach path_ops workers chunk m u" and "m = op_set_size path_ops s (op_next_part path_ops s0 (op_close path_ops m0))"
    and "0 < s" and "0 < chunk" and "\<not> up_cancelled u"
  shows "\<not> upload_ends u"
proof -
  have m: "pm_fd m = None" "path_get_size m = s"
    using assms(2,3) by (simp_all add: path_ops_def path_close_def path_next_part_def path_get_size_def size_or_def)
  have "0 < (s + chunk - 1) div chunk" by (rule total_bounds(1) [OF assms(4,3)])
  with closed_file_upload [OF assms(1) m(1) _ assms(4)] m(2) assms(3,5) show ?thesis
    by (auto simp: upload_ends_def)
qed

end
