(* ===== verification/ChunkCache.thy ===== *)
theory ChunkCache
  imports Streams
begin

text \<open>
  The block cache of the Telegram store (\<open>src/tgdcfs/utils/chunk_cache.py\<close>): blocks of message
  content, kept least recently used first and bounded by their bytes. The cache refines a
  queue of blocks ordered by use: a lookup or a write moves a block to the end, and a write
  that exceeds the budget drops blocks from the front, no more than it has to.
\<close>

type_synonym block_key = "int \<times> int \<times> int"

text \<open>\<open>ch_blocks\<close> is the ordered dictionary, its oldest entry first.\<close>

record chunk_cache =
  ch_budget :: int
  ch_blocks :: "(block_key, bytes) dict"
  ch_size :: int
  ch_hits :: int
  ch_misses :: int

definition chunk_new :: "int \<Rightarrow> chunk_cache" where
  "chunk_new budget = \<lparr>ch_budget = max 0 budget, ch_blocks = [], ch_size = 0, ch_hits = 0, ch_misses = 0\<rparr>"

definition chunk_enabled :: "chunk_cache \<Rightarrow> bool" where
  "chunk_enabled c \<longleftrightarrow> 0 < ch_budget c"

definition move_to_end :: "'k \<Rightarrow> ('k, 'v) dict \<Rightarrow> ('k, 'v) dict" where
  "move_to_end k d = (case map_of d k of None \<Rightarrow> d | Some v \<Rightarrow> AList.delete k d @ [(k, v)])"

definition chunk_get :: "block_key \<Rightarrow> chunk_cache \<Rightarrow> bytes option \<times> chunk_cache" where
  "chunk_get key c =
     (if \<not> chunk_enabled c then (None, c)
      else case map_of (ch_blocks c) key of
          None \<Rightarrow> (None, c\<lparr>ch_misses := ch_misses c + 1\<rparr>)
        | Some block \<Rightarrow> (Some block, c\<lparr>ch_blocks := move_to_end key (ch_blocks c), ch_hits := ch_hits c + 1\<rparr>))"

definition chunk_contains :: "block_key \<Rightarrow> chunk_cache \<Rightarrow> bool" where
  "chunk_contains key c \<longleftrightarrow> chunk_enabled c \<and> dict_has (ch_blocks c) key"

text \<open>The loop of \<open>put\<close>: \<open>popitem\<close> of an empty dictionary raises.\<close>

fun evict_over :: "int \<Rightarrow> (block_key, bytes) dict \<Rightarrow> int \<Rightarrow> ((block_key, bytes) dict \<times> int) res" where
  "evict_over budget bs sz =
     (if sz \<le> budget then Inr (bs, sz)
      else case bs of
          [] \<Rightarrow> Inl (KeyError ''dictionary is empty'')
        | (_, evicted) # rest \<Rightarrow> evict_over budget rest (sz - int (length evicted)))"

declare evict_over.simps [simp del]

definition chunk_put :: "block_key \<Rightarrow> bytes \<Rightarrow> chunk_cache \<Rightarrow> chunk_cache res" where
  "chunk_put key block c =
     (if \<not> chunk_enabled c \<or> block = [] then Inr c
      else if ch_budget c < int (length block) then Inr c
      else
        let c1 = (case map_of (ch_blocks c) key of
              None \<Rightarrow> c
            | Some old \<Rightarrow> c\<lparr>ch_blocks := AList.delete key (ch_blocks c), ch_size := ch_size c - int (length old)\<rparr>) in
        rbind (evict_over (ch_budget c) (ch_blocks c1 @ [(key, block)]) (ch_size c1 + int (length block)))
          (\<lambda>(bs, sz). Inr (c1\<lparr>ch_blocks := bs, ch_size := sz\<rparr>)))"

definition chunk_invalidate :: "int \<Rightarrow> int \<Rightarrow> chunk_cache \<Rightarrow> chunk_cache" where
  "chunk_invalidate channel mid c =
     (if \<not> chunk_enabled c then c
      else
        let stale = filter (\<lambda>((ch, m, _), _). ch = channel \<and> m = mid) (ch_blocks c) in
        c\<lparr>ch_blocks := filter (\<lambda>((ch, m, _), _). \<not> (ch = channel \<and> m = mid)) (ch_blocks c),
          ch_size := ch_size c - (\<Sum>(_, b) \<leftarrow> stale. int (length b))\<rparr>)"

definition chunk_clear :: "chunk_cache \<Rightarrow> chunk_cache" where
  "chunk_clear c = c\<lparr>ch_blocks := [], ch_size := 0, ch_hits := 0, ch_misses := 0\<rparr>"

text \<open>Blocks of a document.\<close>

definition block_range :: "int \<Rightarrow> int \<Rightarrow> int \<Rightarrow> int \<times> int" where
  "block_range b e block_size = (b div block_size, e div block_size + 1)"

definition block_bounds :: "int \<Rightarrow> int \<Rightarrow> int \<Rightarrow> int \<times> int" where
  "block_bounds index block_size total_size =
     (let b = index * block_size in (b, min (b + block_size) total_size - 1))"

definition chunk_block_length :: "int \<Rightarrow> int \<Rightarrow> int \<Rightarrow> int" where
  "chunk_block_length index block_size total_size =
     (let (b, e) = block_bounds index block_size total_size in max 0 (e - b + 1))"

section \<open>The budget\<close>

definition held_bytes :: "(block_key, bytes) dict \<Rightarrow> int" where
  "held_bytes bs = (\<Sum>(_, b) \<leftarrow> bs. int (length b))"

definition chunk_inv :: "chunk_cache \<Rightarrow> bool" where
  "chunk_inv c \<longleftrightarrow> dict_ok (ch_blocks c) \<and> ch_size c = held_bytes (ch_blocks c) \<and> 0 \<le> ch_budget c
     \<and> ch_size c \<le> ch_budget c \<and> (\<forall>(_, b) \<in> set (ch_blocks c). b \<noteq> [])"

lemma held_bytes_simps [simp]:
  "held_bytes [] = 0" "held_bytes ((k, b) # bs) = int (length b) + held_bytes bs" "held_bytes (xs @ ys) = held_bytes xs + held_bytes ys"
  by (simp_all add: held_bytes_def)

lemma held_bytes_nonneg: "0 \<le> held_bytes bs"
  unfolding held_bytes_def by (rule sum_list_int_nonneg) auto

lemma held_bytes_delete:
  assumes "dict_ok bs" and "map_of bs k = Some b"
  shows "held_bytes (AList.delete k bs) = held_bytes bs - int (length b)"
  using assms
proof (induction bs)
  case (Cons p bs)
  obtain k' b' where p: "p = (k', b')" by (cases p)
  have ok: "dict_ok bs" "k' \<notin> fst ` set bs" using Cons.prems(1) by (auto simp: dict_ok_def p)
  show ?case
  proof (cases "k' = k")
    case True
    then have "AList.delete k bs = bs" using delete_absent [OF ok(2)] by simp
    then show ?thesis using True Cons.prems(2) by (simp add: p)
  next
    case False
    then show ?thesis using Cons.IH [OF ok(1)] Cons.prems(2) by (simp add: p)
  qed
qed simp

lemma held_bytes_filter:
  "held_bytes (filter P bs) = held_bytes bs - (\<Sum>(_, b) \<leftarrow> filter (\<lambda>x. \<not> P x) bs. int (length b))"
  by (induction bs) (auto simp: held_bytes_def)

text \<open>Eviction takes the shortest prefix whose loss brings the size within the budget.\<close>

lemma evict_over_drops:
  assumes "sz = held_bytes bs" and "0 \<le> budget"
  shows "\<exists>n. evict_over budget bs sz = Inr (drop n bs, held_bytes (drop n bs)) \<and> held_bytes (drop n bs) \<le> budget
    \<and> (\<forall>m < n. budget < held_bytes (drop m bs))"
  using assms
proof (induction bs arbitrary: sz)
  case Nil
  then show ?case by (intro exI [of _ 0]) (simp add: evict_over.simps)
next
  case (Cons p bs)
  obtain k b where p: "p = (k, b)" by (cases p)
  show ?case
  proof (cases "sz \<le> budget")
    case True
    then show ?thesis using Cons.prems by (intro exI [of _ 0]) (simp add: evict_over.simps)
  next
    case False
    obtain n where n: "evict_over budget bs (sz - int (length b)) = Inr (drop n bs, held_bytes (drop n bs))"
      "held_bytes (drop n bs) \<le> budget" "\<forall>m < n. budget < held_bytes (drop m bs)"
      using Cons.IH [of "sz - int (length b)"] Cons.prems p by auto
    have "\<forall>m < Suc n. budget < held_bytes (drop m (p # bs))"
      using n(3) False Cons.prems(1) by (auto simp: less_Suc_eq_0_disj)
    moreover have "evict_over budget (p # bs) sz = Inr (drop n bs, held_bytes (drop n bs))"
      using n(1) False by (subst evict_over.simps) (simp add: p)
    ultimately show ?thesis using n(2) by (intro exI [of _ "Suc n"]) simp
  qed
qed

lemma chunk_get_inv:
  assumes "chunk_inv c"
  shows "chunk_inv (snd (chunk_get key c))" and "fst (chunk_get key c) = (if chunk_enabled c then map_of (ch_blocks c) key else None)"
    and "map_of (ch_blocks (snd (chunk_get key c))) = map_of (ch_blocks c)"
proof -
  have "chunk_inv (c\<lparr>ch_blocks := move_to_end key (ch_blocks c), ch_hits := h\<rparr>)" if b: "map_of (ch_blocks c) key = Some b" for b h
  proof -
    have ok: "dict_ok (ch_blocks c)" using assms by (simp add: chunk_inv_def)
    have "dict_ok (move_to_end key (ch_blocks c))"
      using ok b by (auto simp: move_to_end_def dict_ok_def delete_keys distinct_removeAll)
    moreover have "held_bytes (move_to_end key (ch_blocks c)) = held_bytes (ch_blocks c)"
      using held_bytes_delete [OF ok b] b by (simp add: move_to_end_def)
    moreover have "set (move_to_end key (ch_blocks c)) \<subseteq> set (ch_blocks c)"
      using delete_subset [of key "ch_blocks c"] map_of_SomeD [OF b] b by (auto simp: move_to_end_def)
    ultimately show ?thesis using assms by (auto simp: chunk_inv_def)
  qed
  then show "chunk_inv (snd (chunk_get key c))"
    using assms by (auto simp: chunk_get_def chunk_inv_def split: option.splits)
  show "fst (chunk_get key c) = (if chunk_enabled c then map_of (ch_blocks c) key else None)"
    by (simp add: chunk_get_def split: option.splits)
  have "map_of (move_to_end key (ch_blocks c)) = map_of (ch_blocks c)"
    by (auto simp: move_to_end_def fun_eq_iff delete_conv' map_add_def split: option.splits)
  then show "map_of (ch_blocks (snd (chunk_get key c))) = map_of (ch_blocks c)"
    by (simp add: chunk_get_def split: option.splits)
qed

lemma chunk_put_cases:
  fixes key :: block_key
  assumes inv: "chunk_inv c" and "chunk_enabled c" and "block \<noteq> []" and fits: "int (length block) \<le> ch_budget c"
  defines "bs \<equiv> AList.delete key (ch_blocks c) @ [(key, block)]"
  obtains n where "chunk_put key block c = Inr (c\<lparr>ch_blocks := drop n bs, ch_size := held_bytes (drop n bs)\<rparr>)"
    and "n < length bs" and "held_bytes (drop n bs) \<le> ch_budget c" and "\<forall>m < n. ch_budget c < held_bytes (drop m bs)"
proof -
  have ok: "dict_ok (ch_blocks c)" "ch_size c = held_bytes (ch_blocks c)" "0 \<le> ch_budget c" using inv by (auto simp: chunk_inv_def)
  define c1 where "c1 = (case map_of (ch_blocks c) key of None \<Rightarrow> c
    | Some old \<Rightarrow> c\<lparr>ch_blocks := AList.delete key (ch_blocks c), ch_size := ch_size c - int (length old)\<rparr>)"
  have c1: "ch_blocks c1 @ [(key, block)] = bs" "ch_size c1 + int (length block) = held_bytes bs"
    "c1\<lparr>ch_blocks := b, ch_size := z\<rparr> = c\<lparr>ch_blocks := b, ch_size := z\<rparr>" for b z
    using held_bytes_delete [OF ok(1)] ok(2) delete_absent [of key "ch_blocks c"]
    by (auto simp: c1_def bs_def map_of_eq_None_iff split: option.splits)
  obtain n where n: "evict_over (ch_budget c) bs (held_bytes bs) = Inr (drop n bs, held_bytes (drop n bs))"
    "held_bytes (drop n bs) \<le> ch_budget c" "\<forall>m < n. ch_budget c < held_bytes (drop m bs)"
    using evict_over_drops [OF refl ok(3), of bs] by blast
  have "n < length bs"
  proof (rule ccontr)
    assume "\<not> n < length bs"
    then have "length bs - 1 < n" by (simp add: bs_def)
    with n(3) have "ch_budget c < held_bytes (drop (length bs - 1) bs)" by blast
    then show False using fits by (simp add: bs_def)
  qed
  moreover have "chunk_put key block c = Inr (c\<lparr>ch_blocks := drop n bs, ch_size := held_bytes (drop n bs)\<rparr>)"
    using assms(2-4) n(1) c1 by (simp add: chunk_put_def Let_def c1_def [symmetric])
  ultimately show ?thesis using that n(2,3) by blast
qed

lemma dict_ok_drop: "dict_ok d \<Longrightarrow> dict_ok (drop n d)"
  by (simp add: dict_ok_def drop_map [symmetric])

lemma chunk_put_inv:
  assumes inv: "chunk_inv c"
  shows "\<exists>c'. chunk_put key block c = Inr c' \<and> chunk_inv c' \<and> ch_budget c' = ch_budget c
    \<and> set (ch_blocks c') \<subseteq> insert (key, block) (set (ch_blocks c))"
proof (cases "chunk_enabled c \<and> block \<noteq> [] \<and> int (length block) \<le> ch_budget c")
  case False
  then have "chunk_put key block c = Inr c" by (auto simp: chunk_put_def)
  with inv show ?thesis by auto
next
  case True
  let ?bs = "AList.delete key (ch_blocks c) @ [(key, block)]"
  obtain n where n: "chunk_put key block c = Inr (c\<lparr>ch_blocks := drop n ?bs, ch_size := held_bytes (drop n ?bs)\<rparr>)"
    "held_bytes (drop n ?bs) \<le> ch_budget c"
    using chunk_put_cases [OF inv, of block key] True by metis
  have "dict_ok ?bs" using inv by (auto simp: chunk_inv_def dict_ok_def delete_keys distinct_removeAll)
  moreover have sub: "set (drop n ?bs) \<subseteq> insert (key, block) (set (ch_blocks c))"
    using set_drop_subset [of n ?bs] delete_subset [of key "ch_blocks c"] by auto
  ultimately show ?thesis using n inv True dict_ok_drop by (fastforce simp: chunk_inv_def)
qed

lemma chunk_invalidate_inv: "chunk_inv c \<Longrightarrow> chunk_inv (chunk_invalidate channel mid c)"
proof -
  assume inv: "chunk_inv c"
  let ?P = "\<lambda>((ch, m, _), _). \<not> (ch = channel \<and> m = mid)"
  have neg: "(\<lambda>((ch, m, _), _). ch = channel \<and> m = mid) = (\<lambda>x. \<not> ?P x)" by auto
  have held: "held_bytes (filter ?P (ch_blocks c))
      = ch_size c - (\<Sum>(_, b) \<leftarrow> filter (\<lambda>((ch, m, _), _). ch = channel \<and> m = mid) (ch_blocks c). int (length b))"
    unfolding neg using inv held_bytes_filter [of ?P "ch_blocks c"] by (simp add: chunk_inv_def)
  moreover have "0 \<le> (\<Sum>(_, b) \<leftarrow> filter (\<lambda>((ch, m, _), _). ch = channel \<and> m = mid) (ch_blocks c). int (length b))"
    by (rule sum_list_int_nonneg) auto
  moreover have "dict_ok (filter ?P (ch_blocks c))" using inv by (simp add: chunk_inv_def dict_ok_def distinct_map_filter)
  ultimately show ?thesis using inv by (auto simp: chunk_invalidate_def chunk_inv_def Let_def)
qed

lemma chunk_new_inv: "chunk_inv (chunk_new budget)"
  by (simp add: chunk_inv_def chunk_new_def)

lemma chunk_clear_inv: "chunk_inv c \<Longrightarrow> chunk_inv (chunk_clear c)"
  by (simp add: chunk_inv_def chunk_clear_def)

section \<open>Runs of the cache\<close>

datatype chunk_op = Get block_key | Put block_key bytes | Invalidate int int | Clear

fun chunk_do :: "chunk_op \<Rightarrow> chunk_cache \<Rightarrow> chunk_cache res" where
  "chunk_do (Get key) c = Inr (snd (chunk_get key c))"
| "chunk_do (Put key block) c = chunk_put key block c"
| "chunk_do (Invalidate channel mid) c = Inr (chunk_invalidate channel mid c)"
| "chunk_do Clear c = Inr (chunk_clear c)"

fun chunk_run :: "chunk_op list \<Rightarrow> chunk_cache \<Rightarrow> chunk_cache res" where
  "chunk_run [] c = Inr c"
| "chunk_run (x # xs) c = rbind (chunk_do x c) (chunk_run xs)"

lemma chunk_do_inv:
  assumes "chunk_inv c"
  obtains c' where "chunk_do x c = Inr c'" and "chunk_inv c'" and "ch_budget c' = ch_budget c"
    and "set (ch_blocks c') \<subseteq> set (ch_blocks c) \<union> (case x of Put key block \<Rightarrow> {(key, block)} | _ \<Rightarrow> {})"
proof (cases x)
  case (Get key)
  have "set (move_to_end key (ch_blocks c)) \<subseteq> set (ch_blocks c)"
    using delete_subset [of key "ch_blocks c"] by (auto simp: move_to_end_def split: option.splits dest: map_of_SomeD)
  then have "set (ch_blocks (snd (chunk_get key c))) \<subseteq> set (ch_blocks c)" "ch_budget (snd (chunk_get key c)) = ch_budget c"
    by (auto simp: chunk_get_def split: option.splits)
  with Get chunk_get_inv(1) [OF assms] that show ?thesis by fastforce
next
  case (Put key block)
  with chunk_put_inv [OF assms, of key block] that show ?thesis by auto
next
  case (Invalidate channel mid)
  with chunk_invalidate_inv [OF assms] that show ?thesis
    by (auto simp: chunk_invalidate_def Let_def)
next
  case Clear
  with chunk_clear_inv [OF assms] that show ?thesis by (auto simp: chunk_clear_def)
qed

lemma chunk_run_inv:
  assumes "chunk_inv c"
  shows "\<exists>c'. chunk_run xs c = Inr c' \<and> chunk_inv c' \<and> ch_budget c' = ch_budget c"
  using assms
proof (induction xs arbitrary: c)
  case (Cons x xs)
  obtain c1 where c1: "chunk_do x c = Inr c1" "chunk_inv c1" "ch_budget c1 = ch_budget c"
    using chunk_do_inv [OF Cons.prems] by metis
  from Cons.IH [OF c1(2)] c1 show ?case by auto
qed simp

text \<open>The block cache is a least-recently-used cache within its byte budget. No sequence of lookups, writes,
  invalidations and clears raises or leaves more bytes than the budget, and the recorded
  size is the size of the blocks held. A write of a block that fits makes it the most recent one
  and keeps, of the others in their order of use, the longest most recent part that still
  fits: nothing is evicted that could stay, and never the block just written.\<close>

lemma chunk_cache_lru:
  "\<exists>c. chunk_run xs (chunk_new budget) = Inr c \<and> ch_size c = held_bytes (ch_blocks c) \<and> ch_size c \<le> max 0 budget
    \<and> (block \<noteq> [] \<and> int (length block) \<le> budget \<longrightarrow>
        (\<exists>n c'. chunk_put key block c = Inr c'
          \<and> ch_blocks c' = drop n (AList.delete key (ch_blocks c)) @ [(key, block)]
          \<and> (\<forall>m < n. budget < held_bytes (drop m (AList.delete key (ch_blocks c)) @ [(key, block)]))))"
proof -
  obtain c where c: "chunk_run xs (chunk_new budget) = Inr c" "chunk_inv c" "ch_budget c = max 0 budget"
    using chunk_run_inv [OF chunk_new_inv, of xs budget] by (auto simp: chunk_new_def)
  have "\<exists>n c'. chunk_put key block c = Inr c'
          \<and> ch_blocks c' = drop n (AList.delete key (ch_blocks c)) @ [(key, block)]
          \<and> (\<forall>m < n. budget < held_bytes (drop m (AList.delete key (ch_blocks c)) @ [(key, block)]))"
    if b: "block \<noteq> []" "int (length block) \<le> budget"
  proof -
    let ?bs = "AList.delete key (ch_blocks c) @ [(key, block)]"
    have bud: "ch_budget c = budget" "0 < budget" using b c(3) by (simp_all add: max_def length_greater_0_conv [symmetric] del: length_greater_0_conv split: if_splits)
    obtain n where n: "chunk_put key block c = Inr (c\<lparr>ch_blocks := drop n ?bs, ch_size := held_bytes (drop n ?bs)\<rparr>)"
      "n < length ?bs" "\<forall>m < n. ch_budget c < held_bytes (drop m ?bs)"
      using chunk_put_cases [OF c(2) _ b(1), of key] b(2) bud by (metis chunk_enabled_def)
    then have "n \<le> length (AList.delete key (ch_blocks c))" by simp
    then have cut: "drop m ?bs = drop m (AList.delete key (ch_blocks c)) @ [(key, block)]" if "m \<le> n" for m using that by simp
    show ?thesis
    proof (intro exI conjI)
      show "chunk_put key block c = Inr (c\<lparr>ch_blocks := drop n ?bs, ch_size := held_bytes (drop n ?bs)\<rparr>)" by (rule n(1))
      show "ch_blocks (c\<lparr>ch_blocks := drop n ?bs, ch_size := held_bytes (drop n ?bs)\<rparr>)
          = drop n (AList.delete key (ch_blocks c)) @ [(key, block)]" using cut [OF order_refl] by simp
      show "\<forall>m < n. budget < held_bytes (drop m (AList.delete key (ch_blocks c)) @ [(key, block)])"
        using n(3) cut bud(1) by (metis less_imp_le)
    qed
  qed
  with c show ?thesis by (auto simp: chunk_inv_def)
qed

end
