(* ===== verification/TgDownload.thy ===== *)
theory TgDownload
  imports ChunkCache ContentMap PrefetchingChain
begin

text \<open>
  Downloads from Telegram (\<open>TelegramStore.download_file\<close> and what it calls,
  \<open>src/tgdcfs/backends/telegram/store.py\<close>): straight from a client, in parallel pieces, or through
  the block cache, with other tasks reading, filling and evicting blocks in between. A client's
  own download is the parameter \<open>raw\<close>, the lookup of a document's size \<open>doc_size\<close>. Whatever
  path is taken, a download keeps the contract of the clients below it, so the stores that the
  content repository reads from may be Telegram stores with their caches.
\<close>

section \<open>Without the cache\<close>

record transfer =
  tr_account :: bool
  tr_piece_size :: int
  tr_threshold :: int
  tr_block_size :: int
  tr_readahead :: int

type_synonym raw_download = "int \<Rightarrow> int \<Rightarrow> int \<Rightarrow> stream"
type_synonym size_lookup = "int \<Rightarrow> int option res"

text \<open>The chunks of a prefetching chain are those of the plain concatenation.\<close>

definition download_file_parallel :: "transfer \<Rightarrow> raw_download \<Rightarrow> int \<Rightarrow> int \<Rightarrow> int \<Rightarrow> stream" where
  "download_file_parallel tr raw mid b e =
     chain (map (\<lambda>(piece_begin, piece_end). raw mid piece_begin piece_end) (split_download_pieces b e (tr_piece_size tr)))"

definition download_uncached :: "transfer \<Rightarrow> size_lookup \<Rightarrow> raw_download \<Rightarrow> int \<Rightarrow> int \<Rightarrow> int \<Rightarrow> stream res" where
  "download_uncached tr doc_size raw mid b e =
     rbind (if e < 0
            then rbind (doc_size mid) (\<lambda>n. case n of None \<Rightarrow> Inl (MessageNotFound mid) | Some n \<Rightarrow> Inr (n - 1))
            else Inr e) (\<lambda>e.
       Inr (if tr_account tr then raw mid b e
            else if 0 < e \<and> tr_threshold tr < e - b + 1 then download_file_parallel tr raw mid b e
            else raw mid b e))"

section \<open>With the cache\<close>

text \<open>The inner loop of \<open>_fetch_blocks\<close>: the blocks that the buffer completes.\<close>

function cut_ready :: "int \<Rightarrow> int \<Rightarrow> int \<Rightarrow> int \<Rightarrow> bytes \<Rightarrow> (int \<times> bytes \<times> bool) list \<times> int \<times> bytes" where
  "cut_ready lst block_size sz index buffer =
     (let expected = chunk_block_length index block_size sz in
      if index \<le> lst \<and> expected \<le> int (length buffer) then
        (let (ys, i, rest) = cut_ready lst block_size sz (index + 1) (drop (nat expected) buffer)
         in ((index, take (nat expected) buffer, True) # ys, i, rest))
      else ([], index, buffer))"
  by pat_completeness auto
termination
  by (relation "measure (\<lambda>(lst, bs, sz, index, buffer). nat (lst + 1 - index))") auto

declare cut_ready.simps [simp del]

fun cut_chunks :: "int \<Rightarrow> int \<Rightarrow> int \<Rightarrow> int \<Rightarrow> bytes \<Rightarrow> bytes list \<Rightarrow> exn option \<Rightarrow> (int \<times> bytes \<times> bool) list \<times> exn option" where
  "cut_chunks lst block_size sz index buffer [] fin =
     (if fin = None \<and> index \<le> lst \<and> buffer \<noteq> [] then [(index, buffer, False)] else [], fin)"
| "cut_chunks lst block_size sz index buffer (chunk # chunks) fin =
     (let (ys, i, rest) = cut_ready lst block_size sz index (buffer @ chunk);
          (zs, x) = cut_chunks lst block_size sz i rest chunks fin
      in (ys @ zs, x))"

definition fetch_blocks ::
    "transfer \<Rightarrow> size_lookup \<Rightarrow> raw_download \<Rightarrow> int \<Rightarrow> int \<Rightarrow> int \<Rightarrow> int \<Rightarrow> (int \<times> bytes \<times> bool) list \<times> exn option" where
  "fetch_blocks tr doc_size raw mid first lst sz =
     (let b = fst (block_bounds first (tr_block_size tr) sz);
          e = snd (block_bounds lst (tr_block_size tr) sz);
          s = of_res (download_uncached tr doc_size raw mid b e)
      in cut_chunks lst (tr_block_size tr) sz first [] (fst s) (snd s))"

definition block_slice :: "bytes \<Rightarrow> int \<Rightarrow> int \<Rightarrow> int \<Rightarrow> int \<Rightarrow> bytes" where
  "block_slice block index block_size b e =
     (let block_begin = index * block_size;
          start = max 0 (b - block_begin);
          stop = min (int (length block)) (e - block_begin + 1)
      in if start < stop then take (nat (stop - start)) (drop (nat start) block) else [])"

text \<open>
  \<open>env p\<close> is what other tasks do to the cache while the download is suspended after handing out
  the slice of block \<open>p\<close>.
\<close>

type_synonym chunk_env = "int \<Rightarrow> chunk_op list"

definition settle :: "chunk_op list \<Rightarrow> chunk_cache \<Rightarrow> chunk_cache" where
  "settle xs c = (case chunk_run xs c of Inl _ \<Rightarrow> c | Inr c' \<Rightarrow> c')"

fun serve_blocks ::
    "int \<Rightarrow> int \<Rightarrow> int \<Rightarrow> int \<Rightarrow> int \<Rightarrow> chunk_env \<Rightarrow> (int \<times> bytes \<times> bool) list \<Rightarrow> chunk_cache \<Rightarrow> stream \<times> chunk_cache" where
  "serve_blocks channel mid bs b e env [] c = (([], None), c)"
| "serve_blocks channel mid bs b e env ((pos, block, complete) # rest) c =
     (case (if complete then chunk_put (channel, mid, pos) block c else Inr c) of
        Inl ex \<Rightarrow> (raising ex, c)
      | Inr c1 \<Rightarrow>
          let (s, c2) = serve_blocks channel mid bs b e env rest (settle (env pos) c1)
          in (take_over ([block_slice block pos bs b e], None) s, c2))"

text \<open>Everything up to the next cached block is fetched in one go.\<close>

function run_end_from :: "(int \<Rightarrow> bool) \<Rightarrow> int \<Rightarrow> int \<Rightarrow> int" where
  "run_end_from held stop run_end =
     (if run_end + 1 < stop \<and> \<not> held (run_end + 1) then run_end_from held stop (run_end + 1) else run_end)"
  by pat_completeness auto
termination
  by (relation "measure (\<lambda>(held, stop, run_end). nat (stop - run_end))") auto

declare run_end_from.simps [simp del]

lemma run_end_ge: "run_end \<le> run_end_from held stop run_end"
proof (induction held stop run_end rule: run_end_from.induct)
  case (1 held stop run_end)
  then show ?case by (subst run_end_from.simps) auto
qed

lemma run_end_less: "run_end < stop \<Longrightarrow> run_end_from held stop run_end < stop"
proof (induction held stop run_end rule: run_end_from.induct)
  case (1 held stop run_end)
  then show ?case by (subst run_end_from.simps) auto
qed

lemma run_end_decreases: "- run_end_from held stop index - 1 < - index"
  using run_end_ge [of index held stop] by linarith

function cached_download ::
    "transfer \<Rightarrow> size_lookup \<Rightarrow> raw_download \<Rightarrow> int \<Rightarrow> int \<Rightarrow> int \<Rightarrow> int \<Rightarrow> int \<Rightarrow> chunk_env \<Rightarrow> int \<Rightarrow> int \<Rightarrow> chunk_cache
      \<Rightarrow> stream \<times> chunk_cache" where
  "cached_download tr doc_size raw channel mid b e sz env index stop c =
     (if stop \<le> index then (([], None), c)
      else case chunk_get (channel, mid, index) c of
          (Some cached, c1) \<Rightarrow>
            (let (s, c2) = cached_download tr doc_size raw channel mid b e sz env (index + 1) stop (settle (env index) c1)
             in (take_over ([block_slice cached index (tr_block_size tr) b e], None) s, c2))
        | (None, c1) \<Rightarrow>
            (let run_end = run_end_from (\<lambda>i. chunk_contains (channel, mid, i) c1) stop index;
                 (blocks, fin) = fetch_blocks tr doc_size raw mid index run_end sz;
                 (s, c2) = serve_blocks channel mid (tr_block_size tr) b e env blocks c1
             in if snd s \<noteq> None then (s, c2)
                else if fin \<noteq> None then ((fst s, fin), c2)
                else (let (t, c3) = cached_download tr doc_size raw channel mid b e sz env (run_end + 1) stop c2
                      in (take_over s t, c3))))"
  by pat_completeness auto
termination
  by (relation "measure (\<lambda>(tr, doc_size, raw, channel, mid, b, e, sz, env, index, stop, c). nat (stop - index))")
    (auto simp: run_end_decreases)

declare cached_download.simps [simp del]

definition MAX_READAHEAD_TASKS :: nat where "MAX_READAHEAD_TASKS = 4"

text \<open>
  \<open>_download_cached\<close>: \<open>None\<close> when the cache cannot help. The read-ahead it schedules is a task of
  its own.
\<close>

definition download_cached ::
    "transfer \<Rightarrow> size_lookup \<Rightarrow> raw_download \<Rightarrow> int \<Rightarrow> chunk_env \<Rightarrow> int \<Rightarrow> int \<Rightarrow> int \<Rightarrow> chunk_cache
      \<Rightarrow> (stream \<times> chunk_cache) option res" where
  "download_cached tr doc_size raw channel env mid b e c =
     (if \<not> chunk_enabled c \<or> b < 0 then Inr None
      else rbind (doc_size mid) (\<lambda>n. case n of
          None \<Rightarrow> Inr None
        | Some sz \<Rightarrow>
            if sz \<le> 0 \<or> sz \<le> b then Inr None
            else
              let e = (if e < 0 \<or> sz - 1 < e then sz - 1 else e) in
              if e < b then Inr None
              else
                let (start, stop) = block_range b (min e (sz - 1)) (tr_block_size tr)
                in Inr (Some (cached_download tr doc_size raw channel mid b e sz env start stop c))))"

definition tg_download_file ::
    "transfer \<Rightarrow> size_lookup \<Rightarrow> raw_download \<Rightarrow> int \<Rightarrow> chunk_env \<Rightarrow> int \<Rightarrow> int \<Rightarrow> int \<Rightarrow> chunk_cache
      \<Rightarrow> stream \<times> chunk_cache" where
  "tg_download_file tr doc_size raw channel env mid b e c =
     (case download_cached tr doc_size raw channel env mid b e c of
        Inl ex \<Rightarrow> (raising ex, c)
      | Inr (Some r) \<Rightarrow> r
      | Inr None \<Rightarrow> (of_res (download_uncached tr doc_size raw mid b e), c))"

text \<open>
  \<open>_schedule_readahead\<close>: \<open>active\<close> are the read-aheads under way; the result is the blocks to fetch,
  first and last. The task puts what it fetches complete.
\<close>

definition schedule_readahead ::
    "transfer \<Rightarrow> int \<Rightarrow> (int \<times> int \<times> int) list \<Rightarrow> int \<Rightarrow> int \<Rightarrow> int \<Rightarrow> chunk_cache \<Rightarrow> (int \<times> int \<times> int) option" where
  "schedule_readahead tr channel active mid after sz c =
     (if tr_readahead tr < 1 \<or> MAX_READAHEAD_TASKS \<le> length active then None
      else
        let last_block = (sz - 1) div tr_block_size tr;
            wanted = filter (\<lambda>index. \<not> chunk_contains (channel, mid, index) c)
              [after + 1..min (after + tr_readahead tr) last_block] in
        if wanted = [] then None
        else let key = (mid, hd wanted, last wanted) in if key \<in> set active then None else Some key)"

definition readahead_puts :: "transfer \<Rightarrow> size_lookup \<Rightarrow> raw_download \<Rightarrow> int \<Rightarrow> int \<Rightarrow> int \<times> int \<times> int \<Rightarrow> chunk_op list" where
  "readahead_puts tr doc_size raw channel sz key = (case key of (mid, first, lst) \<Rightarrow>
     concat (map (\<lambda>(index, block, complete). if complete then [Put (channel, mid, index) block] else [])
       (fst (fetch_blocks tr doc_size raw mid first lst sz))))"

section \<open>Downloads without the cache keep the contract\<close>

definition raw_honest :: "(int \<Rightarrow> bytes option) \<Rightarrow> raw_download \<Rightarrow> bool" where
  "raw_honest docs raw \<longleftrightarrow> (\<forall>mid d b e. docs mid = Some d \<longrightarrow> 0 \<le> b \<longrightarrow> b \<le> e \<longrightarrow> e < int (length d)
     \<longrightarrow> serves (raw mid b e) (subrange d b e))"

definition sizes_known :: "(int \<Rightarrow> bytes option) \<Rightarrow> size_lookup \<Rightarrow> bool" where
  "sizes_known docs doc_size \<longleftrightarrow> (\<forall>mid d. docs mid = Some d \<longrightarrow> doc_size mid = Inr (Some (int (length d))))"

lemma pieces_inside:
  "0 \<le> b \<Longrightarrow> (x, y) \<in> set (split_download_pieces b e p) \<Longrightarrow> 0 \<le> x \<and> x \<le> y \<and> y \<le> e"
proof (induction b e p rule: split_download_pieces.induct)
  case (1 b e p)
  show ?case
  proof (cases "b \<le> e \<and> 0 < p")
    case True
    then have "(x, y) = (b, min (b + p - 1) e) \<or> (x, y) \<in> set (split_download_pieces (b + p) e p)"
      using "1.prems"(2) by (simp add: split_download_pieces.simps [of b e p])
    then show ?thesis using True "1.IH" "1.prems"(1) by auto
  next
    case False
    then show ?thesis using "1.prems"(2) by (simp only: split_download_pieces.simps [of b e p] if_False set_simps) simp
  qed
qed

lemma parallel_serves:
  assumes "raw_honest docs raw" and "docs mid = Some d" and "0 \<le> b" and "e < int (length d)" and "0 < tr_piece_size tr"
  shows "serves (download_file_parallel tr raw mid b e) (subrange d b e)"
proof -
  let ?ps = "split_download_pieces b e (tr_piece_size tr)"
  have "serves (raw mid x y) (subrange d x y)" if "(x, y) \<in> set ?ps" for x y
    using pieces_inside [OF assms(3) that] assms(1,2,4) unfolding raw_honest_def by (metis order_le_less_trans)
  then have "list_all2 serves (map (\<lambda>(x, y). raw mid x y) ?ps) (map (\<lambda>(x, y). subrange d x y) ?ps)"
    by (auto simp: list_all2_map1 list_all2_map2 list_all2_same)
  from serves_chain [OF this] show ?thesis
    using pieces_subranges [OF assms(3,5), of d e] by (simp add: download_file_parallel_def)
qed

lemma uncached_serves:
  assumes "raw_honest docs raw" and "docs mid = Some d" and "0 \<le> b" and "b \<le> e" and "e < int (length d)" and "0 < tr_piece_size tr"
  shows "\<exists>s. download_uncached tr doc_size raw mid b e = Inr s \<and> serves s (subrange d b e)"
proof -
  have "serves (raw mid b e) (subrange d b e)" using assms(1-5) unfolding raw_honest_def by blast
  then show ?thesis using parallel_serves [OF assms(1-3,5,6)] assms(3,4) by (auto simp: download_uncached_def)
qed

section \<open>Blocks are cut at the right places\<close>

definition doc_block :: "bytes \<Rightarrow> int \<Rightarrow> int \<Rightarrow> bytes" where
  "doc_block d bs i = subrange d (i * bs) (min (i * bs + bs) (int (length d)) - 1)"

text \<open>The blocks from \<open>i\<close> to \<open>lst\<close>.\<close>

definition doc_blocks :: "bytes \<Rightarrow> int \<Rightarrow> int \<Rightarrow> int \<Rightarrow> bytes" where
  "doc_blocks d bs i lst = subrange d (i * bs) (min (lst * bs + bs) (int (length d)) - 1)"

lemma block_length_doc:
  assumes "0 < bs" and "0 \<le> i" and "i * bs < int (length d)"
  shows "chunk_block_length i bs (int (length d)) = int (length (doc_block d bs i))" and "doc_block d bs i \<noteq> []"
proof -
  let ?e = "min (i * bs + bs) (int (length d)) - 1"
  have b: "0 \<le> i * bs" "i * bs \<le> ?e" "?e < int (length d)" using assms by auto
  then have len: "int (length (doc_block d bs i)) = ?e - i * bs + 1" by (simp add: doc_block_def length_subrange)
  show "chunk_block_length i bs (int (length d)) = int (length (doc_block d bs i))"
    unfolding len chunk_block_length_def block_bounds_def Let_def using b(2) by simp
  show "doc_block d bs i \<noteq> []" using len b(2) by auto
qed

lemma doc_blocks_Cons:
  assumes "0 < bs" and "0 \<le> i" and "i \<le> lst"
  shows "doc_blocks d bs i lst = doc_block d bs i @ doc_blocks d bs (i + 1) lst"
proof (cases "i * bs + bs \<le> int (length d)")
  case True
  have "i * bs + bs \<le> lst * bs + bs" using assms by (simp add: mult_right_mono)
  then have "subrange d (i * bs) (min (lst * bs + bs) (int (length d)) - 1)
      = subrange d (i * bs) (i * bs + bs - 1) @ subrange d (i * bs + bs) (min (lst * bs + bs) (int (length d)) - 1)"
    using True assms by (intro subrange_split) auto
  then show ?thesis using True by (simp add: doc_blocks_def doc_block_def algebra_simps)
next
  case False
  have "i * bs + bs \<le> lst * bs + bs" using assms by (simp add: mult_right_mono)
  then have "min (lst * bs + bs) (int (length d)) = int (length d)" "min (i * bs + bs) (int (length d)) = int (length d)"
    using False by auto
  moreover have "subrange d ((i + 1) * bs) (int (length d) - 1) = []" using False by (simp add: algebra_simps)
  ultimately show ?thesis by (simp add: doc_blocks_def doc_block_def)
qed

lemma doc_blocks_Nil [simp]: "0 < bs \<Longrightarrow> doc_blocks d bs (lst + 1) lst = []"
  by (simp add: doc_blocks_def algebra_simps)

abbreviation whole_blocks :: "bytes \<Rightarrow> int \<Rightarrow> int \<Rightarrow> int \<Rightarrow> (int \<times> bytes \<times> bool) list" where
  "whole_blocks d bs i k \<equiv> map (\<lambda>j. (j, doc_block d bs j, True)) [i..k - 1]"

lemma block_starts_inside: "0 < bs \<Longrightarrow> i \<le> lst \<Longrightarrow> lst * bs < int n \<Longrightarrow> i * bs < int n"
  using mult_right_mono [of i lst bs] by linarith

lemma prefix_same_length: "prefix xs ys \<Longrightarrow> length ys \<le> length xs \<Longrightarrow> xs = ys"
  by (auto simp: prefix_def)

lemma cut_ready_blocks:
  assumes "0 < bs" and "0 \<le> i" and "i \<le> lst + 1" and "lst * bs < int (length d)" and "prefix buf (doc_blocks d bs i lst)"
  shows "\<exists>k rest. cut_ready lst bs (int (length d)) i buf = (whole_blocks d bs i k, k, rest) \<and> i \<le> k \<and> k \<le> lst + 1
    \<and> buf = concat (map (doc_block d bs) [i..k - 1]) @ rest \<and> prefix rest (doc_blocks d bs k lst)
    \<and> (k \<le> lst \<longrightarrow> length rest < length (doc_block d bs k))"
  using assms
proof (induction "nat (lst + 1 - i)" arbitrary: i buf)
  case 0
  then have i: "i = lst + 1" by simp
  then have "cut_ready lst bs (int (length d)) i buf = (whole_blocks d bs i i, i, buf)" by (subst cut_ready.simps) (simp add: Let_def)
  then show ?case using 0 i by auto
next
  case (Suc n)
  then have i: "i \<le> lst" by simp
  note len = block_length_doc [OF Suc.prems(1,2) block_starts_inside [OF Suc.prems(1) i Suc.prems(4)]]
  show ?case
  proof (cases "length (doc_block d bs i) \<le> length buf")
    case False
    then have "cut_ready lst bs (int (length d)) i buf = (whole_blocks d bs i i, i, buf)"
      using len(1) by (subst cut_ready.simps) (simp add: Let_def)
    then show ?thesis using Suc.prems False i by (intro exI [of _ i] exI [of _ buf]) auto
  next
    case True
    let ?n = "length (doc_block d bs i)"
    have "prefix buf (doc_block d bs i @ doc_blocks d bs (i + 1) lst)"
      using Suc.prems(5) doc_blocks_Cons [OF Suc.prems(1,2) i] by simp
    then obtain buf' where buf: "buf = doc_block d bs i @ buf'" "prefix buf' (doc_blocks d bs (i + 1) lst)"
      using True prefix_same_length [of buf "doc_block d bs i"] that by (fastforce simp: prefix_append)
    obtain k rest where k: "cut_ready lst bs (int (length d)) (i + 1) buf' = (whole_blocks d bs (i + 1) k, k, rest)"
      "i + 1 \<le> k" "k \<le> lst + 1" "buf' = concat (map (doc_block d bs) [i + 1..k - 1]) @ rest"
      "prefix rest (doc_blocks d bs k lst)" "k \<le> lst \<longrightarrow> length rest < length (doc_block d bs k)"
    proof -
      have "n = nat (lst + 1 - (i + 1))" using Suc.hyps(2) by linarith
      from Suc.hyps(1) [OF this Suc.prems(1) _ _ Suc.prems(4) buf(2)] Suc.prems(2) i that show ?thesis by auto
    qed
    have up: "[i..k - 1] = i # [i + 1..k - 1]" using k(2) by (simp add: upto_rec1)
    have "cut_ready lst bs (int (length d)) i buf = (whole_blocks d bs i k, k, rest)"
      using len(1) i k(1) buf(1) by (subst cut_ready.simps) (simp add: Let_def up)
    then show ?thesis using k buf(1) up by (intro exI [of _ k] exI [of _ rest]) auto
  qed
qed

lemma serves_rest:
  assumes "serves (x # y # cs, fin) (p @ w)" and "x @ y = p @ r"
  shows "serves (r # cs, fin) w"
proof -
  have "concat (x # y # cs) = p @ concat (r # cs)" using assms(2) by (metis append_assoc concat.simps(2))
  with assms(1) show ?thesis by (cases fin) (simp_all only: serves_None serves_Some strict_prefix_def same_prefix_prefix same_append_eq simp_thms)
qed

lemma cut_chunks_blocks:
  assumes "0 < bs" and "0 \<le> i" and "i \<le> lst + 1" and "lst * bs < int (length d)"
    and "serves (buf # chunks, fin) (doc_blocks d bs i lst)" and "i \<le> lst \<Longrightarrow> length buf < length (doc_block d bs i)"
  shows "\<exists>k. cut_chunks lst bs (int (length d)) i buf chunks fin = (whole_blocks d bs i k, fin) \<and> i \<le> k
    \<and> (if fin = None then k = lst + 1 else k \<le> lst)"
  using assms(2,3,5,6)
proof (induction chunks arbitrary: i buf)
  case Nil
  show ?case
  proof (cases "i \<le> lst")
    case True
    then have "doc_blocks d bs i lst = doc_block d bs i @ doc_blocks d bs (i + 1) lst" by (rule doc_blocks_Cons [OF assms(1) Nil.prems(1)])
    then have "buf \<noteq> doc_blocks d bs i lst" using Nil.prems(4) [OF True] by auto
    then have "fin \<noteq> None" using Nil.prems(3) by (cases fin) auto
    then show ?thesis using True by (intro exI [of _ i]) auto
  next
    case False
    then have "i = lst + 1" using Nil.prems(2) by simp
    then show ?thesis using Nil.prems(3) assms(1) by (cases fin) (auto simp: strict_prefix_def)
  qed
next
  case (Cons c cs)
  have "prefix (concat (buf # c # cs)) (doc_blocks d bs i lst)" using serves_prefix [OF Cons.prems(3)] by (simp add: stream_bytes_def)
  then have "prefix (buf @ c) (doc_blocks d bs i lst)" by (metis append_prefixD concat.simps(2) append_assoc)
  then obtain k rest where k: "cut_ready lst bs (int (length d)) i (buf @ c) = (whole_blocks d bs i k, k, rest)" "i \<le> k" "k \<le> lst + 1"
    "buf @ c = concat (map (doc_block d bs) [i..k - 1]) @ rest" "k \<le> lst \<longrightarrow> length rest < length (doc_block d bs k)"
    using cut_ready_blocks [OF assms(1) Cons.prems(1,2) assms(4)] by blast
  have all: "doc_blocks d bs i lst = concat (map (doc_block d bs) [i..k - 1]) @ doc_blocks d bs k lst"
    using k(2,3) Cons.prems(1)
  proof (induction "nat (k - i)" arbitrary: i)
    case (Suc n)
    then have "i \<le> lst" "[i..k - 1] = i # [i + 1..k - 1]" by (auto simp: upto_rec1)
    then show ?case using Suc.hyps(1) [of "i + 1"] Suc.hyps(2) Suc.prems doc_blocks_Cons [OF assms(1) Suc.prems(3)] by auto
  qed simp
  have "serves (rest # cs, fin) (doc_blocks d bs k lst)"
    using Cons.prems(3) unfolding all by (rule serves_rest [OF _ k(4)])
  from Cons.IH [OF _ k(3) this] k(2,5) Cons.prems(1)
  obtain k' where k': "cut_chunks lst bs (int (length d)) k rest cs fin = (whole_blocks d bs k k', fin)" "k \<le> k'"
    "if fin = None then k' = lst + 1 else k' \<le> lst" by auto
  have "[i..k - 1] @ [k..k' - 1] = [i..k' - 1]" using k(2) k'(2) upto_split1 [of i k "k' - 1"] by (cases "k = k'") auto
  then have "whole_blocks d bs i k @ whole_blocks d bs k k' = whole_blocks d bs i k'" by (metis map_append)
  then show ?case using k(1,2) k' by (intro exI [of _ k']) auto
qed

lemma fetch_blocks_whole:
  assumes "raw_honest docs raw" and "docs mid = Some d" and "0 < tr_piece_size tr" and bs: "0 < tr_block_size tr"
    and "0 \<le> first" and "first \<le> lst" and "lst * tr_block_size tr < int (length d)"
  obtains k fin where "fetch_blocks tr doc_size raw mid first lst (int (length d)) = (whole_blocks d (tr_block_size tr) first k, fin)"
    and "first \<le> k" and "if fin = None then k = lst + 1 else k \<le> lst"
proof -
  let ?bs = "tr_block_size tr" and ?n = "int (length d)"
  let ?e = "min (lst * ?bs + ?bs) ?n - 1"
  have in_range: "0 \<le> first * ?bs" "first * ?bs \<le> ?e" "?e < ?n"
  proof -
    have le: "first * ?bs \<le> lst * ?bs" using assms(6) bs by (simp add: mult_right_mono)
    show "0 \<le> first * ?bs" using assms(5) bs by simp
    show "first * ?bs \<le> ?e" "?e < ?n" using le assms(7) bs by linarith+
  qed
  obtain s where s: "download_uncached tr doc_size raw mid (first * ?bs) ?e = Inr s" "serves s (subrange d (first * ?bs) ?e)"
    using uncached_serves [OF assms(1,2) in_range assms(3)] by blast
  have "serves ([] # fst s, snd s) (doc_blocks d ?bs first lst)" using s(2) by (cases s) (cases "snd s"; simp add: doc_blocks_def)
  from cut_chunks_blocks [OF bs assms(5) _ assms(7) this] block_length_doc(2) [OF bs assms(5) block_starts_inside [OF bs assms(6,7)]]
  show ?thesis using assms(6) s(1) that by (auto simp: fetch_blocks_def block_bounds_def Let_def)
qed

section \<open>The cache holds blocks of the documents\<close>

definition block_right :: "(int \<Rightarrow> bytes option) \<Rightarrow> int \<Rightarrow> int \<Rightarrow> block_key \<times> bytes \<Rightarrow> bool" where
  "block_right docs channel bs x = (case x of ((ch, mid, i), block) \<Rightarrow>
     ch = channel \<longrightarrow> (\<forall>d. docs mid = Some d \<longrightarrow> block = doc_block d bs i))"

definition coherent :: "(int \<Rightarrow> bytes option) \<Rightarrow> int \<Rightarrow> int \<Rightarrow> chunk_cache \<Rightarrow> bool" where
  "coherent docs channel bs c \<longleftrightarrow> chunk_inv c \<and> (\<forall>x \<in> set (ch_blocks c). block_right docs channel bs x)"

text \<open>Other tasks put blocks that are blocks of the documents.\<close>

fun op_right :: "(int \<Rightarrow> bytes option) \<Rightarrow> int \<Rightarrow> int \<Rightarrow> chunk_op \<Rightarrow> bool" where
  "op_right docs channel bs (Put key block) = block_right docs channel bs (key, block)"
| "op_right docs channel bs x = True"

lemma coherent_put:
  assumes "coherent docs channel bs c" and "block_right docs channel bs (key, block)"
  shows "\<exists>c'. chunk_put key block c = Inr c' \<and> coherent docs channel bs c'"
  using chunk_put_inv [of c key block] assms by (fastforce simp: coherent_def)

lemma coherent_do:
  assumes "coherent docs channel bs c" and "op_right docs channel bs x"
  shows "\<exists>c'. chunk_do x c = Inr c' \<and> coherent docs channel bs c'"
proof -
  obtain c' where c': "chunk_do x c = Inr c'" "chunk_inv c'"
    "set (ch_blocks c') \<subseteq> set (ch_blocks c) \<union> (case x of Put key block \<Rightarrow> {(key, block)} | _ \<Rightarrow> {})"
    using chunk_do_inv [of c x] assms(1) unfolding coherent_def by metis
  then show ?thesis using assms by (cases x) (auto simp: coherent_def)
qed

lemma coherent_settle:
  assumes "coherent docs channel bs c" and "\<forall>x \<in> set xs. op_right docs channel bs x"
  shows "coherent docs channel bs (settle xs c)"
proof -
  have "\<exists>c'. chunk_run xs c = Inr c' \<and> coherent docs channel bs c'"
    using assms
  proof (induction xs arbitrary: c)
    case (Cons x xs)
    obtain c1 where "chunk_do x c = Inr c1" "coherent docs channel bs c1" using coherent_do [of docs channel bs c x] Cons.prems by auto
    then show ?case using Cons.IH [of c1] Cons.prems(2) by auto
  qed simp
  then show ?thesis by (auto simp: settle_def)
qed

lemma coherent_get:
  assumes "coherent docs channel bs c" and "docs mid = Some d" and "chunk_get (channel, mid, i) c = (r, c')"
  shows "coherent docs channel bs c'" and "r = Some block \<Longrightarrow> block = doc_block d bs i"
proof -
  have inv: "chunk_inv c" using assms(1) by (simp add: coherent_def)
  show "coherent docs channel bs c'"
    using coherent_do [OF assms(1), of "Get (channel, mid, i)"] assms(3) by simp
  assume "r = Some block"
  then have "map_of (ch_blocks c) (channel, mid, i) = Some block"
    using chunk_get_inv(2) [OF inv, of "(channel, mid, i)"] assms(3) by (auto split: if_splits)
  then show "block = doc_block d bs i"
    using map_of_SomeD assms(1,2) by (fastforce simp: coherent_def block_right_def)
qed

lemma readahead_right:
  assumes "raw_honest docs raw" and "docs mid = Some d" and "0 < tr_piece_size tr" and "0 < tr_block_size tr"
    and "0 \<le> after" and "schedule_readahead tr channel active mid after (int (length d)) c = Some (mid, first, lst)"
  shows "\<forall>x \<in> set (readahead_puts tr doc_size raw channel (int (length d)) (mid, first, lst)). op_right docs channel (tr_block_size tr) x"
proof -
  let ?bs = "tr_block_size tr" and ?lb = "(int (length d) - 1) div tr_block_size tr"
  let ?w = "filter (\<lambda>index. \<not> chunk_contains (channel, mid, index) c) [after + 1..min (after + tr_readahead tr) ?lb]"
  have w: "?w \<noteq> [] \<and> first = hd ?w \<and> lst = last ?w"
    using assms(6) unfolding schedule_readahead_def Let_def by (simp only: split: if_splits) simp_all
  have "sorted ?w" by (intro sorted_wrt_filter) simp
  then have "first \<le> lst" using w by (metis hd_conv_nth last_conv_nth length_greater_0_conv diff_less zero_less_one sorted_nth_mono zero_le)
  moreover have mem: "last ?w \<in> set ?w" "hd ?w \<in> set ?w" using w by (simp_all only: hd_in_set last_in_set simp_thms)
  have "lst \<le> ?lb" "0 \<le> first" using mem w assms(5) unfolding set_filter by auto
  moreover have "?lb * ?bs < int (length d)"
    using div_mult_mod_eq [of "int (length d) - 1" ?bs] pos_mod_sign [OF assms(4), of "int (length d) - 1"] by linarith
  ultimately have "first \<le> lst" "lst * ?bs < int (length d)" using block_starts_inside [OF assms(4)] by blast+
  with \<open>0 \<le> first\<close> obtain k fin where "fetch_blocks tr doc_size raw mid first lst (int (length d)) = (whole_blocks d ?bs first k, fin)"
    by (rule fetch_blocks_whole [OF assms(1-4)])
  then show ?thesis using assms(2) by (auto simp: readahead_puts_def block_right_def)
qed

section \<open>What is handed out\<close>

lemma block_slice_doc:
  assumes "0 < bs" and "0 \<le> b" and "e < int (length d)" and "0 \<le> i" and "i * bs \<le> e" and "b \<le> i * bs + bs - 1"
  shows "block_slice (doc_block d bs i) i bs b e = subrange d (max b (i * bs)) (min e (i * bs + bs - 1))"
proof -
  let ?B = "i * bs" and ?E = "min (i * bs + bs) (int (length d)) - 1"
  have pos: "0 \<le> ?B" using assms(1,4) by simp
  have len: "int (length (doc_block d bs i)) = ?E - ?B + 1"
    using assms pos by (simp add: doc_block_def length_subrange)
  let ?start = "max 0 (b - ?B)" and ?stop = "min (int (length (doc_block d bs i))) (e - ?B + 1)"
  show ?thesis
  proof (cases "?start < ?stop")
    case True
    have "block_slice (doc_block d bs i) i bs b e = subrange (subrange d ?B ?E) ?start (?stop - 1)"
      using True by (simp add: block_slice_def Let_def doc_block_def [symmetric] subrange_def [of "doc_block d bs i"])
    also have "\<dots> = subrange d (?B + ?start) (?B + (?stop - 1))"
      using pos len by (intro subrange_subrange) auto
    also have "?B + ?start = max b ?B" by simp
    also have "?B + (?stop - 1) = min e (?B + bs - 1)" using len assms(3) by linarith
    finally show ?thesis .
  next
    case False
    then have "min e (?B + bs - 1) < max b ?B" using len assms(3) by linarith
    then have "subrange d (max b ?B) (min e (?B + bs - 1)) = []" by simp
    then show ?thesis using False unfolding block_slice_def Let_def by (simp only: if_False)
  qed
qed

lemma block_slices_concat:
  assumes "0 < bs" and "0 \<le> b" and "b \<le> e" and "e < int (length d)" and "0 \<le> i" and "b \<le> i * bs + bs - 1" and "i \<le> k" and "(k - 1) * bs \<le> e"
  shows "concat (map (\<lambda>j. block_slice (doc_block d bs j) j bs b e) [i..k - 1]) @ subrange d (max b (k * bs)) e
    = subrange d (max b (i * bs)) e"
  using assms(5-7)
proof (induction "nat (k - i)" arbitrary: i)
  case (Suc n)
  have i: "[i..k - 1] = i # [i + 1..k - 1]" using Suc.hyps(2) by (simp add: upto_rec1)
  have "i * bs \<le> (k - 1) * bs" using Suc.hyps(2) assms(1) by (intro mult_right_mono) auto
  then have ie: "i * bs \<le> e" using assms(8) by linarith
  have IH: "concat (map (\<lambda>j. block_slice (doc_block d bs j) j bs b e) [i + 1..k - 1]) @ subrange d (max b (k * bs)) e
      = subrange d (max b ((i + 1) * bs)) e"
    using Suc.hyps(1) [of "i + 1"] Suc.hyps(2) Suc.prems assms(1) by (simp add: algebra_simps)
  have next_start: "max b ((i + 1) * bs) = i * bs + bs" using Suc.prems(2) assms(1) by (simp add: algebra_simps)
  have "subrange d (max b (i * bs)) e = subrange d (max b (i * bs)) (min e (i * bs + bs - 1)) @ subrange d (i * bs + bs) e"
  proof (cases "i * bs + bs \<le> e + 1")
    case True
    then have "min e (i * bs + bs - 1) = i * bs + bs - 1" by simp
    moreover have "max b (i * bs) \<le> i * bs + bs" "0 \<le> max b (i * bs)" using Suc.prems assms(1,2) by auto
    ultimately show ?thesis using subrange_split [of "max b (i * bs)" "i * bs + bs" e d] True by simp
  next
    case False
    then show ?thesis by simp
  qed
  then show ?case
    unfolding i using block_slice_doc [OF assms(1,2,4) Suc.prems(1) ie Suc.prems(2)] IH next_start by simp
qed simp

lemma serve_blocks_whole:
  assumes "coherent docs channel bs c" and "docs mid = Some d" and "\<forall>p. \<forall>x \<in> set (env p). op_right docs channel bs x"
  shows "\<exists>c'. serve_blocks channel mid bs b e env (map (\<lambda>j. (j, doc_block d bs j, True)) js) c
      = ((map (\<lambda>j. block_slice (doc_block d bs j) j bs b e) js, None), c') \<and> coherent docs channel bs c'"
  using assms(1)
proof (induction js arbitrary: c)
  case (Cons j js)
  obtain c1 where c1: "chunk_put (channel, mid, j) (doc_block d bs j) c = Inr c1" "coherent docs channel bs c1"
    using coherent_put [OF Cons.prems, of "(channel, mid, j)" "doc_block d bs j"] assms(2) by (auto simp: block_right_def)
  have "coherent docs channel bs (settle (env j) c1)" by (rule coherent_settle [OF c1(2)]) (use assms(3) in auto)
  from Cons.IH [OF this] show ?case by (auto simp: c1(1) take_over_def)
qed simp

lemma serves_after: "serves s w \<Longrightarrow> serves (take_over (cs, None) s) (concat cs @ w)"
  by (cases s; cases "snd s") (auto simp: take_over_def strict_prefix_def)

lemma cached_download_serves:
  assumes raw: "raw_honest docs raw" and d: "docs mid = Some d" and "0 < tr_piece_size tr" and bs: "0 < tr_block_size tr"
    and b: "0 \<le> b" "b \<le> e" "e < int (length d)" and env: "\<forall>p. \<forall>x \<in> set (env p). op_right docs channel (tr_block_size tr) x"
    and stop: "stop = e div tr_block_size tr + 1"
    and "coherent docs channel (tr_block_size tr) c" and "0 \<le> index" and "index \<le> stop" and "b \<le> index * tr_block_size tr + tr_block_size tr - 1"
  shows "\<exists>s c'. cached_download tr doc_size raw channel mid b e (int (length d)) env index stop c = (s, c')
    \<and> serves s (subrange d (max b (index * tr_block_size tr)) e) \<and> coherent docs channel (tr_block_size tr) c'"
  using assms(10-13)
proof (induction "nat (stop - index)" arbitrary: index c rule: less_induct)
  case less
  let ?bs = "tr_block_size tr" and ?sz = "int (length d)"
  have last_block: "(stop - 1) * ?bs \<le> e" "e < stop * ?bs"
  proof -
    have "(stop - 1) * ?bs = e - e mod ?bs" using stop minus_mod_eq_div_mult [of e ?bs] by simp
    moreover have "stop * ?bs = (stop - 1) * ?bs + ?bs" by (simp add: algebra_simps)
    ultimately show "(stop - 1) * ?bs \<le> e" "e < stop * ?bs"
      using pos_mod_sign [OF bs, of e] pos_mod_bound [OF bs, of e] by linarith+
  qed
  show ?case
  proof (cases "stop \<le> index")
    case True
    then have "stop * ?bs \<le> index * ?bs" using bs by (simp add: mult_right_mono)
    then have "serves ([], None) (subrange d (max b (index * ?bs)) e)" using last_block(2) by simp
    then show ?thesis using True less.prems(1) by (subst cached_download.simps) simp
  next
    case False
    then have in_last: "index * ?bs \<le> e" using last_block(1) mult_right_mono [of index "stop - 1" ?bs] bs by linarith
    note join = block_slices_concat [OF bs b less.prems(2,4)]
    have later: "b \<le> k * ?bs + ?bs - 1" if "index \<le> k" for k
      using less.prems(4) mult_right_mono [OF that, of ?bs] bs by linarith
    obtain r c1 where get: "chunk_get (channel, mid, index) c = (r, c1)" by fastforce
    note got = coherent_get [OF less.prems(1) d get]
    show ?thesis
    proof (cases r)
      case (Some cached)
      have block: "cached = doc_block d ?bs index" using got(2) Some by blast
      have "coherent docs channel ?bs (settle (env index) c1)" by (rule coherent_settle [OF got(1)]) (use env in auto)
      then obtain s c' where s: "cached_download tr doc_size raw channel mid b e ?sz env (index + 1) stop (settle (env index) c1) = (s, c')"
        "serves s (subrange d (max b ((index + 1) * ?bs)) e)" "coherent docs channel ?bs c'"
        using less.hyps [of "index + 1" "settle (env index) c1"] False less.prems(2) later [of "index + 1"] by auto
      have "serves (take_over ([block_slice cached index ?bs b e], None) s) (subrange d (max b (index * ?bs)) e)"
        using serves_after [OF s(2), of "[block_slice cached index ?bs b e]"] join [of "index + 1"] in_last block by simp
      then show ?thesis using False get Some s by (subst cached_download.simps) simp
    next
      case None
      define run_end where "run_end = run_end_from (\<lambda>i. chunk_contains (channel, mid, i) c1) stop index"
      have run: "index \<le> run_end" "run_end < stop" using run_end_ge run_end_less False by (auto simp: run_end_def)
      have run_in: "run_end * ?bs \<le> e" using last_block(1) mult_right_mono [of run_end "stop - 1" ?bs] run(2) bs by linarith
      obtain k fin where k: "fetch_blocks tr doc_size raw mid index run_end ?sz = (whole_blocks d ?bs index k, fin)" "index \<le> k"
        "if fin = None then k = run_end + 1 else k \<le> run_end"
        by (rule fetch_blocks_whole [OF raw d assms(3) bs less.prems(2) run(1) order_le_less_trans [OF run_in b(3)]])
      have k_in: "(k - 1) * ?bs \<le> e" 
      proof -
        have "k - 1 \<le> run_end" using k(3) by (simp split: if_splits)
        then have "(k - 1) * ?bs \<le> run_end * ?bs" using bs by (simp add: mult_right_mono)
        then show ?thesis using run_in by linarith
      qed
      let ?out = "map (\<lambda>j. block_slice (doc_block d ?bs j) j ?bs b e) [index..k - 1]"
      obtain c2 where c2: "serve_blocks channel mid ?bs b e env (whole_blocks d ?bs index k) c1 = ((?out, None), c2)" "coherent docs channel ?bs c2"
        using serve_blocks_whole [OF got(1) d env] by blast
      have whole: "concat ?out @ subrange d (max b (k * ?bs)) e = subrange d (max b (index * ?bs)) e" by (rule join [OF k(2) k_in])
      show ?thesis
      proof (cases fin)
        case (Some ex)
        have "k \<le> run_end" using k(3) Some by simp
        then have "k * ?bs \<le> run_end * ?bs" using bs by (simp add: mult_right_mono)
        then have "k * ?bs \<le> e" using run_in by linarith
        then have "subrange d (max b (k * ?bs)) e \<noteq> []" using b by (intro subrange_nonempty) auto
        then have "serves (?out, Some ex) (subrange d (max b (index * ?bs)) e)"
          unfolding whole [symmetric] by (simp add: strict_prefix_def)
        then show ?thesis using False get None k(1) c2 Some by (subst cached_download.simps) (simp add: run_end_def [symmetric])
      next
        case fin: None
        then have k_eq: "k = run_end + 1" using k(3) by simp
        obtain t c3 where t: "cached_download tr doc_size raw channel mid b e ?sz env (run_end + 1) stop c2 = (t, c3)"
          "serves t (subrange d (max b ((run_end + 1) * ?bs)) e)" "coherent docs channel ?bs c3"
          using less.hyps [of "run_end + 1" c2] run less.prems(2) c2(2) later [of "run_end + 1"] by auto
        have "serves (take_over (?out, None) t) (subrange d (max b (index * ?bs)) e)"
          unfolding whole [symmetric] using serves_after [OF t(2), of ?out] by (simp add: k_eq)
        then show ?thesis
          using False get None k(1) c2(1) fin t by (subst cached_download.simps) (simp add: run_end_def [symmetric])
      qed
    qed
  qed
qed

lemma download_file_serves:
  assumes raw: "raw_honest docs raw" and sizes: "sizes_known docs doc_size" and "0 < tr_piece_size tr" and bs: "0 < tr_block_size tr"
    and "coherent docs channel (tr_block_size tr) c" and env: "\<forall>p. \<forall>x \<in> set (env p). op_right docs channel (tr_block_size tr) x"
    and d: "docs mid = Some d" and "0 \<le> b" and "b \<le> end_of (int (length d)) e" and "d \<noteq> []"
    and e: "e < int (length d)"
  shows "\<exists>s c'. tg_download_file tr doc_size raw channel env mid b e c = (s, c')
    \<and> serves s (subrange d b (end_of (int (length d)) e)) \<and> coherent docs channel (tr_block_size tr) c'"
proof -
  let ?e = "end_of (int (length d)) e" and ?bs = "tr_block_size tr" and ?sz = "int (length d)"
  have size: "doc_size mid = Inr (Some ?sz)" using sizes d by (simp add: sizes_known_def)
  have e': "?e < ?sz" "0 \<le> ?e" using end_of_bounds(1) [of ?sz e] assms(8-10) by auto
  show ?thesis
  proof (cases "chunk_enabled c")
    case True
    have start: "b \<le> (b div ?bs) * ?bs + ?bs - 1" "max b (b div ?bs * ?bs) = b" "0 \<le> b div ?bs" "b div ?bs \<le> ?e div ?bs + 1"
    proof -
      have "(b div ?bs) * ?bs = b - b mod ?bs" by (simp add: minus_mod_eq_div_mult)
      then show "b \<le> (b div ?bs) * ?bs + ?bs - 1" "max b (b div ?bs * ?bs) = b"
        using pos_mod_sign [OF bs, of b] pos_mod_bound [OF bs, of b] by auto
      show "0 \<le> b div ?bs" using assms(8) bs by (simp add: pos_imp_zdiv_nonneg_iff)
      show "b div ?bs \<le> ?e div ?bs + 1" using zdiv_mono1 [OF assms(9) bs] by simp
    qed
    obtain s c' where s: "cached_download tr doc_size raw channel mid b ?e ?sz env (b div ?bs) (?e div ?bs + 1) c = (s, c')"
      "serves s (subrange d b ?e)" "coherent docs channel ?bs c'"
      using cached_download_serves [OF raw d assms(3) bs assms(8,9) e'(1) env refl assms(5) start(3,4,1), of doc_size] start(2) by auto
    have clamp: "(if e < 0 \<or> ?sz - 1 < e then ?sz - 1 else e) = ?e" "min ?e (?sz - 1) = ?e" using e'(1) by (auto simp: end_of_def)
    have "download_cached tr doc_size raw channel env mid b e c = Inr (Some (s, c'))"
      using True assms(8,9,10) e' s(1) size clamp by (simp add: download_cached_def block_range_def Let_def)
    then show ?thesis using s by (simp add: tg_download_file_def)
  next
    case False
    have "\<exists>s. download_uncached tr doc_size raw mid b e = Inr s \<and> serves s (subrange d b ?e)"
    proof (cases "e < 0")
      case True
      obtain s where "download_uncached tr doc_size raw mid b ?e = Inr s" "serves s (subrange d b ?e)"
        using uncached_serves [OF raw d assms(8,9) e'(1) assms(3)] by blast
      moreover have "download_uncached tr doc_size raw mid b e = download_uncached tr doc_size raw mid b ?e"
        using True e'(2) size by (simp add: download_uncached_def end_of_def)
      ultimately show ?thesis by simp
    next
      case False
      then have "?e = e" using e by (simp add: end_of_def)
      then show ?thesis using uncached_serves [OF raw d assms(8) _ _ assms(3), of ?e] assms(9) e'(1) by simp
    qed
    then show ?thesis using False assms(5) by (auto simp: tg_download_file_def download_cached_def)
  qed
qed

text \<open>C13: A download from Telegram keeps the contract of the clients below it. For every range of a document, and for
  the rest of it when the end is \<open>-1\<close>, straight from a client, in parallel pieces or through the block
  cache, with other tasks looking up, filling, evicting and invalidating blocks at every
  suspension, what is handed out is exactly the range, or a proper prefix of it and the error; and
  every block in the cache remains a block of its document.\<close>

theorem tg_download_exact:
  assumes "raw_honest docs raw" and "sizes_known docs doc_size" and "0 < tr_piece_size tr" and "0 < tr_block_size tr"
    and "coherent docs channel (tr_block_size tr) c" and "\<forall>p. \<forall>x \<in> set (env p). op_right docs channel (tr_block_size tr) x"
    and "docs mid = Some d" and "0 \<le> b" and "b \<le> end_of (int (length d)) e" and "d \<noteq> []" and "e < int (length d)"
  shows "\<exists>s c'. tg_download_file tr doc_size raw channel env mid b e c = (s, c')
    \<and> serves s (subrange d b (end_of (int (length d)) e)) \<and> coherent docs channel (tr_block_size tr) c'"
  using assms by (rule download_file_serves)

text \<open>So a Telegram store is an honest store, whatever the state of its cache at each download.\<close>

lemma tg_store_honest:
  assumes "raw_honest docs raw" and "sizes_known docs doc_size" and "0 < tr_piece_size tr" and "0 < tr_block_size tr"
    and "\<And>mid b e. coherent docs channel (tr_block_size tr) (cache_at mid b e)"
    and "\<And>mid b e p x. x \<in> set (env_at mid b e p) \<Longrightarrow> op_right docs channel (tr_block_size tr) x"
    and "\<And>key mid c. content key mid = Some c \<Longrightarrow> docs mid = Some c"
  shows "honest (\<lambda>key mid b e. fst (tg_download_file tr doc_size raw channel (env_at mid b e) mid b e (cache_at mid b e))) content"
  unfolding honest_def
proof (intro allI impI)
  fix key mid c b and e :: int
  assume a: "content key mid = Some c" "0 \<le> b" "b \<le> e" "e < int (length c)"
  have "end_of (int (length c)) e = e" "c \<noteq> []" using a by (auto simp: end_of_def)
  with download_file_serves [OF assms(1-4) assms(5) _ assms(7) [OF a(1)] a(2), of "env_at mid b e" e mid b e] a assms(6)
  show "serves (fst (tg_download_file tr doc_size raw channel (env_at mid b e) mid b e (cache_at mid b e))) (subrange c b e)"
    by auto
qed

definition small_transfer :: transfer where
  "small_transfer = \<lparr>tr_account = False, tr_piece_size = 2, tr_threshold = 100, tr_block_size = 2, tr_readahead = 0\<rparr>"

definition small_docs :: "int \<Rightarrow> bytes option" where
  "small_docs mid = (if mid = 1 then Some [10, 11, 12, 13] else None)"

definition small_size :: size_lookup where
  "small_size mid = Inr (map_option (\<lambda>d. int (length d)) (small_docs mid))"

definition small_raw :: raw_download where
  "small_raw mid b e = (case small_docs mid of None \<Rightarrow> raising (MessageNotFound mid) | Some d \<Rightarrow> ([subrange d b e], None))"

text \<open>A cache that holds the second block.\<close>

definition half_cached :: chunk_cache where
  "half_cached = \<lparr>ch_budget = 10, ch_blocks = [((7, 1, 1), [12, 13])], ch_size = 2, ch_hits = 0, ch_misses = 0\<rparr>"

lemma half_coherent: "coherent small_docs 7 2 half_cached"
  by (simp add: coherent_def half_cached_def chunk_inv_def dict_ok_def held_bytes_def block_right_def small_docs_def doc_block_def subrange_def)

theorem tg_download_exact_witness:
  "\<exists>s c'. tg_download_file small_transfer small_size small_raw 7 (\<lambda>_. [Clear]) 1 1 (-1) half_cached = (s, c')
    \<and> serves s [11, 12, 13] \<and> coherent small_docs 7 2 c'"
proof -
  have "raw_honest small_docs small_raw" "sizes_known small_docs small_size"
    by (auto simp: raw_honest_def small_raw_def sizes_known_def small_size_def)
  from tg_download_exact [OF this, of small_transfer 7 half_cached "\<lambda>_. [Clear]" 1 "[10, 11, 12, 13]" 1 "-1"] half_coherent
  show ?thesis by (simp add: small_transfer_def small_docs_def end_of_def subrange_def)
qed

text \<open>A client whose stream ends after one byte.\<close>

definition short_raw :: raw_download where
  "short_raw mid b e = ([take 1 (subrange [10, 11, 12, 13] b e)], None)"

text \<open>
  The cached path relies on the clients: when a client's stream for a missing block ends early without an
  error, the partial block is handed out and the download goes on with the next cached block: the bytes that
  are missing in between are left out and the stream ends normally, so the reader gets bytes at the
  wrong offsets. The clients of \<open>TgClients\<close> raise in that case.\<close>

lemma short_stream_leaves_hole:
  "fst (tg_download_file small_transfer small_size short_raw 7 (\<lambda>_. []) 1 0 (-1) half_cached) = ([[10], [12, 13]], None)
    \<and> \<not> prefix [10, 12, 13] [10, 11, 12, 13 :: 8 word]"
proof -
  have sz: "small_size 1 = Inr (Some 4)" by (simp add: small_size_def small_docs_def)
  have get0: "chunk_get (7, 1, 0) half_cached = (None, half_cached\<lparr>ch_misses := 1\<rparr>)"
    and get1: "chunk_get (7, 1, 1) (half_cached\<lparr>ch_misses := 1\<rparr>) = (Some [12, 13], half_cached\<lparr>ch_misses := 1, ch_hits := 1\<rparr>)"
    by (simp_all add: chunk_get_def half_cached_def chunk_enabled_def move_to_end_def)
  have run: "run_end_from (\<lambda>i. chunk_contains (7, 1, i) (half_cached\<lparr>ch_misses := 1\<rparr>)) 2 0 = 0"
    by (subst run_end_from.simps) (simp add: chunk_contains_def half_cached_def chunk_enabled_def dict_has_def)
  have cut: "cut_ready 0 2 4 0 [10] = ([], 0, [10])"
    by (subst cut_ready.simps) (simp add: chunk_block_length_def block_bounds_def Let_def)
  have blocks: "fetch_blocks small_transfer small_size short_raw 1 0 0 4 = ([(0, [10], False)], None)"
    by (simp add: fetch_blocks_def block_bounds_def Let_def download_uncached_def small_transfer_def short_raw_def subrange_def cut)
  have rest: "cached_download small_transfer small_size short_raw 7 1 0 3 4 (\<lambda>_. []) 1 2 (half_cached\<lparr>ch_misses := 1\<rparr>)
      = (([[12, 13]], None), half_cached\<lparr>ch_misses := 1, ch_hits := 1\<rparr>)"
    by (subst cached_download.simps, subst cached_download.simps)
      (simp add: get1 settle_def small_transfer_def block_slice_def take_over_def)
  have "cached_download small_transfer small_size short_raw 7 1 0 3 4 (\<lambda>_. []) 0 2 half_cached
      = (([[10], [12, 13]], None), half_cached\<lparr>ch_misses := 1, ch_hits := 1\<rparr>)"
    by (subst cached_download.simps)
      (simp add: get0 run blocks rest settle_def take_over_def block_slice_def small_transfer_def [THEN arg_cong [where f = tr_block_size]])
  then show ?thesis
    by (simp add: tg_download_file_def download_cached_def sz block_range_def half_cached_def chunk_enabled_def Let_def
        small_transfer_def [THEN arg_cong [where f = tr_block_size]])
qed

end
