(* ===== verification/TgClients.thy ===== *)
theory TgClients
  imports TgDownload
begin

text \<open>
  The range downloads of the two Telegram clients (\<open>download_file\<close> in
  \<open>src/tgdcfs/backends/telegram/impl/telethon.py\<close> and \<open>pyrogram.py\<close>). The libraries deliver a document from an
  aligned offset on in chunks of their own choice; the clients drop what lies before the
  range, cut what lies behind it, resume once after an expired file reference, and raise when
  the library's stream stops early. What they hand out keeps the contract of a download, which
  the Telegram store builds on.
\<close>

section \<open>The clients\<close>

text \<open>How the library's iterator ends; \<open>it off\<close> is its chunks from the offset \<open>off\<close> on.\<close>

datatype iter_end = Exhausted | ReferenceExpired | Failed exn

type_synonym doc_iter = "int \<Rightarrow> bytes list \<times> iter_end"

text \<open>
  The loop over the library's chunks: the chunks handed out, what is left to read, and whether the
  loop was left by its \<open>break\<close>.
\<close>

fun trim_chunks :: "bytes list \<Rightarrow> int \<Rightarrow> int \<Rightarrow> bytes list \<times> int \<times> bool" where
  "trim_chunks [] skip rest = ([], rest, False)"
| "trim_chunks (chunk # chunks) skip rest =
     (if skip \<noteq> 0 \<and> int (length chunk) \<le> skip then trim_chunks chunks (skip - int (length chunk)) rest
      else
        let chunk = (if skip \<noteq> 0 then drop (nat skip) chunk else chunk);
            chunk = (if rest < int (length chunk) then take (nat rest) chunk else chunk);
            rest = rest - int (length chunk) in
        if rest \<le> 0 then ([chunk], rest, True)
        else let (ys, r, broke) = trim_chunks chunks 0 rest in (chunk # ys, r, broke))"

text \<open>
  The loop of the Telethon client: \<open>it False\<close> iterates over the document as it was resolved first, \<open>it True\<close> as
  it was resolved again, \<open>refresh\<close> is that resolution and \<open>expired\<close> the library's exception.
\<close>

function telethon_loop :: "int \<Rightarrow> (bool \<Rightarrow> doc_iter) \<Rightarrow> unit res \<Rightarrow> exn \<Rightarrow> bool \<Rightarrow> int \<Rightarrow> int \<Rightarrow> stream" where
  "telethon_loop request_size it refresh expired refreshed offset rest =
     (if rest \<le> 0 then ([], None)
      else
        let aligned = offset - offset mod request_size;
            (chunks, fin) = it refreshed aligned;
            (ys, r, broke) = trim_chunks chunks (offset - aligned) rest in
        if broke \<or> fin = Exhausted then (ys, if 0 < r then Some TechnicalError else None)
        else case fin of
            Failed ex \<Rightarrow> (ys, Some ex)
          | _ \<Rightarrow>
              if refreshed then (ys, Some expired)
              else (case refresh of
                  Inl ex \<Rightarrow> (ys, Some ex)
                | Inr _ \<Rightarrow> take_over (ys, None)
                    (telethon_loop request_size it refresh expired True (offset + (rest - r)) r)))"
  by pat_completeness auto
termination
  by (relation "measure (\<lambda>(n, it, refresh, expired, refreshed, offset, rest). if refreshed then 0 else 1)") auto

declare telethon_loop.simps [simp del]

definition telethon_download :: "int \<Rightarrow> (bool \<Rightarrow> doc_iter) \<Rightarrow> unit res \<Rightarrow> exn \<Rightarrow> int \<Rightarrow> int \<Rightarrow> stream" where
  "telethon_download request_size it refresh expired b e =
     (if e < b then raising TechnicalError else telethon_loop request_size it refresh expired False b (e - b + 1))"

definition GET_FILE_CHUNK_SIZE :: int where "GET_FILE_CHUNK_SIZE = 1024 * 1024"

text \<open>The Pyrogram client; its library counts offsets in chunks and may have no iterator at all.\<close>

definition pyrogram_download :: "doc_iter option \<Rightarrow> exn \<Rightarrow> int \<Rightarrow> int \<Rightarrow> stream" where
  "pyrogram_download it expired b e =
     (if e < b then raising TechnicalError
      else case it of
          None \<Rightarrow> raising TechnicalError
        | Some it \<Rightarrow>
            (let (chunks, fin) = it (b div GET_FILE_CHUNK_SIZE * GET_FILE_CHUNK_SIZE);
                 (ys, r, broke) = trim_chunks chunks (b mod GET_FILE_CHUNK_SIZE) (e - b + 1) in
             if broke \<or> fin = Exhausted then (ys, if 0 < r then Some TechnicalError else None)
             else (ys, Some (case fin of Failed ex \<Rightarrow> ex | _ \<Rightarrow> expired))))"

section \<open>They keep the contract\<close>

text \<open>The library delivers bytes of the document from the offset on, however it ends.\<close>

definition iterates :: "bytes \<Rightarrow> doc_iter \<Rightarrow> bool" where
  "iterates d it \<longleftrightarrow> (\<forall>off. 0 \<le> off \<longrightarrow> prefix (concat (fst (it off))) (drop (nat off) d))"

lemma trim_chunks_bytes:
  assumes "0 \<le> skip" and "0 < rest"
  shows "\<exists>ys r broke. trim_chunks chunks skip rest = (ys, r, broke) \<and> concat ys = take (nat rest) (drop (nat skip) (concat chunks))
    \<and> r = rest - int (length (concat ys)) \<and> 0 \<le> r \<and> (broke \<longleftrightarrow> r = 0)"
  using assms
proof (induction chunks skip rest rule: trim_chunks.induct)
  case (2 chunk chunks skip rest)
  show ?case
  proof (cases "skip \<noteq> 0 \<and> int (length chunk) \<le> skip")
    case True
    have "nat skip = length chunk + nat (skip - int (length chunk))" using True by linarith
    then have "drop (nat skip) (concat (chunk # chunks)) = drop (nat (skip - int (length chunk))) (concat chunks)" by simp
    then show ?thesis using "2.IH"(1) [OF True] True "2.prems"(2) by auto
  next
    case False
    define c1 where "c1 = drop (nat skip) chunk"
    have c1: "(if skip \<noteq> 0 then drop (nat skip) chunk else chunk) = c1" by (simp add: c1_def)
    have all: "drop (nat skip) (concat (chunk # chunks)) = c1 @ concat chunks" using False "2.prems"(1) by (auto simp: c1_def)
    show ?thesis
    proof (cases "rest \<le> int (length c1)")
      case True
      then have "trim_chunks (chunk # chunks) skip rest = ([take (nat rest) c1], 0, True)"
        using False "2.prems"(2) by (auto simp: Let_def c1)
      then show ?thesis using all True "2.prems"(2) by auto
    next
      case more: False
      obtain ys r broke where ys: "trim_chunks chunks 0 (rest - int (length c1)) = (ys, r, broke)"
        "concat ys = take (nat (rest - int (length c1))) (concat chunks)" "r = rest - int (length c1) - int (length (concat ys))"
        "0 \<le> r" "broke \<longleftrightarrow> r = 0"
        using "2.IH"(2) [OF False c1 [symmetric] refl refl] more by (auto simp: c1)
      have "trim_chunks (chunk # chunks) skip rest = (c1 # ys, r, broke)"
        using False more ys(1) by (auto simp: Let_def c1)
      moreover have "take (nat rest) (c1 @ concat chunks) = c1 @ concat ys"
        using ys(2) more by (simp add: nat_diff_distrib)
      ultimately show ?thesis using all ys(3-5) by auto
    qed
  qed
qed simp

lemma trim_range:
  assumes "prefix (concat chunks) (drop (nat off) d)" and "0 \<le> off" and "off \<le> b" and "b \<le> e"
  obtains ys r broke where "trim_chunks chunks (b - off) (e - b + 1) = (ys, r, broke)"
    and "prefix (concat ys) (subrange d b e)" and "r = e - b + 1 - int (length (concat ys))" and "0 \<le> r" and "broke \<longleftrightarrow> r = 0"
proof -
  obtain ys r broke where *: "trim_chunks chunks (b - off) (e - b + 1) = (ys, r, broke)"
      "concat ys = take (nat (e - b + 1)) (drop (nat (b - off)) (concat chunks))"
      "r = e - b + 1 - int (length (concat ys))" "0 \<le> r" "broke \<longleftrightarrow> r = 0"
    using trim_chunks_bytes [of "b - off" "e - b + 1" chunks] assms(3,4) by auto
  obtain more where "drop (nat off) d = concat chunks @ more" using assms(1) by (auto simp: prefix_def)
  then have "drop (nat (b - off)) (concat chunks @ more) = drop (nat (b - off)) (drop (nat off) d)" by simp
  also have "\<dots> = drop (nat b) d" using assms(2,3) by (simp add: nat_diff_distrib)
  finally have "subrange d b e = take (nat (e - b + 1)) (drop (nat (b - off)) (concat chunks) @ drop (nat (b - off) - length (concat chunks)) more)"
    by (simp add: subrange_def)
  then have "prefix (concat ys) (subrange d b e)" by (simp add: *(2))
  with * that show ?thesis by blast
qed

lemma iteratesD: "iterates d it \<Longrightarrow> it off = (chunks, fin) \<Longrightarrow> 0 \<le> off \<Longrightarrow> prefix (concat chunks) (drop (nat off) d)"
  unfolding iterates_def by (metis fst_conv)

text \<open>What a stream that stopped has left is what the range lacks; an exhausted one has nothing left or raises.\<close>

lemma trimmed_serves:
  assumes "prefix (concat ys) w" and "r = int (length w) - int (length (concat ys))"
  shows "serves (ys, if 0 < r then Some ex else None) w" and "0 < r \<Longrightarrow> serves (ys, Some ex) w"
proof -
  show "0 < r \<Longrightarrow> serves (ys, Some ex) w" using assms by (auto simp: strict_prefix_def)
  moreover have "\<not> 0 < r \<Longrightarrow> concat ys = w" using assms prefix_same_length [OF assms(1)] by simp
  ultimately show "serves (ys, if 0 < r then Some ex else None) w" by simp
qed

lemma telethon_turn_serves:
  assumes "\<And>k. iterates d (it k)" and "0 < request_size" and "0 \<le> b" and "b \<le> e" and "e < int (length d)"
    and resumed: "\<And>b'. \<not> refreshed \<Longrightarrow> 0 \<le> b' \<Longrightarrow> b' \<le> e \<Longrightarrow>
      serves (telethon_loop request_size it refresh expired True b' (e - b' + 1)) (subrange d b' e)"
  shows "serves (telethon_loop request_size it refresh expired refreshed b (e - b + 1)) (subrange d b e)"
proof -
  let ?off = "b - b mod request_size"
  have off: "0 \<le> ?off" "?off \<le> b"
    using assms(2,3) by (simp_all add: zmod_le_nonneg_dividend)
  obtain chunks fin where it: "it refreshed ?off = (chunks, fin)" by force
  have "prefix (concat chunks) (drop (nat ?off) d)" by (rule iteratesD [OF assms(1) it off(1)])
  from trim_range [OF this off assms(4)] obtain ys r broke where t:
    "trim_chunks chunks (b - ?off) (e - b + 1) = (ys, r, broke)" "prefix (concat ys) (subrange d b e)"
    "r = e - b + 1 - int (length (concat ys))" "0 \<le> r" "broke \<longleftrightarrow> r = 0" .
  have len: "r = int (length (subrange d b e)) - int (length (concat ys))"
    using t(3) assms(3-5) by (simp add: subrange_def)
  note cut = trimmed_serves [OF t(2) len]
  show ?thesis
  proof (cases "broke \<or> fin = Exhausted")
    case True
    then show ?thesis using assms(4) it t(1) cut(1) by (simp add: telethon_loop.simps Let_def)
  next
    case False
    then have r: "0 < r" using t(4,5) by simp
    let ?b = "b + (e - b + 1 - r)"
    have "serves (take_over (ys, None) (telethon_loop request_size it refresh expired True ?b r)) (subrange d b e)" if "\<not> refreshed"
    proof -
      have b': "0 \<le> ?b" "?b \<le> e" "e - ?b + 1 = r" using r t(3) assms(3) by simp_all
      have "subrange d ?b e = drop (length (concat ys)) (subrange d b e)"
        using t(3) assms(3) by (auto simp: subrange_def drop_take nat_add_distrib add.commute intro!: arg_cong2 [of _ _ _ _ take])
      moreover have "serves (ys, Some expired) (subrange d b e)" using cut(2) r by blast
      ultimately have "serves (take_over (ys, Some expired) (telethon_loop request_size it refresh expired True ?b r)) (subrange d b e)"
        using resumed [OF that b'(1,2)] unfolding b'(3) by (auto intro!: serves_take_over simp: stream_bytes_def)
      then show ?thesis by (simp add: take_over_def)
    qed
    then show ?thesis using False assms(4) it t(1) cut(2) [OF r]
      by (auto simp: telethon_loop.simps [of _ _ _ _ refreshed b] Let_def split: iter_end.splits sum.splits)
  qed
qed

lemma telethon_serves:
  assumes "\<And>k. iterates d (it k)" and "0 < request_size" and "0 \<le> b" and "b \<le> e" and "e < int (length d)"
  shows "serves (telethon_download request_size it refresh expired b e) (subrange d b e)"
proof -
  have "serves (telethon_loop request_size it refresh expired True b' (e - b' + 1)) (subrange d b' e)" if "0 \<le> b'" "b' \<le> e" for b'
    using telethon_turn_serves [of d it request_size b' e True] assms(1,2,5) that by blast
  with assms show ?thesis by (auto simp: telethon_download_def intro!: telethon_turn_serves)
qed

lemma pyrogram_serves:
  assumes "\<And>i. it = Some i \<Longrightarrow> iterates d i" and "0 \<le> b" and "b \<le> e" and "e < int (length d)"
  shows "serves (pyrogram_download it expired b e) (subrange d b e)"
proof (cases it)
  case None
  then show ?thesis using assms by (simp add: pyrogram_download_def subrange_nonempty)
next
  case (Some i)
  let ?off = "b div GET_FILE_CHUNK_SIZE * GET_FILE_CHUNK_SIZE"
  have off: "0 \<le> ?off" "?off \<le> b" "b - ?off = b mod GET_FILE_CHUNK_SIZE"
    using assms(2) by (simp_all add: GET_FILE_CHUNK_SIZE_def minus_div_mult_eq_mod)
  obtain chunks fin where it: "i ?off = (chunks, fin)" by force
  have "prefix (concat chunks) (drop (nat ?off) d)" by (rule iteratesD [OF assms(1) [OF Some] it off(1)])
  from trim_range [OF this off(1,2) assms(3)] obtain ys r broke where t:
    "trim_chunks chunks (b mod GET_FILE_CHUNK_SIZE) (e - b + 1) = (ys, r, broke)" "prefix (concat ys) (subrange d b e)"
    "r = e - b + 1 - int (length (concat ys))" "0 \<le> r" "broke \<longleftrightarrow> r = 0" unfolding off(3) .
  have len: "r = int (length (subrange d b e)) - int (length (concat ys))"
    using t(3) assms(2-4) by (simp add: subrange_def)
  show ?thesis using trimmed_serves [OF t(2) len] assms(3) Some it t(1,4,5)
    by (auto simp: pyrogram_download_def split: iter_end.splits)
qed

text \<open>The downloads of both Telegram clients keep their contract: whatever chunks the client library delivers and however its
  iterator ends, a range of a document comes out whole, or as a proper prefix followed by an
  exception, never short without one; the Telethon client resumes at the right byte when the
  file reference expires on the way. So the Telegram store may run on either client.\<close>

lemma client_download_serves:
  assumes "\<And>k. iterates d (it k)" and "0 < request_size" and "0 \<le> b" and "b \<le> e" and "e < int (length d)"
  shows "serves (telethon_download request_size it refresh expired b e) (subrange d b e)
    \<and> serves (pyrogram_download (if supported then Some (it False) else None) expired b e) (subrange d b e)"
  using telethon_serves [OF assms] pyrogram_serves [of "if supported then Some (it False) else None" d b e expired] assms
  by (auto split: if_splits)

text \<open>A library that delivers two bytes at a time and whose file reference expires after four.\<close>

definition pair_iter :: "bytes \<Rightarrow> bool \<Rightarrow> doc_iter" where
  "pair_iter d again off = (let rest = drop (nat off) d in
     if again then ([take 2 rest, drop 2 rest], Exhausted)
     else ([take 2 rest, take 2 (drop 2 rest)], ReferenceExpired))"

lemma pair_iterates: "iterates d (pair_iter d again)"
proof -
  have "prefix (concat (fst (pair_iter d again off))) (drop (nat off) d)" for off
    using take_add [of 2 2 "drop (nat off) d"] take_is_prefix [of 4 "drop (nat off) d"]
    by (simp add: pair_iter_def Let_def del: drop_drop)
  then show ?thesis by (simp add: iterates_def)
qed

text \<open>Both clients give the Telegram store its raw downloads.\<close>

lemma clients_honest:
  assumes "\<And>mid d k. docs mid = Some d \<Longrightarrow> iterates d (it mid k)" and "0 < request_size"
  shows "raw_honest docs (\<lambda>mid. telethon_download request_size (it mid) (refresh mid) expired)"
    and "raw_honest docs (\<lambda>mid. pyrogram_download (Some (it mid False)) expired)"
  using assms telethon_serves pyrogram_serves [of "Some (it _ False)"] by (auto simp: raw_honest_def)

end
