(* ===== verification/FDRepo.thy ===== *)
theory FDRepo
  imports FileDesc DirTree
begin

text \<open>
  The repository of file descriptors (\<open>StoreFDRepository\<close>, \<open>src/tgdcfs/core/repository/impl/fd/store_msg.py\<close>, with
  \<open>MirrorGroup.mirror_fd\<close> of \<open>src/tgdcfs/core/mirror.py\<close>). A descriptor is a text message of the primary store, with
  copies in the mirror stores; reading one checks that the content messages of its versions
  still exist somewhere and points the descriptor at the newest version that can be read.

  What the stores answer is a parameter: \<open>ask key ids\<close> is \<open>get_messages\<close> of the store \<open>key\<close>, and the
  record \<open>store_io\<close> has its operations that change messages, over a world of the caller's choice.
  The text of a message is the JSON document it parses to; an empty text is \<open>None\<close>.
\<close>

section \<open>Messages and stores\<close>

datatype fd_text = Json "version_ser list" | NotJson

record fd_msg =
  fm_id :: int
  fm_text :: "fd_text option"
  fm_document :: "int option"

type_synonym ask = "string \<Rightarrow> int list \<Rightarrow> fd_msg option list res"

record 'w store_io =
  io_send_text :: "string \<Rightarrow> fd_text \<Rightarrow> 'w \<Rightarrow> int res \<times> 'w"
  io_edit_text :: "string \<Rightarrow> int \<Rightarrow> fd_text \<Rightarrow> 'w \<Rightarrow> int res \<times> 'w"

text \<open>The repository; \<open>fdr_mirrors\<close> are the keys of the mirror group's stores, \<open>None\<close> without a group.\<close>

record fd_repo =
  fdr_key :: string
  fdr_mirrors :: "string list option"
  fdr_strict :: bool
  fdr_local :: "(string \<Rightarrow> bool) option"

definition fd_store_for :: "fd_repo \<Rightarrow> string \<Rightarrow> bool" where
  "fd_store_for r key \<longleftrightarrow> fdr_mirrors r \<noteq> None \<and> (key = fdr_key r \<or> key \<in> set (the (fdr_mirrors r)))"

section \<open>Writing\<close>

record fd_resp =
  frs_message_id :: int
  frs_fd :: file_desc
  frs_mirrors :: "(string, int) dict"
  frs_store :: string

definition stamp :: "fd_repo \<Rightarrow> file_desc \<Rightarrow> file_desc" where
  "stamp r fd = fd\<lparr>fd_versions := map (\<lambda>(k, v).
     (k, if fv_store v = None \<and> fv_is_valid v then v\<lparr>fv_store := Some (fdr_key r)\<rparr> else v)) (fd_versions fd)\<rparr>"

definition handle_write_error :: "bool \<Rightarrow> exn \<Rightarrow> unit res" where
  "handle_write_error strict ex =
     (if strict then Inl (if is_technical_error ex then ex else TechnicalError) else Inr ())"

fun mirror_fd_store :: "'w store_io \<Rightarrow> fd_text \<Rightarrow> string \<Rightarrow> (string, int) dict \<Rightarrow> 'w \<Rightarrow> int res \<times> 'w" where
  "mirror_fd_store io text key res w =
     (case map_of res key of
        None \<Rightarrow> io_send_text io key text w
      | Some mid \<Rightarrow>
          if mid = 0 then io_send_text io key text w
          else (case io_edit_text io key mid text w of
              (Inl (MessageNotFound _), w) \<Rightarrow> io_send_text io key text w
            | (x, w) \<Rightarrow> (x, w)))"

fun mirror_fd :: "'w store_io \<Rightarrow> bool \<Rightarrow> fd_text \<Rightarrow> string list \<Rightarrow> (string, int) dict \<Rightarrow> 'w \<Rightarrow> (string, int) dict res \<times> 'w" where
  "mirror_fd io strict text [] res w = (Inr res, w)"
| "mirror_fd io strict text (key # keys) res w =
     (case mirror_fd_store io text key res w of
        (Inr mid, w) \<Rightarrow> mirror_fd io strict text keys (AList.update key mid res) w
      | (Inl ex, w) \<Rightarrow>
          (case handle_write_error strict ex of
             Inl ex \<Rightarrow> (Inl ex, w)
           | Inr _ \<Rightarrow> mirror_fd io strict text keys res w))"

text \<open>\<open>_mirror_fd\<close> and the response that the branches of \<open>save\<close> build after the primary's write.\<close>

definition fd_written :: "'w store_io \<Rightarrow> fd_repo \<Rightarrow> file_desc \<Rightarrow> fd_text \<Rightarrow> (string, int) dict \<Rightarrow> int res \<times> 'w \<Rightarrow> fd_resp res \<times> 'w" where
  "fd_written io r fd text existing = (\<lambda>(x, w). case x of
       Inl ex \<Rightarrow> (Inl ex, w)
     | Inr mid \<Rightarrow>
         (case (case fdr_mirrors r of None \<Rightarrow> (Inr existing, w) | Some keys \<Rightarrow> mirror_fd io (fdr_strict r) text keys existing w) of
            (Inl ex, w) \<Rightarrow> (Inl ex, w)
          | (Inr mirrors, w) \<Rightarrow> (Inr \<lparr>frs_message_id = mid, frs_fd = fd, frs_mirrors = mirrors, frs_store = fdr_key r\<rparr>, w)))"

definition fd_save :: "'w store_io \<Rightarrow> fd_repo \<Rightarrow> file_desc \<Rightarrow> file_ref option \<Rightarrow> 'w \<Rightarrow> fd_resp res \<times> 'w" where
  "fd_save io r fd0 fr w =
     (let fd = stamp r fd0 in
      case fd_to_dict fd of
        Inl ex \<Rightarrow> (Inl ex, w)
      | Inr ds \<Rightarrow>
          let fresh = (\<lambda>existing w. fd_written io r fd (Json ds) existing (io_send_text io (fdr_key r) (Json ds) w)) in
          (case fr of
             None \<Rightarrow> fresh [] w
           | Some fr \<Rightarrow>
               if \<not> fr_owned_by fr (fdr_key r) then
                 fresh (case fr_store fr of
                     Some s \<Rightarrow> if s = [] then fr_mirrors fr else dict_setdefault s (fr_message_id fr) (fr_mirrors fr)
                   | None \<Rightarrow> fr_mirrors fr) w
               else
                 (case fd_written io r fd (Json ds) (fr_mirrors fr) (io_edit_text io (fdr_key r) (fr_message_id fr) (Json ds) w) of
                    (Inl (MessageNotFound _), w) \<Rightarrow> fresh [] w
                  | x \<Rightarrow> x)))"

section \<open>Reading\<close>

definition readable_locally :: "fd_repo \<Rightarrow> file_version \<Rightarrow> bool" where
  "readable_locally r v \<longleftrightarrow> fv_pending v \<and> (case fdr_local r of None \<Rightarrow> False | Some f \<Rightarrow> f (fv_id v))"

fun fd_text_in :: "ask \<Rightarrow> fd_repo \<Rightarrow> (string, int) dict \<Rightarrow> fd_text option" where
  "fd_text_in ask r [] = None"
| "fd_text_in ask r ((key, mid) # rest) =
     (if \<not> fd_store_for r key then fd_text_in ask r rest
      else case ask key [mid] of
          Inr (Some m # _) \<Rightarrow> (case fm_text m of Some t \<Rightarrow> Some t | None \<Rightarrow> fd_text_in ask r rest)
        | _ \<Rightarrow> fd_text_in ask r rest)"

text \<open>\<open>_get_fd_text\<close>, with whether the primary is marked dead.\<close>

definition get_fd_text :: "ask \<Rightarrow> fd_repo \<Rightarrow> file_ref \<Rightarrow> fd_text option \<times> bool" where
  "get_fd_text ask r fr =
     (let answer = (if fr_owned_by fr (fdr_key r) then ask (fdr_key r) [fr_message_id fr] else Inr [None]);
          failed = (case answer of Inr (_ # _) \<Rightarrow> False | _ \<Rightarrow> True);
          text = (case answer of Inr (Some m # _) \<Rightarrow> fm_text m | _ \<Rightarrow> None)
      in (case text of
            Some t \<Rightarrow> Some t
          | None \<Rightarrow> if fdr_mirrors r = None then None else fd_text_in ask r (fr_mirrors fr),
          failed \<and> fdr_mirrors r \<noteq> None))"

text \<open>\<open>_lookup_mirror_parts\<close>: the sizes of the copies found, by store and message.\<close>

definition lookup_mirror_parts :: "ask \<Rightarrow> fd_repo \<Rightarrow> (string \<times> int) list \<Rightarrow> ((string \<times> int) \<times> int) list" where
  "lookup_mirror_parts ask r missing =
     (if fdr_mirrors r = None then []
      else
        let by_channel = fold (\<lambda>(key, mid). dict_extend key [mid]) missing [] in
        concat (map (\<lambda>(key, mids).
          if \<not> fd_store_for r key then []
          else case ask key mids of
              Inl _ \<Rightarrow> []
            | Inr messages \<Rightarrow> concat (map (\<lambda>(mid, message). case message of
                  Some m \<Rightarrow> (case fm_document m of Some n \<Rightarrow> [((key, mid), n)] | None \<Rightarrow> [])
                | None \<Rightarrow> []) (zip mids messages))) by_channel))"

text \<open>\<open>_verify_replicas\<close>: one replica, then all of them.\<close>

definition check_replica :: "ask \<Rightarrow> fd_repo \<Rightarrow> string \<Rightarrow> replica \<Rightarrow> replica option" where
  "check_replica ask r key rep =
     (if \<not> fd_store_for r key \<or> r_message_ids rep = [] then None
      else case ask key (r_message_ids rep) of
          Inl _ \<Rightarrow> None
        | Inr messages \<Rightarrow>
            if \<exists>m \<in> set messages. case m of None \<Rightarrow> True | Some m \<Rightarrow> fm_document m = None then None
            else Some (rep\<lparr>r_part_sizes := map (\<lambda>m. the (fm_document (the m))) messages\<rparr>))"

definition verify_replicas :: "ask \<Rightarrow> fd_repo \<Rightarrow> file_version \<Rightarrow> bool \<times> file_version" where
  "verify_replicas ask r v =
     (\<exists>(key, rep) \<in> set (fv_replicas v). check_replica ask r key rep \<noteq> None,
      v\<lparr>fv_replicas := map (\<lambda>(key, rep). (key, case check_replica ask r key rep of Some rep' \<Rightarrow> rep' | None \<Rightarrow> rep)) (fv_replicas v)\<rparr>)"

text \<open>The loop over the parts of a version; \<open>held\<close> gives the size of the primary's document.\<close>

fun check_parts :: "ask \<Rightarrow> fd_repo \<Rightarrow> (int \<Rightarrow> int option) \<Rightarrow> file_version \<Rightarrow> nat \<Rightarrow> int list \<Rightarrow> int list option" where
  "check_parts ask r held v j [] = Some []"
| "check_parts ask r held v j (mid # mids) =
     (case (if fv_owned_by v (fdr_key r) then held mid else None) of
        Some n \<Rightarrow> map_option (Cons n) (check_parts ask r held v (Suc j) mids)
      | None \<Rightarrow>
          (case lookup_mirror_parts ask r
                  (concat (map (\<lambda>(key, ids). if j < length ids \<and> 0 < ids ! j then [(key, ids ! j)] else []) (fv_mirrors v))) of
             (_, n) # _ \<Rightarrow> map_option (Cons n) (check_parts ask r held v (Suc j) mids)
           | [] \<Rightarrow> None))"

definition validate_version :: "ask \<Rightarrow> fd_repo \<Rightarrow> (int \<Rightarrow> int option) \<Rightarrow> file_version \<Rightarrow> file_version" where
  "validate_version ask r held v =
     (case check_parts ask r held v 0 (fv_message_ids v) of
        Some sizes \<Rightarrow> v\<lparr>fv_part_sizes := sizes\<rparr>
      | None \<Rightarrow>
          (if fdr_mirrors r = None then fv_set_invalid v
           else case verify_replicas ask r v of
             (True, v') \<Rightarrow> v'\<lparr>fv_part_sizes := [], fv_raw_size := INVALID_FILE_SIZE\<rparr>
           | (False, v') \<Rightarrow> fv_set_invalid v'))"

fun validate_entries ::
    "ask \<Rightarrow> fd_repo \<Rightarrow> (int \<Rightarrow> int option) \<Rightarrow> bool \<Rightarrow> (string, file_version) dict \<Rightarrow> (string, file_version) dict \<times> bool" where
  "validate_entries ask r held include_all [] = ([], False)"
| "validate_entries ask r held include_all ((k, v) # vs) =
     (if \<not> fv_is_valid v then (let (ys, found) = validate_entries ask r held include_all vs in ((k, v) # ys, found))
      else
        let v' = validate_version ask r held v in
        if fv_is_valid v' \<and> \<not> include_all then ((k, v') # vs, True)
        else let (ys, found) = validate_entries ask r held include_all vs in ((k, v') # ys, fv_is_valid v' \<or> found))"

definition point_at_readable :: "fd_repo \<Rightarrow> datetime \<Rightarrow> file_desc \<Rightarrow> bool \<Rightarrow> file_desc res" where
  "point_at_readable r now fd has_valid =
     (let readable = (\<lambda>v. fv_is_valid v \<or> readable_locally r v);
          has_valid = (has_valid \<or> (\<exists>v \<in> set (map snd (fd_versions fd)). readable_locally r v));
          candidates = filter readable (map snd (fd_versions fd));
          fd' = (if (case map_of (fd_versions fd) (fd_latest_version_id fd) of None \<Rightarrow> True | Some v \<Rightarrow> \<not> readable v)
                 then (case candidates of
                     [] \<Rightarrow> fd
                   | c # cs \<Rightarrow> fd\<lparr>fd_latest_version_id := fv_id (py_max_from updated_at_timestamp c cs)\<rparr>)
                 else fd)
      in if has_valid then Inr fd'
         else rbind (fd_empty (fd_name fd) now) (\<lambda>e. Inr (e\<lparr>fd_complete := fd_complete fd\<rparr>)))"

text \<open>The answer of \<open>_validate_fv\<close>, with whether the primary is marked dead.\<close>

definition held_of :: "fd_msg option list \<Rightarrow> int \<Rightarrow> int option" where
  "held_of messages mid = (case map_of (rev (map (\<lambda>m. (fm_id (the m), the m)) (filter (\<lambda>m. m \<noteq> None) messages))) mid of
     Some m \<Rightarrow> fm_document m | None \<Rightarrow> None)"

definition validate_fv :: "ask \<Rightarrow> fd_repo \<Rightarrow> datetime \<Rightarrow> bool \<Rightarrow> file_desc \<Rightarrow> file_desc res \<times> bool" where
  "validate_fv ask r now include_all fd =
     (let all_ids = concat (map fv_message_ids (filter (\<lambda>v. fv_owned_by v (fdr_key r)) (get_versions fd False True)))
      in case ask (fdr_key r) all_ids of
           Inr messages \<Rightarrow>
             (let (vs, found) = validate_entries ask r (held_of messages) include_all (fd_versions fd)
              in (point_at_readable r now (fd\<lparr>fd_versions := vs\<rparr>) found, False))
         | Inl ex \<Rightarrow>
             if fdr_mirrors r = None then (Inl ex, False)
             else (let (vs, found) = validate_entries ask r (\<lambda>_. None) include_all (fd_versions fd)
                   in (point_at_readable r now (fd\<lparr>fd_versions := vs, fd_complete := False\<rparr>) found, True)))"

definition trust_recorded :: "fd_repo \<Rightarrow> datetime \<Rightarrow> file_desc \<Rightarrow> file_desc res" where
  "trust_recorded r now fd =
     point_at_readable r now
       (fd\<lparr>fd_versions := map (\<lambda>(k, v). (k,
          if fv_is_valid v then
            (if fv_size v = INVALID_FILE_SIZE \<and> 0 \<le> fv_recorded_size v
             then (fv_memo_size v)\<lparr>fv_raw_size := fv_recorded_size v\<rparr> else fv_memo_size v)
          else v)) (fd_versions fd)\<rparr>)
       (\<exists>v \<in> set (map snd (fd_versions fd)). fv_is_valid v)"

text \<open>\<open>get\<close>: the descriptor, the ref as it was relocated, and whether the primary is marked dead.\<close>

definition fd_get :: "ask \<Rightarrow> fd_repo \<Rightarrow> datetime \<Rightarrow> bool \<Rightarrow> bool \<Rightarrow> file_ref \<Rightarrow> file_desc res \<times> file_ref \<times> bool" where
  "fd_get ask r now include_all validate fr0 =
     (let fr = fr_relocate (fdr_key r) fr0 in
      case get_fd_text ask r fr of
        (None, dead) \<Rightarrow> (rbind (fd_empty (fr_name fr) now) (\<lambda>fd. Inr (fd\<lparr>fd_complete := False\<rparr>)), fr, dead)
      | (Some NotJson, dead) \<Rightarrow> (Inl ValueError, fr, dead)
      | (Some (Json ds), dead) \<Rightarrow>
          (case fd_from_dict ds (fr_name fr) now of
             Inl ex \<Rightarrow> (Inl ex, fr, dead)
           | Inr fd \<Rightarrow>
               let fd = fd\<lparr>fd_versions := map (\<lambda>(k, v). (k, fv_relocate (fdr_key r) v)) (fd_versions fd)\<rparr> in
               if \<not> validate then (trust_recorded r now fd, fr, dead)
               else (case validate_fv ask r now include_all fd of (res, dead') \<Rightarrow> (res, fr, dead \<or> dead'))))"

section \<open>What validation finds\<close>

text \<open>
  Stores as documented: a store that is up answers one entry per id, the message or nothing;
  one that is down raises.
\<close>

definition answers :: "(string \<Rightarrow> exn option) \<Rightarrow> (string \<Rightarrow> int \<Rightarrow> fd_msg option) \<Rightarrow> ask" where
  "answers down msgs key ids = (case down key of Some ex \<Rightarrow> Inl ex | None \<Rightarrow> Inr (map (msgs key) ids))"

definition has_doc :: "(string \<Rightarrow> exn option) \<Rightarrow> (string \<Rightarrow> int \<Rightarrow> fd_msg option) \<Rightarrow> string \<Rightarrow> int \<Rightarrow> bool" where
  "has_doc down msgs key mid \<longleftrightarrow> down key = None \<and> (case msgs key mid of None \<Rightarrow> False | Some m \<Rightarrow> fm_document m \<noteq> None)"

definition named_by_id :: "(string \<Rightarrow> int \<Rightarrow> fd_msg option) \<Rightarrow> bool" where
  "named_by_id msgs \<longleftrightarrow> (\<forall>key mid m. msgs key mid = Some m \<longrightarrow> fm_id m = mid)"

text \<open>A version is intact when a store that is up has each of its parts, or one has a whole replica.\<close>

definition part_held :: "(string \<Rightarrow> exn option) \<Rightarrow> (string \<Rightarrow> int \<Rightarrow> fd_msg option) \<Rightarrow> fd_repo \<Rightarrow> file_version \<Rightarrow> nat \<Rightarrow> bool" where
  "part_held down msgs r v j \<longleftrightarrow> (fv_owned_by v (fdr_key r) \<and> has_doc down msgs (fdr_key r) (fv_message_ids v ! j))
     \<or> (\<exists>(key, ids) \<in> set (fv_mirrors v). fd_store_for r key \<and> j < length ids \<and> 0 < ids ! j \<and> has_doc down msgs key (ids ! j))"

definition replica_held :: "(string \<Rightarrow> exn option) \<Rightarrow> (string \<Rightarrow> int \<Rightarrow> fd_msg option) \<Rightarrow> fd_repo \<Rightarrow> file_version \<Rightarrow> bool" where
  "replica_held down msgs r v \<longleftrightarrow> (\<exists>(key, rep) \<in> set (fv_replicas v).
     fd_store_for r key \<and> r_message_ids rep \<noteq> [] \<and> (\<forall>i \<in> set (r_message_ids rep). has_doc down msgs key i))"

definition intact :: "(string \<Rightarrow> exn option) \<Rightarrow> (string \<Rightarrow> int \<Rightarrow> fd_msg option) \<Rightarrow> fd_repo \<Rightarrow> file_version \<Rightarrow> bool" where
  "intact down msgs r v \<longleftrightarrow> fv_is_valid v
     \<and> ((\<forall>j < length (fv_message_ids v). part_held down msgs r v j) \<or> replica_held down msgs r v)"

lemma grouped:
  "dict_ok d \<Longrightarrow> dict_ok (fold (\<lambda>(key, mid). dict_extend key [mid]) xs d)
    \<and> ((\<exists>ms. map_of (fold (\<lambda>(key, mid). dict_extend key [mid]) xs d) k = Some ms \<and> m \<in> set ms)
        \<longleftrightarrow> (\<exists>ms. map_of d k = Some ms \<and> m \<in> set ms) \<or> (k, m) \<in> set xs)"
proof (induction xs arbitrary: d)
  case (Cons x xs)
  obtain key mid where x: "x = (key, mid)" by force
  have "(\<exists>ms. map_of (dict_extend key [mid] d) k = Some ms \<and> m \<in> set ms) \<longleftrightarrow> (\<exists>ms. map_of d k = Some ms \<and> m \<in> set ms) \<or> (k, m) = x"
    by (cases "map_of d key") (auto simp: x)
  moreover have "dict_ok (dict_extend key [mid] d)" using Cons.prems by simp
  ultimately show ?case using Cons.IH [of "dict_extend key [mid] d"] by (auto simp: x)
qed simp

lemma grouped_Nil:
  "(\<exists>(key, ms) \<in> set (fold (\<lambda>(key, mid). dict_extend key [mid]) xs []). P key \<and> (\<exists>m \<in> set ms. Q key m))
    \<longleftrightarrow> (\<exists>(key, m) \<in> set xs. P key \<and> Q key m)"
proof -
  let ?d = "fold (\<lambda>(key, mid). dict_extend key [mid]) xs []"
  have ok: "dict_ok ?d" using grouped [of "[]" xs] by simp
  then have "(key, ms) \<in> set ?d \<longleftrightarrow> map_of ?d key = Some ms" for key ms
    by (simp add: dict_ok_def)
  moreover have "(\<exists>ms. map_of ?d k = Some ms \<and> m \<in> set ms) \<longleftrightarrow> (k, m) \<in> set xs" for k m
    using grouped [of "[]" xs k m] by simp
  ultimately show ?thesis by (simp add: Bex_def split_paired_Ex) blast
qed

lemma lookup_found:
  "lookup_mirror_parts (answers down msgs) r missing \<noteq> []
    \<longleftrightarrow> (\<exists>(key, mid) \<in> set missing. fd_store_for r key \<and> has_doc down msgs key mid)"
proof (cases "fdr_mirrors r = None")
  case True
  then show ?thesis by (auto simp: lookup_mirror_parts_def fd_store_for_def)
next
  case False
  let ?found = "\<lambda>key mids. if \<not> fd_store_for r key then []
      else case answers down msgs key mids of Inl _ \<Rightarrow> []
        | Inr messages \<Rightarrow> concat (map (\<lambda>(mid, message). case message of
            Some m \<Rightarrow> (case fm_document m of Some n \<Rightarrow> [((key, mid), n)] | None \<Rightarrow> [])
          | None \<Rightarrow> []) (zip mids messages))"
  have "?found key mids \<noteq> [] \<longleftrightarrow> fd_store_for r key \<and> (\<exists>m \<in> set mids. has_doc down msgs key m)" for key mids
    by (auto simp: answers_def has_doc_def zip_map2 zip_same_conv_map split: option.splits)
  then have "lookup_mirror_parts (answers down msgs) r missing \<noteq> []
      \<longleftrightarrow> (\<exists>(key, ms) \<in> set (fold (\<lambda>(key, mid). dict_extend key [mid]) missing []).
            fd_store_for r key \<and> (\<exists>m \<in> set ms. has_doc down msgs key m))"
    using False by (simp only: lookup_mirror_parts_def Let_def concat_eq_Nil_conv) (force simp: if_False)
  then show ?thesis by (simp only: grouped_Nil)
qed

lemma check_parts_found:
  assumes held: "\<And>mid. mid \<in> set mids \<Longrightarrow> fv_owned_by v (fdr_key r) \<Longrightarrow> (held mid \<noteq> None) = has_doc down msgs (fdr_key r) mid"
    and mids: "mids = drop j (fv_message_ids v)"
  shows "check_parts (answers down msgs) r held v j mids \<noteq> None
    \<longleftrightarrow> (\<forall>i. j \<le> i \<longrightarrow> i < length (fv_message_ids v) \<longrightarrow> part_held down msgs r v i)"
  using assms
proof (induction mids arbitrary: j)
  case (Cons mid mids)
  have at: "fv_message_ids v ! j = mid" "mids = drop (Suc j) (fv_message_ids v)" "j < length (fv_message_ids v)"
    using Cons.prems(2) by (metis Cons_nth_drop_Suc drop_eq_Nil list.inject list.simps(3) not_le)+
  let ?cands = "concat (map (\<lambda>(key, ids). if j < length ids \<and> 0 < ids ! j then [(key, ids ! j)] else []) (fv_mirrors v))"
  have mirror: "lookup_mirror_parts (answers down msgs) r ?cands \<noteq> [] \<longleftrightarrow>
      (\<exists>(key, ids) \<in> set (fv_mirrors v). fd_store_for r key \<and> j < length ids \<and> 0 < ids ! j \<and> has_doc down msgs key (ids ! j))"
    unfolding lookup_found by (auto split: if_splits)
  have own: "(if fv_owned_by v (fdr_key r) then held mid else None) \<noteq> None \<longleftrightarrow> fv_owned_by v (fdr_key r) \<and> has_doc down msgs (fdr_key r) mid"
    using Cons.prems(1) [of mid] by auto
  have "part_held down msgs r v j \<longleftrightarrow>
      (if fv_owned_by v (fdr_key r) then held mid else None) \<noteq> None \<or> lookup_mirror_parts (answers down msgs) r ?cands \<noteq> []"
    unfolding part_held_def own mirror at(1) ..
  then have step: "check_parts (answers down msgs) r held v j (mid # mids) \<noteq> None
      \<longleftrightarrow> part_held down msgs r v j \<and> check_parts (answers down msgs) r held v (Suc j) mids \<noteq> None"
    by (auto split: option.splits list.splits)
  have IH: "check_parts (answers down msgs) r held v (Suc j) mids \<noteq> None
      \<longleftrightarrow> (\<forall>i. Suc j \<le> i \<longrightarrow> i < length (fv_message_ids v) \<longrightarrow> part_held down msgs r v i)"
    by (rule Cons.IH) (use Cons.prems(1) at(2) in auto)
  have "(\<forall>i. j \<le> i \<longrightarrow> Q i) \<longleftrightarrow> Q j \<and> (\<forall>i. Suc j \<le> i \<longrightarrow> Q i)" for Q
    by (metis Suc_leD Suc_leI le_neq_implies_less order_refl)
  then show ?case unfolding step IH using at(3) by simp
qed auto

lemma check_replica_found:
  "check_replica (answers down msgs) r key rep \<noteq> None
    \<longleftrightarrow> fd_store_for r key \<and> r_message_ids rep \<noteq> [] \<and> (\<forall>i \<in> set (r_message_ids rep). has_doc down msgs key i)"
  by (cases "r_message_ids rep") (auto simp: check_replica_def answers_def has_doc_def split: option.splits)

lemma verify_replicas_found:
  "verify_replicas (answers down msgs) r v = (b, v') \<Longrightarrow> b \<longleftrightarrow> replica_held down msgs r v"
  unfolding verify_replicas_def replica_held_def check_replica_found by (elim Pair_inject) (simp only:)

lemma validate_version_valid:
  assumes "\<And>mid. mid \<in> set (fv_message_ids v) \<Longrightarrow> fv_owned_by v (fdr_key r) \<Longrightarrow> (held mid \<noteq> None) = has_doc down msgs (fdr_key r) mid"
    and "fv_is_valid v"
  shows "fv_is_valid (validate_version (answers down msgs) r held v) \<longleftrightarrow> intact down msgs r v"
proof -
  let ?ask = "answers down msgs"
  have parts: "check_parts ?ask r held v 0 (fv_message_ids v) \<noteq> None \<longleftrightarrow> (\<forall>i < length (fv_message_ids v). part_held down msgs r v i)"
    using check_parts_found [of "fv_message_ids v" v r held down msgs 0] assms(1) by simp
  have group: "replica_held down msgs r v \<Longrightarrow> fdr_mirrors r \<noteq> None"
    by (auto simp: replica_held_def fd_store_for_def)
  obtain b v' where rep: "verify_replicas ?ask r v = (b, v')" by force
  have b: "b \<longleftrightarrow> replica_held down msgs r v" by (rule verify_replicas_found [OF rep])
  have v': "fv_is_valid v'" using rep assms(2) by (auto simp: verify_replicas_def fv_is_valid_def)
  show ?thesis
  proof (cases "check_parts ?ask r held v 0 (fv_message_ids v)")
    case None
    then have "intact down msgs r v \<longleftrightarrow> replica_held down msgs r v" using parts assms(2) by (auto simp: intact_def)
    with None rep b v' group show ?thesis
      by (cases b) (auto simp: validate_version_def fv_set_invalid_def fv_is_valid_def)
  next
    case (Some sizes)
    with parts assms(2) show ?thesis by (auto simp: validate_version_def intact_def fv_is_valid_def)
  qed
qed

lemma validate_version_keeps [simp]:
  "fv_id (validate_version ask r held v) = fv_id v" "fv_pending (validate_version ask r held v) = fv_pending v"
  "updated_at_timestamp (validate_version ask r held v) = updated_at_timestamp v"
  by (auto simp: validate_version_def verify_replicas_def fv_set_invalid_def updated_at_timestamp_def split: option.splits prod.splits bool.splits)

lemma validate_version_ids:
  "fv_is_valid (validate_version ask r held v) \<Longrightarrow> fv_message_ids (validate_version ask r held v) = fv_message_ids v"
  by (auto simp: validate_version_def verify_replicas_def fv_set_invalid_def fv_is_valid_def split: option.splits prod.splits bool.splits if_splits)

section \<open>The version a descriptor is read with\<close>

text \<open>A version can be read when it is intact, or pending here with all of its bytes in the local cache.\<close>

definition version_readable :: "(string \<Rightarrow> exn option) \<Rightarrow> (string \<Rightarrow> int \<Rightarrow> fd_msg option) \<Rightarrow> fd_repo \<Rightarrow> file_version \<Rightarrow> bool" where
  "version_readable down msgs r v \<longleftrightarrow> intact down msgs r v \<or> readable_locally r v"

text \<open>
  The entries up to the first readable one are checked: before it none is left readable, and it
  keeps its messages.
\<close>

lemma validate_entries_first:
  assumes held: "\<forall>(k, v) \<in> set vs. fv_is_valid v \<and> fv_owned_by v (fdr_key r)
      \<longrightarrow> (\<forall>mid \<in> set (fv_message_ids v). (held mid \<noteq> None) = has_doc down msgs (fdr_key r) mid)"
    and res: "validate_entries (answers down msgs) r held include_all vs = (ys, found)"
  shows "map (\<lambda>(k, v). (k, fv_id v, fv_pending v, updated_at_timestamp v)) ys = map (\<lambda>(k, v). (k, fv_id v, fv_pending v, updated_at_timestamp v)) vs
    \<and> (found \<longleftrightarrow> (\<exists>(k, v) \<in> set vs. intact down msgs r v))
    \<and> (case find (\<lambda>(k, v). version_readable down msgs r v) vs of
         None \<Rightarrow> (\<forall>(k, v) \<in> set ys. \<not> fv_is_valid v \<and> \<not> readable_locally r v)
       | Some (k, v) \<Rightarrow> (\<exists>bs v' as. ys = bs @ (k, v') # as \<and> (\<forall>(k, v) \<in> set bs. \<not> fv_is_valid v \<and> \<not> readable_locally r v)
           \<and> (fv_is_valid v' \<or> readable_locally r v') \<and> (readable_locally r v' \<longleftrightarrow> readable_locally r v)
           \<and> (intact down msgs r v \<longrightarrow> fv_message_ids v' = fv_message_ids v)))"
    (is "?keys ys vs \<and> ?found \<and> ?first vs ys")
  using assms
proof (induction vs arbitrary: ys found)
  case Nil
  then show ?case by simp
next
  case (Cons x vs)
  obtain k v where x: "x = (k, v)" by force
  let ?v = "validate_version (answers down msgs) r held v"
  have inv: "\<not> fv_is_valid v \<Longrightarrow> \<not> intact down msgs r v" by (simp add: intact_def)
  have valid: "fv_is_valid v \<Longrightarrow> fv_is_valid ?v \<longleftrightarrow> intact down msgs r v"
    using Cons.prems(1) x by (intro validate_version_valid) auto
  have local: "readable_locally r ?v \<longleftrightarrow> readable_locally r v" by (simp add: readable_locally_def split: option.splits)
  show ?case
  proof (cases "intact down msgs r v \<and> \<not> include_all")
    case True
    then have ok: "fv_is_valid v" "fv_is_valid ?v" using inv valid by auto
    then have ys: "ys = (k, ?v) # vs" "found" using Cons.prems(2) True x by (auto simp: Let_def)
    have "?first (x # vs) ys"
      using True ok local validate_version_ids [OF ok(2)] by (auto simp: x ys version_readable_def intro: exI [of _ "[]"])
    then show ?thesis using True by (auto simp: x ys)
  next
    case False
    define v1 where "v1 = (if fv_is_valid v then ?v else v)"
    obtain zs f where zs: "validate_entries (answers down msgs) r held include_all vs = (zs, f)" by force
    have v1: "fv_is_valid v1 \<longleftrightarrow> intact down msgs r v" "readable_locally r v1 \<longleftrightarrow> readable_locally r v"
        "fv_id v1 = fv_id v" "fv_pending v1 = fv_pending v" "updated_at_timestamp v1 = updated_at_timestamp v"
        "intact down msgs r v \<Longrightarrow> fv_message_ids v1 = fv_message_ids v"
      using inv valid local validate_version_ids [of "answers down msgs" r held v] by (auto simp: v1_def)
    have ys: "ys = (k, v1) # zs" "found \<longleftrightarrow> intact down msgs r v \<or> f"
      using Cons.prems(2) False valid inv zs by (auto simp: x v1_def Let_def split: if_splits)
    have IH: "?keys zs vs \<and> (f \<longleftrightarrow> (\<exists>(k, v) \<in> set vs. intact down msgs r v)) \<and> ?first vs zs"
      by (rule Cons.IH [OF _ zs]) (use Cons.prems(1) in simp)
    have "?first (x # vs) ys"
    proof (cases "version_readable down msgs r v")
      case True
      then show ?thesis using v1 by (auto simp: x ys version_readable_def intro: exI [of _ "[]"])
    next
      case no: False
      then have v1': "\<not> fv_is_valid v1 \<and> \<not> readable_locally r v1" using v1 by (simp add: version_readable_def)
      show ?thesis
      proof (cases "find (\<lambda>(k, v). version_readable down msgs r v) vs")
        case None
        then show ?thesis using IH no v1' by (auto simp: x ys)
      next
        case (Some p)
        obtain k' w where p: "p = (k', w)" by force
        then obtain bs v' as where "zs = bs @ (k', v') # as" "\<forall>(k, v) \<in> set bs. \<not> fv_is_valid v \<and> \<not> readable_locally r v"
            "fv_is_valid v' \<or> readable_locally r v'" "readable_locally r v' \<longleftrightarrow> readable_locally r w"
            "intact down msgs r w \<longrightarrow> fv_message_ids v' = fv_message_ids w"
          using IH Some by auto
        then show ?thesis using no v1' Some p by (auto simp: x ys intro!: exI [of _ "(k, v1) # bs"])
      qed
    qed
    moreover have "?keys ys (x # vs)" using IH v1 by (simp add: x ys)
    ultimately show ?thesis using IH by (simp add: x ys)
  qed
qed

text \<open>A descriptor as \<open>from_dict\<close> builds it from a written one: the newest version first and the pointer at it.\<close>

definition fd_listed :: "file_desc \<Rightarrow> bool" where
  "fd_listed fd \<longleftrightarrow> dict_ok (fd_versions fd) \<and> (\<forall>(k, v) \<in> set (fd_versions fd). fv_id v = k)
     \<and> sorted_wrt (\<lambda>a b. updated_at_timestamp (snd b) \<le> updated_at_timestamp (snd a)) (fd_versions fd)
     \<and> (fd_versions fd \<noteq> [] \<longrightarrow> fd_latest_version_id fd = fst (hd (fd_versions fd)))"

lemma point_at_first:
  assumes keys: "map (\<lambda>(k, v). (k, fv_id v, fv_pending v, updated_at_timestamp v)) ys = map (\<lambda>(k, v). (k, fv_id v, fv_pending v, updated_at_timestamp v)) (fd_versions fd)"
    and fd: "fd_listed fd" and ys: "ys = bs @ (k, v') # as" and bs: "\<forall>(k, v) \<in> set bs. \<not> fv_is_valid v \<and> \<not> readable_locally r v"
    and v': "fv_is_valid v' \<or> readable_locally r v'" and found: "found \<or> readable_locally r v'"
    and fd1: "fd_versions fd1 = ys" "fd_latest_version_id fd1 = fd_latest_version_id fd"
    and p: "point_at_readable r now fd1 found = Inr fd'"
  shows "fd_latest_version_id fd' = k \<and> map_of (fd_versions fd') k = Some v' \<and> fd_versions fd' = ys"
proof -
  let ?ok = "\<lambda>v. fv_is_valid v \<or> readable_locally r v"
  have "map fst ys = map fst (fd_versions fd)" using arg_cong [OF keys, of "map fst"] by (simp add: comp_def case_prod_beta)
  then have dok: "dict_ok ys" using fd by (simp add: fd_listed_def dict_ok_def)
  have "(k, fv_id v', fv_pending v', updated_at_timestamp v')
      \<in> set (map (\<lambda>(k, v). (k, fv_id v, fv_pending v, updated_at_timestamp v)) (fd_versions fd))"
    by (simp add: keys [symmetric] ys)
  then have id: "fv_id v' = k" using fd by (auto simp: fd_listed_def)
  have at: "map_of ys k = Some v'" using dok by (intro map_of_is_SomeI) (auto simp: ys dict_ok_def)
  have "sorted_wrt (\<lambda>a b. snd (snd (snd b)) \<le> snd (snd (snd a))) (map (\<lambda>(k, v). (k, fv_id v, fv_pending v, updated_at_timestamp v)) ys)"
    using fd unfolding keys by (simp add: fd_listed_def sorted_wrt_map case_prod_beta)
  then have newest: "\<forall>w \<in> set (map snd as). updated_at_timestamp w \<le> updated_at_timestamp v'"
    by (auto simp: ys sorted_wrt_append)
  have cands: "filter ?ok (map snd ys) = v' # filter ?ok (map snd as)"
    using bs v' by (auto simp: ys filter_empty_conv)
  have best: "py_max_from updated_at_timestamp v' (filter ?ok (map snd as)) = v'" using newest by (intro py_max_from_first) auto
  have has: "found \<or> (\<exists>v \<in> set (map snd ys). readable_locally r v)" using found ys by auto
  have first: "fd_latest_version_id fd = fst (hd ys)"
    using fd \<open>map fst ys = _\<close> by (cases ys; cases "fd_versions fd") (auto simp: fd_listed_def ys)
  show ?thesis
  proof (cases bs)
    case Nil
    then have "fd_latest_version_id fd1 = k" using first fd1(2) by (simp add: ys)
    then show ?thesis using p has at v' fd1 by (auto simp: point_at_readable_def Let_def)
  next
    case (Cons b bs')
    obtain k0 v0 where b: "b = (k0, v0)" by force
    have "map_of ys (fd_latest_version_id fd1) = Some v0" using first fd1(2) Cons b by (simp add: ys)
    moreover have "\<not> ?ok v0" using bs Cons b by auto
    ultimately show ?thesis using p has cands best id at fd1 by (auto simp: point_at_readable_def Let_def)
  qed
qed

lemma held_of_answers:
  assumes "named_by_id msgs" and "down key = None" and "mid \<in> set ids"
  shows "(held_of (map (msgs key) ids) mid \<noteq> None) = has_doc down msgs key mid"
proof -
  define pairs where "pairs = map (\<lambda>m. (fm_id (the m), the m)) (filter (\<lambda>m. m \<noteq> None) (map (msgs key) ids))"
  have only: "m = the (msgs key mid) \<and> msgs key mid \<noteq> None" if "(mid, m) \<in> set pairs" for m
    using that assms(1) by (auto simp: named_by_id_def pairs_def)
  have some: "mid \<in> fst ` set pairs" if "msgs key mid \<noteq> None"
    using that assms(1,3) by (force simp: named_by_id_def image_iff pairs_def)
  have "map_of (rev pairs) mid = msgs key mid"
  proof (cases "map_of (rev pairs) mid")
    case None
    then have "mid \<notin> fst ` set pairs" by (simp add: map_of_eq_None_iff)
    with some None show ?thesis by (cases "msgs key mid") auto
  next
    case (Some m)
    then have "(mid, m) \<in> set pairs" using map_of_SomeD [OF Some] by simp
    from only [OF this] Some show ?thesis by auto
  qed
  then show ?thesis using assms(2) by (auto simp: held_of_def has_doc_def pairs_def split: option.splits)
qed

lemma validate_fv_steps:
  assumes msgs: "named_by_id msgs" and res: "validate_fv (answers down msgs) r now include_all fd = (Inr fd', dead)"
  obtains held ys found c where "\<forall>(k, v) \<in> set (fd_versions fd). fv_is_valid v \<and> fv_owned_by v (fdr_key r)
      \<longrightarrow> (\<forall>mid \<in> set (fv_message_ids v). (held mid \<noteq> None) = has_doc down msgs (fdr_key r) mid)"
    and "validate_entries (answers down msgs) r held include_all (fd_versions fd) = (ys, found)"
    and "point_at_readable r now (fd\<lparr>fd_versions := ys, fd_complete := c\<rparr>) found = Inr fd'"
proof -
  let ?ids = "concat (map fv_message_ids (filter (\<lambda>v. fv_owned_by v (fdr_key r)) (get_versions fd False True)))"
  define held where "held = (case down (fdr_key r) of None \<Rightarrow> held_of (map (msgs (fdr_key r)) ?ids) | Some _ \<Rightarrow> (\<lambda>_. None))"
  have held: "(held mid \<noteq> None) = has_doc down msgs (fdr_key r) mid"
    if "(k, v) \<in> set (fd_versions fd)" "fv_is_valid v" "mid \<in> set (fv_message_ids v)" "fv_owned_by v (fdr_key r)" for k v mid
  proof (cases "down (fdr_key r)")
    case None
    have "mid \<in> set ?ids" using that by (force simp: get_versions_def)
    with held_of_answers [of msgs down "fdr_key r" mid ?ids] msgs None show ?thesis by (simp add: held_def)
  qed (simp add: held_def has_doc_def)
  obtain ys found where ve: "validate_entries (answers down msgs) r held include_all (fd_versions fd) = (ys, found)" by force
  have ve': "down (fdr_key r) = None \<Longrightarrow> validate_entries (answers down msgs) r (held_of (map (msgs (fdr_key r)) ?ids)) include_all (fd_versions fd) = (ys, found)"
    "down (fdr_key r) \<noteq> None \<Longrightarrow> validate_entries (answers down msgs) r (\<lambda>_. None) include_all (fd_versions fd) = (ys, found)"
    using ve by (auto simp: held_def split: option.splits)
  obtain c where p: "point_at_readable r now (fd\<lparr>fd_versions := ys, fd_complete := c\<rparr>) found = Inr fd'"
  proof (cases "down (fdr_key r)")
    case None
    then have "point_at_readable r now (fd\<lparr>fd_versions := ys, fd_complete := fd_complete fd\<rparr>) found = Inr fd'"
      using res ve'(1) by (simp add: validate_fv_def Let_def answers_def [of down msgs "fdr_key r"])
    then show thesis by (rule that)
  next
    case (Some ex)
    then show thesis using res ve'(2) that by (auto simp: validate_fv_def Let_def answers_def [of down msgs "fdr_key r"] split: if_splits)
  qed
  have "\<forall>(k, v) \<in> set (fd_versions fd). fv_is_valid v \<and> fv_owned_by v (fdr_key r)
      \<longrightarrow> (\<forall>mid \<in> set (fv_message_ids v). (held mid \<noteq> None) = has_doc down msgs (fdr_key r) mid)"
    using held by blast
  then show thesis using that ve p by blast
qed

lemma validate_fv_points:
  assumes msgs: "named_by_id msgs" and fd: "fd_listed fd" and res: "validate_fv (answers down msgs) r now include_all fd = (Inr fd', dead)"
  shows "case find (\<lambda>(k, v). version_readable down msgs r v) (fd_versions fd) of
      Some (k, v) \<Rightarrow> fd_latest_version_id fd' = k
        \<and> (\<exists>v'. map_of (fd_versions fd') k = Some v' \<and> (intact down msgs r v \<longrightarrow> fv_message_ids v' = fv_message_ids v))
    | None \<Rightarrow> fd_versions fd' = [] \<and> fd_latest_version_id fd' = []"
proof -
  obtain held ys found c where held: "\<forall>(k, v) \<in> set (fd_versions fd). fv_is_valid v \<and> fv_owned_by v (fdr_key r)
      \<longrightarrow> (\<forall>mid \<in> set (fv_message_ids v). (held mid \<noteq> None) = has_doc down msgs (fdr_key r) mid)"
    and ve: "validate_entries (answers down msgs) r held include_all (fd_versions fd) = (ys, found)"
    and p: "point_at_readable r now (fd\<lparr>fd_versions := ys, fd_complete := c\<rparr>) found = Inr fd'"
    by (rule validate_fv_steps [OF msgs res])
  note first = validate_entries_first [OF held ve]
  show ?thesis
  proof (cases "find (\<lambda>(k, v). version_readable down msgs r v) (fd_versions fd)")
    case None
    then have "\<not> found" using first by (force simp: find_None_iff version_readable_def)
    moreover have "\<not> (\<exists>v \<in> set (map snd ys). readable_locally r v)" using first None by auto
    ultimately show ?thesis using p None by (auto simp: point_at_readable_def Let_def fd_empty_def new_file_desc_def rbind_Inr_iff)
  next
    case (Some q)
    obtain k v where q: "q = (k, v)" by force
    obtain bs v' as where ys: "ys = bs @ (k, v') # as" "\<forall>(k, v) \<in> set bs. \<not> fv_is_valid v \<and> \<not> readable_locally r v"
        "fv_is_valid v' \<or> readable_locally r v'" "intact down msgs r v \<longrightarrow> fv_message_ids v' = fv_message_ids v"
        "readable_locally r v' \<longleftrightarrow> readable_locally r v"
      using first Some q by auto
    have "found \<or> readable_locally r v'"
    proof -
      have "(k, v) \<in> set (fd_versions fd)" "version_readable down msgs r v"
        using Some q by (auto simp: find_Some_iff dest: nth_mem)
      then show ?thesis using first ys(5) by (auto simp: version_readable_def)
    qed
    from point_at_first [OF conjunct1 [OF first] fd ys(1-3) this _ _ p] Some q ys(4) show ?thesis by auto
  qed
qed

lemma find_map: "find P (map f xs) = map_option f (find (\<lambda>x. P (f x)) xs)"
  by (induction xs) auto

lemma relocate_keeps [simp]:
  "fv_id (fv_relocate p v) = fv_id v" "updated_at_timestamp (fv_relocate p v) = updated_at_timestamp v"
  "fr_name (fr_relocate p fr) = fr_name fr"
  by (auto simp: fv_relocate_def relocate_via_replica_def relocate_to_replica_def updated_at_timestamp_def Let_def fr_relocate_def
      split: option.splits)

text \<open>The versions of a written descriptor as a reader with the primary \<open>key\<close> sees them, newest first.\<close>

definition as_read :: "string \<Rightarrow> file_desc \<Rightarrow> file_version list" where
  "as_read key fd = map (\<lambda>v. fv_relocate key (fv_reread v)) (rev (sort_key updated_at_timestamp (map snd (fd_versions fd))))"

lemma read_listed:
  assumes "fd_wf fdw" and "fd_to_dict fdw = Inr ds"
  shows "\<exists>fd. fd_from_dict ds (fd_name fdw) now = Inr fd
    \<and> map (\<lambda>(k, v). (k, fv_relocate key v)) (fd_versions fd) = map (\<lambda>v. (fv_id v, v)) (as_read key fdw)
    \<and> fd_listed (fd\<lparr>fd_versions := map (\<lambda>v. (fv_id v, v)) (as_read key fdw)\<rparr>)"
proof -
  let ?vs = "map fv_reread (rev (sort_key updated_at_timestamp (map snd (fd_versions fdw))))"
  obtain fd where fd: "fd_from_dict ds (fd_name fdw) now = Inr fd" "fd_versions fd = map (\<lambda>v. (fv_id v, v)) ?vs"
      "fd_latest_version_id fd = (case ?vs of [] \<Rightarrow> INVALID_VERSION_ID | v # _ \<Rightarrow> fv_id v)"
    using fd_reload_eq [OF assms(1), of now] assms(2) by (simp add: fd_reload_def)
  have vs: "map (\<lambda>(k, v). (k, fv_relocate key v)) (fd_versions fd) = map (\<lambda>v. (fv_id v, v)) (as_read key fdw)"
    by (simp add: fd(2) as_read_def)
  have "dict_ok (map (\<lambda>v. (fv_id v, v)) (as_read key fdw))"
    using distinct_ids_sorted [OF assms(1)] by (simp add: dict_ok_def as_read_def comp_def)
  moreover have "sorted_wrt (\<lambda>a b. updated_at_timestamp (snd b) \<le> updated_at_timestamp (snd a)) (map (\<lambda>v. (fv_id v, v)) (as_read key fdw))"
  proof -
    have "sorted (map updated_at_timestamp (sort_key updated_at_timestamp (map snd (fd_versions fdw))))" by simp
    then show ?thesis by (simp add: as_read_def sorted_wrt_map sorted_wrt_rev)
  qed
  ultimately have "fd_listed (fd\<lparr>fd_versions := map (\<lambda>v. (fv_id v, v)) (as_read key fdw)\<rparr>)"
    using fd(3) by (auto simp: fd_listed_def as_read_def hd_map split: list.splits)
  with fd(1) vs show ?thesis by blast
qed

text \<open>C14: A descriptor that is read is pointed at the newest version that can be read. Whichever stores are down and
  whichever messages were deleted, with the primary's own text or a mirror's, when no version has all of its parts in
  stores that answer, nor a whole replica, nor its bytes in the local cache, the file reads as
  empty; otherwise the newest version that has is the one served, and its messages are
  those recorded.\<close>

theorem fd_get_newest_readable:
  assumes "fd_wf fdw" and "fd_to_dict fdw = Inr ds" and "fr_name fr = fd_name fdw" and "named_by_id msgs"
    and doc: "get_fd_text (answers down msgs) r (fr_relocate (fdr_key r) fr) = (Some (Json ds), d)"
    and get: "fd_get (answers down msgs) r now include_all True fr = (Inr fd', fr', dead)"
  shows "case find (version_readable down msgs r) (as_read (fdr_key r) fdw) of
      Some v \<Rightarrow> fd_latest_version_id fd' = fv_id v
        \<and> (\<exists>v'. map_of (fd_versions fd') (fv_id v) = Some v' \<and> (intact down msgs r v \<longrightarrow> fv_message_ids v' = fv_message_ids v))
    | None \<Rightarrow> fd_versions fd' = [] \<and> fd_latest_version_id fd' = []"
proof -
  obtain fd where fd: "fd_from_dict ds (fd_name fdw) now = Inr fd"
      "map (\<lambda>(k, v). (k, fv_relocate (fdr_key r) v)) (fd_versions fd) = map (\<lambda>v. (fv_id v, v)) (as_read (fdr_key r) fdw)"
      "fd_listed (fd\<lparr>fd_versions := map (\<lambda>v. (fv_id v, v)) (as_read (fdr_key r) fdw)\<rparr>)"
    using read_listed [OF assms(1,2)] by blast
  let ?fd = "fd\<lparr>fd_versions := map (\<lambda>v. (fv_id v, v)) (as_read (fdr_key r) fdw)\<rparr>"
  obtain dead' where "validate_fv (answers down msgs) r now include_all ?fd = (Inr fd', dead')"
    using get fd(1,2) doc assms(3) by (auto simp: fd_get_def Let_def split: prod.splits)
  from validate_fv_points [OF assms(4) fd(3) this]
  show ?thesis by (auto simp: find_map split: option.splits)
qed

text \<open>With a mirror group a descriptor whose text is found is always answered.\<close>

lemma fd_get_answers:
  assumes "get_fd_text ask r (fr_relocate (fdr_key r) fr) = (Some (Json ds), d)" and "fd_from_dict ds (fr_name fr) now = Inr fd"
    and "fdr_mirrors r \<noteq> None"
  shows "\<exists>fd' dead. fd_get ask r now include_all True fr = (Inr fd', fr_relocate (fdr_key r) fr, dead)"
proof -
  have nm: "validate_name (fd_name fd) = Inr ()" using assms(2) by (auto simp: fd_from_dict_def new_file_desc_def rbind_Inr_iff Let_def)
  have "\<exists>fd'. point_at_readable r now fd2 found = Inr fd'" if "fd_name fd2 = fd_name fd" for fd2 found
    using that nm by (auto simp: point_at_readable_def Let_def fd_empty_def new_file_desc_def)
  then have "\<exists>fd' dead. validate_fv ask r now include_all (fd\<lparr>fd_versions := vs\<rparr>) = (Inr fd', dead)" for vs
    using assms(3) by (auto simp: validate_fv_def Let_def split: prod.splits sum.splits)
  then show ?thesis using assms by (auto simp: fd_get_def Let_def split: prod.splits) (metis prod.inject)
qed

text \<open>The primary is down; the mirror has the text and the parts of both versions.\<close>

definition mirror_repo :: fd_repo where
  "mirror_repo = \<lparr>fdr_key = ''tg:-1'', fdr_mirrors = Some [''tg:-7''], fdr_strict = False, fdr_local = None\<rparr>"

definition mirror_msgs :: "version_ser list \<Rightarrow> string \<Rightarrow> int \<Rightarrow> fd_msg option" where
  "mirror_msgs ds key mid =
     (if key \<noteq> ''tg:-7'' then None
      else if mid = 6 then Some \<lparr>fm_id = mid, fm_text = Some (Json ds), fm_document = None\<rparr>
      else if mid = 21 \<or> mid = 22 then Some \<lparr>fm_id = mid, fm_text = None, fm_document = Some 4\<rparr>
      else None)"

definition primary_down :: "string \<Rightarrow> exn option" where
  "primary_down key = (if key = ''tg:-1'' then Some OSError else None)"

definition mirrored_ref :: file_ref where
  "mirrored_ref = \<lparr>fr_message_id = 5, fr_name = ''a.txt'', fr_location = 0, fr_mirrors = [(''tg:-7'', 6)], fr_store = Some ''tg:-1'',
     fr_stat = None, fr_stat_epoch = 0\<rparr>"

lemma example_as_read:
  "as_read ''tg:-1'' example_desc = [fv_reread example_version, fv_reread (example_version\<lparr>fv_id := ''v0'', fv_updated_at := Naive 1600000000000000\<rparr>)]"
  by (simp add: as_read_def example_desc_def updated_at_timestamp_def ts_def sort_key_def fv_relocate_def fv_reread_def)
    (simp add: example_version_def)

lemma mirror_get:
  "get_fd_text (answers primary_down (mirror_msgs ds)) mirror_repo mirrored_ref = (Some (Json ds), True)"
  by (simp add: get_fd_text_def mirrored_ref_def mirror_repo_def fr_owned_by_def answers_def primary_down_def fd_store_for_def mirror_msgs_def Let_def)

theorem fd_get_newest_readable_witness:
  "\<exists>ds fd' dead. fd_to_dict example_desc = Inr ds
    \<and> fd_get (answers primary_down (mirror_msgs ds)) mirror_repo (Naive 0) False True mirrored_ref = (Inr fd', mirrored_ref, dead)
    \<and> fd_latest_version_id fd' = ''v1''"
proof -
  obtain ds fd where ds: "fd_to_dict example_desc = Inr ds" "fd_from_dict ds (fd_name example_desc) (Naive 0) = Inr fd"
    using fd_reload_eq [OF example_desc_wf, of "Naive 0"] by (auto simp: fd_reload_def rbind_Inr_iff)
  let ?ask = "answers primary_down (mirror_msgs ds)"
  have rel: "fr_relocate (fdr_key mirror_repo) mirrored_ref = mirrored_ref"
    by (simp add: fr_relocate_def fr_owned_by_def mirrored_ref_def mirror_repo_def)
  have doc: "get_fd_text ?ask mirror_repo (fr_relocate (fdr_key mirror_repo) mirrored_ref) = (Some (Json ds), True)"
    unfolding rel by (rule mirror_get)
  have name: "fr_name mirrored_ref = fd_name example_desc" by (simp add: mirrored_ref_def example_desc_def)
  have msgs: "named_by_id (mirror_msgs ds)" by (auto simp: named_by_id_def mirror_msgs_def split: if_splits)
  obtain fd' dead where get: "fd_get ?ask mirror_repo (Naive 0) False True mirrored_ref = (Inr fd', mirrored_ref, dead)"
    using fd_get_answers [OF doc, of "Naive 0" fd False] ds(2) name rel by (auto simp: mirror_repo_def)
  have "intact primary_down (mirror_msgs ds) mirror_repo (fv_reread example_version)"
    by (simp add: intact_def part_held_def fv_is_valid_def fv_reread_def example_version_def mirror_repo_def fd_store_for_def has_doc_def
        primary_down_def mirror_msgs_def less_Suc_eq all_conj_distrib numeral_2_eq_2)
  then have "find (version_readable primary_down (mirror_msgs ds) mirror_repo) (as_read (fdr_key mirror_repo) example_desc) = Some (fv_reread example_version)"
    by (simp add: version_readable_def example_as_read mirror_repo_def)
  with fd_get_newest_readable [OF example_desc_wf ds(1) name msgs doc get]
  have "fd_latest_version_id fd' = ''v1''" by (simp add: example_version_def)
  with ds(1) get show ?thesis by blast
qed

section \<open>What is saved is found\<close>

text \<open>
  The stores' write operations as documented: a text that was sent or edited is there under the
  id returned, and a store is changed by its own operations only. \<open>txt w key mid\<close> is the text of
  a message in the world \<open>w\<close>.
\<close>

definition io_laws :: "'w store_io \<Rightarrow> ('w \<Rightarrow> string \<Rightarrow> int \<Rightarrow> fd_text option) \<Rightarrow> bool" where
  "io_laws io txt \<longleftrightarrow>
     (\<forall>key t w x w'. io_send_text io key t w = (x, w') \<longrightarrow>
        (\<forall>i. x = Inr i \<longrightarrow> txt w' key i = Some t) \<and> (\<forall>k. k \<noteq> key \<longrightarrow> txt w' k = txt w k))
   \<and> (\<forall>key mid t w x w'. io_edit_text io key mid t w = (x, w') \<longrightarrow>
        (\<forall>i. x = Inr i \<longrightarrow> txt w' key i = Some t) \<and> (\<forall>k. k \<noteq> key \<longrightarrow> txt w' k = txt w k))"

lemma io_laws_send:
  "io_laws io txt \<Longrightarrow> io_send_text io key t w = (x, w') \<Longrightarrow>
    (\<forall>i. x = Inr i \<longrightarrow> txt w' key i = Some t) \<and> (\<forall>k. k \<noteq> key \<longrightarrow> txt w' k = txt w k)"
  unfolding io_laws_def by blast

lemma io_laws_edit:
  "io_laws io txt \<Longrightarrow> io_edit_text io key mid t w = (x, w') \<Longrightarrow>
    (\<forall>i. x = Inr i \<longrightarrow> txt w' key i = Some t) \<and> (\<forall>k. k \<noteq> key \<longrightarrow> txt w' k = txt w k)"
  unfolding io_laws_def by blast

lemma mirror_fd_store_laws:
  assumes laws: "io_laws io txt" and m: "mirror_fd_store io text key res w = (x, w')"
  shows "(\<forall>i. x = Inr i \<longrightarrow> txt w' key i = Some text) \<and> (\<forall>k. k \<noteq> key \<longrightarrow> txt w' k = txt w k)"
proof -
  consider (sent) "io_send_text io key text w = (x, w')"
    | (edited) mid where "io_edit_text io key mid text w = (x, w')"
    | (gone) mid y w1 where "io_edit_text io key mid text w = (y, w1)" "io_send_text io key text w1 = (x, w')"
    using m by (auto split: option.splits if_splits prod.splits sum.splits exn.splits)
  then show ?thesis
  proof cases
    case sent
    then show ?thesis by (rule io_laws_send [OF laws])
  next
    case edited
    then show ?thesis by (rule io_laws_edit [OF laws])
  next
    case gone
    then show ?thesis using io_laws_edit [OF laws gone(1)] io_laws_send [OF laws gone(2)] by simp
  qed
qed

declare mirror_fd_store.simps [simp del]

lemma mirror_fd_written:
  assumes laws: "io_laws io txt"
  shows "mirror_fd io strict text keys res w = (x, w') \<Longrightarrow> distinct keys \<Longrightarrow>
    (\<forall>k. k \<notin> set keys \<longrightarrow> txt w' k = txt w k) \<and>
    (\<forall>res'. x = Inr res' \<longrightarrow> (\<forall>k. k \<notin> set keys \<longrightarrow> map_of res' k = map_of res k) \<and>
      (\<forall>k \<in> set keys. (\<exists>i. map_of res' k = Some i \<and> txt w' k i = Some text) \<or> (\<not> strict \<and> map_of res' k = map_of res k)))"
proof (induction keys arbitrary: res w)
  case (Cons key keys)
  obtain y w1 where y: "mirror_fd_store io text key res w = (y, w1)" by force
  note one = mirror_fd_store_laws [OF laws y]
  have ks: "distinct keys" "key \<notin> set keys" using Cons.prems(2) by auto
  show ?case
  proof (cases y)
    case (Inr mid)
    have rest: "mirror_fd io strict text keys (AList.update key mid res) w1 = (x, w')" using Cons.prems(1) y Inr by simp
    note IH = Cons.IH [OF rest ks(1)]
    have "map_of (AList.update key mid res) key = Some mid" "txt w1 key mid = Some text" using one Inr by (simp_all add: update_conv')
    then show ?thesis using IH one ks(2) by (auto simp: update_conv') metis
  next
    case (Inl ex)
    show ?thesis
    proof (cases strict)
      case True
      then show ?thesis using Cons.prems(1) y Inl one by (auto simp: handle_write_error_def)
    next
      case False
      then have rest: "mirror_fd io strict text keys res w1 = (x, w')" using Cons.prems(1) y Inl by (simp add: handle_write_error_def)
      note IH = Cons.IH [OF rest ks(1)]
      then show ?thesis using one ks(2) False by auto
    qed
  qed
qed auto

text \<open>Where the new text is after a save: in the primary, and with a strict group in every mirror.\<close>

definition saved_in :: "('w \<Rightarrow> string \<Rightarrow> int \<Rightarrow> fd_text option) \<Rightarrow> fd_repo \<Rightarrow> fd_text \<Rightarrow> fd_resp \<Rightarrow> 'w \<Rightarrow> bool" where
  "saved_in txt r text resp w \<longleftrightarrow> frs_store resp = fdr_key r \<and> txt w (fdr_key r) (frs_message_id resp) = Some text
     \<and> (fdr_strict r \<longrightarrow> (\<forall>keys. fdr_mirrors r = Some keys \<longrightarrow>
          (\<forall>k \<in> set keys. \<exists>i. map_of (frs_mirrors resp) k = Some i \<and> txt w k i = Some text)))"

lemma fd_written_saved:
  assumes laws: "io_laws io txt" and keys: "\<And>keys. fdr_mirrors r = Some keys \<Longrightarrow> distinct keys \<and> fdr_key r \<notin> set keys"
    and prim: "\<And>i. y = Inr i \<Longrightarrow> txt w1 (fdr_key r) i = Some text"
    and wr: "fd_written io r fd text existing (y, w1) = (Inr resp, w')"
  shows "saved_in txt r text resp w'"
proof (cases "fdr_mirrors r")
  case None
  then show ?thesis using prim wr by (auto simp: fd_written_def saved_in_def split: sum.splits)
next
  case (Some ks)
  obtain mid ms where y: "y = Inr mid" and ms: "mirror_fd io (fdr_strict r) text ks existing w1 = (Inr ms, w')"
      and resp: "resp = \<lparr>frs_message_id = mid, frs_fd = fd, frs_mirrors = ms, frs_store = fdr_key r\<rparr>"
    using wr Some by (auto simp: fd_written_def split: sum.splits prod.splits)
  note m = mirror_fd_written [OF laws ms]
  show ?thesis using m keys [OF Some] prim [OF y] resp Some by (auto simp: saved_in_def)
qed

lemma fd_save_saved:
  assumes laws: "io_laws io txt" and keys: "\<And>keys. fdr_mirrors r = Some keys \<Longrightarrow> distinct keys \<and> fdr_key r \<notin> set keys"
    and sv: "fd_save io r fd fr w = (Inr resp, w')"
  shows "\<exists>ds. fd_to_dict (stamp r fd) = Inr ds \<and> saved_in txt r (Json ds) resp w'"
proof -
  obtain ds where ds: "fd_to_dict (stamp r fd) = Inr ds" using sv by (auto simp: fd_save_def Let_def split: sum.splits)
  have fresh: "saved_in txt r (Json ds) resp w'"
    if "fd_written io r (stamp r fd) (Json ds) existing (io_send_text io (fdr_key r) (Json ds) w0) = (Inr resp, w')" for existing w0
  proof -
    obtain y w1 where y: "io_send_text io (fdr_key r) (Json ds) w0 = (y, w1)" by force
    show ?thesis
      by (rule fd_written_saved [OF laws keys _ that [unfolded y]]) (use io_laws_send [OF laws y] in auto)
  qed
  have edited: "saved_in txt r (Json ds) resp w'"
    if "fd_written io r (stamp r fd) (Json ds) existing (io_edit_text io (fdr_key r) mid (Json ds) w0) = (Inr resp, w')" for existing mid w0
  proof -
    obtain y w1 where y: "io_edit_text io (fdr_key r) mid (Json ds) w0 = (y, w1)" by force
    show ?thesis
      by (rule fd_written_saved [OF laws keys _ that [unfolded y]]) (use io_laws_edit [OF laws y] in auto)
  qed
  show ?thesis using sv ds fresh edited
    by (fastforce simp: fd_save_def Let_def split: option.splits if_splits prod.splits sum.splits exn.splits)
qed

text \<open>What the stores answer for single messages when some of them are down.\<close>

definition text_answers :: "(string \<Rightarrow> exn option) \<Rightarrow> (string \<Rightarrow> int \<Rightarrow> fd_text option) \<Rightarrow> ask \<Rightarrow> bool" where
  "text_answers down texts ask \<longleftrightarrow> (\<forall>key mid. case down key of
       Some ex \<Rightarrow> ask key [mid] = Inl ex
     | None \<Rightarrow> (\<exists>m. ask key [mid] = Inr [m] \<and> Option.bind m fm_text = texts key mid))"

lemma text_answers_up:
  "text_answers down texts ask \<Longrightarrow> down key = None \<Longrightarrow> texts key mid = Some t
    \<Longrightarrow> \<exists>m. ask key [mid] = Inr [Some m] \<and> fm_text m = Some t"
  unfolding text_answers_def by (auto split: option.splits dest!: spec [of _ key] simp: bind_eq_Some_conv) (metis bind_eq_Some_conv)

lemma fd_text_in_found:
  assumes ask: "text_answers down texts ask"
    and own: "\<And>k i. (k, i) \<in> set ms \<Longrightarrow> fd_store_for r k \<Longrightarrow> down k = None \<Longrightarrow> texts k i = Some t"
    and up: "\<exists>(k, i) \<in> set ms. fd_store_for r k \<and> down k = None"
  shows "fd_text_in ask r ms = Some t"
  using own up
proof (induction ms)
  case (Cons p ms)
  obtain k i where p: "p = (k, i)" by force
  show ?case
  proof (cases "fd_store_for r k \<and> down k = None")
    case True
    then obtain m where "ask k [i] = Inr [Some m]" "fm_text m = Some t"
      using text_answers_up [OF ask] Cons.prems(1) p by (metis list.set_intros(1))
    then show ?thesis using True by (simp add: p)
  next
    case False
    have "fd_text_in ask r ms = Some t" using Cons False p by auto
    moreover have "fd_store_for r k \<Longrightarrow> \<exists>ex. ask k [i] = Inl ex" using False ask by (auto simp: text_answers_def split: option.splits)
    ultimately show ?thesis by (auto simp: p)
  qed
qed simp

lemma saved_text_found:
  assumes sv: "saved_in txt r (Json ds) resp w'"
    and ref: "fr_message_id fr' = frs_message_id resp" "set (fr_mirrors fr') = set (frs_mirrors resp)" "fr_store fr' = Some (frs_store resp)"
    and "dict_ok (frs_mirrors resp)"
    and ask: "text_answers down (txt w') ask"
    and up: "down (fdr_key r) = None \<or> fdr_strict r \<and> (\<exists>keys k. fdr_mirrors r = Some keys \<and> k \<in> set keys \<and> down k = None)"
  shows "fst (get_fd_text ask r (fr_relocate (fdr_key r) fr')) = Some (Json ds)"
proof -
  have own: "fr_store fr' = Some (fdr_key r)" using sv ref(3) by (simp add: saved_in_def)
  then have fr': "fr_relocate (fdr_key r) fr' = fr'" "fr_owned_by fr' (fdr_key r)"
    by (simp_all add: fr_relocate_def fr_owned_by_def)
  have "fst (get_fd_text ask r fr') = Some (Json ds)"
  proof (cases "down (fdr_key r)")
    case None
    then obtain m where "ask (fdr_key r) [fr_message_id fr'] = Inr [Some m]" "fm_text m = Some (Json ds)"
      using text_answers_up [OF ask None, of "frs_message_id resp" "Json ds"] sv ref(1) by (auto simp: saved_in_def)
    then show ?thesis using fr'(2) by (simp add: get_fd_text_def Let_def)
  next
    case (Some ex)
    with up obtain keys k where k: "fdr_strict r" "fdr_mirrors r = Some keys" "k \<in> set keys" "down k = None" by auto
    have held: "\<exists>i. map_of (frs_mirrors resp) k = Some i \<and> txt w' k i = Some (Json ds)" if "k \<in> set keys" for k
      using sv k(1,2) that by (simp add: saved_in_def)
    have "fd_text_in ask r (fr_mirrors fr') = Some (Json ds)"
    proof (rule fd_text_in_found [OF ask])
      show "\<exists>(k, i) \<in> set (fr_mirrors fr'). fd_store_for r k \<and> down k = None"
        using held [OF k(3)] k ref(2) by (force simp: fd_store_for_def dest: map_of_SomeD)
      fix k i assume i: "(k, i) \<in> set (fr_mirrors fr')" "fd_store_for r k" "down k = None"
      then have "k \<in> set keys" using Some k(2) by (auto simp: fd_store_for_def)
      moreover have "map_of (frs_mirrors resp) k = Some i" using i(1) ref(2) assms(5) by (simp add: dict_ok_def)
      ultimately show "txt w' k i = Some (Json ds)" using held [of k] by auto
    qed
    moreover have "ask (fdr_key r) [fr_message_id fr'] = Inl ex"
      using ask Some by (auto simp: text_answers_def split: option.splits dest!: spec [of _ "fdr_key r"])
    ultimately show ?thesis using fr'(2) k(2) by (simp add: get_fd_text_def Let_def)
  qed
  then show ?thesis by (simp add: fr'(1))
qed

text \<open>The mirror ids of an answer, and the descriptor in it.\<close>

lemma mirror_fd_dict_ok: "mirror_fd io strict text keys res w = (Inr res', w') \<Longrightarrow> dict_ok res \<Longrightarrow> dict_ok res'"
  by (induction keys arbitrary: res w) (auto split: prod.splits sum.splits)

lemma fd_written_answer:
  assumes "fd_written io r fd text existing x = (Inr resp, w')" and "dict_ok existing"
  shows "dict_ok (frs_mirrors resp) \<and> frs_fd resp = fd"
  using assms by (auto simp: fd_written_def split: prod.splits sum.splits option.splits dest: mirror_fd_dict_ok)

lemma fd_save_answer:
  assumes "fd_save io r fd fr w = (Inr resp, w')" and "\<forall>f. fr = Some f \<longrightarrow> dict_ok (fr_mirrors f)"
  shows "dict_ok (frs_mirrors resp) \<and> frs_fd resp = stamp r fd"
proof -
  obtain ds where ds: "fd_to_dict (stamp r fd) = Inr ds" using assms(1) by (auto simp: fd_save_def Let_def split: sum.splits)
  obtain existing x where "dict_ok existing" "fd_written io r (stamp r fd) (Json ds) existing x = (Inr resp, w')"
  proof (cases fr)
    case None
    then show thesis using that [of "[]"] assms(1) ds by (auto simp: fd_save_def Let_def)
  next
    case (Some f)
    have ok: "dict_ok (fr_mirrors f)" "dict_ok (dict_setdefault s mid (fr_mirrors f))" for s mid using assms(2) Some by simp_all
    have "\<exists>existing x. dict_ok existing \<and> fd_written io r (stamp r fd) (Json ds) existing x = (Inr resp, w')"
    proof (cases "fr_owned_by f (fdr_key r)")
      case False
      let ?ex = "case fr_store f of Some s \<Rightarrow> if s = [] then fr_mirrors f else dict_setdefault s (fr_message_id f) (fr_mirrors f) | None \<Rightarrow> fr_mirrors f"
      have "fd_written io r (stamp r fd) (Json ds) ?ex (io_send_text io (fdr_key r) (Json ds) w) = (Inr resp, w')"
        using assms(1) ds Some False by (simp add: fd_save_def Let_def)
      moreover have "dict_ok ?ex" using ok by (simp split: option.splits)
      ultimately show ?thesis by blast
    next
      case True
      let ?e = "fd_written io r (stamp r fd) (Json ds) (fr_mirrors f) (io_edit_text io (fdr_key r) (fr_message_id f) (Json ds) w)"
      have "?e = (Inr resp, w') \<or> (\<exists>x. fd_written io r (stamp r fd) (Json ds) [] x = (Inr resp, w'))"
        using assms(1) ds Some True by (auto simp: fd_save_def Let_def split: prod.splits sum.splits exn.splits) (metis prod.collapse)
      then show ?thesis using ok(1) dict_ok_Nil by blast
    qed
    then show thesis using that by blast
  qed
  then show ?thesis by (intro fd_written_answer)
qed

text \<open>A descriptor that was saved is found again. After a save that succeeded, with a ref that took over the ids of its
  answer, the text read is the saved one whenever the primary is up; and with a strict mirror
  group also whenever the primary is down and some mirror is up, whichever it is. That holds for a
  new descriptor, one that is edited, one whose message had vanished and one that came from a
  former primary.\<close>

lemma saved_descriptor_found:
  assumes "io_laws io txt" and "\<forall>keys. fdr_mirrors r = Some keys \<longrightarrow> distinct keys \<and> fdr_key r \<notin> set keys"
    and "fd_save io r fd fr w = (Inr resp, w')"
    and ref: "fr_message_id fr' = frs_message_id resp" "fr_mirrors fr' = frs_mirrors resp" "fr_store fr' = Some (frs_store resp)"
    and "dict_ok (frs_mirrors resp)"
    and ask: "text_answers down (txt w') ask"
    and up: "down (fdr_key r) = None \<or> fdr_strict r \<and> (\<exists>keys k. fdr_mirrors r = Some keys \<and> k \<in> set keys \<and> down k = None)"
  shows "\<exists>ds. fd_to_dict (stamp r fd) = Inr ds \<and> fst (get_fd_text ask r (fr_relocate (fdr_key r) fr')) = Some (Json ds)"
proof -
  obtain ds where ds: "fd_to_dict (stamp r fd) = Inr ds" and sv: "saved_in txt r (Json ds) resp w'"
    using fd_save_saved [OF assms(1) _ assms(3)] assms(2) by blast
  have "set (fr_mirrors fr') = set (frs_mirrors resp)" by (simp add: ref(2))
  from saved_text_found [OF sv ref(1) this ref(3) assms(7) ask up] ds show ?thesis by blast
qed

text \<open>Stores as maps of texts, where the next free id is the number of texts sent.\<close>

definition shelf_io :: "((string \<Rightarrow> int \<Rightarrow> fd_text option) \<times> int) store_io" where
  "shelf_io = \<lparr>io_send_text = (\<lambda>key t (f, n). (Inr n, (f(key := (f key)(n := Some t)), n + 1))),
     io_edit_text = (\<lambda>key mid t (f, n). if f key mid = None then (Inl (MessageNotFound mid), (f, n))
        else (Inr mid, (f(key := (f key)(mid := Some t)), n)))\<rparr>"

lemma shelf_laws: "io_laws shelf_io fst"
  by (auto simp: io_laws_def shelf_io_def split: if_splits)

definition shelf_ask :: "(string \<Rightarrow> exn option) \<Rightarrow> (string \<Rightarrow> int \<Rightarrow> fd_text option) \<Rightarrow> ask" where
  "shelf_ask down f key ids = (case down key of
     Some ex \<Rightarrow> Inl ex
   | None \<Rightarrow> Inr (map (\<lambda>i. map_option (\<lambda>t. \<lparr>fm_id = i, fm_text = Some t, fm_document = None\<rparr>) (f key i)) ids))"

lemma shelf_answers: "text_answers down f (shelf_ask down f)"
  by (auto simp: text_answers_def shelf_ask_def bind_map_option comp_def split: option.splits)

end
