(* ===== verification/FdApi.thy ===== *)
theory FdApi
  imports FDRepo
begin

text \<open>
  \<open>FileDescApi\<close> (\<open>src/tgdcfs/core/api/file_desc.py\<close>): a file's new version is made of an upload and added to the descriptor
  that is read, changed and saved. The lemmas say when the history of a file survives that,
  and when it does not.
\<close>

section \<open>New versions\<close>

datatype file_kind = Uploadable | Imported int int | NoContent

text \<open>
  \<open>_new_version\<close>: \<open>staged\<close> is what the content repository's \<open>stage\<close> answers and \<open>sent\<close> what its \<open>save\<close> answers.
\<close>

definition get_sent_file_message :: "sent_file_message list res \<Rightarrow> file_kind \<Rightarrow> sent_file_message list res" where
  "get_sent_file_message sent kind = (case kind of
     Imported mid n \<Rightarrow> Inr [\<lparr>sm_message_id = mid, sm_size = n, sm_mirrors = [], sm_replicas = []\<rparr>] | _ \<Rightarrow> sent)"

definition new_version ::
    "bool \<Rightarrow> int option res \<Rightarrow> sent_file_message list res \<Rightarrow> file_kind \<Rightarrow> string \<Rightarrow> datetime \<Rightarrow> file_version option res" where
  "new_version ack_cache staged sent kind vid now =
     rbind (if kind = Uploadable \<and> ack_cache then staged else Inr None) (\<lambda>st.
       case st of
         Some n \<Rightarrow> Inr (Some (pending_version vid n now))
       | None \<Rightarrow>
           if kind = NoContent then Inr None
           else rbind (get_sent_file_message sent kind) (\<lambda>msgs. Inr (Some (from_sent_file_message msgs None vid now))))"

section \<open>Operations\<close>

text \<open>
  Every operation answers the saved descriptor, the ref as it was relocated on the way, and
  the world. \<open>nv\<close> is what \<open>new_version\<close> answered.
\<close>

definition read_fd :: "ask \<Rightarrow> fd_repo \<Rightarrow> datetime \<Rightarrow> string \<Rightarrow> file_ref option \<Rightarrow> file_desc res \<times> file_ref option" where
  "read_fd ask r now name fr = (case fr of
       None \<Rightarrow> (new_file_desc name [] [] now, None)
     | Some fr \<Rightarrow> (case fd_get ask r now False True fr of (fd, fr', _) \<Rightarrow> (fd, Some fr')))"

definition save_changed ::
    "'w store_io \<Rightarrow> fd_repo \<Rightarrow> (file_desc \<Rightarrow> file_desc res) \<Rightarrow> file_desc res \<times> file_ref option \<Rightarrow> 'w \<Rightarrow> fd_resp res \<times> file_ref option \<times> 'w" where
  "save_changed io r change = (\<lambda>(fd, fr) w.
     case rbind fd change of
       Inl ex \<Rightarrow> (Inl ex, fr, w)
     | Inr fd \<Rightarrow> (case fd_save io r fd fr w of (resp, w) \<Rightarrow> (resp, fr, w)))"

definition append_file_version ::
    "ask \<Rightarrow> 'w store_io \<Rightarrow> fd_repo \<Rightarrow> datetime \<Rightarrow> string \<Rightarrow> file_version option res \<Rightarrow> string \<Rightarrow> file_ref option \<Rightarrow> 'w
      \<Rightarrow> fd_resp res \<times> file_ref option \<times> 'w" where
  "append_file_version ask io r now uuid nv name fr =
     save_changed io r (\<lambda>fd. rbind nv (\<lambda>nv. case nv of
         Some v \<Rightarrow> add_version v fd
       | None \<Rightarrow> add_empty_version uuid now fd)) (read_fd ask r now name fr)"

definition create_file_desc ::
    "ask \<Rightarrow> 'w store_io \<Rightarrow> fd_repo \<Rightarrow> datetime \<Rightarrow> string \<Rightarrow> file_version option res \<Rightarrow> string \<Rightarrow> 'w \<Rightarrow> fd_resp res \<times> file_ref option \<times> 'w" where
  "create_file_desc ask io r now uuid nv name = append_file_version ask io r now uuid nv name None"

definition update_file_version ::
    "ask \<Rightarrow> 'w store_io \<Rightarrow> fd_repo \<Rightarrow> datetime \<Rightarrow> string \<Rightarrow> file_version option res \<Rightarrow> file_ref \<Rightarrow> 'w \<Rightarrow> fd_resp res \<times> file_ref option \<times> 'w" where
  "update_file_version ask io r now vid nv fr =
     save_changed io r (\<lambda>fd. rbind nv (\<lambda>nv. case nv of
         Some v \<Rightarrow> Inr (update_version vid v fd)
       | None \<Rightarrow> (case map_of (fd_versions fd) vid of
             None \<Rightarrow> Inl (KeyError vid)
           | Some v \<Rightarrow> Inr (update_version vid (fv_set_invalid v) fd)))) (read_fd ask r now [] (Some fr))"

definition fd_set_last_modified ::
    "ask \<Rightarrow> 'w store_io \<Rightarrow> fd_repo \<Rightarrow> datetime \<Rightarrow> datetime \<Rightarrow> file_ref \<Rightarrow> 'w \<Rightarrow> fd_resp res \<times> file_ref option \<times> 'w" where
  "fd_set_last_modified ask io r now when fr = save_changed io r (set_last_modified when) (read_fd ask r now [] (Some fr))"

text \<open>\<open>delete_file_version\<close>; the content repository then forgets the version.\<close>

definition delete_file_version ::
    "ask \<Rightarrow> 'w store_io \<Rightarrow> fd_repo \<Rightarrow> datetime \<Rightarrow> string \<Rightarrow> file_ref \<Rightarrow> 'w \<Rightarrow> fd_resp res \<times> file_ref option \<times> 'w" where
  "delete_file_version ask io r now vid fr = save_changed io r (delete_version vid) (read_fd ask r now [] (Some fr))"

section \<open>History\<close>

abbreviation "recorded \<equiv> (\<lambda>(k, v). (k, fv_id v, fv_message_ids v, fv_mirrors v, map (\<lambda>(s, rep). (s, r_message_ids rep)) (fv_replicas v)))"

lemma verify_replicas_recorded:
  "verify_replicas ask r v = (b, v') \<Longrightarrow> recorded (k, v') = recorded (k, v)"
  by (auto simp: verify_replicas_def check_replica_def split: option.splits if_splits sum.splits)

lemma validate_version_recorded:
  "fv_is_valid (validate_version ask r held v) \<Longrightarrow> recorded (k, validate_version ask r held v) = recorded (k, v)"
proof (cases "check_parts ask r held v 0 (fv_message_ids v)")
  case None
  assume valid: "fv_is_valid (validate_version ask r held v)"
  obtain b v' where rep: "verify_replicas ask r v = (b, v')" by force
  have "b" "fdr_mirrors r \<noteq> None" using valid None rep
    by (auto simp: validate_version_def fv_set_invalid_def fv_is_valid_def split: if_splits bool.splits)
  then show ?thesis using None rep verify_replicas_recorded [OF rep, of k] by (auto simp: validate_version_def)
qed (simp add: validate_version_def)

lemma validate_entries_recorded:
  assumes "\<forall>(k, v) \<in> set vs. fv_is_valid v \<longrightarrow> fv_is_valid (validate_version ask r held v)"
    and "validate_entries ask r held include_all vs = (ys, found)"
  shows "map recorded ys = map recorded vs"
  using assms
proof (induction vs arbitrary: ys found)
  case (Cons x vs)
  obtain k v where x: "x = (k, v)" by force
  obtain zs f where zs: "validate_entries ask r held include_all vs = (zs, f)" by force
  have IH: "map recorded zs = map recorded vs" using Cons.IH [OF _ zs] Cons.prems(1) by simp
  have "fv_is_valid v \<Longrightarrow> recorded (k, validate_version ask r held v) = recorded (k, v)"
    using Cons.prems(1) x by (intro validate_version_recorded) auto
  then show ?case using Cons.prems(2) IH zs by (auto simp: x Let_def split: if_splits)
qed simp

text \<open>When no valid version is broken, validation changes nothing of what the versions record.\<close>

lemma validate_fv_recorded:
  assumes msgs: "named_by_id msgs" and ok: "\<forall>(k, v) \<in> set (fd_versions fd). fv_is_valid v \<longrightarrow> intact down msgs r v"
    and some: "\<exists>(k, v) \<in> set (fd_versions fd). version_readable down msgs r v"
    and res: "validate_fv (answers down msgs) r now include_all fd = (Inr fd', dead)"
  shows "map recorded (fd_versions fd') = map recorded (fd_versions fd) \<and> fd_name fd' = fd_name fd"
proof -
  obtain held ys found c where held: "\<forall>(k, v) \<in> set (fd_versions fd). fv_is_valid v \<and> fv_owned_by v (fdr_key r)
      \<longrightarrow> (\<forall>mid \<in> set (fv_message_ids v). (held mid \<noteq> None) = has_doc down msgs (fdr_key r) mid)"
    and ve: "validate_entries (answers down msgs) r held include_all (fd_versions fd) = (ys, found)"
    and p: "point_at_readable r now (fd\<lparr>fd_versions := ys, fd_complete := c\<rparr>) found = Inr fd'"
    by (rule validate_fv_steps [OF msgs res])
  have "fv_is_valid (validate_version (answers down msgs) r held v)" if "(k, v) \<in> set (fd_versions fd)" "fv_is_valid v" for k v
    using validate_version_valid [of v r held down msgs] held ok that by fastforce
  then have ys: "map recorded ys = map recorded (fd_versions fd)" by (intro validate_entries_recorded [OF _ ve]) auto
  note first = validate_entries_first [OF held ve]
  have "found \<or> (\<exists>v \<in> set (map snd ys). readable_locally r v)"
  proof (cases found)
    case False
    then obtain k v where kv: "(k, v) \<in> set (fd_versions fd)" "readable_locally r v"
      using some first by (auto simp: version_readable_def)
    have "(k, fv_id v, fv_pending v, updated_at_timestamp v) \<in> set (map (\<lambda>(k, v). (k, fv_id v, fv_pending v, updated_at_timestamp v)) ys)"
      using first kv(1) by (force simp: image_iff)
    then show ?thesis using kv(2) by (force simp: readable_locally_def split: option.splits)
  qed simp
  then have "fd_versions fd' = ys \<and> fd_name fd' = fd_name fd"
    using p by (auto simp: point_at_readable_def Let_def split: list.splits)
  with ys show ?thesis by simp
qed

lemma recorded_lookup:
  assumes "map recorded xs = map recorded ys" and "map_of ys k = Some v"
  shows "\<exists>v'. map_of xs k = Some v' \<and> recorded (k, v') = recorded (k, v)"
  using assms by (induction xs arbitrary: ys) (auto simp: Cons_eq_map_conv split: if_splits)

lemma add_version_lookup:
  assumes "add_version nv fd = Inr fd2"
  shows "fd_versions fd2 = AList.update (fv_id nv) nv (fd_versions fd)"
  using assms by (auto simp: add_version_def Let_def rbind_Inr_iff split: if_splits)

lemma stamp_lookup:
  "map_of (fd_versions (stamp r fd)) k = map_option (\<lambda>v. if fv_store v = None \<and> fv_is_valid v then v\<lparr>fv_store := Some (fdr_key r)\<rparr> else v)
    (map_of (fd_versions fd) k)"
proof -
  have "map_of (map (\<lambda>(k, v). (k, f v)) xs) k = map_option f (map_of xs k)" for f :: "file_version \<Rightarrow> file_version" and xs
    by (induction xs) auto
  then show ?thesis by (simp add: stamp_def)
qed

lemma fd_save_fd: "fd_save io r fd fr w = (Inr resp, w') \<Longrightarrow> frs_fd resp = stamp r fd"
  by (auto simp: fd_save_def fd_written_def Let_def split: option.splits if_splits prod.splits sum.splits exn.splits)

lemma append_reads:
  assumes "append_file_version ask io r now uuid (Inr (Some nv)) name (Some fr) w = (Inr resp, fr', w')"
  shows "\<exists>fd fd2 fr2 dead. fd_get ask r now False True fr = (Inr fd, fr2, dead) \<and> add_version nv fd = Inr fd2 \<and> frs_fd resp = stamp r fd2"
proof -
  obtain x fr2 dead where g: "fd_get ask r now False True fr = (x, fr2, dead)" by (metis prod_cases3)
  then show ?thesis using assms
    by (auto simp: append_file_version_def save_changed_def read_fd_def rbind_Inr_iff dest: fd_save_fd split: sum.splits prod.splits)
qed

text \<open>C19: Uploading a new version keeps the history of the file. When the descriptor's text is found and every recorded
  version is intact in stores that answer, the descriptor that is saved has every version it
  had, with the same messages, mirrors and replicas, and the new one.\<close>

theorem append_keeps_history:
  assumes "fd_wf fdw" and "fd_to_dict fdw = Inr ds" and "fr_name fr = fd_name fdw" and "named_by_id msgs"
    and doc: "get_fd_text (answers down msgs) r (fr_relocate (fdr_key r) fr) = (Some (Json ds), d)"
    and ok: "\<forall>v \<in> set (as_read (fdr_key r) fdw). fv_is_valid v \<longrightarrow> intact down msgs r v"
    and some: "\<exists>v \<in> set (as_read (fdr_key r) fdw). version_readable down msgs r v"
    and new: "fv_id nv \<notin> fv_id ` set (as_read (fdr_key r) fdw)"
    and app: "append_file_version (answers down msgs) io r now uuid (Inr (Some nv)) name (Some fr) w = (Inr resp, fr', w')"
  shows "(\<forall>v \<in> set (as_read (fdr_key r) fdw). \<exists>v'. map_of (fd_versions (frs_fd resp)) (fv_id v) = Some v'
        \<and> fv_message_ids v' = fv_message_ids v \<and> fv_mirrors v' = fv_mirrors v
        \<and> map (\<lambda>(s, rep). (s, r_message_ids rep)) (fv_replicas v') = map (\<lambda>(s, rep). (s, r_message_ids rep)) (fv_replicas v))
    \<and> (\<exists>v'. map_of (fd_versions (frs_fd resp)) (fv_id nv) = Some v' \<and> fv_message_ids v' = fv_message_ids nv)"
proof -
  obtain fd1 fd2 fr2 dead where get: "fd_get (answers down msgs) r now False True fr = (Inr fd1, fr2, dead)"
      and add: "add_version nv fd1 = Inr fd2" and resp: "frs_fd resp = stamp r fd2"
    using append_reads [OF app] by blast
  obtain fd where fd: "fd_from_dict ds (fd_name fdw) now = Inr fd"
      "map (\<lambda>(k, v). (k, fv_relocate (fdr_key r) v)) (fd_versions fd) = map (\<lambda>v. (fv_id v, v)) (as_read (fdr_key r) fdw)"
      "fd_listed (fd\<lparr>fd_versions := map (\<lambda>v. (fv_id v, v)) (as_read (fdr_key r) fdw)\<rparr>)"
    using read_listed [OF assms(1,2)] by blast
  let ?fd = "fd\<lparr>fd_versions := map (\<lambda>v. (fv_id v, v)) (as_read (fdr_key r) fdw)\<rparr>"
  obtain dead' where "validate_fv (answers down msgs) r now False ?fd = (Inr fd1, dead')"
    using get fd(1,2) doc assms(3) by (auto simp: fd_get_def Let_def split: prod.splits)
  from validate_fv_recorded [OF assms(4) _ _ this] ok some
  have rec: "map recorded (fd_versions fd1) = map recorded (fd_versions ?fd)" by fastforce
  have "\<exists>v'. map_of (fd_versions (frs_fd resp)) (fv_id v) = Some v' \<and> recorded (k, v') = recorded (k, v)"
    if v: "v \<in> set (as_read (fdr_key r) fdw)" for v k
  proof -
    have "map_of (fd_versions ?fd) (fv_id v) = Some v" using fd(3) v by (intro map_of_is_SomeI) (auto simp: fd_listed_def dict_ok_def)
    from recorded_lookup [OF rec this] obtain v1 where "map_of (fd_versions fd1) (fv_id v) = Some v1" "recorded (k, v1) = recorded (k, v)" by auto
    moreover have "fv_id nv \<noteq> fv_id v" using new v by force
    ultimately show ?thesis by (auto simp: resp stamp_lookup add_version_lookup [OF add] update_conv')
  qed
  moreover have "\<exists>v'. map_of (fd_versions (frs_fd resp)) (fv_id nv) = Some v' \<and> fv_message_ids v' = fv_message_ids nv"
    by (auto simp: resp stamp_lookup add_version_lookup [OF add] update_conv')
  ultimately show ?thesis by fastforce
qed

definition later_version :: file_version where
  "later_version = example_version\<lparr>fv_id := ''v2'', fv_updated_at := Naive 1800000000000000, fv_message_ids := [41, 42], fv_mirrors := [], fv_replicas := [],
     fv_store := None\<rparr>"


definition promoted_repo :: fd_repo where
  "promoted_repo = mirror_repo\<lparr>fdr_mirrors := Some [''tg:-9'']\<rparr>"

definition former_version :: file_version where
  "former_version = later_version\<lparr>fv_id := ''v0'', fv_updated_at := Naive 1600000000000000, fv_store := Some ''tg:-9''\<rparr>"

definition former_desc :: file_desc where
  "former_desc = \<lparr>fd_name = ''a.txt'', fd_latest_version_id = ''v0'', fd_created_at = Naive 1600000000000000,
     fd_versions = [(''v0'', former_version)], fd_complete = True\<rparr>"

definition shelved :: "version_ser list \<Rightarrow> string \<Rightarrow> int \<Rightarrow> fd_text option" where
  "shelved ds key mid = (if key = ''tg:-1'' \<and> mid = 5 then Some (Json ds) else None)"

definition plain_ref :: file_ref where
  "plain_ref = mirrored_ref\<lparr>fr_mirrors := []\<rparr>"



lemma plain_ref_relocate: "fr_relocate ''tg:-1'' plain_ref = plain_ref"
  by (simp add: fr_relocate_def fr_owned_by_def plain_ref_def mirrored_ref_def)

lemma plain_ref_owned: "fr_owned_by plain_ref ''tg:-1''" "fr_message_id plain_ref = 5" "fr_name plain_ref = ''a.txt''" "fr_mirrors plain_ref = []"
  by (simp_all add: fr_owned_by_def plain_ref_def mirrored_ref_def)


lemma promoted_repo_simps: "fdr_key promoted_repo = ''tg:-1''" "fdr_mirrors promoted_repo = Some [''tg:-9'']" "fdr_local promoted_repo = None"
  by (simp_all add: promoted_repo_def mirror_repo_def)

lemma one_version_text:
  assumes "fd_versions fd = [(k, v)]" and "fv_replicas v = []"
  shows "\<exists>d. fd_to_dict fd = Inr [d] \<and> fv_to_dict v = Inr d \<and> vs_id d = fv_id v"
  using assms by (simp add: fd_to_dict_def get_versions_def enumerate_desc_def fv_to_dict_def)

lemma unreplicated_text:
  assumes "\<forall>(k, v) \<in> set (fd_versions fd). fv_replicas v = []"
  shows "\<exists>ds. fd_to_dict fd = Inr ds"
proof -
  have "fv_to_dict v = Inr (projr (fv_to_dict v))" if "v \<in> set (get_versions fd True False)" for v
    using assms that by (auto simp: get_versions_sorted fv_to_dict_def)
  then have "fd_to_dict fd = Inr (map (\<lambda>v. projr (fv_to_dict v)) (get_versions fd True False))"
    unfolding fd_to_dict_def by (rule rmap_Inr)
  then show ?thesis by blast
qed

lemma former_version_wf: "fv_wf former_version"
  by (simp add: fv_wf_def former_version_def later_version_def example_version_def dict_ok_def updated_at_timestamp_def ts_def normalize_store_key_def
      parse_store_key_def make_store_key_def KEY_SEPARATOR_def isalpha_def isalpha_char_def)

lemma former_id: "fv_id former_version = ''v0''" by (simp add: former_version_def)

lemma former_desc_wf: "fd_wf former_desc"
  using former_version_wf by (simp add: fd_wf_def former_desc_def dict_ok_def validate_name_def) (simp add: former_version_def)

lemma former_text:
  obtains ds where "fd_to_dict former_desc = Inr ds" "map vs_id ds = [''v0'']" "rmap fv_from_dict ds = Inr [fv_reread former_version]"
proof -
  have wf: "fv_wf former_version" by (rule former_version_wf)
  obtain d where "fd_to_dict former_desc = Inr [d]" "fv_to_dict former_version = Inr d" "vs_id d = ''v0''"
    using one_version_text [of former_desc "''v0''" former_version] by (auto simp: former_desc_def former_version_def later_version_def)
  with fv_dict_roundtrip [OF wf] that show thesis by auto
qed


lemma former_relocated:
  defines "v \<equiv> fv_relocate ''tg:-1'' (fv_reread former_version)"
  shows "fv_mirrors v = [(''tg:-9'', [41, 42])]" "fv_message_ids v = [41, 42]" "fv_store v = Some ''tg:-9''" "fv_replicas v = []" "fv_pending v = False"
    "fv_id v = ''v0''" "fv_updated_at v = Naive 1600000000000000"
  by (simp_all add: v_def fv_relocate_def relocate_via_replica_def fv_reread_def former_version_def later_version_def example_version_def
      dict_setdefault_def dict_has_def updated_at_timestamp_def ts_def fromtimestamp_ms_def Let_def)

lemma former_parsed:
  assumes "rmap fv_from_dict ds = Inr [fv_reread former_version]"
  shows "fd_from_dict ds ''a.txt'' (Naive 0) = Inr \<lparr>fd_name = ''a.txt'', fd_latest_version_id = ''v0'', fd_created_at = Naive 0,
      fd_versions = [(''v0'', fv_reread former_version)], fd_complete = True\<rparr>"
  by (simp add: fd_from_dict_def assms dict_update_all_def new_file_desc_def validate_name_def Let_def) (simp add: former_version_def)

text \<open>The descriptor's message in the new primary and the two messages of its version in the former one.\<close>

definition former_msgs :: "version_ser list \<Rightarrow> string \<Rightarrow> int \<Rightarrow> fd_msg option" where
  "former_msgs ds key mid =
     (if key = ''tg:-1'' \<and> mid = 5 then Some \<lparr>fm_id = mid, fm_text = Some (Json ds), fm_document = None\<rparr>
      else if key = ''tg:-9'' \<and> (mid = 41 \<or> mid = 42) then Some \<lparr>fm_id = mid, fm_text = None, fm_document = Some 4\<rparr>
      else None)"



text \<open>The same with every store up.\<close>

lemma former_intact: "intact (\<lambda>_. None) (former_msgs ds) promoted_repo (fv_relocate ''tg:-1'' (fv_reread former_version))"
  by (simp add: intact_def part_held_def fv_is_valid_def former_relocated fd_store_for_def promoted_repo_simps has_doc_def former_msgs_def less_Suc_eq
      numeral_2_eq_2 all_conj_distrib)

lemma former_named: "named_by_id (former_msgs ds)"
  by (auto simp: named_by_id_def former_msgs_def split: if_splits)

lemma former_as_read: "as_read ''tg:-1'' former_desc = [fv_relocate ''tg:-1'' (fv_reread former_version)]"
  by (simp add: as_read_def former_desc_def)

lemma former_readable:
  assumes "rmap fv_from_dict ds = Inr [fv_reread former_version]"
  shows "\<exists>v. read_fd (answers (\<lambda>_. None) (former_msgs ds)) promoted_repo (Naive 0) [] (Some plain_ref)
      = (Inr \<lparr>fd_name = ''a.txt'', fd_latest_version_id = ''v0'', fd_created_at = Naive 0, fd_versions = [(''v0'', v)], fd_complete = True\<rparr>, Some plain_ref)
    \<and> fv_updated_at v = Naive 1600000000000000 \<and> fv_replicas v = []"
proof -
  let ?ask = "answers (\<lambda>_. None) (former_msgs ds)"
  let ?v = "fv_relocate ''tg:-1'' (fv_reread former_version)"
  note v = former_relocated
  have doc: "get_fd_text ?ask promoted_repo plain_ref = (Some (Json ds), False)"
    by (simp add: get_fd_text_def answers_def plain_ref_owned promoted_repo_simps former_msgs_def Let_def)
  have ok: "validate_version ?ask promoted_repo held ?v = ?v\<lparr>fv_part_sizes := [4, 4]\<rparr>" for held
    by (simp add: validate_version_def v promoted_repo_simps fv_owned_by_def lookup_mirror_parts_def dict_extend_def answers_def fd_store_for_def former_msgs_def)
  have "fv_is_valid ?v" "fv_is_valid (?v\<lparr>fv_part_sizes := [4, 4]\<rparr>)" using v by (auto simp: fv_is_valid_def)
  then have "validate_fv ?ask promoted_repo (Naive 0) False \<lparr>fd_name = ''a.txt'', fd_latest_version_id = ''v0'', fd_created_at = Naive 0,
      fd_versions = [(''v0'', ?v)], fd_complete = True\<rparr> = (Inr \<lparr>fd_name = ''a.txt'', fd_latest_version_id = ''v0'', fd_created_at = Naive 0,
      fd_versions = [(''v0'', ?v\<lparr>fv_part_sizes := [4, 4]\<rparr>)], fd_complete = True\<rparr>, False)"
    by (simp add: validate_fv_def answers_def [of _ "former_msgs ds" "''tg:-1''"] promoted_repo_simps ok point_at_readable_def Let_def)
  then show ?thesis using v
    by (simp add: read_fd_def fd_get_def plain_ref_relocate promoted_repo_simps doc plain_ref_owned former_parsed [OF assms] Let_def)
qed

theorem append_keeps_history_witness:
  "\<exists>ds resp fr' w'. fd_to_dict former_desc = Inr ds
    \<and> append_file_version (answers (\<lambda>_. None) (former_msgs ds)) shelf_io promoted_repo (Naive 0) [] (Inr (Some later_version)) [] (Some plain_ref)
        (shelved ds, 6) = (Inr resp, fr', w')
    \<and> (\<exists>v'. map_of (fd_versions (frs_fd resp)) ''v0'' = Some v' \<and> fv_message_ids v' = [41, 42])"
proof -
  obtain ds where ds: "fd_to_dict former_desc = Inr ds" "rmap fv_from_dict ds = Inr [fv_reread former_version]"
    by (rule former_text)
  let ?ask = "answers (\<lambda>_. None) (former_msgs ds)"
  obtain v where rd: "read_fd ?ask promoted_repo (Naive 0) [] (Some plain_ref)
      = (Inr \<lparr>fd_name = ''a.txt'', fd_latest_version_id = ''v0'', fd_created_at = Naive 0, fd_versions = [(''v0'', v)], fd_complete = True\<rparr>, Some plain_ref)"
    and v: "fv_updated_at v = Naive 1600000000000000" "fv_replicas v = []"
    using former_readable [OF ds(2)] by blast
  let ?fd = "\<lparr>fd_name = ''a.txt'', fd_latest_version_id = ''v2'', fd_created_at = Naive 0, fd_versions = [(''v0'', v), (''v2'', later_version)], fd_complete = True\<rparr>"
  have add: "add_version later_version \<lparr>fd_name = ''a.txt'', fd_latest_version_id = ''v0'', fd_created_at = Naive 0, fd_versions = [(''v0'', v)],
      fd_complete = True\<rparr> = Inr ?fd"
    by (simp add: add_version_def INVALID_VERSION_ID_def dt_lt_def dt_ge_def v Let_def) (simp add: later_version_def dt_lt_def dt_ge_def v)
  have "\<forall>(k, v) \<in> set (fd_versions (stamp promoted_repo ?fd)). fv_replicas v = []"
    using v(2) by (simp add: stamp_def later_version_def)
  then obtain d where d: "fd_to_dict (stamp promoted_repo ?fd) = Inr d" using unreplicated_text by blast
  obtain resp fr' w' where app: "append_file_version ?ask shelf_io promoted_repo (Naive 0) [] (Inr (Some later_version)) [] (Some plain_ref)
      (shelved ds, 6) = (Inr resp, fr', w')"
    using d by (auto simp: append_file_version_def rd save_changed_def add fd_save_def fd_written_def shelf_io_def shelved_def plain_ref_owned
        mirror_fd_store.simps promoted_repo_simps Let_def)
  have wf: "fd_wf former_desc" by (rule former_desc_wf)
  have read: "as_read (fdr_key promoted_repo) former_desc = [fv_relocate ''tg:-1'' (fv_reread former_version)]"
    by (simp add: former_as_read promoted_repo_simps)
  note ok = former_intact [of ds]
  have doc: "get_fd_text ?ask promoted_repo (fr_relocate (fdr_key promoted_repo) plain_ref) = (Some (Json ds), False)"
    by (simp add: plain_ref_relocate get_fd_text_def answers_def plain_ref_owned promoted_repo_simps former_msgs_def Let_def)
  have nm: "fr_name plain_ref = fd_name former_desc" "named_by_id (former_msgs ds)"
    by (simp_all add: plain_ref_owned former_desc_def former_named)
  have "\<exists>v'. map_of (fd_versions (frs_fd resp)) ''v0'' = Some v' \<and> fv_message_ids v' = [41, 42]"
  proof -
    have "fv_id later_version \<notin> fv_id ` set (as_read (fdr_key promoted_repo) former_desc)"
      unfolding read by (simp add: former_version_def) (simp add: later_version_def)
    from append_keeps_history [OF wf ds(1) nm doc _ _ this app] ok
    show ?thesis unfolding read by (auto simp: version_readable_def former_relocated former_id)
  qed
  with ds(1) app show ?thesis by blast
qed

section \<open>An upload during an outage\<close>


abbreviation "emptied \<equiv> (\<lambda>v. fv_message_ids v = [] \<and> fv_mirrors v = [] \<and> fv_replicas v = [])"










end
