(* ===== verification/FileApi.thy ===== *)
theory FileApi
  imports FdApi
begin

text \<open>
  The file and directory operations on the tree (\<open>FileApi\<close> in \<open>src/tgdcfs/core/api/file.py\<close>, \<open>DirectoryApi\<close> in
  \<open>src/tgdcfs/core/api/directory.py\<close>) that delete messages or write descriptors. Deleting collects the messages of a file in the
  stores they belong to, takes the file out of the tree, writes the metadata and only then
  asks the stores to delete; uploading writes the descriptor first and then the ref. \<open>push\<close> is the
  outcome of writing the metadata, \<open>del key ids\<close> that of a store's \<open>delete_messages\<close>.
\<close>

section \<open>Collecting messages\<close>

type_synonym message_ids = "int list \<times> (string, int list) dict"

definition merge_mirror_ids :: "(string, int) dict \<Rightarrow> (string, int list) dict \<Rightarrow> (string, int list) dict" where
  "merge_mirror_ids = fold (\<lambda>(key, mid) target. if 0 < mid then dict_extend key [mid] target else target)"

definition collect_ref_ids :: "string \<Rightarrow> file_ref \<Rightarrow> message_ids \<Rightarrow> message_ids" where
  "collect_ref_ids key fr = (\<lambda>(ids, mirror_ids).
     let (ids, mirror_ids) =
       (if 0 < fr_message_id fr then
          (if fr_owned_by fr key then (ids @ [fr_message_id fr], mirror_ids)
           else case fr_store fr of
               Some s \<Rightarrow> (ids, if s = [] then mirror_ids else dict_extend s [fr_message_id fr] mirror_ids)
             | None \<Rightarrow> (ids, mirror_ids))
        else (ids, mirror_ids))
     in (ids, merge_mirror_ids (fr_mirrors fr) mirror_ids))"

abbreviation "positive \<equiv> filter (\<lambda>mid :: int. 0 < mid)"

definition collect_version_ids :: "string \<Rightarrow> file_version \<Rightarrow> message_ids \<Rightarrow> message_ids" where
  "collect_version_ids key v = (\<lambda>(ids, mirror_ids).
     let owned = positive (fv_message_ids v);
         (ids, mirror_ids) =
           (if fv_owned_by v key then (ids @ owned, mirror_ids)
            else case fv_store v of
                Some s \<Rightarrow> (ids, if s = [] then mirror_ids else dict_extend s owned mirror_ids)
              | None \<Rightarrow> (ids, mirror_ids));
         mirror_ids = fold (\<lambda>(k, mids). dict_extend k (positive mids)) (fv_mirrors v) mirror_ids
     in fold (\<lambda>(k, rep) (ids, mirror_ids).
          if k = key then (ids @ positive (r_message_ids rep), mirror_ids)
          else (ids, dict_extend k (positive (r_message_ids rep)) mirror_ids)) (fv_replicas v) (ids, mirror_ids))"

text \<open>\<open>collect_all_message_ids\<close> with the ids of the versions and the tree, whose ref may have been relocated.\<close>

definition collect_all_message_ids ::
    "ask \<Rightarrow> fd_repo \<Rightarrow> datetime \<Rightarrow> nat \<Rightarrow> fstree \<Rightarrow> message_ids \<times> string list \<times> fstree" where
  "collect_all_message_ids ask r now a t =
     (case fd_get ask r now False True (t_ref t a) of
        (fd, fr, _) \<Rightarrow>
          let t = upd_ref a (\<lambda>_. fr) t; acc = collect_ref_ids (fdr_key r) fr ([], []) in
          (case fd of
             Inl _ \<Rightarrow> (acc, [], t)
           | Inr fd \<Rightarrow> (fold (collect_version_ids (fdr_key r)) (get_versions fd False False) acc,
                        map fv_id (get_versions fd False False), t)))"

text \<open>The walk over a subtree ends after as many levels as there are objects.\<close>

fun iter_refs :: "nat \<Rightarrow> fstree \<Rightarrow> nat \<Rightarrow> nat list option" where
  "iter_refs 0 t d = None"
| "iter_refs (Suc n) t d =
     map_option (\<lambda>kids. find_files t d [] @ concat kids) (those (map (iter_refs n t) (find_dirs t d [])))"

definition iter_file_refs :: "fstree \<Rightarrow> nat \<Rightarrow> nat list option" where
  "iter_file_refs t d = iter_refs (t_next t) t d"

definition referenced_elsewhere :: "fstree \<Rightarrow> nat list \<Rightarrow> nat list \<Rightarrow> int list" where
  "referenced_elsewhere t all removing =
     filter (\<lambda>mid. 0 < mid) (map (\<lambda>a. fr_message_id (t_ref t a)) (filter (\<lambda>a. a \<notin> set removing) all))"

fun collect_loop ::
    "ask \<Rightarrow> fd_repo \<Rightarrow> datetime \<Rightarrow> int list \<Rightarrow> nat list \<Rightarrow> message_ids \<times> string list \<times> fstree \<Rightarrow> message_ids \<times> string list \<times> fstree" where
  "collect_loop ask r now shared [] st = st"
| "collect_loop ask r now shared (a # frs) ((ids, mirror_ids), vids, t) =
     (if fr_message_id (t_ref t a) \<in> set shared then collect_loop ask r now shared frs ((ids, mirror_ids), vids, t)
      else case collect_all_message_ids ask r now a t of
          ((fr_ids, fr_mirror_ids), fr_vids, t) \<Rightarrow>
            collect_loop ask r now shared frs
              ((ids @ fr_ids, fold (\<lambda>(k, mids). dict_extend k mids) fr_mirror_ids mirror_ids), vids @ fr_vids, t))"

definition collect_deletable ::
    "ask \<Rightarrow> fd_repo \<Rightarrow> datetime \<Rightarrow> nat \<Rightarrow> nat list \<Rightarrow> fstree \<Rightarrow> (message_ids \<times> string list \<times> fstree) option" where
  "collect_deletable ask r now root frs t = map_option (\<lambda>all.
     collect_loop ask r now (referenced_elsewhere t all frs) frs (([], []), [], t)) (iter_file_refs t root)"

section \<open>Deleting\<close>

type_synonym requests = "(string \<times> int list) list"

text \<open>\<open>MirrorGroup.delete\<close> and \<open>delete_mirrored\<close>, with the requests made.\<close>

fun mirror_delete :: "(string \<Rightarrow> int list \<Rightarrow> unit res) \<Rightarrow> fd_repo \<Rightarrow> (string, int list) dict \<Rightarrow> unit res \<times> requests" where
  "mirror_delete del r [] = (Inr (), [])"
| "mirror_delete del r ((key, ids) # rest) =
     (if ids = [] \<or> \<not> fd_store_for r key then mirror_delete del r rest
      else case del key ids of
          Inl ex \<Rightarrow> (Inl ex, [(key, ids)])
        | Inr _ \<Rightarrow> (case mirror_delete del r rest of (res, reqs) \<Rightarrow> (res, (key, ids) # reqs)))"

definition delete_messages :: "(string \<Rightarrow> int list \<Rightarrow> unit res) \<Rightarrow> fd_repo \<Rightarrow> message_ids \<Rightarrow> unit res \<times> requests" where
  "delete_messages del r = (\<lambda>(ids, mirror_ids).
     case del (fdr_key r) ids of
       Inl ex \<Rightarrow> (Inl ex, [(fdr_key r, ids)])
     | Inr _ \<Rightarrow>
         (case (if fdr_mirrors r = None then (Inr (), []) else mirror_delete del r mirror_ids) of
            (res, reqs) \<Rightarrow> (res, (fdr_key r, ids) # reqs)))"

text \<open>What a removal did: its outcome, the tree, the requests to the stores and the versions forgotten.\<close>

record removal =
  rm_res :: "unit res"
  rm_tree :: fstree
  rm_requests :: requests
  rm_forgotten :: "string list"

definition rm_file ::
    "ask \<Rightarrow> fd_repo \<Rightarrow> datetime \<Rightarrow> (string \<Rightarrow> int list \<Rightarrow> unit res) \<Rightarrow> unit res \<Rightarrow> nat \<Rightarrow> nat \<Rightarrow> fstree \<Rightarrow> removal option" where
  "rm_file ask r now del push root a t = map_option (\<lambda>(acc, vids, t).
     case fr_delete now a t of
       Inl ex \<Rightarrow> \<lparr>rm_res = Inl ex, rm_tree = t, rm_requests = [], rm_forgotten = []\<rparr>
     | Inr t \<Rightarrow>
         (case push of
            Inl ex \<Rightarrow> \<lparr>rm_res = Inl ex, rm_tree = t, rm_requests = [], rm_forgotten = []\<rparr>
          | Inr _ \<Rightarrow>
              (case delete_messages del r acc of (res, reqs) \<Rightarrow>
                 \<lparr>rm_res = res, rm_tree = t, rm_requests = reqs, rm_forgotten = (if isl res then [] else vids)\<rparr>)))
     (collect_deletable ask r now root [a] t)"

definition rm_dangerously ::
    "ask \<Rightarrow> fd_repo \<Rightarrow> datetime \<Rightarrow> (string \<Rightarrow> int list \<Rightarrow> unit res) \<Rightarrow> unit res \<Rightarrow> nat \<Rightarrow> nat \<Rightarrow> fstree \<Rightarrow> removal option" where
  "rm_dangerously ask r now del push root d t =
     Option.bind (iter_file_refs t d) (\<lambda>frs. map_option (\<lambda>(acc, vids, t).
       let t = delete_dir now d t in
       (case push of
          Inl ex \<Rightarrow> \<lparr>rm_res = Inl ex, rm_tree = t, rm_requests = [], rm_forgotten = []\<rparr>
        | Inr _ \<Rightarrow>
            (case delete_messages del r acc of (res, reqs) \<Rightarrow>
               \<lparr>rm_res = res, rm_tree = t, rm_requests = reqs, rm_forgotten = []\<rparr>)))
       (collect_deletable ask r now root frs t))"

definition rm_empty ::
    "ask \<Rightarrow> fd_repo \<Rightarrow> datetime \<Rightarrow> (string \<Rightarrow> int list \<Rightarrow> unit res) \<Rightarrow> unit res \<Rightarrow> nat \<Rightarrow> nat \<Rightarrow> fstree \<Rightarrow> removal option" where
  "rm_empty ask r now del push root d t =
     (if find_dirs t d [] \<noteq> [] \<or> find_files t d [] \<noteq> []
      then map_option (\<lambda>p. \<lparr>rm_res = Inl (DirectoryIsNotEmpty p), rm_tree = t, rm_requests = [], rm_forgotten = []\<rparr>) (absolute_path t d)
      else rm_dangerously ask r now del push root d t)"

section \<open>Every file of a subtree\<close>

lemma iter_refs_total:
  assumes ok: "tree_ok t"
  shows "d < t_next t \<Longrightarrow> card (below_set t d) \<le> n \<Longrightarrow> \<exists>xs. iter_refs n t d = Some xs"
proof (induction n arbitrary: d)
  case 0
  have "d \<in> below_set t d" using 0 by (auto simp: below_set_def intro: below.intros)
  moreover have "finite (below_set t d)" by (simp add: below_set_def)
  ultimately show ?case using 0 by auto
next
  case (Suc n)
  have fin: "finite (below_set t d)" by (simp add: below_set_def)
  have "\<exists>ys. iter_refs n t c = Some ys" if "c \<in> set (d_children (t_dir t d))" for c
  proof (rule Suc.IH)
    show "c < t_next t" by (rule child_below_set(1) [OF ok that Suc.prems(1)])
    show "card (below_set t c) \<le> n"
      using psubset_card_mono [OF fin child_below_set(2) [OF ok that Suc.prems(1)]] Suc.prems(2) by simp
  qed
  then obtain kids where "those (map (iter_refs n t) (d_children (t_dir t d))) = Some kids" using those_total by blast
  then show ?case by (simp add: find_dirs_def)
qed

lemma iter_file_refs_total: "tree_ok t \<Longrightarrow> d < t_next t \<Longrightarrow> \<exists>xs. iter_file_refs t d = Some xs"
  unfolding iter_file_refs_def
  by (rule iter_refs_total) (auto simp: below_set_def intro: order_trans [OF card_mono [of "{..<t_next t}"]])

section \<open>Messages are deleted where they belong\<close>

definition entries :: "(string, int list) dict \<Rightarrow> (string \<times> int) set" where
  "entries d = {(k, i). \<exists>is. (k, is) \<in> set d \<and> i \<in> set is}"

definition pairs_of :: "string \<Rightarrow> message_ids \<Rightarrow> (string \<times> int) set" where
  "pairs_of key acc = {key} \<times> set (fst acc) \<union> entries (snd acc)"

text \<open>The messages of a ref and of a version, in the stores they are recorded for.\<close>

definition ref_messages :: "string \<Rightarrow> file_ref \<Rightarrow> (string \<times> int) set" where
  "ref_messages key fr = {(k, m). m = fr_message_id fr \<and> (fr_store fr = None \<and> k = key \<or> fr_store fr = Some k)
     \<or> (k, m) \<in> set (fr_mirrors fr)}"

definition version_messages :: "string \<Rightarrow> file_version \<Rightarrow> (string \<times> int) set" where
  "version_messages key v = {(k, m). m \<in> set (fv_message_ids v) \<and> (fv_store v = None \<and> k = key \<or> fv_store v = Some k)
     \<or> (\<exists>ms. (k, ms) \<in> set (fv_mirrors v) \<and> m \<in> set ms) \<or> (\<exists>rep. (k, rep) \<in> set (fv_replicas v) \<and> m \<in> set (r_message_ids rep))}"

lemma entries_simps: "entries [] = {}" "entries ((k, is) # d) = {k} \<times> set is \<union> entries d"
  by (auto simp: entries_def)

lemma entries_extend [simp]: "entries (dict_extend k xs d) = entries d \<union> {k} \<times> set xs"
proof (cases "map_of d k")
  case None
  then show ?thesis by (auto simp: dict_extend_def entries_def)
next
  case (Some ys)
  have "entries (AList.update k (ys @ xs) d) = entries d \<union> {k} \<times> set xs"
    using Some by (induction d) (auto simp: entries_simps split: if_splits)
  with Some show ?thesis by (simp add: dict_extend_def)
qed

lemma entries_fold_extend: "entries (fold (\<lambda>(k, mids). dict_extend k (f mids)) xs d) = entries d \<union> {(k, i). \<exists>ms. (k, ms) \<in> set xs \<and> i \<in> set (f ms)}"
  by (induction xs arbitrary: d) auto

lemma entries_merge: "entries (merge_mirror_ids src d) = entries d \<union> {(k, i) \<in> set src. 0 < i}"
  unfolding merge_mirror_ids_def by (induction src arbitrary: d) (auto split: if_splits)

lemma collect_ref_pairs: "pairs_of key (collect_ref_ids key fr acc) \<subseteq> pairs_of key acc \<union> ref_messages key fr"
  by (cases acc) (auto simp: collect_ref_ids_def pairs_of_def ref_messages_def entries_merge fr_owned_by_def Let_def split: option.splits if_splits)

definition collect_replica :: "string \<Rightarrow> string \<times> replica \<Rightarrow> message_ids \<Rightarrow> message_ids" where
  "collect_replica key = (\<lambda>(k, rep) (ids, ms). if k = key then (ids @ positive (r_message_ids rep), ms)
      else (ids, dict_extend k (positive (r_message_ids rep)) ms))"

lemma collect_replica_pairs:
  "pairs_of key (fold (collect_replica key) reps acc)
    \<subseteq> pairs_of key acc \<union> (\<Union>(k, rep) \<in> set reps. {k} \<times> set (r_message_ids rep))"
proof (induction reps arbitrary: acc)
  case (Cons p reps)
  have "pairs_of key (collect_replica key p acc) \<subseteq> pairs_of key acc \<union> (case p of (k, rep) \<Rightarrow> {k} \<times> set (r_message_ids rep))"
    by (auto simp: pairs_of_def collect_replica_def split: prod.splits if_splits)
  then show ?case using Cons.IH [of "collect_replica key p acc"] by auto
qed simp

lemma collect_version_pairs: "pairs_of key (collect_version_ids key v acc) \<subseteq> pairs_of key acc \<union> version_messages key v"
proof -
  obtain ids ms where acc: "acc = (ids, ms)" by force
  let ?o = "positive (fv_message_ids v)"
  define acc1 where "acc1 = (if fv_owned_by v key then (ids @ ?o, ms)
    else case fv_store v of Some s \<Rightarrow> (ids, if s = [] then ms else dict_extend s ?o ms) | None \<Rightarrow> (ids, ms))"
  define acc2 where "acc2 = (fst acc1, fold (\<lambda>(k, mids). dict_extend k (positive mids)) (fv_mirrors v) (snd acc1))"
  let ?T = "pairs_of key acc \<union> version_messages key v"
  have "pairs_of key acc1 \<subseteq> ?T"
    by (auto simp: acc1_def acc pairs_of_def version_messages_def fv_owned_by_def split: option.splits if_splits)
  moreover have "pairs_of key acc2 \<subseteq> pairs_of key acc1 \<union> version_messages key v"
    by (auto simp: acc2_def pairs_of_def entries_fold_extend version_messages_def)
  ultimately have "pairs_of key acc2 \<subseteq> ?T" by blast
  moreover have "(\<Union>(k, rep) \<in> set (fv_replicas v). {k} \<times> set (r_message_ids rep)) \<subseteq> ?T"
    by (auto simp: version_messages_def)
  ultimately have "pairs_of key (fold (collect_replica key) (fv_replicas v) acc2) \<subseteq> ?T"
    by (rule order_trans [OF collect_replica_pairs Un_least])
  moreover have "collect_version_ids key v acc = fold (collect_replica key) (fv_replicas v) acc2"
    by (simp add: collect_version_ids_def collect_replica_def acc acc1_def acc2_def Let_def split: prod.splits)
  ultimately show ?thesis by simp
qed

lemma collect_versions_pairs:
  "pairs_of key (fold (collect_version_ids key) vs acc) \<subseteq> pairs_of key acc \<union> (\<Union>v \<in> set vs. version_messages key v)"
proof (induction vs arbitrary: acc)
  case (Cons v vs)
  then show ?case using collect_version_pairs [of key v acc] by fastforce
qed simp

text \<open>Relocating a ref or a version moves no message to another store.\<close>

lemma dict_setdefault_set: "set (dict_setdefault k v d) \<subseteq> insert (k, v) (set d)"
  by (auto simp: dict_setdefault_def)

lemma ref_messages_relocate: "ref_messages key (fr_relocate key fr) \<subseteq> ref_messages key fr"
proof (cases "fr_store fr")
  case (Some old)
  have sd: "set (dict_setdefault old (fr_message_id fr) (fr_mirrors fr)) \<subseteq> insert (old, fr_message_id fr) (set (fr_mirrors fr))"
    by (rule dict_setdefault_set)
  show ?thesis
  proof (cases "old = key")
    case False
    let ?ms = "dict_setdefault old (fr_message_id fr) (fr_mirrors fr)"
    have "set (AList.delete key ?ms) \<subseteq> insert (old, fr_message_id fr) (set (fr_mirrors fr))" by (rule order_trans [OF delete_subset sd])
    note del = this
    have old: "(old, fr_message_id fr) \<in> ref_messages key fr" and ms: "set (fr_mirrors fr) \<subseteq> ref_messages key fr"
      using Some by (auto simp: ref_messages_def)
    then have sub: "set ?ms \<subseteq> ref_messages key fr" "set (AList.delete key ?ms) \<subseteq> ref_messages key fr" using sd del by blast+
    have "fr_relocate key fr = fr\<lparr>fr_mirrors := ?ms\<rparr> \<or> (\<exists>mid. map_of ?ms key = Some mid
        \<and> fr_relocate key fr = fr\<lparr>fr_mirrors := AList.delete key ?ms, fr_message_id := mid, fr_store := Some key\<rparr>)"
    proof (cases "map_of ?ms key")
      case None
      then show ?thesis using False Some by (simp add: fr_relocate_def fr_owned_by_def Let_def)
    next
      case (Some mid)
      then show ?thesis using False \<open>fr_store fr = Some old\<close> by (cases "0 < mid") (simp_all add: fr_relocate_def fr_owned_by_def Let_def)
    qed
    then consider (stay) "fr_relocate key fr = fr\<lparr>fr_mirrors := ?ms\<rparr>"
      | (move) mid where "map_of ?ms key = Some mid"
          "fr_relocate key fr = fr\<lparr>fr_mirrors := AList.delete key ?ms, fr_message_id := mid, fr_store := Some key\<rparr>" by blast
    then show ?thesis
    proof cases
      case stay
      have "ref_messages key (fr\<lparr>fr_mirrors := ?ms\<rparr>) = insert (old, fr_message_id fr) (set ?ms)" using Some by (auto simp: ref_messages_def)
      then show ?thesis unfolding stay using sub(1) old by simp
    next
      case move
      have "ref_messages key (fr\<lparr>fr_mirrors := AList.delete key ?ms, fr_message_id := mid, fr_store := Some key\<rparr>)
          = insert (key, mid) (set (AList.delete key ?ms))" by (auto simp: ref_messages_def)
      moreover have "(key, mid) \<in> ref_messages key fr" using sub(1) map_of_SomeD [OF move(1)] by (rule subsetD)
      ultimately show ?thesis unfolding move(2) using sub(2) by simp
    qed
  qed (simp add: fr_relocate_def fr_owned_by_def Some)
qed (simp add: fr_relocate_def)

lemma relocated_replicas_from:
  "(k, rep) \<in> set (fold (\<lambda>(key, aligned) acc. if P aligned then AList.update key (g aligned) acc else acc) ms acc)
    \<Longrightarrow> (k, rep) \<in> set acc \<or> (\<exists>aligned. (k, aligned) \<in> set ms \<and> rep = g aligned)"
proof (induction ms arbitrary: acc)
  case (Cons p ms)
  obtain key aligned where p: "p = (key, aligned)" by force
  let ?acc = "if P aligned then AList.update key (g aligned) acc else acc"
  have "(k, rep) \<in> set ?acc \<or> (\<exists>aligned. (k, aligned) \<in> set ms \<and> rep = g aligned)" using Cons by (simp add: p)
  then show ?case using update_subset [of key "g aligned" acc] by (auto simp: p split: if_splits)
qed simp

lemma version_messages_replica:
  assumes "fv_store v = Some old" and "(primary, rep) \<in> set (fv_replicas v)" and "\<And>ms. (old, ms) \<in> set (fv_mirrors v) \<Longrightarrow> {old} \<times> set ms \<subseteq> M"
    and "version_messages key v \<subseteq> M"
  shows "version_messages key (relocate_to_replica primary old rep (v\<lparr>fv_replicas := AList.delete primary (fv_replicas v)\<rparr>)) \<subseteq> M"
proof -
  let ?old = "case map_of (fv_mirrors v) old of Some ids \<Rightarrow> ids | None \<Rightarrow> fv_message_ids v"
  have old: "{old} \<times> set ?old \<subseteq> M"
  proof (cases "map_of (fv_mirrors v) old")
    case None
    then show ?thesis using assms(1,4) by (auto simp: version_messages_def)
  next
    case (Some ids)
    then show ?thesis using assms(3) [OF map_of_SomeD [OF Some]] by simp
  qed
  have ms: "{k} \<times> set aligned \<subseteq> M" if "(k, aligned) \<in> set (fv_mirrors v)" for k aligned
    using assms(4) that by (auto simp: version_messages_def)
  have rs: "{k} \<times> set (r_message_ids rep) \<subseteq> M" if "(k, rep) \<in> set (fv_replicas v)" for k rep
    using assms(4) that by (auto simp: version_messages_def)
  have del: "set (AList.delete old (fv_mirrors v)) \<subseteq> set (fv_mirrors v)" "set (AList.delete primary (fv_replicas v)) \<subseteq> set (fv_replicas v)"
    by (rule delete_subset)+
  show ?thesis
  proof (rule subsetI, clarify)
    fix k m
    let ?v = "relocate_to_replica primary old rep (v\<lparr>fv_replicas := AList.delete primary (fv_replicas v)\<rparr>)"
    assume "(k, m) \<in> version_messages key ?v"
    then consider (own) "m \<in> set (r_message_ids rep)" "k = primary"
      | (rep) rep' where "(k, rep') \<in> set (fv_replicas ?v)" "m \<in> set (r_message_ids rep')"
      by (auto simp: version_messages_def relocate_to_replica_def Let_def)
    then show "(k, m) \<in> M"
    proof cases
      case own
      then show ?thesis using rs [OF assms(2)] by auto
    next
      case rep
      let ?r0 = "AList.update old \<lparr>r_message_ids = ?old, r_part_sizes = fv_part_sizes v\<rparr> (AList.delete primary (fv_replicas v))"
      have "(k, rep') \<in> set ?r0 \<or> (\<exists>aligned. (k, aligned) \<in> set (AList.delete old (fv_mirrors v))
          \<and> rep' = \<lparr>r_message_ids = aligned, r_part_sizes = fv_part_sizes v\<rparr>)"
      proof (rule relocated_replicas_from)
        show "(k, rep') \<in> set (fold (\<lambda>(key, aligned) acc. if length aligned = length ?old \<and> (\<forall>i \<in> set aligned. 0 < i)
            then AList.update key \<lparr>r_message_ids = aligned, r_part_sizes = fv_part_sizes v\<rparr> acc else acc) (AList.delete old (fv_mirrors v)) ?r0)"
          using rep(1) by (simp add: relocate_to_replica_def Let_def cong: option.case_cong if_cong)
      qed
      then show ?thesis
      proof
        assume "(k, rep') \<in> set ?r0"
        then have "(k, rep') = (old, \<lparr>r_message_ids = ?old, r_part_sizes = fv_part_sizes v\<rparr>) \<or> (k, rep') \<in> set (fv_replicas v)"
          using update_subset [of old "\<lparr>r_message_ids = ?old, r_part_sizes = fv_part_sizes v\<rparr>" "AList.delete primary (fv_replicas v)"] del(2) by blast
        then show ?thesis using rep(2) old rs [of k rep'] by auto
      next
        assume "\<exists>aligned. (k, aligned) \<in> set (AList.delete old (fv_mirrors v)) \<and> rep' = \<lparr>r_message_ids = aligned, r_part_sizes = fv_part_sizes v\<rparr>"
        then obtain aligned where "(k, aligned) \<in> set (fv_mirrors v)" "m \<in> set aligned" using rep(2) del(1) by auto
        then show ?thesis using ms by blast
      qed
    qed
  qed
qed

lemma version_messages_relocate: "version_messages key (fv_relocate key v) \<subseteq> version_messages key v"
proof (cases "fv_store v")
  case (Some old)
  show ?thesis
  proof (cases "old = key")
    case False
    let ?v1 = "v\<lparr>fv_mirrors := dict_setdefault old (fv_message_ids v) (fv_mirrors v)\<rparr>"
    have sd: "set (fv_mirrors ?v1) \<subseteq> insert (old, fv_message_ids v) (set (fv_mirrors v))" by (simp add: dict_setdefault_set)
    have v1: "version_messages key ?v1 \<subseteq> version_messages key v" using sd Some by (auto simp: version_messages_def)
    have ali: "version_messages key (?v1\<lparr>fv_mirrors := AList.delete key (fv_mirrors ?v1), fv_message_ids := ids, fv_store := Some key\<rparr>) \<subseteq> version_messages key ?v1"
      if "map_of (fv_mirrors ?v1) key = Some ids" for ids
      using map_of_SomeD [OF that] delete_subset [of key "fv_mirrors ?v1"] by (auto simp: version_messages_def)
    have rep: "version_messages key (relocate_via_replica key old ?v1) \<subseteq> version_messages key ?v1"
    proof (cases "map_of (fv_replicas ?v1) key")
      case (Some r)
      have "version_messages key (relocate_to_replica key old r (?v1\<lparr>fv_replicas := AList.delete key (fv_replicas ?v1)\<rparr>)) \<subseteq> version_messages key ?v1"
        by (rule version_messages_replica) (use \<open>fv_store v = Some old\<close> map_of_SomeD [OF Some] in \<open>auto simp: version_messages_def\<close>)
      moreover have "version_messages key (?v1\<lparr>fv_replicas := AList.delete key (fv_replicas ?v1)\<rparr>) \<subseteq> version_messages key ?v1"
        using delete_subset [of key "fv_replicas ?v1"] by (auto simp: version_messages_def)
      ultimately show ?thesis using Some by (simp add: relocate_via_replica_def Let_def)
    qed (simp add: relocate_via_replica_def)
    show ?thesis using False Some ali rep v1 by (auto simp: fv_relocate_def Let_def split: option.splits if_splits)
  qed (simp add: fv_relocate_def Some)
qed (simp add: fv_relocate_def)

text \<open>Neither does reading a descriptor.\<close>

lemma check_replica_ids: "check_replica ask r key rep = Some rep' \<Longrightarrow> r_message_ids rep' = r_message_ids rep"
  by (auto simp: check_replica_def split: if_splits sum.splits)

lemma version_messages_cong:
  assumes "fv_message_ids v = fv_message_ids w" and "fv_store v = fv_store w" and "fv_mirrors v = fv_mirrors w"
    and "map (\<lambda>(s, rep). (s, r_message_ids rep)) (fv_replicas v) = map (\<lambda>(s, rep). (s, r_message_ids rep)) (fv_replicas w)"
  shows "version_messages key v = version_messages key w"
proof -
  have "(\<exists>rep. (k, rep) \<in> set reps \<and> m \<in> set (r_message_ids rep)) \<longleftrightarrow> (\<exists>ms. (k, ms) \<in> set (map (\<lambda>(s, rep). (s, r_message_ids rep)) reps) \<and> m \<in> set ms)"
    for reps :: "(string, replica) dict" and k m by force
  then show ?thesis unfolding version_messages_def using assms by (simp only:)
qed

lemma version_messages_validate: "version_messages key (validate_version ask r held v) \<subseteq> version_messages key v"
proof -
  have inv: "version_messages key (fv_set_invalid w) = {}" for w by (simp add: version_messages_def fv_set_invalid_def)
  obtain b v' where rep: "verify_replicas ask r v = (b, v')" by force
  have "version_messages key (v'\<lparr>fv_part_sizes := [], fv_raw_size := INVALID_FILE_SIZE\<rparr>) = version_messages key v"
    using verify_replicas_recorded [OF rep, of k] rep by (intro version_messages_cong) (auto simp: verify_replicas_def)
  moreover have "version_messages key (v\<lparr>fv_part_sizes := sizes\<rparr>) = version_messages key v" for sizes
    by (rule version_messages_cong) simp_all
  ultimately show ?thesis using rep inv by (cases b) (auto simp: validate_version_def split: option.splits)
qed

abbreviation "versions_messages key fd \<equiv> (\<Union>(k, v) \<in> set (fd_versions fd). version_messages key v)"

lemma validate_entries_messages:
  "validate_entries ask r held include_all vs = (ys, found)
    \<Longrightarrow> (\<Union>(k, v) \<in> set ys. version_messages key v) \<subseteq> (\<Union>(k, v) \<in> set vs. version_messages key v)"
proof (induction vs arbitrary: ys found)
  case (Cons x vs)
  obtain k v where x: "x = (k, v)" by force
  obtain zs f where zs: "validate_entries ask r held include_all vs = (zs, f)" by force
  have "\<exists>w ws. ys = (k, w) # ws \<and> version_messages key w \<subseteq> version_messages key v \<and> (ws = vs \<or> ws = zs)"
    using Cons.prems zs version_messages_validate [of key ask r held v] by (auto simp: x Let_def split: if_splits)
  then obtain w ws where ys: "ys = (k, w) # ws" "version_messages key w \<subseteq> version_messages key v" "ws = vs \<or> ws = zs" by blast
  then have "(\<Union>(k, v) \<in> set ws. version_messages key v) \<subseteq> (\<Union>(k, v) \<in> set vs. version_messages key v)" using Cons.IH [OF zs] by auto
  with ys(1,2) show ?case unfolding x by (simp only: set_simps UN_insert prod.case) (rule Un_mono)
qed simp

lemma point_at_readable_messages: "point_at_readable r now fd found = Inr fd' \<Longrightarrow> versions_messages key fd' \<subseteq> versions_messages key fd"
  by (auto simp: point_at_readable_def fd_empty_def new_file_desc_def rbind_Inr_iff Let_def split: if_splits list.splits)

lemma validate_fv_messages:
  assumes "validate_fv ask r now include_all fd = (Inr fd', dead)"
  shows "versions_messages key fd' \<subseteq> versions_messages key fd"
proof -
  obtain held ys found c where ve: "validate_entries ask r held include_all (fd_versions fd) = (ys, found)"
      and p: "point_at_readable r now (fd\<lparr>fd_versions := ys, fd_complete := c\<rparr>) found = Inr fd'"
  proof (cases "ask (fdr_key r) (concat (map fv_message_ids (filter (\<lambda>v. fv_owned_by v (fdr_key r)) (get_versions fd False True))))")
    case (Inl ex)
    obtain ys found where ve: "validate_entries ask r (\<lambda>_. None) include_all (fd_versions fd) = (ys, found)" by force
    show thesis by (rule that [OF ve, of False]) (use assms Inl ve in \<open>auto simp: validate_fv_def Let_def split: if_splits\<close>)
  next
    case (Inr msgs)
    obtain ys found where ve: "validate_entries ask r (held_of msgs) include_all (fd_versions fd) = (ys, found)" by force
    show thesis by (rule that [OF ve, of "fd_complete fd"]) (use assms Inr ve in \<open>auto simp: validate_fv_def Let_def\<close>)
  qed
  from point_at_readable_messages [OF p, of key] validate_entries_messages [OF ve, of key] show ?thesis by simp
qed

lemma fd_get_ref: "fd_get ask r now include_all validate fr = (fd, fr', dead) \<Longrightarrow> fr' = fr_relocate (fdr_key r) fr"
  by (auto simp: fd_get_def Let_def split: prod.splits option.splits fd_text.splits sum.splits if_splits)

text \<open>The text of a ref's descriptor is the written one, or cannot be read.\<close>

definition described :: "ask \<Rightarrow> fd_repo \<Rightarrow> file_ref \<Rightarrow> file_desc \<Rightarrow> bool" where
  "described ask r fr fd \<longleftrightarrow> fd_wf fd \<and> fr_name fr = fd_name fd
     \<and> (\<exists>ds. fd_to_dict fd = Inr ds \<and> fst (get_fd_text ask r (fr_relocate (fdr_key r) fr)) \<in> {None, Some (Json ds)})"

lemma fd_get_messages:
  assumes desc: "described ask r fr fdw" and get: "fd_get ask r now include_all True fr = (Inr fd, fr', dead)"
  shows "versions_messages (fdr_key r) fd \<subseteq> versions_messages (fdr_key r) fdw"
proof -
  obtain ds d where ds: "fd_to_dict fdw = Inr ds" "fst (get_fd_text ask r (fr_relocate (fdr_key r) fr)) \<in> {None, Some (Json ds)}"
    using desc by (auto simp: described_def)
  obtain fd0 where fd0: "fd_from_dict ds (fd_name fdw) now = Inr fd0"
      "map (\<lambda>(k, v). (k, fv_relocate (fdr_key r) v)) (fd_versions fd0) = map (\<lambda>v. (fv_id v, v)) (as_read (fdr_key r) fdw)"
    using read_listed [OF _ ds(1)] desc by (auto simp: described_def)
  let ?fd = "fd0\<lparr>fd_versions := map (\<lambda>v. (fv_id v, v)) (as_read (fdr_key r) fdw)\<rparr>"
  have reread: "version_messages key (fv_reread v) = version_messages key v" for key v
    by (simp add: version_messages_def fv_reread_def)
  have "version_messages (fdr_key r) v \<subseteq> versions_messages (fdr_key r) fdw" if v: "v \<in> set (as_read (fdr_key r) fdw)" for v
  proof -
    obtain w where w: "w \<in> set (map snd (fd_versions fdw))" "v = fv_relocate (fdr_key r) (fv_reread w)" using v by (auto simp: as_read_def)
    have "version_messages (fdr_key r) v \<subseteq> version_messages (fdr_key r) w"
      using version_messages_relocate [of "fdr_key r" "fv_reread w"] by (simp add: w(2) reread)
    then show ?thesis using w(1) by fastforce
  qed
  then have sub: "versions_messages (fdr_key r) ?fd \<subseteq> versions_messages (fdr_key r) fdw" by auto
  show ?thesis
  proof (cases "fst (get_fd_text ask r (fr_relocate (fdr_key r) fr))")
    case None
    then show ?thesis using get by (auto simp: fd_get_def fd_empty_def new_file_desc_def rbind_Inr_iff Let_def split: prod.splits)
  next
    case (Some x)
    then have "\<exists>dead. validate_fv ask r now include_all ?fd = (Inr fd, dead)"
      using ds(2) get fd0 desc by (auto simp: described_def fd_get_def Let_def split: prod.splits)
    then show ?thesis using order_trans [OF validate_fv_messages sub] by (elim exE)
  qed
qed

section \<open>Removals spare other files\<close>

definition file_messages :: "string \<Rightarrow> file_ref \<Rightarrow> file_desc \<Rightarrow> (string \<times> int) set" where
  "file_messages key fr fd = ref_messages key fr \<union> versions_messages key fd"

lemma UN_snd_mono: "A \<subseteq> snd ` B \<Longrightarrow> (\<Union>v \<in> A. f v) \<subseteq> (\<Union>(k, v) \<in> B. f v)"
  by fastforce

lemma collect_all_pairs:
  assumes "described ask r (t_ref t a) fdw" and "collect_all_message_ids ask r now a t = (acc, vids, t')"
  shows "pairs_of (fdr_key r) acc \<subseteq> file_messages (fdr_key r) (t_ref t a) fdw"
    and "t' = upd_ref a (fr_relocate (fdr_key r)) t"
proof -
  let ?key = "fdr_key r"
  obtain fd fr dead where get: "fd_get ask r now False True (t_ref t a) = (fd, fr, dead)" by (metis prod_cases3)
  note fr = fd_get_ref [OF get]
  let ?acc = "collect_ref_ids ?key fr ([], [])"
  have "pairs_of ?key ?acc \<subseteq> ref_messages ?key fr" using collect_ref_pairs [of ?key fr "([], [])"] by (simp add: pairs_of_def entries_simps)
  then have refs: "pairs_of ?key ?acc \<subseteq> ref_messages ?key (t_ref t a)" using ref_messages_relocate [of ?key "t_ref t a"] by (simp add: fr)
  show "pairs_of ?key acc \<subseteq> file_messages ?key (t_ref t a) fdw"
  proof (cases fd)
    case (Inl ex)
    then show ?thesis using assms(2) get refs by (auto simp: collect_all_message_ids_def file_messages_def)
  next
    case (Inr fd1)
    have "set (get_versions fd1 False False) \<subseteq> snd ` set (fd_versions fd1)" by (auto simp: get_versions_def)
    then have "(\<Union>v \<in> set (get_versions fd1 False False). version_messages ?key v) \<subseteq> versions_messages ?key fd1" by (rule UN_snd_mono)
    then have "(\<Union>v \<in> set (get_versions fd1 False False). version_messages ?key v) \<subseteq> versions_messages ?key fdw"
      using fd_get_messages [OF assms(1) get [unfolded Inr]] by (rule order_trans)
    with refs have "pairs_of ?key ?acc \<union> (\<Union>v \<in> set (get_versions fd1 False False). version_messages ?key v)
        \<subseteq> file_messages ?key (t_ref t a) fdw" unfolding file_messages_def by (rule Un_mono)
    then have "pairs_of ?key (fold (collect_version_ids ?key) (get_versions fd1 False False) ?acc) \<subseteq> file_messages ?key (t_ref t a) fdw"
      by (rule order_trans [OF collect_versions_pairs])
    then show ?thesis using assms(2) get Inr by (simp add: collect_all_message_ids_def Let_def)
  qed
  show "t' = upd_ref a (fr_relocate ?key) t"
    using assms(2) get fr by (auto simp: collect_all_message_ids_def upd_ref_def Let_def split: sum.splits)
qed

lemma upd_relocate_ok: "tree_ok t \<Longrightarrow> tree_ok (upd_ref a (fr_relocate key) t)"
  by (rule upd_ref_ok) (auto simp: fr_relocate_def Let_def split: option.splits)

lemma sub_chain: "A \<subseteq> (B \<union> C) \<union> D \<Longrightarrow> D \<subseteq> E \<Longrightarrow> C \<subseteq> E \<Longrightarrow> A \<subseteq> B \<union> E"
  by blast

lemma collect_loop_pairs:
  assumes "collect_loop ask r now shared frs (acc, vids, t) = (acc', vids', t')" and "distinct frs"
    and "\<forall>a \<in> set frs. fr_message_id (t_ref t a) \<notin> set shared \<longrightarrow> described ask r (t_ref t a) (D a)" and "tree_ok t"
  shows "pairs_of (fdr_key r) acc' \<subseteq> pairs_of (fdr_key r) acc
      \<union> (\<Union>a \<in> {a \<in> set frs. fr_message_id (t_ref t a) \<notin> set shared}. file_messages (fdr_key r) (t_ref t a) (D a))"
    and "tree_ok t'" and "t_dir t' = t_dir t" and "t_next t' = t_next t"
    and "\<And>b. fr_location (t_ref t' b) = fr_location (t_ref t b)"
  using assms
proof (induction frs arbitrary: acc vids t)
  case Nil
  { case 1 then show ?case by simp }
  { case 2 then show ?case by simp }
  { case 3 then show ?case by simp }
  { case 4 then show ?case by simp }
  { case 5 then show ?case by simp }
next
  case (Cons a frs)
  let ?key = "fdr_key r"
  have main: "pairs_of ?key acc' \<subseteq> pairs_of ?key acc
      \<union> (\<Union>x \<in> {x \<in> set (a # frs). fr_message_id (t_ref t x) \<notin> set shared}. file_messages ?key (t_ref t x) (D x))
      \<and> tree_ok t' \<and> t_dir t' = t_dir t \<and> t_next t' = t_next t \<and> (\<forall>b. fr_location (t_ref t' b) = fr_location (t_ref t b))"
    if pr: "collect_loop ask r now shared (a # frs) (acc, vids, t) = (acc', vids', t')" "distinct (a # frs)"
      "\<forall>x \<in> set (a # frs). fr_message_id (t_ref t x) \<notin> set shared \<longrightarrow> described ask r (t_ref t x) (D x)" "tree_ok t"
    for acc vids t
  proof (cases "fr_message_id (t_ref t a) \<in> set shared")
    case True
    obtain ids ms where acc: "acc = (ids, ms)" by force
    have rest: "collect_loop ask r now shared frs (acc, vids, t) = (acc', vids', t')" using pr(1) True by (simp add: acc)
    note IH = Cons.IH [OF rest]
    have "distinct frs" "\<forall>x \<in> set frs. fr_message_id (t_ref t x) \<notin> set shared \<longrightarrow> described ask r (t_ref t x) (D x)" using pr by auto
    note IH = IH [OF this pr(4)]
    have "{x \<in> set frs. fr_message_id (t_ref t x) \<notin> set shared} = {x \<in> set (a # frs). fr_message_id (t_ref t x) \<notin> set shared}"
      using True by auto
    then show ?thesis using IH by simp
  next
    case False
    obtain ids ms where acc: "acc = (ids, ms)" by force
    obtain fi fm fv t1 where c: "collect_all_message_ids ask r now a t = ((fi, fm), fv, t1)" by (metis prod_cases3 surj_pair)
    have "described ask r (t_ref t a) (D a)" using pr(3) False by simp
    note all = collect_all_pairs [OF this c]
    let ?acc = "(ids @ fi, fold (\<lambda>(k, mids). dict_extend k mids) fm ms)"
    have rest: "collect_loop ask r now shared frs (?acc, vids @ fv, t1) = (acc', vids', t')" using pr(1) False c by (simp add: acc)
    have t1: "t1 = upd_ref a (fr_relocate ?key) t" using all(2) False by simp
    have same: "t_ref t1 x = t_ref t x" if "x \<in> set frs" for x using that pr(2) t1 by auto
    have loc: "fr_location (t_ref t1 x) = fr_location (t_ref t x)" for x
      by (auto simp: t1 fr_relocate_def Let_def split: option.splits)
    have "entries (fold (\<lambda>(k, mids). dict_extend k mids) fm ms) = entries ms \<union> entries fm"
      using entries_fold_extend [of "\<lambda>x. x" fm ms] by (simp add: entries_def)
    then have acc1: "pairs_of ?key ?acc = pairs_of ?key acc \<union> pairs_of ?key (fi, fm)" by (auto simp: pairs_of_def acc)
    have d: "distinct frs" "\<forall>x \<in> set frs. fr_message_id (t_ref t1 x) \<notin> set shared \<longrightarrow> described ask r (t_ref t1 x) (D x)"
      using pr(2,3) same by auto
    have ok: "tree_ok t1" unfolding t1 by (rule upd_relocate_ok [OF pr(4)])
    note IH = Cons.IH [OF rest d ok]
    have s1: "(\<Union>x \<in> {x \<in> set frs. fr_message_id (t_ref t1 x) \<notin> set shared}. file_messages ?key (t_ref t1 x) (D x))
        \<subseteq> (\<Union>x \<in> {x \<in> set (a # frs). fr_message_id (t_ref t x) \<notin> set shared}. file_messages ?key (t_ref t x) (D x))"
      using same by fastforce
    have s2: "pairs_of ?key (fi, fm) \<subseteq> (\<Union>x \<in> {x \<in> set (a # frs). fr_message_id (t_ref t x) \<notin> set shared}. file_messages ?key (t_ref t x) (D x))"
      using all(1) False by auto
    have all_sub: "pairs_of ?key acc' \<subseteq> pairs_of ?key acc
      \<union> (\<Union>x \<in> {x \<in> set (a # frs). fr_message_id (t_ref t x) \<notin> set shared}. file_messages ?key (t_ref t x) (D x))"
      by (rule sub_chain [OF _ s1 s2]) (use IH(1) acc1 in simp)
    have "t_dir t1 = t_dir t" "t_next t1 = t_next t" by (simp_all add: t1)
    then have tree: "t_dir t' = t_dir t" "t_next t' = t_next t" "\<forall>b. fr_location (t_ref t' b) = fr_location (t_ref t b)" using IH(3-5) loc by simp_all
    show ?thesis by (intro conjI all_sub IH(2) tree)
  qed
  { case 1 show ?case using main [OF 1] by (elim conjE) }
  { case 2 show ?case using main [OF 2] by (elim conjE) }
  { case 3 show ?case using main [OF 3] by (elim conjE) }
  { case 4 show ?case using main [OF 4] by (elim conjE) }
  { case 5 show ?case using main [OF 5] by (elim conjE allE) }
qed

lemma requests_of_mirrors: "(k, ids) \<in> set (snd (mirror_delete del r d)) \<Longrightarrow> (k, ids) \<in> set d"
  by (induction d) (auto split: if_splits sum.splits prod.splits)

lemma delete_messages_pairs:
  assumes "(k, ids) \<in> set (snd (delete_messages del r acc))" and "i \<in> set ids"
  shows "(k, i) \<in> pairs_of (fdr_key r) acc"
proof -
  obtain own ms where acc: "acc = (own, ms)" by force
  have "(k, ids) = (fdr_key r, own) \<or> (k, ids) \<in> set (snd (mirror_delete del r ms))"
    using assms(1) by (auto simp: delete_messages_def acc split: sum.splits prod.splits if_splits)
  then show ?thesis using assms(2) requests_of_mirrors [of k ids del r ms] by (auto simp: pairs_of_def acc entries_def)
qed

section \<open>The files of a subtree\<close>

lemma below_linear: "below t a x \<Longrightarrow> below t b x \<Longrightarrow> below t a b \<or> below t b a"
  by (induction rule: below.induct) (auto elim: belowE intro: below.intros)

text \<open>\<open>a\<close> is a file of the subtree of \<open>d\<close>.\<close>

definition file_in :: "fstree \<Rightarrow> nat \<Rightarrow> nat \<Rightarrow> bool" where
  "file_in t d a \<longleftrightarrow> (\<exists>x. reaches t d x \<and> a \<in> set (items t x))"

lemma file_in_iff: "file_in t d a \<longleftrightarrow> a \<in> set (items t d) \<or> (\<exists>c \<in> set (d_children (t_dir t d)). file_in t c a)"
  unfolding file_in_def by (auto elim: reachesE intro: reaches.intros)

lemma those_Some: "those (map f xs) = Some ys \<longleftrightarrow> map f xs = map Some ys"
proof (induction xs arbitrary: ys)
  case (Cons x xs)
  then show ?case by (cases "f x"; cases ys) (auto simp: Cons.IH)
qed auto

lemma iter_refs_set: "iter_refs n t d = Some xs \<Longrightarrow> set xs = {a. file_in t d a}"
proof (induction n arbitrary: d xs)
  case (Suc n)
  let ?cs = "d_children (t_dir t d)"
  obtain kids where kids: "map (iter_refs n t) ?cs = map Some kids" "xs = items t d @ concat kids"
    using Suc.prems by (auto simp: those_Some find_dirs_def find_files_def)
  have len: "length kids = length ?cs" using arg_cong [OF kids(1), of length] by simp
  have nth: "iter_refs n t (?cs ! i) = Some (kids ! i)" if "i < length ?cs" for i
    using arg_cong [OF kids(1), of "\<lambda>xs. xs ! i"] that len by simp
  have "set (concat kids) = (\<Union>i < length ?cs. set (kids ! i))" by (force simp: in_set_conv_nth len)
  also have "\<dots> = (\<Union>i < length ?cs. {a. file_in t (?cs ! i) a})" using Suc.IH [OF nth] by simp
  also have "\<dots> = {a. \<exists>c \<in> set ?cs. file_in t c a}" by (force simp: in_set_conv_nth)
  finally show ?case using kids(2) file_in_iff [of t d] by auto
qed simp

lemma siblings_apart:
  assumes ok: "tree_ok t" and c: "c \<in> set (d_children (t_dir t d))" "c' \<in> set (d_children (t_dir t d))" "c \<noteq> c'" and a: "file_in t c a"
  shows "\<not> file_in t c' a"
proof
  assume a': "file_in t c' a"
  obtain x where x: "below t c x" "a \<in> set (items t x)" using a reaches_below [OF ok] by (auto simp: file_in_def)
  obtain y where y: "below t c' y" "a \<in> set (items t y)" using a' reaches_below [OF ok] by (auto simp: file_in_def)
  have p: "d_parent (t_dir t c) = Some d" "d_parent (t_dir t c') = Some d" using tree_ok_dir(3) [OF ok] c by blast+
  have no: "\<not> below t u v" if "d_parent (t_dir t u) = Some d" "d_parent (t_dir t v) = Some d" "u \<noteq> v" for u v
  proof
    assume "below t u v"
    then have "below t u d" using that by (auto elim: belowE)
    moreover have "below t d u" using that by (auto intro: below.intros)
    moreover have "u \<noteq> d" using parent_neq [OF tree_okD(1) [OF ok], of d] that by auto
    ultimately show False using below_antisym [OF tree_okD(1) [OF ok], of d u] by blast
  qed
  have "x = y" using tree_ok_dir(6) [OF ok] x(2) y(2) by metis
  then show False using below_linear [OF x(1), of c'] y(1) no p c(3) by metis
qed

lemma distinct_concat_apart:
  assumes "\<And>i. i < length xss \<Longrightarrow> distinct (xss ! i)"
    and "\<And>i j. i < length xss \<Longrightarrow> j < length xss \<Longrightarrow> i \<noteq> j \<Longrightarrow> set (xss ! i) \<inter> set (xss ! j) = {}"
  shows "distinct (concat xss)"
  using assms
proof (induction xss)
  case (Cons xs xss)
  have "distinct (concat xss)"
    by (rule Cons.IH) (use Cons.prems(1) [of "Suc i" for i] Cons.prems(2) [of "Suc i" "Suc j" for i j] in auto)
  moreover have "set xs \<inter> set (xss ! i) = {}" if "i < length xss" for i using Cons.prems(2) [of 0 "Suc i"] that by simp
  moreover have "distinct xs" using Cons.prems(1) [of 0] by simp
  ultimately show ?case by (fastforce simp: in_set_conv_nth)
qed simp

lemma iter_refs_distinct:
  assumes ok: "tree_ok t"
  shows "iter_refs n t d = Some xs \<Longrightarrow> distinct xs"
proof (induction n arbitrary: d xs)
  case (Suc n)
  let ?cs = "d_children (t_dir t d)"
  obtain kids where kids: "map (iter_refs n t) ?cs = map Some kids" "xs = items t d @ concat kids"
    using Suc.prems by (auto simp: those_Some find_dirs_def find_files_def)
  have len: "length kids = length ?cs" using arg_cong [OF kids(1), of length] by simp
  have nth: "iter_refs n t (?cs ! i) = Some (kids ! i)" if "i < length ?cs" for i
    using arg_cong [OF kids(1), of "\<lambda>xs. xs ! i"] that len by simp
  have own: "distinct (items t d)" using tree_ok_dir(5) [OF ok, of d] by (simp add: distinct_map)
  have dc: "distinct ?cs" using tree_ok_dir(2) [OF ok, of d] by (simp add: distinct_map)
  have kid: "distinct (kids ! i)" "set (kids ! i) = {a. file_in t (?cs ! i) a}" if "i < length ?cs" for i
    using Suc.IH [OF nth [OF that]] iter_refs_set [OF nth [OF that]] by simp_all
  have apart: "set (kids ! i) \<inter> set (kids ! j) = {}" if "i < length ?cs" "j < length ?cs" "i \<noteq> j" for i j
    using siblings_apart [OF ok, of "?cs ! i" d "?cs ! j"] that dc by (auto simp: kid nth_eq_iff_index_eq)
  have "distinct (concat kids)"
    by (rule distinct_concat_apart) (use kid(1) apart len in auto)
  moreover have "a \<notin> set (concat kids)" if "a \<in> set (items t d)" for a
  proof
    assume "a \<in> set (concat kids)"
    then obtain i where "i < length ?cs" "a \<in> set (kids ! i)" by (metis in_set_conv_nth len set_concat UN_E)
    then have i: "i < length ?cs" "file_in t (?cs ! i) a" by (simp_all add: kid)
    let ?c = "?cs ! i"
    have c: "?c \<in> set ?cs" using i(1) by simp
    obtain x where x: "below t ?c x" "a \<in> set (items t x)" using i(2) reaches_below [OF ok] by (auto simp: file_in_def)
    have "x = d" using tree_ok_dir(6) [OF ok] x(2) that by metis
    moreover have p: "d_parent (t_dir t ?c) = Some d" using tree_ok_dir(3) [OF ok c] .
    moreover have "below t d ?c" using p by (auto intro: below.intros)
    moreover have "?c \<noteq> d" using parent_neq [OF tree_okD(1) [OF ok], of d] p by auto
    ultimately show False using below_antisym [OF tree_okD(1) [OF ok], of ?c d] x(1) by blast
  qed
  ultimately show ?case using kids(2) own by auto
qed simp

section \<open>Removals spare other files\<close>

lemma iter_file_refs_files:
  assumes "tree_ok t" and "d < t_next t"
  obtains frs where "iter_file_refs t d = Some frs" and "set frs = {a. file_in t d a}" and "distinct frs"
  using iter_file_refs_total [OF assms] iter_refs_set [of "t_next t" t d] iter_refs_distinct [OF assms(1), of "t_next t" d]
  unfolding iter_file_refs_def by blast

text \<open>Another file of the tree, not among \<open>frs\<close>, has the descriptor of \<open>a\<close>.\<close>

definition shared_outside :: "fstree \<Rightarrow> nat \<Rightarrow> nat set \<Rightarrow> nat \<Rightarrow> bool" where
  "shared_outside t root frs a \<longleftrightarrow> 0 < fr_message_id (t_ref t a)
     \<and> (\<exists>b. file_in t root b \<and> b \<notin> frs \<and> fr_message_id (t_ref t b) = fr_message_id (t_ref t a))"

lemma collect_deletable_pairs:
  assumes ok: "tree_ok t" and root: "root < t_next t" and "distinct frs"
    and desc: "\<forall>a \<in> set frs. described ask r (t_ref t a) (D a)"
  shows "\<exists>acc vids t'. collect_deletable ask r now root frs t = Some (acc, vids, t')
    \<and> (\<forall>(k, i) \<in> pairs_of (fdr_key r) acc. \<exists>a \<in> set frs. \<not> shared_outside t root (set frs) a \<and> (k, i) \<in> file_messages (fdr_key r) (t_ref t a) (D a))
    \<and> tree_ok t' \<and> t_dir t' = t_dir t \<and> t_next t' = t_next t \<and> (\<forall>b. fr_location (t_ref t' b) = fr_location (t_ref t b))"
proof -
  obtain xs where xs: "iter_file_refs t root = Some xs" "set xs = {a. file_in t root a}" by (rule iter_file_refs_files [OF ok root])
  let ?shared = "referenced_elsewhere t xs frs"
  have shared: "fr_message_id (t_ref t a) \<in> set ?shared \<longleftrightarrow> shared_outside t root (set frs) a" for a
    by (auto simp: referenced_elsewhere_def shared_outside_def xs(2) intro: rev_image_eqI)
  obtain acc vids t' where loop: "collect_loop ask r now ?shared frs (([], []), [], t) = (acc, vids, t')" by (metis prod_cases3)
  have "\<forall>a \<in> set frs. fr_message_id (t_ref t a) \<notin> set ?shared \<longrightarrow> described ask r (t_ref t a) (D a)" using desc by blast
  note p = collect_loop_pairs [OF loop assms(3) this ok]
  have "pairs_of (fdr_key r) ([], []) = {}" by (simp add: pairs_of_def entries_simps)
  then have "x \<in> (\<Union>a \<in> {a \<in> set frs. \<not> shared_outside t root (set frs) a}. file_messages (fdr_key r) (t_ref t a) (D a))"
    if "x \<in> pairs_of (fdr_key r) acc" for x
    using subsetD [OF p(1) that] by (simp only: shared Un_empty_left)
  then have "\<forall>(k, i) \<in> pairs_of (fdr_key r) acc. \<exists>a \<in> set frs. \<not> shared_outside t root (set frs) a \<and> (k, i) \<in> file_messages (fdr_key r) (t_ref t a) (D a)"
    by (auto simp del: Un_iff)
  moreover have "collect_deletable ask r now root frs t = Some (acc, vids, t')" using loop by (simp add: collect_deletable_def xs(1))
  ultimately show ?thesis using p(2-5) by (intro exI conjI allI)
qed

text \<open>C20: Removing a file asks the stores to delete only messages of this very file, each in the store
  that holds it: its descriptor with the copies of it and the parts of its versions with theirs.
  When another file of the tree has the same descriptor, or the metadata without the file could
  not be written, no message is deleted at all. The tree stays well formed and the file is out of it.
\<close>

theorem rm_file_spares_others:
  assumes "tree_ok t" and "root < t_next t" and "a \<in> set (items t (fr_location (t_ref t a)))" and "described ask r (t_ref t a) fd"
  shows "\<exists>x. rm_file ask r now del push root a t = Some x
    \<and> (\<forall>(k, ids) \<in> set (rm_requests x). \<forall>i \<in> set ids. (k, i) \<in> file_messages (fdr_key r) (t_ref t a) fd
         \<and> \<not> isl push \<and> \<not> shared_outside t root {a} a)
    \<and> tree_ok (rm_tree x) \<and> a \<notin> set (items (rm_tree x) (fr_location (t_ref t a)))"
proof -
  let ?d = "fr_location (t_ref t a)"
  obtain acc vids t' where c: "collect_deletable ask r now root [a] t = Some (acc, vids, t')"
      "\<forall>(k, i) \<in> pairs_of (fdr_key r) acc. \<not> shared_outside t root {a} a \<and> (k, i) \<in> file_messages (fdr_key r) (t_ref t a) fd"
      "tree_ok t'" "t_dir t' = t_dir t" "fr_location (t_ref t' a) = ?d"
    using collect_deletable_pairs [OF assms(1,2), of "[a]" ask r "\<lambda>_. fd" now] assms(4) by auto
  have "a \<in> set (items t' ?d)" using assms(3) c(4) by (simp add: items_def)
  then obtain t2 where t2: "fr_delete now a t' = Inr t2" "tree_ok t2" "items t2 ?d = remove1 a (items t' ?d)"
    using delete_file_ref_ok [OF c(3), of a ?d now] by (auto simp: fr_delete_def c(5))
  have "distinct (items t' ?d)" using tree_ok_dir(5) [OF c(3), of ?d] by (simp add: distinct_map)
  then have gone: "a \<notin> set (items t2 ?d)" by (simp add: t2(3))
  obtain res reqs where del: "delete_messages del r acc = (res, reqs)" by force
  have own: "(k, i) \<in> pairs_of (fdr_key r) acc" if "(k, ids) \<in> set reqs" "i \<in> set ids" for k ids i
    using delete_messages_pairs [of k ids del r acc i] that by (simp add: del)
  show ?thesis
  proof (cases push)
    case (Inl ex)
    then show ?thesis using c(1) t2 gone by (simp add: rm_file_def)
  next
    case (Inr u)
    then show ?thesis using c(1,2) t2 gone del own by (fastforce simp: rm_file_def)
  qed
qed

text \<open>A file whose descriptor is in the primary and one version of which is mirrored.\<close>

definition f_desc :: file_desc where
  "f_desc = example_desc\<lparr>fd_name := ''f''\<rparr>"

definition f_msgs :: "version_ser list \<Rightarrow> string \<Rightarrow> int \<Rightarrow> fd_msg option" where
  "f_msgs ds key mid = (if key = ''tg:-1'' \<and> mid = 77 then Some \<lparr>fm_id = mid, fm_text = Some (Json ds), fm_document = None\<rparr> else None)"

lemma example_ref_tree_dirs: "d_children (t_dir example_ref_tree 1) = []" "fr_location (t_ref example_ref_tree 3) = 1"
  "fr_store (t_ref example_ref_tree 3) = None" "fr_name (t_ref example_ref_tree 3) = ''f''"
  using create_file_ref_ok [OF example_tree_ok(1) _ example_ref_tree_created] example_tree_dirs(4) by (simp_all add: example_tree_ok(2))

lemma f_described:
  obtains ds where "fd_to_dict example_desc = Inr ds"
    and "described (answers (\<lambda>_. None) (f_msgs ds)) mirror_repo (t_ref example_ref_tree 3) f_desc"
proof -
  obtain ds where ds: "fd_to_dict example_desc = Inr ds"
    using fd_reload_eq [OF example_desc_wf, of "Naive 0"] by (auto simp: fd_reload_def rbind_Inr_iff)
  have wf: "fd_wf f_desc" using example_desc_wf by (simp add: fd_wf_def f_desc_def validate_name_def)
  have "fd_to_dict f_desc = Inr ds" using ds by (simp add: fd_to_dict_def get_versions_def f_desc_def)
  moreover have "fst (get_fd_text (answers (\<lambda>_. None) (f_msgs ds)) mirror_repo (t_ref example_ref_tree 3)) = Some (Json ds)"
    by (simp add: get_fd_text_def fr_owned_by_def answers_def f_msgs_def mirror_repo_def example_ref_tree_dirs example_ref_tree_ok Let_def)
  moreover have "fr_relocate (fdr_key mirror_repo) (t_ref example_ref_tree 3) = t_ref example_ref_tree 3"
    by (simp add: fr_relocate_def fr_owned_by_def example_ref_tree_dirs)
  ultimately have "described (answers (\<lambda>_. None) (f_msgs ds)) mirror_repo (t_ref example_ref_tree 3) f_desc"
    using wf by (simp add: described_def example_ref_tree_dirs) (simp add: f_desc_def)
  with ds show thesis by (rule that)
qed

theorem rm_file_spares_others_witness:
  "\<exists>ds x. fd_to_dict example_desc = Inr ds
    \<and> rm_file (answers (\<lambda>_. None) (f_msgs ds)) mirror_repo (Naive 4) (\<lambda>_ _. Inr ()) (Inr ()) 0 3 example_ref_tree = Some x
    \<and> tree_ok (rm_tree x) \<and> 3 \<notin> set (items (rm_tree x) 1)"
proof -
  obtain ds where ds: "fd_to_dict example_desc = Inr ds" "described (answers (\<lambda>_. None) (f_msgs ds)) mirror_repo (t_ref example_ref_tree 3) f_desc"
    by (rule f_described)
  have "3 \<in> set (items example_ref_tree (fr_location (t_ref example_ref_tree 3)))" "0 < t_next example_ref_tree"
    by (simp_all add: example_ref_tree_dirs example_ref_tree_ok del: One_nat_def)
  from rm_file_spares_others [OF example_ref_tree_ok(1) this(2,1) ds(2), of "Naive 4" "\<lambda>_ _. Inr ()" "Inr ()"] ds(1)
  show ?thesis by (auto simp: example_ref_tree_dirs simp del: One_nat_def)
qed

text \<open>C21: Removing a directory with all it holds asks the stores to delete only messages of the
  files below it, each in the store that holds it, and none of a file whose descriptor a file elsewhere
  in the tree has too; nothing at all when the metadata could not be written. The tree stays well formed.
\<close>

theorem rm_dangerously_spares_outside:
  assumes "tree_ok t" and "root < t_next t" and "d < t_next t" and "\<forall>a. file_in t d a \<longrightarrow> described ask r (t_ref t a) (D a)"
  shows "\<exists>x. rm_dangerously ask r now del push root d t = Some x
    \<and> (\<forall>(k, ids) \<in> set (rm_requests x). \<forall>i \<in> set ids. \<not> isl push
         \<and> (\<exists>a. file_in t d a \<and> (k, i) \<in> file_messages (fdr_key r) (t_ref t a) (D a) \<and> \<not> shared_outside t root {a. file_in t d a} a))
    \<and> tree_ok (rm_tree x)"
proof -
  obtain frs where frs: "iter_file_refs t d = Some frs" "set frs = {a. file_in t d a}" "distinct frs"
    by (rule iter_file_refs_files [OF assms(1,3)])
  obtain acc vids t' where c: "collect_deletable ask r now root frs t = Some (acc, vids, t')"
      "\<forall>(k, i) \<in> pairs_of (fdr_key r) acc. \<exists>a \<in> set frs. \<not> shared_outside t root (set frs) a \<and> (k, i) \<in> file_messages (fdr_key r) (t_ref t a) (D a)"
      "tree_ok t'"
    using collect_deletable_pairs [OF assms(1,2) frs(3), of ask r D now] assms(4) by (auto simp: frs(2))
  have ok: "tree_ok (delete_dir now d t')" by (rule delete_dir_ok [OF c(3)])
  obtain res reqs where del: "delete_messages del r acc = (res, reqs)" by force
  have own: "\<exists>a. file_in t d a \<and> (k, i) \<in> file_messages (fdr_key r) (t_ref t a) (D a) \<and> \<not> shared_outside t root {a. file_in t d a} a"
    if "(k, ids) \<in> set reqs" "i \<in> set ids" for k ids i
    using delete_messages_pairs [of k ids del r acc i] that c(2) by (auto simp: del frs(2))
  show ?thesis
  proof (cases push)
    case (Inl ex)
    then show ?thesis using c(1) ok frs(1) by (simp add: rm_dangerously_def)
  next
    case (Inr u)
    have "\<forall>(k, ids) \<in> set reqs. \<forall>i \<in> set ids. \<exists>a. file_in t d a \<and> (k, i) \<in> file_messages (fdr_key r) (t_ref t a) (D a)
      \<and> \<not> shared_outside t root {a. file_in t d a} a" using own by (auto split: prod.splits)
    with Inr c(1) ok frs(1) del show ?thesis by (simp add: rm_dangerously_def)
  qed
qed

theorem rm_dangerously_spares_outside_witness:
  "\<exists>ds x. fd_to_dict example_desc = Inr ds
    \<and> rm_dangerously (answers (\<lambda>_. None) (f_msgs ds)) mirror_repo (Naive 4) (\<lambda>_ _. Inr ()) (Inr ()) 0 1 example_ref_tree = Some x
    \<and> tree_ok (rm_tree x)"
proof -
  obtain ds where ds: "fd_to_dict example_desc = Inr ds" "described (answers (\<lambda>_. None) (f_msgs ds)) mirror_repo (t_ref example_ref_tree 3) f_desc"
    by (rule f_described)
  have "\<forall>a. file_in example_ref_tree 1 a \<longrightarrow> described (answers (\<lambda>_. None) (f_msgs ds)) mirror_repo (t_ref example_ref_tree a) f_desc"
    using ds(2) file_in_iff [of example_ref_tree 1] by (simp add: example_ref_tree_dirs example_ref_tree_ok del: One_nat_def)
  moreover have "0 < t_next example_ref_tree" "1 < t_next example_ref_tree" by (simp_all add: example_ref_tree_ok)
  ultimately show ?thesis
    using rm_dangerously_spares_outside [OF example_ref_tree_ok(1), of 0 1 _ mirror_repo "\<lambda>_. f_desc" "Naive 4" "\<lambda>_ _. Inr ()" "Inr ()"] ds(1)
    by blast
qed

section \<open>Two files of one descriptor\<close>

text \<open>What is collected is requested, from every store of the group, unless a store fails.\<close>

lemma mirror_delete_all:
  "(k, ids) \<in> set d \<Longrightarrow> ids \<noteq> [] \<Longrightarrow> fd_store_for r k \<Longrightarrow> (k, ids) \<in> set (snd (mirror_delete (\<lambda>_ _. Inr ()) r d))"
  by (induction d) (auto split: prod.splits)

lemma delete_messages_all:
  assumes "(k, i) \<in> pairs_of (fdr_key r) acc" and "k = fdr_key r \<and> i \<in> set (fst acc) \<or> fd_store_for r k"
  shows "\<exists>ids. (k, ids) \<in> set (snd (delete_messages (\<lambda>_ _. Inr ()) r acc)) \<and> i \<in> set ids"
proof -
  obtain own ms where acc: "acc = (own, ms)" by force
  obtain res reqs where m: "mirror_delete (\<lambda>_ _. Inr ()) r ms = (res, reqs)" by force
  consider "k = fdr_key r" "i \<in> set own" | ids where "(k, ids) \<in> set ms" "i \<in> set ids" "fd_store_for r k"
    using assms by (auto simp: pairs_of_def entries_def acc)
  then show ?thesis
  proof cases
    case 1
    then show ?thesis by (auto simp: delete_messages_def acc m split: prod.splits)
  next
    case 2
    have "fdr_mirrors r \<noteq> None" using 2(3) by (simp add: fd_store_for_def)
    moreover have "ids \<noteq> []" using 2(2) by auto
    then have "(k, ids) \<in> set reqs" using mirror_delete_all [OF 2(1) _ 2(3)] m by simp
    ultimately show ?thesis using 2(2) by (auto simp: delete_messages_def acc m)
  qed
qed

lemma fold_collect_mono:
  assumes "\<And>v acc. set (fst acc) \<subseteq> set (fst (f v acc)) \<and> entries (snd acc) \<subseteq> entries (snd (f v acc))"
  shows "set (fst acc) \<subseteq> set (fst (fold f vs acc)) \<and> entries (snd acc) \<subseteq> entries (snd (fold f vs acc))"
proof (induction vs arbitrary: acc)
  case (Cons v vs)
  show ?case using Cons.IH [of "f v acc"] assms [of acc v] by simp (meson order_trans)
qed simp

lemma collect_version_mono:
  "set (fst acc) \<subseteq> set (fst (collect_version_ids key v acc)) \<and> entries (snd acc) \<subseteq> entries (snd (collect_version_ids key v acc))"
proof -
  obtain ids ms where acc: "acc = (ids, ms)" by force
  let ?o = "positive (fv_message_ids v)"
  define acc1 where "acc1 = (if fv_owned_by v key then (ids @ ?o, ms)
    else case fv_store v of Some s \<Rightarrow> (ids, if s = [] then ms else dict_extend s ?o ms) | None \<Rightarrow> (ids, ms))"
  define acc2 where "acc2 = (fst acc1, fold (\<lambda>(k, mids). dict_extend k (positive mids)) (fv_mirrors v) (snd acc1))"
  have "set (fst acc) \<subseteq> set (fst acc2) \<and> entries (snd acc) \<subseteq> entries (snd acc2)"
    by (auto simp: acc acc1_def acc2_def entries_fold_extend split: option.splits)
  moreover have "set (fst acc2) \<subseteq> set (fst (fold (collect_replica key) (fv_replicas v) acc2))
      \<and> entries (snd acc2) \<subseteq> entries (snd (fold (collect_replica key) (fv_replicas v) acc2))"
    by (rule fold_collect_mono) (auto simp: collect_replica_def split: prod.splits)
  moreover have "collect_version_ids key v acc = fold (collect_replica key) (fv_replicas v) acc2"
    by (simp add: collect_version_ids_def collect_replica_def acc acc1_def acc2_def Let_def split: prod.splits)
  ultimately show ?thesis by simp (meson order_trans)
qed

lemma collect_all_keeps_ref:
  assumes "collect_all_message_ids ask r now a t = (acc, vids, t')" and "fr_owned_by (t_ref t a) (fdr_key r)"
  shows "set (fst (collect_ref_ids (fdr_key r) (t_ref t a) ([], []))) \<subseteq> set (fst acc)"
    and "entries (snd (collect_ref_ids (fdr_key r) (t_ref t a) ([], []))) \<subseteq> entries (snd acc)"
proof -
  obtain fd fr dead where get: "fd_get ask r now False True (t_ref t a) = (fd, fr, dead)" by (metis prod_cases3)
  have fr: "fr = t_ref t a" using fd_get_ref [OF get] assms(2) by (auto simp: fr_relocate_def split: option.splits)
  let ?acc = "collect_ref_ids (fdr_key r) (t_ref t a) ([], [])"
  have mono: "set (fst ?acc) \<subseteq> set (fst (fold (collect_version_ids (fdr_key r)) vs ?acc))
      \<and> entries (snd ?acc) \<subseteq> entries (snd (fold (collect_version_ids (fdr_key r)) vs ?acc))" for vs
    by (rule fold_collect_mono [OF collect_version_mono])
  show "set (fst (collect_ref_ids (fdr_key r) (t_ref t a) ([], []))) \<subseteq> set (fst acc)"
    "entries (snd (collect_ref_ids (fdr_key r) (t_ref t a) ([], []))) \<subseteq> entries (snd acc)"
    using assms(1) get mono by (cases fd; simp add: collect_all_message_ids_def fr Let_def; fastforce)+
qed

lemma file_in_cong:
  assumes "\<And>x. d_children (t_dir t' x) = d_children (t_dir t x)" and "\<And>x. b \<in> set (items t' x) \<longleftrightarrow> b \<in> set (items t x)"
  shows "file_in t' d b \<longleftrightarrow> file_in t d b"
proof -
  have "reaches t' d x \<longleftrightarrow> reaches t d x" for x
  proof
    show "reaches t' d x \<Longrightarrow> reaches t d x" by (induction rule: reaches.induct) (auto simp: assms(1) intro: reaches.intros)
    show "reaches t d x \<Longrightarrow> reaches t' d x" by (induction rule: reaches.induct) (auto simp: assms(1) [symmetric] intro: reaches.intros)
  qed
  then show ?thesis by (simp add: file_in_def assms(2))
qed

text \<open>C37: \<open>_descriptors_referenced_elsewhere\<close> compares message ids only, and a ref that was read after
  the promotion of another store has been relocated there, with the id of the copy. Of two old files that share
  one descriptor, one relocated and one not, removing the relocated one therefore deletes the
  descriptor of the other in every store that holds it, and the other is still in the tree.
\<close>

theorem relocated_twin_loses_messages:
  assumes "tree_ok t" and "root < t_next t" and "a \<in> set (items t (fr_location (t_ref t a)))" and "described ask r (t_ref t a) fd"
    and "file_in t root b" and "a \<noteq> b" and "\<forall>c. file_in t root c \<and> c \<noteq> a \<longrightarrow> fr_message_id (t_ref t c) \<noteq> fr_message_id (t_ref t a)"
    and "fr_owned_by (t_ref t a) (fdr_key r)" and "ref_messages (fdr_key r) (t_ref t b) = ref_messages (fdr_key r) (t_ref t a)"
  shows "\<exists>x. rm_file ask r now (\<lambda>_ _. Inr ()) (Inr ()) root a t = Some x \<and> file_in (rm_tree x) root b
    \<and> (\<forall>(k, i) \<in> ref_messages (fdr_key r) (t_ref t b). 0 < i \<and> fd_store_for r k
         \<longrightarrow> (\<exists>ids. (k, ids) \<in> set (rm_requests x) \<and> i \<in> set ids))"
proof -
  let ?d = "fr_location (t_ref t a)" and ?key = "fdr_key r"
  obtain xs where xs: "iter_file_refs t root = Some xs" "set xs = {a. file_in t root a}" by (rule iter_file_refs_files [OF assms(1,2)])
  have "fr_message_id (t_ref t a) \<notin> set (referenced_elsewhere t xs [a])" using assms(7) by (auto simp: referenced_elsewhere_def xs(2))
  moreover obtain fi fm vids t1 where c: "collect_all_message_ids ask r now a t = ((fi, fm), vids, t1)" by (metis prod_cases3 surj_pair)
  moreover define ms where "ms = fold (\<lambda>(k, mids). dict_extend k mids) fm []"
  ultimately have all: "collect_deletable ask r now root [a] t = Some ((fi, ms), vids, t1)" by (simp add: collect_deletable_def xs(1))
  have t1: "t1 = upd_ref a (fr_relocate ?key) t" by (rule collect_all_pairs(2) [OF assms(4) c])
  have ent: "entries ms = entries fm" using entries_fold_extend [of "\<lambda>x. x" fm "[]"] by (simp add: ms_def entries_def)
  have loc: "fr_location (t_ref t1 a) = ?d" by (auto simp: t1 fr_relocate_def Let_def split: option.splits)
  have ok: "tree_ok t1" unfolding t1 by (rule upd_relocate_ok [OF assms(1)])
  have "a \<in> set (items t1 ?d)" using assms(3) by (simp add: t1 items_def)
  then obtain t2 where t2: "fr_delete now a t1 = Inr t2" "\<forall>x. items t2 x = (if x = ?d then remove1 a (items t1 ?d) else items t1 x)
      \<and> d_children (t_dir t2 x) = d_children (t_dir t1 x)"
    using delete_file_ref_ok [OF ok, of a ?d now] by (auto simp: fr_delete_def loc)
  obtain res reqs where del: "delete_messages (\<lambda>_ _. Inr ()) r (fi, ms) = (res, reqs)" by force
  have "file_in t2 root b = file_in t root b"
    by (rule file_in_cong) (use t2(2) assms(6) in \<open>auto simp: t1 items_def in_set_remove1\<close>)
  moreover have "\<exists>ids. (k, ids) \<in> set reqs \<and> i \<in> set ids" if i: "(k, i) \<in> ref_messages ?key (t_ref t a)" "0 < i" "fd_store_for r k" for k i
  proof -
    note ref = collect_all_keeps_ref [OF c assms(8)]
    have "(k, i) \<in> pairs_of ?key (collect_ref_ids ?key (t_ref t a) ([], []))"
      using i(1,2) assms(8) by (auto simp: collect_ref_ids_def pairs_of_def ref_messages_def entries_merge fr_owned_by_def split: option.splits)
    then have "(k, i) \<in> pairs_of ?key (fi, ms)" using ref ent by (auto simp: pairs_of_def)
    from delete_messages_all [OF this] i(3) show ?thesis by (simp add: del)
  qed
  ultimately show ?thesis using all t2(1) del assms(5,9) by (auto simp: rm_file_def)
qed

text \<open>The file of the tree was relocated to the new primary, its twin in the other directory was not.\<close>

definition twin_tree :: fstree where
  "twin_tree = upd_ref 4 (\<lambda>fr. fr\<lparr>fr_store := Some ''tg:-7'', fr_mirrors := [(''tg:-1'', 77)]\<rparr>)
     (upd_ref 3 (\<lambda>fr. fr\<lparr>fr_store := Some ''tg:-1'', fr_mirrors := [(''tg:-7'', 5)]\<rparr>)
       (snd (projr (create_file_ref (Naive 4) ''g'' 5 2 example_ref_tree))))"

lemma twin_tree_ok:
  "tree_ok twin_tree" "t_next twin_tree = 5" "items twin_tree 1 = [3]" "items twin_tree 2 = [4]" "items twin_tree 0 = []"
  "d_children (t_dir twin_tree 0) = [1, 2]" "d_children (t_dir twin_tree 1) = []" "d_children (t_dir twin_tree 2) = []"
  "t_ref twin_tree 3 = \<lparr>fr_message_id = 77, fr_name = ''f'', fr_location = 1, fr_mirrors = [(''tg:-7'', 5)],
     fr_store = Some ''tg:-1'', fr_stat = None, fr_stat_epoch = 0\<rparr>"
  "t_ref twin_tree 4 = \<lparr>fr_message_id = 5, fr_name = ''g'', fr_location = 2, fr_mirrors = [(''tg:-1'', 77)],
     fr_store = Some ''tg:-7'', fr_stat = None, fr_stat_epoch = 0\<rparr>"
proof -
  define t0 where "t0 = snd (projr (create_file_ref (Naive 4) ''g'' 5 2 example_ref_tree))"
  have "find_files example_ref_tree 2 [''g''] = []" by (simp add: find_files_scan [OF example_ref_tree_ok(1)] example_ref_tree_ok)
  then have c4: "create_file_ref (Naive 4) ''g'' 5 2 example_ref_tree = Inr (4, t0)"
    by (simp add: t0_def create_file_ref_def attach_file_ref_def alloc_ref_def example_ref_tree_ok(6))
  have "2 < t_next example_ref_tree" "1 < t_next example_tree" by (simp_all add: example_ref_tree_ok example_tree_ok)
  note ok = create_file_ref_ok [OF example_ref_tree_ok(1) this(1) c4] create_file_ref_ok [OF example_tree_ok(1) this(2) example_ref_tree_created]
  have kid2: "d_children (t_dir example_tree 2) = []"
    by (simp add: example_tree_def create_dir_def empty_tree_def find_dirs_def new_dir_def validate_name_def alloc_dir_def Let_def touch_modified_def)
  have t0: "tree_ok t0" "t_next t0 = 5" "items t0 1 = [3]" "items t0 2 = [4]" "items t0 0 = []"
    "d_children (t_dir t0 0) = [1, 2]" "d_children (t_dir t0 1) = []" "d_children (t_dir t0 2) = []"
    using ok(1) [THEN conjunct1] ok(1) [THEN conjunct2, THEN conjunct2] ok(2) [THEN conjunct2, THEN conjunct2]
    by (simp_all add: example_tree_ok example_tree_items example_tree_dirs example_ref_tree_ok kid2 del: One_nat_def)
  have refs: "t_ref t0 3 = \<lparr>fr_message_id = 77, fr_name = ''f'', fr_location = 1, fr_mirrors = [], fr_store = None, fr_stat = None, fr_stat_epoch = 0\<rparr>"
    "t_ref t0 4 = \<lparr>fr_message_id = 5, fr_name = ''g'', fr_location = 2, fr_mirrors = [], fr_store = None, fr_stat = None, fr_stat_epoch = 0\<rparr>"
    using ok(1) [THEN conjunct2, THEN conjunct2] ok(2) [THEN conjunct2, THEN conjunct2] by (simp_all del: One_nat_def)
  have twin: "twin_tree = upd_ref 4 (\<lambda>fr. fr\<lparr>fr_store := Some ''tg:-7'', fr_mirrors := [(''tg:-1'', 77)]\<rparr>)
     (upd_ref 3 (\<lambda>fr. fr\<lparr>fr_store := Some ''tg:-1'', fr_mirrors := [(''tg:-7'', 5)]\<rparr>) t0)" by (simp add: twin_tree_def t0_def)
  show "tree_ok twin_tree" unfolding twin by (intro upd_ref_ok t0) simp_all
  have "items (upd_ref r f t) = items t" for r f t by (simp add: items_def fun_eq_iff)
  then show "t_next twin_tree = 5" "items twin_tree 1 = [3]" "items twin_tree 2 = [4]" "items twin_tree 0 = []"
    using t0 by (simp_all add: twin del: One_nat_def)
  show "d_children (t_dir twin_tree 0) = [1, 2]" "d_children (t_dir twin_tree 1) = []" "d_children (t_dir twin_tree 2) = []"
    "t_ref twin_tree 3 = \<lparr>fr_message_id = 77, fr_name = ''f'', fr_location = 1, fr_mirrors = [(''tg:-7'', 5)],
     fr_store = Some ''tg:-1'', fr_stat = None, fr_stat_epoch = 0\<rparr>"
    "t_ref twin_tree 4 = \<lparr>fr_message_id = 5, fr_name = ''g'', fr_location = 2, fr_mirrors = [(''tg:-1'', 77)],
     fr_store = Some ''tg:-7'', fr_stat = None, fr_stat_epoch = 0\<rparr>"
    using t0 refs by (simp_all add: twin del: One_nat_def)
qed

theorem relocated_twin_loses_messages_witness:
  "\<exists>ds x. fd_to_dict example_desc = Inr ds
    \<and> rm_file (answers (\<lambda>_. None) (f_msgs ds)) mirror_repo (Naive 5) (\<lambda>_ _. Inr ()) (Inr ()) 0 3 twin_tree = Some x
    \<and> file_in (rm_tree x) 0 4 \<and> (\<exists>ids. (''tg:-1'', ids) \<in> set (rm_requests x) \<and> 77 \<in> set ids)
    \<and> (\<exists>ids. (''tg:-7'', ids) \<in> set (rm_requests x) \<and> 5 \<in> set ids)"
proof -
  obtain ds where ds: "fd_to_dict example_desc = Inr ds"
    using fd_reload_eq [OF example_desc_wf, of "Naive 0"] by (auto simp: fd_reload_def rbind_Inr_iff)
  let ?ask = "answers (\<lambda>_. None) (f_msgs ds)"
  have files: "file_in twin_tree 0 c \<longleftrightarrow> c = 3 \<or> c = 4" for c
    by (simp add: file_in_iff [of twin_tree 0] file_in_iff [of twin_tree 1] file_in_iff [of twin_tree 2] twin_tree_ok del: One_nat_def)
  have "fd_wf f_desc" using example_desc_wf by (simp add: fd_wf_def f_desc_def validate_name_def)
  then have desc: "described ?ask mirror_repo (t_ref twin_tree 3) f_desc"
    using ds by (simp add: described_def twin_tree_ok fr_relocate_def fr_owned_by_def mirror_repo_def get_fd_text_def answers_def f_msgs_def Let_def)
      (simp add: f_desc_def fd_to_dict_def get_versions_def)
  have own: "fr_owned_by (t_ref twin_tree 3) (fdr_key mirror_repo)" by (simp add: twin_tree_ok fr_owned_by_def mirror_repo_def)
  have msgs: "ref_messages (fdr_key mirror_repo) (t_ref twin_tree 4) = {(''tg:-1'', 77), (''tg:-7'', 5)}"
    "ref_messages (fdr_key mirror_repo) (t_ref twin_tree 3) = {(''tg:-1'', 77), (''tg:-7'', 5)}"
    by (auto simp: twin_tree_ok ref_messages_def mirror_repo_def)
  have "fd_store_for mirror_repo ''tg:-1''" "fd_store_for mirror_repo ''tg:-7''" by (simp_all add: mirror_repo_def fd_store_for_def)
  moreover have "\<exists>x. rm_file ?ask mirror_repo (Naive 5) (\<lambda>_ _. Inr ()) (Inr ()) 0 3 twin_tree = Some x \<and> file_in (rm_tree x) 0 4
    \<and> (\<forall>(k, i) \<in> ref_messages (fdr_key mirror_repo) (t_ref twin_tree 4). 0 < i \<and> fd_store_for mirror_repo k
         \<longrightarrow> (\<exists>ids. (k, ids) \<in> set (rm_requests x) \<and> i \<in> set ids))"
    by (rule relocated_twin_loses_messages [OF twin_tree_ok(1) _ _ desc _ _ _ own]) (auto simp: files msgs simp del: One_nat_def, auto simp: twin_tree_ok simp del: One_nat_def)
  ultimately show ?thesis using ds by (auto simp: msgs)
qed

end
