(* ===== verification/MirrorCopy.thy ===== *)
theory MirrorCopy
  imports FDRepo Streams
begin

text \<open>
  How a mirror group copies content between stores (\<open>MirrorGroup\<close> in \<open>src/tgdcfs/core/mirror.py\<close>): aligned
  copies, one message per part, made by the backend or by streaming each part down and up again,
  and replicas, where the target cuts the stream of the whole version into parts of its own. The operations of
  the stores are the record \<open>copy_io\<close> over a world of the caller's choice; \<open>copy_laws\<close> is what their
  interface documents. \<open>lcl\<close> is the reader of a version's complete local copy, when there is one; that a
  download fills the local cache on the way is left out.
\<close>

section \<open>The group\<close>

datatype mirror_mode = Auto | Forward | Reupload

record mirror_group =
  mg_primary :: string
  mg_stores :: "string list"
  mg_mode :: mirror_mode
  mg_strict :: bool
  mg_backend :: "string \<Rightarrow> string"
  mg_caps :: "string \<Rightarrow> store_caps"

record 'w copy_io =
  cio_copy_from :: "string \<Rightarrow> string \<Rightarrow> int list \<Rightarrow> 'w \<Rightarrow> int list option res \<times> 'w"
  cio_messages :: "'w \<Rightarrow> ask"
  cio_download :: "'w \<Rightarrow> string \<Rightarrow> int \<Rightarrow> int \<Rightarrow> int \<Rightarrow> stream res"
  cio_upload :: "string \<Rightarrow> stream \<Rightarrow> int \<Rightarrow> 'w \<Rightarrow> sent_file_message list res \<times> 'w"

type_synonym version_reader = "int \<Rightarrow> int \<Rightarrow> stream"

record mirror_result =
  mr_mirrors :: "(string, int list) dict"
  mr_replicas :: "(string, replica) dict"

definition apply_to :: "mirror_result \<Rightarrow> file_version \<Rightarrow> file_version" where
  "apply_to res v = v\<lparr>fv_mirrors := dict_update_all (fv_mirrors v) (mr_mirrors res),
     fv_replicas := dict_update_all (fv_replicas v) (mr_replicas res)\<rparr>"

definition missing_stores :: "mirror_group \<Rightarrow> file_version \<Rightarrow> string list" where
  "missing_stores g v = filter (\<lambda>key. \<not> fv_has_copy_in v key) (mg_stores g)"

definition store_of :: "mirror_group \<Rightarrow> string \<Rightarrow> bool" where
  "store_of g key \<longleftrightarrow> key = mg_primary g \<or> key \<in> set (mg_stores g)"

definition fits_aligned :: "mirror_group \<Rightarrow> string \<Rightarrow> string \<Rightarrow> int list \<Rightarrow> bool" where
  "fits_aligned g target source sizes \<longleftrightarrow> mg_backend g target = mg_backend g source
     \<or> (if sizes = [] then 0 else Max (set sizes)) \<le> max_part_bytes (mg_caps g target)"

section \<open>Copying\<close>

fun sizes_of :: "(int \<times> fd_msg option) list \<Rightarrow> int list res" where
  "sizes_of [] = Inr []"
| "sizes_of ((mid, m) # rest) =
     (case Option.bind m fm_document of
        None \<Rightarrow> Inl (MessageNotFound mid)
      | Some n \<Rightarrow> rbind (sizes_of rest) (\<lambda>ns. Inr (n # ns)))"

definition lookup_part_sizes :: "'w copy_io \<Rightarrow> string \<Rightarrow> int list \<Rightarrow> 'w \<Rightarrow> int list res" where
  "lookup_part_sizes io source ids w = rbind (cio_messages io w source ids) (\<lambda>msgs. sizes_of (zip ids msgs))"

definition reupload_one ::
    "'w copy_io \<Rightarrow> string \<Rightarrow> string \<Rightarrow> int \<Rightarrow> (version_reader \<times> int \<times> int) option \<Rightarrow> 'w \<Rightarrow> int res \<times> 'w" where
  "reupload_one io target source mid local_range w =
     (case (case local_range of
              Some (lcl, b, e) \<Rightarrow> Inr (e - b + 1, lcl b e)
            | None \<Rightarrow> rbind (cio_messages io w source [mid]) (\<lambda>msgs. case msgs of
                  [] \<Rightarrow> Inl IndexError
                | m # _ \<Rightarrow> (case Option.bind m fm_document of
                      None \<Rightarrow> Inl (MessageNotFound mid)
                    | Some n \<Rightarrow> rbind (cio_download io w source mid 0 (n - 1)) (\<lambda>s. Inr (n, s))))) of
        Inl ex \<Rightarrow> (Inl ex, w)
      | Inr (n, s) \<Rightarrow>
          (case cio_upload io target s n w of
             (Inl ex, w) \<Rightarrow> (Inl ex, w)
           | (Inr sent, w) \<Rightarrow> (case sent of [m] \<Rightarrow> (Inr (sm_message_id m), w) | _ \<Rightarrow> (Inl TechnicalError, w))))"

fun reupload_all ::
    "'w copy_io \<Rightarrow> string \<Rightarrow> string \<Rightarrow> (int \<times> (version_reader \<times> int \<times> int) option) list \<Rightarrow> 'w \<Rightarrow> int list res \<times> 'w" where
  "reupload_all io target source [] w = (Inr [], w)"
| "reupload_all io target source ((mid, local_range) # rest) w =
     (case reupload_one io target source mid local_range w of
        (Inl ex, w) \<Rightarrow> (Inl ex, w)
      | (Inr i, w) \<Rightarrow>
          (case reupload_all io target source rest w of
             (Inl ex, w) \<Rightarrow> (Inl ex, w)
           | (Inr is, w) \<Rightarrow> (Inr (i # is), w)))"

fun local_ranges :: "version_reader \<Rightarrow> int \<Rightarrow> int list \<Rightarrow> (version_reader \<times> int \<times> int) option list" where
  "local_ranges lcl b [] = []"
| "local_ranges lcl b (n # ns) = Some (lcl, b, b + n - 1) # local_ranges lcl (b + n) ns"

definition copy_to ::
    "'w copy_io \<Rightarrow> mirror_group \<Rightarrow> string \<Rightarrow> string \<Rightarrow> int list \<Rightarrow> int list \<Rightarrow> version_reader option \<Rightarrow> 'w \<Rightarrow> int list res \<times> 'w" where
  "copy_to io g target source ids sizes lcl w =
     (if ids = [] then (Inr [], w)
      else
        let ranges = (case lcl of
                Some l \<Rightarrow> if sizes \<noteq> [] \<and> length sizes = length ids then local_ranges l 0 sizes else map (\<lambda>_. None) ids
              | None \<Rightarrow> map (\<lambda>_. None) ids);
            reupload = reupload_all io target source (zip ids ranges)
        in if mg_mode g = Reupload then reupload w
           else case cio_copy_from io target source ids w of
               (Inr (Some ids'), w) \<Rightarrow> (Inr ids', w)
             | (Inr None, w) \<Rightarrow> if mg_mode g = Forward then (Inl TechnicalError, w) else reupload w
             | (Inl ex, w) \<Rightarrow> if mg_mode g = Forward then (Inl ex, w) else reupload w)"

text \<open>\<open>_replicate\<close>, first the stream \<open>content()\<close> that it hands to the target.\<close>

definition replica_content :: "'w copy_io \<Rightarrow> string \<Rightarrow> int list \<Rightarrow> int list \<Rightarrow> version_reader option \<Rightarrow> 'w \<Rightarrow> stream" where
  "replica_content io source ids sizes lcl w = (case lcl of
     Some l \<Rightarrow> l 0 (sum_list sizes - 1)
   | None \<Rightarrow> chain (map (\<lambda>(mid, n). of_res (cio_download io w source mid 0 (n - 1))) (filter (\<lambda>(mid, n). 0 < n) (zip ids sizes))))"

definition replicate_to ::
    "'w copy_io \<Rightarrow> string \<Rightarrow> string \<Rightarrow> int list \<Rightarrow> int list \<Rightarrow> version_reader option \<Rightarrow> 'w \<Rightarrow> replica res \<times> 'w" where
  "replicate_to io target source ids sizes lcl w =
     (case cio_upload io target (replica_content io source ids sizes lcl w) (sum_list sizes) w of
        (Inl ex, w) \<Rightarrow> (Inl ex, w)
      | (Inr sent, w) \<Rightarrow> (Inr \<lparr>r_message_ids = map sm_message_id sent, r_part_sizes = map sm_size sent\<rparr>, w))"

text \<open>One store of \<open>mirror_parts\<close>, after its part sizes are known.\<close>

definition mirror_store ::
    "'w copy_io \<Rightarrow> mirror_group \<Rightarrow> string \<Rightarrow> int list \<Rightarrow> int list \<Rightarrow> version_reader option \<Rightarrow> string \<Rightarrow> mirror_result \<Rightarrow> 'w
      \<Rightarrow> mirror_result res \<times> 'w" where
  "mirror_store io g source ids sizes lcl key res w =
     (if fits_aligned g key source sizes
      then (case copy_to io g key source ids sizes lcl w of
              (Inl ex, w) \<Rightarrow> (Inl ex, w)
            | (Inr ids', w) \<Rightarrow> (Inr (res\<lparr>mr_mirrors := AList.update key ids' (mr_mirrors res)\<rparr>), w))
      else (case replicate_to io key source ids sizes lcl w of
              (Inl ex, w) \<Rightarrow> (Inl ex, w)
            | (Inr rep, w) \<Rightarrow> (Inr (res\<lparr>mr_replicas := AList.update key rep (mr_replicas res)\<rparr>), w)))"

fun mirror_loop ::
    "'w copy_io \<Rightarrow> mirror_group \<Rightarrow> string \<Rightarrow> int list \<Rightarrow> string list option \<Rightarrow> version_reader option \<Rightarrow> string list
      \<Rightarrow> int list option \<Rightarrow> mirror_result \<Rightarrow> 'w \<Rightarrow> mirror_result res \<times> 'w" where
  "mirror_loop io g source ids only lcl [] sizes res w = (Inr res, w)"
| "mirror_loop io g source ids only lcl (key # keys) sizes res w =
     (if (case only of None \<Rightarrow> False | Some ks \<Rightarrow> key \<notin> set ks) \<or> key = source
      then mirror_loop io g source ids only lcl keys sizes res w
      else
        case (case sizes of
                Some ns \<Rightarrow> if length ns = length ids then Inr ns else lookup_part_sizes io source ids w
              | None \<Rightarrow> lookup_part_sizes io source ids w) of
          Inl ex \<Rightarrow>
            (case handle_write_error (mg_strict g) ex of
               Inl ex \<Rightarrow> (Inl ex, w)
             | Inr _ \<Rightarrow> mirror_loop io g source ids only lcl keys sizes res w)
        | Inr ns \<Rightarrow>
            (case mirror_store io g source ids ns lcl key res w of
               (Inr res, w) \<Rightarrow> mirror_loop io g source ids only lcl keys (Some ns) res w
             | (Inl ex, w) \<Rightarrow>
                 (case handle_write_error (mg_strict g) ex of
                    Inl ex \<Rightarrow> (Inl ex, w)
                  | Inr _ \<Rightarrow> mirror_loop io g source ids only lcl keys (Some ns) res w)))"

definition mirror_parts ::
    "'w copy_io \<Rightarrow> mirror_group \<Rightarrow> int list \<Rightarrow> int list option \<Rightarrow> string list option \<Rightarrow> string option \<Rightarrow> version_reader option \<Rightarrow> 'w
      \<Rightarrow> mirror_result res \<times> 'w" where
  "mirror_parts io g ids sizes only source lcl w =
     (if ids = [] then (Inr \<lparr>mr_mirrors = [], mr_replicas = []\<rparr>, w)
      else mirror_loop io g (case source of None \<Rightarrow> mg_primary g | Some s \<Rightarrow> s) ids only lcl (mg_stores g) sizes
             \<lparr>mr_mirrors = [], mr_replicas = []\<rparr> w)"

definition copy_into_primary :: "'w copy_io \<Rightarrow> mirror_group \<Rightarrow> file_version \<Rightarrow> 'w \<Rightarrow> bool res \<times> file_version \<times> 'w" where
  "copy_into_primary io g v w =
     (let p = mg_primary g in
      case fv_store v of
        None \<Rightarrow> (Inr True, v, w)
      | Some s \<Rightarrow>
          if s = p then (Inr True, v, w)
          else if \<not> store_of g s then (Inr False, v, w)
          else
            (case (if length (fv_part_sizes v) = length (fv_message_ids v) then Inr (fv_part_sizes v)
                   else lookup_part_sizes io s (fv_message_ids v) w) of
               Inl ex \<Rightarrow> (Inl ex, v, w)
             | Inr ns \<Rightarrow>
                 let settle = (\<lambda>v. let v = fv_relocate p (v\<lparr>fv_part_sizes := ns\<rparr>) in (Inr (fv_owned_by v p), v)) in
                 if fits_aligned g p s ns
                 then (case copy_to io g p s (fv_message_ids v) [] None w of
                         (Inl ex, w) \<Rightarrow> (Inl ex, v, w)
                       | (Inr ids, w) \<Rightarrow> (case settle (v\<lparr>fv_mirrors := AList.update p ids (fv_mirrors v)\<rparr>) of (b, v) \<Rightarrow> (b, v, w)))
                 else (case replicate_to io p s (fv_message_ids v) ns None w of
                         (Inl ex, w) \<Rightarrow> (Inl ex, v, w)
                       | (Inr rep, w) \<Rightarrow> (case settle (v\<lparr>fv_replicas := AList.update p rep (fv_replicas v)\<rparr>) of (b, v) \<Rightarrow> (b, v, w)))))"

section \<open>Copies are exact\<close>

text \<open>
  \<open>doc w key i\<close> is the document of the message \<open>i\<close> in the store \<open>key\<close>. No operation changes a document that is
  there. A server-side copy answers ids aligned with the source's, a message answers the size of its
  document, a download serves the range, and the messages of an upload hold the stream that was sent.
\<close>

type_synonym 'w documents = "'w \<Rightarrow> string \<Rightarrow> int \<Rightarrow> bytes option"

definition keeps :: "'w documents \<Rightarrow> 'w \<Rightarrow> 'w \<Rightarrow> bool" where
  "keeps doc w w' \<longleftrightarrow> (\<forall>k i b. doc w k i = Some b \<longrightarrow> doc w' k i = Some b)"

definition aligned :: "'w documents \<Rightarrow> 'w \<Rightarrow> string \<Rightarrow> int list \<Rightarrow> bytes list \<Rightarrow> bool" where
  "aligned doc w key ids bs \<longleftrightarrow> list_all2 (\<lambda>i b. 0 < i \<and> doc w key i = Some b) ids bs"

definition holds :: "'w documents \<Rightarrow> 'w \<Rightarrow> string \<Rightarrow> int list \<Rightarrow> int list \<Rightarrow> bytes \<Rightarrow> bool" where
  "holds doc w key ids sizes want \<longleftrightarrow> (\<exists>bs. aligned doc w key ids bs \<and> sizes = map (\<lambda>b. int (length b)) bs \<and> concat bs = want)"

definition copies_aligned :: "'w copy_io \<Rightarrow> 'w documents \<Rightarrow> bool" where
  "copies_aligned io doc \<longleftrightarrow> (\<forall>target source ids w r w'. cio_copy_from io target source ids w = (r, w') \<longrightarrow> keeps doc w w'
     \<and> (\<forall>ids' bs. r = Inr (Some ids') \<longrightarrow> aligned doc w source ids bs \<longrightarrow> aligned doc w' target ids' bs))"

definition sizes_told :: "'w documents \<Rightarrow> 'w \<Rightarrow> string \<Rightarrow> int list \<Rightarrow> fd_msg option list \<Rightarrow> bool" where
  "sizes_told doc w key = list_all2 (\<lambda>i m. \<forall>b n. doc w key i = Some b \<and> Option.bind m fm_document = Some n \<longrightarrow> n = int (length b))"

definition downloads_serve :: "'w copy_io \<Rightarrow> 'w documents \<Rightarrow> bool" where
  "downloads_serve io doc \<longleftrightarrow> (\<forall>w key i b lo hi s. cio_download io w key i lo hi = Inr s \<longrightarrow> doc w key i = Some b
     \<longrightarrow> 0 \<le> lo \<longrightarrow> lo \<le> hi \<longrightarrow> hi < int (length b) \<longrightarrow> serves s (subrange b lo hi))"

definition uploads_hold :: "'w copy_io \<Rightarrow> 'w documents \<Rightarrow> bool" where
  "uploads_hold io doc \<longleftrightarrow> (\<forall>target s n w r w'. cio_upload io target s n w = (r, w') \<longrightarrow> keeps doc w w'
     \<and> (\<forall>sent want. r = Inr sent \<longrightarrow> serves s want \<longrightarrow> int (length want) = n
          \<longrightarrow> holds doc w' target (map sm_message_id sent) (map sm_size sent) want))"

definition copy_laws :: "'w copy_io \<Rightarrow> 'w documents \<Rightarrow> bool" where
  "copy_laws io doc \<longleftrightarrow> copies_aligned io doc \<and> downloads_serve io doc \<and> uploads_hold io doc
     \<and> (\<forall>w key ids msgs. cio_messages io w key ids = Inr msgs \<longrightarrow> sizes_told doc w key ids msgs)"

lemma copy_lawsD:
  assumes "copy_laws io doc"
  shows "cio_copy_from io target source ids w = (r, w') \<Longrightarrow> keeps doc w w'"
    and "cio_copy_from io target source ids w = (Inr (Some ids'), w') \<Longrightarrow> aligned doc w source ids bs \<Longrightarrow> aligned doc w' target ids' bs"
    and "cio_messages io w key ids = Inr msgs \<Longrightarrow> sizes_told doc w key ids msgs"
    and "cio_download io w key i lo hi = Inr s \<Longrightarrow> doc w key i = Some b \<Longrightarrow> 0 \<le> lo \<Longrightarrow> lo \<le> hi \<Longrightarrow> hi < int (length b) \<Longrightarrow> serves s (subrange b lo hi)"
    and "cio_upload io target s n w = (r', w') \<Longrightarrow> keeps doc w w'"
    and "cio_upload io target s n w = (Inr sent, w') \<Longrightarrow> serves s want \<Longrightarrow> int (length want) = n
      \<Longrightarrow> holds doc w' target (map sm_message_id sent) (map sm_size sent) want"
proof -
  have l: "copies_aligned io doc" "downloads_serve io doc" "uploads_hold io doc" using assms by (simp_all add: copy_laws_def)
  show "cio_copy_from io target source ids w = (r, w') \<Longrightarrow> keeps doc w w'"
    "cio_copy_from io target source ids w = (Inr (Some ids'), w') \<Longrightarrow> aligned doc w source ids bs \<Longrightarrow> aligned doc w' target ids' bs"
    using l(1) unfolding copies_aligned_def by blast+
  show "cio_messages io w key ids = Inr msgs \<Longrightarrow> sizes_told doc w key ids msgs" using assms by (simp add: copy_laws_def)
  show "cio_download io w key i lo hi = Inr s \<Longrightarrow> doc w key i = Some b \<Longrightarrow> 0 \<le> lo \<Longrightarrow> lo \<le> hi \<Longrightarrow> hi < int (length b) \<Longrightarrow> serves s (subrange b lo hi)"
    using l(2) unfolding downloads_serve_def by blast
  show "cio_upload io target s n w = (r', w') \<Longrightarrow> keeps doc w w'"
    "cio_upload io target s n w = (Inr sent, w') \<Longrightarrow> serves s want \<Longrightarrow> int (length want) = n
      \<Longrightarrow> holds doc w' target (map sm_message_id sent) (map sm_size sent) want"
    using l(3) unfolding uploads_hold_def by blast+
qed

lemma keeps_refl [simp]: "keeps doc w w"
  by (simp add: keeps_def)

lemma keeps_trans [trans]: "keeps doc w w' \<Longrightarrow> keeps doc w' w'' \<Longrightarrow> keeps doc w w''"
  by (simp add: keeps_def)

lemma aligned_keeps: "keeps doc w w' \<Longrightarrow> aligned doc w key ids bs \<Longrightarrow> aligned doc w' key ids bs"
  unfolding aligned_def keeps_def by (elim list_all2_mono) auto

lemma holds_keeps: "keeps doc w w' \<Longrightarrow> holds doc w key ids sizes want \<Longrightarrow> holds doc w' key ids sizes want"
  unfolding holds_def by (elim exE conjE, intro exI conjI, rule aligned_keeps)

text \<open>A version's parts in a store: none is empty.\<close>

definition parts_in :: "'w documents \<Rightarrow> 'w \<Rightarrow> string \<Rightarrow> int list \<Rightarrow> bytes list \<Rightarrow> bool" where
  "parts_in doc w key ids bs \<longleftrightarrow> aligned doc w key ids bs \<and> [] \<notin> set bs"

abbreviation "sizes_are bs \<equiv> map (\<lambda>b :: bytes. int (length b)) bs"

definition reads_local :: "version_reader option \<Rightarrow> bytes list \<Rightarrow> bool" where
  "reads_local lcl bs \<longleftrightarrow> (\<forall>l b e. lcl = Some l \<and> 0 \<le> b \<and> b \<le> e \<and> e < int (length (concat bs)) \<longrightarrow> serves (l b e) (subrange (concat bs) b e))"

lemma sizes_of_docs:
  assumes "sizes_told doc w key ids msgs"
    and "aligned doc w key ids bs" and "sizes_of (zip ids msgs) = Inr ns"
  shows "ns = sizes_are bs"
  using assms
proof (induction ids arbitrary: msgs bs ns)
  case (Cons i ids)
  obtain m ms where msgs: "msgs = m # ms" using Cons.prems(1) by (cases msgs) (auto simp: sizes_told_def)
  obtain b bs' where bs: "bs = b # bs'" "doc w key i = Some b" "aligned doc w key ids bs'"
    using Cons.prems(2) by (cases bs) (auto simp: aligned_def)
  obtain n ns' where ns: "Option.bind m fm_document = Some n" "sizes_of (zip ids ms) = Inr ns'" "ns = n # ns'"
    using Cons.prems(3) by (auto simp: msgs rbind_Inr_iff split: option.splits)
  show ?case using Cons.IH [OF _ bs(3) ns(2)] Cons.prems(1) ns bs(2) by (auto simp: msgs bs(1) sizes_told_def)
qed (auto simp: aligned_def)

lemma lookup_part_sizes_exact:
  "copy_laws io doc \<Longrightarrow> aligned doc w source ids bs \<Longrightarrow> lookup_part_sizes io source ids w = Inr ns \<Longrightarrow> ns = sizes_are bs"
  unfolding lookup_part_sizes_def rbind_Inr_iff by (elim exE conjE) (rule sizes_of_docs [OF copy_lawsD(3)])

definition range_of :: "(version_reader \<times> int \<times> int) option \<Rightarrow> bytes \<Rightarrow> bool" where
  "range_of rg b \<longleftrightarrow> (\<forall>l lo hi. rg = Some (l, lo, hi) \<longrightarrow> serves (l lo hi) b \<and> hi - lo + 1 = int (length b))"

lemma reupload_one_exact:
  assumes laws: "copy_laws io doc" and src: "0 < mid" "doc w source mid = Some b" "b \<noteq> []"
    and lcl: "range_of local_range b"
    and up: "reupload_one io target source mid local_range w = (r, w')"
  shows "keeps doc w w'" and "r = Inr i \<Longrightarrow> 0 < i \<and> doc w' target i = Some b"
proof -
  let ?from = "case local_range of Some (lcl, b, e) \<Rightarrow> Inr (e - b + 1, lcl b e)
    | None \<Rightarrow> rbind (cio_messages io w source [mid]) (\<lambda>msgs. case msgs of [] \<Rightarrow> Inl IndexError
        | m # _ \<Rightarrow> (case Option.bind m fm_document of None \<Rightarrow> Inl (MessageNotFound mid)
            | Some n \<Rightarrow> rbind (cio_download io w source mid 0 (n - 1)) (\<lambda>s. Inr (n, s))))"
  have served: "serves s b \<and> n = int (length b)" if f: "?from = Inr (n, s)" for n s
  proof (cases local_range)
    case None
    then obtain ms where ms: "cio_messages io w source [mid] = Inr ms" using f by (auto simp: rbind_Inr_iff)
    then obtain m msgs where "ms = m # msgs" using f None by (cases ms) auto
    then have m: "cio_messages io w source [mid] = Inr (m # msgs)" "Option.bind m fm_document = Some n"
        "cio_download io w source mid 0 (n - 1) = Inr s"
      using f None ms by (cases "Option.bind m fm_document"; auto simp: rbind_Inr_iff)+
    have n: "n = int (length b)" using copy_lawsD(3) [OF laws m(1)] m(2) src(2) by (auto simp: sizes_told_def)
    have "0 < length b" using src(3) by simp
    then have "serves s (subrange b 0 (int (length b) - 1))" using copy_lawsD(4) [OF laws m(3) src(2)] n by simp
    then show ?thesis using n by simp
  next
    case (Some x)
    then show ?thesis using f lcl by (cases x) (auto simp: range_of_def)
  qed
  show "keeps doc w w'" and "r = Inr i \<Longrightarrow> 0 < i \<and> doc w' target i = Some b"
  proof -
    consider ex where "?from = Inl ex" "(r, w') = (Inl ex, w)"
      | n s r' where "?from = Inr (n, s)" "cio_upload io target s n w = (r', w')" "\<forall>i. r = Inr i \<longrightarrow> (\<exists>m. r' = Inr [m] \<and> i = sm_message_id m)"
      using up by (cases ?from) (auto simp: reupload_one_def split: prod.splits sum.splits list.splits)
    note cases = this
    show "keeps doc w w'" using cases by cases (auto intro: copy_lawsD(5) [OF laws])
    assume r: "r = Inr i"
    from cases show "0 < i \<and> doc w' target i = Some b"
    proof cases
      case 2
      then obtain m where m: "r' = Inr [m]" "i = sm_message_id m" using r by blast
      then show ?thesis
        using copy_lawsD(6) [OF laws 2(2) [unfolded m], of b] served [OF 2(1)] by (auto simp: holds_def aligned_def list_all2_Cons1)
    qed (use r in simp)
  qed
qed

lemma local_ranges_of:
  assumes "reads_local (Some l) (pre @ bs)" and "[] \<notin> set bs"
  shows "list_all2 range_of (local_ranges l (int (length (concat pre))) (sizes_are bs)) bs"
  using assms
proof (induction bs arbitrary: pre)
  case (Cons b bs)
  let ?n = "int (length (concat pre))" and ?e = "int (length (concat pre)) + int (length b) - 1"
  have "0 < length b" using Cons.prems(2) by auto
  then have "serves (l ?n ?e) (subrange (concat (pre @ b # bs)) ?n ?e)"
    using Cons.prems(1) unfolding reads_local_def by (elim allE [of _ l] allE [of _ ?n] allE [of _ ?e]) auto
  moreover have "subrange (concat (pre @ b # bs)) ?n ?e = b"
    by (simp add: subrange_append_right subrange_append_left)
  ultimately have "range_of (Some (l, ?n, ?e)) b" by (simp add: range_of_def)
  moreover have "list_all2 range_of (local_ranges l (int (length (concat (pre @ [b])))) (sizes_are bs)) bs"
    using Cons by (intro Cons.IH) auto
  ultimately show ?case by (simp add: add.commute)
qed simp

lemma reupload_all_exact:
  assumes laws: "copy_laws io doc" and "parts_in doc w source ids bs" and "list_all2 range_of ranges bs"
    and "reupload_all io target source (zip ids ranges) w = (r, w')"
  shows "keeps doc w w' \<and> (\<forall>is. r = Inr is \<longrightarrow> aligned doc w' target is bs)"
  using assms(2-)
proof (induction ids arbitrary: ranges bs w r)
  case Nil
  then show ?case by (auto simp: aligned_def parts_in_def)
next
  case (Cons mid ids)
  obtain b bs' where bs: "bs = b # bs'" "0 < mid" "doc w source mid = Some b" "b \<noteq> []" "parts_in doc w source ids bs'"
    using Cons.prems(1) by (cases bs) (auto simp: aligned_def parts_in_def)
  obtain rg rgs where rg: "ranges = rg # rgs" "range_of rg b" "list_all2 range_of rgs bs'"
    using Cons.prems(2) by (auto simp: bs(1) list_all2_Cons2)
  obtain r1 w1 where one: "reupload_one io target source mid rg w = (r1, w1)" by force
  note ex = reupload_one_exact [OF laws bs(2-4) rg(2) one]
  show ?case
  proof (cases r1)
    case (Inl e)
    then show ?thesis using Cons.prems(3) one ex(1) by (auto simp: rg(1))
  next
    case (Inr i)
    obtain r2 where all: "reupload_all io target source (zip ids rgs) w1 = (r2, w')" "r = (case r2 of Inl e \<Rightarrow> Inl e | Inr is \<Rightarrow> Inr (i # is))"
      using Cons.prems(3) one Inr by (auto simp: rg(1) split: prod.splits sum.splits)
    have "parts_in doc w1 source ids bs'" using bs(5) aligned_keeps [OF ex(1)] by (simp add: parts_in_def)
    note IH = Cons.IH [OF this rg(3) all(1)]
    have "doc w' target i = Some b" "0 < i" using ex(2) [OF Inr] IH by (auto simp: keeps_def)
    then show ?thesis using IH all(2) keeps_trans [OF ex(1)] by (auto simp: bs(1) aligned_def split: sum.splits)
  qed
qed

lemma no_ranges: "length ids = length bs \<Longrightarrow> list_all2 range_of (map (\<lambda>_. None) ids) bs"
  by (auto simp: range_of_def list_all2_conv_all_nth)

lemma copy_to_exact:
  assumes laws: "copy_laws io doc" and src: "parts_in doc w source ids bs" and lcl: "reads_local lcl bs" and "length sizes = length ids \<longrightarrow> sizes = sizes_are bs"
    and copy: "copy_to io g target source ids sizes lcl w = (r, w')"
  shows "keeps doc w w' \<and> (\<forall>is. r = Inr is \<longrightarrow> aligned doc w' target is bs)"
proof -
  let ?ranges = "case lcl of Some l \<Rightarrow> if sizes \<noteq> [] \<and> length sizes = length ids then local_ranges l 0 sizes else map (\<lambda>_. None) ids
    | None \<Rightarrow> map (\<lambda>_. None) ids"
  have len: "length ids = length bs" using src by (auto simp: parts_in_def aligned_def dest: list_all2_lengthD)
  have ranges: "list_all2 range_of ?ranges bs"
    using no_ranges [OF len] local_ranges_of [of _ "[]" bs] lcl src assms(4) by (auto simp: parts_in_def split: option.splits)
  have re: "keeps doc w w' \<and> (\<forall>is. r = Inr is \<longrightarrow> aligned doc w' target is bs)"
    if "keeps doc w w1" "reupload_all io target source (zip ids ?ranges) w1 = (r, w')" for w1
  proof -
    have "parts_in doc w1 source ids bs" using src aligned_keeps [OF that(1)] by (simp add: parts_in_def)
    from reupload_all_exact [OF laws this ranges that(2)] show ?thesis using keeps_trans [OF that(1)] by blast
  qed
  show ?thesis
  proof (cases "ids = []")
    case True
    then show ?thesis using copy len by (auto simp: copy_to_def aligned_def)
  next
    case ids: False
    obtain r1 w1 where cf: "cio_copy_from io target source ids w = (r1, w1)" by force
    note law = copy_lawsD(1,2) [OF laws]
    show ?thesis
    proof (cases "mg_mode g = Reupload \<or> ((\<exists>e. r1 = Inl e) \<or> r1 = Inr None) \<and> mg_mode g \<noteq> Forward")
      case True
      then have "reupload_all io target source (zip ids ?ranges) (if mg_mode g = Reupload then w else w1) = (r, w')"
        using copy ids cf by (auto simp: copy_to_def Let_def)
      then show ?thesis by (rule re [rotated]) (use law(1) [OF cf] in simp)
    next
      case False
      then have "w' = w1 \<and> (\<forall>is. r = Inr is \<longrightarrow> r1 = Inr (Some is))"
        using copy ids cf by (cases r1) (auto simp: copy_to_def Let_def split: option.splits if_splits)
      then show ?thesis using law(1) [OF cf] law(2) [of target source ids w _ w1 bs] cf src by (auto simp: parts_in_def)
    qed
  qed
qed

lemma sum_sizes: "sum_list (sizes_are bs) = int (length (concat bs))"
  by (induction bs) auto

lemma replica_content_serves:
  assumes laws: "copy_laws io doc" and src: "parts_in doc w source ids bs" and lcl: "reads_local lcl bs" and "ids \<noteq> []"
  shows "serves (replica_content io source ids (sizes_are bs) lcl w) (concat bs)"
proof (cases lcl)
  case None
  have len: "length ids = length bs" using src by (auto simp: parts_in_def aligned_def dest: list_all2_lengthD)
  have "filter (\<lambda>(mid, n). 0 < n) (zip ids (sizes_are bs)) = zip ids (sizes_are bs)"
    using src by (intro filter_True) (fastforce simp: parts_in_def dest: set_zip_rightD)
  moreover have "list_all2 serves (map (\<lambda>(mid, n). of_res (cio_download io w source mid 0 (n - 1))) (zip ids (sizes_are bs))) bs"
  proof (rule list_all2_all_nthI)
    show "length (map (\<lambda>(mid, n). of_res (cio_download io w source mid 0 (n - 1))) (zip ids (sizes_are bs))) = length bs" using len by simp
    fix j assume "j < length (map (\<lambda>(mid, n). of_res (cio_download io w source mid 0 (n - 1))) (zip ids (sizes_are bs)))"
    then have j: "j < length ids" "j < length bs" using len by simp_all
    have d: "doc w source (ids ! j) = Some (bs ! j)" using src j by (auto simp: parts_in_def aligned_def list_all2_conv_all_nth)
    have ne: "bs ! j \<noteq> []" using src nth_mem [OF j(2)] by (metis parts_in_def)
    let ?hi = "int (length (bs ! j)) - 1"
    have "serves (of_res (cio_download io w source (ids ! j) 0 ?hi)) (bs ! j)"
    proof (cases "cio_download io w source (ids ! j) 0 ?hi")
      case (Inr s)
      have "0 < length (bs ! j)" using ne by simp
      then show ?thesis using copy_lawsD(4) [OF laws Inr d] Inr by simp
    qed (simp add: ne)
    then show "serves (map (\<lambda>(mid, n). of_res (cio_download io w source mid 0 (n - 1))) (zip ids (sizes_are bs)) ! j) (bs ! j)"
      using j by simp
  qed
  ultimately show ?thesis using serves_chain by (simp add: replica_content_def None)
next
  case (Some l)
  have "bs \<noteq> []" using src assms(4) by (auto simp: parts_in_def aligned_def)
  then have "concat bs \<noteq> []" using src by (cases bs) (auto simp: parts_in_def)
  then have "0 < length (concat bs)" unfolding length_greater_0_conv .
  then have "serves (l 0 (int (length (concat bs)) - 1)) (subrange (concat bs) 0 (int (length (concat bs)) - 1))"
    using lcl Some unfolding reads_local_def by (elim allE [of _ l] allE [of _ 0] allE [of _ "int (length (concat bs)) - 1"]) auto
  then show ?thesis by (simp add: replica_content_def Some sum_sizes)
qed

lemma replicate_to_exact:
  assumes laws: "copy_laws io doc" and src: "parts_in doc w source ids bs" and lcl: "reads_local lcl bs" and ne: "ids \<noteq> []"
    and rep: "replicate_to io target source ids (sizes_are bs) lcl w = (r, w')"
  shows "keeps doc w w' \<and> (\<forall>rep. r = Inr rep \<longrightarrow> holds doc w' target (r_message_ids rep) (r_part_sizes rep) (concat bs))"
proof -
  let ?s = "replica_content io source ids (sizes_are bs) lcl w"
  obtain r1 where up: "cio_upload io target ?s (sum_list (sizes_are bs)) w = (r1, w')"
      "r = (case r1 of Inl e \<Rightarrow> Inl e | Inr sent \<Rightarrow> Inr \<lparr>r_message_ids = map sm_message_id sent, r_part_sizes = map sm_size sent\<rparr>)"
    using rep by (auto simp: replicate_to_def split: prod.splits sum.splits)
  have "holds doc w' target (map sm_message_id sent) (map sm_size sent) (concat bs)" if "r1 = Inr sent" for sent
    using copy_lawsD(6) [OF laws _ replica_content_serves [OF laws src lcl ne]] up(1) that by (simp add: sum_sizes)
  then show ?thesis using copy_lawsD(5) [OF laws up(1)] up(2) by (auto split: sum.splits)
qed

text \<open>What a round of mirroring has recorded so far.\<close>

definition copies_ok :: "'w documents \<Rightarrow> 'w \<Rightarrow> string set \<Rightarrow> bytes list \<Rightarrow> mirror_result \<Rightarrow> bool" where
  "copies_ok doc w keys bs res \<longleftrightarrow> (\<forall>(k, ids) \<in> set (mr_mirrors res). k \<in> keys \<and> aligned doc w k ids bs)
     \<and> (\<forall>(k, rep) \<in> set (mr_replicas res). k \<in> keys \<and> holds doc w k (r_message_ids rep) (r_part_sizes rep) (concat bs))"

lemma copies_ok_keeps: "keeps doc w w' \<Longrightarrow> copies_ok doc w keys bs res \<Longrightarrow> copies_ok doc w' keys bs res"
  unfolding copies_ok_def using aligned_keeps holds_keeps by (fastforce split: prod.splits)

lemma copies_ok_update:
  assumes "copies_ok doc w keys bs res" and "key \<in> keys"
  shows "aligned doc w key is bs \<Longrightarrow> copies_ok doc w keys bs (res\<lparr>mr_mirrors := AList.update key is (mr_mirrors res)\<rparr>)"
    and "holds doc w key (r_message_ids rep) (r_part_sizes rep) (concat bs)
      \<Longrightarrow> copies_ok doc w keys bs (res\<lparr>mr_replicas := AList.update key rep (mr_replicas res)\<rparr>)"
  using assms by (auto simp: copies_ok_def dest!: subsetD [OF update_subset])

lemma mirror_store_exact:
  assumes laws: "copy_laws io doc" and src: "parts_in doc w source ids bs" and lcl: "reads_local lcl bs" and ne: "ids \<noteq> []"
    and res: "copies_ok doc w keys bs res" and "key \<in> keys" and ms: "mirror_store io g source ids (sizes_are bs) lcl key res w = (r, w')"
  shows "keeps doc w w' \<and> (\<forall>res'. r = Inr res' \<longrightarrow> copies_ok doc w' keys bs res')"
proof (cases "fits_aligned g key source (sizes_are bs)")
  case True
  obtain r1 where c: "copy_to io g key source ids (sizes_are bs) lcl w = (r1, w')"
      "r = (case r1 of Inl e \<Rightarrow> Inl e | Inr is \<Rightarrow> Inr (res\<lparr>mr_mirrors := AList.update key is (mr_mirrors res)\<rparr>))"
    using ms True by (auto simp: mirror_store_def split: prod.splits sum.splits)
  note ex = copy_to_exact [OF laws src lcl _ c(1)]
  have k: "keeps doc w w'" "\<forall>is. r1 = Inr is \<longrightarrow> aligned doc w' key is bs" using ex by simp_all
  note copies_ok_update(1) [OF copies_ok_keeps [OF k(1) res] assms(6)]
  then show ?thesis using k c(2) by (auto split: sum.splits)
next
  case False
  obtain r1 where c: "replicate_to io key source ids (sizes_are bs) lcl w = (r1, w')"
      "r = (case r1 of Inl e \<Rightarrow> Inl e | Inr rep \<Rightarrow> Inr (res\<lparr>mr_replicas := AList.update key rep (mr_replicas res)\<rparr>))"
    using ms False by (auto simp: mirror_store_def split: prod.splits sum.splits)
  note ex = replicate_to_exact [OF laws src lcl ne c(1)]
  note copies_ok_update(2) [OF copies_ok_keeps [OF _ res] assms(6)]
  then show ?thesis using ex c(2) by (auto split: sum.splits)
qed

lemma mirror_loop_exact:
  assumes laws: "copy_laws io doc" and lcl: "reads_local lcl bs" and ne: "ids \<noteq> []"
    and "parts_in doc w source ids bs" and "\<forall>ns. sizes = Some ns \<longrightarrow> length ns = length ids \<longrightarrow> ns = sizes_are bs"
    and "copies_ok doc w K bs res" and "set keys \<subseteq> K" and "mirror_loop io g source ids only lcl keys sizes res w = (r, w')"
  shows "keeps doc w w' \<and> (\<forall>res'. r = Inr res' \<longrightarrow> copies_ok doc w' K bs res')"
  using assms(4-)
proof (induction keys arbitrary: sizes res w)
  case (Cons key keys)
  have key: "key \<in> K" and keys: "set keys \<subseteq> K" using Cons.prems(4) by auto
  let ?sizes = "case sizes of Some ns \<Rightarrow> if length ns = length ids then Inr ns else lookup_part_sizes io source ids w
    | None \<Rightarrow> lookup_part_sizes io source ids w"
  have al: "aligned doc w source ids bs" using Cons.prems(1) by (simp add: parts_in_def)
  have ns: "ns = sizes_are bs" if "?sizes = Inr ns" for ns
    using that lookup_part_sizes_exact [OF laws al] Cons.prems(2) by (auto split: option.splits if_splits)
  have go: ?case if k: "keeps doc w w1" "mirror_loop io g source ids only lcl keys sizes1 res1 w1 = (r, w')"
      "sizes1 = sizes \<or> sizes1 = Some (sizes_are bs)" "copies_ok doc w1 K bs res1" for w1 sizes1 res1
  proof -
    have "parts_in doc w1 source ids bs" using Cons.prems(1) aligned_keeps [OF k(1)] by (simp add: parts_in_def)
    from Cons.IH [OF this _ k(4) keys k(2)] Cons.prems(2) k(3) show ?thesis using keeps_trans [OF k(1)] by blast
  qed
  show ?case
  proof (cases "(case only of None \<Rightarrow> False | Some ks \<Rightarrow> key \<notin> set ks) \<or> key = source")
    case True
    then have "mirror_loop io g source ids only lcl keys sizes res w = (r, w')" using Cons.prems(5) by simp
    then show ?thesis by (rule go [OF keeps_refl _ disjI1 [OF refl] Cons.prems(3)])
  next
    case skip: False
    show ?thesis
    proof (cases ?sizes)
      case (Inl ex)
      then show ?thesis using go [OF keeps_refl _ _ Cons.prems(3)] Cons.prems(5) skip by (auto split: sum.splits)
    next
      case (Inr ns1)
      obtain r1 w1 where ms: "mirror_store io g source ids ns1 lcl key res w = (r1, w1)" by force
      note ex = mirror_store_exact [OF laws Cons.prems(1) lcl ne Cons.prems(3) key ms [unfolded ns [OF Inr]]]
      have "copies_ok doc w1 K bs res" by (rule copies_ok_keeps [OF conjunct1 [OF ex] Cons.prems(3)])
      then show ?thesis using go [of w1 "Some ns1"] ex Cons.prems(5) skip Inr ms ns [OF Inr] by (auto split: sum.splits)
    qed
  qed
qed auto

lemma mirror_loop_lenient: "\<not> mg_strict g \<Longrightarrow> \<exists>res' w'. mirror_loop io g source ids only lcl keys sizes res w = (Inr res', w')"
  by (induction keys arbitrary: sizes res w) (auto simp: handle_write_error_def split: sum.splits prod.splits option.splits)

lemma aligned_is_copy:
  assumes "aligned doc w key ids bs" and "length own = length bs" and "own \<noteq> []"
  shows "aligned_complete ids own"
  using assms unfolding aligned_complete_def aligned_def by (auto simp: list_all2_conv_all_nth in_set_conv_nth)

lemma update_all_hit: "k \<in> fst ` set e \<Longrightarrow> \<exists>v. (k, v) \<in> set e \<and> map_of (dict_update_all d e) k = Some v"
  using map_of_SomeD [of "rev e" k] by (cases "map_of (rev e) k") (auto simp: map_of_dict_update_all map_of_eq_None_iff image_iff)

section \<open>Stores in memory\<close>

text \<open>Stores as maps of documents, one message per upload, for the examples.\<close>

type_synonym shelf = "(string \<Rightarrow> int \<Rightarrow> bytes option) \<times> nat"

definition shelf_doc :: "shelf documents" where
  "shelf_doc w key i = (if i \<le> int (snd w) then fst w key i else None)"

definition copy_shelf :: "shelf copy_io" where
  "copy_shelf = \<lparr>cio_copy_from = (\<lambda>_ _ _ w. (Inr None, w)),
     cio_messages = (\<lambda>w key ids. Inr (map (\<lambda>i. map_option (\<lambda>b. \<lparr>fm_id = i, fm_text = None, fm_document = Some (int (length b))\<rparr>) (shelf_doc w key i)) ids)),
     cio_download = (\<lambda>w key i lo hi. case shelf_doc w key i of None \<Rightarrow> Inl (MessageNotFound i) | Some b \<Rightarrow> Inr ([subrange b lo hi], None)),
     cio_upload = (\<lambda>target s n (f, m). case snd s of
         Some e \<Rightarrow> (Inl e, (f, m))
       | None \<Rightarrow> (Inr [\<lparr>sm_message_id = int m + 1, sm_size = n, sm_mirrors = [], sm_replicas = []\<rparr>],
             (f(target := (f target)(int m + 1 := Some (stream_bytes s))), Suc m)))\<rparr>"

lemma copy_shelf_laws: "copy_laws copy_shelf shelf_doc"
proof -
  have "holds shelf_doc (f(t := (f t)(int m + 1 := Some b)), Suc m) t [int m + 1] [int (length b)] b" for f t m b
    unfolding holds_def aligned_def by (intro exI [of _ "[b]"]) (simp add: shelf_doc_def)
  moreover have "keeps shelf_doc (f, m) (f(t := (f t)(int m + 1 := Some b)), Suc m)" for f t m b
    by (auto simp: keeps_def shelf_doc_def split: if_splits)
  ultimately have "uploads_hold copy_shelf shelf_doc"
    by (auto simp: uploads_hold_def copy_shelf_def serves_def split: option.splits)
  moreover have "copies_aligned copy_shelf shelf_doc" by (auto simp: copies_aligned_def copy_shelf_def)
  moreover have "downloads_serve copy_shelf shelf_doc" by (auto simp: downloads_serve_def copy_shelf_def split: option.splits)
  moreover have "sizes_told shelf_doc w key ids msgs" if "cio_messages copy_shelf w key ids = Inr msgs" for w key ids msgs
    using that by (auto simp: sizes_told_def copy_shelf_def list_all2_conv_all_nth)
  ultimately show ?thesis by (simp add: copy_laws_def)
qed

definition copy_group :: "string \<Rightarrow> string list \<Rightarrow> mirror_group" where
  "copy_group p keys = \<lparr>mg_primary = p, mg_stores = keys, mg_mode = Auto, mg_strict = False, mg_backend = take 2,
     mg_caps = (\<lambda>_. dc_caps 2)\<rparr>"

definition two_parts :: shelf where
  "two_parts = (\<lambda>key i. if key = ''tg:-1'' \<and> i = 1 then Some [1, 2, 3] else if key = ''tg:-1'' \<and> i = 2 then Some [4] else None, 2)"

lemma two_parts_in: "parts_in shelf_doc two_parts ''tg:-1'' [1, 2] [[1, 2, 3], [4]]"
  by (simp add: parts_in_def aligned_def shelf_doc_def two_parts_def)

lemma mirror_parts_copies:
  assumes "copy_laws io doc" and "parts_in doc w (case source of None \<Rightarrow> mg_primary g | Some s \<Rightarrow> s) ids bs"
    and "\<forall>ns. sizes = Some ns \<and> length ns = length ids \<longrightarrow> ns = sizes_are bs" and "reads_local lcl bs"
    and "mirror_parts io g ids sizes only source lcl w = (r, w')"
  shows "keeps doc w w'" and "r = Inr res \<Longrightarrow> copies_ok doc w' (set (mg_stores g)) bs res"
proof -
  let ?res = "\<lparr>mr_mirrors = [], mr_replicas = []\<rparr>" and ?src = "case source of None \<Rightarrow> mg_primary g | Some s \<Rightarrow> s"
  have ok: "copies_ok doc w (set (mg_stores g)) bs ?res" by (simp add: copies_ok_def)
  have "keeps doc w w' \<and> (\<forall>res. r = Inr res \<longrightarrow> copies_ok doc w' (set (mg_stores g)) bs res)"
  proof (cases "ids = []")
    case True
    then show ?thesis using assms(5) ok by (auto simp: mirror_parts_def)
  next
    case False
    have loop: "mirror_loop io g ?src ids only lcl (mg_stores g) sizes ?res w = (r, w')" using assms(5) False by (simp add: mirror_parts_def)
    show ?thesis by (rule mirror_loop_exact [OF assms(1,4) False assms(2) _ ok subset_refl loop]) (use assms(3) in blast)
  qed
  then show "keeps doc w w'" "r = Inr res \<Longrightarrow> copies_ok doc w' (set (mg_stores g)) bs res" by simp_all
qed

text \<open>C16: Whatever fails on the way, every copy that \<open>mirror_parts\<close> records is a copy: an aligned one has, message
  by message, the bytes of the parts, and the messages of a replica hold the bytes of the version in parts
  of the recorded sizes. Applied to the version, each of them counts as a complete copy. No document
  that was there is touched, and without \<open>strict\<close> the call never fails.\<close>

theorem mirror_parts_exact:
  assumes "copy_laws io doc" and "parts_in doc w (case source of None \<Rightarrow> mg_primary g | Some s \<Rightarrow> s) ids bs"
    and "\<forall>ns. sizes = Some ns \<and> length ns = length ids \<longrightarrow> ns = sizes_are bs" and "reads_local lcl bs"
    and "mirror_parts io g ids sizes only source lcl w = (r, w')"
  shows "keeps doc w w' \<and> (\<not> mg_strict g \<longrightarrow> (\<exists>res. r = Inr res))
    \<and> (\<forall>res. r = Inr res \<longrightarrow>
         (\<forall>(k, is) \<in> set (mr_mirrors res). k \<in> set (mg_stores g) \<and> aligned doc w' k is bs)
       \<and> (\<forall>(k, rep) \<in> set (mr_replicas res). k \<in> set (mg_stores g) \<and> holds doc w' k (r_message_ids rep) (r_part_sizes rep) (concat bs))
       \<and> (\<forall>v k. fv_message_ids v = ids \<and> (k \<in> fst ` set (mr_mirrors res) \<or> k \<in> fst ` set (mr_replicas res))
            \<longrightarrow> fv_has_copy_in (apply_to res v) k))"
proof (cases "ids = []")
  case True
  then show ?thesis using assms(5) by (auto simp: mirror_parts_def)
next
  case False
  let ?res = "\<lparr>mr_mirrors = [], mr_replicas = []\<rparr>" and ?src = "case source of None \<Rightarrow> mg_primary g | Some s \<Rightarrow> s"
  have loop: "mirror_loop io g ?src ids only lcl (mg_stores g) sizes ?res w = (r, w')" using assms(5) False by (simp add: mirror_parts_def)
  note ex = mirror_parts_copies [OF assms]
  have total: "\<exists>res. r = Inr res" if "\<not> mg_strict g" using mirror_loop_lenient [OF that, of io ?src ids only lcl "mg_stores g" sizes ?res w] loop by auto
  have len: "length ids = length bs" using assms(2) by (auto simp: parts_in_def aligned_def dest: list_all2_lengthD)
  have "concat bs \<noteq> []" using assms(2) False len by (cases bs) (auto simp: parts_in_def)
  then have some: "r_message_ids rep \<noteq> []" if "holds doc w' k (r_message_ids rep) (r_part_sizes rep) (concat bs)" for k rep
    using that by (auto simp: holds_def aligned_def)
  have copy: "fv_has_copy_in (apply_to res v) k" if res: "r = Inr res" and v: "fv_message_ids v = ids"
      and k: "k \<in> fst ` set (mr_mirrors res) \<or> k \<in> fst ` set (mr_replicas res)" for res v k
    using k
  proof
    assume "k \<in> fst ` set (mr_mirrors res)"
    from update_all_hit [OF this, of "fv_mirrors v"] obtain "is" where i: "(k, is) \<in> set (mr_mirrors res)"
        "map_of (dict_update_all (fv_mirrors v) (mr_mirrors res)) k = Some is" by blast
    have "aligned doc w' k is bs" using ex(2) [OF res] i(1) by (auto simp: copies_ok_def)
    then have "aligned_complete is ids" by (rule aligned_is_copy) (use len False in auto)
    then show ?thesis using i(2) v by (simp add: fv_has_copy_in_def apply_to_def)
  next
    assume "k \<in> fst ` set (mr_replicas res)"
    from update_all_hit [OF this, of "fv_replicas v"] obtain rep where i: "(k, rep) \<in> set (mr_replicas res)"
        "map_of (dict_update_all (fv_replicas v) (mr_replicas res)) k = Some rep" by blast
    then have "holds doc w' k (r_message_ids rep) (r_part_sizes rep) (concat bs)" using ex(2) [OF res] by (auto simp: copies_ok_def)
    then have "r_message_ids rep \<noteq> []" by (rule some)
    then show ?thesis using i(2) by (simp add: fv_has_copy_in_def apply_to_def)
  qed
  show ?thesis
  proof (intro conjI impI allI)
    show "keeps doc w w'" by (rule ex(1))
    show "\<exists>res. r = Inr res" if "\<not> mg_strict g" by (rule total [OF that])
    fix res assume res: "r = Inr res"
    show "\<forall>(k, is) \<in> set (mr_mirrors res). k \<in> set (mg_stores g) \<and> aligned doc w' k is bs"
      "\<forall>(k, rep) \<in> set (mr_replicas res). k \<in> set (mg_stores g) \<and> holds doc w' k (r_message_ids rep) (r_part_sizes rep) (concat bs)"
      using ex(2) [OF res] by (simp_all add: copies_ok_def)
    fix v :: file_version and k assume "fv_message_ids v = ids \<and> (k \<in> fst ` set (mr_mirrors res) \<or> k \<in> fst ` set (mr_replicas res))"
    then show "fv_has_copy_in (apply_to res v) k" using copy [OF res] by blast
  qed
qed

theorem mirror_parts_exact_witness:
  "\<exists>res w'. mirror_parts copy_shelf (copy_group ''tg:-1'' [''dc:9'']) [1, 2] None None None None two_parts = (Inr res, w')
    \<and> (\<forall>(k, rep) \<in> set (mr_replicas res). holds shelf_doc w' k (r_message_ids rep) (r_part_sizes rep) [1, 2, 3, 4])"
proof -
  obtain r w' where m: "mirror_parts copy_shelf (copy_group ''tg:-1'' [''dc:9'']) [1, 2] None None None None two_parts = (r, w')" by (rule prod.exhaust)
  have "parts_in shelf_doc two_parts (case None of None \<Rightarrow> mg_primary (copy_group ''tg:-1'' [''dc:9'']) | Some s \<Rightarrow> s) [1, 2] [[1, 2, 3], [4]]"
    using two_parts_in by (simp add: copy_group_def)
  from mirror_parts_exact [OF copy_shelf_laws this _ _ m] m show ?thesis
    by (auto simp: copy_group_def reads_local_def)
qed

text \<open>C17: A version that still lives in a former primary is copied into the current one: when \<open>copy_into_primary\<close> returns,
  the version is the primary's own, its messages there hold its bytes in parts of the recorded sizes, and
  the former primary still counts as a complete copy.\<close>

theorem copy_into_primary_exact:
  assumes "copy_laws io doc" and "relocatable v" and "fv_store v = Some s" and "s \<noteq> mg_primary g" and "store_of g s"
    and "parts_in doc w s (fv_message_ids v) bs" and "length (fv_part_sizes v) = length (fv_message_ids v) \<longrightarrow> fv_part_sizes v = sizes_are bs"
    and "\<not> fv_has_copy_in v (mg_primary g)" and "copy_into_primary io g v w = (Inr b, v', w')"
  shows "b \<and> fv_store v' = Some (mg_primary g) \<and> holds doc w' (mg_primary g) (fv_message_ids v') (fv_part_sizes v') (concat bs)
    \<and> fv_has_copy_in v' s \<and> keeps doc w w'"
proof -
  let ?p = "mg_primary g" and ?ids = "fv_message_ids v" and ?ns = "sizes_are bs"
  have al: "aligned doc w s ?ids bs" and ne: "?ids \<noteq> []" using assms(2,6) by (simp_all add: parts_in_def relocatable_def fv_is_valid_def)
  have len: "length ?ids = length bs" using al by (auto simp: aligned_def dest: list_all2_lengthD)
  have none: "reads_local None bs" by (simp add: reads_local_def)
  have sizes: "(if length (fv_part_sizes v) = length ?ids then Inr (fv_part_sizes v) else lookup_part_sizes io s ?ids w) = Inr ?ns"
    using assms(3-5,7,9) lookup_part_sizes_exact [OF assms(1) al]
    by (auto simp: copy_into_primary_def Let_def split: if_splits sum.splits prod.splits)
  have has: "fv_has_copy_in v s" using assms(2,3) by (simp add: fv_has_copy_in_def relocatable_def)
  show ?thesis
  proof (cases "fits_aligned g ?p s ?ns")
    case True
    obtain ids w1 where c: "copy_to io g ?p s ?ids [] None w = (Inr ids, w1)"
      using assms(3-5,9) sizes True by (auto simp: copy_into_primary_def Let_def split: prod.splits sum.splits)
    let ?v = "v\<lparr>fv_mirrors := AList.update ?p ids (fv_mirrors v), fv_part_sizes := ?ns\<rparr>"
    have out: "w' = w1" "v' = fv_relocate ?p ?v" "b = fv_owned_by v' ?p"
      using assms(3-5,9) sizes True c by (auto simp: copy_into_primary_def Let_def)
    have ex: "keeps doc w w1" "aligned doc w1 ?p ids bs" using copy_to_exact [OF assms(1,6) none _ c] ne by auto
    have comp: "aligned_complete ids (fv_message_ids ?v)" using aligned_is_copy [OF ex(2)] len ne by simp
    have rel: "relocatable ?v" using assms(2,3,4) by (auto simp: relocatable_def fv_is_valid_def update_conv')
    have hit: "map_of (fv_mirrors ?v) ?p = Some ids" by (simp add: update_conv')
    have "fv_has_copy_in v' s = fv_has_copy_in ?v s" "fv_store v' = Some ?p"
      using relocate_aligned_copies [OF rel _ assms(4) hit comp] assms(3) by (simp_all add: out(2))
    moreover have "fv_has_copy_in ?v s" using assms(2,3) by (simp add: fv_has_copy_in_def relocatable_def fv_is_valid_def)
    moreover have "fv_message_ids v' = ids" "fv_part_sizes v' = ?ns"
      using assms(3,4) hit comp by (simp_all add: out(2) fv_relocate_def Let_def)
    ultimately show ?thesis using ex out by (auto simp: holds_def fv_owned_by_def)
  next
    case False
    obtain rep w1 where c: "replicate_to io ?p s ?ids ?ns None w = (Inr rep, w1)"
      using assms(3-5,9) sizes False by (auto simp: copy_into_primary_def Let_def split: prod.splits sum.splits)
    let ?v = "v\<lparr>fv_replicas := AList.update ?p rep (fv_replicas v), fv_part_sizes := ?ns\<rparr>"
    have out: "w' = w1" "v' = fv_relocate ?p ?v" "b = fv_owned_by v' ?p"
      using assms(3-5,9) sizes False c by (auto simp: copy_into_primary_def Let_def)
    have ex: "keeps doc w w1" "holds doc w1 ?p (r_message_ids rep) (r_part_sizes rep) (concat bs)"
      using replicate_to_exact [OF assms(1,6) none ne c] by auto
    have "concat bs \<noteq> []" using assms(6) ne len by (cases bs) (auto simp: parts_in_def)
    then have some: "r_message_ids rep \<noteq> []" using ex(2) by (auto simp: holds_def aligned_def)
    have rel: "relocatable ?v" using assms(2) by (auto simp: relocatable_def fv_is_valid_def)
    have hit: "map_of (fv_replicas ?v) ?p = Some rep" by (simp add: update_conv')
    have no: "\<forall>ids. map_of (fv_mirrors ?v) ?p = Some ids \<longrightarrow> \<not> aligned_complete ids (fv_message_ids ?v)"
      using assms(8) by (auto simp: fv_has_copy_in_def)
    have "fv_has_copy_in v' s = fv_has_copy_in ?v s" "fv_store v' = Some ?p"
      using relocate_replica_copies [OF rel _ assms(4) no hit some] assms(3) by (simp_all add: out(2))
    moreover have "fv_has_copy_in ?v s" using assms(2,3) by (simp add: fv_has_copy_in_def relocatable_def fv_is_valid_def)
    moreover have "fv_message_ids v' = r_message_ids rep" "fv_part_sizes v' = r_part_sizes rep"
      using assms(3,4) hit some no
      by (auto simp: out(2) fv_relocate_def relocate_via_replica_def relocate_to_replica_def Let_def split: option.splits)
    ultimately show ?thesis using ex out by (auto simp: fv_owned_by_def)
  qed
qed

theorem copy_into_primary_exact_witness:
  "\<exists>v' w'. copy_into_primary copy_shelf (copy_group ''dc:9'' [''tg:-1'']) (example_version\<lparr>fv_message_ids := [1, 2], fv_part_sizes := [],
        fv_mirrors := [], fv_replicas := []\<rparr>) two_parts = (Inr True, v', w')
    \<and> fv_store v' = Some ''dc:9'' \<and> holds shelf_doc w' ''dc:9'' (fv_message_ids v') (fv_part_sizes v') [1, 2, 3, 4] \<and> fv_has_copy_in v' ''tg:-1''"
proof -
  let ?g = "copy_group ''dc:9'' [''tg:-1'']" and ?v = "example_version\<lparr>fv_message_ids := [1, 2], fv_part_sizes := [], fv_mirrors := [], fv_replicas := []\<rparr>"
  have store: "fv_store ?v = Some ''tg:-1''" by (simp add: example_version_def)
  have docs: "shelf_doc two_parts ''tg:-1'' 1 = Some [1, 2, 3]" "shelf_doc two_parts ''tg:-1'' 2 = Some [4]"
    by (simp_all add: shelf_doc_def two_parts_def)
  have sizes: "lookup_part_sizes copy_shelf ''tg:-1'' [1, 2] two_parts = Inr [3, 1]"
    by (simp add: lookup_part_sizes_def copy_shelf_def docs)
  have "\<not> fits_aligned ?g ''dc:9'' ''tg:-1'' [3, 1]" by (simp add: fits_aligned_def copy_group_def dc_caps_def)
  moreover have "\<exists>rep w1. replicate_to copy_shelf ''dc:9'' ''tg:-1'' [1, 2] [3, 1] None two_parts = (Inr rep, w1)"
    by (simp add: replicate_to_def replica_content_def copy_shelf_def docs) (simp add: two_parts_def)
  then obtain rep w1 where "replicate_to copy_shelf ''dc:9'' ''tg:-1'' [1, 2] [3, 1] None two_parts = (Inr rep, w1)" by blast
  ultimately obtain b v' w' where c: "copy_into_primary copy_shelf ?g ?v two_parts = (Inr b, v', w')"
    using sizes by (simp add: copy_into_primary_def store copy_group_def store_of_def Let_def)
  have rel: "relocatable ?v" by (simp add: relocatable_def fv_is_valid_def)
  have "\<not> fv_has_copy_in ?v (mg_primary ?g)" by (simp add: fv_has_copy_in_def store copy_group_def)
  from copy_into_primary_exact [OF copy_shelf_laws rel store _ _ _ _ this c, of "[[1, 2, 3], [4]]"] two_parts_in c show ?thesis
    by (auto simp: copy_group_def store_of_def)
qed

end
