(* ===== verification/FileOps.thy ===== *)
theory FileOps
  imports FileApi MirrorCopy
begin

text \<open>
  The operations of \<open>FileApi\<close> (\<open>src/tgdcfs/core/api/file.py\<close>) that write: copying a file with its history, uploading,
  redating and removing versions, and moving. A copy duplicates the content messages inside the primary and gives them
  a descriptor of their own; an upload writes the descriptor first, then the ref in the tree and then the
  metadata. The stores are parameters over a common world: \<open>fe_ask\<close> answers messages, \<open>fe_texts\<close> writes texts,
  \<open>fe_copies\<close> has the content operations, \<open>fe_within\<close> is the primary's \<open>copy_within\<close> and \<open>fe_delete\<close> the
  stores' \<open>delete_messages\<close>. \<open>push\<close> is the outcome of writing the metadata. The replication queue's
  callback is left out.
\<close>

record 'w file_env =
  fe_ask :: "'w \<Rightarrow> ask"
  fe_texts :: "'w store_io"
  fe_copies :: "'w copy_io"
  fe_within :: "int list \<Rightarrow> 'w \<Rightarrow> int list res \<times> 'w"
  fe_delete :: "string \<Rightarrow> int list \<Rightarrow> unit res"
  fe_repo :: fd_repo
  fe_group :: "mirror_group option"
  fe_inline :: bool

abbreviation "fe_key env \<equiv> fdr_key (fe_repo env)"

section \<open>Copying\<close>

definition copied_version :: "string \<Rightarrow> string \<Rightarrow> int list \<Rightarrow> file_version \<Rightarrow> file_version" where
  "copied_version key vid ids v = \<lparr>fv_id = vid, fv_updated_at = fv_updated_at v, fv_raw_size = INVALID_FILE_SIZE, fv_message_ids = ids,
     fv_part_sizes = fv_part_sizes v, fv_mirrors = [], fv_replicas = [], fv_store = Some key, fv_pending = False, fv_cacheable = True,
     fv_recorded_size = INVALID_FILE_SIZE\<rparr>"

text \<open>The loop of \<open>_duplicate_versions\<close> over the versions with their fresh ids; \<open>parts\<close> are the new messages not yet handed out.\<close>

fun duplicate_loop :: "'w file_env \<Rightarrow> (file_version \<times> string) list \<Rightarrow> int list \<Rightarrow> file_desc \<Rightarrow> 'w \<Rightarrow> file_desc res \<times> 'w" where
  "duplicate_loop env [] parts fd w = (Inr fd, w)"
| "duplicate_loop env ((v, vid) # vs) parts fd w =
     (let n = length (fv_message_ids v); nv = copied_version (fe_key env) vid (take n parts) v in
      case (case fe_group env of
              Some g \<Rightarrow> if fe_inline env \<and> n \<noteq> 0
                then mirror_parts (fe_copies env) g (fv_message_ids nv)
                       (if fv_part_sizes nv = [] then None else Some (fv_part_sizes nv)) None None None w
                else (Inr \<lparr>mr_mirrors = [], mr_replicas = []\<rparr>, w)
            | None \<Rightarrow> (Inr \<lparr>mr_mirrors = [], mr_replicas = []\<rparr>, w)) of
        (Inl ex, w) \<Rightarrow> (Inl ex, w)
      | (Inr copies, w) \<Rightarrow>
          (case add_version (apply_to copies nv) fd of
             Inl ex \<Rightarrow> (Inl ex, w)
           | Inr fd \<Rightarrow> duplicate_loop env vs (drop n parts) fd w))"

definition duplicate_versions :: "'w file_env \<Rightarrow> datetime \<Rightarrow> (nat \<Rightarrow> string) \<Rightarrow> file_desc \<Rightarrow> 'w \<Rightarrow> file_desc res \<times> 'w" where
  "duplicate_versions env now uuid fd w =
     (let versions = get_versions fd True False; vids = map uuid [0..<length versions] in
      case fe_within env (concat (map fv_message_ids versions)) w of
        (Inl ex, w) \<Rightarrow> (Inl ex, w)
      | (Inr parts, w) \<Rightarrow>
          (case new_file_desc (fd_name fd) [] [] now of
             Inl ex \<Rightarrow> (Inl ex, w)
           | Inr copied \<Rightarrow>
               (case duplicate_loop env (zip versions vids) parts copied w of
                  (Inl ex, w) \<Rightarrow> (Inl ex, w)
                | (Inr copied, w) \<Rightarrow>
                    let copied = copied\<lparr>fd_created_at := fd_created_at fd\<rparr> in
                    (Inr (case map_of (rev (zip (map fv_id versions) vids)) (fd_latest_version_id fd) of
                            Some latest \<Rightarrow> if latest = [] then copied else copied\<lparr>fd_latest_version_id := latest\<rparr>
                          | None \<Rightarrow> copied), w))))"

definition discard_orphans :: "'w file_env \<Rightarrow> file_desc \<Rightarrow> fd_resp option \<Rightarrow> requests" where
  "discard_orphans env fd resp =
     (let acc = (case resp of None \<Rightarrow> ([], []) | Some resp \<Rightarrow> ([frs_message_id resp], merge_mirror_ids (frs_mirrors resp) []))
      in snd (delete_messages (fe_delete env) (fe_repo env) (fold (collect_version_ids (fe_key env)) (get_versions fd False False) acc)))"

record 'w copy_outcome =
  co_res :: "nat res"
  co_tree :: fstree
  co_requests :: requests
  co_world :: 'w

definition sync_ref :: "nat \<Rightarrow> fd_resp \<Rightarrow> fstree \<Rightarrow> fstree" where
  "sync_ref a resp = upd_ref a (\<lambda>fr. fr\<lparr>fr_message_id := frs_message_id resp, fr_mirrors := frs_mirrors resp, fr_store := Some (frs_store resp)\<rparr>)"

definition file_copy ::
    "'w file_env \<Rightarrow> datetime \<Rightarrow> (nat \<Rightarrow> string) \<Rightarrow> unit res \<Rightarrow> nat \<Rightarrow> nat \<Rightarrow> string option \<Rightarrow> fstree \<Rightarrow> 'w \<Rightarrow> 'w copy_outcome" where
  "file_copy env now uuid push wh a name t w =
     (case fd_get (fe_ask env w) (fe_repo env) now True True (t_ref t a) of (fd, fr, _) \<Rightarrow>
      let t = upd_ref a (\<lambda>_. fr) t; failed = (\<lambda>ex t reqs w. \<lparr>co_res = Inl ex, co_tree = t, co_requests = reqs, co_world = w\<rparr>) in
      case fd of
        Inl ex \<Rightarrow> failed ex t [] w
      | Inr fd \<Rightarrow>
          (case duplicate_versions env now uuid fd w of
             (Inl ex, w) \<Rightarrow> failed ex t [] w
           | (Inr copied, w) \<Rightarrow>
               (case fd_save (fe_texts env) (fe_repo env) copied None w of
                  (Inl ex, w) \<Rightarrow> failed ex t (discard_orphans env copied None) w
                | (Inr resp, w) \<Rightarrow>
                    (case create_file_ref now (name_or name (fr_name fr)) (frs_message_id resp) wh t of
                       Inl ex \<Rightarrow> failed ex t (discard_orphans env copied (Some resp)) w
                     | Inr (c, t) \<Rightarrow>
                         let t = sync_ref c resp t in
                         (case push of
                            Inl ex \<Rightarrow> failed ex t [] w
                          | Inr _ \<Rightarrow> \<lparr>co_res = Inr c, co_tree = t, co_requests = [], co_world = w\<rparr>)))))"

section \<open>Uploading and changing\<close>

text \<open>
  \<open>nv\<close> is what making the new version answered (\<open>new_version\<close>); a second attempt makes it again.
\<close>

definition create_new_file ::
    "'w file_env \<Rightarrow> datetime \<Rightarrow> string \<Rightarrow> file_version option res \<Rightarrow> unit res \<Rightarrow> nat \<Rightarrow> string \<Rightarrow> fstree \<Rightarrow> 'w \<Rightarrow> file_desc res \<times> fstree \<times> 'w" where
  "create_new_file env now uuid nv push d name t w =
     (case create_file_desc (fe_ask env w) (fe_texts env) (fe_repo env) now uuid nv name w of
        (Inl ex, _, w) \<Rightarrow> (Inl ex, t, w)
      | (Inr resp, _, w) \<Rightarrow>
          (case create_file_ref now name (frs_message_id resp) d t of
             Inl ex \<Rightarrow> (Inl ex, t, w)
           | Inr (a, t) \<Rightarrow> (rbind push (\<lambda>_. Inr (frs_fd resp)), sync_ref a resp t, w)))"

definition sync_file_ref :: "unit res \<Rightarrow> nat \<Rightarrow> fd_resp \<Rightarrow> fstree \<Rightarrow> unit res \<times> fstree" where
  "sync_file_ref push a resp t =
     (let fr = t_ref t a in
      if fr_message_id fr \<noteq> frs_message_id resp \<or> \<not> dict_eq (fr_mirrors fr) (frs_mirrors resp) \<or> fr_store fr \<noteq> Some (frs_store resp)
      then (push, sync_ref a resp t)
      else (Inr (), t))"

definition stat_invalidate :: "nat \<Rightarrow> fstree \<Rightarrow> fstree" where
  "stat_invalidate a = upd_ref a (\<lambda>fr. fr\<lparr>fr_stat := None, fr_stat_epoch := fr_stat_epoch fr + 1\<rparr>)"

text \<open>What \<open>_update_existing_file\<close>, \<open>set_last_modified\<close> and the removal of a version share.\<close>

definition settle_change ::
    "unit res \<Rightarrow> nat \<Rightarrow> fstree \<Rightarrow> fd_resp res \<times> file_ref option \<times> 'w \<Rightarrow> file_desc res \<times> fstree \<times> 'w" where
  "settle_change push a t = (\<lambda>(x, fr, w).
     let t = (case fr of Some fr \<Rightarrow> upd_ref a (\<lambda>_. fr) t | None \<Rightarrow> t) in
     case x of
       Inl ex \<Rightarrow> (Inl ex, stat_invalidate a t, w)
     | Inr resp \<Rightarrow> (case sync_file_ref push a resp t of (p, t) \<Rightarrow> (rbind p (\<lambda>_. Inr (frs_fd resp)), stat_invalidate a t, w)))"

definition update_existing_file ::
    "'w file_env \<Rightarrow> datetime \<Rightarrow> string \<Rightarrow> string option \<Rightarrow> file_version option res \<Rightarrow> unit res \<Rightarrow> nat \<Rightarrow> fstree \<Rightarrow> 'w \<Rightarrow> file_desc res \<times> fstree \<times> 'w" where
  "update_existing_file env now uuid version_id nv push a t w =
     settle_change push a t
       (case version_id of
          Some vid \<Rightarrow>
            if vid = [] then append_file_version (fe_ask env w) (fe_texts env) (fe_repo env) now uuid nv [] (Some (t_ref t a)) w
            else update_file_version (fe_ask env w) (fe_texts env) (fe_repo env) now vid nv (t_ref t a) w
        | None \<Rightarrow> append_file_version (fe_ask env w) (fe_texts env) (fe_repo env) now uuid nv [] (Some (t_ref t a)) w)"

definition file_upload ::
    "'w file_env \<Rightarrow> datetime \<Rightarrow> string \<Rightarrow> string option \<Rightarrow> file_version option res \<Rightarrow> file_version option res \<Rightarrow> unit res \<Rightarrow> nat \<Rightarrow> string
      \<Rightarrow> fstree \<Rightarrow> 'w \<Rightarrow> file_desc res \<times> fstree \<times> 'w" where
  "file_upload env now uuid version_id nv nv2 push d name t w =
     (case find_file t d name of
        Inr a \<Rightarrow>
          (case update_existing_file env now uuid version_id nv push a t w of
             (Inl (FileOrDirectoryDoesNotExist _), t, w) \<Rightarrow> create_new_file env now uuid nv2 push d name t w
           | x \<Rightarrow> x)
      | Inl _ \<Rightarrow> create_new_file env now uuid nv push d name t w)"

definition file_set_last_modified ::
    "'w file_env \<Rightarrow> datetime \<Rightarrow> datetime \<Rightarrow> unit res \<Rightarrow> nat \<Rightarrow> fstree \<Rightarrow> 'w \<Rightarrow> file_desc res \<times> fstree \<times> 'w" where
  "file_set_last_modified env now when push a t w =
     settle_change push a t (fd_set_last_modified (fe_ask env w) (fe_texts env) (fe_repo env) now when (t_ref t a) w)"

definition collect_version_message_ids :: "ask \<Rightarrow> fd_repo \<Rightarrow> datetime \<Rightarrow> nat \<Rightarrow> string \<Rightarrow> fstree \<Rightarrow> message_ids \<times> fstree" where
  "collect_version_message_ids ask r now a vid t =
     (case fd_get ask r now False True (t_ref t a) of (fd, fr, _) \<Rightarrow>
       (case rbind fd (\<lambda>fd. case map_of (fd_versions fd) vid of None \<Rightarrow> Inl (KeyError vid) | Some v \<Rightarrow> Inr v) of
          Inl _ \<Rightarrow> ([], [])
        | Inr v \<Rightarrow> collect_version_ids (fdr_key r) v ([], []), upd_ref a (\<lambda>_. fr) t))"

definition rm_version ::
    "'w file_env \<Rightarrow> datetime \<Rightarrow> unit res \<Rightarrow> nat \<Rightarrow> string \<Rightarrow> fstree \<Rightarrow> 'w \<Rightarrow> unit res \<times> fstree \<times> requests \<times> 'w" where
  "rm_version env now push a vid t w =
     (case collect_version_message_ids (fe_ask env w) (fe_repo env) now a vid t of (acc, t) \<Rightarrow>
       (case settle_change push a t (delete_file_version (fe_ask env w) (fe_texts env) (fe_repo env) now vid (t_ref t a) w) of
          (Inl ex, t, w) \<Rightarrow> (Inl ex, t, [], w)
        | (Inr _, t, w) \<Rightarrow> (case delete_messages (fe_delete env) (fe_repo env) acc of (res, reqs) \<Rightarrow> (res, t, reqs, w))))"

definition file_move :: "datetime \<Rightarrow> unit res \<Rightarrow> nat \<Rightarrow> nat \<Rightarrow> string option \<Rightarrow> fstree \<Rightarrow> nat res \<times> fstree" where
  "file_move now push a to name t =
     (case relocate_file_ref now (fr_location (t_ref t a)) a to name t of
        (Inl ex, t) \<Rightarrow> (Inl ex, t)
      | (Inr m, t) \<Rightarrow> (rbind push (\<lambda>_. Inr m), t))"

section \<open>A copy has the history of its original\<close>

text \<open>\<open>copy_within\<close> as documented: new messages aligned with the old ones.\<close>

definition within_law :: "'w file_env \<Rightarrow> 'w documents \<Rightarrow> bool" where
  "within_law env doc \<longleftrightarrow> (\<forall>ids w r w'. fe_within env ids w = (r, w') \<longrightarrow> keeps doc w w'
     \<and> (\<forall>ids' bs. r = Inr ids' \<longrightarrow> aligned doc w (fe_key env) ids bs \<longrightarrow> aligned doc w' (fe_key env) ids' bs
          \<and> (\<forall>i \<in> set ids'. doc w (fe_key env) i = None)))"

text \<open>The entry \<open>v'\<close> of a copied descriptor is a copy of the version \<open>v\<close>, whose parts are \<open>B v\<close>.\<close>

definition copy_of :: "'w documents \<Rightarrow> 'w \<Rightarrow> string \<Rightarrow> (file_version \<Rightarrow> bytes list) \<Rightarrow> file_version \<times> string \<Rightarrow> string \<times> file_version \<Rightarrow> bool" where
  "copy_of doc w key B = (\<lambda>(v, vid) (k, v'). k = vid \<and> fv_id v' = vid \<and> fv_updated_at v' = fv_updated_at v \<and> fv_part_sizes v' = fv_part_sizes v
     \<and> fv_store v' = Some key \<and> aligned doc w key (fv_message_ids v') (B v)
     \<and> copies_ok doc w UNIV (B v) \<lparr>mr_mirrors = fv_mirrors v', mr_replicas = fv_replicas v'\<rparr>)"

lemma copy_of_keeps: "keeps doc w w' \<Longrightarrow> copy_of doc w key B x y \<Longrightarrow> copy_of doc w' key B x y"
  unfolding copy_of_def using aligned_keeps copies_ok_keeps by (auto split: prod.splits)

lemma update_all_set: "set (dict_update_all d e) \<subseteq> set d \<union> set e"
proof (induction e arbitrary: d)
  case (Cons p e)
  obtain k v where p: "p = (k, v)" by force
  have "set (dict_update_all (AList.update k v d) e) \<subseteq> set (AList.update k v d) \<union> set e" by (rule Cons.IH)
  moreover have "set (AList.update k v d) \<subseteq> insert (k, v) (set d)" by (rule update_subset)
  ultimately show ?case by (auto simp: p dict_update_all_def)
qed (simp add: dict_update_all_def)

lemma add_version_appends:
  assumes "add_version v fd = Inr fd'" and "fv_id v \<notin> fst ` set (fd_versions fd)"
  shows "fd_versions fd' = fd_versions fd @ [(fv_id v, v)]" and "fd_name fd' = fd_name fd"
  using assms by (auto simp: add_version_def rbind_Inr_iff update_new Let_def split: if_splits)

lemma aligned_split:
  assumes "aligned doc w key parts (bs @ cs)"
  shows "aligned doc w key (take (length bs) parts) bs" and "aligned doc w key (drop (length bs) parts) cs"
proof -
  obtain ps qs where p: "parts = ps @ qs" "aligned doc w key ps bs" "aligned doc w key qs cs"
    using assms unfolding aligned_def by (auto simp: list_all2_append2)
  moreover have "length ps = length bs" using p(2) by (auto simp: aligned_def dest: list_all2_lengthD)
  ultimately show "aligned doc w key (take (length bs) parts) bs" "aligned doc w key (drop (length bs) parts) cs" by simp_all
qed

text \<open>The parts \<open>B v\<close> belong to the messages of a version: as many as it has, none empty, of its recorded sizes.\<close>

definition parts_known :: "(file_version \<Rightarrow> bytes list) \<Rightarrow> file_version \<Rightarrow> bool" where
  "parts_known B v \<longleftrightarrow> length (fv_message_ids v) = length (B v) \<and> [] \<notin> set (B v)
     \<and> (length (fv_part_sizes v) = length (fv_message_ids v) \<longrightarrow> fv_part_sizes v = sizes_are (B v))"

text \<open>A version whose bytes can be copied: it has reached a store, and that store is the primary.\<close>

definition copyable :: "string \<Rightarrow> (file_version \<Rightarrow> bytes list) \<Rightarrow> file_version \<Rightarrow> bool" where
  "copyable key B v \<longleftrightarrow> \<not> fv_pending v \<and> fv_owned_by v key \<and> parts_known B v"

lemma duplicate_loop_copies:
  assumes laws: "copy_laws (fe_copies env) doc" and grp: "\<forall>g. fe_group env = Some g \<longrightarrow> mg_primary g = fe_key env"
    and "duplicate_loop env vs parts fd w = (Inr c, w')" and "aligned doc w (fe_key env) parts (concat (map (B \<circ> fst) vs))"
    and "\<forall>(v, vid) \<in> set vs. parts_known B v" and "distinct (map snd vs)" and "snd ` set vs \<inter> fst ` set (fd_versions fd) = {}"
  shows "keeps doc w w' \<and> fd_name c = fd_name fd \<and> (\<exists>new. fd_versions c = fd_versions fd @ new \<and> list_all2 (copy_of doc w' (fe_key env) B) vs new)"
  using assms(3-)
proof (induction vs arbitrary: parts fd w)
  case (Cons x vs)
  obtain v vid where x: "x = (v, vid)" by force
  let ?key = "fe_key env" and ?n = "length (fv_message_ids v)"
  let ?nv = "copied_version ?key vid (take ?n parts) v"
  have cv: "parts_known B v" using Cons.prems(3) x by simp
  then have n: "?n = length (B v)" by (simp add: parts_known_def)
  have own: "aligned doc w ?key (take ?n parts) (B v)" and rest: "aligned doc w ?key (drop ?n parts) (concat (map (B \<circ> fst) vs))"
    using aligned_split [of doc w ?key parts "B v" "concat (map (B \<circ> fst) vs)"] Cons.prems(2) by (simp_all add: x n comp_def)
  let ?mir = "case fe_group env of
      Some g \<Rightarrow> if fe_inline env \<and> ?n \<noteq> 0 then mirror_parts (fe_copies env) g (fv_message_ids ?nv)
          (if fv_part_sizes ?nv = [] then None else Some (fv_part_sizes ?nv)) None None None w
        else (Inr \<lparr>mr_mirrors = [], mr_replicas = []\<rparr>, w)
    | None \<Rightarrow> (Inr \<lparr>mr_mirrors = [], mr_replicas = []\<rparr>, w)"
  obtain copies w1 fd1 where m: "?mir = (Inr copies, w1)" and add: "add_version (apply_to copies ?nv) fd = Inr fd1"
      and loop: "duplicate_loop env vs (drop ?n parts) fd1 w1 = (Inr c, w')"
    using Cons.prems(1) by (auto simp: x Let_def split: prod.splits sum.splits)
  have copies: "keeps doc w w1 \<and> copies_ok doc w1 UNIV (B v) copies"
  proof (cases "\<exists>g. fe_group env = Some g \<and> fe_inline env \<and> ?n \<noteq> 0")
    case True
    then obtain g where g: "fe_group env = Some g" "fe_inline env" "?n \<noteq> 0" by blast
    have mp: "mirror_parts (fe_copies env) g (take ?n parts) (if fv_part_sizes v = [] then None else Some (fv_part_sizes v)) None None None w = (Inr copies, w1)"
      using m g by (simp add: copied_version_def cong: if_cong)
    have src: "parts_in doc w (case None of None \<Rightarrow> mg_primary g | Some s \<Rightarrow> s) (take ?n parts) (B v)"
      using own cv grp g(1) by (simp add: parts_in_def parts_known_def)
    have len: "length (take ?n parts) = ?n" using own n by (auto simp: aligned_def dest: list_all2_lengthD)
    have "keeps doc w w1" "copies_ok doc w1 (set (mg_stores g)) (B v) copies"
      using mirror_parts_copies [OF laws src _ _ mp] cv len by (auto simp: parts_known_def reads_local_def)
    then show ?thesis by (auto simp: copies_ok_def)
  next
    case False
    then have "copies = \<lparr>mr_mirrors = [], mr_replicas = []\<rparr>" "w1 = w" using m by (auto split: option.splits if_splits)
    then show ?thesis by (simp add: copies_ok_def)
  qed
  have fresh: "fv_id (apply_to copies ?nv) \<notin> fst ` set (fd_versions fd)"
    using Cons.prems(5) by (auto simp: x apply_to_def copied_version_def)
  note added = add_version_appends [OF add fresh]
  have id: "fv_id (apply_to copies ?nv) = vid" by (simp add: apply_to_def copied_version_def)
  have "set (dict_update_all [] (mr_mirrors copies)) \<subseteq> set (mr_mirrors copies)" "set (dict_update_all [] (mr_replicas copies)) \<subseteq> set (mr_replicas copies)"
    using update_all_set [of "[]" "mr_mirrors copies"] update_all_set [of "[]" "mr_replicas copies"] by auto
  then have "copies_ok doc w1 UNIV (B v) \<lparr>mr_mirrors = dict_update_all [] (mr_mirrors copies), mr_replicas = dict_update_all [] (mr_replicas copies)\<rparr>"
    using copies by (auto simp: copies_ok_def)
  then have one: "copy_of doc w1 ?key B x (vid, apply_to copies ?nv)"
    using aligned_keeps [OF conjunct1 [OF copies] own] by (simp add: copy_of_def x apply_to_def copied_version_def)
  have "aligned doc w1 ?key (drop ?n parts) (concat (map (B \<circ> fst) vs))" by (rule aligned_keeps [OF conjunct1 [OF copies] rest])
  from Cons.IH [OF loop this] Cons.prems(3-5) added(1)
  obtain new where new: "keeps doc w1 w'" "fd_name c = fd_name fd1" "fd_versions c = fd_versions fd1 @ new" "list_all2 (copy_of doc w' ?key B) vs new"
    by (auto simp: x id)
  have "list_all2 (copy_of doc w' ?key B) (x # vs) ((vid, apply_to copies ?nv) # new)" using new(4) copy_of_keeps [OF new(1) one] by simp
  then show ?case using new(1-3) added id keeps_trans [OF conjunct1 [OF copies] new(1)] by auto
qed simp

lemma sorted_versions:
  assumes "fd_wf fd"
  shows "set (get_versions fd True False) = set (map snd (fd_versions fd))" and "distinct (map fv_id (get_versions fd True False))"
  using distinct_ids_sorted [OF assms] by (simp_all add: get_versions_sorted)

lemma aligned_concat:
  "\<forall>v \<in> set vs. aligned doc w key (fv_message_ids v) (B v) \<Longrightarrow> aligned doc w key (concat (map fv_message_ids vs)) (concat (map B vs))"
  unfolding aligned_def by (induction vs) (auto intro: list_all2_appendI)

lemma duplicate_versions_copies:
  assumes laws: "copy_laws (fe_copies env) doc" "within_law env doc" and grp: "\<forall>g. fe_group env = Some g \<longrightarrow> mg_primary g = fe_key env"
    and uuid: "inj uuid" and wf: "fd_wf fd"
    and vs: "\<forall>v \<in> set (map snd (fd_versions fd)). parts_known B v \<and> aligned doc w (fe_key env) (fv_message_ids v) (B v)"
    and dup: "duplicate_versions env now uuid fd w = (Inr c, w')"
  shows "keeps doc w w'" and "fd_name c = fd_name fd" and "fd_created_at c = fd_created_at fd"
    and "list_all2 (copy_of doc w' (fe_key env) B) (zip (get_versions fd True False) (map uuid [0..<length (get_versions fd True False)])) (fd_versions c)"
    and "\<exists>parts w1. fe_within env (concat (map fv_message_ids (get_versions fd True False))) w = (Inr parts, w1)"
    and "i < length (get_versions fd True False) \<Longrightarrow> fv_id (get_versions fd True False ! i) = fd_latest_version_id fd \<Longrightarrow> uuid i \<noteq> []
      \<Longrightarrow> fd_latest_version_id c = uuid i"
proof -
  let ?vs = "get_versions fd True False" and ?key = "fe_key env"
  let ?vids = "map uuid [0..<length ?vs]"
  obtain parts w1 c0 c1 where st: "fe_within env (concat (map fv_message_ids ?vs)) w = (Inr parts, w1)" "new_file_desc (fd_name fd) [] [] now = Inr c0"
      "duplicate_loop env (zip ?vs ?vids) parts c0 w1 = (Inr c1, w')"
      "c = (case map_of (rev (zip (map fv_id ?vs) ?vids)) (fd_latest_version_id fd) of
         Some latest \<Rightarrow> if latest = [] then c1\<lparr>fd_created_at := fd_created_at fd\<rparr> else c1\<lparr>fd_created_at := fd_created_at fd, fd_latest_version_id := latest\<rparr>
       | None \<Rightarrow> c1\<lparr>fd_created_at := fd_created_at fd\<rparr>)"
    using dup by (auto simp: duplicate_versions_def Let_def split: prod.splits sum.splits)
  have c0: "fd_versions c0 = []" "fd_name c0 = fd_name fd" using st(2) by (auto simp: new_file_desc_def rbind_Inr_iff)
  have vs': "\<forall>v \<in> set ?vs. parts_known B v \<and> aligned doc w ?key (fv_message_ids v) (B v)" using vs sorted_versions(1) [OF wf] by simp
  have k: "keeps doc w w1" "aligned doc w1 ?key parts (concat (map B ?vs))"
    using laws(2) st(1) aligned_concat [of ?vs doc w ?key B] vs' unfolding within_law_def by blast+
  have "map (B \<circ> fst) (zip ?vs ?vids) = map B ?vs" by (simp flip: map_map)
  then have al: "aligned doc w1 ?key parts (concat (map (B \<circ> fst) (zip ?vs ?vids)))" using k(2) by simp
  have "\<forall>(v, vid) \<in> set (zip ?vs ?vids). parts_known B v" using vs' by (auto dest: set_zip_leftD)
  moreover have "distinct (map snd (zip ?vs ?vids))" using uuid by (simp add: distinct_map) (auto intro: inj_on_subset)
  ultimately have loop: "keeps doc w1 w' \<and> fd_name c1 = fd_name c0 \<and> (\<exists>new. fd_versions c1 = fd_versions c0 @ new \<and> list_all2 (copy_of doc w' ?key B) (zip ?vs ?vids) new)"
    using duplicate_loop_copies [OF laws(1) grp st(3) al] c0 by simp
  show "keeps doc w w'" using keeps_trans [OF k(1)] loop by blast
  show "fd_name c = fd_name fd" "fd_created_at c = fd_created_at fd"
    "list_all2 (copy_of doc w' ?key B) (zip ?vs ?vids) (fd_versions c)"
    using loop c0 st(4) by (auto split: option.splits if_splits)
  show "\<exists>parts w1. fe_within env (concat (map fv_message_ids ?vs)) w = (Inr parts, w1)" using st(1) by blast
  assume i: "i < length ?vs" "fv_id (?vs ! i) = fd_latest_version_id fd" "uuid i \<noteq> []"
  have d: "distinct (map fst (zip (map fv_id ?vs) ?vids))" using sorted_versions(2) [OF wf] by simp
  have "(fv_id (?vs ! i), uuid i) \<in> set (zip (map fv_id ?vs) ?vids)" using i(1) by (auto simp: in_set_zip intro!: exI [of _ i])
  then have "map_of (rev (zip (map fv_id ?vs) ?vids)) (fd_latest_version_id fd) = Some (uuid i)"
    using d i(2) by (intro map_of_is_SomeI) (simp_all add: rev_map [symmetric])
  then show "fd_latest_version_id c = uuid i" using st(4) i(3) by simp
qed

lemma duplicate_loop_pending:
  "duplicate_loop env vs parts fd w = (Inr c, w') \<Longrightarrow> \<forall>(k, v) \<in> set (fd_versions fd). \<not> fv_pending v \<Longrightarrow> \<forall>(k, v) \<in> set (fd_versions c). \<not> fv_pending v"
proof (induction vs arbitrary: parts fd w)
  case (Cons x vs)
  obtain v vid where x: "x = (v, vid)" by force
  obtain copies w1 fd1 where add: "add_version (apply_to copies (copied_version (fe_key env) vid (take (length (fv_message_ids v)) parts) v)) fd = Inr fd1"
      and loop: "duplicate_loop env vs (drop (length (fv_message_ids v)) parts) fd1 w1 = (Inr c, w')"
    using Cons.prems(1) by (auto simp: x Let_def split: prod.splits sum.splits)
  have "\<forall>(k, v) \<in> set (fd_versions fd1). \<not> fv_pending v"
    using add Cons.prems(2) by (auto simp: add_version_def rbind_Inr_iff apply_to_def copied_version_def Let_def split: if_splits dest!: subsetD [OF update_subset])
  from Cons.IH [OF loop this] show ?case .
qed simp

lemma duplicated_not_pending: "duplicate_versions env now uuid fd w = (Inr c, w') \<Longrightarrow> (k, v) \<in> set (fd_versions c) \<Longrightarrow> \<not> fv_pending v"
  by (auto simp: duplicate_versions_def new_file_desc_def rbind_Inr_iff Let_def split: prod.splits sum.splits option.splits if_splits
      dest!: duplicate_loop_pending)

text \<open>The copy's messages are all new.\<close>

lemma duplicate_loop_ids:
  assumes "duplicate_loop env vs parts fd w = (Inr c, w')" and "\<forall>(k, v) \<in> set (fd_versions fd). set (fv_message_ids v) \<subseteq> new" and "set parts \<subseteq> new"
  shows "\<forall>(k, v) \<in> set (fd_versions c). set (fv_message_ids v) \<subseteq> new"
  using assms
proof (induction vs arbitrary: parts fd w)
  case (Cons x vs)
  obtain v vid where x: "x = (v, vid)" by force
  let ?n = "length (fv_message_ids v)"
  let ?nv = "copied_version (fe_key env) vid (take ?n parts) v"
  obtain copies w1 fd1 where add: "add_version (apply_to copies ?nv) fd = Inr fd1"
      and loop: "duplicate_loop env vs (drop ?n parts) fd1 w1 = (Inr c, w')"
    using Cons.prems(1) by (auto simp: x Let_def split: prod.splits sum.splits)
  have id: "fv_id (apply_to copies ?nv) = vid" by (simp add: apply_to_def copied_version_def)
  have "fd_versions fd1 = AList.update vid (apply_to copies ?nv) (fd_versions fd)"
    using add unfolding add_version_def id by (auto simp: rbind_Inr_iff Let_def split: if_splits)
  then have "set (fd_versions fd1) \<subseteq> insert (vid, apply_to copies ?nv) (set (fd_versions fd))" by (simp add: update_subset)
  moreover have "set (fv_message_ids (apply_to copies ?nv)) \<subseteq> new"
    using Cons.prems(3) set_take_subset [of ?n parts] by (auto simp: apply_to_def copied_version_def)
  ultimately have "\<forall>(k, v) \<in> set (fd_versions fd1). set (fv_message_ids v) \<subseteq> new" using Cons.prems(2) by fastforce
  then show ?case using Cons.IH [OF loop] Cons.prems(3) set_drop_subset [of ?n parts] by blast
qed simp

lemma duplicated_fresh:
  assumes law: "within_law env doc" and wf: "fd_wf fd"
    and vs: "\<forall>v \<in> set (map snd (fd_versions fd)). parts_known B v \<and> aligned doc w (fe_key env) (fv_message_ids v) (B v)"
    and dup: "duplicate_versions env now uuid fd w = (Inr c, w')"
  shows "\<forall>(_, v') \<in> set (fd_versions c). \<forall>mid \<in> set (fv_message_ids v'). doc w (fe_key env) mid = None"
proof -
  let ?vs = "get_versions fd True False"
  obtain parts w1 c0 c1 where st: "fe_within env (concat (map fv_message_ids ?vs)) w = (Inr parts, w1)" "new_file_desc (fd_name fd) [] [] now = Inr c0"
      "duplicate_loop env (zip ?vs (map uuid [0..<length ?vs])) parts c0 w1 = (Inr c1, w')" "fd_versions c = fd_versions c1"
    using dup by (auto simp: duplicate_versions_def Let_def split: prod.splits sum.splits option.splits if_splits)
  have "\<forall>v \<in> set ?vs. aligned doc w (fe_key env) (fv_message_ids v) (B v)" using vs sorted_versions(1) [OF wf] by simp
  then have "set parts \<subseteq> {mid. doc w (fe_key env) mid = None}"
    using law st(1) aligned_concat [of ?vs doc w "fe_key env" B] unfolding within_law_def by blast
  moreover have "fd_versions c0 = []" using st(2) by (auto simp: new_file_desc_def rbind_Inr_iff)
  ultimately show ?thesis using duplicate_loop_ids [OF st(3)] st(4) by fastforce
qed

text \<open>A file of two parts in a store in memory.\<close>

fun shelf_within :: "int list \<Rightarrow> shelf \<Rightarrow> int list res \<times> shelf" where
  "shelf_within [] w = (Inr [], w)"
| "shelf_within (i # ids) (f, n) =
     (case shelf_doc (f, n) ''tg:-1'' i of
        None \<Rightarrow> (Inl (MessageNotFound i), (f, n))
      | Some b \<Rightarrow>
          (case shelf_within ids (f(''tg:-1'' := (f ''tg:-1'')(int n + 1 := Some b)), Suc n) of
             (Inl ex, w) \<Rightarrow> (Inl ex, w)
           | (Inr new, w) \<Rightarrow> (Inr ((int n + 1) # new), w)))"

definition shelf_env :: "shelf file_env" where
  "shelf_env = \<lparr>fe_ask = cio_messages copy_shelf,
     fe_texts = \<lparr>io_send_text = (\<lambda>_ _ w. (Inl OSError, w)), io_edit_text = (\<lambda>_ _ _ w. (Inl OSError, w))\<rparr>,
     fe_copies = copy_shelf, fe_within = shelf_within, fe_delete = (\<lambda>_ _. Inr ()), fe_repo = mirror_repo, fe_group = None, fe_inline = True\<rparr>"

lemma shelf_within_new:
  "shelf_within ids w = (r, w') \<Longrightarrow> keeps shelf_doc w w' \<and> (\<forall>new. r = Inr new \<longrightarrow> (\<forall>i \<in> set new. int (snd w) < i)
    \<and> (\<forall>bs. aligned shelf_doc w ''tg:-1'' ids bs \<longrightarrow> aligned shelf_doc w' ''tg:-1'' new bs))"
proof (induction ids w arbitrary: r rule: shelf_within.induct)
  case (2 i ids f n)
  show ?case
  proof (cases "shelf_doc (f, n) ''tg:-1'' i")
    case None
    then show ?thesis using "2.prems" by auto
  next
    case (Some b)
    let ?w1 = "(f(''tg:-1'' := (f ''tg:-1'')(int n + 1 := Some b)), Suc n)"
    obtain r1 where r1: "shelf_within ids ?w1 = (r1, w')" "r = (case r1 of Inl ex \<Rightarrow> Inl ex | Inr new \<Rightarrow> Inr ((int n + 1) # new))"
      using "2.prems" Some by (auto split: prod.splits sum.splits)
    note IH = "2.IH" [OF Some r1(1)]
    have k: "keeps shelf_doc (f, n) ?w1" by (auto simp: keeps_def shelf_doc_def split: if_splits)
    have "shelf_doc ?w1 ''tg:-1'' (int n + 1) = Some b" by (simp add: shelf_doc_def)
    then have own: "shelf_doc w' ''tg:-1'' (int n + 1) = Some b" using IH by (auto simp: keeps_def)
    have "aligned shelf_doc w' ''tg:-1'' ((int n + 1) # new) bs" if al: "r1 = Inr new" "aligned shelf_doc (f, n) ''tg:-1'' (i # ids) bs" for new bs
    proof -
      obtain bs' where bs: "bs = b # bs'" "aligned shelf_doc (f, n) ''tg:-1'' ids bs'"
        using al(2) Some by (cases bs) (auto simp: aligned_def)
      then have "aligned shelf_doc w' ''tg:-1'' new bs'" using IH al(1) aligned_keeps [OF k] by blast
      then show ?thesis using own by (simp add: bs(1) aligned_def)
    qed
    moreover have "\<forall>i \<in> set new. int n < i" if "r1 = Inr new" for new using IH that by auto
    ultimately show ?thesis using IH r1(2) keeps_trans [OF k] by (auto split: sum.splits)
  qed
qed simp

lemma shelf_env_laws: "copy_laws (fe_copies shelf_env) shelf_doc" "within_law shelf_env shelf_doc"
proof -
  show "copy_laws (fe_copies shelf_env) shelf_doc" using copy_shelf_laws by (simp add: shelf_env_def)
  show "within_law shelf_env shelf_doc"
    unfolding within_law_def using shelf_within_new by (fastforce simp: shelf_env_def mirror_repo_def shelf_doc_def)
qed

definition letters :: "nat \<Rightarrow> string" where
  "letters i = replicate (Suc i) (CHR ''a'')"

lemma letters_fresh: "inj letters" "\<forall>i. letters i \<noteq> []"
  by (auto simp: letters_def inj_def dest: arg_cong [of _ _ length])

definition shelf_desc :: "file_version \<Rightarrow> file_desc" where
  "shelf_desc v = \<lparr>fd_name = ''f'', fd_latest_version_id = fv_id v, fd_created_at = Naive 0, fd_versions = [(fv_id v, v)], fd_complete = True\<rparr>"

abbreviation "shelf_version \<equiv> example_version\<lparr>fv_message_ids := [1, 2], fv_part_sizes := [3, 1], fv_mirrors := [], fv_replicas := []\<rparr>"

abbreviation "waiting_version \<equiv> pending_version ''v1'' 5 (Naive 1700000000000000)"

lemma shelf_desc_wf: "fd_wf (shelf_desc shelf_version)" "fd_wf (shelf_desc waiting_version)"
  by (simp_all add: fd_wf_def shelf_desc_def dict_ok_def validate_name_def fv_wf_def updated_at_timestamp_def ts_def
      pending_version_def example_version_def COMPACT_IDS_THRESHOLD_def normalize_store_key_def
      parse_store_key_def make_store_key_def KEY_SEPARATOR_def isalpha_def isalpha_char_def)

lemma shelf_duplicates:
  assumes "fv_updated_at v = Naive n" and "shelf_within (fv_message_ids v) w = (Inr parts, w1)"
  shows "\<exists>c w'. duplicate_versions shelf_env (Naive 0) letters (shelf_desc v) w = (Inr c, w')"
proof -
  have one: "get_versions (shelf_desc v) True False = [v]" by (simp add: get_versions_sorted shelf_desc_def)
  obtain c0 where c0: "new_file_desc (fd_name (shelf_desc v)) [] [] (Naive 0) = Inr c0" "fd_latest_version_id c0 = INVALID_VERSION_ID" "fd_created_at c0 = Naive 0"
    by (simp add: new_file_desc_def shelf_desc_def validate_name_def INVALID_VERSION_ID_def)
  have "\<exists>fd. add_version (apply_to res (copied_version key vid ids v)) c0 = Inr fd" for res key vid ids
    using assms(1) c0(2,3) by (simp add: add_version_def apply_to_def copied_version_def dt_lt_def Let_def)
  then obtain fd where "add_version (apply_to \<lparr>mr_mirrors = [], mr_replicas = []\<rparr>
      (copied_version ''tg:-1'' (letters 0) (take (length (fv_message_ids v)) parts) v)) c0 = Inr fd" by blast
  then show ?thesis using assms(2) c0(1)
    by (simp add: duplicate_versions_def one shelf_env_def mirror_repo_def Let_def)
qed

lemma two_parts_within: "\<exists>parts w1. shelf_within [1, 2] two_parts = (Inr parts, w1)"
  by (simp add: two_parts_def shelf_doc_def)

text \<open>C18: A copied file has the history of its original, when every version of the original has reached a store and is owned by the primary:
  for every version, in the order of their dates, the copy has one with the same date and the same part sizes, owned by the primary and not pending,
  whose new messages in the primary hold the bytes that the original's messages hold there, as do the mirrors and replicas recorded
  for it; none of its messages existed before, and the copy serves the version that corresponds to the one the original serves. The
  original's documents stay as they are.\<close>

theorem copy_keeps_history:
  assumes "copy_laws (fe_copies env) doc" and "within_law env doc" and "\<forall>g. fe_group env = Some g \<longrightarrow> mg_primary g = fe_key env"
    and "inj uuid" and "\<forall>i. uuid i \<noteq> []" and "fd_wf fd"
    and vs: "\<forall>v \<in> set (map snd (fd_versions fd)). copyable (fe_key env) B v \<and> aligned doc w (fe_key env) (fv_message_ids v) (B v)"
    and dup: "duplicate_versions env now uuid fd w = (Inr c, w')"
  shows "keeps doc w w' \<and> fd_name c = fd_name fd \<and> fd_created_at c = fd_created_at fd
    \<and> length (fd_versions c) = length (get_versions fd True False)
    \<and> (\<forall>i < length (get_versions fd True False). let v = get_versions fd True False ! i; v' = snd (fd_versions c ! i) in
         fst (fd_versions c ! i) = uuid i \<and> fv_updated_at v' = fv_updated_at v \<and> fv_part_sizes v' = fv_part_sizes v
         \<and> fv_store v' = Some (fe_key env) \<and> \<not> fv_pending v'
         \<and> aligned doc w' (fe_key env) (fv_message_ids v') (B v)
         \<and> (\<forall>(k, ids) \<in> set (fv_mirrors v'). aligned doc w' k ids (B v))
         \<and> (\<forall>(k, rep) \<in> set (fv_replicas v'). holds doc w' k (r_message_ids rep) (r_part_sizes rep) (concat (B v)))
         \<and> (fv_id v = fd_latest_version_id fd \<longrightarrow> fd_latest_version_id c = uuid i))
    \<and> (\<forall>(_, v') \<in> set (fd_versions c). \<forall>mid \<in> set (fv_message_ids v'). doc w (fe_key env) mid = None)"
proof -
  let ?vs = "get_versions fd True False"
  have known: "\<forall>v \<in> set (map snd (fd_versions fd)). parts_known B v \<and> aligned doc w (fe_key env) (fv_message_ids v) (B v)"
    using vs by (simp add: copyable_def)
  note cp = duplicate_versions_copies [OF assms(1-4,6) known dup]
  have len: "length (fd_versions c) = length ?vs" using list_all2_lengthD [OF cp(4)] by simp
  have "copy_of doc w' (fe_key env) B (?vs ! i, uuid i) (fd_versions c ! i)" if "i < length ?vs" for i
    using list_all2_nthD2 [OF cp(4), of i] that len by simp
  moreover have "\<not> fv_pending (snd (fd_versions c ! i))" if "i < length ?vs" for i
    using duplicated_not_pending [OF dup, of "fst (fd_versions c ! i)"] that len by simp
  moreover have "\<forall>(_, v') \<in> set (fd_versions c). \<forall>mid \<in> set (fv_message_ids v'). doc w (fe_key env) mid = None"
    by (rule duplicated_fresh [OF assms(2,6) known dup])
  ultimately show ?thesis using cp(1-3) cp(6) len assms(5)
    by (auto simp: copy_of_def copies_ok_def Let_def split_def)
qed

theorem copy_keeps_history_witness:
  "\<exists>c w'. duplicate_versions shelf_env (Naive 0) letters (shelf_desc shelf_version) two_parts = (Inr c, w')
    \<and> aligned shelf_doc w' ''tg:-1'' (fv_message_ids (snd (fd_versions c ! 0))) [[1, 2, 3], [4]] \<and> fd_latest_version_id c = ''a''"
proof -
  have date: "fv_updated_at shelf_version = Naive 1700000000123456" by (simp add: example_version_def)
  obtain c w' where dup: "duplicate_versions shelf_env (Naive 0) letters (shelf_desc shelf_version) two_parts = (Inr c, w')"
    using two_parts_within shelf_duplicates [OF date] by fastforce
  have one: "get_versions (shelf_desc shelf_version) True False = [shelf_version]" by (simp add: get_versions_sorted shelf_desc_def)
  have vs: "\<forall>v \<in> set (map snd (fd_versions (shelf_desc shelf_version))). copyable (fe_key shelf_env) (\<lambda>_. [[1, 2, 3], [4]]) v
      \<and> aligned shelf_doc two_parts (fe_key shelf_env) (fv_message_ids v) [[1, 2, 3], [4]]"
    using two_parts_in
    by (simp add: shelf_desc_def copyable_def parts_known_def fv_owned_by_def example_version_def shelf_env_def mirror_repo_def parts_in_def)
  have grp: "\<forall>g. fe_group shelf_env = Some g \<longrightarrow> mg_primary g = fe_key shelf_env" by (simp add: shelf_env_def)
  from copy_keeps_history [OF shelf_env_laws grp letters_fresh shelf_desc_wf(1) vs dup] dup one show ?thesis
    by (auto simp: Let_def shelf_env_def mirror_repo_def shelf_desc_def letters_def)
qed

text \<open>C36: A version that was accepted into the local cache and has not reached a store yet is lost by copying:
  it has no messages, so the copy's version has none either, but it is not marked pending, so
  nobody can read it, not even the instance that holds the bytes.\<close>

theorem copy_loses_pending:
  assumes "copy_laws (fe_copies env) doc" and "within_law env doc" and "\<forall>g. fe_group env = Some g \<longrightarrow> mg_primary g = fe_key env"
    and "inj uuid" and "\<forall>i. uuid i \<noteq> []" and "fd_wf fd"
    and "\<forall>v \<in> set (map snd (fd_versions fd)). parts_known B v \<and> aligned doc w (fe_key env) (fv_message_ids v) (B v)"
    and "duplicate_versions env now uuid fd w = (Inr c, w')"
    and "map_of (fd_versions fd) (fd_latest_version_id fd) = Some v" and "fv_pending v" and "fv_message_ids v = []"
  shows "\<exists>v'. map_of (fd_versions c) (fd_latest_version_id c) = Some v' \<and> fv_message_ids v' = [] \<and> \<not> fv_pending v' \<and> \<not> readable_locally (fe_repo env) v'"
proof -
  let ?vs = "get_versions fd True False"
  note cp = duplicate_versions_copies [OF assms(1-4,6-8)]
  have v: "(fd_latest_version_id fd, v) \<in> set (fd_versions fd)" using map_of_SomeD [OF assms(9)] .
  then have id: "fv_id v = fd_latest_version_id fd" using assms(6) by (auto simp: fd_wf_def)
  have "v \<in> set ?vs" using v sorted_versions(1) [OF assms(6)] by force
  then obtain i where i: "i < length ?vs" "?vs ! i = v" by (auto simp: in_set_conv_nth)
  have len: "length (fd_versions c) = length ?vs" using list_all2_lengthD [OF cp(4)] by simp
  have "copy_of doc w' (fe_key env) B (v, uuid i) (fd_versions c ! i)" using list_all2_nthD2 [OF cp(4), of i] i len by simp
  then obtain v' where v': "fd_versions c ! i = (uuid i, v')" "aligned doc w' (fe_key env) (fv_message_ids v') (B v)" by (auto simp: copy_of_def)
  have "B v = []" using assms(7,11) v by (force simp: parts_known_def)
  then have none: "fv_message_ids v' = []" using v'(2) by (simp add: aligned_def)
  have pend: "\<not> fv_pending v'" using duplicated_not_pending [OF assms(8)] v'(1) i(1) len nth_mem [of i "fd_versions c"] by auto
  have "map fst (fd_versions c) = map uuid [0..<length ?vs]"
    using cp(4) by (auto simp: list_all2_conv_all_nth copy_of_def split_def intro: nth_equalityI [of "map fst _"])
  then have "distinct (map fst (fd_versions c))" using assms(4) by (simp add: distinct_map) (auto intro: inj_on_subset)
  moreover have "(uuid i, v') \<in> set (fd_versions c)" using v'(1) i(1) len nth_mem [of i "fd_versions c"] by simp
  moreover have "fd_latest_version_id c = uuid i" using cp(6) [OF i(1)] i(2) id assms(5) by simp
  ultimately have "map_of (fd_versions c) (fd_latest_version_id c) = Some v'" by simp
  then show ?thesis using none pend by (simp add: readable_locally_def)
qed

theorem copy_loses_pending_witness:
  "\<exists>c w' v'. duplicate_versions shelf_env (Naive 0) letters (shelf_desc waiting_version) two_parts = (Inr c, w')
    \<and> map_of (fd_versions c) (fd_latest_version_id c) = Some v' \<and> fv_message_ids v' = [] \<and> \<not> fv_pending v'"
proof -
  have date: "fv_updated_at waiting_version = Naive 1700000000000000" and none: "fv_message_ids waiting_version = []" "fv_pending waiting_version"
    by (simp_all add: pending_version_def)
  obtain c w' where dup: "duplicate_versions shelf_env (Naive 0) letters (shelf_desc waiting_version) two_parts = (Inr c, w')"
    using shelf_duplicates [OF date, of two_parts] by (auto simp: none)
  have vs: "\<forall>v \<in> set (map snd (fd_versions (shelf_desc waiting_version))). parts_known (\<lambda>_. []) v
      \<and> aligned shelf_doc two_parts (fe_key shelf_env) (fv_message_ids v) []"
    by (simp add: shelf_desc_def parts_known_def aligned_def pending_version_def)
  have grp: "\<forall>g. fe_group shelf_env = Some g \<longrightarrow> mg_primary g = fe_key shelf_env" by (simp add: shelf_env_def)
  have latest: "map_of (fd_versions (shelf_desc waiting_version)) (fd_latest_version_id (shelf_desc waiting_version)) = Some waiting_version"
    by (simp add: shelf_desc_def)
  from copy_loses_pending [OF shelf_env_laws grp letters_fresh shelf_desc_wf(2) vs dup latest none(2,1)] dup show ?thesis by blast
qed

section \<open>What was uploaded is found\<close>

text \<open>The ref names the descriptor of the answer, in every store that was written.\<close>

definition ref_names :: "file_ref \<Rightarrow> fd_resp \<Rightarrow> bool" where
  "ref_names fr resp \<longleftrightarrow> fr_message_id fr = frs_message_id resp \<and> set (fr_mirrors fr) = set (frs_mirrors resp) \<and> fr_store fr = Some (frs_store resp)"

lemma dict_eq_set:
  assumes "dict_eq d e" and "dict_ok d"
  shows "set d = set e"
proof -
  have sub: "set d \<subseteq> set e" using assms(1) by (auto simp: dict_eq_def dest: map_of_SomeD)
  have "card (set d) = length d" using assms(2) by (simp add: dict_ok_def distinct_map distinct_card)
  moreover have "card (set e) \<le> length e" by (rule card_length)
  ultimately show ?thesis using assms(1) sub card_subset_eq [of "set e" "set d"] card_mono [OF _ sub] by (simp add: dict_eq_def)
qed

lemma sync_ref_names: "ref_names (t_ref (sync_ref a resp t) a) resp"
  by (simp add: sync_ref_def ref_names_def)

lemma settle_change_names:
  assumes "settle_change push a t (Inr resp, Some fr, w) = (Inr fd, t', w')" and "dict_ok (fr_mirrors fr)"
  shows "ref_names (t_ref t' a) resp" and "fd = frs_fd resp" and "w' = w"
    and "t' = upd_ref a (\<lambda>_. t_ref t' a) t" and "fr_name (t_ref t' a) = fr_name fr" and "fr_location (t_ref t' a) = fr_location fr"
  using assms
  by (auto simp: settle_change_def sync_file_ref_def sync_ref_def stat_invalidate_def ref_names_def rbind_Inr_iff upd_ref_def Let_def
      dict_eq_set fun_upd_idem split: if_splits sum.splits)

text \<open>What an operation that answered \<open>resp\<close> has saved.\<close>

definition saved_answer :: "('w \<Rightarrow> string \<Rightarrow> int \<Rightarrow> fd_text option) \<Rightarrow> fd_repo \<Rightarrow> fd_resp \<Rightarrow> 'w \<Rightarrow> bool" where
  "saved_answer txt r resp w \<longleftrightarrow> dict_ok (frs_mirrors resp) \<and> (\<exists>ds. fd_to_dict (frs_fd resp) = Inr ds \<and> saved_in txt r (Json ds) resp w)"

lemma fd_save_answered:
  assumes "io_laws io txt" and "\<forall>keys. fdr_mirrors r = Some keys \<longrightarrow> distinct keys \<and> fdr_key r \<notin> set keys"
    and "fd_save io r fd fr w = (Inr resp, w')" and "\<forall>f. fr = Some f \<longrightarrow> dict_ok (fr_mirrors f)"
  shows "saved_answer txt r resp w'"
proof -
  obtain ds where "fd_to_dict (stamp r fd) = Inr ds" "saved_in txt r (Json ds) resp w'" using fd_save_saved [OF assms(1) _ assms(3)] assms(2) by blast
  then show ?thesis using fd_save_answer [OF assms(3,4)] by (simp add: saved_answer_def)
qed

lemma relocate_dict_ok: "dict_ok (fr_mirrors fr) \<Longrightarrow> dict_ok (fr_mirrors (fr_relocate key fr))"
  by (auto simp: fr_relocate_def Let_def split: option.splits)

lemma relocate_name: "fr_name (fr_relocate key fr) = fr_name fr" "fr_location (fr_relocate key fr) = fr_location fr"
  by (auto simp: fr_relocate_def Let_def split: option.splits)

text \<open>Every change of a file's descriptor relocates the ref and saves through it.\<close>

lemma changed_through_ref:
  assumes "x \<in> {append_file_version ask io r now uuid nv name (Some fr) w, update_file_version ask io r now vid nv fr w,
      fd_set_last_modified ask io r now when fr w, delete_file_version ask io r now vid fr w}"
  shows "fst (snd x) = Some (fr_relocate (fdr_key r) fr)"
    and "fst x = Inr resp \<Longrightarrow> \<exists>fd. fd_save io r fd (Some (fr_relocate (fdr_key r) fr)) w = (Inr resp, snd (snd x))"
proof -
  obtain fd dead where read: "fd_get ask r now False True fr = (fd, fr_relocate (fdr_key r) fr, dead)"
    using fd_get_ref [of ask r now False True fr] by (metis prod_cases3)
  obtain change name where "x = save_changed io r change (read_fd ask r now name (Some fr)) w"
    using assms unfolding append_file_version_def update_file_version_def fd_set_last_modified_def delete_file_version_def by blast
  then have x: "x = save_changed io r change (fd, Some (fr_relocate (fdr_key r) fr)) w" by (simp add: read_fd_def read)
  show "fst (snd x) = Some (fr_relocate (fdr_key r) fr)"
    by (simp add: x save_changed_def split: sum.splits prod.splits)
  show "fst x = Inr resp \<Longrightarrow> \<exists>fd. fd_save io r fd (Some (fr_relocate (fdr_key r) fr)) w = (Inr resp, snd (snd x))"
    by (auto simp: x save_changed_def split: sum.splits prod.splits)
qed

lemma settle_change_found:
  assumes laws: "io_laws io txt" "\<forall>keys. fdr_mirrors r = Some keys \<longrightarrow> distinct keys \<and> fdr_key r \<notin> set keys"
    and x: "fst (snd x) = Some (fr_relocate (fdr_key r) (t_ref t a))"
    and sv: "\<And>resp. fst x = Inr resp \<Longrightarrow> \<exists>fd. fd_save io r fd (Some (fr_relocate (fdr_key r) (t_ref t a))) w = (Inr resp, snd (snd x))"
    and set: "settle_change push a t x = (y, t', w')" and ok: "dict_ok (fr_mirrors (t_ref t a))"
  shows "t' = upd_ref a (\<lambda>_. t_ref t' a) t \<and> fr_name (t_ref t' a) = fr_name (t_ref t a) \<and> fr_location (t_ref t' a) = fr_location (t_ref t a)"
    and "y = Inr fd \<Longrightarrow> \<exists>resp. fd = frs_fd resp \<and> saved_answer txt r resp w' \<and> ref_names (t_ref t' a) resp"
proof -
  let ?fr = "fr_relocate (fdr_key r) (t_ref t a)"
  obtain z w1 where z: "x = (z, Some ?fr, w1)" using x by (cases x) auto
  show "t' = upd_ref a (\<lambda>_. t_ref t' a) t \<and> fr_name (t_ref t' a) = fr_name (t_ref t a) \<and> fr_location (t_ref t' a) = fr_location (t_ref t a)"
    using set unfolding z by (auto simp: settle_change_def sync_file_ref_def sync_ref_def stat_invalidate_def upd_ref_def relocate_name Let_def
        split: sum.splits if_splits)
  assume y: "y = Inr fd"
  then obtain resp where resp: "z = Inr resp" using set unfolding z by (cases z) (auto simp: settle_change_def Let_def)
  note ref = settle_change_names [OF set [unfolded z resp y] relocate_dict_ok [OF ok]]
  obtain fd0 where "fd_save io r fd0 (Some ?fr) w = (Inr resp, w1)" using sv [of resp] by (auto simp: z resp)
  then have "saved_answer txt r resp w1" using relocate_dict_ok [OF ok] by (intro fd_save_answered [OF laws]) auto
  then show "\<exists>resp. fd = frs_fd resp \<and> saved_answer txt r resp w' \<and> ref_names (t_ref t' a) resp" using ref by auto
qed

lemma create_new_file_found:
  assumes laws: "io_laws (fe_texts env) txt" "\<forall>keys. fdr_mirrors (fe_repo env) = Some keys \<longrightarrow> distinct keys \<and> fe_key env \<notin> set keys"
    and ok: "tree_ok t" "d < t_next t" and cr: "create_new_file env now uuid nv push d name t w = (Inr fd, t', w')"
  shows "\<exists>a resp. a \<in> set (items t' d) \<and> fr_name (t_ref t' a) = name \<and> fd = frs_fd resp \<and> saved_answer txt (fe_repo env) resp w' \<and> ref_names (t_ref t' a) resp"
proof -
  obtain resp x w1 a t1 where c: "create_file_desc (fe_ask env w) (fe_texts env) (fe_repo env) now uuid nv name w = (Inr resp, x, w1)"
      "create_file_ref now name (frs_message_id resp) d t = Inr (a, t1)" "t' = sync_ref a resp t1" "w' = w1" "fd = frs_fd resp"
    using cr by (auto simp: create_new_file_def rbind_Inr_iff split: prod.splits sum.splits)
  obtain fd0 where "fd_save (fe_texts env) (fe_repo env) fd0 None w = (Inr resp, w1)"
    using c(1) by (auto simp: create_file_desc_def append_file_version_def save_changed_def read_fd_def split: sum.splits prod.splits)
  then have "saved_answer txt (fe_repo env) resp w1" by (rule fd_save_answered [OF laws]) simp
  moreover have "a \<in> set (items t' d)" "fr_name (t_ref t' a) = name"
    using create_file_ref_ok [OF ok c(2)] by (simp_all add: c(3) sync_ref_def items_def)
  ultimately show ?thesis using c(3-5) sync_ref_names by blast
qed

lemma update_existing_found:
  assumes laws: "io_laws (fe_texts env) txt" "\<forall>keys. fdr_mirrors (fe_repo env) = Some keys \<longrightarrow> distinct keys \<and> fe_key env \<notin> set keys"
    and up: "update_existing_file env now uuid version_id nv push a t w = (y, t', w')" and ok: "dict_ok (fr_mirrors (t_ref t a))"
  shows "t' = upd_ref a (\<lambda>_. t_ref t' a) t \<and> fr_name (t_ref t' a) = fr_name (t_ref t a) \<and> fr_location (t_ref t' a) = fr_location (t_ref t a)"
    and "y = Inr fd \<Longrightarrow> \<exists>resp. fd = frs_fd resp \<and> saved_answer txt (fe_repo env) resp w' \<and> ref_names (t_ref t' a) resp"
proof -
  let ?x = "case version_id of Some vid \<Rightarrow>
      if vid = [] then append_file_version (fe_ask env w) (fe_texts env) (fe_repo env) now uuid nv [] (Some (t_ref t a)) w
      else update_file_version (fe_ask env w) (fe_texts env) (fe_repo env) now vid nv (t_ref t a) w
    | None \<Rightarrow> append_file_version (fe_ask env w) (fe_texts env) (fe_repo env) now uuid nv [] (Some (t_ref t a)) w"
  have "?x \<in> {append_file_version (fe_ask env w) (fe_texts env) (fe_repo env) now uuid nv [] (Some (t_ref t a)) w,
      update_file_version (fe_ask env w) (fe_texts env) (fe_repo env) now (the version_id) nv (t_ref t a) w,
      fd_set_last_modified (fe_ask env w) (fe_texts env) (fe_repo env) now now (t_ref t a) w,
      delete_file_version (fe_ask env w) (fe_texts env) (fe_repo env) now (the version_id) (t_ref t a) w}" by (simp split: option.splits)
  note x = changed_through_ref [OF this]
  have "settle_change push a t ?x = (y, t', w')" using up by (simp add: update_existing_file_def)
  note found = settle_change_found [OF laws x this ok]
  show "t' = upd_ref a (\<lambda>_. t_ref t' a) t \<and> fr_name (t_ref t' a) = fr_name (t_ref t a) \<and> fr_location (t_ref t' a) = fr_location (t_ref t a)"
    by (rule found(1))
  show "y = Inr fd \<Longrightarrow> \<exists>resp. fd = frs_fd resp \<and> saved_answer txt (fe_repo env) resp w' \<and> ref_names (t_ref t' a) resp" by (rule found(2))
qed

text \<open>C15: What was uploaded is found. After an upload that succeeded, new file or new version, the directory has a file of that name whose
  ref leads to the descriptor the upload returned: its text is read whenever the primary is up, and with a
  strict mirror group also from any mirror while the primary is down.\<close>

theorem uploaded_file_found:
  assumes "io_laws (fe_texts env) txt" and "\<forall>keys. fdr_mirrors (fe_repo env) = Some keys \<longrightarrow> distinct keys \<and> fe_key env \<notin> set keys"
    and "tree_ok t" and "d < t_next t" and "\<forall>a. dict_ok (fr_mirrors (t_ref t a))"
    and "file_upload env now uuid version_id nv nv2 push d name t w = (Inr fd, t', w')"
    and "text_answers down (txt w') ask"
    and "down (fe_key env) = None \<or> fdr_strict (fe_repo env) \<and> (\<exists>keys k. fdr_mirrors (fe_repo env) = Some keys \<and> k \<in> set keys \<and> down k = None)"
  shows "\<exists>a ds. a \<in> set (items t' d) \<and> fr_name (t_ref t' a) = name \<and> fd_to_dict fd = Inr ds
    \<and> fst (get_fd_text ask (fe_repo env) (fr_relocate (fe_key env) (t_ref t' a))) = Some (Json ds)"
proof -
  have "\<exists>a resp. a \<in> set (items t' d) \<and> fr_name (t_ref t' a) = name \<and> fd = frs_fd resp \<and> saved_answer txt (fe_repo env) resp w' \<and> ref_names (t_ref t' a) resp"
  proof (cases "find_file t d name")
    case (Inl ex)
    then show ?thesis using assms(6) create_new_file_found [OF assms(1-4)] by (simp add: file_upload_def)
  next
    case (Inr a)
    obtain y t1 w1 where up: "update_existing_file env now uuid version_id nv push a t w = (y, t1, w1)" by (metis prod_cases3)
    note found = update_existing_found [OF assms(1,2) up assms(5) [rule_format]]
    have a: "a \<in> set (items t d)" "fr_name (t_ref t a) = name"
      using Inr find_files_scan [OF assms(3), of d "[name]"] by (auto simp: find_file_def ref_name_def split: list.splits dest!: arg_cong [of _ _ set])
    have ok1: "tree_ok t1" "t_next t1 = t_next t" "items t1 = items t"
    proof -
      have t1: "t1 = upd_ref a (\<lambda>_. t_ref t1 a) t" using found(1) by simp
      show "tree_ok t1" by (subst t1, rule upd_ref_ok [OF assms(3)]) (use found(1) in auto)
      show "t_next t1 = t_next t" by (subst t1) simp
      show "items t1 = items t" by (subst t1) (simp add: items_def fun_eq_iff)
    qed
    show ?thesis
    proof (cases "\<exists>p. y = Inl (FileOrDirectoryDoesNotExist p)")
      case True
      then have "create_new_file env now uuid nv2 push d name t1 w1 = (Inr fd, t', w')" using assms(6) Inr up by (auto simp: file_upload_def)
      from create_new_file_found [OF assms(1,2) ok1(1) _ this] show ?thesis using assms(4) ok1(2) by simp
    next
      case False
      then have "(y, t1, w1) = (Inr fd, t', w')" using assms(6) Inr up by (auto simp: file_upload_def split: sum.splits exn.splits)
      then show ?thesis using found a ok1(3) by fastforce
    qed
  qed
  then obtain a resp ds where a: "a \<in> set (items t' d)" "fr_name (t_ref t' a) = name" "fd = frs_fd resp" "ref_names (t_ref t' a) resp"
    and ds: "dict_ok (frs_mirrors resp)" "fd_to_dict (frs_fd resp) = Inr ds" "saved_in txt (fe_repo env) (Json ds) resp w'"
    unfolding saved_answer_def by blast
  have "fst (get_fd_text ask (fe_repo env) (fr_relocate (fe_key env) (t_ref t' a))) = Some (Json ds)"
    using a(4) by (intro saved_text_found [OF ds(3) _ _ _ ds(1) assms(7,8)]) (simp_all add: ref_names_def)
  then show ?thesis using a ds(2) by blast
qed

text \<open>Stores of texts in memory, with a strict mirror.\<close>

definition text_env :: "((string \<Rightarrow> int \<Rightarrow> fd_text option) \<times> int) file_env" where
  "text_env = \<lparr>fe_ask = (\<lambda>w. shelf_ask (\<lambda>_. None) (fst w)), fe_texts = shelf_io,
     fe_copies = \<lparr>cio_copy_from = (\<lambda>_ _ _ w. (Inr None, w)), cio_messages = (\<lambda>_ _ _. Inl OSError), cio_download = (\<lambda>_ _ _ _ _. Inl OSError),
        cio_upload = (\<lambda>_ _ _ w. (Inl OSError, w))\<rparr>,
     fe_within = (\<lambda>_ w. (Inl OSError, w)), fe_delete = (\<lambda>_ _. Inr ()), fe_repo = mirror_repo\<lparr>fdr_strict := True\<rparr>, fe_group = None, fe_inline = False\<rparr>"

lemma example_upload:
  "\<exists>fd t' w'. file_upload text_env (Naive 3) ''u'' None (Inr (Some later_version)) (Inr None) (Inr ()) 1 ''f'' example_tree (\<lambda>_ _. None, 1) = (Inr fd, t', w')"
proof -
  let ?r = "mirror_repo\<lparr>fdr_strict := True\<rparr>"
  let ?fd = "\<lparr>fd_name = ''f'', fd_latest_version_id = ''v2'', fd_created_at = Naive 3, fd_versions = [(''v2'', later_version)], fd_complete = True\<rparr>"
  have find: "find_files example_tree 1 [''f''] = []" by (simp add: find_files_scan [OF example_tree_ok(1)] example_tree_items)
  have add: "rbind (new_file_desc ''f'' [] [] (Naive 3)) (add_version later_version) = Inr ?fd"
    by (simp add: new_file_desc_def validate_name_def add_version_def INVALID_VERSION_ID_def dt_lt_def Let_def) (simp add: later_version_def)
  obtain d where d: "fd_to_dict (stamp ?r ?fd) = Inr [d]"
    using one_version_text [of "stamp ?r ?fd" "''v2''"] by (auto simp: stamp_def later_version_def example_version_def fv_is_valid_def)
  have "\<exists>resp w1. fd_save shelf_io ?r ?fd None (\<lambda>_ _. None, 1) = (Inr resp, w1)"
    using d by (simp add: fd_save_def fd_written_def shelf_io_def mirror_repo_def mirror_fd_store.simps Let_def)
  then obtain resp w1 where sv: "fd_save shelf_io ?r ?fd None (\<lambda>_ _. None, 1) = (Inr resp, w1)" by blast
  have "create_file_desc ask shelf_io ?r (Naive 3) ''u'' (Inr (Some later_version)) ''f'' (\<lambda>_ _. None, 1) = (Inr resp, None, w1)" for ask
    using add sv by (simp add: create_file_desc_def append_file_version_def save_changed_def read_fd_def)
  moreover have "\<exists>a t1. create_file_ref (Naive 3) ''f'' mid 1 example_tree = Inr (a, t1)" for mid
    using find by (simp add: create_file_ref_def attach_file_ref_def alloc_ref_def)
  then obtain a t1 where "create_file_ref (Naive 3) ''f'' (frs_message_id resp) 1 example_tree = Inr (a, t1)" by blast
  ultimately show ?thesis using find by (simp add: file_upload_def create_new_file_def text_env_def find_file_def)
qed

theorem uploaded_file_found_witness:
  "\<exists>fd t' w' a ds. file_upload text_env (Naive 3) ''u'' None (Inr (Some later_version)) (Inr None) (Inr ()) 1 ''f'' example_tree (\<lambda>_ _. None, 1) = (Inr fd, t', w')
    \<and> a \<in> set (items t' 1) \<and> fr_name (t_ref t' a) = ''f''
    \<and> fst (get_fd_text (shelf_ask primary_down (fst w')) (fe_repo text_env) (fr_relocate (fe_key text_env) (t_ref t' a))) = Some (Json ds)"
proof -
  obtain fd t' w' where up: "file_upload text_env (Naive 3) ''u'' None (Inr (Some later_version)) (Inr None) (Inr ()) 1 ''f'' example_tree (\<lambda>_ _. None, 1) = (Inr fd, t', w')"
    using example_upload by blast
  have laws: "io_laws (fe_texts text_env) fst" using shelf_laws by (simp add: text_env_def)
  have keys: "\<forall>keys. fdr_mirrors (fe_repo text_env) = Some keys \<longrightarrow> distinct keys \<and> fe_key text_env \<notin> set keys"
    by (simp add: text_env_def mirror_repo_def)
  have lt: "1 < t_next example_tree" by (simp add: example_tree_ok)
  have ok: "\<forall>a. dict_ok (fr_mirrors (t_ref example_tree a))"
    by (simp add: example_tree_def create_dir_def empty_tree_def find_dirs_def new_dir_def validate_name_def alloc_dir_def Let_def touch_modified_def)
  have strict: "primary_down (fe_key text_env) = None \<or> fdr_strict (fe_repo text_env)
      \<and> (\<exists>keys k. fdr_mirrors (fe_repo text_env) = Some keys \<and> k \<in> set keys \<and> primary_down k = None)"
    by (simp add: text_env_def mirror_repo_def primary_down_def)
  from uploaded_file_found [OF laws keys example_tree_ok(1) lt ok up shelf_answers strict] up show ?thesis by blast
qed

end
