(* ===== verification/SftpHandles.thy ===== *)
theory SftpHandles
  imports Streams
begin

text \<open>
  The file handles of the SFTP front end (\<open>src/tgdcfs/app/sftp/handles.py\<close>). A \<open>ReadHandle\<close> answers reads at any
  offset from a download stream that only goes forward: it keeps the stream, the offset it has
  reached and what was received beyond it. A \<open>WriteHandle\<close> collects writes at any offset in a
  spool and uploads it when the client closes the handle. The download and the
  upload are parameters. A handle's lock makes its operations follow one another, so a
  history of a handle is a list of operations. Offsets of the protocol are unsigned.
\<close>

section \<open>Reading\<close>

definition SEEK_FORWARD_THRESHOLD :: int where "SEEK_FORWARD_THRESHOLD = 1024 * 1024"

record read_handle =
  rh_size :: int
  rh_stream :: "stream option"
  rh_pos :: int
  rh_buffer :: bytes

definition read_handle_new :: "int \<Rightarrow> read_handle" where
  "read_handle_new sz = \<lparr>rh_size = sz, rh_stream = None, rh_pos = 0, rh_buffer = []\<rparr>"

text \<open>An asynchronous generator that has ended or raised has no more items.\<close>

definition next_chunk :: "read_handle \<Rightarrow> bytes res \<times> read_handle" where
  "next_chunk h = (case rh_stream h of
       None \<Rightarrow> (Inr [], h)
     | Some (chunk # chunks, fin) \<Rightarrow> (Inr chunk, h\<lparr>rh_stream := Some (chunks, fin)\<rparr>)
     | Some ([], None) \<Rightarrow> (Inr [], h)
     | Some ([], Some ex) \<Rightarrow> (Inl ex, h\<lparr>rh_stream := Some ([], None)\<rparr>))"

definition chunks_left :: "read_handle \<Rightarrow> nat" where
  "chunks_left h = (case rh_stream h of None \<Rightarrow> 0 | Some (chunks, fin) \<Rightarrow> length chunks)"

lemma next_chunk_less: "next_chunk h = (Inr c, h') \<Longrightarrow> c \<noteq> [] \<Longrightarrow> chunks_left h' < chunks_left h"
  by (auto simp: next_chunk_def chunks_left_def split: option.splits list.splits prod.splits)

lemma chunks_left_buffer [simp]: "chunks_left (h\<lparr>rh_buffer := b\<rparr>) = chunks_left h"
  by (simp add: chunks_left_def)

function fill_buffer :: "int \<Rightarrow> read_handle \<Rightarrow> exn option \<times> read_handle" where
  "fill_buffer count h =
     (if int (length (rh_buffer h)) < count then
        (case next_chunk h of
           (Inl ex, h) \<Rightarrow> (Some ex, h)
         | (Inr chunk, h') \<Rightarrow>
             if chunk = [] then (None, h') else fill_buffer count (h'\<lparr>rh_buffer := rh_buffer h' @ chunk\<rparr>))
      else (None, h))"
  by pat_completeness auto
termination
  by (relation "measure (\<lambda>(count, h). chunks_left h)") (auto dest: next_chunk_less [OF sym])

declare fill_buffer.simps [simp del]

definition consume :: "int \<Rightarrow> read_handle \<Rightarrow> bytes res \<times> read_handle" where
  "consume count h = (case fill_buffer count h of
       (Some ex, h) \<Rightarrow> (Inl ex, h)
     | (None, h) \<Rightarrow>
         let data = take (nat count) (rh_buffer h) in
         (Inr data, h\<lparr>rh_buffer := drop (length data) (rh_buffer h), rh_pos := rh_pos h + int (length data)\<rparr>))"

text \<open>\<open>dl off\<close> is what \<open>Ops.download\<close> answers from the offset \<open>off\<close> to the end.\<close>

definition reopen :: "(int \<Rightarrow> stream res) \<Rightarrow> int \<Rightarrow> read_handle \<Rightarrow> unit res \<times> read_handle" where
  "reopen dl offset h =
     (let h = h\<lparr>rh_stream := None, rh_buffer := [], rh_pos := offset\<rparr> in
      case dl offset of
        Inl ex \<Rightarrow> (Inl ex, h)
      | Inr s \<Rightarrow> (Inr (), h\<lparr>rh_stream := Some s\<rparr>))"

definition handle_read :: "(int \<Rightarrow> stream res) \<Rightarrow> int \<Rightarrow> int \<Rightarrow> read_handle \<Rightarrow> bytes res \<times> read_handle" where
  "handle_read dl offset sz h =
     (if sz \<le> 0 \<or> rh_size h \<le> offset then (Inr [], h)
      else if rh_stream h = None \<or> offset < rh_pos h \<or> SEEK_FORWARD_THRESHOLD < offset - rh_pos h then
        (case reopen dl offset h of
           (Inl ex, h) \<Rightarrow> (Inl ex, h)
         | (Inr _, h) \<Rightarrow> consume sz h)
      else if rh_pos h < offset then
        (case consume (offset - rh_pos h) h of
           (Inl ex, h') \<Rightarrow> (Inl ex, h')
         | (Inr skipped, h') \<Rightarrow>
             if int (length skipped) < offset - rh_pos h then (Inr [], h') else consume sz h')
      else consume sz h)"

definition handle_close :: "read_handle \<Rightarrow> read_handle" where
  "handle_close h = h\<lparr>rh_stream := None, rh_buffer := []\<rparr>"

text \<open>The answer to the sparse-region probing of a client.\<close>

datatype whence = SEEK_SET | SEEK_CUR | SEEK_END | SEEK_DATA | SEEK_HOLE

definition handle_seek :: "int \<Rightarrow> int \<Rightarrow> whence \<Rightarrow> int res" where
  "handle_seek sz offset wh =
     (if wh = SEEK_DATA \<or> wh = SEEK_HOLE then
        if sz \<le> offset then Inl OSError else Inr (if wh = SEEK_DATA then offset else sz)
      else Inl OSError)"

text \<open>
  A history of a handle: every read comes with what a download would answer then. The list of the
  answers ends with the first exception.
\<close>

datatype handle_op = HRead "int \<Rightarrow> stream res" int int | HClose

fun handle_run :: "handle_op list \<Rightarrow> read_handle \<Rightarrow> (handle_op \<times> bytes res) list \<times> read_handle" where
  "handle_run [] h = ([], h)"
| "handle_run (HClose # xs) h = handle_run xs (handle_close h)"
| "handle_run (HRead dl offset sz # xs) h = (case handle_read dl offset sz h of
     (Inl ex, h') \<Rightarrow> ([(HRead dl offset sz, Inl ex)], h')
   | (Inr bs, h') \<Rightarrow> let (ys, h'') = handle_run xs h' in ((HRead dl offset sz, Inr bs) # ys, h''))"

section \<open>Random access over a forward stream\<close>

text \<open>
  The downloads of a file with the bytes \<open>d\<close>: from every offset they deliver the rest of the file or
  a proper prefix of it and an exception, and never an empty chunk.
\<close>

definition downloads_of :: "bytes \<Rightarrow> (int \<Rightarrow> stream res) \<Rightarrow> bool" where
  "downloads_of d dl \<longleftrightarrow> (\<forall>off. 0 \<le> off \<and> off < int (length d) \<longrightarrow>
     serves (of_res (dl off)) (drop (nat off) d) \<and> [] \<notin> set (fst (of_res (dl off))))"

text \<open>What the handle has received and what it will receive is the file from its position on.\<close>

definition rh_ok :: "bytes \<Rightarrow> read_handle \<Rightarrow> bool" where
  "rh_ok d h \<longleftrightarrow> rh_size h = int (length d) \<and> 0 \<le> rh_pos h \<and>
     (case rh_stream h of
        None \<Rightarrow> True
      | Some (chunks, fin) \<Rightarrow> rh_pos h \<le> int (length d) \<and> [] \<notin> set chunks
          \<and> serves (rh_buffer h # chunks, fin) (drop (nat (rh_pos h)) d))"

lemma fill_buffer_ok:
  assumes "rh_ok d h" and "rh_stream h \<noteq> None" and "fill_buffer count h = (None, h')"
  shows "rh_ok d h' \<and> rh_stream h' \<noteq> None \<and> rh_pos h' = rh_pos h \<and> rh_size h' = rh_size h
    \<and> take (nat count) (rh_buffer h') = take (nat count) (drop (nat (rh_pos h)) d)"
  using assms
proof (induction count h arbitrary: h' rule: fill_buffer.induct)
  case (1 count h)
  obtain chunks fin where s: "rh_stream h = Some (chunks, fin)" using "1.prems"(2) by auto
  have sv: "serves (rh_buffer h # chunks, fin) (drop (nat (rh_pos h)) d)" "[] \<notin> set chunks"
    using "1.prems"(1) s by (auto simp: rh_ok_def)
  show ?case
  proof (cases "int (length (rh_buffer h)) < count")
    case False
    obtain more where "drop (nat (rh_pos h)) d = rh_buffer h @ more"
      using serves_prefix [OF sv(1)] by (auto simp: stream_bytes_def prefix_def)
    with False "1.prems" show ?thesis by (auto simp: fill_buffer.simps)
  next
    case True
    show ?thesis
    proof (cases chunks)
      case Nil
      with s True "1.prems"(3) sv(1) "1.prems"(1,2) show ?thesis
        by (auto simp: fill_buffer.simps next_chunk_def split: option.splits)
    next
      case (Cons chunk rest)
      let ?h = "h\<lparr>rh_stream := Some (rest, fin)\<rparr>" and ?h' = "h\<lparr>rh_stream := Some (rest, fin), rh_buffer := rh_buffer h @ chunk\<rparr>"
      have n: "next_chunk h = (Inr chunk, ?h)" and ne: "chunk \<noteq> []" using s Cons sv(2) by (auto simp: next_chunk_def)
      have "rh_ok d ?h'" using "1.prems"(1) s Cons by (cases fin) (auto simp: rh_ok_def)
      moreover have "fill_buffer count ?h' = (None, h')" using "1.prems"(3) n ne True by (subst (asm) fill_buffer.simps) simp
      ultimately show ?thesis using "1.IH" [OF True n [symmetric] refl ne] by simp
    qed
  qed
qed

lemma serves_strip: "serves ((xs @ ys) # cs, fin) (xs @ w) \<longleftrightarrow> serves (ys # cs, fin) w"
  by (cases fin) (auto simp: strict_prefix_def)

lemma consume_ok:
  assumes "rh_ok d h" and "rh_stream h \<noteq> None" and "consume count h = (Inr bs, h')"
  shows "rh_ok d h' \<and> rh_stream h' \<noteq> None \<and> rh_pos h' = rh_pos h + int (length bs) \<and> bs = take (nat count) (drop (nat (rh_pos h)) d)"
proof -
  obtain h1 where f: "fill_buffer count h = (None, h1)" and bs: "bs = take (nat count) (rh_buffer h1)"
    and h': "h' = h1\<lparr>rh_buffer := drop (length bs) (rh_buffer h1), rh_pos := rh_pos h1 + int (length bs)\<rparr>"
    using assms(3) by (auto simp: consume_def Let_def split: prod.splits option.splits)
  note ok = fill_buffer_ok [OF assms(1,2) f]
  obtain chunks fin where s: "rh_stream h1 = Some (chunks, fin)" using ok by auto
  have sv: "serves (rh_buffer h1 # chunks, fin) (drop (nat (rh_pos h1)) d)" using ok s by (auto simp: rh_ok_def)
  have split: "rh_buffer h1 = bs @ drop (length bs) (rh_buffer h1)"
  proof -
    have "take (length bs) (rh_buffer h1) = bs" by (simp add: bs min_def)
    then show ?thesis using append_take_drop_id [of "length bs" "rh_buffer h1"] by simp
  qed
  have pos: "0 \<le> rh_pos h1" "rh_pos h1 \<le> int (length d)" using ok s by (auto simp: rh_ok_def)
  have "prefix bs (drop (nat (rh_pos h1)) d)"
    using serves_prefix [OF sv] split by (metis concat.simps(2) fst_conv prefix_order.trans prefixI stream_bytes_def append_prefixD)
  then obtain more where more: "drop (nat (rh_pos h1)) d = bs @ more" by (auto simp: prefix_def)
  have at: "drop (nat (rh_pos h1 + int (length bs))) d = more"
    using pos(1) arg_cong [OF more, of "drop (length bs)"] by (simp add: nat_add_distrib add.commute)
  have "length bs \<le> length (drop (nat (rh_pos h1)) d)" by (simp add: more)
  then have "rh_pos h1 + int (length bs) \<le> int (length d)" using pos by simp
  moreover have "serves (drop (length bs) (rh_buffer h1) # chunks, fin) more"
    using sv more split serves_strip [of bs] by metis
  ultimately have "rh_ok d h'" using ok s at by (auto simp: h' rh_ok_def)
  with ok s bs h' show ?thesis by auto
qed

lemma reopen_ok:
  assumes "rh_ok d h" and "downloads_of d dl" and "0 \<le> offset" and "offset < int (length d)"
    and "reopen dl offset h = (Inr u, h')"
  shows "rh_ok d h' \<and> rh_stream h' \<noteq> None \<and> rh_pos h' = offset"
proof -
  obtain cs fin where s: "dl offset = Inr (cs, fin)" and h': "h' = h\<lparr>rh_stream := Some (cs, fin), rh_buffer := [], rh_pos := offset\<rparr>"
    using assms(5) by (auto simp: reopen_def Let_def split: sum.splits)
  have "serves (cs, fin) (drop (nat offset) d)" "[] \<notin> set cs"
    using assms(2-4) s unfolding downloads_of_def by (metis of_res.simps(1) fst_conv)+
  then have "serves ([] # cs, fin) (drop (nat offset) d)" by (cases fin) auto
  with \<open>[] \<notin> set cs\<close> show ?thesis using assms(1,3,4) by (simp add: h' rh_ok_def)
qed

lemma handle_read_ok:
  assumes ok: "rh_ok d h" and dl: "downloads_of d dl" and off: "0 \<le> offset" and r: "handle_read dl offset sz h = (Inr bs, h')"
  shows "rh_ok d h' \<and> bs = take (nat sz) (drop (nat offset) d)"
proof -
  have size: "rh_size h = int (length d)" using ok by (simp add: rh_ok_def)
  consider (edge) "sz \<le> 0 \<or> rh_size h \<le> offset"
    | (fresh) h1 where "offset < int (length d)" "reopen dl offset h = (Inr (), h1)" "consume sz h1 = (Inr bs, h')"
    | (gap) skipped h1 where "rh_stream h \<noteq> None" "offset < int (length d)" "rh_pos h < offset" "consume (offset - rh_pos h) h = (Inr skipped, h1)"
        "handle_read dl offset sz h = (if int (length skipped) < offset - rh_pos h then (Inr [], h1) else consume sz h1)"
    | (here) "rh_stream h \<noteq> None" "rh_pos h = offset" "consume sz h = (Inr bs, h')"
    using r size by (auto simp: handle_read_def split: if_splits prod.splits sum.splits)
  then show ?thesis
  proof cases
    case edge
    then show ?thesis using r ok size off by (auto simp: handle_read_def)
  next
    case fresh
    then show ?thesis using reopen_ok [OF ok dl off fresh(1,2)] consume_ok [of d h1] by auto
  next
    case gap
    note c = consume_ok [OF ok gap(1,4)]
    have "0 \<le> rh_pos h" using ok by (simp add: rh_ok_def)
    then have len: "int (length skipped) = offset - rh_pos h" using c gap(2,3) by simp
    with gap(5) r have "consume sz h1 = (Inr bs, h')" by simp
    with c len show ?thesis using consume_ok [of d h1 sz bs h'] by auto
  next
    case here
    then show ?thesis using consume_ok [OF ok here(1,3)] by simp
  qed
qed

fun op_serves :: "bytes \<Rightarrow> handle_op \<Rightarrow> bool" where
  "op_serves d (HRead dl offset sz) \<longleftrightarrow> downloads_of d dl \<and> 0 \<le> offset"
| "op_serves d HClose \<longleftrightarrow> True"

text \<open>C25: An SFTP read handle gives random access to a file although its downloads only go forward: whatever
  the offsets and lengths of the reads, in whatever order, with the handle closed and used
  again, and whatever the chunks of the downloads, every answer up to the first exception is
  exactly the bytes the file has there, empty only at or after the end of the file.\<close>

theorem read_handle_exact:
  assumes "list_all (op_serves d) xs"
    and "(HRead dl offset sz, Inr bs) \<in> set (fst (handle_run xs (read_handle_new (int (length d)))))"
  shows "bs = take (nat sz) (drop (nat offset) d)"
proof -
  have "(HRead dl offset sz, Inr bs) \<in> set (fst (handle_run xs h)) \<Longrightarrow> rh_ok d h \<Longrightarrow> ?thesis" for h
    using assms(1)
  proof (induction xs h rule: handle_run.induct)
    case (2 xs h)
    then show ?case by (auto simp: handle_close_def rh_ok_def)
  next
    case (3 dl' offset' sz' xs h)
    show ?case
    proof (cases "handle_read dl' offset' sz' h")
      case (Pair r h')
      show ?thesis
      proof (cases r)
        case (Inl ex)
        with 3 Pair show ?thesis by simp
      next
        case (Inr bs')
        have ok: "rh_ok d h'" "bs' = take (nat sz') (drop (nat offset') d)"
          using handle_read_ok [OF "3.prems"(2) _ _ Pair [unfolded Inr]] "3.prems"(3) by auto
        with 3 Pair Inr show ?thesis by (auto split: prod.splits)
      qed
    qed
  qed simp
  moreover have "rh_ok d (read_handle_new (int (length d)))" by (simp add: rh_ok_def read_handle_new_def)
  ultimately show ?thesis using assms(2) by blast
qed

text \<open>A file of five bytes whose downloads come in pairs, read out of order.\<close>

definition five :: bytes where "five = [1, 2, 3, 4, 5]"

definition five_download :: "int \<Rightarrow> stream res" where
  "five_download off = (if 0 \<le> off \<and> off < 5
     then Inr (filter (\<lambda>c. c \<noteq> []) [take 2 (drop (nat off) five), drop 2 (drop (nat off) five)], None) else Inl TechnicalError)"

lemma five_downloads: "downloads_of five five_download"
proof -
  have "concat (filter (\<lambda>c. c \<noteq> []) [take 2 xs, drop 2 xs]) = xs" for xs :: bytes by simp
  then show ?thesis by (auto simp: downloads_of_def five_download_def five_def simp del: drop_drop filter.simps)
qed

theorem read_handle_exact_witness:
  "\<exists>xs. (HRead five_download 0 3, Inr [1, 2, 3]) \<in> set (fst (handle_run xs (read_handle_new 5)))"
proof -
  let ?xs = "[HRead five_download 2 1, HRead five_download 4 9, HRead five_download 0 3, HRead five_download 3 1]"
  obtain bs where bs: "(HRead five_download 0 3, Inr bs) \<in> set (fst (handle_run ?xs (read_handle_new (int (length five)))))"
    by (simp add: handle_read_def read_handle_new_def five_def five_download_def reopen_def consume_def fill_buffer.simps next_chunk_def
        SEEK_FORWARD_THRESHOLD_def Let_def)
  have "list_all (op_serves five) ?xs" by (simp add: five_downloads)
  from read_handle_exact [OF this bs] have "bs = [1, 2, 3]" by (simp add: five_def)
  with bs have "(HRead five_download 0 3, Inr [1, 2, 3]) \<in> set (fst (handle_run ?xs (read_handle_new 5)))"
    by (simp only: five_def list.size) simp
  then show ?thesis by blast
qed

section \<open>Reading on after an exception\<close>

text \<open>
  The stream that raised stays in the handle and counts as ended. \<open>cut_off d k h\<close>: the handle has received the file up to
  byte \<open>k\<close>, which is not its end, and will receive no more.
\<close>

definition cut_off :: "bytes \<Rightarrow> nat \<Rightarrow> read_handle \<Rightarrow> bool" where
  "cut_off d k h \<longleftrightarrow> rh_size h = int (length d) \<and> rh_stream h = Some ([], None) \<and> 0 \<le> rh_pos h
     \<and> nat (rh_pos h) \<le> k \<and> k < length d \<and> rh_buffer h = drop (nat (rh_pos h)) (take k d)"

lemma fill_buffer_raises:
  assumes "rh_ok d h" and "rh_stream h \<noteq> None" and "fill_buffer count h = (Some ex, h')"
  shows "\<exists>k. cut_off d k h'"
  using assms
proof (induction count h arbitrary: h' rule: fill_buffer.induct)
  case (1 count h)
  obtain chunks fin where s: "rh_stream h = Some (chunks, fin)" using "1.prems"(2) by auto
  have sv: "serves (rh_buffer h # chunks, fin) (drop (nat (rh_pos h)) d)" "[] \<notin> set chunks"
    using "1.prems"(1) s by (auto simp: rh_ok_def)
  have True: "int (length (rh_buffer h)) < count" using "1.prems"(3) by (auto simp: fill_buffer.simps split: if_splits)
  show ?case
  proof (cases chunks)
    case Nil
    with s True "1.prems"(3) obtain x where fin: "fin = Some x" "h' = h\<lparr>rh_stream := Some ([], None)\<rparr>"
      by (auto simp: fill_buffer.simps next_chunk_def split: option.splits)
    then have "strict_prefix (rh_buffer h) (drop (nat (rh_pos h)) d)" using sv(1) Nil by simp
    then obtain more where more: "drop (nat (rh_pos h)) d = rh_buffer h @ more" "more \<noteq> []"
      by (auto simp: strict_prefix_def prefix_def)
    let ?k = "nat (rh_pos h) + length (rh_buffer h)"
    have "length d - nat (rh_pos h) = length (rh_buffer h) + length more" using arg_cong [OF more(1), of length] by simp
    then have "?k < length d" using more(2) by (cases more) auto
    moreover have "rh_buffer h = drop (nat (rh_pos h)) (take ?k d)" using more(1) by (simp add: drop_take)
    ultimately have "cut_off d ?k h'" using "1.prems"(1) by (simp add: cut_off_def rh_ok_def fin(2))
    then show ?thesis by blast
  next
    case (Cons chunk rest)
    let ?h = "h\<lparr>rh_stream := Some (rest, fin)\<rparr>" and ?h' = "h\<lparr>rh_stream := Some (rest, fin), rh_buffer := rh_buffer h @ chunk\<rparr>"
    have n: "next_chunk h = (Inr chunk, ?h)" and ne: "chunk \<noteq> []" using s Cons sv(2) by (auto simp: next_chunk_def)
    have "rh_ok d ?h'" using "1.prems"(1) s Cons by (cases fin) (auto simp: rh_ok_def)
    moreover have "fill_buffer count ?h' = (Some ex, h')" using "1.prems"(3) n ne True by (subst (asm) fill_buffer.simps) simp
    ultimately show ?thesis using "1.IH" [OF True n [symmetric] refl ne] by simp
  qed
qed

lemma handle_read_raises:
  assumes ok: "rh_ok d h" and dl: "downloads_of d dl" and off: "0 \<le> offset"
    and r: "handle_read dl offset sz h = (Inl ex, h')" and st: "rh_stream h' \<noteq> None"
  shows "\<exists>k. cut_off d k h'"
proof -
  have raised: "\<exists>k. cut_off d k h'" if "rh_ok d g" "rh_stream g \<noteq> None" "consume n g = (Inl ex, h')" for g n
    using fill_buffer_raises [OF that(1,2), of n ex h'] that(3)
    by (auto simp: consume_def Let_def split: prod.splits option.splits)
  have size: "rh_size h = int (length d)" using ok by (simp add: rh_ok_def)
  consider (fresh) h1 where "offset < int (length d)" "reopen dl offset h = (Inr (), h1)" "consume sz h1 = (Inl ex, h')"
    | (unopened) "reopen dl offset h = (Inl ex, h')"
    | (skip) "rh_stream h \<noteq> None" "consume (offset - rh_pos h) h = (Inl ex, h')"
    | (gap) skipped h1 where "rh_stream h \<noteq> None" "consume (offset - rh_pos h) h = (Inr skipped, h1)" "consume sz h1 = (Inl ex, h')"
    | (here) "rh_stream h \<noteq> None" "consume sz h = (Inl ex, h')"
    using r size by (auto simp: handle_read_def split: if_splits prod.splits sum.splits)
  then show ?thesis
  proof cases
    case fresh
    then show ?thesis using reopen_ok [OF ok dl off fresh(1,2)] raised by blast
  next
    case unopened
    then show ?thesis using st by (auto simp: reopen_def Let_def split: sum.splits)
  next
    case gap
    then show ?thesis using consume_ok [OF ok gap(1,2)] raised by blast
  qed (use raised ok in blast)+
qed

lemma consume_cut_off:
  assumes "cut_off d k h"
  shows "\<exists>h'. consume n h = (Inr (take (nat n) (drop (nat (rh_pos h)) (take k d))), h') \<and> cut_off d k h'
    \<and> rh_pos h' = rh_pos h + int (min (nat n) (k - nat (rh_pos h)))"
proof -
  have h: "rh_stream h = Some ([], None)" "0 \<le> rh_pos h" "nat (rh_pos h) \<le> k" "k < length d" "rh_buffer h = drop (nat (rh_pos h)) (take k d)"
    using assms by (simp_all add: cut_off_def)
  let ?m = "min (nat n) (k - nat (rh_pos h))"
  let ?h' = "h\<lparr>rh_buffer := drop ?m (rh_buffer h), rh_pos := rh_pos h + int ?m\<rparr>"
  have len: "length (take (nat n) (rh_buffer h)) = ?m" using h(3-5) by simp
  have "fill_buffer n h = (None, h)" using h(1) by (simp add: fill_buffer.simps next_chunk_def)
  then have c: "consume n h = (Inr (take (nat n) (rh_buffer h)), ?h')"
    unfolding consume_def Let_def by (simp only: prod.case option.case len)
  have at: "nat (rh_pos h + int ?m) = ?m + nat (rh_pos h)" using h(2) by (simp add: nat_add_distrib)
  have "drop ?m (rh_buffer h) = drop (?m + nat (rh_pos h)) (take k d)" using h(5) by (simp only: drop_drop)
  moreover have "?m + nat (rh_pos h) \<le> k" using h(3) by linarith
  ultimately have "cut_off d k ?h'" using assms h(2,4) unfolding cut_off_def by (simp add: at)
  then show ?thesis unfolding h(5) [symmetric] using c by (intro exI [of _ ?h'] conjI) simp_all
qed

lemma read_cut_off:
  assumes "cut_off d k h" and "rh_pos h \<le> int off" and "int off \<le> rh_pos h + SEEK_FORWARD_THRESHOLD" and "off < length d" and "0 < n"
  shows "\<exists>h'. handle_read dl (int off) n h = (Inr (take (nat n) (drop off (take k d))), h') \<and> cut_off d k h'
    \<and> rh_pos h' = int (min k (off + nat n))"
proof -
  have h: "rh_size h = int (length d)" "rh_stream h = Some ([], None)" "0 \<le> rh_pos h" "nat (rh_pos h) \<le> k" "k < length d"
    using assms(1) by (simp_all add: cut_off_def)
  show ?thesis
  proof (cases "rh_pos h = int off")
    case True
    obtain h' where c: "consume n h = (Inr (take (nat n) (drop off (take k d))), h')" "cut_off d k h'"
        "rh_pos h' = int off + int (min (nat n) (k - off))"
      using consume_cut_off [OF assms(1), of n] True by auto
    then have "rh_pos h' = int (min k (off + nat n))" using h(4) True by auto
    with c h assms(2-5) True show ?thesis by (auto simp: handle_read_def)
  next
    case False
    let ?g = "int off - rh_pos h"
    obtain h1 where c: "consume ?g h = (Inr (take (nat ?g) (drop (nat (rh_pos h)) (take k d))), h1)" "cut_off d k h1"
        "rh_pos h1 = rh_pos h + int (min (nat ?g) (k - nat (rh_pos h)))"
      using consume_cut_off [OF assms(1), of ?g] by blast
    have len: "int (length (take (nat ?g) (drop (nat (rh_pos h)) (take k d)))) < ?g \<longleftrightarrow> k < off"
      using h assms(2) by auto
    have read: "handle_read dl (int off) n h = (if k < off then (Inr [], h1) else consume n h1)"
      using c(1) len h(1,2) assms(2-5) False by (simp add: handle_read_def)
    show ?thesis
    proof (cases "k < off")
      case True
      then have "rh_pos h1 = int (min k (off + nat n))" using c(3) h(3,4) by auto
      with read True c(2) show ?thesis by simp
    next
      case False
      then have "rh_pos h1 = int off" using c(3) h(3,4) assms(2) by auto
      moreover from this obtain h' where "consume n h1 = (Inr (take (nat n) (drop off (take k d))), h')" "cut_off d k h'"
          "rh_pos h' = int off + int (min (nat n) (k - off))"
        using consume_cut_off [OF c(2), of n] by auto
      ultimately show ?thesis using read False by auto
    qed
  qed
qed

text \<open>A client that reads on, each read where the last one ended.\<close>

fun read_on :: "(int \<Rightarrow> stream res) \<Rightarrow> nat \<Rightarrow> int list \<Rightarrow> read_handle \<Rightarrow> bytes res list" where
  "read_on dl off [] h = []"
| "read_on dl off (n # ns) h = (case handle_read dl (int off) n h of
     (Inl ex, h') \<Rightarrow> [Inl ex]
   | (Inr bs, h') \<Rightarrow> Inr bs # read_on dl (off + length bs) ns h')"

lemma read_on_cut_off:
  assumes "cut_off d k h" and "rh_pos h \<le> int off" and "int off \<le> rh_pos h + SEEK_FORWARD_THRESHOLD" and "off \<le> k"
    and "list_all (\<lambda>n. 0 < n) ns" and "int (k - off) \<le> sum_list ns" and "0 < n"
  shows "\<exists>bss. read_on dl off (ns @ [n]) h = map Inr (bss @ [[]]) \<and> concat bss = drop off (take k d)"
  using assms(1-6)
proof (induction ns arbitrary: off h)
  case Nil
  have "off < length d" using Nil.prems(1,4) by (simp add: cut_off_def)
  then obtain h' where "handle_read dl (int off) n h = (Inr (take (nat n) (drop off (take k d))), h')"
    using read_cut_off [OF Nil.prems(1-3) _ assms(7)] by blast
  then show ?case using Nil.prems(6) by (intro exI [of _ "[]"]) simp
next
  case (Cons m ns)
  have m: "0 < m" "k < length d" using Cons.prems(1,5) by (simp_all add: cut_off_def)
  let ?bs = "take (nat m) (drop off (take k d))"
  obtain h' where h': "handle_read dl (int off) m h = (Inr ?bs, h')" "cut_off d k h'" "rh_pos h' = int (min k (off + nat m))"
    using read_cut_off [OF Cons.prems(1-3) _ m(1)] Cons.prems(4) m(2) by (meson le_less_trans)
  have len: "off + length ?bs = min k (off + nat m)" using Cons.prems(4) m(2) by auto
  have "int (k - min k (off + nat m)) \<le> sum_list ns"
  proof (cases "k \<le> off + nat m")
    case True
    have "0 \<le> sum_list ns" using Cons.prems(5) by (intro sum_list_nonneg) (fastforce simp: list_all_iff)
    then show ?thesis using True by simp
  qed (use Cons.prems(6) m(1) in auto)
  then obtain bss where "read_on dl (off + length ?bs) (ns @ [n]) h' = map Inr (bss @ [[]])" "concat bss = drop (min k (off + nat m)) (take k d)"
    using Cons.IH [OF h'(2), of "min k (off + nat m)"] h'(3) Cons.prems(5) unfolding len by (auto simp: SEEK_FORWARD_THRESHOLD_def)
  moreover have "?bs @ drop (min k (off + nat m)) (take k d) = drop off (take k d)"
    using append_take_drop_id [of "nat m" "drop off (take k d)"] by (cases "k \<le> off + nat m") (simp_all add: add.commute)
  ultimately show ?case using h'(1) by (intro exI [of _ "?bs # bss"]) simp
qed

lemma complete_stream_fills: "rh_stream h = Some (cs, None) \<Longrightarrow> [] \<notin> set cs \<Longrightarrow> fst (fill_buffer count h) = None"
proof (induction cs arbitrary: h)
  case Nil
  then show ?case by (simp add: fill_buffer.simps next_chunk_def)
next
  case (Cons c cs)
  then show ?case by (subst fill_buffer.simps) (auto simp: next_chunk_def)
qed

lemma new_handle_reads:
  assumes "downloads_of d dl" and "off < length d" and "dl (int off) = Inr (cs, None)" and "0 < n"
  shows "fst (handle_read dl (int off) n (read_handle_new (int (length d)))) = Inr (take (nat n) (drop off d))"
proof -
  have "[] \<notin> set cs" using assms(1-3) unfolding downloads_of_def
    by (metis fst_conv of_nat_0_le_iff of_nat_less_iff of_res.simps(1))
  then have "\<exists>bs h'. handle_read dl (int off) n (read_handle_new (int (length d))) = (Inr bs, h')"
    using complete_stream_fills [of "\<lparr>rh_size = int (length d), rh_stream = Some (cs, None), rh_pos = int off, rh_buffer = []\<rparr>" cs n] assms(2-4)
    by (auto simp: handle_read_def read_handle_new_def reopen_def Let_def consume_def split: prod.splits option.splits)
  moreover have "rh_ok d (read_handle_new (int (length d)))" by (simp add: rh_ok_def read_handle_new_def)
  ultimately show ?thesis using handle_read_ok [OF _ assms(1), of _ "int off" n] by fastforce
qed

lemma raised_cut_off:
  assumes "rh_ok d h" and "list_all (op_serves d) xs" and "(op, Inl ex) \<in> set (fst (handle_run xs h))" and "rh_stream (snd (handle_run xs h)) \<noteq> None"
  shows "\<exists>k. cut_off d k (snd (handle_run xs h))"
  using assms
proof (induction xs h rule: handle_run.induct)
  case (2 xs h)
  then show ?case by (auto simp: handle_close_def rh_ok_def)
next
  case (3 dl' offset' sz' xs h)
  obtain r h' where rd: "handle_read dl' offset' sz' h = (r, h')" by force
  show ?case
  proof (cases r)
    case (Inl ex)
    then show ?thesis using handle_read_raises [OF "3.prems"(1) _ _ rd [unfolded Inl]] "3.prems"(2,4) rd by auto
  next
    case (Inr bs)
    have "rh_ok d h'" using handle_read_ok [OF "3.prems"(1) _ _ rd [unfolded Inr]] "3.prems"(2) by auto
    then show ?thesis using "3.IH" [OF rd [symmetric, unfolded Inr] refl] "3.prems" rd Inr by (auto split: prod.splits)
  qed
qed simp

text \<open>C38: A read that failed makes the handle lie about the end of the file. For every file and every history of a handle that ended with an
  exception of its download stream, there is a byte \<open>k\<close> before the end of the file such that a client that reads on from the
  handle's position or a later one up to \<open>k\<close> gets exactly the bytes up to \<open>k\<close> and then an empty answer, which
  means the end of the file, whatever a new download would deliver; a new handle would deliver the bytes that follow.\<close>

theorem read_after_error_truncates:
  assumes "list_all (op_serves d) xs" and run: "handle_run xs (read_handle_new (int (length d))) = (answers, h)"
    and "(op, Inl ex) \<in> set answers" and "rh_stream h \<noteq> None"
  shows "\<exists>k. rh_pos h \<le> int k \<and> k < length d
    \<and> (\<forall>dl off ns n. rh_pos h \<le> int off \<and> off \<le> k \<and> int off \<le> rh_pos h + SEEK_FORWARD_THRESHOLD
          \<and> list_all (\<lambda>m. 0 < m) ns \<and> int (k - off) \<le> sum_list ns \<and> 0 < n \<longrightarrow>
        (\<exists>bss. read_on dl off (ns @ [n]) h = map Inr (bss @ [[]]) \<and> concat bss = drop off (take k d)))
    \<and> (\<forall>dl cs n. downloads_of d dl \<and> dl (int k) = Inr (cs, None) \<and> 0 < n \<longrightarrow>
        fst (handle_read dl (int k) n (read_handle_new (int (length d)))) = Inr (take (nat n) (drop k d)))"
proof -
  have ok: "rh_ok d (read_handle_new (int (length d)))" by (simp add: rh_ok_def read_handle_new_def)
  obtain k where k: "cut_off d k h" using raised_cut_off [OF ok assms(1)] assms(3,4) run by fastforce
  then have "rh_pos h \<le> int k" "k < length d" by (auto simp: cut_off_def)
  then show ?thesis using read_on_cut_off [OF k] new_handle_reads by blast
qed

definition broken_download :: "int \<Rightarrow> stream res" where
  "broken_download off = (if 0 \<le> off \<and> off < 2 then Inr ([drop (nat off) [1, 2]], Some TechnicalError) else Inl TechnicalError)"

theorem read_after_error_truncates_witness:
  "\<exists>h. handle_run [HRead broken_download 0 4] (read_handle_new 5) = ([(HRead broken_download 0 4, Inl TechnicalError)], h)
    \<and> read_on five_download 0 [1, 1, 3] h = [Inr [1], Inr [2], Inr []]
    \<and> fst (handle_read five_download 2 3 (read_handle_new 5)) = Inr [3, 4, 5]"
proof -
  let ?h = "\<lparr>rh_size = 5, rh_stream = Some ([], None), rh_pos = 0, rh_buffer = [1, 2]\<rparr>"
  have run: "handle_run [HRead broken_download 0 4] (read_handle_new (int (length five))) = ([(HRead broken_download 0 4, Inl TechnicalError)], ?h)"
    by (simp add: handle_read_def read_handle_new_def broken_download_def five_def reopen_def consume_def fill_buffer.simps next_chunk_def
        SEEK_FORWARD_THRESHOLD_def Let_def)
  have "serves (of_res (broken_download off)) (drop (nat off) five) \<and> [] \<notin> set (fst (of_res (broken_download off)))"
    if "0 \<le> off" "off < 5" for off
  proof -
    from that have "off = 0 \<or> off = 1 \<or> off = 2 \<or> off = 3 \<or> off = 4" by auto
    then show ?thesis by (auto simp: broken_download_def five_def raising_def strict_prefix_def)
  qed
  then have "list_all (op_serves five) [HRead broken_download 0 4]" by (simp add: downloads_of_def five_def)
  note served = this
  have raised: "(HRead broken_download 0 4, Inl TechnicalError) \<in> set [(HRead broken_download 0 4, Inl TechnicalError)]" "rh_stream ?h \<noteq> None" by simp_all
  from read_after_error_truncates [OF served run raised]
  obtain k where k: "k < length five"
    and on_k: "\<forall>dl off ns n. rh_pos ?h \<le> int off \<and> off \<le> k \<and> int off \<le> rh_pos ?h + SEEK_FORWARD_THRESHOLD
          \<and> list_all (\<lambda>m. 0 < m) ns \<and> int (k - off) \<le> sum_list ns \<and> 0 < n \<longrightarrow>
        (\<exists>bss. read_on dl off (ns @ [n]) ?h = map Inr (bss @ [[]]) \<and> concat bss = drop off (take k five))"
    and fresh_k: "\<forall>dl cs n. downloads_of five dl \<and> dl (int k) = Inr (cs, None) \<and> 0 < n \<longrightarrow>
        fst (handle_read dl (int k) n (read_handle_new (int (length five)))) = Inr (take (nat n) (drop k five))"
    by (elim exE conjE)
  have on: "read_on five_download 0 [1, 1, 3] ?h = [Inr [1], Inr [2], Inr []]"
    by (simp add: handle_read_def consume_def fill_buffer.simps next_chunk_def Let_def SEEK_FORWARD_THRESHOLD_def)
  have "\<exists>bss. read_on five_download 0 ([1, 4] @ [3]) ?h = map Inr (bss @ [[]]) \<and> concat bss = take k five"
    using on_k [rule_format, of 0 "[1, 4]" 3 five_download] k by (simp add: five_def SEEK_FORWARD_THRESHOLD_def del: read_on.simps)
  moreover have "read_on five_download 0 ([1, 4] @ [3]) ?h = [Inr [1], Inr [2], Inr []]"
    by (simp add: handle_read_def consume_def fill_buffer.simps next_chunk_def Let_def SEEK_FORWARD_THRESHOLD_def)
  ultimately have "take k five = [1, 2]" by (auto simp: map_eq_Cons_conv)
  then have "min (length five) k = 2" by (metis length_take length_Cons list.size(3) numeral_2_eq_2)
  then have "k = 2" using k by simp
  then have "fst (handle_read five_download 2 3 (read_handle_new 5)) = Inr [3, 4, 5]"
    using fresh_k [rule_format, of five_download _ 3] five_downloads by (simp add: five_download_def five_def)
  with run on show ?thesis by (simp add: five_def)
qed

text \<open>The probing answers describe one solid region from the offset to the size.\<close>

lemma handle_seek_solid:
  "offset < sz \<Longrightarrow> handle_seek sz offset SEEK_DATA = Inr offset \<and> handle_seek sz offset SEEK_HOLE = Inr sz"
  "sz \<le> offset \<or> wh \<notin> {SEEK_DATA, SEEK_HOLE} \<Longrightarrow> handle_seek sz offset wh = Inl OSError"
  by (auto simp: handle_seek_def)

section \<open>Writing\<close>

definition SPOOL_READ_CHUNK :: int where "SPOOL_READ_CHUNK = 1024 * 1024"

record write_handle =
  wh_spool :: bytes
  wh_size :: int
  wh_dirty :: bool
  wh_closed :: bool

definition write_handle_new :: write_handle where
  "write_handle_new = \<lparr>wh_spool = [], wh_size = 0, wh_dirty = False, wh_closed = False\<rparr>"

text \<open>
  Seeking and writing in a binary file: a gap behind the end is filled with zeros, but only when
  something is written.
\<close>

definition spool_write :: "nat \<Rightarrow> bytes \<Rightarrow> bytes \<Rightarrow> bytes" where
  "spool_write offset data spool =
     (if data = [] then spool
      else take offset spool @ replicate (offset - length spool) 0 @ data @ drop (offset + length data) spool)"

definition handle_write :: "nat \<Rightarrow> bytes \<Rightarrow> write_handle \<Rightarrow> unit res \<times> write_handle" where
  "handle_write offset data h =
     (if wh_closed h then (Inl ValueError, h)
      else (Inr (), h\<lparr>wh_spool := spool_write offset data (wh_spool h),
                      wh_size := max (wh_size h) (int offset + int (length data)), wh_dirty := True\<rparr>))"

function spool_chunks :: "bytes \<Rightarrow> nat \<Rightarrow> int \<Rightarrow> bytes list" where
  "spool_chunks spool pos remaining =
     (if remaining \<le> 0 then []
      else let chunk = take (nat (min SPOOL_READ_CHUNK remaining)) (drop pos spool) in
        if chunk = [] then []
        else chunk # spool_chunks spool (pos + length chunk) (remaining - int (length chunk)))"
  by pat_completeness auto
termination
  by (relation "measure (\<lambda>(spool, pos, remaining). nat remaining)") (auto simp: SPOOL_READ_CHUNK_def nat_less_iff)

declare spool_chunks.simps [simp del]

definition iter_spool :: "write_handle \<Rightarrow> stream" where
  "iter_spool h = (spool_chunks (wh_spool h) 0 (wh_size h), None)"

text \<open>\<open>upload s n\<close> is \<open>Ops.upload_from_stream\<close> for the handle's path; the result tells what was committed.\<close>

definition write_handle_close :: "(stream \<Rightarrow> int \<Rightarrow> 'r res) \<Rightarrow> write_handle \<Rightarrow> 'r option res \<times> write_handle" where
  "write_handle_close upload h =
     (if wh_closed h then (Inr None, h)
      else
        let h = h\<lparr>wh_closed := True\<rparr> in
        if wh_dirty h then (rbind (upload (iter_spool h) (wh_size h)) (\<lambda>r. Inr (Some r)), h)
        else (Inr None, h))"

definition write_handle_abort :: "write_handle \<Rightarrow> write_handle" where
  "write_handle_abort h = h\<lparr>wh_closed := True\<rparr>"

fun write_all :: "(nat \<times> bytes) list \<Rightarrow> write_handle \<Rightarrow> unit res \<times> write_handle" where
  "write_all [] h = (Inr (), h)"
| "write_all ((offset, data) # ws) h = (case handle_write offset data h of
     (Inl ex, h') \<Rightarrow> (Inl ex, h')
   | (Inr _, h') \<Rightarrow> write_all ws h')"

text \<open>
  The file the writes describe: at every position the byte of the last write there, zero where
  nothing was written, up to the end of the write that reaches farthest.
\<close>

fun write_at :: "nat \<times> bytes \<Rightarrow> (nat \<Rightarrow> 8 word) \<Rightarrow> nat \<Rightarrow> 8 word" where
  "write_at (offset, data) f i = (if offset \<le> i \<and> i < offset + length data then data ! (i - offset) else f i)"

definition written_byte :: "(nat \<times> bytes) list \<Rightarrow> nat \<Rightarrow> 8 word" where
  "written_byte ws = fold write_at ws (\<lambda>_. 0)"

definition written_end :: "(nat \<times> bytes) list \<Rightarrow> nat" where
  "written_end ws = fold (\<lambda>(offset, data) n. max n (offset + length data)) ws 0"

definition spooled :: "bytes \<Rightarrow> (nat \<Rightarrow> 8 word) \<Rightarrow> nat \<Rightarrow> bool" where
  "spooled spool f n \<longleftrightarrow> spool = map f [0..<n] \<and> (\<forall>i\<ge>n. f i = 0)"

lemma spool_write_spooled:
  assumes "spooled spool f n" and "data \<noteq> []"
  shows "spooled (spool_write offset data spool) (write_at (offset, data) f) (max n (offset + length data))"
proof -
  have len: "length spool = n" and at: "\<And>i. i < n \<Longrightarrow> spool ! i = f i" and zero: "\<And>i. n \<le> i \<Longrightarrow> f i = 0"
    using assms(1) by (auto simp: spooled_def)
  have "spool_write offset data spool ! i = write_at (offset, data) f i" if "i < max n (offset + length data)" for i
    using that assms(2) len at zero
    by (auto simp: spool_write_def nth_append min_def not_less not_le intro!: arg_cong [of _ _ f])
  moreover have "length (spool_write offset data spool) = max n (offset + length data)"
    using assms(2) len by (auto simp: spool_write_def)
  ultimately show ?thesis using zero by (auto simp: spooled_def intro!: nth_equalityI)
qed

lemma write_all_spooled:
  assumes "list_all (\<lambda>(offset, data). data \<noteq> []) ws" and "spooled (wh_spool h) f n" and "wh_size h = int n" and "\<not> wh_closed h"
  shows "\<exists>h'. write_all ws h = (Inr (), h') \<and> \<not> wh_closed h' \<and> (wh_dirty h' \<longleftrightarrow> wh_dirty h \<or> ws \<noteq> [])
    \<and> spooled (wh_spool h') (fold write_at ws f) (fold (\<lambda>(offset, data) n. max n (offset + length data)) ws n)
    \<and> wh_size h' = int (fold (\<lambda>(offset, data) n. max n (offset + length data)) ws n)"
  using assms
proof (induction ws arbitrary: h f n)
  case (Cons w ws)
  obtain offset data where w: "w = (offset, data)" by force
  let ?h = "h\<lparr>wh_spool := spool_write offset data (wh_spool h), wh_size := max (wh_size h) (int offset + int (length data)), wh_dirty := True\<rparr>"
  have "handle_write offset data h = (Inr (), ?h)" using Cons.prems(4) by (simp add: handle_write_def)
  moreover have "spooled (wh_spool ?h) (write_at (offset, data) f) (max n (offset + length data))"
    using spool_write_spooled [OF Cons.prems(2)] Cons.prems(1) w by simp
  moreover have "wh_size ?h = int (max n (offset + length data))" using Cons.prems(3) by simp
  ultimately show ?case using Cons.IH [of ?h "write_at (offset, data) f" "max n (offset + length data)"] Cons.prems w
    by (auto simp del: write_at.simps)
qed auto

lemma spool_chunks_bytes: "concat (spool_chunks spool pos remaining) = take (nat remaining) (drop pos spool)"
proof (induction spool pos remaining rule: spool_chunks.induct)
  case (1 spool pos remaining)
  let ?chunk = "take (nat (min SPOOL_READ_CHUNK remaining)) (drop pos spool)"
  show ?case
  proof (cases "remaining \<le> 0 \<or> ?chunk = []")
    case True
    then show ?thesis by (subst spool_chunks.simps) (auto simp: SPOOL_READ_CHUNK_def min_def split: if_splits)
  next
    case False
    define n where "n = length ?chunk"
    have n: "n \<le> nat remaining" by (simp add: n_def)
    have chunk: "?chunk = take n (drop pos spool)" by (simp add: n_def min_def)
    have "concat (spool_chunks spool pos remaining) = ?chunk @ take (nat (remaining - int n)) (drop (pos + n) spool)"
      using "1.IH" False by (subst spool_chunks.simps) (simp add: Let_def n_def)
    also have "\<dots> = take (n + nat (remaining - int n)) (drop pos spool)"
      unfolding chunk by (simp only: take_add drop_drop add.commute)
    also have "n + nat (remaining - int n) = nat remaining" using n by linarith
    finally show ?thesis .
  qed
qed

lemma closed_close: "wh_closed h \<Longrightarrow> fst (write_handle_close upload h) = Inr None"
  and unwritten_close: "fst (write_handle_close upload write_handle_new) = Inr None"
  by (simp_all add: write_handle_close_def write_handle_new_def Let_def)

text \<open>C26: An SFTP upload stores the file its writes describe. After any sequence of writes, out of order, overlapping
  or with gaps, closing the handle uploads exactly once, with the declared size being the end of
  the farthest write and the stream of that many bytes, at every position the byte written
  there last and zero where nothing was written; a second close, a close without a write and a close
  after an abort upload nothing, and a write to a closed handle is refused.\<close>

theorem write_handle_commits:
  assumes "list_all (\<lambda>(offset, data). data \<noteq> []) ws" and "ws \<noteq> []"
  shows "\<exists>h s. write_all ws write_handle_new = (Inr (), h) \<and> snd s = None
    \<and> stream_bytes s = map (written_byte ws) [0..<written_end ws]
    \<and> fst (write_handle_close upload h) = rbind (upload s (int (written_end ws))) (\<lambda>r. Inr (Some r))
    \<and> fst (write_handle_close upload (snd (write_handle_close upload h))) = Inr None
    \<and> fst (write_handle_close upload write_handle_new) = Inr None
    \<and> fst (write_handle_close upload (write_handle_abort h)) = Inr None
    \<and> fst (handle_write offset data (snd (write_handle_close upload h))) = Inl ValueError"
proof -
  obtain h where h: "write_all ws write_handle_new = (Inr (), h)" "\<not> wh_closed h" "wh_dirty h"
      "spooled (wh_spool h) (written_byte ws) (written_end ws)" "wh_size h = int (written_end ws)"
    using write_all_spooled [OF assms(1), of write_handle_new "\<lambda>_. 0" 0] assms(2)
    by (auto simp: write_handle_new_def spooled_def written_byte_def written_end_def)
  let ?s = "iter_spool (h\<lparr>wh_closed := True\<rparr>)"
  have "stream_bytes ?s = map (written_byte ws) [0..<written_end ws]"
    using h(4,5) by (simp add: iter_spool_def stream_bytes_def spool_chunks_bytes spooled_def)
  moreover have "snd ?s = None" by (simp add: iter_spool_def)
  moreover have "fst (write_handle_close upload h) = rbind (upload ?s (int (written_end ws))) (\<lambda>r. Inr (Some r))"
      "wh_closed (snd (write_handle_close upload h))"
    using h(2,3,5) by (simp_all add: write_handle_close_def Let_def)
  ultimately show ?thesis using h(1)
    by (intro exI [of _ h] exI [of _ ?s]) (simp add: closed_close unwritten_close handle_write_def write_handle_abort_def)
qed

theorem write_handle_commits_witness:
  "\<exists>h s. write_all [(4, [7]), (0, [1, 2]), (1, [5])] write_handle_new = (Inr (), h) \<and> stream_bytes s = [1, 5, 0, 0, 7]
    \<and> fst (write_handle_close (\<lambda>s n. Inr (s, n)) h) = Inr (Some (s, 5))"
  using write_handle_commits [of "[(4, [7]), (0, [1, 2]), (1, [5])]" "\<lambda>s n. Inr (s, n)"]
  by (force simp: written_byte_def written_end_def numeral_eq_Suc upt_rec)

text \<open>
  A write of no bytes beyond the end counts for the declared size but not for the spool: the
  upload announces five bytes and delivers none.
\<close>

lemma empty_write_declares_hole:
  "\<exists>h. write_all [(5, [])] write_handle_new = (Inr (), h) \<and> fst (write_handle_close (\<lambda>s n. Inr (s, n)) h) = Inr (Some (([], None), 5))"
  by (simp add: write_handle_new_def handle_write_def spool_write_def write_handle_close_def iter_spool_def spool_chunks.simps Let_def)

end
