(* ===== verification/StatApi.thy ===== *)
theory StatApi
  imports FileDesc
begin

text \<open>
  What listings show of files (\<open>FileStatApi\<close>, \<open>src/tgdcfs/core/api/stat.py\<close>): the stats are kept on the file refs and
  written to the metadata in the background. A listing reads the descriptor of a file once, whoever else asks meanwhile waits
  for the same read, and a change of the file drops what is stored. A transition system over the listings, the
  descriptor reads, the writers and the flusher: every step is what a task does between two suspensions. The
  model is of \<open>listing.stat_in_metadata\<close>; without it a listing reads the descriptor each time. It starts with folders for which nothing
  is stored, so \<open>load_stats\<close> finds nothing, and is of a repository whose \<open>push\<close> does not write the stats
  (\<open>push_writes_stats = False\<close>), so that every change marks its folder for the flusher.
\<close>

section \<open>The stat of a descriptor\<close>

definition stat_of :: "(file_version \<Rightarrow> int) \<Rightarrow> string \<Rightarrow> datetime \<Rightarrow> file_desc \<Rightarrow> file_stat res" where
  "stat_of content_length uuid now fd =
     rbind (get_latest_version fd uuid now) (\<lambda>fv.
       let versions = get_versions fd False False;
           created = (case map updated_at_timestamp versions of [] \<Rightarrow> ts (fd_created_at fd) | t # dates \<Rightarrow> Min (set (t # dates)))
       in Inr \<lparr>st_size = max 0 (content_length fv), st_created_at = created,
            st_modified_at = (if versions = [] then created else updated_at_timestamp fv)\<rparr>)"

section \<open>Reads, changes and the flusher\<close>

datatype progress = Scheduled | Reading | Got file_stat bool | Broken exn

record stat_read =
  rd_epoch :: int
  rd_progress :: progress

text \<open>
  Files are numbered. \<open>sa_truth\<close> is the stat of the descriptor that is in the store, \<open>sa_saves\<close> how many writers have saved a
  descriptor and not invalidated the stat yet, \<open>sa_listed\<close> whether the ref is still one of its folder's files, \<open>sa_removing\<close> the refs that were taken
  out of their folder and whose folder is not marked yet. A read is scheduled until its task starts and remembers the epoch. \<open>sa_waiting\<close> and
  \<open>sa_answers\<close> are the listings, by number. \<open>sa_stored\<close> is what the metadata holds, \<open>sa_batch\<close> the folders
  being written and \<open>sa_shot\<close> what is written for those in \<open>sa_snapped\<close>.
\<close>

record stat_api =
  sa_truth :: "nat \<Rightarrow> file_stat"
  sa_saves :: "nat \<Rightarrow> nat"
  sa_stat :: "nat \<Rightarrow> file_stat option"
  sa_epoch :: "nat \<Rightarrow> int"
  sa_listed :: "nat \<Rightarrow> bool"
  sa_removing :: "nat list"
  sa_reads :: "(nat, stat_read) dict"
  sa_waiting :: "(nat \<times> nat) list"
  sa_answers :: "(nat \<times> file_stat res) list"
  sa_dirty :: "nat list"
  sa_batch :: "nat list option"
  sa_snapped :: "nat list"
  sa_shot :: "nat \<Rightarrow> file_stat option"
  sa_stored :: "nat \<Rightarrow> file_stat option"

definition stat_mark :: "nat \<Rightarrow> stat_api \<Rightarrow> stat_api" where
  "stat_mark d s = s\<lparr>sa_dirty := (if d \<in> set (sa_dirty s) then sa_dirty s else sa_dirty s @ [d])\<rparr>"

definition stat_get :: "nat \<Rightarrow> nat \<Rightarrow> stat_api \<Rightarrow> stat_api" where
  "stat_get c a s = (case sa_stat s a of
     Some st \<Rightarrow> s\<lparr>sa_answers := sa_answers s @ [(c, Inr st)]\<rparr>
   | None \<Rightarrow>
       let s = s\<lparr>sa_waiting := sa_waiting s @ [(c, a)]\<rparr> in
       if dict_has (sa_reads s) a then s
       else s\<lparr>sa_reads := sa_reads s @ [(a, \<lparr>rd_epoch = sa_epoch s a, rd_progress = Scheduled\<rparr>)]\<rparr>)"

text \<open>The task of \<open>_fill\<close> starts.\<close>

definition stat_start :: "nat \<Rightarrow> stat_api \<Rightarrow> stat_api" where
  "stat_start a s = s\<lparr>sa_reads := map (\<lambda>(b, rd). if b = a then (b, \<lparr>rd_epoch = sa_epoch s a, rd_progress = Reading\<rparr>) else (b, rd)) (sa_reads s)\<rparr>"

text \<open>The descriptor read of \<open>_fill\<close> returns; \<open>p\<close> is what it found.\<close>

definition stat_fetched :: "nat \<Rightarrow> progress \<Rightarrow> stat_api \<Rightarrow> stat_api" where
  "stat_fetched a p s = s\<lparr>sa_reads := map (\<lambda>(b, rd). if b = a then (b, rd\<lparr>rd_progress := p\<rparr>) else (b, rd)) (sa_reads s)\<rparr>"

definition answer_all :: "nat \<Rightarrow> file_stat res \<Rightarrow> stat_api \<Rightarrow> stat_api" where
  "answer_all a res s = s\<lparr>sa_reads := AList.delete a (sa_reads s), sa_waiting := filter (\<lambda>(c, b). b \<noteq> a) (sa_waiting s),
     sa_answers := sa_answers s @ map (\<lambda>(c, b). (c, res)) (filter (\<lambda>(c, b). b = a) (sa_waiting s))\<rparr>"

text \<open>The rest of \<open>_fill\<close>, after the descriptor was read.\<close>

definition stat_fill :: "(nat \<Rightarrow> nat) \<Rightarrow> nat \<Rightarrow> stat_read \<Rightarrow> stat_api \<Rightarrow> stat_api" where
  "stat_fill dir a rd s = (case rd_progress rd of
     Scheduled \<Rightarrow> s
   | Reading \<Rightarrow> s
   | Broken ex \<Rightarrow> answer_all a (Inl ex) s
   | Got st complete \<Rightarrow>
       answer_all a (Inr st)
         (if complete \<and> sa_epoch s a = rd_epoch rd \<and> sa_listed s a
          then stat_mark (dir a) (s\<lparr>sa_stat := (sa_stat s)(a := Some st)\<rparr>) else s))"

definition stat_changed_invalidate :: "(nat \<Rightarrow> nat) \<Rightarrow> bool \<Rightarrow> nat \<Rightarrow> stat_api \<Rightarrow> stat_api" where
  "stat_changed_invalidate dir stored a s =
     (let s = s\<lparr>sa_epoch := (sa_epoch s)(a := sa_epoch s a + 1), sa_saves := (sa_saves s)(a := sa_saves s a - 1)\<rparr> in
      if sa_stat s a = None \<and> \<not> stored then s
      else stat_mark (dir a) (s\<lparr>sa_stat := (sa_stat s)(a := None)\<rparr>))"

definition descriptor_saved :: "nat \<Rightarrow> file_stat \<Rightarrow> stat_api \<Rightarrow> stat_api" where
  "descriptor_saved a st s = s\<lparr>sa_truth := (sa_truth s)(a := st), sa_saves := (sa_saves s)(a := sa_saves s a + 1)\<rparr>"

text \<open>\<open>FileApi.rm\<close>: the ref leaves its folder, and when the tree was pushed the folder is marked (\<open>changed\<close>).\<close>

definition ref_removed :: "nat \<Rightarrow> stat_api \<Rightarrow> stat_api" where
  "ref_removed a s = s\<lparr>sa_listed := (sa_listed s)(a := False), sa_removing := a # sa_removing s\<rparr>"

definition stat_changed_removed :: "(nat \<Rightarrow> nat) \<Rightarrow> nat \<Rightarrow> stat_api \<Rightarrow> stat_api" where
  "stat_changed_removed dir a s = stat_mark (dir a) (s\<lparr>sa_removing := removeAll a (sa_removing s)\<rparr>)"

definition flush_begin :: "stat_api \<Rightarrow> stat_api" where
  "flush_begin s = s\<lparr>sa_batch := Some (sa_dirty s), sa_dirty := [], sa_snapped := []\<rparr>"

text \<open>\<open>save_stats\<close> fixes what it writes of a folder: the stats of the refs that are in it.\<close>

definition listed_stat :: "stat_api \<Rightarrow> nat \<Rightarrow> file_stat option" where
  "listed_stat s a = (if sa_listed s a then sa_stat s a else None)"

definition flush_snap :: "(nat \<Rightarrow> nat) \<Rightarrow> nat \<Rightarrow> stat_api \<Rightarrow> stat_api" where
  "flush_snap dir d s = s\<lparr>sa_snapped := d # sa_snapped s, sa_shot := (\<lambda>a. if dir a = d then listed_stat s a else sa_shot s a)\<rparr>"

definition flush_done :: "(nat \<Rightarrow> nat) \<Rightarrow> nat list \<Rightarrow> stat_api \<Rightarrow> stat_api" where
  "flush_done dir batch s = s\<lparr>sa_batch := None, sa_stored := (\<lambda>a. if dir a \<in> set batch then sa_shot s a else sa_stored s a)\<rparr>"

text \<open>A write that failed may have reached some of the folders, \<open>landed\<close>; all of them are marked again.\<close>

definition flush_failed :: "(nat \<Rightarrow> nat) \<Rightarrow> nat list \<Rightarrow> nat list \<Rightarrow> stat_api \<Rightarrow> stat_api" where
  "flush_failed dir landed batch s =
     fold stat_mark batch (s\<lparr>sa_batch := None, sa_stored := (\<lambda>a. if dir a \<in> set landed then sa_shot s a else sa_stored s a)\<rparr>)"

inductive stat_step :: "(nat \<Rightarrow> nat) \<Rightarrow> stat_api \<Rightarrow> stat_api \<Rightarrow> bool" for dir where
  step_get: "stat_step dir s (stat_get c a s)"
| step_start: "map_of (sa_reads s) a = Some rd \<Longrightarrow> rd_progress rd = Scheduled \<Longrightarrow> stat_step dir s (stat_start a s)"
| step_fetched: "map_of (sa_reads s) a = Some rd \<Longrightarrow> rd_progress rd = Reading \<Longrightarrow> p = Got (sa_truth s a) True \<or> (\<exists>st. p = Got st False) \<or> (\<exists>ex. p = Broken ex)
    \<Longrightarrow> stat_step dir s (stat_fetched a p s)"
| step_fill: "map_of (sa_reads s) a = Some rd \<Longrightarrow> rd_progress rd \<notin> {Scheduled, Reading} \<Longrightarrow> stat_step dir s (stat_fill dir a rd s)"
| step_saved: "stat_step dir s (descriptor_saved a st s)"
| step_invalidate: "0 < sa_saves s a \<Longrightarrow> stat_step dir s (stat_changed_invalidate dir stored a s)"
| step_removed: "sa_listed s a \<Longrightarrow> stat_step dir s (ref_removed a s)"
| step_changed: "a \<in> set (sa_removing s) \<Longrightarrow> stat_step dir s (stat_changed_removed dir a s)"
| step_flush: "sa_batch s = None \<Longrightarrow> sa_dirty s \<noteq> [] \<Longrightarrow> stat_step dir s (flush_begin s)"
| step_snap: "sa_batch s = Some batch \<Longrightarrow> d \<in> set batch \<Longrightarrow> d \<notin> set (sa_snapped s) \<Longrightarrow> stat_step dir s (flush_snap dir d s)"
| step_done: "sa_batch s = Some batch \<Longrightarrow> set batch \<subseteq> set (sa_snapped s) \<Longrightarrow> stat_step dir s (flush_done dir batch s)"
| step_failed: "sa_batch s = Some batch \<Longrightarrow> set landed \<subseteq> set batch \<Longrightarrow> stat_step dir s (flush_failed dir landed batch s)"

definition stat_init :: "(nat \<Rightarrow> file_stat) \<Rightarrow> stat_api" where
  "stat_init truth = \<lparr>sa_truth = truth, sa_saves = (\<lambda>_. 0), sa_stat = (\<lambda>_. None), sa_epoch = (\<lambda>_. 0), sa_listed = (\<lambda>_. True), sa_removing = [], sa_reads = [],
     sa_waiting = [], sa_answers = [], sa_dirty = [], sa_batch = None, sa_snapped = [], sa_shot = (\<lambda>_. None), sa_stored = (\<lambda>_. None)\<rparr>"

inductive stat_reach :: "(nat \<Rightarrow> nat) \<Rightarrow> stat_api \<Rightarrow> stat_api \<Rightarrow> bool" for dir where
  reach_refl: "stat_reach dir s s"
| reach_step: "stat_reach dir s s' \<Longrightarrow> stat_step dir s' s'' \<Longrightarrow> stat_reach dir s s''"

section \<open>The invariant\<close>

text \<open>A stat on a ref, or about to be put there by a read that nothing has overtaken, is that of the descriptor.\<close>

definition stats_true :: "stat_api \<Rightarrow> bool" where
  "stats_true s \<longleftrightarrow> (\<forall>a st. sa_saves s a = 0 \<longrightarrow> sa_stat s a = Some st \<longrightarrow> st = sa_truth s a)
     \<and> (\<forall>(a, rd) \<in> set (sa_reads s). rd_epoch rd \<le> sa_epoch s a
          \<and> (\<forall>st. sa_saves s a = 0 \<longrightarrow> rd_epoch rd = sa_epoch s a \<longrightarrow> rd_progress rd = Got st True \<longrightarrow> st = sa_truth s a))"

text \<open>
  A folder that is neither marked nor being written has the stats of its files in the metadata, and one being written has them in what is written;
  a file that was just taken out of it may still have its stat there.
\<close>

abbreviation "being_written s \<equiv> (case sa_batch s of None \<Rightarrow> {} | Some batch \<Rightarrow> set batch)"

definition stats_kept :: "(nat \<Rightarrow> nat) \<Rightarrow> stat_api \<Rightarrow> bool" where
  "stats_kept dir s \<longleftrightarrow> (\<forall>a. dir a \<notin> set (sa_dirty s) \<longrightarrow> a \<notin> set (sa_removing s) \<longrightarrow>
     (dir a \<in> being_written s \<longrightarrow> dir a \<in> set (sa_snapped s) \<longrightarrow> sa_shot s a = listed_stat s a)
   \<and> (dir a \<notin> being_written s \<longrightarrow> sa_stored s a = listed_stat s a))"

text \<open>Only files that are gone from their folder are being removed.\<close>

definition removals_ok :: "stat_api \<Rightarrow> bool" where
  "removals_ok s \<longleftrightarrow> (\<forall>a \<in> set (sa_removing s). \<not> sa_listed s a)"

lemma stats_trueD:
  assumes "stats_true s"
  shows "sa_saves s a = 0 \<Longrightarrow> sa_stat s a = Some st \<Longrightarrow> st = sa_truth s a"
    and "(a, rd) \<in> set (sa_reads s) \<Longrightarrow> rd_epoch rd \<le> sa_epoch s a"
    and "(a, rd) \<in> set (sa_reads s) \<Longrightarrow> sa_saves s a = 0 \<Longrightarrow> rd_epoch rd = sa_epoch s a \<Longrightarrow> rd_progress rd = Got st True \<Longrightarrow> st = sa_truth s a"
  using assms by (auto simp: stats_true_def)

lemma stats_trueI:
  assumes "\<And>a st. sa_saves s a = 0 \<Longrightarrow> sa_stat s a = Some st \<Longrightarrow> st = sa_truth s a"
    and "\<And>a rd. (a, rd) \<in> set (sa_reads s) \<Longrightarrow> rd_epoch rd \<le> sa_epoch s a"
    and "\<And>a rd st. (a, rd) \<in> set (sa_reads s) \<Longrightarrow> sa_saves s a = 0 \<Longrightarrow> rd_epoch rd = sa_epoch s a \<Longrightarrow> rd_progress rd = Got st True \<Longrightarrow> st = sa_truth s a"
  shows "stats_true s"
  using assms by (auto simp: stats_true_def)

lemma mark_simps [simp]:
  "sa_truth (stat_mark d s) = sa_truth s" "sa_saves (stat_mark d s) = sa_saves s" "sa_stat (stat_mark d s) = sa_stat s"
  "sa_epoch (stat_mark d s) = sa_epoch s" "sa_reads (stat_mark d s) = sa_reads s" "sa_batch (stat_mark d s) = sa_batch s"
  "sa_snapped (stat_mark d s) = sa_snapped s" "sa_shot (stat_mark d s) = sa_shot s" "sa_stored (stat_mark d s) = sa_stored s"
  "sa_waiting (stat_mark d s) = sa_waiting s" "sa_answers (stat_mark d s) = sa_answers s" "sa_listed (stat_mark d s) = sa_listed s"
  "sa_removing (stat_mark d s) = sa_removing s"
  "set (sa_dirty (stat_mark d s)) = insert d (set (sa_dirty s))"
  by (auto simp: stat_mark_def)

lemma mark_all_simps [simp]:
  "sa_truth (fold stat_mark ds s) = sa_truth s" "sa_saves (fold stat_mark ds s) = sa_saves s" "sa_stat (fold stat_mark ds s) = sa_stat s"
  "sa_epoch (fold stat_mark ds s) = sa_epoch s" "sa_reads (fold stat_mark ds s) = sa_reads s" "sa_batch (fold stat_mark ds s) = sa_batch s"
  "sa_snapped (fold stat_mark ds s) = sa_snapped s" "sa_shot (fold stat_mark ds s) = sa_shot s" "sa_stored (fold stat_mark ds s) = sa_stored s"
  "sa_listed (fold stat_mark ds s) = sa_listed s" "sa_removing (fold stat_mark ds s) = sa_removing s"
  "set (sa_dirty (fold stat_mark ds s)) = set ds \<union> set (sa_dirty s)"
  by (induction ds arbitrary: s) auto

lemma listed_stat_mark [simp]: "listed_stat (stat_mark d s) = listed_stat s" "listed_stat (fold stat_mark ds s) = listed_stat s"
  by (simp_all add: listed_stat_def fun_eq_iff)

lemma stats_true_mark [simp]: "stats_true (stat_mark d s) = stats_true s"
  by (simp add: stats_true_def)

lemma stats_true_answer: "stats_true s \<Longrightarrow> stats_true (answer_all a res s)"
  by (auto simp: stats_true_def answer_all_def dest!: subsetD [OF delete_subset])

lemma fill_true:
  assumes inv: "stats_true s" and rd: "map_of (sa_reads s) a = Some rd"
  shows "stats_true (stat_fill dir a rd s)"
proof (cases "rd_progress rd")
  case (Got st complete)
  have mem: "(a, rd) \<in> set (sa_reads s)" using rd by (rule map_of_SomeD)
  have "stats_true (s\<lparr>sa_stat := (sa_stat s)(a := Some st)\<rparr>)" if "complete" "sa_epoch s a = rd_epoch rd"
    using inv mem Got that by (auto simp: stats_true_def)
  then have "stats_true (if complete \<and> sa_epoch s a = rd_epoch rd \<and> sa_listed s a
      then stat_mark (dir a) (s\<lparr>sa_stat := (sa_stat s)(a := Some st)\<rparr>) else s)" using inv by simp
  then show ?thesis by (simp add: stat_fill_def Got stats_true_answer)
qed (simp_all add: stat_fill_def inv stats_true_answer)

lemma step_true: "stat_step dir s s' \<Longrightarrow> stats_true s \<Longrightarrow> stats_true s'"
proof (induction rule: stat_step.induct)
  case (step_get s c a)
  then show ?case by (auto simp: stats_true_def stat_get_def Let_def split: option.splits)
next
  case (step_start s a rd)
  then show ?case by (auto simp: stats_true_def stat_start_def split: if_splits)
next
  case (step_fetched s a rd p)
  have "rd_epoch rd \<le> sa_epoch s b \<and> (\<forall>st. sa_saves s b = 0 \<longrightarrow> rd_epoch rd = sa_epoch s b \<longrightarrow> rd_progress rd = Got st True \<longrightarrow> st = sa_truth s b)"
    if "(b, rd) \<in> set (sa_reads s)" for b rd using step_fetched.prems that by (auto simp: stats_true_def)
  then show ?case using step_fetched by (auto simp: stats_true_def stat_fetched_def split: if_splits)
next
  case (step_fill s a rd)
  then show ?case by (intro fill_true)
next
  case (step_saved s a st)
  then show ?case by (fastforce simp: stats_true_def descriptor_saved_def)
next
  case (step_invalidate s a stored)
  have "stats_true (s\<lparr>sa_epoch := (sa_epoch s)(a := sa_epoch s a + 1), sa_saves := (sa_saves s)(a := sa_saves s a - 1), sa_stat := (sa_stat s)(a := None)\<rparr>)"
    by (rule stats_trueI) (use stats_trueD [OF step_invalidate.prems] in \<open>auto split: if_splits dest: stats_trueD(2) [OF step_invalidate.prems]\<close>)
  moreover have "sa_stat s a = None \<Longrightarrow> (sa_stat s)(a := None) = sa_stat s" by auto
  ultimately show ?case by (auto simp: stat_changed_invalidate_def Let_def)
qed (simp_all add: stats_true_def flush_begin_def flush_snap_def flush_done_def flush_failed_def ref_removed_def stat_changed_removed_def)

lemma step_kept: "stat_step dir s s' \<Longrightarrow> stats_kept dir s \<Longrightarrow> stats_kept dir s'"
proof (induction rule: stat_step.induct)
  case (step_get s c a)
  then show ?case by (cases "sa_stat s a") (simp_all add: stats_kept_def stat_get_def listed_stat_def Let_def)
next
  case (step_fill s a rd)
  then show ?case by (cases "rd_progress rd") (auto simp: stats_kept_def stat_fill_def answer_all_def listed_stat_def)
next
  case (step_invalidate s a stored)
  then show ?case by (auto simp: stats_kept_def stat_changed_invalidate_def listed_stat_def Let_def)
next
  case (step_removed s a)
  then show ?case by (auto simp: stats_kept_def ref_removed_def listed_stat_def)
next
  case (step_changed a s)
  then show ?case by (auto simp: stats_kept_def stat_changed_removed_def listed_stat_def)
next
  case (step_flush s)
  then show ?case by (auto simp: stats_kept_def flush_begin_def listed_stat_def)
next
  case (step_snap s batch d)
  then show ?case by (auto simp: stats_kept_def flush_snap_def listed_stat_def)
next
  case (step_done s batch)
  then show ?case by (auto simp: stats_kept_def flush_done_def listed_stat_def subset_iff)
next
  case (step_failed s batch landed)
  then show ?case by (auto simp: stats_kept_def flush_failed_def listed_stat_def subset_iff)
qed (simp_all add: stats_kept_def stat_start_def stat_fetched_def descriptor_saved_def listed_stat_def)

lemma step_removals: "stat_step dir s s' \<Longrightarrow> removals_ok s \<Longrightarrow> removals_ok s'"
proof (induction rule: stat_step.induct)
  case (step_get s c a)
  then show ?case by (auto simp: removals_ok_def stat_get_def Let_def split: option.splits)
next
  case (step_fill s a rd)
  then show ?case by (cases "rd_progress rd") (auto simp: removals_ok_def stat_fill_def answer_all_def)
next
  case (step_invalidate s a stored)
  then show ?case by (auto simp: removals_ok_def stat_changed_invalidate_def Let_def)
qed (auto simp: removals_ok_def stat_start_def stat_fetched_def descriptor_saved_def ref_removed_def stat_changed_removed_def flush_begin_def
    flush_snap_def flush_done_def flush_failed_def)

lemma reach_invariant:
  "stat_reach dir s s' \<Longrightarrow> stats_true s \<Longrightarrow> stats_kept dir s \<Longrightarrow> removals_ok s \<Longrightarrow> stats_true s' \<and> stats_kept dir s' \<and> removals_ok s'"
  by (induction rule: stat_reach.induct) (blast intro: step_true step_kept step_removals)+

text \<open>C24: Whatever listings, descriptor reads, writers, removals and flushes are interleaved, a stat that is kept for a file with no write under way is that of
  the file's descriptor; and once nothing is marked and no write to the metadata is running, the metadata
  holds exactly the stats that are kept of the files that are in their folders: nothing else for those, and nothing at all for a file that was removed,
  once its removal has marked the folder.\<close>

theorem kept_stats_are_true:
  assumes "stat_reach dir (stat_init truth) s"
  shows "(\<forall>a st. sa_saves s a = 0 \<longrightarrow> sa_stat s a = Some st \<longrightarrow> st = sa_truth s a)
    \<and> (sa_dirty s = [] \<longrightarrow> sa_batch s = None \<longrightarrow>
        (\<forall>a. sa_listed s a \<longrightarrow> sa_stored s a = sa_stat s a) \<and> (\<forall>a. \<not> sa_listed s a \<longrightarrow> a \<notin> set (sa_removing s) \<longrightarrow> sa_stored s a = None))"
proof -
  have "stats_true (stat_init truth)" "stats_kept dir (stat_init truth)" "removals_ok (stat_init truth)"
    by (simp_all add: stats_true_def stats_kept_def removals_ok_def stat_init_def listed_stat_def)
  then have "stats_true s" "stats_kept dir s" "removals_ok s" using reach_invariant [OF assms] by blast+
  then show ?thesis by (auto simp: stats_true_def stats_kept_def removals_ok_def listed_stat_def)
qed

definition small_stat :: "int \<Rightarrow> file_stat" where
  "small_stat n = \<lparr>st_size = n, st_created_at = 1, st_modified_at = n\<rparr>"

text \<open>A listing fills the stat of file 0 while another file is written.\<close>

definition one_listing :: stat_api where
  "one_listing = stat_fill (\<lambda>_. 0) 0 \<lparr>rd_epoch = 0, rd_progress = Got (small_stat 7) True\<rparr>
     (stat_fetched 0 (Got (small_stat 7) True) (stat_start 0 (stat_get 1 0 (stat_init (\<lambda>_. small_stat 7)))))"

lemma one_listing_reached: "stat_reach (\<lambda>_. 0) (stat_init (\<lambda>_. small_stat 7)) one_listing"
  unfolding one_listing_def
  by (intro reach_step [OF reach_step [OF reach_step [OF reach_step [OF reach_refl step_get] step_start] step_fetched] step_fill])
    (simp_all add: stat_get_def stat_start_def stat_init_def dict_has_def stat_fetched_def, simp_all)

theorem kept_stats_are_true_witness:
  "stat_reach (\<lambda>_. 0) (stat_init (\<lambda>_. small_stat 7)) one_listing \<and> sa_stat one_listing 0 = Some (small_stat 7)
    \<and> small_stat 7 = sa_truth one_listing 0"
proof -
  have "sa_saves one_listing 0 = 0" "sa_stat one_listing 0 = Some (small_stat 7)"
    by (simp_all add: one_listing_def stat_fill_def answer_all_def stat_fetched_def stat_start_def stat_get_def stat_init_def stat_mark_def Let_def dict_has_def)
  then show ?thesis using kept_stats_are_true [OF one_listing_reached] one_listing_reached by simp
qed

text \<open>A listing that asks after a write to the file has completed can still be shown the file as it was before:
  it joins a descriptor read that started before the write. The stale stat is not kept, but it is
  what this listing gets, although the write dropped the stat and the next listing was to read the descriptor again.\<close>

lemma listing_after_write_is_stale:
  assumes "old = truth a"
  shows "\<exists>s s'. stat_reach dir (stat_init truth) s \<and> sa_truth s a = new \<and> sa_saves s a = 0 \<and> sa_stat s a = None \<and> c \<notin> fst ` set (sa_waiting s)
    \<and> stat_reach dir (stat_get c a s) s' \<and> (c, Inr old) \<in> set (sa_answers s')"
proof -
  let ?b = "Suc c" and ?rd = "\<lparr>rd_epoch = 0, rd_progress = Got old True\<rparr>"
  define s1 where "s1 = stat_start a (stat_get ?b a (stat_init truth))"
  define s2 where "s2 = stat_fetched a (Got old True) s1"
  define s3 where "s3 = descriptor_saved a new s2"
  define s4 where "s4 = stat_changed_invalidate dir False a s3"
  define s5 where "s5 = stat_get c a s4"
  have r1: "stat_reach dir (stat_init truth) s1" unfolding s1_def
    by (rule reach_step [OF reach_step [OF reach_refl step_get] step_start]) (simp_all add: stat_get_def stat_init_def dict_has_def, simp)
  have f1: "sa_reads s1 = [(a, \<lparr>rd_epoch = 0, rd_progress = Reading\<rparr>)]" "sa_truth s1 = truth" "sa_saves s1 = (\<lambda>_. 0)" "sa_stat s1 = (\<lambda>_. None)"
    "sa_waiting s1 = [(?b, a)]" by (simp_all add: s1_def stat_start_def stat_get_def stat_init_def dict_has_def)
  have r2: "stat_reach dir (stat_init truth) s2"
    unfolding s2_def by (rule reach_step [OF r1 step_fetched]) (simp_all add: f1 assms dict_has_def, simp)
  have r3: "stat_reach dir (stat_init truth) s3" unfolding s3_def by (rule reach_step [OF r2 step_saved])
  have f3: "sa_reads s3 = [(a, ?rd)]" "sa_truth s3 a = new" "sa_saves s3 a = 1" "sa_stat s3 = (\<lambda>_. None)" "sa_waiting s3 = [(?b, a)]"
    by (simp_all add: s3_def s2_def descriptor_saved_def stat_fetched_def f1)
  have r4: "stat_reach dir (stat_init truth) s4" unfolding s4_def by (rule reach_step [OF r3 step_invalidate]) (simp add: f3)
  have f4: "sa_reads s4 = [(a, ?rd)]" "sa_truth s4 a = new" "sa_saves s4 a = 0" "sa_stat s4 a = None" "sa_waiting s4 = [(?b, a)]"
    by (simp_all add: s4_def stat_changed_invalidate_def f3 Let_def)
  have f5: "sa_reads s5 = [(a, ?rd)]" "sa_waiting s5 = [(?b, a), (c, a)]"
    by (simp_all add: s5_def stat_get_def f4 dict_has_def)
  have "stat_reach dir s5 (stat_fill dir a ?rd s5)" by (rule reach_step [OF reach_refl step_fill]) (simp_all add: f5)
  moreover have "(c, Inr old) \<in> set (sa_answers (stat_fill dir a ?rd s5))" by (auto simp: stat_fill_def answer_all_def f5)
  ultimately show ?thesis using r4 f4 unfolding s5_def by (intro exI [of _ s4] exI [of _ "stat_fill dir a ?rd (stat_get c a s4)"]) simp
qed

section \<open>When the flusher writes\<close>

text \<open>\<open>_due_in\<close>, with times in milliseconds: a mark postpones the write, but never beyond the longest delay after the first one.\<close>

definition due_in :: "bool \<Rightarrow> bool \<Rightarrow> int option \<Rightarrow> int \<Rightarrow> int \<Rightarrow> int" where
  "due_in closing urgent dirty_since last_mark now =
     (if closing then 0
      else
        let (quiet, max_delay) = (if urgent then (1000, 5000) else (5000, 60000));
            since = (case dirty_since of Some t \<Rightarrow> t | None \<Rightarrow> now)
        in max 0 (min (last_mark + quiet) (since + max_delay) - now))"

lemma due_in_bounded:
  assumes "dirty_since = Some t" and "t \<le> last_mark" and "last_mark \<le> now"
  shows "0 \<le> due_in closing urgent dirty_since last_mark now \<and> due_in closing urgent dirty_since last_mark now \<le> (if urgent then 1000 else 5000)
    \<and> now + due_in closing urgent dirty_since last_mark now \<le> max now (t + (if urgent then 5000 else 60000))"
  using assms by (simp add: due_in_def Let_def min_def max_def)

text \<open>A file is not shown as changed before it was created.\<close>

lemma stat_of_dates:
  assumes "stat_of len uuid now fd = Inr st" and "map_of (fd_versions fd) (fd_latest_version_id fd) \<noteq> None" and "fd_latest_version_id fd \<noteq> []"
  shows "st_created_at st \<le> st_modified_at st \<and> 0 \<le> st_size st"
proof -
  obtain v where v: "map_of (fd_versions fd) (fd_latest_version_id fd) = Some v" using assms(2) by auto
  have "v \<in> set (get_versions fd False False)" using map_of_SomeD [OF v] by (force simp: get_versions_def)
  then show ?thesis using assms(1,3) v by (auto simp: stat_of_def get_latest_version_def Let_def split: list.splits)
qed

end
