(* ===== verification/MetaApi.thy ===== *)
theory MetaApi
  imports Errors
begin

text \<open>
  \<open>MetaDataApi\<close> (\<open>src/tgdcfs/core/api/metadata.py\<close>): writing the metadata, with the pushes of a bulk operation collapsed into one. The tree is represented by a
  number that every change increases; \<open>ma_written\<close> is the number of the tree in the store. The depth of the batches is
  one counter for all tasks, so the pushes of a task that runs beside somebody else's batch are deferred as well.
\<close>

record meta_api =
  ma_depth :: nat
  ma_pending :: bool
  ma_current :: nat
  ma_written :: nat

definition repo_push :: "unit res \<Rightarrow> meta_api \<Rightarrow> unit res \<times> meta_api" where
  "repo_push outcome s = (outcome, if isl outcome then s else s\<lparr>ma_written := ma_current s\<rparr>)"

definition meta_push :: "unit res \<Rightarrow> meta_api \<Rightarrow> unit res \<times> meta_api" where
  "meta_push outcome s = (if 0 < ma_depth s then (Inr (), s\<lparr>ma_pending := True\<rparr>) else repo_push outcome s)"

definition batch_enter :: "meta_api \<Rightarrow> meta_api" where
  "batch_enter s = s\<lparr>ma_depth := ma_depth s + 1\<rparr>"

definition batch_exit :: "unit res \<Rightarrow> meta_api \<Rightarrow> unit res \<times> meta_api" where
  "batch_exit outcome s =
     (let s = s\<lparr>ma_depth := ma_depth s - 1\<rparr> in
      if ma_depth s = 0 \<and> ma_pending s then repo_push outcome (s\<lparr>ma_pending := False\<rparr>) else (Inr (), s))"

section \<open>Histories\<close>

datatype meta_event = Change | Push "unit res" | Enter | Exit "unit res"

fun meta_run :: "meta_event \<Rightarrow> meta_api \<Rightarrow> unit res \<times> meta_api" where
  "meta_run Change s = (Inr (), s\<lparr>ma_current := ma_current s + 1\<rparr>)"
| "meta_run (Push outcome) s = meta_push outcome s"
| "meta_run Enter s = (Inr (), batch_enter s)"
| "meta_run (Exit outcome) s = batch_exit outcome s"

definition meta_runs :: "meta_event list \<Rightarrow> meta_api \<Rightarrow> meta_api" where
  "meta_runs es s = fold (\<lambda>e s. snd (meta_run e s)) es s"

text \<open>Every change is pushed before the history ends: no change comes after the last push.\<close>

fun all_pushed :: "bool \<Rightarrow> meta_event list \<Rightarrow> bool" where
  "all_pushed touched [] = (\<not> touched)"
| "all_pushed touched (Change # es) = all_pushed True es"
| "all_pushed touched (Push _ # es) = all_pushed False es"
| "all_pushed touched (e # es) = all_pushed touched es"

lemma runs_written:
  assumes "\<forall>e \<in> set es. case e of Push x \<Rightarrow> \<not> isl x | Exit x \<Rightarrow> \<not> isl x | _ \<Rightarrow> True" and "all_pushed touched es"
    and "ma_written s = ma_current s \<or> touched \<or> 0 < ma_depth s \<and> ma_pending s"
    and "ma_pending s \<longrightarrow> 0 < ma_depth s"
  shows "ma_depth (meta_runs es s) = 0 \<Longrightarrow> ma_written (meta_runs es s) = ma_current (meta_runs es s)"
  using assms
proof (induction es arbitrary: touched s)
  case Nil
  then show ?case by (simp add: meta_runs_def)
next
  case (Cons e es)
  have runs: "meta_runs (x # es) s = meta_runs es (snd (meta_run x s))" for x by (simp add: meta_runs_def)
  show ?case
  proof (cases e)
    case Change
    show ?thesis using Cons.IH [of "snd (meta_run e s)" True] Cons.prems by (simp add: runs Change)
  next
    case (Push x)
    show ?thesis using Cons.IH [of "snd (meta_run e s)" False] Cons.prems
      by (auto simp: runs Push meta_push_def repo_push_def)
  next
    case Enter
    show ?thesis using Cons.IH [of "snd (meta_run e s)" touched] Cons.prems by (auto simp: runs Enter batch_enter_def)
  next
    case (Exit x)
    show ?thesis using Cons.IH [of "snd (meta_run e s)" touched] Cons.prems
      by (auto simp: runs Exit batch_exit_def repo_push_def Let_def)
  qed
qed

text \<open>When every write succeeds and every change was pushed, nothing is unwritten once all batches are closed.\<close>

lemma pushed_is_written:
  assumes "\<forall>e \<in> set es. case e of Push x \<Rightarrow> \<not> isl x | Exit x \<Rightarrow> \<not> isl x | _ \<Rightarrow> True" and "all_pushed False es"
    and "ma_written s = ma_current s" and "ma_depth s = 0" and "\<not> ma_pending s" and "ma_depth (meta_runs es s) = 0"
  shows "ma_written (meta_runs es s) = ma_current (meta_runs es s)"
  using runs_written [OF assms(1,2)] assms(3-) by simp

text \<open>
  While a batch is open, a push of any other task returns without an error and without having written:
  an operation that deletes messages after its push, as removing a file does, deletes them while the stored metadata still names them.
\<close>

lemma push_beside_batch_unwritten:
  assumes "ma_written s = ma_current s"
  shows "\<exists>t. meta_push outcome (meta_runs [Enter, Change] s) = (Inr (), t) \<and> ma_written t < ma_current t"
  using assms by (simp add: meta_runs_def batch_enter_def meta_push_def)

end
