(* ===== verification/Paths.thy ===== *)
theory Paths
  imports Errors
begin

text \<open>
  Paths: \<open>str.split\<close>, \<open>str.join\<close>, \<open>str.strip\<close> and \<open>posixpath\<close> of the standard library as far as the program uses them, the split into
  client and sub path (\<open>src/tgdcfs/app/utils.py\<close>) and the paths of SFTP clients (\<open>src/tgdcfs/app/sftp/paths.py\<close>). Every
  operation only looks at the slash, the backslash and the dot, so a path is taken as the
  decoded text and \<open>decode\<close> has no counterpart.
\<close>

section \<open>Strings\<close>

abbreviation "slash \<equiv> CHR ''/''"

fun split_on :: "char \<Rightarrow> string \<Rightarrow> string list" where
  "split_on c [] = [[]]"
| "split_on c (x # xs) = (if x = c then [] # split_on c xs else (x # hd (split_on c xs)) # tl (split_on c xs))"

text \<open>\<open>str.split(sep, maxsplit)\<close>\<close>

fun split_max :: "nat \<Rightarrow> char \<Rightarrow> string \<Rightarrow> string list" where
  "split_max 0 c s = [s]"
| "split_max (Suc n) c [] = [[]]"
| "split_max (Suc n) c (x # xs) =
     (if x = c then [] # split_max n c xs else (x # hd (split_max (Suc n) c xs)) # tl (split_max (Suc n) c xs))"

fun join_with :: "string \<Rightarrow> string list \<Rightarrow> string" where
  "join_with sep [] = []"
| "join_with sep [x] = x"
| "join_with sep (x # y # xs) = x @ sep @ join_with sep (y # xs)"

definition rstrip :: "char \<Rightarrow> string \<Rightarrow> string" where
  "rstrip c s = rev (dropWhile ((=) c) (rev s))"

definition strip :: "char \<Rightarrow> string \<Rightarrow> string" where
  "strip c s = rstrip c (dropWhile ((=) c) s)"

definition startswith :: "string \<Rightarrow> string \<Rightarrow> bool" where
  "startswith s pre \<longleftrightarrow> take (length pre) s = pre"

section \<open>posixpath\<close>

definition path_join :: "string \<Rightarrow> string \<Rightarrow> string" where
  "path_join a b = (if startswith b ''/'' then b else if a = [] \<or> last a = slash then a @ b else a @ ''/'' @ b)"

definition norm_comp :: "bool \<Rightarrow> string list \<Rightarrow> string \<Rightarrow> string list" where
  "norm_comp rooted comps part =
     (if part = [] \<or> part = ''.'' then comps
      else if part \<noteq> ''..'' \<or> \<not> rooted \<and> comps = [] \<or> comps \<noteq> [] \<and> last comps = ''..'' then comps @ [part]
      else if comps \<noteq> [] then butlast comps
      else comps)"

definition initial_slashes :: "string \<Rightarrow> nat" where
  "initial_slashes path =
     (if \<not> startswith path ''/'' then 0 else if startswith path ''//'' \<and> \<not> startswith path ''///'' then 2 else 1)"

definition normpath :: "string \<Rightarrow> string" where
  "normpath path =
     (if path = [] then ''.''
      else
        let n = initial_slashes path;
            p = replicate n slash @ join_with ''/'' (foldl (norm_comp (0 < n)) [] (split_on slash path))
        in if p = [] then ''.'' else p)"

text \<open>What follows the last slash, and what precedes it without the slashes at its end, unless it is nothing but slashes.\<close>

definition basename :: "string \<Rightarrow> string" where
  "basename p = rev (takeWhile ((\<noteq>) slash) (rev p))"

definition dirname :: "string \<Rightarrow> string" where
  "dirname p =
     (let head = rev (dropWhile ((\<noteq>) slash) (rev p)) in
      if head \<noteq> [] \<and> head \<noteq> replicate (length head) slash then rstrip slash head else head)"

section \<open>Global paths\<close>

definition strip_webdav_prefix :: "string \<Rightarrow> string \<Rightarrow> string" where
  "strip_webdav_prefix destination client_name =
     (let prefix = ''/webdav/'' @ client_name in
      if destination = prefix then []
      else if startswith destination (prefix @ ''/'') then drop (length prefix) destination
      else destination)"

definition split_global_path :: "string \<Rightarrow> (string \<times> string) res" where
  "split_global_path path =
     (case path of
        [] \<Rightarrow> Inl IndexError
      | c # _ \<Rightarrow>
          let path = (if c = slash then path else slash # path);
              parts = split_max 2 slash path
          in if length parts < 1 then Inl TechnicalError
             else if length parts = 2 then Inr (parts ! 1, [])
             else Inr (parts ! 1, parts ! 2))"

section \<open>Paths of SFTP clients\<close>

record resolved_path =
  rp_client_name :: string
  rp_relative :: string

definition is_root :: "resolved_path \<Rightarrow> bool" where
  "is_root r \<longleftrightarrow> rp_client_name r = []"

definition is_client_root :: "resolved_path \<Rightarrow> bool" where
  "is_client_root r \<longleftrightarrow> rp_client_name r \<noteq> [] \<and> rp_relative r = ''/''"

definition rp_child :: "string \<Rightarrow> resolved_path \<Rightarrow> resolved_path" where
  "rp_child name r =
     (if is_root r then \<lparr>rp_client_name = name, rp_relative = ''/''\<rparr>
      else
        let prefix = (if rp_relative r = ''/'' then [] else rp_relative r)
        in \<lparr>rp_client_name = rp_client_name r, rp_relative = prefix @ ''/'' @ name\<rparr>)"

definition rp_basename :: "resolved_path \<Rightarrow> string" where
  "rp_basename r =
     (if is_root r then ''/'' else if rp_relative r = ''/'' then rp_client_name r else basename (rp_relative r))"

definition as_global :: "resolved_path \<Rightarrow> string" where
  "as_global r =
     (if is_root r then ''/''
      else if rp_relative r = ''/'' then slash # rp_client_name r
      else slash # rp_client_name r @ rp_relative r)"

definition normalize :: "string \<Rightarrow> string" where
  "normalize path =
     (let decoded = map (\<lambda>c. if c = CHR 0x5C then slash else c) path;
          normalized = normpath (path_join ''/'' decoded)
      in if normalized = ''//'' then ''/'' else normalized)"

definition resolve :: "string \<Rightarrow> resolved_path res" where
  "resolve path =
     (let normalized = normalize path in
      if normalized = ''/'' then Inr \<lparr>rp_client_name = [], rp_relative = ''/''\<rparr>
      else rbind (split_global_path normalized) (\<lambda>(client_name, sub_path).
        let sub_path = strip slash sub_path
        in Inr \<lparr>rp_client_name = client_name, rp_relative = (if sub_path = [] then ''/'' else slash # sub_path)\<rparr>))"

section \<open>Splitting and joining\<close>

lemma split_on_nonempty [simp]: "split_on c s \<noteq> []"
  by (induction s) auto

lemma split_on_free: "x \<in> set (split_on c s) \<Longrightarrow> c \<notin> set x"
proof (induction s arbitrary: x)
  case (Cons y ys)
  have "hd (split_on c ys) \<in> set (split_on c ys)" by simp
  then show ?case using Cons by (auto split: if_splits dest: list.set_sel(2) [rotated])
qed simp

lemma split_on_prefix: "c \<notin> set x \<Longrightarrow> split_on c (x @ c # s) = x # split_on c s"
  by (induction x) auto

lemma split_on_free_whole: "c \<notin> set x \<Longrightarrow> split_on c x = [x]"
  by (induction x) auto

lemma split_join: "xs \<noteq> [] \<Longrightarrow> \<forall>x \<in> set xs. c \<notin> set x \<Longrightarrow> split_on c (join_with [c] xs) = xs"
  by (induction "[c]" xs rule: join_with.induct) (auto simp: split_on_prefix split_on_free_whole)

lemma join_split: "join_with [c] (split_on c s) = s"
proof (induction s)
  case (Cons x xs)
  obtain y ys where "split_on c xs = y # ys" by (metis list.exhaust split_on_nonempty)
  with Cons show ?case by (cases ys) auto
qed simp

lemma split_max_prefix: "c \<notin> set x \<Longrightarrow> split_max (Suc n) c (x @ c # s) = x # split_max n c s"
  by (induction x) auto

lemma split_max_free: "c \<notin> set x \<Longrightarrow> split_max n c x = [x]"
proof (cases n)
  case (Suc m)
  then show "c \<notin> set x \<Longrightarrow> ?thesis" by (simp, induction x) auto
qed simp

lemma join_with_Cons: "join_with sep (x # xs) = (if xs = [] then x else x @ sep @ join_with sep xs)"
  by (cases xs) auto

lemma join_with_snoc: "join_with sep (xs @ [x]) = (if xs = [] then x else join_with sep xs @ sep @ x)"
  by (induction xs) (auto simp: join_with_Cons)

section \<open>Components\<close>

text \<open>A component of a path that names something: not empty, no dots that mean a directory, no slash.\<close>

definition plain :: "string \<Rightarrow> bool" where
  "plain c \<longleftrightarrow> c \<noteq> [] \<and> c \<noteq> ''.'' \<and> c \<noteq> ''..'' \<and> slash \<notin> set c"

lemma norm_comp_plain:
  "list_all plain comps \<Longrightarrow> slash \<notin> set part \<Longrightarrow> list_all plain (norm_comp True comps part)"
  by (auto simp: norm_comp_def plain_def list_all_iff dest: in_set_butlastD)

lemma norm_comps_plain:
  "list_all plain acc \<Longrightarrow> \<forall>c \<in> set comps. slash \<notin> set c \<Longrightarrow> list_all plain (foldl (norm_comp True) acc comps)"
  by (induction comps arbitrary: acc) (simp_all add: norm_comp_plain)

lemma norm_comps_id: "list_all plain comps \<Longrightarrow> list_all plain acc \<Longrightarrow> foldl (norm_comp True) acc comps = acc @ comps"
proof (induction comps arbitrary: acc)
  case (Cons c comps)
  have "norm_comp True acc c = acc @ [c]" using Cons.prems by (auto simp: norm_comp_def plain_def)
  then show ?case using Cons by simp
qed simp

lemma join_plain:
  assumes "list_all plain comps" and "comps \<noteq> []"
  shows "join_with ''/'' comps \<noteq> []" and "hd (join_with ''/'' comps) \<noteq> slash" and "last (join_with ''/'' comps) \<noteq> slash"
proof -
  obtain c cs where cs: "comps = c # cs" using assms(2) by (cases comps) auto
  have ends: "hd x \<noteq> slash \<and> last x \<noteq> slash" if "plain x" for x
    using that hd_in_set [of x] last_in_set [of x] unfolding plain_def by metis
  have c: "c \<noteq> []" "hd c \<noteq> slash" using assms(1) ends [of c] by (simp_all add: cs plain_def)
  then show "join_with ''/'' comps \<noteq> []" "hd (join_with ''/'' comps) \<noteq> slash" by (auto simp: cs join_with_Cons)
  obtain ds d where ds: "comps = ds @ [d]" using assms(2) by (cases comps rule: rev_cases) auto
  have "d \<noteq> []" "last d \<noteq> slash" using assms(1) ends [of d] by (simp_all add: ds plain_def)
  then show "last (join_with ''/'' comps) \<noteq> slash" by (auto simp: ds join_with_snoc)
qed

lemma strip_plain: "list_all plain comps \<Longrightarrow> strip slash (join_with ''/'' comps) = join_with ''/'' comps"
proof (cases "comps = []")
  case False
  assume "list_all plain comps"
  note j = join_plain [OF this False]
  have "dropWhile ((=) slash) (join_with ''/'' comps) = join_with ''/'' comps" using j(1,2) by (cases "join_with ''/'' comps") auto
  moreover have "dropWhile ((=) slash) (rev (join_with ''/'' comps)) = rev (join_with ''/'' comps)"
    using j(1,3) by (cases "join_with ''/'' comps" rule: rev_cases) auto
  ultimately show ?thesis by (simp add: strip_def rstrip_def)
qed (simp add: strip_def rstrip_def)

section \<open>Where a client's path leads\<close>

definition backslash_free :: "string \<Rightarrow> bool" where
  "backslash_free s \<longleftrightarrow> CHR 0x5C \<notin> set s"

abbreviation "unslashed path \<equiv> map (\<lambda>c. if c = CHR 0x5C then slash else c) path"

text \<open>A path that begins with exactly two slashes, whichever way they lean.\<close>

definition two_slashes :: "string \<Rightarrow> bool" where
  "two_slashes path \<longleftrightarrow> startswith (unslashed path) ''//'' \<and> \<not> startswith (unslashed path) ''///''"

lemma split_on_subset: "x \<in> set (split_on c s) \<Longrightarrow> set x \<subseteq> set s"
proof (induction s arbitrary: x)
  case (Cons y ys)
  obtain z zs where z: "split_on c ys = z # zs" by (metis list.exhaust split_on_nonempty)
  have "set z \<subseteq> set ys" "\<And>u. u \<in> set zs \<Longrightarrow> set u \<subseteq> set ys" using Cons.IH by (simp_all add: z)
  then show ?case using Cons.prems by (auto simp: z split: if_splits)
qed simp

lemma norm_comps_subset: "set (foldl (norm_comp b) acc parts) \<subseteq> set acc \<union> set parts"
proof (induction parts arbitrary: acc)
  case (Cons c parts)
  have "set (norm_comp b acc c) \<subseteq> insert c (set acc)" by (auto simp: norm_comp_def dest: in_set_butlastD)
  then show ?case using Cons [of "norm_comp b acc c"] by auto
qed simp

lemma normalize_form:
  "\<exists>comps. list_all plain comps \<and> list_all backslash_free comps
    \<and> normalize path = (if comps = [] then ''/'' else replicate (if two_slashes path then 2 else 1) slash @ join_with ''/'' comps)"
proof -
  define q where "q = path_join ''/'' (unslashed path)"
  define comps where "comps = foldl (norm_comp True) [] (split_on slash q)"
  have q: "q = (if startswith (unslashed path) ''/'' then unslashed path else slash # unslashed path)"
    by (simp add: q_def path_join_def)
  have free: "CHR 0x5C \<notin> set q" by (auto simp: q)
  have first: "startswith q ''/''" by (simp add: q startswith_def)
  have two: "two_slashes path \<Longrightarrow> startswith (unslashed path) ''/''"
    by (cases "unslashed path") (simp_all add: two_slashes_def startswith_def)
  have n: "initial_slashes q = (if two_slashes path then 2 else 1)"
  proof (cases "startswith (unslashed path) ''/''")
    case True
    then show ?thesis using first by (simp add: q initial_slashes_def two_slashes_def)
  next
    case False
    then have "\<not> startswith q ''//''" by (cases "unslashed path") (auto simp: q startswith_def)
    then show ?thesis using first two False by (auto simp: initial_slashes_def)
  qed
  have "list_all plain comps" unfolding comps_def by (rule norm_comps_plain) (auto dest: split_on_free)
  moreover have "list_all backslash_free comps"
    using norm_comps_subset [of True "[]" "split_on slash q"] split_on_subset [of _ slash q] free
    by (fastforce simp: list_all_iff backslash_free_def comps_def)
  moreover have "normpath q = replicate (initial_slashes q) slash @ join_with ''/'' comps"
    using first n by (auto simp: normpath_def Let_def comps_def startswith_def)
  moreover have "join_with ''/'' comps \<noteq> []" "hd (join_with ''/'' comps) \<noteq> slash" if "comps \<noteq> []"
    using join_plain [OF calculation(1) that] by blast+
  ultimately show ?thesis unfolding normalize_def Let_def q_def [symmetric]
    by (intro exI [of _ comps], cases "comps = []"; cases "join_with ''/'' comps") (auto simp: n numeral_2_eq_2)
qed

lemma split_global_plain:
  assumes "plain c" and "list_all plain comps"
  shows "split_global_path (slash # join_with ''/'' (c # comps)) = Inr (c, join_with ''/'' comps)"
proof -
  have c: "slash \<notin> set c" using assms(1) by (simp add: plain_def)
  show ?thesis
    using split_max_prefix [OF c, of 0] split_max_free [OF c]
    by (simp add: split_global_path_def join_with_Cons numeral_2_eq_2)
qed

text \<open>What the rest of the server relies on: a client, and a path of names below its root.\<close>

definition rp_ok :: "resolved_path \<Rightarrow> bool" where
  "rp_ok r \<longleftrightarrow> (\<exists>comps. list_all plain comps \<and> list_all backslash_free comps \<and> rp_relative r = slash # join_with ''/'' comps
     \<and> (if rp_client_name r = [] then comps = [] else plain (rp_client_name r) \<and> backslash_free (rp_client_name r)))"

lemma resolve_single:
  assumes "normalize path = slash # join_with ''/'' (c # comps)" and "list_all plain (c # comps)"
  shows "resolve path = Inr \<lparr>rp_client_name = c, rp_relative = slash # join_with ''/'' comps\<rparr>"
proof -
  have "join_with ''/'' (c # comps) \<noteq> []" using join_plain(1) [OF assms(2)] by simp
  then show ?thesis using assms strip_plain [of comps] join_plain(1) [of comps] split_global_plain [of c comps]
    by (cases "comps = []") (auto simp: resolve_def)
qed

lemma resolve_double:
  assumes "normalize path = slash # slash # join_with ''/'' comps" and "list_all plain comps" and "comps \<noteq> []"
  shows "resolve path = Inr \<lparr>rp_client_name = [], rp_relative = slash # join_with ''/'' comps\<rparr>"
  using assms strip_plain [OF assms(2)] join_plain(1) [OF assms(2,3)]
  by (simp add: resolve_def split_global_path_def numeral_2_eq_2)

lemma resolve_ok: "\<not> two_slashes path \<Longrightarrow> \<exists>r. resolve path = Inr r \<and> rp_ok r"
proof -
  assume "\<not> two_slashes path"
  then obtain comps where comps: "list_all plain comps" "list_all backslash_free comps"
      "normalize path = (if comps = [] then ''/'' else slash # join_with ''/'' comps)" using normalize_form [of path] by auto
  show ?thesis
  proof (cases comps)
    case Nil
    then show ?thesis using comps by (auto simp: resolve_def rp_ok_def intro: exI [of _ "[]"])
  next
    case (Cons c cs)
    then show ?thesis using comps resolve_single [of path c cs] by (auto simp: rp_ok_def plain_def)
  qed
qed

text \<open>Written out the way the client sees it, a resolved path resolves to itself.\<close>

lemma normalize_plain:
  assumes "list_all plain comps" and "list_all backslash_free comps" and "comps \<noteq> []"
  shows "normalize (slash # join_with ''/'' comps) = slash # join_with ''/'' comps"
proof -
  let ?p = "slash # join_with ''/'' comps"
  have "CHR 0x5C \<notin> set (join_with ''/'' xs)" if "list_all backslash_free xs" for xs
    using that by (induction xs) (auto simp: join_with_Cons backslash_free_def)
  from this [OF assms(2)] have "unslashed ?p = ?p" by (auto intro: map_idI)
  moreover have "path_join ''/'' ?p = ?p" by (simp add: path_join_def startswith_def)
  moreover have "initial_slashes ?p = 1"
    using join_plain(1,2) [OF assms(1,3)] by (cases "join_with ''/'' comps") (auto simp: initial_slashes_def startswith_def)
  moreover have "split_on slash ?p = [] # comps" using split_join [OF assms(3), of slash] assms(1) by (auto simp: list_all_iff plain_def)
  moreover have "foldl (norm_comp True) [] comps = comps" using norm_comps_id [OF assms(1)] by simp
  moreover have "norm_comp True [] [] = []" by (simp add: norm_comp_def)
  ultimately show ?thesis using join_plain(1,2) [OF assms(1,3)]
    by (cases "join_with ''/'' comps") (auto simp: normalize_def normpath_def Let_def)
qed

lemma resolve_rendered: "rp_ok r \<Longrightarrow> resolve (as_global r) = Inr r"
proof -
  assume "rp_ok r"
  then obtain comps where comps: "list_all plain comps" "list_all backslash_free comps" "rp_relative r = slash # join_with ''/'' comps"
      "if rp_client_name r = [] then comps = [] else plain (rp_client_name r) \<and> backslash_free (rp_client_name r)"
    by (auto simp: rp_ok_def)
  show ?thesis
  proof (cases "rp_client_name r = []")
    case True
    have "resolve ''/'' = Inr \<lparr>rp_client_name = [], rp_relative = ''/''\<rparr>" by code_simp
    then show ?thesis using comps True by (cases r) (simp add: as_global_def is_root_def)
  next
    case False
    let ?c = "rp_client_name r"
    have c: "list_all plain (?c # comps)" "list_all backslash_free (?c # comps)" using comps False by simp_all
    have "as_global r = slash # join_with ''/'' (?c # comps)"
      using comps False join_plain(1) [of comps] by (auto simp: as_global_def is_root_def join_with_Cons)
    with resolve_single [OF normalize_plain [OF c] c(1)] comps show ?thesis by (cases r) simp
  qed
qed

lemma rp_child_ok: "rp_ok r \<Longrightarrow> plain name \<Longrightarrow> backslash_free name \<Longrightarrow> rp_ok (rp_child name r)"
proof -
  assume r: "rp_ok r" "plain name" "backslash_free name"
  then obtain comps where comps: "list_all plain comps" "list_all backslash_free comps" "rp_relative r = slash # join_with ''/'' comps"
      "if rp_client_name r = [] then comps = [] else plain (rp_client_name r) \<and> backslash_free (rp_client_name r)"
    by (auto simp: rp_ok_def)
  show ?thesis
  proof (cases "rp_client_name r = []")
    case True
    then show ?thesis using r by (auto simp: rp_ok_def rp_child_def is_root_def plain_def intro: exI [of _ "[]"])
  next
    case False
    have "rp_relative (rp_child name r) = slash # join_with ''/'' (comps @ [name])"
      using comps False join_plain(1) [of comps] by (auto simp: rp_child_def is_root_def Let_def join_with_snoc)
    then show ?thesis using comps False r by (auto simp: rp_ok_def rp_child_def is_root_def Let_def intro!: exI [of _ "comps @ [name]"])
  qed
qed

text \<open>C23: Whatever path an SFTP client sends, unless it begins with exactly two slashes, it resolves to the
  virtual root or to a client and a path of plain names below the root of that client; written out as the client sees it, this
  path and the path of any entry below it resolve to themselves.\<close>

theorem client_paths_confined:
  assumes "\<not> two_slashes path"
  shows "\<exists>r. resolve path = Inr r \<and> rp_ok r \<and> resolve (as_global r) = Inr r
    \<and> (\<forall>name. plain name \<longrightarrow> backslash_free name \<longrightarrow> resolve (as_global (rp_child name r)) = Inr (rp_child name r))"
  using resolve_ok [OF assms] by (auto intro: resolve_rendered rp_child_ok)

theorem client_paths_confined_witness:
  "\<exists>r. resolve ''a/../../notes//./x'' = Inr r \<and> r = \<lparr>rp_client_name = ''notes'', rp_relative = ''/x''\<rparr>
    \<and> resolve (as_global (rp_child ''y'' r)) = Inr (rp_child ''y'' r)"
proof -
  have "\<not> two_slashes ''a/../../notes//./x''" by code_simp
  from client_paths_confined [OF this] obtain r where r: "resolve ''a/../../notes//./x'' = Inr r"
    "plain ''y'' \<longrightarrow> backslash_free ''y'' \<longrightarrow> resolve (as_global (rp_child ''y'' r)) = Inr (rp_child ''y'' r)" by blast
  moreover have "resolve ''a/../../notes//./x'' = Inr \<lparr>rp_client_name = ''notes'', rp_relative = ''/x''\<rparr>" by code_simp
  moreover have "plain ''y''" "backslash_free ''y''" by (simp_all add: plain_def backslash_free_def)
  ultimately show ?thesis by auto
qed

text \<open>
  With two slashes in front everything is the virtual root, whatever follows: \<open>normpath\<close> keeps the two, only the path that consists of nothing
  else is corrected, and the name of the client comes out empty.
\<close>

lemma two_slashes_lose_client:
  assumes "two_slashes path"
  shows "\<exists>r. resolve path = Inr r \<and> is_root r \<and> as_global r = ''/''"
proof -
  obtain comps where comps: "list_all plain comps"
      "normalize path = (if comps = [] then ''/'' else slash # slash # join_with ''/'' comps)"
    using normalize_form [of path] assms by (auto simp: numeral_2_eq_2)
  show ?thesis
  proof (cases "comps = []")
    case True
    then show ?thesis using comps by (simp add: resolve_def is_root_def as_global_def)
  next
    case False
    then show ?thesis using comps resolve_double [of path comps] by (simp add: is_root_def as_global_def)
  qed
qed

text \<open>The destination of a WebDAV request and the path below the client it names.\<close>

lemma strip_webdav_child: "strip_webdav_prefix (''/webdav/'' @ client @ slash # rest) client = slash # rest"
  by (simp add: strip_webdav_prefix_def startswith_def Let_def)

end
