(* ===== verification/Ops.thy ===== *)
theory Ops
  imports FileOps Paths
begin

text \<open>
  \<open>Ops\<close> (\<open>src/tgdcfs/core/ops.py\<close>) and the rest of \<open>DirectoryApi\<close> (\<open>src/tgdcfs/core/api/directory.py\<close>): the operations that the front ends call with paths.
  A path that climbs above the root makes \<open>cd\<close> return \<open>None\<close>, and the attribute the caller then asks for raises \<open>AttributeError\<close>;
  the model of the callers raises it where they use the result of \<open>cd\<close>. An operation may write the metadata
  several times: \<open>push k\<close> is the outcome of its write number \<open>k\<close>. The trackers of uploads and what only forwards
  to the content repository are left out.
\<close>

section \<open>Paths in the tree\<close>

definition validate_path :: "string \<Rightarrow> unit res" where
  "validate_path path =
     (if path = [] then Inl IndexError
      else if last path = slash \<or> hd path \<noteq> slash then Inl (InvalidPath path)
      else Inr ())"

fun cd_loop :: "fstree \<Rightarrow> nat option \<Rightarrow> string list \<Rightarrow> nat option res" where
  "cd_loop t current [] = Inr current"
| "cd_loop t current (part # parts) =
     (if part = ''..'' then (case current of None \<Rightarrow> Inl AttributeError | Some d \<Rightarrow> cd_loop t (d_parent (t_dir t d)) parts)
      else if part = ''.'' \<or> part = [] then cd_loop t current parts
      else (case current of
          None \<Rightarrow> Inl AttributeError
        | Some d \<Rightarrow> rbind (find_dir t d part) (\<lambda>c. cd_loop t (Some c) parts)))"

definition ops_cd :: "fstree \<Rightarrow> nat \<Rightarrow> string \<Rightarrow> nat option res" where
  "ops_cd t root path = cd_loop t (Some root) (split_on slash path)"

definition cd_used :: "fstree \<Rightarrow> nat \<Rightarrow> string \<Rightarrow> nat res" where
  "cd_used t root path = rbind (ops_cd t root path) (\<lambda>d. case d of None \<Rightarrow> Inl AttributeError | Some d \<Rightarrow> Inr d)"

text \<open>What nearly every operation begins with: the directory and the name that a path stands for.\<close>

definition locate :: "fstree \<Rightarrow> nat \<Rightarrow> string \<Rightarrow> (nat \<times> string) res" where
  "locate t root path =
     rbind (validate_path path) (\<lambda>_. rbind (cd_used t root (dirname path)) (\<lambda>d. Inr (d, basename path)))"

definition stat_file :: "fstree \<Rightarrow> nat \<Rightarrow> string \<Rightarrow> nat res" where
  "stat_file t root path = rbind (locate t root path) (\<lambda>(d, name). find_file t d name)"

section \<open>Directories\<close>

definition dir_api_create :: "datetime \<Rightarrow> unit res \<Rightarrow> string \<Rightarrow> nat \<Rightarrow> fstree \<Rightarrow> nat res \<times> fstree" where
  "dir_api_create now push name parent t =
     (case create_dir now name parent t of
        Inl ex \<Rightarrow> (Inl ex, t)
      | Inr (c, t) \<Rightarrow> (rbind push (\<lambda>_. Inr c), t))"

definition dir_api_ls :: "fstree \<Rightarrow> nat \<Rightarrow> nat list \<times> nat list" where
  "dir_api_ls t d = (find_dirs t d [], find_files t d [])"

definition dir_api_move :: "datetime \<Rightarrow> unit res \<Rightarrow> nat \<Rightarrow> nat \<Rightarrow> string option \<Rightarrow> fstree \<Rightarrow> (nat res \<times> fstree) option" where
  "dir_api_move now push d to name t = map_option (\<lambda>x. case x of
     Inl ex \<Rightarrow> (Inl ex, t) | Inr t \<Rightarrow> (rbind push (\<lambda>_. Inr d), t)) (move_to now d to name t)"

fun mkdir_parents :: "datetime \<Rightarrow> (nat \<Rightarrow> unit res) \<Rightarrow> string list \<Rightarrow> nat \<Rightarrow> nat \<Rightarrow> fstree \<Rightarrow> nat res \<times> nat \<times> fstree" where
  "mkdir_parents now push [] d k t = (Inr d, k, t)"
| "mkdir_parents now push (part # parts) d k t =
     (case find_dir t d part of
        Inr c \<Rightarrow> mkdir_parents now push parts c k t
      | Inl _ \<Rightarrow>
          (case dir_api_create now (push k) part d t of
             (Inl ex, t) \<Rightarrow> (Inl ex, k, t)
           | (Inr c, t) \<Rightarrow> mkdir_parents now push parts c (Suc k) t))"

definition ops_mkdir :: "datetime \<Rightarrow> (nat \<Rightarrow> unit res) \<Rightarrow> nat \<Rightarrow> string \<Rightarrow> bool \<Rightarrow> fstree \<Rightarrow> nat res \<times> fstree" where
  "ops_mkdir now push root path parents t =
     (case locate t root path of
        Inl ex \<Rightarrow> (Inl ex, t)
      | Inr (d, name) \<Rightarrow>
          (case (if parents then mkdir_parents now push (filter (\<lambda>x. x \<noteq> []) (split_on slash (dirname path))) d 0 t else (Inr d, 0, t)) of
             (Inl ex, _, t) \<Rightarrow> (Inl ex, t)
           | (Inr d, k, t) \<Rightarrow> dir_api_create now (push k) name d t))"

definition ops_mv_dir :: "datetime \<Rightarrow> unit res \<Rightarrow> nat \<Rightarrow> string \<Rightarrow> string \<Rightarrow> fstree \<Rightarrow> (nat res \<times> fstree) option" where
  "ops_mv_dir now push root path_from path_to t =
     (case rbind (locate t root path_from) (\<lambda>(d, name). find_dir t d name) of
        Inl ex \<Rightarrow> Some (Inl ex, t)
      | Inr d \<Rightarrow>
          (case cd_used t root (dirname path_to) of
             Inl ex \<Rightarrow> Some (Inl ex, t)
           | Inr d2 \<Rightarrow> dir_api_move now push d d2 (Some (if basename path_to = [] then basename path_from else basename path_to)) t))"

definition ops_rm_dir ::
    "ask \<Rightarrow> fd_repo \<Rightarrow> datetime \<Rightarrow> (string \<Rightarrow> int list \<Rightarrow> unit res) \<Rightarrow> unit res \<Rightarrow> nat \<Rightarrow> string \<Rightarrow> bool \<Rightarrow> fstree \<Rightarrow> removal option" where
  "ops_rm_dir ask r now del push root path recursive t =
     (case rbind (locate t root path) (\<lambda>(d, name). find_dir t d name) of
        Inl ex \<Rightarrow> Some \<lparr>rm_res = Inl ex, rm_tree = t, rm_requests = [], rm_forgotten = []\<rparr>
      | Inr d \<Rightarrow> if recursive then rm_dangerously ask r now del push root d t else rm_empty ask r now del push root d t)"

section \<open>Files\<close>

definition ops_mv_file :: "datetime \<Rightarrow> unit res \<Rightarrow> nat \<Rightarrow> string \<Rightarrow> string \<Rightarrow> fstree \<Rightarrow> nat res \<times> fstree" where
  "ops_mv_file now push root path_from path_to t =
     (case stat_file t root path_from of
        Inl ex \<Rightarrow> (Inl ex, t)
      | Inr a \<Rightarrow>
          (case cd_used t root (dirname path_to) of
             Inl ex \<Rightarrow> (Inl ex, t)
           | Inr d2 \<Rightarrow> file_move now push a d2 (Some (if basename path_to = [] then basename path_from else basename path_to)) t))"

definition ops_rm_file ::
    "ask \<Rightarrow> fd_repo \<Rightarrow> datetime \<Rightarrow> (string \<Rightarrow> int list \<Rightarrow> unit res) \<Rightarrow> unit res \<Rightarrow> nat \<Rightarrow> string \<Rightarrow> fstree \<Rightarrow> removal option" where
  "ops_rm_file ask r now del push root path t =
     (case stat_file t root path of
        Inl ex \<Rightarrow> Some \<lparr>rm_res = Inl ex, rm_tree = t, rm_requests = [], rm_forgotten = []\<rparr>
      | Inr a \<Rightarrow> rm_file ask r now del push root a t)"

definition ops_cp_file ::
    "'w file_env \<Rightarrow> datetime \<Rightarrow> (nat \<Rightarrow> string) \<Rightarrow> unit res \<Rightarrow> nat \<Rightarrow> string \<Rightarrow> string \<Rightarrow> fstree \<Rightarrow> 'w \<Rightarrow> 'w copy_outcome" where
  "ops_cp_file env now uuid push root path_from path_to t w =
     (case rbind (stat_file t root path_from) (\<lambda>a. rbind (cd_used t root (dirname path_to)) (\<lambda>d2. Inr (a, d2))) of
        Inl ex \<Rightarrow> \<lparr>co_res = Inl ex, co_tree = t, co_requests = [], co_world = w\<rparr>
      | Inr (a, d2) \<Rightarrow> file_copy env now uuid push d2 a (Some (if basename path_to = [] then basename path_from else basename path_to)) t w)"

text \<open>An upload to a path; \<open>nv\<close> and \<open>nv2\<close> are what making the version answers.\<close>

definition ops_upload ::
    "'w file_env \<Rightarrow> datetime \<Rightarrow> string \<Rightarrow> file_version option res \<Rightarrow> file_version option res \<Rightarrow> unit res \<Rightarrow> nat \<Rightarrow> string \<Rightarrow> fstree \<Rightarrow> 'w
      \<Rightarrow> file_desc res \<times> fstree \<times> 'w" where
  "ops_upload env now uuid nv nv2 push root remote t w =
     (case locate t root remote of
        Inl ex \<Rightarrow> (Inl ex, t, w)
      | Inr (d, name) \<Rightarrow> file_upload env now uuid None nv nv2 push d name t w)"

text \<open>\<open>touch\<close> uploads an empty message, for which no version is made.\<close>

definition ops_touch ::
    "'w file_env \<Rightarrow> datetime \<Rightarrow> string \<Rightarrow> unit res \<Rightarrow> nat \<Rightarrow> string \<Rightarrow> fstree \<Rightarrow> 'w \<Rightarrow> unit res \<times> fstree \<times> 'w" where
  "ops_touch env now uuid push root path t w =
     (case locate t root path of
        Inl ex \<Rightarrow> (Inl ex, t, w)
      | Inr (d, name) \<Rightarrow>
          (case find_file t d name of
             Inr _ \<Rightarrow> (Inr (), t, w)
           | Inl _ \<Rightarrow>
               (case file_upload env now uuid None (Inr None) (Inr None) push d name t w of
                  (res, t, w) \<Rightarrow> (rbind res (\<lambda>_. Inr ()), t, w))))"

definition ops_set_last_modified ::
    "'w file_env \<Rightarrow> datetime \<Rightarrow> datetime \<Rightarrow> unit res \<Rightarrow> nat \<Rightarrow> string \<Rightarrow> fstree \<Rightarrow> 'w \<Rightarrow> file_desc res \<times> fstree \<times> 'w" where
  "ops_set_last_modified env now when push root path t w =
     (case stat_file t root path of
        Inl ex \<Rightarrow> (Inl ex, t, w)
      | Inr a \<Rightarrow> file_set_last_modified env now when push a t w)"

section \<open>Copying directories\<close>

text \<open>
  The copies of \<open>cp_dir\<close> run inside a batch: the pushes on the way are only noted and succeed, and \<open>push\<close> is the outcome of the one write
  at the end, which also happens when the block fails. \<open>uuid k\<close> are the fresh ids of copy number \<open>k\<close>.
\<close>

fun copy_files ::
    "'w file_env \<Rightarrow> datetime \<Rightarrow> (nat \<Rightarrow> nat \<Rightarrow> string) \<Rightarrow> nat \<Rightarrow> nat list \<Rightarrow> nat \<Rightarrow> fstree \<Rightarrow> requests \<Rightarrow> 'w
      \<Rightarrow> unit res \<times> nat \<times> fstree \<times> requests \<times> 'w" where
  "copy_files env now uuid c [] k t reqs w = (Inr (), k, t, reqs, w)"
| "copy_files env now uuid c (a # as) k t reqs w =
     (let out = file_copy env now (uuid k) (Inr ()) c a None t w in
      case co_res out of
        Inl ex \<Rightarrow> (Inl ex, k, co_tree out, reqs @ co_requests out, co_world out)
      | Inr _ \<Rightarrow> copy_files env now uuid c as (Suc k) (co_tree out) (reqs @ co_requests out) (co_world out))"

text \<open>The loop over the children; \<open>f\<close> copies one of them.\<close>

fun copy_children ::
    "(nat \<Rightarrow> nat \<Rightarrow> fstree \<Rightarrow> requests \<Rightarrow> 'w \<Rightarrow> (nat res \<times> nat \<times> fstree \<times> requests \<times> 'w) option) \<Rightarrow> nat list \<Rightarrow> nat \<Rightarrow> fstree \<Rightarrow> requests \<Rightarrow> 'w
      \<Rightarrow> (unit res \<times> nat \<times> fstree \<times> requests \<times> 'w) option" where
  "copy_children f [] k t reqs w = Some (Inr (), k, t, reqs, w)"
| "copy_children f (d # ds) k t reqs w =
     Option.bind (f d k t reqs w) (\<lambda>(res, k, t, reqs, w).
       case res of Inl ex \<Rightarrow> Some (Inl ex, k, t, reqs, w) | Inr _ \<Rightarrow> copy_children f ds k t reqs w)"

text \<open>\<open>_copy_dir_into\<close>, with fuel for the depth of the tree.\<close>

primrec copy_dir_into ::
    "nat \<Rightarrow> 'w file_env \<Rightarrow> datetime \<Rightarrow> (nat \<Rightarrow> nat \<Rightarrow> string) \<Rightarrow> nat \<Rightarrow> string \<Rightarrow> nat \<Rightarrow> nat \<Rightarrow> fstree \<Rightarrow> requests \<Rightarrow> 'w
      \<Rightarrow> (nat res \<times> nat \<times> fstree \<times> requests \<times> 'w) option" where
  "copy_dir_into 0 env now uuid parent name d k t reqs w = None"
| "copy_dir_into (Suc fuel) env now uuid parent name d k t reqs w =
     (case dir_api_create now (Inr ()) name parent t of
        (Inl ex, t) \<Rightarrow> Some (Inl ex, k, t, reqs, w)
      | (Inr c, t) \<Rightarrow>
          (case copy_files env now uuid c (find_files t d []) (Suc k) t reqs w of
             (Inl ex, k, t, reqs, w) \<Rightarrow> Some (Inl ex, k, t, reqs, w)
           | (Inr _, k, t, reqs, w) \<Rightarrow>
               map_option (\<lambda>(res, k, t, reqs, w). (rbind res (\<lambda>_. Inr c), k, t, reqs, w))
                 (copy_children (\<lambda>child k t. copy_dir_into fuel env now uuid c (d_name (t_dir t child)) child k t)
                    (find_dirs t d []) k t reqs w)))"

definition ops_cp_dir ::
    "nat \<Rightarrow> 'w file_env \<Rightarrow> datetime \<Rightarrow> (nat \<Rightarrow> nat \<Rightarrow> string) \<Rightarrow> unit res \<Rightarrow> nat \<Rightarrow> string \<Rightarrow> string \<Rightarrow> fstree \<Rightarrow> 'w \<Rightarrow> 'w copy_outcome option" where
  "ops_cp_dir fuel env now uuid push root path_from path_to t w =
     (case rbind (locate t root path_from) (\<lambda>(d, name). rbind (find_dir t d name) (\<lambda>d.
             rbind (cd_used t root (dirname path_to)) (\<lambda>d2. Inr (d, d2)))) of
        Inl ex \<Rightarrow> Some \<lparr>co_res = Inl ex, co_tree = t, co_requests = [], co_world = w\<rparr>
      | Inr (d, d2) \<Rightarrow> Option.bind (is_ancestor_of t d d2) (\<lambda>inside.
          if inside
          then Some \<lparr>co_res = Inl (InvalidPath (path_from @ '' cannot be copied into itself'')), co_tree = t, co_requests = [], co_world = w\<rparr>
          else map_option (\<lambda>(res, k, t, reqs, w).
            \<lparr>co_res = (if 0 < k then rbind push (\<lambda>_. res) else res), co_tree = t, co_requests = reqs, co_world = w\<rparr>)
            (copy_dir_into fuel env now uuid d2 (if basename path_to = [] then basename path_from else basename path_to) d 0 t [] w)))"

section \<open>Following names\<close>

abbreviation "path_of comps \<equiv> slash # join_with ''/'' comps"

fun walk :: "fstree \<Rightarrow> nat \<Rightarrow> string list \<Rightarrow> nat res" where
  "walk t d [] = Inr d"
| "walk t d (c # cs) = rbind (find_dir t d c) (\<lambda>x. walk t x cs)"

lemma cd_loop_plain: "list_all plain cs \<Longrightarrow> cd_loop t (Some d) cs = rbind (walk t d cs) (\<lambda>x. Inr (Some x))"
proof (induction cs arbitrary: d)
  case (Cons c cs)
  then show ?case by (cases "find_dir t d c") (auto simp: plain_def)
qed simp

lemma walk_append: "walk t d (xs @ ys) = rbind (walk t d xs) (\<lambda>x. walk t x ys)"
proof (induction xs arbitrary: d)
  case (Cons x xs)
  then show ?case by (cases "find_dir t d x") simp_all
qed simp

lemma ops_cd_plain: "list_all plain cs \<Longrightarrow> ops_cd t root (path_of cs) = rbind (walk t root cs) (\<lambda>x. Inr (Some x))"
proof (cases "cs = []")
  case False
  assume "list_all plain cs"
  moreover from this have "split_on slash (path_of cs) = [] # cs" using split_join [OF False, of slash] by (auto simp: list_all_iff plain_def)
  ultimately show ?thesis by (simp add: ops_cd_def cd_loop_plain)
qed (simp add: ops_cd_def)

lemma cd_used_plain: "list_all plain cs \<Longrightarrow> cd_used t root (path_of cs) = walk t root cs"
  by (cases "walk t root cs") (simp_all add: cd_used_def ops_cd_plain)

lemma plain_path_parts:
  assumes "list_all plain cs" and "plain c"
  shows "basename (path_of (cs @ [c])) = c" and "dirname (path_of (cs @ [c])) = path_of cs" and "validate_path (path_of (cs @ [c])) = Inr ()"
proof -
  have c: "c \<noteq> []" "slash \<notin> set c" "slash \<noteq> last c" using assms(2) last_in_set [of c] by (auto simp: plain_def)
  define pre where "pre = (if cs = [] then ''/'' else path_of cs @ ''/'')"
  have path: "path_of (cs @ [c]) = pre @ c" by (simp add: pre_def join_with_snoc)
  have rev: "rev (pre @ c) = rev c @ slash # rev (butlast pre)" by (auto simp: pre_def butlast_append)
  have free: "\<forall>x \<in> set (rev c). slash \<noteq> x" using c(2) by auto
  show "basename (path_of (cs @ [c])) = c" 
    unfolding path basename_def rev using takeWhile_append2 [of "rev c" "(\<noteq>) slash", OF bspec [OF free]] by simp
  have head: "rev (dropWhile ((\<noteq>) slash) (rev (pre @ c))) = pre"
    unfolding rev using dropWhile_append2 [of "rev c" "(\<noteq>) slash", OF bspec [OF free]] by (auto simp: pre_def butlast_append)
  show "dirname (path_of (cs @ [c])) = path_of cs"
  proof (cases "cs = []")
    case True
    then show ?thesis unfolding path dirname_def Let_def head by (simp add: pre_def)
  next
    case False
    note j = join_plain [OF assms(1) False]
    have ne: "path_of cs @ ''/'' \<noteq> replicate n slash" for n
    proof
      assume "path_of cs @ ''/'' = replicate n slash"
      then have "set (path_of cs @ ''/'') \<subseteq> {slash}" by (metis in_set_replicate insertI1 subsetI singleton_iff)
      then have "set (join_with ''/'' cs) \<subseteq> {slash}" by simp
      then show False using j(2) hd_in_set [OF j(1)] by (metis singletonD subsetD)
    qed
    have "dropWhile ((=) slash) (slash # rev (path_of cs)) = rev (path_of cs)"
      using j(1,3) by (cases "join_with ''/'' cs" rule: rev_cases) auto
    then show ?thesis using False ne [of "Suc (Suc (length (join_with ''/'' cs)))"] unfolding path dirname_def Let_def head by (simp add: pre_def rstrip_def)
  qed
  show "validate_path (path_of (cs @ [c])) = Inr ()" using c unfolding path by (auto simp: validate_path_def pre_def)
qed

lemma locate_plain:
  assumes "list_all plain cs" and "plain c"
  shows "locate t root (path_of (cs @ [c])) = rbind (walk t root cs) (\<lambda>d. Inr (d, c))"
  using plain_path_parts [OF assms] by (simp add: locate_def cd_used_plain [OF assms(1)])

section \<open>Names lead to one directory\<close>

lemma filter_named: "distinct (map f xs) \<Longrightarrow> x \<in> set xs \<Longrightarrow> filter (\<lambda>y. f y = f x) xs = [x]"
proof (induction xs)
  case (Cons y ys)
  then have "f z \<noteq> f y" if "z \<in> set ys" for z using that by (metis distinct.simps(2) image_eqI image_set list.simps(9))
  then show ?case using Cons by (auto simp: filter_empty_conv)
qed simp

lemma find_dir_iff:
  assumes "tree_ok t"
  shows "find_dir t d n = Inr c \<longleftrightarrow> c \<in> set (d_children (t_dir t d)) \<and> d_name (t_dir t c) = n"
proof
  assume "find_dir t d n = Inr c"
  then obtain cs where "filter (\<lambda>c. d_name (t_dir t c) = n) (d_children (t_dir t d)) = c # cs"
    by (auto simp: find_dir_def find_dirs_def split: list.splits)
  then have "c \<in> set (filter (\<lambda>c. d_name (t_dir t c) = n) (d_children (t_dir t d)))" by (metis list.set_intros(1))
  then show "c \<in> set (d_children (t_dir t d)) \<and> d_name (t_dir t c) = n" by simp
next
  assume "c \<in> set (d_children (t_dir t d)) \<and> d_name (t_dir t c) = n"
  then show "find_dir t d n = Inr c"
    using filter_named [OF tree_ok_dir(2) [OF assms, of d], of c] by (auto simp: find_dir_def find_dirs_def)
qed

lemma find_dir_none:
  "find_dirs t d [n] = [] \<longleftrightarrow> find_dir t d n = Inl (FileOrDirectoryDoesNotExist n)"
  by (simp add: find_dir_def split: list.splits)

lemma find_dir_cases: "(\<exists>c. find_dir t d n = Inr c) \<or> find_dir t d n = Inl (FileOrDirectoryDoesNotExist n)"
  by (simp add: find_dir_def split: list.splits)

lemma walk_below: "tree_ok t \<Longrightarrow> walk t d cs = Inr x \<Longrightarrow> below t d x"
proof (induction cs arbitrary: d)
  case (Cons c cs)
  obtain y where y: "find_dir t d c = Inr y" "walk t y cs = Inr x" using Cons.prems by (auto simp: rbind_Inr_iff)
  then have "d_parent (t_dir t y) = Some d" using find_dir_iff [OF Cons.prems(1)] tree_ok_dir(3) [OF Cons.prems(1)] by blast
  then have "below t d y" by (auto intro: below.intros)
  then show ?case using Cons.IH [OF Cons.prems(1) y(2)] below_trans by blast
qed (simp add: below_self)

lemma walk_bound: "tree_ok t \<Longrightarrow> d < t_next t \<Longrightarrow> walk t d cs = Inr x \<Longrightarrow> x < t_next t"
proof (induction cs arbitrary: d)
  case (Cons c cs)
  obtain y where y: "find_dir t d c = Inr y" "walk t y cs = Inr x" using Cons.prems by (auto simp: rbind_Inr_iff)
  then have "y < t_next t" using find_dir_iff [OF Cons.prems(1)] tree_ok_dir(9) [OF Cons.prems(1)] by blast
  then show ?case using Cons y(2) by blast
qed simp

text \<open>The directories that \<open>cd\<close> finds are those that a path of names leads to.\<close>

lemma cd_loop_walk:
  assumes ok: "tree_ok t" and root: "d_parent (t_dir t root) = None"
  shows "walk t root cs = Inr d \<Longrightarrow> cd_loop t (Some d) parts = Inr (Some x) \<Longrightarrow> \<exists>cs. walk t root cs = Inr x"
proof (induction parts arbitrary: d cs)
  case (Cons part parts)
  have none: "cd_loop t None ps \<noteq> Inr (Some x)" for ps by (induction ps) auto
  consider "part = ''..''" | "part = ''.'' \<or> part = []" | "part \<noteq> ''..''" "part \<noteq> ''.''" "part \<noteq> []" by blast
  then show ?case
  proof cases
    case 1
    show ?thesis
    proof (cases cs rule: rev_cases)
      case Nil
      then show ?thesis using Cons.prems 1 none root by simp
    next
      case (snoc ds c)
      then obtain p where p: "walk t root ds = Inr p" "find_dir t p c = Inr d"
        using Cons.prems(1) by (auto simp: walk_append rbind_Inr_iff)
      then have "d_parent (t_dir t d) = Some p" using find_dir_iff [OF ok] tree_ok_dir(3) [OF ok] by blast
      then show ?thesis using Cons.IH [OF p(1)] Cons.prems(2) 1 by simp
    qed
  next
    case 2
    then show ?thesis using Cons by auto
  next
    case 3
    then obtain c where "find_dir t d part = Inr c" "cd_loop t (Some c) parts = Inr (Some x)" using Cons.prems(2) by (auto simp: rbind_Inr_iff)
    then show ?thesis using Cons.IH [of "cs @ [part]" c] Cons.prems(1) by (simp add: walk_append)
  qed
qed auto

definition names_plain :: "fstree \<Rightarrow> bool" where
  "names_plain t \<longleftrightarrow> (\<forall>d. \<forall>c \<in> set (d_children (t_dir t d)). plain (d_name (t_dir t c)))"

lemma walk_plain: "tree_ok t \<Longrightarrow> names_plain t \<Longrightarrow> walk t d cs = Inr x \<Longrightarrow> list_all plain cs"
proof (induction cs arbitrary: d)
  case (Cons c cs)
  then obtain y where "find_dir t d c = Inr y" "walk t y cs = Inr x" by (auto simp: rbind_Inr_iff)
  then show ?case using Cons find_dir_iff [OF Cons.prems(1), of d c y] by (auto simp: names_plain_def)
qed simp

lemma walk_absolute_path:
  assumes ok: "tree_ok t" and root: "d_parent (t_dir t root) = None"
  shows "walk t root cs = Inr d \<Longrightarrow> list_all plain cs \<Longrightarrow> absolute_path t d = Some (if cs = [] then [] else path_of cs)"
proof (induction cs arbitrary: d rule: rev_induct)
  case Nil
  then show ?case using root absolute_path.simps [of t root] by simp
next
  case (snoc c cs)
  then obtain p where p: "walk t root cs = Inr p" "find_dir t p c = Inr d" by (auto simp: walk_append rbind_Inr_iff)
  then have "d_parent (t_dir t d) = Some p" "d_name (t_dir t d) = c" using find_dir_iff [OF ok] tree_ok_dir(3) [OF ok] by blast+
  then show ?case using snoc.IH [OF p(1)] snoc.prems(2)
    by (auto simp: absolute_path.simps [of t d] join_with_snoc plain_def)
qed

text \<open>C28: Every path, also one with dots, that leads to a directory leads to one whose absolute path leads to it again.\<close>

theorem cd_absolute_path:
  assumes "tree_ok t" and "names_plain t" and "d_parent (t_dir t root) = None" and "ops_cd t root path = Inr (Some d)"
  shows "\<exists>p. absolute_path t d = Some p \<and> ops_cd t root p = Inr (Some d)"
proof -
  obtain cs where cs: "walk t root cs = Inr d"
    using cd_loop_walk [OF assms(1,3), of "[]" root "split_on slash path" d] assms(4) by (auto simp: ops_cd_def)
  have plain: "list_all plain cs" by (rule walk_plain [OF assms(1,2) cs])
  have "ops_cd t root (path_of cs) = Inr (Some d)" using ops_cd_plain [OF plain] cs by simp
  moreover have "ops_cd t root [] = Inr (Some root)" by (simp add: ops_cd_def)
  ultimately show ?thesis using walk_absolute_path [OF assms(1,3) cs plain] cs by (cases "cs = []") auto
qed

theorem cd_absolute_path_witness:
  "ops_cd example_tree 0 ''/a/../b'' = Inr (Some 2)
    \<and> (\<exists>p. absolute_path example_tree 2 = Some p \<and> ops_cd example_tree 0 p = Inr (Some 2))"
proof -
  have names: "d_name (t_dir example_tree 1) = ''a''" "d_children (t_dir example_tree x) = (if x = 0 then [1, 2] else [])" for x
    by (simp_all add: example_tree_def create_dir_def empty_tree_def find_dirs_def new_dir_def validate_name_def alloc_dir_def Let_def touch_modified_def)
  then have "names_plain example_tree" by (auto simp: names_plain_def plain_def example_tree_dirs)
  moreover have "ops_cd example_tree 0 ''/a/../b'' = Inr (Some 2)"
    by (simp add: ops_cd_def find_dir_def find_dirs_def names example_tree_dirs del: One_nat_def)
  ultimately show ?thesis using cd_absolute_path [OF example_tree_ok(1) _ example_tree_dirs(5)] by blast
qed

section \<open>Making directories\<close>

lemma create_dir_frame:
  assumes "create_dir now name d t = Inr (c, t')" and "d < t_next t"
  shows "find_dirs t d [name] = []" and "d_parent (t_dir t' x) = (if x = c then Some d else d_parent (t_dir t x))"
    and "d_name (t_dir t' x) = (if x = c then name else d_name (t_dir t x))"
    and "d_children (t_dir t' x) = (if x = c then [] else d_children (t_dir t x) @ (if x = d then [c] else []))"
    and "d_files (t_dir t' x) = (if x = c then rl_new (\<lambda>_. []) [] else d_files (t_dir t x))" and "t_ref t' = t_ref t"
  using assms by (auto simp: create_dir_def alloc_dir_def rbind_Inr_iff Let_def new_dir_def split: if_splits)

lemma create_dir_find_new:
  assumes ok: "tree_ok t" and d: "d < t_next t" and c: "create_dir now name d t = Inr (c, t')"
  shows "find_dir t' d name = Inr c"
proof -
  have okt: "tree_ok t'" "c = t_next t" using create_dir_ok [OF ok d c] by blast+
  then show ?thesis using d create_dir_frame(3,4) [OF c d] unfolding find_dir_iff [OF okt(1)] by simp
qed

lemma create_dir_find:
  assumes ok: "tree_ok t" and d: "d < t_next t" and c: "create_dir now name d t = Inr (c, t')" and f: "find_dir t x n = Inr y"
  shows "find_dir t' x n = Inr y"
proof -
  have okt: "tree_ok t'" and new: "c = t_next t" using create_dir_ok [OF ok d c] by blast+
  have y: "y \<in> set (d_children (t_dir t x))" "d_name (t_dir t y) = n" using f find_dir_iff [OF ok] by blast+
  have yc: "y \<noteq> c" using tree_ok_dir(9) [OF ok y(1)] new by simp
  have xc: "x \<noteq> c" using y(1) tree_okD(3) [OF ok, of x] new by auto
  have "d_name (t_dir t' y) = n" using create_dir_frame(3) [OF c d, of y] yc y(2) by simp
  moreover have "set (d_children (t_dir t x)) \<subseteq> set (d_children (t_dir t' x))" 
    unfolding create_dir_frame(4) [OF c d, of x] if_not_P [OF xc] set_append by blast
  ultimately have "y \<in> set (d_children (t_dir t' x)) \<and> d_name (t_dir t' y) = n" using y(1) by blast
  then show ?thesis using find_dir_iff [OF okt] by blast
qed

lemma cd_loop_mono:
  assumes "\<And>d n c. find_dir t d n = Inr c \<Longrightarrow> find_dir t' d n = Inr c"
    and "\<And>d. d < t_next t \<Longrightarrow> d_parent (t_dir t' d) = d_parent (t_dir t d)" and ok: "tree_ok t"
  shows "(\<And>d. current = Some d \<Longrightarrow> d < t_next t) \<Longrightarrow> cd_loop t current parts = Inr x \<Longrightarrow> cd_loop t' current parts = Inr x"
proof (induction parts arbitrary: current)
  case (Cons part parts)
  show ?case
  proof (cases current)
    case None
    then show ?thesis using Cons by (auto split: if_splits)
  next
    case (Some d)
    then have d: "d < t_next t" using Cons.prems(1) by simp
    consider "part = ''..''" | "part = ''.'' \<or> part = []" | "part \<noteq> ''..''" "part \<noteq> ''.''" "part \<noteq> []" by blast
    then show ?thesis
    proof cases
      case 1
      have "cd_loop t' (d_parent (t_dir t d)) parts = Inr x"
        by (rule Cons.IH) (use Cons.prems(2) 1 Some tree_okD(4) [OF ok] in auto)
      then show ?thesis using 1 Some assms(2) [OF d] by simp
    next
      case 2
      then show ?thesis using Cons.IH [of current] Cons.prems by auto
    next
      case 3
      then obtain c where c: "find_dir t d part = Inr c" "cd_loop t (Some c) parts = Inr x"
        using Cons.prems(2) Some by (auto simp: rbind_Inr_iff)
      have "c < t_next t" using c(1) find_dir_iff [OF ok] tree_ok_dir(9) [OF ok] by blast
      then have "cd_loop t' (Some c) parts = Inr x" using Cons.IH [of "Some c"] c(2) by simp
      then show ?thesis using 3 Some assms(1) [OF c(1)] by simp
    qed
  qed
qed simp

lemma walk_mono: "(\<And>d n c. find_dir t d n = Inr c \<Longrightarrow> find_dir t' d n = Inr c) \<Longrightarrow> walk t d cs = Inr x \<Longrightarrow> walk t' d cs = Inr x"
proof (induction cs arbitrary: d)
  case (Cons c cs)
  then obtain y where "find_dir t d c = Inr y" "walk t y cs = Inr x" by (auto simp: rbind_Inr_iff)
  then show ?case using Cons by simp
qed simp

text \<open>A directory that was made is where its path says, empty; every path that led to a directory still leads
  there, and the tree is well formed. A name that is taken is refused and nothing changes.\<close>

lemma mkdir_found:
  assumes ok: "tree_ok t" and root: "root < t_next t" and plain: "list_all plain cs" "plain c"
    and mk: "ops_mkdir now push root (path_of (cs @ [c])) False t = (res, t')"
  shows "(\<forall>p x. ops_cd t root p = Inr x \<longrightarrow> ops_cd t' root p = Inr x)
    \<and> (\<forall>x. res = Inr x \<longrightarrow> tree_ok t' \<and> ops_cd t' root (path_of (cs @ [c])) = Inr (Some x) \<and> dir_api_ls t' x = ([], []))
    \<and> ((\<exists>x. ops_cd t root (path_of (cs @ [c])) = Inr (Some x)) \<longrightarrow> res = Inl (FileOrDirectoryAlreadyExists c) \<and> t' = t)"
proof -
  have all: "list_all plain (cs @ [c])" using plain by simp
  note cd = ops_cd_plain [OF all]
  show ?thesis
  proof (cases "walk t root cs")
    case (Inl ex)
    then have "res = Inl ex" "t' = t" using mk by (simp_all add: ops_mkdir_def locate_plain [OF plain])
    then show ?thesis using Inl by (simp add: cd walk_append)
  next
    case (Inr d)
    have d: "d < t_next t" by (rule walk_bound [OF ok root Inr])
    have mk': "dir_api_create now (push 0) c d t = (res, t')" using mk Inr by (simp add: ops_mkdir_def locate_plain [OF plain])
    show ?thesis
    proof (cases "create_dir now c d t")
      case (Inl ex)
      then have "res = Inl ex" "t' = t" using mk' by (simp_all add: dir_api_create_def)
      moreover have "ex = FileOrDirectoryAlreadyExists c" if "find_dir t d c = Inr x" for x
        using Inl that by (auto simp: create_dir_def find_dir_def split: list.splits)
      ultimately show ?thesis using Inr by (auto simp: cd walk_append rbind_Inr_iff)
    next
      case (Inr ct)
      obtain x where ct: "ct = (x, t')" "res = rbind (push 0) (\<lambda>_. Inr x)"
        using mk' Inr by (cases ct) (auto simp: dir_api_create_def)
      note cr = Inr [unfolded ct(1)]
      note ok' = create_dir_ok [OF ok d cr]
      note fr = create_dir_frame [OF cr d]
      note mono = create_dir_find [OF ok d cr] and find = create_dir_find_new [OF ok d cr]
      have "ops_cd t' root p = Inr y" if "ops_cd t root p = Inr y" for p y
        using that cd_loop_mono [OF mono _ ok, of "Some root" "split_on slash p" y] root ok' by (auto simp: ops_cd_def fr)
      moreover have "walk t' root cs = Inr d" by (rule walk_mono [OF mono \<open>walk t root cs = Inr d\<close>])
      moreover have "find_dir t d c = Inl (FileOrDirectoryDoesNotExist c)" using fr(1) find_dir_none by blast
      moreover have "dir_api_ls t' x = ([], [])"
        by (simp add: dir_api_ls_def find_dirs_def find_files_def items_def fr rl_new_ok)
      ultimately show ?thesis using ok' find \<open>walk t root cs = Inr d\<close> ct(2)
        by (auto simp: cd walk_append rbind_Inr_iff)
    qed
  qed
qed

lemma example_tree_children:
  "d_name (t_dir example_tree 1) = ''a''" "d_children (t_dir example_tree x) = (if x = 0 then [1, 2] else [])"
  by (simp_all add: example_tree_def create_dir_def empty_tree_def find_dirs_def new_dir_def validate_name_def alloc_dir_def Let_def touch_modified_def)

text \<open>
  With \<open>parents\<close> the walk over the missing directories starts at the directory that \<open>cd\<close> found, not at the root, so a parent that is missing is
  an error as before, and where all exist the chain of the parents is made a second time below them.
\<close>

lemma mkdir_parents_walk:
  assumes "tree_ok t" and "d < t_next t" and "mkdir_parents now push parts d k t = (Inr x, k', t')"
  shows "tree_ok t' \<and> x < t_next t' \<and> walk t' d parts = Inr x \<and> (\<forall>e n y. find_dir t e n = Inr y \<longrightarrow> find_dir t' e n = Inr y)"
  using assms
proof (induction now push parts d k t rule: mkdir_parents.induct)
  case (2 now push part parts d k t)
  show ?case
  proof (cases "find_dir t d part")
    case (Inr c)
    have "c < t_next t" using Inr find_dir_iff [OF "2.prems"(1)] tree_ok_dir(9) [OF "2.prems"(1)] by blast
    then show ?thesis using "2.IH"(2) [OF Inr "2.prems"(1)] "2.prems"(3) Inr by simp
  next
    case (Inl ex)
    obtain c t1 where c: "create_dir now part d t = Inr (c, t1)" "push k = Inr ()"
      using "2.prems"(3) Inl by (auto simp: dir_api_create_def rbind_def split: sum.splits prod.splits)
    note ok1 = create_dir_ok [OF "2.prems"(1,2) c(1)]
    have mk: "dir_api_create now (push k) part d t = (Inr c, t1)" using c by (simp add: dir_api_create_def)
    have "c < t_next t1" using ok1 by simp
    from "2.IH"(1) [OF Inl mk [symmetric] refl conjunct1 [OF ok1] this] "2.prems"(3) Inl mk
    have "tree_ok t' \<and> x < t_next t' \<and> walk t' c parts = Inr x \<and> (\<forall>e n y. find_dir t1 e n = Inr y \<longrightarrow> find_dir t' e n = Inr y)" by simp
    then show ?thesis using create_dir_find [OF "2.prems"(1,2) c(1)] create_dir_find_new [OF "2.prems"(1,2) c(1)] by simp
  qed
qed simp

lemma mkdir_parents_misplaces:
  assumes ok: "tree_ok t" and root: "root < t_next t" and plain: "list_all plain cs" "plain c"
    and mk: "ops_mkdir now push root (path_of (cs @ [c])) True t = (Inr x, t')"
  shows "walk t' root (cs @ cs @ [c]) = Inr x"
proof -
  obtain d where d: "walk t root cs = Inr d"
    using mk by (auto simp: ops_mkdir_def locate_plain [OF plain] rbind_def split: sum.splits)
  have parts: "filter (\<lambda>x. x \<noteq> []) (split_on slash (dirname (path_of (cs @ [c])))) = cs"
    using plain(1) split_join [of cs slash] unfolding plain_path_parts(2) [OF plain]
    by (cases "cs = []") (auto simp: list_all_iff plain_def intro!: filter_True)
  obtain e k t1 where e: "mkdir_parents now push cs d 0 t = (Inr e, k, t1)" "dir_api_create now (push k) c e t1 = (Inr x, t')"
    using mk d parts by (auto simp: ops_mkdir_def locate_plain [OF plain] split: sum.splits prod.splits)
  note w = mkdir_parents_walk [OF ok walk_bound [OF ok root d] e(1)]
  have cr: "create_dir now c e t1 = Inr (x, t')"
    using e(2) by (auto simp: dir_api_create_def rbind_def split: sum.splits prod.splits)
  have t1: "tree_ok t1" "e < t_next t1" using w by blast+
  note mono = create_dir_find [OF t1 cr]
  have "walk t1 root cs = Inr d" by (rule walk_mono [OF _ d]) (use w in blast)
  then have "walk t' root cs = Inr d" "walk t' d cs = Inr e" using walk_mono [OF mono] w by blast+
  then show ?thesis using create_dir_find_new [OF t1 cr] by (simp add: walk_append)
qed

section \<open>Moving directories\<close>

lemma below_strict:
  assumes "tree_ok t" and "d_parent (t_dir t d) = Some p"
  shows "\<not> below t d p"
proof -
  have "below t p d" using assms(2) by (auto intro: below.intros)
  moreover have "p \<noteq> d" using parent_neq [OF tree_ok_dir(1) [OF assms(1)], of d] assms(2) by auto
  ultimately show ?thesis using below_antisym [OF tree_ok_dir(1) [OF assms(1)]] by blast
qed

lemma parent_neq': "tree_ok t \<Longrightarrow> d_parent (t_dir t d) = Some p \<Longrightarrow> d \<noteq> p"
  using parent_neq [OF tree_ok_dir(1)] by metis

lemma not_self: "\<not> below t d x \<Longrightarrow> d \<noteq> x"
  using below_self by auto

text \<open>Moving a directory leaves all files alone.\<close>

lemma reparent_files:
  assumes "d \<noteq> old" and "d \<noteq> np"
  shows "t_ref (reparent now d old np name t) = t_ref t"
    and "find_files (reparent now d old np name t) x names = find_files t x names"
  using assms by (simp_all add: reparent_dir find_files_def items_def split: list.splits)

lemma reparent_find:
  assumes ok: "tree_ok t" and old: "d_parent (t_dir t d) = Some old" and np: "np < t_next t" "\<not> below t d np" and none: "find_dirs t np [name] = []"
    and t'_def: "t' = reparent now d old np name t"
  shows "find_dir t' x n = Inr y \<longleftrightarrow> y \<noteq> d \<and> find_dir t x n = Inr y \<or> y = d \<and> x = np \<and> n = name"
proof -
  have okt: "tree_ok t'" unfolding t'_def by (rule reparent_ok [OF ok old np none])
  have neq: "d \<noteq> old" "d \<noteq> np" using parent_neq [OF tree_ok_dir(1) [OF ok], of d] old np(2) below_self by auto
  have dist: "distinct (d_children (t_dir t old))" using tree_ok_dir(2) [OF ok, of old] by (simp add: distinct_map)
  have here: "x = old" if "d \<in> set (d_children (t_dir t x))" using tree_ok_dir(3) [OF ok that] old by simp
  have "y \<in> set (d_children (t_dir t' x)) \<longleftrightarrow> y \<noteq> d \<and> y \<in> set (d_children (t_dir t x)) \<or> y = d \<and> x = np"
  proof -
    have "set (if x = old then remove1 d (d_children (t_dir t x)) else d_children (t_dir t x)) = set (d_children (t_dir t x)) - {d}"
    proof (cases "x = old")
      case True
      show ?thesis unfolding if_P [OF True] by (rule set_remove1_eq) (use dist True in simp)
    next
      case False
      then have "d \<notin> set (d_children (t_dir t x))" using here by blast
      then show ?thesis unfolding if_not_P [OF False] by blast
    qed
    moreover have "set (if x = np then [d] else []) = {z. z = d \<and> x = np}" by (cases "x = np") simp_all
    ultimately show ?thesis unfolding t'_def reparent_dir(1) [OF neq] set_append
      by (simp only: Un_iff Diff_iff singleton_iff mem_Collect_eq) blast
  qed
  then show ?thesis
    unfolding find_dir_iff [OF okt] find_dir_iff [OF ok] unfolding t'_def reparent_dir(2) [OF neq] by auto
qed

lemma walk_unique: "tree_ok t \<Longrightarrow> walk t r xs = Inr p \<Longrightarrow> walk t r ys = Inr p \<Longrightarrow> xs = ys"
proof (induction xs arbitrary: ys p rule: rev_induct)
  case Nil
  have "\<not> walk t r (zs @ [z]) = Inr r" for zs z
  proof
    assume "walk t r (zs @ [z]) = Inr r"
    then obtain q where q: "walk t r zs = Inr q" "find_dir t q z = Inr r" by (auto simp: walk_append rbind_Inr_iff)
    then have "d_parent (t_dir t r) = Some q" using find_dir_iff [OF Nil(1)] tree_ok_dir(3) [OF Nil(1)] by blast
    then show False using below_strict [OF Nil(1)] walk_below [OF Nil(1) q(1)] by blast
  qed
  then show ?case using Nil(2,3) by (cases ys rule: rev_cases) auto
next
  case (snoc a xs)
  obtain q where q: "walk t r xs = Inr q" "find_dir t q a = Inr p" using snoc.prems by (auto simp: walk_append rbind_Inr_iff)
  have par: "d_parent (t_dir t p) = Some u" "d_name (t_dir t p) = z" if "find_dir t u z = Inr p" for u z
    using that find_dir_iff [OF snoc.prems(1)] tree_ok_dir(3) [OF snoc.prems(1)] by blast+
  show ?case
  proof (cases ys rule: rev_cases)
    case Nil
    then show ?thesis using snoc.prems(3) par(1) [OF q(2)] below_strict [OF snoc.prems(1)] walk_below [OF snoc.prems(1) q(1)] by auto
  next
    case (snoc zs z)
    then obtain u where u: "walk t r zs = Inr u" "find_dir t u z = Inr p" using snoc.prems(3) by (auto simp: walk_append rbind_Inr_iff)
    then show ?thesis using snoc.IH [of q zs] snoc.prems(1) q par(1,2) [OF u(2)] par(1,2) [OF q(2)] \<open>ys = zs @ [z]\<close> by simp
  qed
qed

lemma find_dir_eqI:
  assumes "\<And>y. find_dir t x n = Inr y \<longleftrightarrow> find_dir t' x n = Inr y"
  shows "find_dir t x n = find_dir t' x n"
  using assms find_dir_cases [of t x n] find_dir_cases [of t' x n] by (metis sum.inject(1))

text \<open>A walk to a directory that is not below the moved one does not pass it, and one from it finds what it found.\<close>

lemma walk_beside:
  assumes ok: "tree_ok t" and step: "\<And>x n y. y \<noteq> d \<Longrightarrow> find_dir t x n = Inr y \<Longrightarrow> find_dir t' x n = Inr y"
  shows "walk t x cs = Inr z \<Longrightarrow> \<not> below t d z \<Longrightarrow> walk t' x cs = Inr z"
proof (induction cs arbitrary: x)
  case (Cons c cs)
  then obtain y where y: "find_dir t x c = Inr y" "walk t y cs = Inr z" by (auto simp: rbind_Inr_iff)
  have "y \<noteq> d" using walk_below [OF ok y(2)] Cons.prems(2) by auto
  then show ?case using Cons.IH [OF y(2) Cons.prems(2)] step [OF _ y(1)] by simp
qed simp

lemma walk_inside:
  assumes ok: "tree_ok t" and step: "\<And>x n. below t d x \<Longrightarrow> find_dir t' x n = find_dir t x n"
  shows "below t d x \<Longrightarrow> walk t' x cs = walk t x cs"
proof (induction cs arbitrary: x)
  case (Cons c cs)
  show ?case
  proof (cases "find_dir t x c")
    case (Inr y)
    have "d_parent (t_dir t y) = Some x" using Inr find_dir_iff [OF ok] tree_ok_dir(3) [OF ok] by blast
    then have "below t d y" using Cons.prems by (rule below_child)
    then show ?thesis using Cons.IH Inr step [OF Cons.prems] by simp
  qed (use step [OF Cons.prems] in simp)
qed simp

text \<open>C22: A directory that was moved is found under its new path with every directory and file below it as it was, and no longer under the old
  one unless the two are the same. Nothing else changes: every other directory keeps its place, and every directory of the file system lists and finds the
  same files with the same refs. A move that is refused changes nothing.\<close>

theorem mv_dir_found:
  assumes ok: "tree_ok t" and root: "root < t_next t" and plain: "list_all plain fs" "plain f" "list_all plain gs" "plain g"
    and mv: "ops_mv_dir now push root (path_of (fs @ [f])) (path_of (gs @ [g])) t = Some (res, t')"
  shows "case res of
      Inr d \<Rightarrow> tree_ok t' \<and> ops_cd t root (path_of (fs @ [f])) = Inr (Some d) \<and> ops_cd t' root (path_of (gs @ [g])) = Inr (Some d)
        \<and> (\<forall>rest. walk t' d rest = walk t d rest)
        \<and> (\<forall>x n y. y \<noteq> d \<longrightarrow> (find_dir t' x n = Inr y \<longleftrightarrow> find_dir t x n = Inr y))
        \<and> t_ref t' = t_ref t \<and> (\<forall>x names. find_files t' x names = find_files t x names)
        \<and> (fs @ [f] = gs @ [g] \<or> ops_cd t' root (path_of (fs @ [f])) = Inl (FileOrDirectoryDoesNotExist f))
    | Inl ex \<Rightarrow> push = Inl ex \<or> t' = t"
proof -
  have pf: "list_all plain (fs @ [f])" and pg: "list_all plain (gs @ [g])" using plain by simp_all
  have name: "basename (path_of (gs @ [g])) = g" "g \<noteq> []" and dg: "cd_used t root (dirname (path_of (gs @ [g]))) = walk t root gs"
    using plain_path_parts [OF plain(3,4)] plain(4) by (simp_all add: cd_used_plain [OF plain(3)] plain_def)
  note mv' = mv [unfolded ops_mv_dir_def locate_plain [OF plain(1,2)] name(1) dg if_not_P [OF name(2)]]
  consider (fail) ex where "res = Inl ex" "t' = t"
    | (go) p d np where "walk t root fs = Inr p" "find_dir t p f = Inr d" "walk t root gs = Inr np" "dir_api_move now push d np (Some g) t = Some (res, t')"
  proof (cases "rbind (walk t root fs) (\<lambda>p. find_dir t p f)")
    case (Inl ex)
    have "res = Inl ex" "t' = t" using mv' Inl by (cases "walk t root fs"; simp)+
    then show ?thesis by (rule that(1))
  next
    case (Inr d)
    then obtain p where p: "walk t root fs = Inr p" "find_dir t p f = Inr d" by (auto simp: rbind_Inr_iff)
    show ?thesis
    proof (cases "walk t root gs")
      case (Inl ex)
      then have "res = Inl ex" "t' = t" using mv' p by simp_all
      then show ?thesis by (rule that(1))
    next
      case (Inr np)
      then show ?thesis using mv' p by (intro that(2) [of p d np]) simp_all
    qed
  qed
  then show ?thesis
  proof cases
    case go
    have old: "d_parent (t_dir t d) = Some p" and dn: "d_name (t_dir t d) = f" using go(2) find_dir_iff [OF ok] tree_ok_dir(3) [OF ok] by blast+
    have npn: "np < t_next t" by (rule walk_bound [OF ok root go(3)])
    have there: "ops_cd t root (path_of (fs @ [f])) = Inr (Some d)" unfolding ops_cd_plain [OF pf] by (simp add: walk_append go(1,2))
    obtain m where m: "move_to now d np (Some g) t = Some m" "(res, t') = (case m of Inl ex \<Rightarrow> (Inl ex, t) | Inr t \<Rightarrow> (rbind push (\<lambda>_. Inr d), t))"
      using go(4) by (auto simp: dir_api_move_def)
    show ?thesis
    proof (cases m)
      case (Inl ex)
      then show ?thesis using m(2) by simp
    next
      case (Inr t1)
      have t1: "t' = t1" "res = rbind push (\<lambda>_. Inr d)" using m(2) Inr by simp_all
      have nm: "name_or (Some g) (d_name (t_dir t d)) = g" using name(2) by (simp add: name_or_def)
      have anc: "is_ancestor_of t d np = Some (below t d np)" by (rule is_ancestor_of_rooted [OF tree_ok_dir(1) [OF ok]])
      show ?thesis
      proof (cases "np = p \<and> g = f")
        case True
        have "t' = t" using m(1) Inr t1 True old dn nm by (auto simp: move_to_def Let_def split: sum.splits)
        moreover have "ops_cd t root (path_of (gs @ [g])) = Inr (Some d)"
          unfolding ops_cd_plain [OF pg] using go(2,3) True by (simp add: walk_append)
        moreover have "fs @ [f] = gs @ [g]" using walk_unique [OF ok go(1), of gs] go(3) True by simp
        ultimately show ?thesis using t1(2) there ok by (auto simp: rbind_def split: sum.splits)
      next
        case False
        have out: "\<not> below t d np" "find_dirs t np [g] = []" "t' = reparent now d p np g t"
          using m(1) Inr t1 False old dn nm anc by (auto simp: move_to_def Let_def split: sum.splits if_splits bind_splits)
        note find = reparent_find [OF ok old npn out]
        have "walk t' root gs = Inr np" "walk t' root fs = Inr p"
          using walk_beside [OF ok, of d t'] find go(1,3) out(1) below_strict [OF ok old] by blast+
        moreover have "find_dir t' np g = Inr d" unfolding find by simp
        moreover have "find_dir t' p f = Inl (FileOrDirectoryDoesNotExist f)"
          using find_dir_cases [of t' p f] find [of p f] go(2) False by auto
        moreover have "find_dir t' x n = find_dir t x n" if "below t d x" for x n
        proof (rule find_dir_eqI)
          have "find_dir t x n \<noteq> Inr d"
            using that old below_strict [OF ok old] find_dir_iff [OF ok] tree_ok_dir(3) [OF ok] by (metis option.inject)
          then show "find_dir t' x n = Inr y \<longleftrightarrow> find_dir t x n = Inr y" for y unfolding find using that out(1) by auto
        qed
        then have "walk t' d rest = walk t d rest" for rest by (intro walk_inside [OF ok _ below_self])
        moreover have "tree_ok t'" unfolding out(3) by (rule reparent_ok [OF ok old npn out(1,2)])
        moreover have "find_dir t' x n = Inr y \<longleftrightarrow> find_dir t x n = Inr y" if "y \<noteq> d" for x n y unfolding find using that by simp
        moreover have "t_ref t' = t_ref t" "find_files t' x names = find_files t x names" for x names
          unfolding out(3) by (rule reparent_files [OF parent_neq' [OF ok old] not_self [OF out(1)]])+
        ultimately show ?thesis
          using t1(2) there by (auto simp: ops_cd_plain [OF pg] ops_cd_plain [OF pf] walk_append rbind_def split: sum.splits)
      qed
    qed
  qed simp
qed

theorem mv_dir_found_witness:
  "\<exists>t'. ops_mv_dir (Naive 5) (Inr ()) 0 ''/b'' ''/a/c'' example_tree = Some (Inr 2, t') \<and> tree_ok t'
    \<and> ops_cd t' 0 ''/a/c'' = Inr (Some 2) \<and> ops_cd t' 0 ''/b'' = Inl (FileOrDirectoryDoesNotExist ''b'')
    \<and> find_files t' 2 [] = find_files example_tree 2 []"
proof -
  have plain: "list_all plain []" "plain ''b''" "list_all plain [''a'']" "plain ''c''" by (simp_all add: plain_def)
  have "is_ancestor_of example_tree 2 1 = Some False"
    by (simp add: is_ancestor_of.simps [of example_tree 2 1] is_ancestor_of.simps [of example_tree 2 0] example_tree_dirs del: One_nat_def)
  then obtain t' where mv: "ops_mv_dir (Naive 5) (Inr ()) 0 (path_of ([] @ [''b''])) (path_of ([''a''] @ [''c''])) example_tree = Some (Inr 2, t')"
    unfolding ops_mv_dir_def locate_plain [OF plain(1,2)] plain_path_parts [OF plain(3,4)] cd_used_plain [OF plain(3)]
    by (simp add: find_dir_def find_dirs_def example_tree_children example_tree_dirs dir_api_move_def move_to_def name_or_def validate_name_def Let_def
        del: One_nat_def)
  have "(0::nat) < t_next example_tree" by (simp add: example_tree_ok)
  from mv_dir_found [OF example_tree_ok(1) this plain mv] mv show ?thesis by auto
qed

end
