(* ===== verification/Spec2Isabelle.thy ===== *)
theory Spec2Isabelle
  imports Prelude Errors Base64 Stores FileModel FileDesc Streams PrefetchingChain ContentMap
    CacheEntry LocalCache CacheBudget CacheMachine CacheContent ReadThrough ContentRepo MultiSource
    RefList DirTree DirSerial CryptoFormat UploadMessages CryptoStream CryptoRepo TgUpload
    ChunkCache TgDownload TgClients FDRepo FdApi FileApi MirrorCopy FileOps SftpHandles StatApi MetaApi Paths Ops
begin

text \<open>
  tgdcfs keeps a file system in chat messages. A file's content is cut into parts, each part is a
  document message of a store (a Telegram channel or a Discord channel), and the versions of a file
  are listed in a descriptor that is itself a message. The tree of directories and the refs from names
  to descriptors are the metadata. Mirrors are further stores with copies of the
  messages; a local cache on disk takes uploads and keeps blocks that were read. SFTP and WebDAV front ends call
  \<open>Ops\<close> with paths, \<open>Ops\<close> calls \<open>FileApi\<close> and \<open>DirectoryApi\<close>, these change the tree and write descriptors through
  \<open>FileDescApi\<close> and its repository, and bytes go through the content repositories (encrypting or not) to the stores.

  \<^bold>\<open>Conventions.\<close> Objects that are shared and mutated are records in a heap or in an explicit state, exceptions are values
  (\<open>exn + 'a\<close>), asynchronous iterators are their chunks and how they end (\<open>stream\<close>), Python integers are \<open>int\<close>, \<open>bytes\<close> are lists of \<open>8 word\<close>, dictionaries are
  association lists in insertion order. Code that runs interleaved is a step relation whose steps are what a task does between
  two suspensions. The chat services, the client libraries, the clock, random bytes, the disk and the
  cryptographic primitives are parameters; what is assumed of them (an authenticated cipher decrypts what it encrypted,
  a store returns what was stored) is a named hypothesis of the theorems that need it.

  \<^bold>\<open>Foundations.\<close> \<open>Prelude\<close> (dictionaries, ranges, lists), \<open>Errors\<close> (\<open>src/tgdcfs/errors\<close>), \<open>Base64\<close>, \<open>Streams\<close>, \<open>Paths\<close> (\<open>app/utils.py\<close>, \<open>app/sftp/paths.py\<close>):
  every path of an SFTP client resolves to a client and plain names below its root.

  \<^bold>\<open>The model of files.\<close> \<open>FileModel\<close> and \<open>FileDesc\<close> (\<open>core/model/file.py\<close>, \<open>common.py\<close>, \<open>utils/time.py\<close>): versions, their
  copies in mirrors and replicas, relocation to a new primary, the history of a descriptor and its serialised form. \<open>RefList\<close>,
  \<open>DirTree\<close> and \<open>DirSerial\<close> (\<open>core/model/directory.py\<close>, \<open>metadata.py\<close>): the list of refs with its name index behind the locale
  \<open>indexed_list\<close>, the tree as a heap of objects with its invariant \<open>tree_ok\<close>, and the round trip of the metadata.

  \<^bold>\<open>Stores.\<close> \<open>Stores\<close> (\<open>backends/base.py\<close>, planning of parts), \<open>UploadMessages\<close> (\<open>reqres.py\<close>; the locales \<open>message_reader\<close>, \<open>part_source\<close> and
  \<open>whole_source\<close> say what an uploader may rely on and are interpreted on the messages of the program), \<open>TgUpload\<close>
  (\<open>backends/telegram/uploader.py\<close>: workers under a fair lock), \<open>ChunkCache\<close> (\<open>utils/chunk_cache.py\<close>), \<open>TgDownload\<close> (\<open>backends/telegram/store.py\<close>), \<open>TgClients\<close> (\<open>backends/telegram/impl\<close>).
  They show that documents are the stream's bytes whatever the interleaving, that uploads end, and that downloads are exact or a prefix
  and an error.

  \<^bold>\<open>Reading.\<close> \<open>PrefetchingChain\<close> (\<open>utils/prefetching_chain.py\<close>), \<open>ContentMap\<close> and \<open>ContentRepo\<close>
  (\<open>core/repository/impl/file_content\<close>: ranges, fail-over between stores and layouts), \<open>MultiSource\<close> (\<open>core/multisource.py\<close>), \<open>ReadThrough\<close> (the
  locale \<open>read_through\<close>, interpreted on the cache machine). A read delivers the range or a prefix and an error, and all
  of it when a copy is available.

  \<^bold>\<open>The local cache.\<close> \<open>CacheEntry\<close>, \<open>LocalCache\<close>, \<open>CacheBudget\<close>, \<open>CacheMachine\<close>, \<open>CacheContent\<close> (\<open>core/local_cache.py\<close>, \<open>config.py\<close>): entries, admission,
  eviction, staging and fills, the budget under every interleaving, and that what is served was written.

  \<^bold>\<open>Encryption.\<close> \<open>CryptoFormat\<close>, \<open>CryptoStream\<close>, \<open>CryptoRepo\<close> (\<open>src/tgdcfs/crypto\<close>): header, chunks, names, the message that encrypts while it is
  read, and the decorator of the content repository, over the locales \<open>content_reader\<close> (its reads are exact and it raises only when a read below raised) and \<open>live_reader\<close>
  (when the repository below is up for a version, reads are complete), both interpreted on the modelled repository.

  \<^bold>\<open>Operations.\<close> \<open>FDRepo\<close> (\<open>core/repository/impl/fd/store_msg.py\<close>) and \<open>FdApi\<close> (\<open>core/api/file_desc.py\<close>): descriptors are saved, mirrored,
  read and validated. \<open>FileApi\<close>, \<open>FileOps\<close> (\<open>core/api/file.py\<close>, \<open>directory.py\<close>): removing deletes only messages of what is removed, copies keep the
  history, uploads are found. \<open>MirrorCopy\<close> (\<open>core/mirror.py\<close>): recorded copies are copies. \<open>StatApi\<close> (\<open>core/api/stat.py\<close>) and \<open>MetaApi\<close>
  (\<open>core/api/metadata.py\<close>): what listings show, and batches of metadata writes. \<open>Ops\<close> (\<open>core/ops.py\<close>): paths lead to
  directories, made and moved directories are found. \<open>SftpHandles\<close> (\<open>app/sftp/handles.py\<close>): reads at any offset are exact and closing commits the writes.
  This theory has the properties that span upload, encryption, cache and reads.

  \<^bold>\<open>Behaviour that is not intended.\<close> Where modelling showed that the code does not do what it means to, a theorem or lemma states
  what it does: the theorems \<open>cached_later_parts_empty\<close>, \<open>cancelled_upload_reports_success\<close>, \<open>outage_erases_history\<close>, \<open>copy_loses_pending\<close>,
  \<open>relocated_twin_loses_messages\<close>, \<open>read_after_error_truncates\<close>, \<open>multi_read_can_hang\<close> and \<open>displaced_read_serves_zeros\<close>, and
  lemmas such as \<open>listing_after_write_is_stale\<close>, \<open>push_beside_batch_unwritten\<close>, \<open>two_slashes_lose_client\<close> and \<open>mkdir_parents_misplaces\<close>.

  \<^bold>\<open>Loops and fuel.\<close> Loops over data are recursive functions with a termination proof. The walk of a subtree (\<open>iter_refs\<close>) takes
  the number of addresses of the heap as its fuel, which \<open>iter_file_refs_total\<close> shows to be enough for well-formed trees; writing a tree
  (\<open>to_dict\<close>) and copying one (\<open>copy_dir_into\<close>) take a fuel for the depth, and the theorem on metadata says which is enough. The
  walks up the chain of parents are partial functions that are shown to return on well-formed trees.

  \<^bold>\<open>Not modelled.\<close> The Discord client and most of its store, logins and the choice of Telegram accounts (requests to services); the WebDAV
  library \<open>asgidav\<close> and the HTTP and manager applications (request handling over \<open>Ops\<close>); the rest of the SFTP server (session and authentication
  over \<open>Ops\<close>); task tracking (progress reports only); the replication queue, the backfill of mirrors and the tee, which schedule the
  copies modelled in \<open>MirrorCopy\<close>; the repositories that write the metadata to a pinned message or to GitHub; the
  parsing of the configuration file; key bootstrap, scripts and the web front end.
\<close>

section \<open>Properties that span components\<close>

lemma encrypted_documents:
  assumes cx: "crypto_laws cx" "salted cx salt" "\<not> cx_names cx" and P: "int (length (concat cs)) \<le> 2 ^ 64"
    and seal: "seal cx stream_ops salt nonce (stream_new (cs, fin) (int (length (concat cs))) name) = Inr m"
    and up: "upload_in_order (enc_ops (cx_aead cx) stream_ops) w chunk name 0 m (tg_plan_parts premium (em_size m)) docs" and "0 < chunk"
  shows "sealed_bytes cx (new_header (cx_chunk_size cx) salt) (cx_kdf cx 32 salt ''tgfs-file-key-v1'' (cx_master cx)) (concat cs)
    (concat (map (\<lambda>(_, _, d). d) docs))"
proof -
  let ?P = "concat cs" and ?A = "cx_aead cx" and ?msg = "stream_new (cs, fin) (int (length (concat cs))) name"
  have named: "seal_name cx nonce (op_name stream_ops ?msg) = Inr name"
    using cx(3) by (simp add: seal_name_def stream_ops_def stream_new_def)
  have same: "op_set_name stream_ops name ?msg = ?msg" by (simp add: stream_ops_def stream_new_def)
  have holds: "stream_holds ?P ?msg" using stream_new_holds [of "int (length ?P)" cs fin name] by simp
  have size: "op_get_size stream_ops ?msg = int (length ?P)"
    by (simp add: stream_ops_def stream_get_size_def stream_new_def size_or_def)
  obtain X where X: "sealed_bytes cx (new_header (cx_chunk_size cx) salt) (cx_kdf cx 32 salt ''tgfs-file-key-v1'' (cx_master cx)) ?P X"
      "em_size m = int (length X)" "enc_between ?A stream_ops stream_holds X m"
    using stream_whole.seal_sealed [OF cx(1,2) _ _ P named refl refl] seal holds size unfolding same by auto
  have ps: "part_source (enc_ops ?A stream_ops) (enc_inside ?A stream_ops stream_holds) (enc_between ?A stream_ops stream_holds)
      (enc_sized ?A stream_ops stream_holds)"
    using cx(1) by (intro stream_whole.enc_part_source) (simp add: crypto_laws_def)
  have part: "0 < fst (tg_part_size_for premium (em_size m))" by (simp add: tg_part_size_for_def Let_def)
  have "0 < length X" using sealed_nonempty [OF cx(1) X(1)] by simp
  then have n: "0 < em_size m" using X(2) by simp
  from part_source.upload_in_order_exact [OF ps up X(3) _ _ assms(7)] tg_partition_parts [OF part n] X(2)
  have "concat (map (\<lambda>(_, _, d). d) docs) = X" by (simp add: tg_plan_parts_def)
  with X(1) show ?thesis by simp
qed

text \<open>C1: What is uploaded encrypted reads back as it was. A client's stream that is encrypted on the fly, cut into Telegram
  parts and sent by concurrent workers, and whose documents are then the stored bytes of a version, is what every
  range read of that version returns, through the store repository with its fail-over and its local
  cache and through the decrypting stream. When the repository is up for the version, the read ends normally with exactly
  the requested bytes of the client's stream. Otherwise it hands out those bytes or a prefix of them and an
  exception, and it raises only when the header probe or the read of the chunks that hold the range raised.\<close>

theorem encrypted_upload_reads_back:
  assumes "crypto_laws cx" and "salted cx salt" and "\<not> cx_names cx" and "int (length (concat cs)) \<le> 2 ^ 64"
    and "seal cx stream_ops salt nonce (stream_new (cs, fin) (int (length (concat cs))) name) = Inr m"
    and "upload_in_order (enc_ops (cx_aead cx) stream_ops) w chunk name 0 m (tg_plan_parts premium (em_size m)) docs"
    and "0 < chunk" and "X = concat (map (\<lambda>(_, _, d). d) docs)" and "world_stored world fv X"
    and "hc_right fv (new_header (cx_chunk_size cx) salt, cx_kdf cx 32 salt ''tgfs-file-key-v1'' (cx_master cx)) hc" and "0 \<le> b"
    and want: "want = subrange (concat cs) b
      (if e < 0 \<or> int (length (concat cs)) \<le> e then int (length (concat cs)) - 1 else e)"
    and r: "r = fst (crypto_get cx world_get fv b e admit (hc, world))"
  shows "(world_up world fv X \<longrightarrow> (\<exists>s. r = Inr s \<and> snd s = None \<and> stream_bytes s = want))
    \<and> delivers (of_res r) want
    \<and> (snd (of_res r) = None \<or> probe_failed world_get fv hc world
        \<or> chunks_failed world_get fv (cx_chunk_size cx) b e admit (probed world_get fv hc world))"
proof -
  note sealed = encrypted_documents [OF assms(1-7), folded assms(8)]
  have size: "h_chunk_size (new_header (cx_chunk_size cx) salt) = cx_chunk_size cx" by (simp add: new_header_def)
  show ?thesis
    using world.crypto_get_sealed [OF assms(1) sealed assms(9-11,4) refl, of e admit]
      live.crypto_get_complete [OF assms(1) sealed assms(9) _ assms(10,11,4) refl, of e admit]
    unfolding size want r by auto
qed

theorem encrypted_upload_reads_back_witness:
  "\<exists>m docs. seal toy_ctx stream_ops (replicate 32 5) [] (stream_new ([[1], [2, 3]], None) 3 ''f'') = Inr m
    \<and> upload_in_order (enc_ops toy_aead stream_ops) \<lparr>wk_small = 3, wk_big = 8\<rparr> 50 ''f'' 0 m (tg_plan_parts False (em_size m)) docs
    \<and> (\<exists>s. fst (crypto_get toy_ctx world_get toy_version 1 (- 1) True (new_header_cache, toy_world)) = Inr s
        \<and> snd s = None \<and> stream_bytes s = [2, 3])"
proof -
  let ?msg = "stream_new ([[1], [2, 3]], None) 3 ''f''" and ?w = "\<lparr>wk_small = 3, wk_big = 8\<rparr>" and ?ops = "enc_ops toy_aead stream_ops"
  have cx: "crypto_laws toy_ctx" "salted toy_ctx (replicate 32 5)" "\<not> cx_names toy_ctx"
    by (simp_all add: crypto_laws_def toy_ctx_def toy_aead_law toy_hmac_law salted_def kdf_law_def FILE_SALT_SIZE_def)
  have h: "stream_holds [1, 2, 3] (op_set_name stream_ops ''f'' ?msg)"
    using stream_new_holds [of 3 "[[1], [2, 3]]" None "''f''"] by (simp add: stream_ops_def stream_new_def)
  have sz: "op_get_size stream_ops (op_set_name stream_ops ''f'' ?msg) = int (length [1 :: 8 word, 2, 3])"
    by (simp add: stream_ops_def stream_new_def stream_get_size_def size_or_def)
  have nm: "seal_name toy_ctx [] (op_name stream_ops ?msg) = Inr ''f''"
    by (simp add: toy_ctx_def seal_name_def stream_ops_def stream_new_def)
  have hd: "toy_header = new_header (cx_chunk_size toy_ctx) (replicate 32 5)" and aead: "cx_aead toy_ctx = toy_aead"
    and key: "replicate 32 1 = cx_kdf toy_ctx 32 (replicate 32 5) ''tgfs-file-key-v1'' (cx_master toy_ctx)"
    by (simp_all add: toy_ctx_def toy_header_def)
  obtain m X where m: "seal toy_ctx stream_ops (replicate 32 5) [] ?msg = Inr m"
      "sealed_bytes toy_ctx toy_header (replicate 32 1) [1, 2, 3] X" "em_size m = int (length X)"
      "enc_between toy_aead stream_ops stream_holds X m"
    using stream_whole.seal_sealed [OF cx(1,2) h sz _ nm hd key] aead by auto
  have X: "X = toy_stored" "0 < int (length X)" using m(2) toy_sealed sealed_nonempty [OF cx(1) m(2)] by (auto simp: sealed_bytes_def)
  note ps = stream_whole.enc_part_source [OF toy_aead_law]
  let ?m' = "op_set_size ?ops (em_size m) (op_set_name ?ops (part_name 0 ''f'') m)"
  have sized: "enc_sized toy_aead stream_ops stream_holds X (em_size m) ?m'"
    using part_source.sized_set_size [OF ps m(4), of "em_size m"] m(3) X(2) by simp
  note gs = part_source.sized_size [OF ps sized] and ins = part_source.inside_open [OF ps sized]
  have em: "em_size m = 119" using toy_length [OF m(2)] m(3) by simp
  have wk: "0 < workers_for ?w n" for n by (simp add: workers_for_def)
  obtain u where u: "upload_reach ?ops (workers_for ?w (em_size m)) 50 ?m' u" "upload_ends u" "\<not> up_cancelled u"
    using message_reader.upload_completes [OF part_source.axioms(1) [OF ps] ins gs _ _ wk, of 50] em by auto
  have plan: "tg_plan_parts False (em_size m) = [em_size m]"
    by (simp add: em tg_plan_parts_def tg_part_size_for_def tg_partition_def PART_SIZE_DEFAULT_def)
  have up: "upload_in_order ?ops ?w 50 ''f'' 0 m (tg_plan_parts False (em_size m)) [(part_name 0 ''f'', up_file_size u, document u)]"
    unfolding plan using upload_in_order_one [OF refl, of ?ops ?w "em_size m" "''f''" m 50 u] u unfolding gs by blast
  let ?docs = "[(part_name 0 ''f'', up_file_size u, document u)]" and ?cs = "[[1 :: 8 word], [2, 3]]"
  have seal: "seal toy_ctx stream_ops (replicate 32 5) [] (stream_new (?cs, None) (int (length (concat ?cs))) ''f'') = Inr m"
    using m(1) by simp
  have up': "upload_in_order (enc_ops (cx_aead toy_ctx) stream_ops) ?w 50 ''f'' 0 m (tg_plan_parts False (em_size m)) ?docs"
    using up aead by simp
  have small: "int (length (concat ?cs)) \<le> 2 ^ 64" "(0::int) < 50" by simp_all
  have "sealed_bytes toy_ctx toy_header (replicate 32 1) [1, 2, 3] (document u)"
    using encrypted_documents [OF cx small(1) seal up' small(2)] hd key by simp
  then have "document u = toy_stored" using toy_sealed by (auto simp: sealed_bytes_def)
  then have X': "toy_stored = concat (map (\<lambda>(_, _, d). d) ?docs)" by simp
  have hc: "hc_right toy_version (new_header (cx_chunk_size toy_ctx) (replicate 32 5),
      cx_kdf toy_ctx 32 (replicate 32 5) ''tgfs-file-key-v1'' (cx_master toy_ctx)) new_header_cache"
    using new_header_cache_wf by (simp add: hc_right_def hc_lookup_def new_header_cache_def)
  have "\<exists>s. fst (crypto_get toy_ctx world_get toy_version 1 (- 1) True (new_header_cache, toy_world)) = Inr s
      \<and> snd s = None \<and> stream_bytes s = [2, 3]"
    using encrypted_upload_reads_back [OF cx small(1) seal up' small(2) X' toy_world_stored hc _ refl refl, of 1 "- 1" True]
      toy_world_up
    by (simp add: subrange_def)
  with m(1) up show ?thesis by blast
qed

end
